(* ===== verification/Kprelude.thy ===== *)
theory Kprelude
  imports Main "HOL-Library.Word"
begin

text \<open>
  Shared ground of the library: the C integer types of \<^verbatim>\<open>types.h\<close>, the outcome type of a
  kernel routine with its sequencing combinators, a weakest-precondition calculus over it,
  and the list, option and word lemmas that several components use.

  A kernel routine is a function from a state to an outcome.  It returns a value and the new
  state (\<open>Ok\<close>), it calls \<^verbatim>\<open>panic()\<close> (\<open>Panic\<close>, with the message), or it reaches
  \<^verbatim>\<open>sleep()\<close> and gives the CPU up (\<open>Blocked\<close>, with the state the scheduler finds).
\<close>

unbundle bit_operations_syntax

section \<open>Integer types\<close>

type_synonym u8 = "8 word"
type_synonym u16 = "16 word"
type_synonym u32 = "32 word"

text \<open>The value an \<^verbatim>\<open>int\<close> variable holds when \<open>n\<close> is stored in it: two's complement wrap-around.\<close>

definition int32 :: "int \<Rightarrow> int" where
  "int32 n = sint (word_of_int n :: u32)"

named_theorems kdefs \<open>definitions of the sequencing combinators\<close>
named_theorems wp_rules \<open>weakest-precondition equations and specifications\<close>

section \<open>Outcomes of kernel routines\<close>

datatype ('a, 's) outcome = Ok 'a 's | Panic string | Blocked 's

type_synonym ('a, 's) kop = "'s \<Rightarrow> ('a, 's) outcome"

definition ret :: "'a \<Rightarrow> ('a, 's) kop" where
  "ret x s = Ok x s"

definition bnd :: "('a, 's) kop \<Rightarrow> ('a \<Rightarrow> ('b, 's) kop) \<Rightarrow> ('b, 's) kop" where
  "bnd m k s = (case m s of Ok x t \<Rightarrow> k x t | Panic e \<Rightarrow> Panic e | Blocked t \<Rightarrow> Blocked t)"

definition andthen :: "('a, 's) kop \<Rightarrow> ('b, 's) kop \<Rightarrow> ('b, 's) kop" where
  "andthen m k = bnd m (\<lambda>_. k)"

definition panic :: "string \<Rightarrow> ('a, 's) kop" where
  "panic e s = Panic e"

definition fetch :: "('s \<Rightarrow> 'a) \<Rightarrow> ('a, 's) kop" where
  "fetch f s = Ok (f s) s"

definition modify :: "('s \<Rightarrow> 's) \<Rightarrow> (unit, 's) kop" where
  "modify f s = Ok () (f s)"

definition whenk :: "bool \<Rightarrow> (unit, 's) kop \<Rightarrow> (unit, 's) kop" where
  "whenk c m = (if c then m else ret ())"

text \<open>A \<^verbatim>\<open>for\<close> loop whose body may panic or sleep.\<close>

fun for_each :: "'i list \<Rightarrow> ('i \<Rightarrow> (unit, 's) kop) \<Rightarrow> (unit, 's) kop" where
  "for_each [] f = ret ()"
| "for_each (i # is) f = andthen (f i) (for_each is f)"

lemmas [kdefs] = ret_def bnd_def andthen_def panic_def fetch_def modify_def whenk_def

lemma bnd_ret [simp]: "bnd (ret x) k = k x"
  by (simp add: fun_eq_iff kdefs)

lemma bnd_assoc: "bnd (bnd m k) l = bnd m (\<lambda>x. bnd (k x) l)"
  by (simp add: fun_eq_iff kdefs split: outcome.split)

lemma ret_bnd [simp]: "bnd m ret = m"
  by (simp add: fun_eq_iff kdefs split: outcome.split)

lemma bnd_eq_Ok:
  "bnd m k s = Ok y u \<longleftrightarrow> (\<exists>x t. m s = Ok x t \<and> k x t = Ok y u)"
  by (simp add: bnd_def split: outcome.split)

lemma andthen_eq_Ok:
  "andthen m k s = Ok y u \<longleftrightarrow> (\<exists>x t. m s = Ok x t \<and> k t = Ok y u)"
  by (simp add: andthen_def bnd_eq_Ok)

section \<open>Weakest preconditions\<close>

text \<open>
  \<open>wp m Q s\<close>: from \<open>s\<close> the routine \<open>m\<close> returns, without panic and without sleeping, and
  the result and new state satisfy \<open>Q\<close>.  \<open>wlp m Q s\<close>: if it returns, they satisfy \<open>Q\<close>.
\<close>

definition wp :: "('a, 's) kop \<Rightarrow> ('a \<Rightarrow> 's \<Rightarrow> bool) \<Rightarrow> 's \<Rightarrow> bool" where
  "wp m Q s \<longleftrightarrow> (case m s of Ok x t \<Rightarrow> Q x t | Panic e \<Rightarrow> False | Blocked t \<Rightarrow> False)"

definition wlp :: "('a, 's) kop \<Rightarrow> ('a \<Rightarrow> 's \<Rightarrow> bool) \<Rightarrow> 's \<Rightarrow> bool" where
  "wlp m Q s \<longleftrightarrow> (case m s of Ok x t \<Rightarrow> Q x t | Panic e \<Rightarrow> True | Blocked t \<Rightarrow> True)"

lemma wp_iff: "wp m Q s \<longleftrightarrow> (\<exists>x t. m s = Ok x t \<and> Q x t)"
  by (simp add: wp_def split: outcome.split)

lemma wlp_iff: "wlp m Q s \<longleftrightarrow> (\<forall>x t. m s = Ok x t \<longrightarrow> Q x t)"
  by (simp add: wlp_def split: outcome.split)

lemma wp_bnd [wp_rules]: "wp (bnd m k) Q s = wp m (\<lambda>x. wp (k x) Q) s"
  by (simp add: wp_def bnd_def split: outcome.split)

lemma wp_andthen [wp_rules]: "wp (andthen m k) Q s = wp m (\<lambda>_. wp k Q) s"
  by (simp add: andthen_def wp_bnd)

lemma wp_ret [wp_rules]: "wp (ret x) Q s = Q x s"
  by (simp add: wp_def ret_def)

lemma wp_fetch [wp_rules]: "wp (fetch f) Q s = Q (f s) s"
  by (simp add: wp_def fetch_def)

lemma wp_modify [wp_rules]: "wp (modify f) Q s = Q () (f s)"
  by (simp add: wp_def modify_def)

lemma wp_panic [wp_rules]: "wp (panic e) Q s = False"
  by (simp add: wp_def panic_def)

lemma wp_if [wp_rules]: "wp (if c then m else n) Q s = (if c then wp m Q s else wp n Q s)"
  by simp

lemma wp_whenk [wp_rules]: "wp (whenk c m) Q s = (if c then wp m Q s else Q () s)"
  by (simp add: whenk_def wp_ret)

lemma wp_mono: "wp m P s \<Longrightarrow> (\<And>x t. P x t \<Longrightarrow> Q x t) \<Longrightarrow> wp m Q s"
  by (auto simp: wp_iff)

lemma wp_conj: "wp m P s \<Longrightarrow> wp m Q s \<Longrightarrow> wp m (\<lambda>x t. P x t \<and> Q x t) s"
  by (auto simp: wp_iff)

lemma wp_Ok: "wp m Q s \<Longrightarrow> m s = Ok x t \<Longrightarrow> Q x t"
  by (simp add: wp_def)

lemma wp_OkI: "m s = Ok x t \<Longrightarrow> Q x t \<Longrightarrow> wp m Q s"
  by (simp add: wp_def)

lemma wlp_bnd: "wlp (bnd m k) Q s = wlp m (\<lambda>x. wlp (k x) Q) s"
  by (simp add: wlp_def bnd_def split: outcome.split)

lemma wlp_andthen: "wlp (andthen m k) Q s = wlp m (\<lambda>_. wlp k Q) s"
  by (simp add: andthen_def wlp_bnd)

lemma wlp_mono: "wlp m P s \<Longrightarrow> (\<And>x t. P x t \<Longrightarrow> Q x t) \<Longrightarrow> wlp m Q s"
  by (auto simp: wlp_iff)

lemma wp_for_each_Nil [wp_rules]: "wp (for_each [] f) Q s = Q () s"
  by (simp add: wp_ret)

lemma wp_for_each_Cons [wp_rules]:
  "wp (for_each (i # is) f) Q s = wp (f i) (\<lambda>_. wp (for_each is f) Q) s"
  by (simp add: wp_andthen)

text \<open>The loop rule: an invariant indexed by the part of the range already done.\<close>

lemma wp_for_each:
  assumes "I [] s"
    and "\<And>done i rest t. is = done @ i # rest \<Longrightarrow> I done t \<Longrightarrow> wp (f i) (\<lambda>_. I (done @ [i])) t"
  shows "wp (for_each is f) (\<lambda>_. I is) s"
proof -
  have "is = pre @ post \<Longrightarrow> I pre t \<Longrightarrow> wp (for_each post f) (\<lambda>_. I is) t" for pre post t
  proof (induction post arbitrary: pre t)
    case Nil
    then show ?case by (simp add: wp_ret)
  next
    case (Cons i post)
    then have "wp (f i) (\<lambda>_. I (pre @ [i])) t" using assms(2) by blast
    then show ?case
      using Cons.IH [of "pre @ [i]"] Cons.prems by (auto simp: wp_andthen elim!: wp_mono)
  qed
  from this [of "[]" "is" s] show ?thesis using assms(1) by simp
qed

section \<open>Table scans\<close>

text \<open>The index of the first entry that satisfies a test: the kernel's linear table scans.\<close>

fun find_from :: "('a \<Rightarrow> bool) \<Rightarrow> nat \<Rightarrow> 'a list \<Rightarrow> nat option" where
  "find_from P i [] = None"
| "find_from P i (x # xs) = (if P x then Some i else find_from P (Suc i) xs)"

definition find_idx :: "('a \<Rightarrow> bool) \<Rightarrow> 'a list \<Rightarrow> nat option" where
  "find_idx P xs = find_from P 0 xs"

lemma find_from_Some:
  "find_from P i xs = Some j \<Longrightarrow>
     i \<le> j \<and> j < i + length xs \<and> P (xs ! (j - i)) \<and> (\<forall>k<j - i. \<not> P (xs ! k))"
proof (induction P i xs rule: find_from.induct)
  case (1 P i)
  then show ?case by simp
next
  case (2 P i x xs)
  show ?case
  proof (cases "P x")
    case True
    with "2.prems" show ?thesis by auto
  next
    case False
    with 2 have IH: "Suc i \<le> j \<and> j < Suc i + length xs \<and> P (xs ! (j - Suc i))
        \<and> (\<forall>k<j - Suc i. \<not> P (xs ! k))" by simp
    then obtain d where d: "j = Suc i + d" by (metis le_Suc_ex)
    with IH False show ?thesis by (auto simp: nth_Cons' less_diff_conv)
  qed
qed

lemma find_from_None: "find_from P i xs = None \<longleftrightarrow> (\<forall>x\<in>set xs. \<not> P x)"
  by (induction P i xs rule: find_from.induct) auto

lemma find_idx_Some:
  assumes "find_idx P xs = Some j"
  shows "j < length xs" and "P (xs ! j)" and "k < j \<Longrightarrow> \<not> P (xs ! k)"
  using find_from_Some [of P 0 xs j] assms by (auto simp: find_idx_def)

lemma find_idx_None: "find_idx P xs = None \<longleftrightarrow> (\<forall>x\<in>set xs. \<not> P x)"
  by (simp add: find_idx_def find_from_None)

lemma find_idx_None_nth: "find_idx P xs = None \<longleftrightarrow> (\<forall>i<length xs. \<not> P (xs ! i))"
  by (metis find_idx_None in_set_conv_nth)

lemma find_idx_is_Some: "i < length xs \<Longrightarrow> P (xs ! i) \<Longrightarrow> \<exists>j. find_idx P xs = Some j"
  by (metis find_idx_None_nth not_None_eq)

section \<open>Lists and words\<close>

lemma in_set_update: "y \<in> set (xs[i := x]) \<Longrightarrow> y = x \<or> y \<in> set xs"
  using set_update_subset_insert by fastforce

lemma list_all_update:
  "(\<forall>y\<in>set xs. P y) \<Longrightarrow> P x \<Longrightarrow> \<forall>y\<in>set (xs[i := x]). P y"
  using in_set_update by metis

lemma unat_lt_iff: "(a::'a::len word) < b \<longleftrightarrow> unat a < unat b"
  by (simp add: word_less_nat_alt)

lemma unat_le_iff: "(a::'a::len word) \<le> b \<longleftrightarrow> unat a \<le> unat b"
  by (simp add: word_le_nat_alt)

lemma unat_add_small:
  "unat (a::'a::len word) + unat b < 2 ^ LENGTH('a) \<Longrightarrow> unat (a + b) = unat a + unat b"
  by (simp add: unat_word_ariths)

lemma unat_sub_small: "b \<le> (a::'a::len word) \<Longrightarrow> unat (a - b) = unat a - unat b"
  by (simp add: unat_sub)

lemma sint_small: "0 \<le> n \<Longrightarrow> n < 2 ^ 31 \<Longrightarrow> sint (word_of_int n :: u32) = n"
  by (simp add: sint_sbintrunc' signed_take_bit_int_eq_self)

lemma int32_small: "- (2 ^ 31) \<le> n \<Longrightarrow> n < 2 ^ 31 \<Longrightarrow> int32 n = n"
  by (simp add: int32_def sint_sbintrunc' signed_take_bit_int_eq_self)

lemma sint_unat_small: "unat (w :: u32) < 2 ^ 31 \<Longrightarrow> sint w = int (unat w)"
proof -
  assume "unat w < 2 ^ 31"
  then have "uint w < 2 ^ 31" by (metis of_nat_less_iff of_nat_numeral of_nat_power uint_nat)
  then show ?thesis using sint_small [of "uint w"] by simp
qed

end
