(* ===== verification/Spinlock.thy ===== *)
theory Spinlock
  imports Kprelude
begin

text \<open>
  Spin locks of \<^verbatim>\<open>spinlock.c\<close> on several CPUs.  Each CPU has its \<^verbatim>\<open>ncli\<close>, \<^verbatim>\<open>intena\<close> and
  interrupt flag; each lock has \<^verbatim>\<open>locked\<close> and \<^verbatim>\<open>cpu\<close>.  \<^verbatim>\<open>acquire\<close> and \<^verbatim>\<open>release\<close> are split at
  their atomic memory operations: a CPU's place in them is its program point.  The step relation
  interleaves the CPUs arbitrarily.  \<^verbatim>\<open>getcallerpcs\<close> only fills a debugging array and is left
  out.
\<close>

section \<open>Definitions\<close>

record cpu =
  c_ncli :: int
  c_intena :: bool
  c_if :: bool

text \<open>\<^verbatim>\<open>pushcli\<close>: read the flag, clear it, remember it at the outermost level.\<close>

definition pushcli :: "cpu \<Rightarrow> cpu" where
  "pushcli c = c\<lparr>c_if := False,
     c_intena := (if c_ncli c = 0 then c_if c else c_intena c),
     c_ncli := c_ncli c + 1\<rparr>"

definition popcli :: "cpu \<Rightarrow> string + cpu" where
  "popcli c =
     (if c_if c then Inl ''popcli - interruptible''
      else let n = c_ncli c - 1 in
        if n < 0 then Inl ''popcli''
        else Inr (c\<lparr>c_ncli := n, c_if := (n = 0 \<and> c_intena c)\<rparr>))"

record spinlock =
  l_locked :: u32
  l_cpu :: "nat option"

definition initlock :: spinlock where
  "initlock = \<lparr>l_locked = 0, l_cpu = None\<rparr>"

definition spin_holding :: "spinlock \<Rightarrow> nat \<Rightarrow> bool" where
  "spin_holding lk c \<longleftrightarrow> l_locked lk \<noteq> 0 \<and> l_cpu lk = Some c"

text \<open>\<^verbatim>\<open>xchg(&lk->locked, 1)\<close>: the old value and the lock after.\<close>

definition xchg_lock :: "spinlock \<Rightarrow> u32 \<times> spinlock" where
  "xchg_lock lk = (l_locked lk, lk\<lparr>l_locked := 1\<rparr>)"

text \<open>
  Program points: outside; spinning in \<^verbatim>\<open>acquire\<close>; the exchange won and \<^verbatim>\<open>lk->cpu\<close> not yet
  written; in \<^verbatim>\<open>release\<close> after \<^verbatim>\<open>lk->cpu = 0\<close>; in \<^verbatim>\<open>release\<close> after the store that clears
  \<^verbatim>\<open>locked\<close>, before \<^verbatim>\<open>popcli\<close>; stopped by \<^verbatim>\<open>panic\<close>.
\<close>

datatype 'l ppoint = Outside | Spinning 'l | Won 'l | Dropping 'l | Popping | Stopped string

record 'l machine =
  m_cpu :: "nat \<Rightarrow> cpu"
  m_lock :: "'l \<Rightarrow> spinlock"
  m_pt :: "nat \<Rightarrow> 'l ppoint"

inductive lock_step :: "'l machine \<Rightarrow> 'l machine \<Rightarrow> bool" where
  acquire_enter:
    "m_pt m c = Outside \<Longrightarrow> \<not> spin_holding (m_lock m l) c \<Longrightarrow>
     lock_step m (m\<lparr>m_cpu := (m_cpu m)(c := pushcli (m_cpu m c)), m_pt := (m_pt m)(c := Spinning l)\<rparr>)"
| acquire_panic:
    "m_pt m c = Outside \<Longrightarrow> spin_holding (m_lock m l) c \<Longrightarrow>
     lock_step m (m\<lparr>m_cpu := (m_cpu m)(c := pushcli (m_cpu m c)),
                    m_pt := (m_pt m)(c := Stopped ''acquire'')\<rparr>)"
| acquire_xchg:
    "m_pt m c = Spinning l \<Longrightarrow> xchg_lock (m_lock m l) = (old, lk) \<Longrightarrow>
     lock_step m (m\<lparr>m_lock := (m_lock m)(l := lk),
                    m_pt := (m_pt m)(c := (if old \<noteq> 0 then Spinning l else Won l))\<rparr>)"
| acquire_record:
    "m_pt m c = Won l \<Longrightarrow>
     lock_step m (m\<lparr>m_lock := (m_lock m)(l := (m_lock m l)\<lparr>l_cpu := Some c\<rparr>),
                    m_pt := (m_pt m)(c := Outside)\<rparr>)"
| release_panic:
    "m_pt m c = Outside \<Longrightarrow> \<not> spin_holding (m_lock m l) c \<Longrightarrow>
     lock_step m (m\<lparr>m_pt := (m_pt m)(c := Stopped ''release'')\<rparr>)"
| release_enter:
    "m_pt m c = Outside \<Longrightarrow> spin_holding (m_lock m l) c \<Longrightarrow>
     lock_step m (m\<lparr>m_lock := (m_lock m)(l := (m_lock m l)\<lparr>l_cpu := None\<rparr>),
                    m_pt := (m_pt m)(c := Dropping l)\<rparr>)"
| release_store:
    "m_pt m c = Dropping l \<Longrightarrow>
     lock_step m (m\<lparr>m_lock := (m_lock m)(l := (m_lock m l)\<lparr>l_locked := 0\<rparr>), m_pt := (m_pt m)(c := Popping)\<rparr>)"
| release_popcli:
    "m_pt m c = Popping \<Longrightarrow> popcli (m_cpu m c) = Inr k \<Longrightarrow>
     lock_step m (m\<lparr>m_cpu := (m_cpu m)(c := k), m_pt := (m_pt m)(c := Outside)\<rparr>)"
| release_popcli_panic:
    "m_pt m c = Popping \<Longrightarrow> popcli (m_cpu m c) = Inl e \<Longrightarrow>
     lock_step m (m\<lparr>m_pt := (m_pt m)(c := Stopped e)\<rparr>)"

definition start_machine :: "(nat \<Rightarrow> bool) \<Rightarrow> 'l machine" where
  "start_machine ifs = \<lparr>m_cpu = (\<lambda>c. \<lparr>c_ncli = 0, c_intena = False, c_if = ifs c\<rparr>),
     m_lock = (\<lambda>l. initlock), m_pt = (\<lambda>c. Outside)\<rparr>"

inductive lock_reach :: "(nat \<Rightarrow> bool) \<Rightarrow> 'l machine \<Rightarrow> bool" for ifs where
  start: "lock_reach ifs (start_machine ifs)"
| step: "lock_reach ifs m \<Longrightarrow> lock_step m n \<Longrightarrow> lock_reach ifs n"

text \<open>A CPU owns a lock from the winning exchange to the store that clears \<^verbatim>\<open>locked\<close>.\<close>

definition owns :: "'l machine \<Rightarrow> nat \<Rightarrow> 'l \<Rightarrow> bool" where
  "owns m c l \<longleftrightarrow> l_cpu (m_lock m l) = Some c \<or> m_pt m c = Won l \<or> m_pt m c = Dropping l"

section \<open>Invariants\<close>

definition excl_inv :: "'l machine \<Rightarrow> bool" where
  "excl_inv m \<longleftrightarrow>
     (\<forall>l c. owns m c l \<longrightarrow> l_locked (m_lock m l) \<noteq> 0)
   \<and> (\<forall>l c d. owns m c l \<longrightarrow> owns m d l \<longrightarrow> c = d)
   \<and> (\<forall>l c. (m_pt m c = Won l \<or> m_pt m c = Dropping l) \<longrightarrow> l_cpu (m_lock m l) = None)"

lemmas lock_machine_defs = pushcli_def spin_holding_def xchg_lock_def owns_def

inductive_cases lock_stepE: "lock_step m n"

lemma excl_inv_start: "excl_inv (start_machine ifs)"
  by (simp add: excl_inv_def owns_def start_machine_def initlock_def)

lemma excl_invD:
  assumes "excl_inv m"
  shows "owns m c l \<Longrightarrow> l_locked (m_lock m l) \<noteq> 0"
    and "owns m c l \<Longrightarrow> owns m d l \<Longrightarrow> c = d"
    and "m_pt m c = Won l \<Longrightarrow> l_cpu (m_lock m l) = None"
    and "m_pt m c = Dropping l \<Longrightarrow> l_cpu (m_lock m l) = None"
  using assms unfolding excl_inv_def by blast+

text \<open>
  Every step either keeps the owners, or drops some, or adds one owner of a lock that had none.
\<close>

lemma excl_invI:
  assumes "excl_inv m"
    and "\<And>d k. owns n d k \<Longrightarrow> owns m d k \<or> (d = c \<and> k = l \<and> (\<forall>e. \<not> owns m e l))"
    and "\<And>d k. owns n d k \<Longrightarrow> l_locked (m_lock n k) \<noteq> 0"
    and "\<And>d k. m_pt n d = Won k \<or> m_pt n d = Dropping k \<Longrightarrow> l_cpu (m_lock n k) = None"
  shows "excl_inv n"
proof -
  have "e = d" if "owns n d k" "owns n e k" for d e k
    using assms(2) [OF that(1)] assms(2) [OF that(2)] excl_invD(2) [OF assms(1)] by blast
  with assms(3,4) show ?thesis unfolding excl_inv_def by blast
qed

lemma no_owner_unlocked: "excl_inv m \<Longrightarrow> l_locked (m_lock m l) = 0 \<Longrightarrow> \<not> owns m d l"
  using excl_invD(1) [of m d l] by blast

lemma release_store_excl:
  assumes inv: "excl_inv m" and pt: "m_pt m c = Dropping l"
    and lk: "m_lock n = (m_lock m)(l := (m_lock m l)\<lparr>l_locked := 0\<rparr>)"
    and pts: "m_pt n = (m_pt m)(c := Popping)"
  shows "excl_inv n"
proof (rule excl_invI [OF inv, where c = c and l = l])
  fix d k
  assume o: "owns n d k"
  then have om: "owns m d k" using lk pts by (auto simp: owns_def split: if_splits)
  then show "owns m d k \<or> (d = c \<and> k = l \<and> (\<forall>e. \<not> owns m e l))" ..
  have "owns m c l" using pt by (simp add: owns_def)
  moreover have "\<not> owns n c l"
    using excl_invD(4) [OF inv pt] lk pts by (auto simp: owns_def)
  ultimately have "k \<noteq> l" using om o excl_invD(2) [OF inv] by blast
  then show "l_locked (m_lock n k) \<noteq> 0" using om lk excl_invD(1) [OF inv] by simp
next
  fix d k
  assume "m_pt n d = Won k \<or> m_pt n d = Dropping k"
  then show "l_cpu (m_lock n k) = None"
    using excl_invD(3,4) [OF inv] lk pts by (auto split: if_splits)
qed

lemma quiet_step_excl:
  assumes inv: "excl_inv m" and pt: "m_pt m c \<in> {Outside, Popping}"
    and lk: "m_lock n = m_lock m" and pts: "m_pt n = (m_pt m)(c := q)"
    and q: "\<forall>k. q \<noteq> Won k \<and> q \<noteq> Dropping k"
  shows "excl_inv n"
proof -
  have own: "owns n d k \<longleftrightarrow> owns m d k" for d k
    using pt lk pts q by (auto simp: owns_def)
  have "l_cpu (m_lock m k) = None" if "m_pt n d = Won k \<or> m_pt n d = Dropping k" for d k
    using that pts q excl_invD(3,4) [OF inv] by (auto split: if_splits)
  then show ?thesis
    using own lk excl_invD(1) [OF inv] by (intro excl_invI [OF inv]) auto
qed

lemma lock_step_excl:
  assumes "lock_step m n" and inv: "excl_inv m"
  shows "excl_inv n"
  using assms(1)
proof cases
  case (acquire_xchg c l old lk)
  have own: "owns n d k \<longleftrightarrow> owns m d k \<or> (old = 0 \<and> d = c \<and> k = l)" for d k
    using acquire_xchg by (auto simp: owns_def xchg_lock_def)
  have "l_locked (m_lock n k) = (if k = l then 1 else l_locked (m_lock m k))"
    and cpu: "l_cpu (m_lock n k) = l_cpu (m_lock m k)" for k
    using acquire_xchg by (auto simp: xchg_lock_def)
  moreover have free: "old = 0 \<Longrightarrow> \<not> owns m e l" for e
    using acquire_xchg no_owner_unlocked [OF inv] by (auto simp: xchg_lock_def)
  moreover have "old = 0 \<Longrightarrow> l_cpu (m_lock m l) = None"
    using free by (cases "l_cpu (m_lock m l)") (auto simp: owns_def)
  then have "l_cpu (m_lock m k) = None" if "m_pt n d = Won k \<or> m_pt n d = Dropping k" for d k
    using that acquire_xchg excl_invD(3,4) [OF inv] by (cases "d = c") (auto split: if_splits)
  ultimately show ?thesis
    using own excl_invD(1) [OF inv]
    by (intro excl_invI [OF inv, where c = c and l = l]) (auto simp: cpu)
next
  case (acquire_record c l)
  have c: "owns m c l" using acquire_record by (simp add: owns_def)
  have own: "owns n d k \<Longrightarrow> owns m d k" for d k
    using acquire_record c by (auto simp: owns_def split: if_splits)
  have "l_locked (m_lock n k) = l_locked (m_lock m k)" for k using acquire_record by auto
  moreover have "l_cpu (m_lock n k) = None" if "m_pt n d = Won k \<or> m_pt n d = Dropping k" for d k
  proof -
    have "d \<noteq> c" "owns m d k" using that acquire_record by (auto simp: owns_def split: if_splits)
    then have "k \<noteq> l" using c excl_invD(2) [OF inv] by blast
    with \<open>d \<noteq> c\<close> that acquire_record show ?thesis using excl_invD(3,4) [OF inv] by auto
  qed
  moreover from calculation have "owns n d k \<Longrightarrow> l_locked (m_lock n k) \<noteq> 0" for d k
    using own excl_invD(1) [OF inv] by metis
  ultimately show ?thesis
    using own by (intro excl_invI [OF inv]) blast+
next
  case (release_enter c l)
  have c: "owns m c l" using release_enter by (simp add: owns_def spin_holding_def)
  have own: "owns n d k \<Longrightarrow> owns m d k" for d k
    using release_enter c by (auto simp: owns_def split: if_splits)
  have "l_locked (m_lock n k) = l_locked (m_lock m k)" for k using release_enter by auto
  moreover have "l_cpu (m_lock n k) = None" if "m_pt n d = Won k \<or> m_pt n d = Dropping k" for d k
    using that release_enter excl_invD(3,4) [OF inv] by (cases "d = c") auto
  moreover from calculation have "owns n d k \<Longrightarrow> l_locked (m_lock n k) \<noteq> 0" for d k
    using own excl_invD(1) [OF inv] by metis
  ultimately show ?thesis
    using own by (intro excl_invI [OF inv]) blast+
next
  case (release_store c l)
  then show ?thesis using release_store_excl [OF inv] by simp
next
  case (release_popcli c k)
  show ?thesis by (rule quiet_step_excl [OF inv, of c n Outside]) (use release_popcli in auto)
next
  case (release_popcli_panic c e)
  show ?thesis by (rule quiet_step_excl [OF inv, of c n "Stopped e"]) (use release_popcli_panic in auto)
next
  case (acquire_enter c l)
  show ?thesis by (rule quiet_step_excl [OF inv, of c n "Spinning l"]) (use acquire_enter in auto)
next
  case (acquire_panic c l)
  show ?thesis by (rule quiet_step_excl [OF inv, of c n "Stopped ''acquire''"]) (use acquire_panic in auto)
next
  case (release_panic c l)
  show ?thesis by (rule quiet_step_excl [OF inv, of c n "Stopped ''release''"]) (use release_panic in auto)
qed

subsection \<open>Interrupts and nesting depth\<close>

text \<open>The locks a CPU owns or waits for.  One \<^verbatim>\<open>pushcli\<close> is outstanding for each, and one more between the store
  that clears \<^verbatim>\<open>locked\<close> and the \<^verbatim>\<open>popcli\<close> of \<^verbatim>\<open>release\<close>.\<close>

definition busy :: "'l machine \<Rightarrow> nat \<Rightarrow> 'l set" where
  "busy m c = {l. owns m c l \<or> m_pt m c = Spinning l}"

definition depth :: "'l machine \<Rightarrow> nat \<Rightarrow> nat" where
  "depth m c = card (busy m c) + (if m_pt m c = Popping then 1 else 0)"

definition running :: "'l machine \<Rightarrow> nat \<Rightarrow> bool" where
  "running m c \<longleftrightarrow> (\<forall>e. m_pt m c \<noteq> Stopped e)"

text \<open>A CPU that has called \<^verbatim>\<open>pushcli\<close> \<open>n\<close> more times than \<^verbatim>\<open>popcli\<close>, from an interrupt flag \<open>b\<close>.\<close>

definition cli_ok :: "bool \<Rightarrow> cpu \<Rightarrow> nat \<Rightarrow> bool" where
  "cli_ok b k n \<longleftrightarrow> c_ncli k = int n \<and> (if n = 0 then c_if k = b else \<not> c_if k \<and> c_intena k = b)"

lemma pushcli_ok: "cli_ok b k n \<Longrightarrow> cli_ok b (pushcli k) (Suc n)"
  by (auto simp: cli_ok_def pushcli_def split: if_splits)

lemma popcli_ok: "cli_ok b k (Suc n) \<Longrightarrow> \<exists>k'. popcli k = Inr k' \<and> cli_ok b k' n"
  by (auto simp: cli_ok_def popcli_def Let_def)

definition irq_inv :: "(nat \<Rightarrow> bool) \<Rightarrow> 'l machine \<Rightarrow> bool" where
  "irq_inv ifs m \<longleftrightarrow> (\<forall>c. running m c \<longrightarrow> finite (busy m c) \<and> cli_ok (ifs c) (m_cpu m c) (depth m c))"

lemma irq_inv_start: "irq_inv ifs (start_machine ifs)"
  by (simp add: irq_inv_def busy_def depth_def owns_def cli_ok_def start_machine_def initlock_def)

lemma irq_invI:
  assumes "irq_inv ifs m"
    and "\<And>d. d \<noteq> c \<Longrightarrow> running n d \<Longrightarrow> m_pt n d = m_pt m d \<and> busy n d = busy m d \<and> m_cpu n d = m_cpu m d"
    and "running n c \<Longrightarrow> finite (busy n c) \<and> cli_ok (ifs c) (m_cpu n c) (depth n c)"
  shows "irq_inv ifs n"
  unfolding irq_inv_def
proof (intro allI impI)
  fix d
  assume d: "running n d"
  show "finite (busy n d) \<and> cli_ok (ifs d) (m_cpu n d) (depth n d)"
  proof (cases "d = c")
    case True
    with d assms(3) show ?thesis by simp
  next
    case False
    note s = assms(2) [OF this d]
    then have "running m d" using d by (simp add: running_def)
    then show ?thesis using assms(1) s by (simp add: irq_inv_def depth_def)
  qed
qed

lemma irq_invD:
  assumes "irq_inv ifs m" "m_pt m c = p" "\<forall>e. p \<noteq> Stopped e"
  shows "finite (busy m c)" "cli_ok (ifs c) (m_cpu m c) (depth m c)"
  using assms unfolding irq_inv_def running_def by auto

lemma popping_popcli:
  assumes "irq_inv ifs m" "m_pt m c = Popping"
  shows "\<exists>k. popcli (m_cpu m c) = Inr k \<and> cli_ok (ifs c) k (card (busy m c))"
  using popcli_ok irq_invD(2) [OF assms] assms(2) by (simp add: depth_def)

lemma lock_step_irq:
  assumes "lock_step m n" and ex: "excl_inv m" and inv: "irq_inv ifs m"
  shows "irq_inv ifs n"
  using assms(1)
proof cases
  case (acquire_enter c l)
  note D = irq_invD [OF inv acquire_enter(2), simplified]
  have "l \<notin> busy m c"
    using acquire_enter excl_invD(1) [OF ex, of c l] by (auto simp: busy_def owns_def spin_holding_def)
  moreover have "busy n c = insert l (busy m c)"
    using acquire_enter by (auto simp: busy_def owns_def)
  ultimately have "finite (busy n c)" "depth n c = Suc (depth m c)"
    using acquire_enter D(1) by (simp_all add: depth_def)
  then show ?thesis
    using acquire_enter pushcli_ok [OF D(2)]
    by (intro irq_invI [OF inv, of c]) (auto simp: busy_def owns_def)
next
  case (acquire_xchg c l old lk)
  note D = irq_invD [OF inv acquire_xchg(2), simplified]
  have "busy n d = busy m d" for d
    using acquire_xchg by (auto simp: busy_def owns_def xchg_lock_def split: if_splits)
  then show ?thesis
    using acquire_xchg D by (intro irq_invI [OF inv, of c]) (auto simp: depth_def)
next
  case (acquire_record c l)
  note D = irq_invD [OF inv acquire_record(2), simplified]
  have "busy n d = busy m d" for d
    using acquire_record excl_invD(3) [OF ex acquire_record(2)]
    by (auto simp: busy_def owns_def split: if_splits)
  then show ?thesis
    using acquire_record D by (intro irq_invI [OF inv, of c]) (auto simp: depth_def)
next
  case (release_enter c l)
  note D = irq_invD [OF inv release_enter(2), simplified]
  have "busy n d = busy m d" for d
    using release_enter by (auto simp: busy_def owns_def spin_holding_def split: if_splits)
  then show ?thesis
    using release_enter D by (intro irq_invI [OF inv, of c]) (auto simp: depth_def)
next
  case (release_store c l)
  note D = irq_invD [OF inv release_store(2), simplified]
  have l: "l \<in> busy m c" using release_store by (simp add: busy_def owns_def)
  have b: "busy n c = busy m c - {l}"
    using release_store excl_invD(4) [OF ex release_store(2)] by (auto simp: busy_def owns_def)
  have "Suc (card (busy m c - {l})) = card (busy m c)" using l D(1) by (simp only: card_Suc_Diff1)
  then have "depth n c = depth m c" using b release_store by (simp add: depth_def)
  then show ?thesis
    using release_store b D
    by (intro irq_invI [OF inv, of c]) (auto simp: busy_def owns_def split: if_splits)
next
  case (release_popcli c k)
  have "busy n d = busy m d" for d using release_popcli by (auto simp: busy_def owns_def)
  moreover have "cli_ok (ifs c) k (card (busy m c))"
    using popping_popcli [OF inv release_popcli(2)] release_popcli(3) by simp
  ultimately show ?thesis
    using release_popcli irq_invD(1) [OF inv release_popcli(2)] by (intro irq_invI [OF inv, of c]) (auto simp: depth_def)
next
  case (release_popcli_panic c e)
  then show ?thesis using popping_popcli [OF inv release_popcli_panic(2)] by auto
next
  case (acquire_panic c l)
  then show ?thesis
    by (intro irq_invI [OF inv, of c]) (auto simp: running_def busy_def owns_def)
next
  case (release_panic c l)
  then show ?thesis
    by (intro irq_invI [OF inv, of c]) (auto simp: running_def busy_def owns_def)
qed

lemma lock_reach_inv: "lock_reach ifs m \<Longrightarrow> excl_inv m \<and> irq_inv ifs m"
proof (induction rule: lock_reach.induct)
  case start
  show ?case by (simp add: excl_inv_start irq_inv_start)
next
  case (step m n)
  then have "excl_inv n" and "irq_inv ifs n" by (auto intro: lock_step_excl lock_step_irq)
  then show ?case ..
qed

section \<open>Properties\<close>

text \<open>C4: in every reachable state of the lock protocol, under any interleaving of the CPUs, no
  two CPUs own the same spin lock.\<close>

theorem spinlock_mutual_exclusion:
  assumes "lock_reach ifs m" and "owns m c l" and "owns m d l"
  shows "c = d"
proof -
  have "excl_inv m" using lock_reach_inv [OF assms(1)] ..
  from this assms(2,3) show ?thesis by (rule excl_invD(2))
qed

theorem spinlock_mutual_exclusion_witness:
  "\<exists>m. lock_reach (\<lambda>_. True) m \<and> owns m 1 (0::nat) \<and> (\<forall>d. owns m d 0 \<longrightarrow> 1 = d)"
proof -
  let ?s = "start_machine (\<lambda>_. True) :: nat machine"
  let ?a = "?s\<lparr>m_cpu := (m_cpu ?s)(1 := pushcli (m_cpu ?s 1)), m_pt := (m_pt ?s)(1 := Spinning 0)\<rparr>"
  let ?b = "?a\<lparr>m_lock := (m_lock ?a)(0 := initlock\<lparr>l_locked := 1\<rparr>), m_pt := (m_pt ?a)(1 := Won 0)\<rparr>"
  have "lock_step ?s ?a"
    by (rule acquire_enter) (simp_all add: start_machine_def spin_holding_def initlock_def)
  moreover have "lock_step ?a ?b"
    using acquire_xchg [of ?a 1 0 0 "initlock\<lparr>l_locked := 1\<rparr>"]
    by (simp add: xchg_lock_def start_machine_def initlock_def)
  ultimately have r: "lock_reach (\<lambda>_. True) ?b" by (meson lock_reach.intros)
  have o: "owns ?b 1 0" by (simp add: owns_def)
  show ?thesis using spinlock_mutual_exclusion [OF r o] r o by blast
qed

text \<open>C5: interrupts and spin locks.  A CPU that waits for or owns a spin lock, or has cleared \<^verbatim>\<open>locked\<close> and not yet
  reached the \<^verbatim>\<open>popcli\<close> of \<^verbatim>\<open>release\<close>, runs with interrupts off; its \<^verbatim>\<open>ncli\<close> counts exactly those locks, and the
  release in progress; a CPU with none of them has the interrupt flag it started with; and the \<^verbatim>\<open>popcli\<close> at the
  end of \<^verbatim>\<open>release\<close> never panics.\<close>

theorem spinlock_interrupts_off:
  assumes "lock_reach ifs m" and "running m c"
  shows "finite (busy m c)
    \<and> c_ncli (m_cpu m c) = int (card (busy m c)) + (if m_pt m c = Popping then 1 else 0)
    \<and> (if busy m c \<noteq> {} \<or> m_pt m c = Popping then \<not> c_if (m_cpu m c) else c_if (m_cpu m c) = ifs c)
    \<and> (m_pt m c = Popping \<longrightarrow> (\<exists>k. popcli (m_cpu m c) = Inr k))"
proof -
  have inv: "irq_inv ifs m" using lock_reach_inv [OF assms(1)] by simp
  then have f: "finite (busy m c)" and "cli_ok (ifs c) (m_cpu m c) (depth m c)"
    using assms(2) by (simp_all add: irq_inv_def)
  moreover have "depth m c = 0 \<longleftrightarrow> busy m c = {} \<and> m_pt m c \<noteq> Popping" using f by (simp add: depth_def)
  ultimately show ?thesis
    using popping_popcli [OF inv] by (auto simp: cli_ok_def depth_def)
qed

text \<open>CPU 1 has acquired lock 0 and spins on lock 1, which CPU 0 has won.\<close>

theorem spinlock_interrupts_off_witness:
  "\<exists>m :: nat machine. lock_reach (\<lambda>_. True) m \<and> owns m 1 0 \<and> m_pt m 1 = Spinning 1 \<and> owns m 0 1
     \<and> c_ncli (m_cpu m 1) = 2 \<and> \<not> c_if (m_cpu m 1)"
proof -
  let ?s = "start_machine (\<lambda>_. True) :: nat machine"
  let ?a = "?s\<lparr>m_cpu := (m_cpu ?s)(1 := pushcli (m_cpu ?s 1)), m_pt := (m_pt ?s)(1 := Spinning 0)\<rparr>"
  let ?b = "?a\<lparr>m_lock := (m_lock ?a)(0 := initlock\<lparr>l_locked := 1\<rparr>), m_pt := (m_pt ?a)(1 := Won 0)\<rparr>"
  let ?c = "?b\<lparr>m_lock := (m_lock ?b)(0 := (m_lock ?b 0)\<lparr>l_cpu := Some 1\<rparr>), m_pt := (m_pt ?b)(1 := Outside)\<rparr>"
  let ?d = "?c\<lparr>m_cpu := (m_cpu ?c)(0 := pushcli (m_cpu ?c 0)), m_pt := (m_pt ?c)(0 := Spinning 1)\<rparr>"
  let ?e = "?d\<lparr>m_lock := (m_lock ?d)(1 := initlock\<lparr>l_locked := 1\<rparr>), m_pt := (m_pt ?d)(0 := Won 1)\<rparr>"
  let ?f = "?e\<lparr>m_cpu := (m_cpu ?e)(1 := pushcli (m_cpu ?e 1)), m_pt := (m_pt ?e)(1 := Spinning 1)\<rparr>"
  note ds = start_machine_def spin_holding_def initlock_def xchg_lock_def
  have "lock_step ?s ?a" by (rule acquire_enter) (simp_all add: ds)
  moreover have "lock_step ?a ?b"
    using acquire_xchg [of ?a 1 0 0 "initlock\<lparr>l_locked := 1\<rparr>"] by (simp add: ds)
  moreover have "lock_step ?b ?c" by (rule acquire_record) simp
  moreover have "lock_step ?c ?d" by (rule acquire_enter) (simp_all add: ds)
  moreover have "lock_step ?d ?e"
    using acquire_xchg [of ?d 0 1 0 "initlock\<lparr>l_locked := 1\<rparr>"] by (simp add: ds)
  moreover have "lock_step ?e ?f" by (rule acquire_enter) (simp_all add: ds)
  ultimately have r: "lock_reach (\<lambda>_. True) ?f" by (meson lock_reach.intros)
  have b: "busy ?f 1 = {0, 1}" by (auto simp: busy_def owns_def ds)
  have "running ?f 1" by (simp add: running_def)
  from spinlock_interrupts_off [OF r this] have "c_ncli (m_cpu ?f 1) = 2 \<and> \<not> c_if (m_cpu ?f 1)"
    unfolding b by (simp add: card_insert_if)
  moreover have "owns ?f 1 0" "owns ?f 0 1" "m_pt ?f 1 = Spinning 1" by (simp_all add: owns_def)
  ultimately show ?thesis using r by blast
qed

text \<open>\<^verbatim>\<open>pushcli\<close> and \<^verbatim>\<open>popcli\<close> are matched: after any number of nested pushes the same
  number of pops neither panics nor changes the interrupt flag, the depth, or (at depth 0) more
  than the saved flag.\<close>

theorem pushcli_popcli_matched:
  assumes "0 \<le> c_ncli c" and "0 < c_ncli c \<Longrightarrow> \<not> c_if c"
  shows "\<exists>k. ((\<lambda>r. case r of Inl e \<Rightarrow> Inl e | Inr c \<Rightarrow> popcli c) ^^ n) (Inr ((pushcli ^^ n) c)) = Inr k
    \<and> c_if k = c_if c \<and> c_ncli k = c_ncli c \<and> (0 < c_ncli c \<longrightarrow> k = c)"
proof -
  let ?pop = "\<lambda>r. case r of Inl e \<Rightarrow> Inl e | Inr c \<Rightarrow> popcli c"
  have "\<exists>k. (?pop ^^ n) (Inr ((pushcli ^^ n) c)) = Inr k \<and> c_if k = c_if c \<and> c_ncli k = c_ncli c
      \<and> (0 < c_ncli c \<longrightarrow> k = c)"
    if "0 \<le> c_ncli c" "0 < c_ncli c \<Longrightarrow> \<not> c_if c" for c
    using that
  proof (induction n arbitrary: c)
    case 0
    then show ?case by simp
  next
    case (Suc n)
    have pos: "0 < c_ncli (pushcli c)" and off: "\<not> c_if (pushcli c)"
      using Suc.prems by (simp_all add: pushcli_def)
    then obtain k where "(?pop ^^ n) (Inr ((pushcli ^^ n) (pushcli c))) = Inr k" "k = pushcli c"
      using Suc.IH [of "pushcli c"] by auto
    then have "(?pop ^^ Suc n) (Inr ((pushcli ^^ Suc n) c)) = popcli (pushcli c)"
      by (simp add: funpow_swap1)
    moreover have "\<exists>k. popcli (pushcli c) = Inr k \<and> c_if k = c_if c \<and> c_ncli k = c_ncli c
        \<and> (0 < c_ncli c \<longrightarrow> k = c)"
      using Suc.prems by (cases c) (auto simp: popcli_def pushcli_def Let_def)
    ultimately show ?case by simp
  qed
  then show ?thesis using assms by blast
qed

theorem pushcli_popcli_matched_witness:
  "popcli (pushcli \<lparr>c_ncli = 0, c_intena = False, c_if = True\<rparr>)
     = Inr \<lparr>c_ncli = 0, c_intena = True, c_if = True\<rparr>"
  using pushcli_popcli_matched [of "\<lparr>c_ncli = 0, c_intena = False, c_if = True\<rparr>" 1]
  by (auto simp: popcli_def pushcli_def Let_def)

end
