(* ===== verification/Kformat.thy ===== *)
theory Kformat
  imports Kprelude
begin

text \<open>
  Number formatting: \<^verbatim>\<open>printint\<close> and the format interpreters of \<^verbatim>\<open>console.c\<close> (cprintf)
  and \<^verbatim>\<open>printf.c\<close> (printf), and \<^verbatim>\<open>atoi\<close> of \<^verbatim>\<open>ulib.c\<close>.  The character sink
  (\<^verbatim>\<open>consputc\<close>, \<^verbatim>\<open>putc\<close>) is the returned string.  A conversion that finds no argument of its
  kind reads past the caller's arguments in C; here the formatter returns \<open>None\<close>.
\<close>

section \<open>Definitions\<close>

definition kdigits :: string where
  "kdigits = ''0123456789abcdef''"

definition udigits :: string where
  "udigits = ''0123456789ABCDEF''"

text \<open>
  The do-while loop that fills \<^verbatim>\<open>buf\<close>, least significant digit first.  Both callers pass
  base 10 or 16; the test \<open>base < 2\<close> only makes the function total.
\<close>

function digit_loop :: "string \<Rightarrow> nat \<Rightarrow> nat \<Rightarrow> string" where
  "digit_loop ds base x =
     (ds ! (x mod base)) # (if x div base = 0 \<or> base < 2 then [] else digit_loop ds base (x div base))"
  by pat_completeness auto
termination
proof (relation "measure (\<lambda>(ds, base, x). x)")
  fix ds :: string and base x :: nat
  assume "\<not> (x div base = 0 \<or> base < 2)"
  then have "x div base < x" by (intro div_less_dividend) (auto simp: div_eq_0_iff)
  then show "((ds, base, x div base), ds, base, x) \<in> measure (\<lambda>(ds, base, x). x)" by simp
qed simp

declare digit_loop.simps [simp del]

definition printint_buf :: "string \<Rightarrow> u32 \<Rightarrow> nat \<Rightarrow> bool \<Rightarrow> string" where
  "printint_buf ds xx base sign =
     (let neg = (sign \<and> sint xx < 0);
          x = (if neg then - xx else xx);
          buf = digit_loop ds base (unat x)
      in if neg then buf @ ''-'' else buf)"

definition printint :: "u32 \<Rightarrow> nat \<Rightarrow> bool \<Rightarrow> string" where
  "printint xx base sign = rev (printint_buf kdigits xx base sign)"

definition uprintint :: "u32 \<Rightarrow> nat \<Rightarrow> bool \<Rightarrow> string" where
  "uprintint xx base sign = rev (printint_buf udigits xx base sign)"

datatype carg = AInt u32 | AStr string | ANullStr

definition str_arg :: "carg \<Rightarrow> string option" where
  "str_arg a = (case a of AStr t \<Rightarrow> Some t | ANullStr \<Rightarrow> Some ''(null)'' | AInt x \<Rightarrow> None)"

text \<open>The loop of \<^verbatim>\<open>cprintf\<close>: a trailing percent sign ends the output.\<close>

fun cformat :: "string \<Rightarrow> carg list \<Rightarrow> string option" where
  "cformat [] args = Some []"
| "cformat [c] args = (if c = CHR ''%'' then Some [] else Some [c])"
| "cformat (c # d # fmt) args =
     (if c \<noteq> CHR ''%'' then map_option (Cons c) (cformat (d # fmt) args)
      else if d = CHR ''d'' then
        (case args of AInt x # rest \<Rightarrow> map_option (append (printint x 10 True)) (cformat fmt rest)
         | _ \<Rightarrow> None)
      else if d = CHR ''x'' \<or> d = CHR ''p'' then
        (case args of AInt x # rest \<Rightarrow> map_option (append (printint x 16 False)) (cformat fmt rest)
         | _ \<Rightarrow> None)
      else if d = CHR ''s'' then
        (case args of a # rest \<Rightarrow>
           (case str_arg a of Some t \<Rightarrow> map_option (append t) (cformat fmt rest) | None \<Rightarrow> None)
         | [] \<Rightarrow> None)
      else if d = CHR ''%'' then map_option (Cons CHR ''%'') (cformat fmt args)
      else map_option (\<lambda>t. CHR ''%'' # d # t) (cformat fmt args))"

text \<open>The state machine of user-level \<^verbatim>\<open>printf\<close>: \<open>pct\<close> is \<^verbatim>\<open>state == '%'\<close>.\<close>

fun uformat :: "bool \<Rightarrow> string \<Rightarrow> carg list \<Rightarrow> string option" where
  "uformat pct [] args = Some []"
| "uformat pct (c # fmt) args =
     (if \<not> pct then
        (if c = CHR ''%'' then uformat True fmt args
         else map_option (Cons c) (uformat False fmt args))
      else if c = CHR ''d'' then
        (case args of AInt x # rest \<Rightarrow> map_option (append (uprintint x 10 True)) (uformat False fmt rest)
         | _ \<Rightarrow> None)
      else if c = CHR ''x'' \<or> c = CHR ''p'' then
        (case args of AInt x # rest \<Rightarrow> map_option (append (uprintint x 16 False)) (uformat False fmt rest)
         | _ \<Rightarrow> None)
      else if c = CHR ''s'' then
        (case args of a # rest \<Rightarrow>
           (case str_arg a of Some t \<Rightarrow> map_option (append t) (uformat False fmt rest) | None \<Rightarrow> None)
         | [] \<Rightarrow> None)
      else if c = CHR ''c'' then
        (case args of AInt x # rest \<Rightarrow>
           map_option (Cons (char_of (unat (ucast x :: u8)))) (uformat False fmt rest)
         | _ \<Rightarrow> None)
      else if c = CHR ''%'' then map_option (Cons c) (uformat False fmt args)
      else map_option (\<lambda>t. CHR ''%'' # c # t) (uformat False fmt args))"

definition uprintf :: "string \<Rightarrow> carg list \<Rightarrow> string option" where
  "uprintf fmt args = uformat False fmt args"

text \<open>\<^verbatim>\<open>atoi\<close>: \<^verbatim>\<open>n = n*10 + *s++ - '0'\<close> on 32-bit integers.\<close>

fun atoi_loop :: "u32 \<Rightarrow> string \<Rightarrow> u32" where
  "atoi_loop n [] = n"
| "atoi_loop n (c # s) =
     (if 48 \<le> (of_char c :: nat) \<and> of_char c \<le> (57 :: nat)
      then atoi_loop (n * 10 + of_char c - 48) s else n)"

definition atoi :: "string \<Rightarrow> u32" where
  "atoi s = atoi_loop 0 s"

section \<open>Lemmas\<close>

lemma digit_loop_length:
  "2 \<le> base \<Longrightarrow> x < base ^ k \<Longrightarrow> 0 < k \<Longrightarrow> length (digit_loop ds base x) \<le> k"
proof (induction ds base x arbitrary: k rule: digit_loop.induct)
  case (1 ds base x)
  show ?case
  proof (cases "x div base = 0")
    case True
    with "1.prems" show ?thesis by (subst digit_loop.simps) auto
  next
    case False
    then have "base \<le> x" using div_less linorder_not_less by blast
    with "1.prems" obtain j where k: "k = Suc (Suc j)"
      by (metis One_nat_def Suc_pred' linorder_not_less not0_implies_Suc power_one_right)
    have "x div base < base ^ Suc j"
      using "1.prems" k by (simp add: less_mult_imp_div_less mult.commute)
    then have "length (digit_loop ds base (x div base)) \<le> Suc j"
      using "1.IH" False "1.prems"(1) by simp
    with k False "1.prems"(1) show ?thesis
      by (subst digit_loop.simps) simp
  qed
qed

lemma atoi_loop_append_digit:
  assumes "\<forall>c\<in>set s. 48 \<le> (of_char c :: nat) \<and> of_char c \<le> (57 :: nat)"
    and "48 \<le> (of_char d :: nat)" "of_char d \<le> (57 :: nat)"
  shows "atoi_loop n (s @ [d]) = atoi_loop n s * 10 + of_char d - 48"
  using assms by (induction s arbitrary: n) auto

lemma kdigits_decimal:
  assumes "x < 10"
  shows "of_char (kdigits ! x) = 48 + x"
proof -
  from assms have "x = 0 \<or> x = 1 \<or> x = 2 \<or> x = 3 \<or> x = 4 \<or> x = 5 \<or> x = 6 \<or> x = 7 \<or> x = 8 \<or> x = 9"
    by auto
  then show ?thesis by (auto simp: kdigits_def)
qed

lemma digit_loop_decimal:
  "\<forall>c\<in>set (digit_loop kdigits 10 x). 48 \<le> (of_char c :: nat) \<and> of_char c \<le> (57 :: nat)"
proof (induction "kdigits" "10 :: nat" x rule: digit_loop.induct)
  case (1 x)
  have d: "of_char (kdigits ! (x mod 10)) = (48 + x mod 10 :: nat)"
    by (rule kdigits_decimal) simp
  then show ?case
    using 1 by (subst digit_loop.simps) (auto simp: d)
qed

lemma of_char_word: "(of_char c :: u32) = word_of_nat (of_char c)"
  by (simp only: of_nat_of_char)

lemma atoi_digits: "atoi_loop 0 (rev (digit_loop kdigits 10 x)) = word_of_nat x"
proof (induction "kdigits" "10 :: nat" x rule: digit_loop.induct)
  case (1 x)
  have d: "of_char (kdigits ! (x mod 10)) = (48 + x mod 10 :: nat)"
    by (rule kdigits_decimal) simp
  have dw: "(of_char (kdigits ! (x mod 10)) :: u32) = 48 + word_of_nat (x mod 10)"
    by (subst of_char_word) (simp only: d of_nat_add of_nat_numeral)
  show ?case
  proof (cases "x div 10 = 0")
    case True
    then have "digit_loop kdigits 10 x = [kdigits ! (x mod 10)]"
      by (subst digit_loop.simps) simp
    moreover from True have "x mod 10 = x" and "x < 10" by (simp_all add: div_eq_0_iff)
    ultimately show ?thesis using d dw by simp
  next
    case False
    have split: "digit_loop kdigits 10 x = kdigits ! (x mod 10) # digit_loop kdigits 10 (x div 10)"
      using False by (subst digit_loop.simps) simp
    have "atoi_loop 0 (rev (digit_loop kdigits 10 x))
        = atoi_loop 0 (rev (digit_loop kdigits 10 (x div 10))) * 10 + of_char (kdigits ! (x mod 10)) - 48"
      unfolding split rev.simps
      by (rule atoi_loop_append_digit) (use digit_loop_decimal d in auto)
    also have "\<dots> = word_of_nat (x div 10) * 10 + word_of_nat (x mod 10)"
      using 1 False dw by simp
    also have "\<dots> = word_of_nat (x div 10 * 10 + x mod 10)"
      by (simp only: of_nat_add of_nat_mult of_nat_numeral)
    also have "\<dots> = word_of_nat x" by simp
    finally show ?thesis .
  qed
qed

section \<open>Properties\<close>

text \<open>what the console prints for \<^verbatim>\<open>%d\<close> is read back by \<^verbatim>\<open>atoi\<close> as the same 32-bit
  value when it is not negative; for a negative value \<^verbatim>\<open>atoi\<close> stops at the minus sign and
  returns 0.\<close>

theorem atoi_printint:
  "atoi (printint x 10 True) = (if sint x < 0 then 0 else x)"
proof -
  have "atoi_loop 0 (CHR ''-'' # t) = 0" for t by simp
  then show ?thesis
    by (auto simp: atoi_def printint_def printint_buf_def atoi_digits Let_def)
qed

text \<open>the digits and the sign that \<^verbatim>\<open>printint\<close> stores always fit in its 16-byte buffer, for
  both bases the formatters use and for every 32-bit value.\<close>

theorem printint_buf_fits:
  "length (printint_buf ds x 10 sign) \<le> 11 \<and> length (printint_buf ds x 16 sign) \<le> 9"
proof -
  have b: "unat y < 2 ^ 32" for y :: u32 using unsigned_less [of y] by simp
  have "length (digit_loop ds 10 (unat y)) \<le> 10 \<and> length (digit_loop ds 10 (unat y)) \<le> 11" for y :: u32
    using digit_loop_length [of 10 "unat y" 10 ds] b [of y] by simp
  moreover have "length (digit_loop ds 16 (unat y)) \<le> 8 \<and> length (digit_loop ds 16 (unat y)) \<le> 9" for y :: u32
    using digit_loop_length [of 16 "unat y" 8 ds] b [of y] by simp
  ultimately show ?thesis by (simp add: printint_buf_def Let_def)
qed

end
