(* ===== verification/Kstate.thy ===== *)
theory Kstate
  imports Kformat
begin

text \<open>
  The part of the kernel state every component shares: the process table of \<^verbatim>\<open>proc.h\<close>, the
  spin locks the executing CPU holds, and the console output; with the lock discipline
  (\<^verbatim>\<open>acquire\<close>, \<^verbatim>\<open>release\<close>, \<^verbatim>\<open>holding\<close>), \<^verbatim>\<open>myproc\<close> and \<^verbatim>\<open>cprintf\<close>.

  A kernel routine runs on one CPU; what other CPUs do happens between its critical sections.
  \<open>k_cr3\<close> is the page-table register and \<open>k_esp0\<close> the kernel stack pointer of the task state
  segment.  \<open>k_held\<close> lists the spin locks this CPU holds, newest first, so its length is the nesting
  depth \<^verbatim>\<open>ncli\<close> of the enclosing \<^verbatim>\<open>pushcli\<close> calls.  The theory \<open>Spinlock\<close> models the lock itself
  on several CPUs.  Pointers to table entries are indices, \<open>None\<close> for the null pointer.
\<close>

section \<open>Constants of param.h, mmu.h and memlayout.h\<close>

definition NPROC :: nat where "NPROC = 64"
definition NOFILE :: nat where "NOFILE = 16"
definition NFILE :: nat where "NFILE = 100"
definition NINODE :: nat where "NINODE = 50"
definition NDEV :: nat where "NDEV = 10"
definition KSTACKSIZE :: u32 where "KSTACKSIZE = 4096"
definition PGSIZE :: u32 where "PGSIZE = 4096"
definition KERNBASE :: u32 where "KERNBASE = 0x80000000"
definition EXTMEM :: u32 where "EXTMEM = 0x100000"
definition PHYSTOP :: u32 where "PHYSTOP = 0xE000000"
definition DEVSPACE :: u32 where "DEVSPACE = 0xFE000000"
definition MAXARG :: nat where "MAXARG = 32"
definition MAXOPBLOCKS :: nat where "MAXOPBLOCKS = 10"
definition LOGSIZE :: nat where "LOGSIZE = MAXOPBLOCKS * 3"
definition NBUF :: nat where "NBUF = MAXOPBLOCKS * 3"
definition FSSIZE :: nat where "FSSIZE = 1000"

definition V2P :: "u32 \<Rightarrow> u32" where "V2P a = a - KERNBASE"
definition P2V :: "u32 \<Rightarrow> u32" where "P2V a = a + KERNBASE"

section \<open>Structures of x86.h and proc.h\<close>

record trapframe =
  tf_edi :: u32
  tf_esi :: u32
  tf_ebp :: u32
  tf_oesp :: u32
  tf_ebx :: u32
  tf_edx :: u32
  tf_ecx :: u32
  tf_eax :: u32
  tf_gs :: u16
  tf_fs :: u16
  tf_es :: u16
  tf_ds :: u16
  tf_trapno :: u32
  tf_err :: u32
  tf_eip :: u32
  tf_cs :: u16
  tf_eflags :: u32
  tf_esp :: u32
  tf_ss :: u16

record kcontext =
  cx_edi :: u32
  cx_esi :: u32
  cx_ebx :: u32
  cx_ebp :: u32
  cx_eip :: u32

datatype procstate = UNUSED | EMBRYO | SLEEPING | RUNNABLE | RUNNING | ZOMBIE

text \<open>
  Sleep channels are kernel addresses; only their identity matters.  Each constructor is one
  address the kernel sleeps on.
\<close>

datatype chan =
    ChNone
  | ChProc nat
  | ChTicks
  | ChLog
  | ChBuf nat
  | ChBufLock nat
  | ChInodeLock nat
  | ChPipeRead u32
  | ChPipeWrite u32
  | ChInput

record proc =
  p_sz :: u32
  p_pgdir :: u32
  p_kstack :: u32
  p_state :: procstate
  p_pid :: int
  p_parent :: "nat option"
  p_tf :: trapframe
  p_context :: kcontext
  p_chan :: chan
  p_killed :: bool
  p_ofile :: "nat option list"
  p_cwd :: "nat option"
  p_name :: string
  p_priority :: int

text \<open>The spin locks of the kernel.\<close>

datatype klock =
    PtableLock
  | KmemLock
  | TicksLock
  | BcacheLock
  | LogLock
  | IcacheLock
  | FtableLock
  | ConsLock
  | IdeLock
  | BufLk nat
  | InodeLk nat
  | PipeLk u32

record kst =
  k_held :: "klock list"
  k_procs :: "proc list"
  k_nextpid :: int
  k_initproc :: "nat option"
  k_cur :: "nat option"
  k_kpgdir :: u32
  k_cr3 :: u32
  k_esp0 :: u32
  k_ticks :: u32
  k_locking :: bool
  k_out :: string

text \<open>
  Static storage starts zeroed: an entry of the process table before its first use, and the
  kernel state at boot.
\<close>

definition tf0 :: trapframe where
  "tf0 = \<lparr>tf_edi = 0, tf_esi = 0, tf_ebp = 0, tf_oesp = 0, tf_ebx = 0, tf_edx = 0, tf_ecx = 0,
     tf_eax = 0, tf_gs = 0, tf_fs = 0, tf_es = 0, tf_ds = 0, tf_trapno = 0, tf_err = 0,
     tf_eip = 0, tf_cs = 0, tf_eflags = 0, tf_esp = 0, tf_ss = 0\<rparr>"

definition context0 :: kcontext where
  "context0 = \<lparr>cx_edi = 0, cx_esi = 0, cx_ebx = 0, cx_ebp = 0, cx_eip = 0\<rparr>"

definition proc0 :: proc where
  "proc0 = \<lparr>p_sz = 0, p_pgdir = 0, p_kstack = 0, p_state = UNUSED, p_pid = 0, p_parent = None,
     p_tf = tf0, p_context = context0, p_chan = ChNone, p_killed = False,
     p_ofile = replicate NOFILE None, p_cwd = None, p_name = [], p_priority = 0\<rparr>"

definition kst0 :: kst where
  "kst0 = \<lparr>k_held = [], k_procs = replicate NPROC proc0, k_nextpid = 1, k_initproc = None,
     k_cur = None, k_kpgdir = 0, k_cr3 = 0, k_esp0 = 0, k_ticks = 0, k_locking = False,
     k_out = []\<rparr>"

section \<open>Locks and the current process\<close>

definition holding :: "klock \<Rightarrow> (bool, 'z kst_scheme) kop" where
  "holding lk = fetch (\<lambda>s. lk \<in> set (k_held s))"

definition acquire :: "klock \<Rightarrow> (unit, 'z kst_scheme) kop" where
  "acquire lk = bnd (holding lk) (\<lambda>h. if h then panic ''acquire''
     else modify (\<lambda>s. s\<lparr>k_held := lk # k_held s\<rparr>))"

definition release :: "klock \<Rightarrow> (unit, 'z kst_scheme) kop" where
  "release lk = bnd (holding lk) (\<lambda>h. if \<not> h then panic ''release''
     else modify (\<lambda>s. s\<lparr>k_held := remove1 lk (k_held s)\<rparr>))"

definition myproc :: "(nat option, 'z kst_scheme) kop" where
  "myproc = fetch k_cur"

text \<open>\<^verbatim>\<open>myproc()->field\<close>; following a null pointer faults in the kernel, which panics.\<close>

definition curproc :: "(nat, 'z kst_scheme) kop" where
  "curproc = bnd myproc (\<lambda>c. case c of None \<Rightarrow> panic ''trap'' | Some p \<Rightarrow> ret p)"

definition proc_get :: "nat \<Rightarrow> (proc \<Rightarrow> 'a) \<Rightarrow> ('a, 'z kst_scheme) kop" where
  "proc_get p f = fetch (\<lambda>s. f (k_procs s ! p))"

definition proc_upd :: "nat \<Rightarrow> (proc \<Rightarrow> proc) \<Rightarrow> (unit, 'z kst_scheme) kop" where
  "proc_upd p f = modify (\<lambda>s. s\<lparr>k_procs := (k_procs s)[p := f (k_procs s ! p)]\<rparr>)"

section \<open>Console output\<close>

text \<open>\<open>k_out\<close> collects the characters handed to \<^verbatim>\<open>consputc\<close>; what \<^verbatim>\<open>consputc\<close> does with each of them on
  the screen, cursor and scrolling included, is the subject of theory \<open>Console\<close>.\<close>

definition cprintf :: "string \<Rightarrow> carg list \<Rightarrow> (unit, 'z kst_scheme) kop" where
  "cprintf fmt args =
     bnd (fetch k_locking) (\<lambda>locking.
     andthen (whenk locking (acquire ConsLock))
     (andthen (case cformat fmt args of None \<Rightarrow> panic ''trap''
               | Some t \<Rightarrow> modify (\<lambda>s. s\<lparr>k_out := k_out s @ t\<rparr>))
      (whenk locking (release ConsLock))))"

section \<open>Lemmas\<close>

lemmas lock_defs = holding_def acquire_def release_def
lemmas cur_defs = myproc_def curproc_def proc_get_def proc_upd_def

lemma acquire_Ok [simp]:
  "lk \<notin> set (k_held s) \<Longrightarrow> acquire lk s = Ok () (s\<lparr>k_held := lk # k_held s\<rparr>)"
  by (simp add: lock_defs kdefs)

lemma acquire_Panic [simp]: "lk \<in> set (k_held s) \<Longrightarrow> acquire lk s = Panic ''acquire''"
  by (simp add: lock_defs kdefs)

lemma release_Ok [simp]:
  "lk \<in> set (k_held s) \<Longrightarrow> release lk s = Ok () (s\<lparr>k_held := remove1 lk (k_held s)\<rparr>)"
  by (simp add: lock_defs kdefs)

lemma release_Panic [simp]: "lk \<notin> set (k_held s) \<Longrightarrow> release lk s = Panic ''release''"
  by (simp add: lock_defs kdefs)

lemma wp_acquire [wp_rules]:
  "wp (acquire lk) Q s \<longleftrightarrow> lk \<notin> set (k_held s) \<and> Q () (s\<lparr>k_held := lk # k_held s\<rparr>)"
  by (simp add: lock_defs kdefs wp_def)

lemma wp_release [wp_rules]:
  "wp (release lk) Q s \<longleftrightarrow> lk \<in> set (k_held s) \<and> Q () (s\<lparr>k_held := remove1 lk (k_held s)\<rparr>)"
  by (simp add: lock_defs kdefs wp_def)

lemma wp_proc_get [wp_rules]: "wp (proc_get p f) Q s = Q (f (k_procs s ! p)) s"
  by (simp add: proc_get_def wp_fetch)

lemma wp_proc_upd [wp_rules]:
  "wp (proc_upd p f) Q s = Q () (s\<lparr>k_procs := (k_procs s)[p := f (k_procs s ! p)]\<rparr>)"
  by (simp add: proc_upd_def wp_modify)

lemma wp_curproc [wp_rules]:
  "wp curproc Q s \<longleftrightarrow> (\<exists>p. k_cur s = Some p \<and> Q p s)"
  by (cases "k_cur s") (simp_all add: curproc_def myproc_def wp_rules)

lemma curproc_Some [simp]: "k_cur s = Some p \<Longrightarrow> curproc s = Ok p s"
  by (simp add: curproc_def myproc_def kdefs)

lemma curproc_None [simp]: "k_cur s = None \<Longrightarrow> curproc s = Panic ''trap''"
  by (simp add: curproc_def myproc_def kdefs)

lemma curproc_eq_Ok: "curproc s = Ok me t \<longleftrightarrow> k_cur s = Some me \<and> t = s"
  by (cases "k_cur s") auto

lemma kst_held_idem [simp]: "s\<lparr>k_held := k_held s\<rparr> = s"
  by (cases s) simp

end
