(* ===== verification/Proc.thy ===== *)
theory Proc
  imports Kstate
begin

text \<open>
  Process scheduling of \<^verbatim>\<open>proc.c\<close>: the priority scheduler, \<^verbatim>\<open>sched\<close>, \<^verbatim>\<open>yield\<close>, \<^verbatim>\<open>sleep\<close>,
  \<^verbatim>\<open>wakeup\<close>, \<^verbatim>\<open>kill\<close>, \<^verbatim>\<open>cps\<close> and \<^verbatim>\<open>chpr\<close>, with the address-space switches of \<^verbatim>\<open>vm.c\<close> they
  call.  \<^verbatim>\<open>sched\<close> ends in \<^verbatim>\<open>swtch\<close>, so the routines that call it end in \<open>Blocked\<close>; what
  \<^verbatim>\<open>sleep\<close> does once the process is switched back in is \<open>sleep_resume\<close>.  The flag test of
  \<^verbatim>\<open>sched\<close> (interrupts off) follows from the held lock: every \<^verbatim>\<open>acquire\<close> begins with
  \<^verbatim>\<open>pushcli\<close>.
\<close>

section \<open>Address-space switches\<close>

definition switchkvm :: "(unit, 'z kst_scheme) kop" where
  "switchkvm = modify (\<lambda>s. s\<lparr>k_cr3 := V2P (k_kpgdir s)\<rparr>)"

definition switchuvm :: "nat option \<Rightarrow> (unit, 'z kst_scheme) kop" where
  "switchuvm po = (case po of None \<Rightarrow> panic ''switchuvm: no process''
   | Some p \<Rightarrow>
     bnd (proc_get p p_kstack) (\<lambda>ks. if ks = 0 then panic ''switchuvm: no kstack'' else
     bnd (proc_get p p_pgdir) (\<lambda>pd. if pd = 0 then panic ''switchuvm: no pgdir'' else
       modify (\<lambda>s. s\<lparr>k_esp0 := ks + KSTACKSIZE, k_cr3 := V2P pd\<rparr>))))"

section \<open>Scheduler\<close>

text \<open>The inner loop over \<^verbatim>\<open>p1\<close>: replace \<^verbatim>\<open>highP\<close> by any runnable entry with a smaller value.\<close>

definition better :: "proc list \<Rightarrow> nat \<Rightarrow> nat \<Rightarrow> nat" where
  "better ps high p1 =
     (if p_state (ps ! p1) \<noteq> RUNNABLE then high
      else if p_priority (ps ! high) > p_priority (ps ! p1) then p1 else high)"

definition pick_high :: "proc list \<Rightarrow> nat \<Rightarrow> nat" where
  "pick_high ps p = foldl (better ps) p [0..<length ps]"

text \<open>The outer loop from entry \<open>p\<close> up to the next dispatch: \<open>None\<close> when the pass is over.\<close>

function sched_scan :: "proc list \<Rightarrow> nat \<Rightarrow> nat option" where
  "sched_scan ps p =
     (if length ps \<le> p then None
      else if p_state (ps ! p) \<noteq> RUNNABLE then sched_scan ps (Suc p)
      else Some (pick_high ps p))"
  by pat_completeness auto
termination
  by (relation "measure (\<lambda>(ps, p). length ps - p)") auto

declare sched_scan.simps [simp del]

text \<open>
  One turn of the outer loop: find the process, make it the CPU's process, switch to its
  address space and mark it running.  The result is the process the CPU switches to.
\<close>

definition scheduler_step :: "nat \<Rightarrow> (nat option, 'z kst_scheme) kop" where
  "scheduler_step i =
     bnd (fetch (\<lambda>s. sched_scan (k_procs s) i)) (\<lambda>r.
     case r of None \<Rightarrow> ret None
     | Some p \<Rightarrow>
         andthen (modify (\<lambda>s. s\<lparr>k_cur := Some p\<rparr>))
         (andthen (switchuvm (Some p))
         (andthen (proc_upd p (\<lambda>q. q\<lparr>p_state := RUNNING\<rparr>))
         (ret (Some p)))))"

text \<open>After the process comes back through \<^verbatim>\<open>swtch\<close>.\<close>

definition scheduler_back :: "(unit, 'z kst_scheme) kop" where
  "scheduler_back = andthen switchkvm (modify (\<lambda>s. s\<lparr>k_cur := None\<rparr>))"

definition swtch :: "('a, 'z kst_scheme) kop" where
  "swtch s = Blocked s"

definition sched :: "('a, 'z kst_scheme) kop" where
  "sched =
     bnd curproc (\<lambda>p.
     bnd (holding PtableLock) (\<lambda>h. if \<not> h then panic ''sched ptable.lock'' else
     bnd (fetch (\<lambda>s. length (k_held s))) (\<lambda>ncli. if ncli \<noteq> 1 then panic ''sched locks'' else
     bnd (proc_get p p_state) (\<lambda>st. if st = RUNNING then panic ''sched running'' else
     swtch))))"

definition yield_cpu :: "(unit, 'z kst_scheme) kop" where
  "yield_cpu =
     andthen (acquire PtableLock)
     (bnd curproc (\<lambda>p. andthen (proc_upd p (\<lambda>q. q\<lparr>p_state := RUNNABLE\<rparr>))
     (andthen (sched :: (unit, 'z kst_scheme) kop) (release PtableLock))))"

section \<open>Sleep and wakeup\<close>

text \<open>
  The memory operations of \<^verbatim>\<open>sleep\<close> before it gives the CPU up, and those of \<^verbatim>\<open>wakeup\<close>, one by one: between two
  of them other CPUs may run.
\<close>

definition sleep_steps :: "nat \<Rightarrow> chan \<Rightarrow> klock \<Rightarrow> (unit, 'z kst_scheme) kop list" where
  "sleep_steps p ch lk =
     (if lk \<noteq> PtableLock then [acquire PtableLock, release lk] else [])
     @ [proc_upd p (\<lambda>q. q\<lparr>p_chan := ch\<rparr>), proc_upd p (\<lambda>q. q\<lparr>p_state := SLEEPING\<rparr>)]"

definition sleep :: "chan \<Rightarrow> klock \<Rightarrow> ('a, 'z kst_scheme) kop" where
  "sleep ch lk =
     bnd myproc (\<lambda>c. case c of None \<Rightarrow> panic ''sleep''
     | Some p \<Rightarrow> andthen (for_each (sleep_steps p ch lk) (\<lambda>m. m)) sched)"

definition sleep_resume :: "klock \<Rightarrow> (unit, 'z kst_scheme) kop" where
  "sleep_resume lk =
     bnd curproc (\<lambda>p.
     andthen (proc_upd p (\<lambda>q. q\<lparr>p_chan := ChNone\<rparr>))
     (whenk (lk \<noteq> PtableLock) (andthen (release PtableLock) (acquire lk))))"

definition wake :: "chan \<Rightarrow> proc \<Rightarrow> proc" where
  "wake ch p = (if p_state p = SLEEPING \<and> p_chan p = ch then p\<lparr>p_state := RUNNABLE\<rparr> else p)"

definition wakeup1 :: "chan \<Rightarrow> (unit, 'z kst_scheme) kop" where
  "wakeup1 ch = modify (\<lambda>s. s\<lparr>k_procs := map (wake ch) (k_procs s)\<rparr>)"

definition wakeup_steps :: "chan \<Rightarrow> (unit, 'z kst_scheme) kop list" where
  "wakeup_steps ch = [acquire PtableLock, wakeup1 ch, release PtableLock]"

definition wakeup :: "chan \<Rightarrow> (unit, 'z kst_scheme) kop" where
  "wakeup ch = for_each (wakeup_steps ch) (\<lambda>m. m)"

section \<open>Kill, process listing, priority change\<close>

definition kill_proc :: "proc \<Rightarrow> proc" where
  "kill_proc p = p\<lparr>p_killed := True,
     p_state := (if p_state p = SLEEPING then RUNNABLE else p_state p)\<rparr>"

definition kill :: "int \<Rightarrow> (int, 'z kst_scheme) kop" where
  "kill pid =
     andthen (acquire PtableLock)
     (bnd (fetch (\<lambda>s. find_idx (\<lambda>p. p_pid p = pid) (k_procs s))) (\<lambda>r.
      case r of
        Some p \<Rightarrow> andthen (proc_upd p kill_proc) (andthen (release PtableLock) (ret 0))
      | None \<Rightarrow> andthen (release PtableLock) (ret (- 1))))"

definition tab :: string where "tab = [CHR 0x09]"
definition nl :: string where "nl = [CHR 0x0A]"

definition cps_line :: "string \<Rightarrow> string" where
  "cps_line st = ''%s '' @ tab @ '' %d '' @ tab @ '' '' @ st @ '' '' @ tab @ '' %d'' @ nl @ '' ''"

definition cps_row :: "proc \<Rightarrow> (unit, 'z kst_scheme) kop" where
  "cps_row p =
     (let args = [AStr (p_name p), AInt (word_of_int (p_pid p)), AInt (word_of_int (p_priority p))]
      in case p_state p of
           SLEEPING \<Rightarrow> cprintf (cps_line ''SLEEPING'') args
         | RUNNING \<Rightarrow> cprintf (cps_line ''RUNNING'') args
         | RUNNABLE \<Rightarrow> cprintf (cps_line ''RUNNABLE'') args
         | _ \<Rightarrow> ret ())"

definition cps :: "(int, 'z kst_scheme) kop" where
  "cps =
     andthen (acquire PtableLock)
     (andthen (cprintf (''name '' @ tab @ '' pid '' @ tab @ '' state '' @ tab @ '' priority '' @ tab @ ''  '' @ nl) [])
     (bnd (fetch k_procs) (\<lambda>ps. andthen (for_each ps cps_row)
     (andthen (release PtableLock) (ret 22)))))"

definition chpr :: "int \<Rightarrow> int \<Rightarrow> (int, 'z kst_scheme) kop" where
  "chpr pid priority =
     andthen (acquire PtableLock)
     (bnd (fetch (\<lambda>s. find_idx (\<lambda>p. p_pid p = pid) (k_procs s))) (\<lambda>r.
      andthen (case r of Some p \<Rightarrow> proc_upd p (\<lambda>q. q\<lparr>p_priority := priority\<rparr>) | None \<Rightarrow> ret ())
      (andthen (release PtableLock) (ret pid))))"

section \<open>Lemmas\<close>

lemma andthen_assoc: "andthen (andthen a b) c = andthen a (andthen b c)"
  by (simp add: andthen_def bnd_assoc)

lemma andthen_ret [simp]: "andthen (ret x) m = m" "andthen u (ret ()) = (u :: (unit, 's) kop)"
  by (simp_all add: andthen_def)

lemma wakeup_eq: "wakeup ch = andthen (acquire PtableLock) (andthen (wakeup1 ch) (release PtableLock))"
  by (simp add: wakeup_def wakeup_steps_def)

lemma proc_upd_twice: "andthen (proc_upd p f) (andthen (proc_upd p g) m) = andthen (proc_upd p (\<lambda>q. g (f q))) m"
proof
  fix s
  show "andthen (proc_upd p f) (andthen (proc_upd p g) m) s = andthen (proc_upd p (\<lambda>q. g (f q))) m s"
    by (cases "p < length (k_procs s)") (simp_all add: proc_upd_def kdefs list_update_beyond)
qed

lemma sleep_eq:
  "(sleep ch lk :: ('a, 'z kst_scheme) kop) =
     bnd myproc (\<lambda>c. case c of None \<Rightarrow> panic ''sleep''
     | Some p \<Rightarrow>
         andthen (whenk (lk \<noteq> PtableLock) (andthen (acquire PtableLock) (release lk)))
         (andthen (proc_upd p (\<lambda>q. q\<lparr>p_chan := ch, p_state := SLEEPING\<rparr>))
          sched))"
proof -
  have "andthen (for_each (sleep_steps p ch lk) (\<lambda>m. m)) r =
      andthen (whenk (lk \<noteq> PtableLock) (andthen (acquire PtableLock) (release lk)))
        (andthen (proc_upd p (\<lambda>q. q\<lparr>p_chan := ch, p_state := SLEEPING\<rparr>)) r)" for p and r :: "('a, 'z kst_scheme) kop"
    by (simp add: sleep_steps_def whenk_def andthen_assoc proc_upd_twice)
  then show ?thesis unfolding sleep_def by simp
qed

lemmas proc_ops = switchkvm_def switchuvm_def scheduler_step_def scheduler_back_def sched_def
  yield_cpu_def sleep_eq sleep_resume_def wakeup1_def wakeup_eq kill_def chpr_def

subsection \<open>The scheduler's choice\<close>

abbreviation runnable :: "proc list \<Rightarrow> nat \<Rightarrow> bool" where
  "runnable ps i \<equiv> i < length ps \<and> p_state (ps ! i) = RUNNABLE"

lemma foldl_better:
  assumes "runnable ps p" and "\<forall>i\<in>set is. i < length ps"
  shows "runnable ps (foldl (better ps) p is)
     \<and> p_priority (ps ! foldl (better ps) p is) \<le> p_priority (ps ! p)
     \<and> (\<forall>i\<in>set is. runnable ps i \<longrightarrow> p_priority (ps ! foldl (better ps) p is) \<le> p_priority (ps ! i))"
  using assms
proof (induction "is" arbitrary: p)
  case Nil
  then show ?case by simp
next
  case (Cons i rest)
  have q: "runnable ps (better ps p i)" "p_priority (ps ! better ps p i) \<le> p_priority (ps ! p)"
    "runnable ps i \<Longrightarrow> p_priority (ps ! better ps p i) \<le> p_priority (ps ! i)"
    using Cons.prems by (auto simp: better_def)
  have "\<forall>j\<in>set rest. j < length ps" using Cons.prems by simp
  note IH = Cons.IH [OF q(1) this]
  show ?case using IH q by (auto intro: order_trans)
qed

lemma pick_high_props:
  assumes "runnable ps p"
  shows "runnable ps (pick_high ps p)"
    and "runnable ps i \<Longrightarrow> p_priority (ps ! pick_high ps p) \<le> p_priority (ps ! i)"
  using foldl_better [OF assms, of "[0..<length ps]"] by (auto simp: pick_high_def)

lemma foldl_better_same:
  assumes "\<forall>i\<in>set is. runnable ps i \<longrightarrow> p_priority (ps ! p) \<le> p_priority (ps ! i)"
    and "\<forall>i\<in>set is. i < length ps"
  shows "foldl (better ps) p is = p"
  using assms by (induction "is") (auto simp: better_def)

lemma pick_high_tie:
  assumes "\<And>i. runnable ps i \<Longrightarrow> p_priority (ps ! p) \<le> p_priority (ps ! i)"
  shows "pick_high ps p = p"
  unfolding pick_high_def by (rule foldl_better_same) (use assms in auto)

lemma sched_scan_cases:
  "(sched_scan ps i = None \<and> (\<forall>j\<ge>i. \<not> runnable ps j))
   \<or> (\<exists>j\<ge>i. runnable ps j \<and> (\<forall>k. i \<le> k \<and> k < j \<longrightarrow> \<not> runnable ps k)
        \<and> sched_scan ps i = Some (pick_high ps j))"
proof (induction ps i rule: sched_scan.induct)
  case (1 ps p)
  consider "length ps \<le> p" | "p < length ps" "p_state (ps ! p) \<noteq> RUNNABLE" | "runnable ps p"
    by linarith
  then show ?case
  proof cases
    case 1
    then show ?thesis by (subst (1) sched_scan.simps) auto
  next
    case 2
    then have eq: "sched_scan ps p = sched_scan ps (Suc p)" by (subst sched_scan.simps) simp
    from "1.IH" 2 consider "sched_scan ps (Suc p) = None \<and> (\<forall>j\<ge>Suc p. \<not> runnable ps j)"
      | j where "j \<ge> Suc p" "runnable ps j" "\<forall>k. Suc p \<le> k \<and> k < j \<longrightarrow> \<not> runnable ps k"
          "sched_scan ps (Suc p) = Some (pick_high ps j)" by auto
    then show ?thesis
    proof cases
      case 1
      have "\<not> runnable ps j" if "p \<le> j" for j
        using 1 2 that by (cases "j = p") auto
      with 1 eq show ?thesis by auto
    next
      case (2 j)
      have "\<not> runnable ps k" if "p \<le> k" "k < j" for k
        using 2(3) that \<open>p_state (ps ! p) \<noteq> RUNNABLE\<close> by (cases "k = p") auto
      with 2 eq show ?thesis by (intro disjI2 exI [of _ j]) auto
    qed
  next
    case 3
    then show ?thesis by (intro disjI2 exI [of _ p]) (subst sched_scan.simps, auto)
  qed
qed

section \<open>Properties\<close>

text \<open>C3: what the scheduler chooses, wherever in the table its pass has got to, after a dispatch behind the
  process it dispatched last.  From entry \<open>i\<close> on, the pass ends with nothing changed exactly when no entry from \<open>i\<close>
  on is runnable.  Otherwise the process it switches to is runnable and no runnable process of the whole table,
  before or behind \<open>i\<close>, has a smaller priority value (a larger value is a lower priority); that process becomes the
  CPU's process and is marked running, its kernel stack and page table are loaded, and nothing else changes.\<close>

theorem scheduler_highest_priority:
  assumes "\<forall>j. runnable (k_procs s) j \<longrightarrow> p_kstack (k_procs s ! j) \<noteq> 0 \<and> p_pgdir (k_procs s ! j) \<noteq> 0"
  shows "if \<forall>j \<ge> i. \<not> runnable (k_procs s) j then scheduler_step i s = Ok None s
    else \<exists>p. runnable (k_procs s) p \<and> (\<forall>j. runnable (k_procs s) j \<longrightarrow> p_priority (k_procs s ! p) \<le> p_priority (k_procs s ! j))
      \<and> scheduler_step i s = Ok (Some p) (s\<lparr>k_cur := Some p, k_esp0 := p_kstack (k_procs s ! p) + KSTACKSIZE,
           k_cr3 := V2P (p_pgdir (k_procs s ! p)), k_procs := (k_procs s)[p := (k_procs s ! p)\<lparr>p_state := RUNNING\<rparr>]\<rparr>)"
proof (cases "\<forall>j \<ge> i. \<not> runnable (k_procs s) j")
  case True
  then have "sched_scan (k_procs s) i = None" using sched_scan_cases [of "k_procs s" i] by blast
  then show ?thesis using True by (simp add: scheduler_step_def kdefs)
next
  case False
  then obtain j where j: "runnable (k_procs s) j" "sched_scan (k_procs s) i = Some (pick_high (k_procs s) j)"
    using sched_scan_cases [of "k_procs s" i] by blast
  note p = pick_high_props [OF j(1)]
  let ?p = "pick_high (k_procs s) j"
  have "scheduler_step i s = Ok (Some ?p) (s\<lparr>k_cur := Some ?p, k_esp0 := p_kstack (k_procs s ! ?p) + KSTACKSIZE,
      k_cr3 := V2P (p_pgdir (k_procs s ! ?p)), k_procs := (k_procs s)[?p := (k_procs s ! ?p)\<lparr>p_state := RUNNING\<rparr>]\<rparr>)"
    using j(2) assms p(1) by (simp add: scheduler_step_def switchuvm_def kdefs cur_defs)
  then show ?thesis using False p by (subst if_not_P [OF False]) blast
qed

text \<open>The third entry has been dispatched and the pass goes on behind it: the first entry, before it, is preferred
  to the fourth.\<close>

theorem scheduler_highest_priority_witness:
  "\<exists>t. scheduler_step 3 (kst0\<lparr>k_procs := [proc0\<lparr>p_state := RUNNABLE, p_priority := 2, p_kstack := 4096, p_pgdir := 8192\<rparr>, proc0, proc0,
      proc0\<lparr>p_state := RUNNABLE, p_priority := 10, p_kstack := 4096, p_pgdir := 8192\<rparr>]\<rparr>) = Ok (Some 0) t"
proof -
  let ?a = "proc0\<lparr>p_state := RUNNABLE, p_priority := 2, p_kstack := 4096, p_pgdir := 8192\<rparr>"
  let ?b = "proc0\<lparr>p_state := RUNNABLE, p_priority := 10, p_kstack := 4096, p_pgdir := 8192\<rparr>"
  let ?s = "kst0\<lparr>k_procs := [?a, proc0, proc0, ?b]\<rparr>"
  have r: "runnable (k_procs ?s) j \<longleftrightarrow> j = 0 \<or> j = 3" for j
    by (auto simp: proc0_def less_Suc_eq numeral_3_eq_3 numeral_2_eq_2)
  have "\<forall>j. runnable (k_procs ?s) j \<longrightarrow> p_kstack (k_procs ?s ! j) \<noteq> 0 \<and> p_pgdir (k_procs ?s ! j) \<noteq> 0"
    unfolding r by auto
  moreover have n: "\<not> (\<forall>j \<ge> 3. \<not> runnable (k_procs ?s) j)" unfolding r by auto
  ultimately obtain p t where p: "runnable (k_procs ?s) p"
      "\<forall>j. runnable (k_procs ?s) j \<longrightarrow> p_priority (k_procs ?s ! p) \<le> p_priority (k_procs ?s ! j)" "scheduler_step 3 ?s = Ok (Some p) t"
    using scheduler_highest_priority [of ?s 3] unfolding if_not_P [OF n] by blast
  have "p_priority (k_procs ?s ! p) \<le> 2" using p(2) unfolding r by (auto dest: spec [of _ 0])
  then have "p = 0" using p(1) unfolding r by auto
  then show ?thesis using p(3) by blast
qed

text \<open>Sequentially, \<^verbatim>\<open>sleep\<close> exchanges the caller's lock for the table lock and stops with the process asleep on
  the channel and the table lock as the only lock held, every other process unchanged; the next
  \<^verbatim>\<open>wakeup1\<close> on that channel makes it runnable again, and touches no process
  asleep on another channel.\<close>

theorem sleep_then_wakeup:
  assumes "k_cur s = Some p" and "p < length (k_procs s)" and "k_held s = [lk]"
    and "lk \<noteq> PtableLock"
  shows "\<exists>t. sleep ch lk s = Blocked t \<and> k_held t = [PtableLock]
     \<and> p_state (k_procs t ! p) = SLEEPING \<and> p_chan (k_procs t ! p) = ch
     \<and> (\<forall>q. q \<noteq> p \<longrightarrow> k_procs t ! q = k_procs s ! q)
     \<and> (\<exists>u. wakeup1 ch t = Ok () u \<and> p_state (k_procs u ! p) = RUNNABLE
          \<and> (\<forall>q<length (k_procs s). p_chan (k_procs t ! q) \<noteq> ch \<longrightarrow> k_procs u ! q = k_procs t ! q))"
proof -
  let ?q = "(k_procs s ! p)\<lparr>p_chan := ch, p_state := SLEEPING\<rparr>"
  let ?t = "s\<lparr>k_held := [PtableLock], k_procs := (k_procs s)[p := ?q]\<rparr>"
  have "sleep ch lk s = Blocked ?t"
    using assms by (simp add: sleep_eq sched_def swtch_def cur_defs lock_defs kdefs)
  moreover have "wakeup1 ch ?t = Ok () (?t\<lparr>k_procs := map (wake ch) (k_procs ?t)\<rparr>)"
    by (simp add: wakeup1_def kdefs)
  ultimately show ?thesis
    using assms(2) by (intro exI [of _ ?t]) (auto simp: wake_def)
qed

theorem sleep_then_wakeup_witness:
  "\<exists>t. sleep ChLog LogLock (kst0\<lparr>k_cur := Some 3, k_held := [LogLock]\<rparr>) = Blocked t
     \<and> k_held t = [PtableLock]"
  using sleep_then_wakeup [of "kst0\<lparr>k_cur := Some 3, k_held := [LogLock]\<rparr>" 3 LogLock ChLog]
  by (auto simp: kst0_def NPROC_def)

text \<open>\<^verbatim>\<open>kill\<close> on every branch: with a matching entry, the first such entry is marked killed
  and, if asleep, made runnable, everything else is untouched and the result is 0; without one
  the state is unchanged and the result is -1; on both the table lock is released.\<close>

theorem kill_spec:
  assumes "PtableLock \<notin> set (k_held s)"
  shows "case find_idx (\<lambda>q. p_pid q = pid) (k_procs s) of
     Some p \<Rightarrow> kill pid s = Ok 0 (s\<lparr>k_procs := (k_procs s)[p := kill_proc (k_procs s ! p)]\<rparr>)
       \<and> p_pid (k_procs s ! p) = pid \<and> p_state (kill_proc (k_procs s ! p)) \<noteq> SLEEPING
   | None \<Rightarrow> kill pid s = Ok (- 1) s \<and> pid \<notin> p_pid ` set (k_procs s)"
proof (cases "find_idx (\<lambda>q. p_pid q = pid) (k_procs s)")
  case None
  then have "pid \<notin> p_pid ` set (k_procs s)" by (auto simp: find_idx_None)
  with None assms show ?thesis by (simp add: kill_def kdefs)
next
  case (Some p)
  then show ?thesis
    using assms find_idx_Some(2) [OF Some] by (auto simp: kill_def kdefs cur_defs kill_proc_def)
qed

theorem kill_spec_witness:
  "\<exists>t. kill 7 (kst0\<lparr>k_procs := [proc0, proc0\<lparr>p_pid := 7, p_state := SLEEPING\<rparr>]\<rparr>) = Ok 0 t
     \<and> p_killed (k_procs t ! 1) \<and> p_state (k_procs t ! 1) = RUNNABLE"
  using kill_spec [of "kst0\<lparr>k_procs := [proc0, proc0\<lparr>p_pid := 7, p_state := SLEEPING\<rparr>]\<rparr>" 7]
  by (simp add: kst0_def proc0_def find_idx_def kill_proc_def)

end
