(* ===== verification/Sleepwake.thy ===== *)
theory Sleepwake
  imports Proc
begin

text \<open>
  Why a wake-up cannot be lost: the steps of \<^verbatim>\<open>sleep\<close> and \<^verbatim>\<open>wakeup\<close> (\<^verbatim>\<open>proc.c\<close>) interleaved between
  CPUs.  Each CPU has its own held locks and its own current process and runs a list of kernel steps on the shared
  state; it may take a step that acquires a lock only while no other CPU holds that lock.  CPU 0 runs a process that
  holds \<open>lk\<close>, has found the condition it waits for false and calls \<^verbatim>\<open>sleep\<close>; CPUs 1 to \<open>n\<close> each take \<open>lk\<close>, make
  the condition true, call \<^verbatim>\<open>wakeup\<close> and release \<open>lk\<close>, the protocol every caller of the two routines follows.
\<close>

section \<open>The machine\<close>

record wst = kst +
  w_cond :: bool

record smp =
  sm_k :: wst
  sm_held :: "nat \<Rightarrow> klock list"
  sm_cur :: "nat \<Rightarrow> nat option"
  sm_pc :: "nat \<Rightarrow> nat"

text \<open>The state as CPU \<open>c\<close> sees it, and the machine after CPU \<open>c\<close> has left it as \<open>t\<close>.\<close>

definition cpu_view :: "nat \<Rightarrow> smp \<Rightarrow> wst" where
  "cpu_view c m = (sm_k m)\<lparr>k_held := sm_held m c, k_cur := sm_cur m c\<rparr>"

definition cpu_put :: "nat \<Rightarrow> wst \<Rightarrow> smp \<Rightarrow> smp" where
  "cpu_put c t m = m\<lparr>sm_k := t, sm_held := (sm_held m)(c := k_held t), sm_cur := (sm_cur m)(c := k_cur t),
     sm_pc := (sm_pc m)(c := Suc (sm_pc m c))\<rparr>"

text \<open>A step that gives the CPU up goes on in the scheduler of the same CPU.\<close>

inductive smp_step :: "(nat \<Rightarrow> (unit, wst) kop list) \<Rightarrow> smp \<Rightarrow> smp \<Rightarrow> bool" for progs where
  smp_stepI: "sm_pc m c < length (progs c) \<Longrightarrow>
    (progs c ! sm_pc m c) (cpu_view c m) = Ok () t \<or> (progs c ! sm_pc m c) (cpu_view c m) = Blocked t \<Longrightarrow>
    \<forall>d. d \<noteq> c \<longrightarrow> set (k_held t) \<inter> set (sm_held m d) = {} \<Longrightarrow> smp_step progs m (cpu_put c t m)"

inductive_cases smp_stepE: "smp_step progs m m'"

section \<open>Sleeper and wakers\<close>

text \<open>The sleeper's steps up to the scheduler's release of the table lock.\<close>

definition sleeper :: "nat \<Rightarrow> chan \<Rightarrow> klock \<Rightarrow> (unit, wst) kop list" where
  "sleeper p ch lk = sleep_steps p ch lk @ [sched, scheduler_back, release PtableLock]"

definition waker :: "chan \<Rightarrow> klock \<Rightarrow> (unit, wst) kop list" where
  "waker ch lk = [acquire lk, modify (\<lambda>s. s\<lparr>w_cond := True\<rparr>)] @ wakeup_steps ch @ [release lk]"

definition sw_progs :: "nat \<Rightarrow> nat \<Rightarrow> chan \<Rightarrow> klock \<Rightarrow> nat \<Rightarrow> (unit, wst) kop list" where
  "sw_progs n p ch lk c = (if c = 0 then sleeper p ch lk else if c \<le> n then waker ch lk else [])"

text \<open>The process has seen the condition false, with \<open>lk\<close> held, and calls \<^verbatim>\<open>sleep\<close>; the wakers have not begun.\<close>

definition sw_start :: "nat \<Rightarrow> klock \<Rightarrow> smp \<Rightarrow> bool" where
  "sw_start p lk m \<longleftrightarrow> \<not> w_cond (sm_k m) \<and> p < length (k_procs (sm_k m)) \<and> p_state (k_procs (sm_k m) ! p) = RUNNING
     \<and> sm_held m = (\<lambda>_. [])(0 := [lk]) \<and> sm_cur m 0 = Some p \<and> sm_pc m = (\<lambda>_. 0)"

section \<open>The invariant\<close>

definition sleeper_holds :: "klock \<Rightarrow> nat \<Rightarrow> klock list" where
  "sleeper_holds lk i = (if i = 0 then [lk] else if i = 1 then [PtableLock, lk] else if i < 7 then [PtableLock] else [])"

definition waker_holds :: "klock \<Rightarrow> nat \<Rightarrow> klock list" where
  "waker_holds lk j = (if j = 0 \<or> 6 \<le> j then [] else if j = 3 \<or> j = 4 then [PtableLock, lk] else [lk])"

definition sw_inv :: "nat \<Rightarrow> nat \<Rightarrow> chan \<Rightarrow> klock \<Rightarrow> smp \<Rightarrow> bool" where
  "sw_inv n p ch lk m \<longleftrightarrow>
     sm_pc m 0 \<le> 7 \<and> (\<forall>c. c \<noteq> 0 \<longrightarrow> sm_pc m c \<le> 6) \<and> (\<forall>c. n < c \<longrightarrow> sm_pc m c = 0)
     \<and> sm_held m 0 = sleeper_holds lk (sm_pc m 0) \<and> (\<forall>c. c \<noteq> 0 \<longrightarrow> sm_held m c = waker_holds lk (sm_pc m c))
     \<and> (\<forall>c d. c \<noteq> d \<longrightarrow> set (sm_held m c) \<inter> set (sm_held m d) = {})
     \<and> (sm_pc m 0 \<le> 5 \<longrightarrow> sm_cur m 0 = Some p)
     \<and> (sm_pc m 0 \<le> 1 \<longrightarrow> (\<forall>c. c \<noteq> 0 \<longrightarrow> sm_pc m c = 0)) \<and> (sm_pc m 0 < 7 \<longrightarrow> (\<forall>c. c \<noteq> 0 \<longrightarrow> sm_pc m c \<le> 2))
     \<and> p < length (k_procs (sm_k m)) \<and> (3 \<le> sm_pc m 0 \<longrightarrow> p_chan (k_procs (sm_k m) ! p) = ch)
     \<and> p_state (k_procs (sm_k m) ! p) = (if sm_pc m 0 < 4 then RUNNING
          else if \<exists>c. c \<noteq> 0 \<and> 4 \<le> sm_pc m c then RUNNABLE else SLEEPING)
     \<and> (w_cond (sm_k m) \<longleftrightarrow> (\<exists>c. c \<noteq> 0 \<and> 2 \<le> sm_pc m c))"

lemma sw_start_inv: "sw_start p lk m \<Longrightarrow> sw_inv n p ch lk m"
  by (auto simp: sw_start_def sw_inv_def sleeper_holds_def waker_holds_def)

lemma sleeper_nth:
  assumes "lk \<noteq> PtableLock"
  shows "length (sleeper p ch lk) = 7" "sleeper p ch lk ! 0 = acquire PtableLock" "sleeper p ch lk ! 1 = release lk"
    "sleeper p ch lk ! 2 = proc_upd p (\<lambda>q. q\<lparr>p_chan := ch\<rparr>)" "sleeper p ch lk ! 3 = proc_upd p (\<lambda>q. q\<lparr>p_state := SLEEPING\<rparr>)"
    "sleeper p ch lk ! 4 = sched" "sleeper p ch lk ! 5 = scheduler_back" "sleeper p ch lk ! 6 = release PtableLock"
  using assms by (simp_all add: sleeper_def sleep_steps_def)

lemma waker_nth:
  "length (waker ch lk) = 6" "waker ch lk ! 0 = acquire lk" "waker ch lk ! 1 = modify (\<lambda>s. s\<lparr>w_cond := True\<rparr>)"
  "waker ch lk ! 2 = acquire PtableLock" "waker ch lk ! 3 = wakeup1 ch" "waker ch lk ! 4 = release PtableLock"
  "waker ch lk ! 5 = release lk"
  by (simp_all add: waker_def wakeup_steps_def)

lemma cpu_put_simps [simp]:
  "sm_k (cpu_put c t m) = t" "sm_held (cpu_put c t m) = (sm_held m)(c := k_held t)"
  "sm_cur (cpu_put c t m) = (sm_cur m)(c := k_cur t)" "sm_pc (cpu_put c t m) = (sm_pc m)(c := Suc (sm_pc m c))"
  by (simp_all add: cpu_put_def)

lemma cpu_view_simps [simp]:
  "k_held (cpu_view c m) = sm_held m c" "k_cur (cpu_view c m) = sm_cur m c" "k_procs (cpu_view c m) = k_procs (sm_k m)"
  "w_cond (cpu_view c m) = w_cond (sm_k m)"
  by (simp_all add: cpu_view_def)

text \<open>What the step at each program point does, in the states of the invariant: none of them panics.\<close>

lemma sleeper_outcome:
  assumes "sw_inv n p ch lk m" "lk \<noteq> PtableLock" "sm_pc m 0 < 7"
  obtains t where "sm_pc m 0 = 4 \<longrightarrow> (sleeper p ch lk ! sm_pc m 0) (cpu_view 0 m) = Blocked t"
    "sm_pc m 0 \<noteq> 4 \<longrightarrow> (sleeper p ch lk ! sm_pc m 0) (cpu_view 0 m) = Ok () t"
    "k_held t = sleeper_holds lk (Suc (sm_pc m 0))" "sm_pc m 0 < 5 \<longrightarrow> k_cur t = Some p" "w_cond t = w_cond (sm_k m)"
    "k_procs t = (if sm_pc m 0 = 2 then (k_procs (sm_k m))[p := (k_procs (sm_k m) ! p)\<lparr>p_chan := ch\<rparr>]
       else if sm_pc m 0 = 3 then (k_procs (sm_k m))[p := (k_procs (sm_k m) ! p)\<lparr>p_state := SLEEPING\<rparr>] else k_procs (sm_k m))"
proof -
  let ?i = "sm_pc m 0" and ?v = "cpu_view 0 m"
  note nth = sleeper_nth [OF assms(2), of p ch]
  have h: "k_held ?v = sleeper_holds lk ?i" and c: "?i \<le> 5 \<longrightarrow> k_cur ?v = Some p"
    and st: "4 \<le> ?i \<longrightarrow> p_state (k_procs ?v ! p) \<noteq> RUNNING"
    using assms(1) by (auto simp: sw_inv_def)
  consider "?i = 0" | "?i = 1" | "?i = 2" | "?i = 3" | "?i = 4" | "?i = 5" | "?i = 6" using assms(3) by linarith
  then show thesis
  proof cases
    case 1
    show ?thesis by (rule that [of "?v\<lparr>k_held := [PtableLock, lk]\<rparr>"]) (use 1 h c assms(2) nth in \<open>simp_all add: sleeper_holds_def\<close>)
  next
    case 2
    show ?thesis by (rule that [of "?v\<lparr>k_held := [PtableLock]\<rparr>"]) (use 2 h c assms(2) nth in \<open>simp_all add: sleeper_holds_def\<close>)
  next
    case 3
    show ?thesis
      by (rule that [of "?v\<lparr>k_procs := (k_procs ?v)[p := (k_procs ?v ! p)\<lparr>p_chan := ch\<rparr>]\<rparr>"])
        (use 3 h c nth in \<open>simp_all add: sleeper_holds_def proc_upd_def kdefs\<close>)
  next
    case 4
    show ?thesis
      by (rule that [of "?v\<lparr>k_procs := (k_procs ?v)[p := (k_procs ?v ! p)\<lparr>p_state := SLEEPING\<rparr>]\<rparr>"])
        (use 4 h c nth in \<open>simp_all add: sleeper_holds_def proc_upd_def kdefs\<close>)
  next
    case 5
    show ?thesis
      by (rule that [of ?v]) (use 5 h c st nth in \<open>simp_all add: sleeper_holds_def sched_def swtch_def cur_defs lock_defs kdefs\<close>)
  next
    case 6
    obtain t where "scheduler_back ?v = Ok () t" "k_held t = k_held ?v" "w_cond t = w_cond ?v" "k_procs t = k_procs ?v"
      by (simp add: scheduler_back_def switchkvm_def kdefs)
    then show ?thesis by (intro that [of t]) (use 6 h nth in \<open>simp_all add: sleeper_holds_def\<close>)
  next
    case 7
    show ?thesis by (rule that [of "?v\<lparr>k_held := []\<rparr>"]) (use 7 h c nth in \<open>simp_all add: sleeper_holds_def\<close>)
  qed
qed

lemma waker_outcome:
  assumes "sw_inv n p ch lk m" "lk \<noteq> PtableLock" "c \<noteq> 0" "sm_pc m c < 6"
  obtains t where "(waker ch lk ! sm_pc m c) (cpu_view c m) = Ok () t"
    "k_held t = waker_holds lk (Suc (sm_pc m c))" "k_cur t = sm_cur m c"
    "w_cond t = (if sm_pc m c = 1 then True else w_cond (sm_k m))"
    "k_procs t = (if sm_pc m c = 3 then map (wake ch) (k_procs (sm_k m)) else k_procs (sm_k m))"
proof -
  let ?i = "sm_pc m c" and ?v = "cpu_view c m"
  note nth = waker_nth [of ch lk]
  have h: "k_held ?v = waker_holds lk ?i" using assms(1,3) by (simp add: sw_inv_def)
  consider "?i = 0" | "?i = 1" | "?i = 2" | "?i = 3" | "?i = 4" | "?i = 5" using assms(4) by linarith
  then show thesis
  proof cases
    case 1
    show ?thesis by (rule that [of "?v\<lparr>k_held := [lk]\<rparr>"]) (use 1 h nth in \<open>simp_all add: waker_holds_def\<close>)
  next
    case 2
    show ?thesis by (rule that [of "?v\<lparr>w_cond := True\<rparr>"]) (use 2 h nth in \<open>simp_all add: waker_holds_def kdefs\<close>)
  next
    case 3
    show ?thesis
      by (rule that [of "?v\<lparr>k_held := [PtableLock, lk]\<rparr>"]) (use 3 h assms(2) nth in \<open>simp_all add: waker_holds_def\<close>)
  next
    case 4
    show ?thesis
      by (rule that [of "?v\<lparr>k_procs := map (wake ch) (k_procs ?v)\<rparr>"])
        (use 4 h nth in \<open>simp_all add: waker_holds_def wakeup1_def kdefs\<close>)
  next
    case 5
    show ?thesis by (rule that [of "?v\<lparr>k_held := [lk]\<rparr>"]) (use 5 h nth in \<open>simp_all add: waker_holds_def\<close>)
  next
    case 6
    show ?thesis by (rule that [of "?v\<lparr>k_held := []\<rparr>"]) (use 6 h nth in \<open>simp_all add: waker_holds_def\<close>)
  qed
qed

lemma disjoint_upd:
  assumes "\<forall>c d. c \<noteq> d \<longrightarrow> set (f c) \<inter> set (f d) = {}" "\<forall>d. d \<noteq> b \<longrightarrow> set x \<inter> set (f d) = {}"
  shows "\<forall>c d. c \<noteq> d \<longrightarrow> set ((f(b := x)) c) \<inter> set ((f(b := x)) d) = {}"
  using assms by (auto simp: fun_upd_apply)

lemma sleeper_inv:
  assumes "sw_inv n p ch lk m" "lk \<noteq> PtableLock" "sm_pc m 0 < 7"
    "(sleeper p ch lk ! sm_pc m 0) (cpu_view 0 m) = Ok () t \<or> (sleeper p ch lk ! sm_pc m 0) (cpu_view 0 m) = Blocked t"
    "\<forall>d. d \<noteq> 0 \<longrightarrow> set (k_held t) \<inter> set (sm_held m d) = {}"
  shows "sw_inv n p ch lk (cpu_put 0 t m)"
proof -
  from sleeper_outcome [OF assms(1-3)] obtain u
    where u: "sm_pc m 0 = 4 \<longrightarrow> (sleeper p ch lk ! sm_pc m 0) (cpu_view 0 m) = Blocked u"
      "sm_pc m 0 \<noteq> 4 \<longrightarrow> (sleeper p ch lk ! sm_pc m 0) (cpu_view 0 m) = Ok () u"
    and t: "k_held u = sleeper_holds lk (Suc (sm_pc m 0))" "sm_pc m 0 < 5 \<longrightarrow> k_cur u = Some p" "w_cond u = w_cond (sm_k m)"
    "k_procs u = (if sm_pc m 0 = 2 then (k_procs (sm_k m))[p := (k_procs (sm_k m) ! p)\<lparr>p_chan := ch\<rparr>]
       else if sm_pc m 0 = 3 then (k_procs (sm_k m))[p := (k_procs (sm_k m) ! p)\<lparr>p_state := SLEEPING\<rparr>] else k_procs (sm_k m))"
    by blast
  have [simp]: "u = t" using assms(4) u by (cases "sm_pc m 0 = 4") auto
  note inv = assms(1) [unfolded sw_inv_def]
  have ex: "(\<exists>c. c \<noteq> 0 \<and> k \<le> ((sm_pc m)(0 := x)) c) \<longleftrightarrow> (\<exists>c. c \<noteq> 0 \<and> k \<le> sm_pc m c)" for k x by auto
  have d: "\<forall>c d. c \<noteq> d \<longrightarrow> set (((sm_held m)(0 := k_held t)) c) \<inter> set (((sm_held m)(0 := k_held t)) d) = {}"
    by (rule disjoint_upd) (use inv assms(5) in blast)+
  have le: "\<not> (\<exists>c. c \<noteq> 0 \<and> 4 \<le> sm_pc m c)" using inv assms(3) by (metis le_trans numeral_le_iff semiring_norm(69,71))
  have e: "p < length (k_procs (sm_k m))" "3 \<le> sm_pc m 0 \<longrightarrow> p_chan (k_procs (sm_k m) ! p) = ch"
    "p_state (k_procs (sm_k m) ! p) = (if sm_pc m 0 < 4 then RUNNING
      else if \<exists>c. c \<noteq> 0 \<and> 4 \<le> sm_pc m c then RUNNABLE else SLEEPING)"
    by (insert inv) ((elim conjE, assumption)+)
  have st: "p_state (k_procs t ! p) = (if Suc (sm_pc m 0) < 4 then RUNNING
      else if \<exists>c. c \<noteq> 0 \<and> 4 \<le> sm_pc m c then RUNNABLE else SLEEPING)"
    using t(4) e le by (simp split: if_splits)
  have chn: "3 \<le> Suc (sm_pc m 0) \<longrightarrow> p_chan (k_procs t ! p) = ch" using t(4) e by (simp split: if_splits)
  have low: "\<forall>c. c \<noteq> 0 \<longrightarrow> sm_pc m c \<le> 2" using inv assms(3) by blast
  show ?thesis
    unfolding sw_inv_def cpu_put_simps ex
    by (intro conjI) (use inv t d st chn low assms(3) in simp_all)
qed

lemma waker_inv:
  assumes "sw_inv n p ch lk m" "lk \<noteq> PtableLock" "c \<noteq> 0" "c \<le> n" "sm_pc m c < 6"
    "(waker ch lk ! sm_pc m c) (cpu_view c m) = Ok () t \<or> (waker ch lk ! sm_pc m c) (cpu_view c m) = Blocked t"
    "\<forall>d. d \<noteq> c \<longrightarrow> set (k_held t) \<inter> set (sm_held m d) = {}"
  shows "sw_inv n p ch lk (cpu_put c t m)"
proof -
  let ?j = "sm_pc m c" and ?ps = "k_procs (sm_k m)"
  from waker_outcome [OF assms(1,2,3,5)] obtain u
    where u: "(waker ch lk ! ?j) (cpu_view c m) = Ok () u"
    and t: "k_held u = waker_holds lk (Suc ?j)" "k_cur u = sm_cur m c"
      "w_cond u = (if ?j = 1 then True else w_cond (sm_k m))" "k_procs u = (if ?j = 3 then map (wake ch) ?ps else ?ps)"
    by blast
  have [simp]: "u = t" using assms(6) u by auto
  note inv = assms(1) [unfolded sw_inv_def]
  have d: "\<forall>a b. a \<noteq> b \<longrightarrow> set (((sm_held m)(c := k_held t)) a) \<inter> set (((sm_held m)(c := k_held t)) b) = {}"
    by (rule disjoint_upd) (use inv assms(7) in blast)+
  have dj: "set (waker_holds lk (Suc ?j)) \<inter> set (sleeper_holds lk (sm_pc m 0)) = {}"
    using t(1) assms(3,7) inv by (metis \<open>u = t\<close>)
  have j0: "2 \<le> sm_pc m 0"
    using dj inv assms(3) by (cases "sm_pc m 0 = 0"; cases "sm_pc m 0 = 1") (auto simp: waker_holds_def sleeper_holds_def)
  have j2: "Suc ?j \<le> 2" if "sm_pc m 0 < 7"
  proof -
    have "?j \<le> 2" using inv that assms(3) by blast
    moreover have "?j \<noteq> 2" using dj j0 that by (auto simp: waker_holds_def sleeper_holds_def)
    ultimately show ?thesis by simp
  qed
  have ex: "(\<exists>b. b \<noteq> 0 \<and> k \<le> ((sm_pc m)(c := Suc ?j)) b) \<longleftrightarrow> k \<le> Suc ?j \<or> (\<exists>b. b \<noteq> 0 \<and> k \<le> sm_pc m b)" for k
  proof
    assume "k \<le> Suc ?j \<or> (\<exists>b. b \<noteq> 0 \<and> k \<le> sm_pc m b)"
    then obtain b where "b \<noteq> 0" "k \<le> (if b = c then Suc ?j else sm_pc m b)"
      by (metis assms(3) le_SucI)
    then show "\<exists>b. b \<noteq> 0 \<and> k \<le> ((sm_pc m)(c := Suc ?j)) b" by (auto simp: fun_upd_apply)
  qed (auto simp: fun_upd_apply split: if_splits)
  have wc: "w_cond t \<longleftrightarrow> 2 \<le> Suc ?j \<or> (\<exists>b. b \<noteq> 0 \<and> 2 \<le> sm_pc m b)"
  proof -
    have w: "w_cond (sm_k m) \<longleftrightarrow> (\<exists>b. b \<noteq> 0 \<and> 2 \<le> sm_pc m b)" using inv by (elim conjE)
    consider "?j = 0" | "?j = 1" | "2 \<le> ?j" by linarith
    then show ?thesis
    proof cases
      case 3
      then have "w_cond (sm_k m)" using w assms(3) by blast
      then show ?thesis using 3 t(3) by simp
    qed (use t(3) w in simp_all)
  qed
  have len: "p < length (k_procs t)" and chn: "3 \<le> sm_pc m 0 \<longrightarrow> p_chan (k_procs t ! p) = ch"
    using t(4) inv by (simp_all add: wake_def)
  have st: "p_state (k_procs t ! p) = (if sm_pc m 0 < 4 then RUNNING
      else if 4 \<le> Suc ?j \<or> (\<exists>b. b \<noteq> 0 \<and> 4 \<le> sm_pc m b) then RUNNABLE else SLEEPING)"
  proof (cases "?j = 3")
    case True
    then have s7: "sm_pc m 0 = 7" using j2 inv by linarith
    then have "p_state (?ps ! p) \<in> {RUNNABLE, SLEEPING}" "p_chan (?ps ! p) = ch" "p < length ?ps"
      using inv by simp_all
    then show ?thesis using True t(4) s7 by (auto simp: wake_def)
  next
    case False
    have e: "p_state (?ps ! p) = (if sm_pc m 0 < 4 then RUNNING
      else if \<exists>b. b \<noteq> 0 \<and> 4 \<le> sm_pc m b then RUNNABLE else SLEEPING)" using inv by (elim conjE)
    have "4 \<le> Suc ?j \<Longrightarrow> \<exists>b. b \<noteq> 0 \<and> 4 \<le> sm_pc m b" using False assms(3) by (intro exI [of _ c]) simp
    then show ?thesis using t(4) False e by (simp split: if_splits)
  qed
  show ?thesis
    unfolding sw_inv_def cpu_put_simps ex
    by (intro conjI) (use inv t d wc len chn st j0 j2 assms(3,4,5) in simp_all)
qed

lemma smp_step_inv:
  assumes "smp_step (sw_progs n p ch lk) m m'" "lk \<noteq> PtableLock" "sw_inv n p ch lk m"
  shows "sw_inv n p ch lk m'"
  using assms(1)
proof (rule smp_stepE)
  fix c t
  assume m': "m' = cpu_put c t m" and pc: "sm_pc m c < length (sw_progs n p ch lk c)"
    and st: "(sw_progs n p ch lk c ! sm_pc m c) (cpu_view c m) = Ok () t \<or> (sw_progs n p ch lk c ! sm_pc m c) (cpu_view c m) = Blocked t"
    and d: "\<forall>d. d \<noteq> c \<longrightarrow> set (k_held t) \<inter> set (sm_held m d) = {}"
  show ?thesis
  proof (cases "c = 0")
    case True
    then show ?thesis
      using sleeper_inv [OF assms(3,2), of t] pc st d m' sleeper_nth(1) [OF assms(2)] by (simp add: sw_progs_def)
  next
    case False
    then have "c \<le> n" using pc by (auto simp: sw_progs_def split: if_splits)
    then show ?thesis
      using waker_inv [OF assms(3,2) False, of t] False pc st d m' waker_nth(1) by (simp add: sw_progs_def)
  qed
qed

text \<open>Runs of \<open>k\<close> steps: each step advances one CPU, so a run has at most as many steps as the programs together.\<close>

lemma smp_step_count:
  assumes "smp_step (sw_progs n p ch lk) m m'"
  shows "sum (sm_pc m') {..n} = Suc (sum (sm_pc m) {..n})"
  using assms
proof (rule smp_stepE)
  fix c t
  assume m': "m' = cpu_put c t m" and pc: "sm_pc m c < length (sw_progs n p ch lk c)"
  have "c \<in> {..n}" using pc by (auto simp: sw_progs_def split: if_splits)
  moreover have "sum (sm_pc m') ({..n} - {c}) = sum (sm_pc m) ({..n} - {c})" by (rule sum.cong) (auto simp: m')
  ultimately show ?thesis using sum.remove [of "{..n}" c "sm_pc m'"] sum.remove [of "{..n}" c "sm_pc m"] by (simp add: m')
qed

lemma smp_run_inv:
  assumes "(smp_step (sw_progs n p ch lk) ^^ k) m m'" "lk \<noteq> PtableLock" "sw_inv n p ch lk m"
  shows "sw_inv n p ch lk m' \<and> sum (sm_pc m') {..n} = k + sum (sm_pc m) {..n}"
  using assms(1)
proof (induction k arbitrary: m')
  case (Suc k)
  then obtain m1 where "(smp_step (sw_progs n p ch lk) ^^ k) m m1" "smp_step (sw_progs n p ch lk) m1 m'" by auto
  then show ?case using Suc.IH [of m1] smp_step_inv [OF _ assms(2)] smp_step_count by fastforce
qed (use assms(3) in simp)

lemma sw_inv_sum:
  assumes "sw_inv n p ch lk m"
  shows "sum (sm_pc m) {..n} \<le> 7 + 6 * n"
proof -
  have "sum (sm_pc m) {..n} = sm_pc m 0 + sum (sm_pc m) {1..n}"
    using sum.atMost_shift [of "sm_pc m" n] by (simp add: sum.atLeast1_atMost_eq)
  also have "sum (sm_pc m) {1..n} \<le> sum (\<lambda>_. 6) {1..n}" by (rule sum_mono) (use assms in \<open>auto simp: sw_inv_def\<close>)
  finally show ?thesis using assms by (simp add: sw_inv_def)
qed

text \<open>No deadlock.\<close>

lemma waker_holds_lk: "waker_holds lk j = [] \<or> lk \<in> set (waker_holds lk j)"
  by (simp add: waker_holds_def)

lemma sleeper_can_step:
  assumes "sw_inv n p ch lk m" "lk \<noteq> PtableLock" "sm_pc m 0 < 7"
  shows "\<exists>m'. smp_step (sw_progs n p ch lk) m m'"
proof -
  from sleeper_outcome [OF assms] obtain t
    where t: "(sleeper p ch lk ! sm_pc m 0) (cpu_view 0 m) = Ok () t \<or> (sleeper p ch lk ! sm_pc m 0) (cpu_view 0 m) = Blocked t"
      "k_held t = sleeper_holds lk (Suc (sm_pc m 0))" by blast
  note inv = assms(1) [unfolded sw_inv_def]
  have "set (k_held t) \<inter> set (sm_held m d) = {}" if "d \<noteq> 0" for d
  proof (cases "sm_pc m 0 = 0")
    case True
    then show ?thesis using inv that by (simp add: waker_holds_def)
  next
    case False
    then have "set (k_held t) \<subseteq> set (sm_held m 0)" using t(2) inv by (auto simp: sleeper_holds_def)
    moreover have "set (sm_held m 0) \<inter> set (sm_held m d) = {}" using inv that by metis
    ultimately show ?thesis by blast
  qed
  then have "smp_step (sw_progs n p ch lk) m (cpu_put 0 t m)"
    using t(1) assms(3) sleeper_nth(1) [OF assms(2)] by (intro smp_stepI) (simp_all add: sw_progs_def)
  then show ?thesis by blast
qed

lemma waker_can_step:
  assumes "sw_inv n p ch lk m" "lk \<noteq> PtableLock" "sm_pc m 0 = 7" "c \<noteq> 0" "c \<le> n" "sm_pc m c < 6"
    "\<And>d. d \<noteq> 0 \<Longrightarrow> d \<noteq> c \<Longrightarrow> sm_held m d = []"
  shows "\<exists>m'. smp_step (sw_progs n p ch lk) m m'"
proof -
  from waker_outcome [OF assms(1,2,4,6)] obtain t where t: "(waker ch lk ! sm_pc m c) (cpu_view c m) = Ok () t" by metis
  have "sm_held m 0 = []" using assms(1,3) by (simp add: sw_inv_def sleeper_holds_def)
  then have "sm_held m d = []" if "d \<noteq> c" for d using assms(7) that by (cases "d = 0") simp_all
  then have "smp_step (sw_progs n p ch lk) m (cpu_put c t m)"
    using t assms(4-6) waker_nth(1) by (intro smp_stepI) (simp_all add: sw_progs_def)
  then show ?thesis by blast
qed

lemma sw_progress:
  assumes "sw_inv n p ch lk m" "lk \<noteq> PtableLock" "sm_pc m c < length (sw_progs n p ch lk c)"
  shows "\<exists>m'. smp_step (sw_progs n p ch lk) m m'"
proof (cases "sm_pc m 0 < 7")
  case True
  then show ?thesis using sleeper_can_step assms(1,2) by blast
next
  case False
  then have s7: "sm_pc m 0 = 7" using assms(1) by (auto simp: sw_inv_def)
  note inv = assms(1) [unfolded sw_inv_def]
  have c: "c \<noteq> 0" "c \<le> n" "sm_pc m c < 6"
    using assms(3) s7 sleeper_nth(1) [OF assms(2)] waker_nth(1) by (auto simp: sw_progs_def split: if_splits)
  show ?thesis
  proof (cases "\<exists>b. b \<noteq> 0 \<and> sm_held m b \<noteq> []")
    case True
    then obtain b where b: "b \<noteq> 0" "sm_held m b \<noteq> []" by blast
    then have hb: "lk \<in> set (sm_held m b)" "sm_pc m b \<noteq> 0" "sm_pc m b < 6"
      using inv waker_holds_lk [of lk "sm_pc m b"] by (auto simp: waker_holds_def split: if_splits)
    moreover have "sm_held m d = []" if "d \<noteq> 0" "d \<noteq> b" for d
    proof -
      have "lk \<notin> set (sm_held m d)" using inv that hb(1) by (metis disjoint_iff)
      then show ?thesis using inv that(1) waker_holds_lk by metis
    qed
    moreover have "b \<le> n" using inv hb(2) by (meson not_le)
    ultimately show ?thesis using waker_can_step [OF assms(1,2) s7 b(1)] by blast
  next
    case False
    then show ?thesis using waker_can_step [OF assms(1,2) s7 c] by blast
  qed
qed

section \<open>Properties\<close>

text \<open>C6: \<^verbatim>\<open>sleep\<close> loses no wake-up, however its steps and those of any number of wakers interleave.  As soon as
  a waker has run its \<^verbatim>\<open>wakeup1\<close> (four steps), the sleeping process is runnable, and stays so; the condition can be
  true with the process not runnable only while a waker is between setting it and its \<^verbatim>\<open>wakeup1\<close>.  No step of
  either side panics, some CPU can always take a step until all are done, the run ends after at most \<open>7 + 6 n\<close>
  steps, and with at least one waker the process is runnable at its end.\<close>

theorem sleep_wakeup_not_lost:
  assumes "lk \<noteq> PtableLock" "sw_start p lk m" "(smp_step (sw_progs n p ch lk) ^^ k) m m'"
  shows "(\<forall>c. 0 < c \<and> 4 \<le> sm_pc m' c \<longrightarrow> p_state (k_procs (sm_k m') ! p) = RUNNABLE)
    \<and> (w_cond (sm_k m') \<longrightarrow> p_state (k_procs (sm_k m') ! p) = RUNNABLE \<or> (\<exists>c. 0 < c \<and> sm_pc m' c \<in> {2, 3}))
    \<and> (\<forall>c e. sm_pc m' c < length (sw_progs n p ch lk c) \<longrightarrow> (sw_progs n p ch lk c ! sm_pc m' c) (cpu_view c m') \<noteq> Panic e)
    \<and> k \<le> 7 + 6 * n
    \<and> (if \<exists>c. sm_pc m' c < length (sw_progs n p ch lk c) then \<exists>m''. smp_step (sw_progs n p ch lk) m' m''
       else 0 < n \<longrightarrow> p_state (k_procs (sm_k m') ! p) = RUNNABLE)"
proof -
  have inv: "sw_inv n p ch lk m'" and "sum (sm_pc m') {..n} = k + sum (sm_pc m) {..n}"
    using smp_run_inv [OF assms(3,1) sw_start_inv [OF assms(2)]] by simp_all
  then have k: "k \<le> 7 + 6 * n" using sw_inv_sum [OF inv] by linarith
  have run: "p_state (k_procs (sm_k m') ! p) = RUNNABLE" if "0 < c" "4 \<le> sm_pc m' c" for c
  proof -
    have "\<not> sm_pc m' 0 < 7" using inv that unfolding sw_inv_def by (metis le_trans less_numeral_extra(3) numeral_le_iff semiring_norm(69,71))
    moreover have "\<exists>c. c \<noteq> 0 \<and> 4 \<le> sm_pc m' c" using that by blast
    ultimately show ?thesis using inv by (simp add: sw_inv_def)
  qed
  have cond: "p_state (k_procs (sm_k m') ! p) = RUNNABLE \<or> (\<exists>c. 0 < c \<and> sm_pc m' c \<in> {2, 3})" if w: "w_cond (sm_k m')"
  proof -
    have "w_cond (sm_k m') \<longleftrightarrow> (\<exists>c. c \<noteq> 0 \<and> 2 \<le> sm_pc m' c)" using inv [unfolded sw_inv_def] by (elim conjE)
    then obtain c where c: "c \<noteq> 0" "2 \<le> sm_pc m' c" using w by blast
    have "sm_pc m' c = 2 \<or> sm_pc m' c = 3 \<or> 4 \<le> sm_pc m' c" using c(2) by linarith
    then show ?thesis using run [of c] c(1) by (metis insertI1 insertI2 neq0_conv singletonI)
  qed
  have np: "(sw_progs n p ch lk c ! sm_pc m' c) (cpu_view c m') \<noteq> Panic e" if pc: "sm_pc m' c < length (sw_progs n p ch lk c)" for c e
  proof (cases "c = 0")
    case True
    then have "sm_pc m' 0 < 7" using pc sleeper_nth(1) [OF assms(1)] by (simp add: sw_progs_def)
    from sleeper_outcome [OF inv assms(1) this]
    obtain t where "(sleeper p ch lk ! sm_pc m' 0) (cpu_view 0 m') \<in> {Ok () t, Blocked t}" by (metis insertI1 insertI2)
    then show ?thesis using True by (auto simp: sw_progs_def)
  next
    case False
    then have w: "sw_progs n p ch lk c = waker ch lk" "sm_pc m' c < 6" using pc waker_nth(1) by (auto simp: sw_progs_def split: if_splits)
    from waker_outcome [OF inv assms(1) False w(2)]
    obtain t where "(waker ch lk ! sm_pc m' c) (cpu_view c m') = Ok () t" by metis
    then show ?thesis using w(1) by simp
  qed
  have fin: "p_state (k_procs (sm_k m') ! p) = RUNNABLE" if "\<nexists>c. sm_pc m' c < length (sw_progs n p ch lk c)" "0 < n"
  proof -
    have "6 \<le> sm_pc m' 1" using that waker_nth(1) by (auto simp: sw_progs_def not_less dest!: spec [of _ 1])
    then show ?thesis using run [of 1] by simp
  qed
  show ?thesis
  proof (intro conjI allI impI)
    show "if \<exists>c. sm_pc m' c < length (sw_progs n p ch lk c) then \<exists>m''. smp_step (sw_progs n p ch lk) m' m''
      else 0 < n \<longrightarrow> p_state (k_procs (sm_k m') ! p) = RUNNABLE"
      using fin sw_progress [OF inv assms(1)] by presburger
  qed (use run in blast, use cond np k in simp_all)
qed

text \<open>The waker of CPU 1 spins on \<open>lk\<close> until the sleeper has released it; here it then runs to its end.\<close>

definition sw_demo :: smp where
  "sw_demo = \<lparr>sm_k = kst.extend (kst0\<lparr>k_procs := [proc0\<lparr>p_state := RUNNING\<rparr>]\<rparr>) \<lparr>w_cond = False\<rparr>,
     sm_held = (\<lambda>_. [])(0 := [LogLock]), sm_cur = (\<lambda>_. None)(0 := Some 0), sm_pc = \<lambda>_. 0\<rparr>"

theorem sleep_wakeup_not_lost_witness:
  "\<exists>m'. (smp_step (sw_progs 1 0 ChLog LogLock) ^^ 13) sw_demo m' \<and> p_state (k_procs (sm_k m') ! 0) = RUNNABLE"
proof -
  have start: "sw_start 0 LogLock sw_demo" by (simp add: sw_start_def sw_demo_def kst.defs kst0_def)
  have "\<exists>m'. (smp_step (sw_progs 1 0 ChLog LogLock) ^^ k) sw_demo m'" if "k \<le> 13" for k
    using that
  proof (induction k)
    case (Suc k)
    then obtain m1 where m1: "(smp_step (sw_progs 1 0 ChLog LogLock) ^^ k) sw_demo m1" by auto
    note r = smp_run_inv [OF m1 _ sw_start_inv [OF start]]
    have "sum (sm_pc m1) {..1} = k" using r by (simp add: sw_demo_def)
    then have "\<exists>c. sm_pc m1 c < length (sw_progs 1 0 ChLog LogLock c)"
      using Suc.prems by (intro exI [of _ "if sm_pc m1 0 < 7 then 0 else 1"]) (auto simp: sw_progs_def sleeper_nth waker_nth)
    then obtain m2 where "smp_step (sw_progs 1 0 ChLog LogLock) m1 m2" using sw_progress [of 1 0 ChLog LogLock m1] r by auto
    then show ?case using m1 by (intro exI [of _ m2]) (rule relpowp_Suc_I)
  qed simp
  then obtain m' where m': "(smp_step (sw_progs 1 0 ChLog LogLock) ^^ 13) sw_demo m'" by auto
  note r = smp_run_inv [OF m' _ sw_start_inv [OF start]]
  have "sum (sm_pc m') {..1} = 13" "sm_pc m' 0 \<le> 7" "sm_pc m' 1 \<le> 6" using r by (simp_all add: sw_demo_def sw_inv_def)
  then have "4 \<le> sm_pc m' 1" by simp
  then show ?thesis using sleep_wakeup_not_lost [OF _ start m'] m' by auto
qed

end
