(* ===== verification/Sleeplock.thy ===== *)
theory Sleeplock
  imports Proc
begin

text \<open>
  Sleep locks of \<^verbatim>\<open>sleeplock.c\<close>.  A sleep lock lives inside another structure, so the
  operations take how to read and write it there, the spin lock that protects it, and the
  channel its waiters sleep on (its address).  \<^verbatim>\<open>while(lk->locked) sleep(...)\<close> either finds
  the lock free or ends in \<open>Blocked\<close>; after the wake-up the loop tests again, from the new state.
\<close>

section \<open>Definitions\<close>

record sleeplock =
  sl_locked :: bool
  sl_pid :: int

definition initsleeplock :: sleeplock where
  "initsleeplock = \<lparr>sl_locked = False, sl_pid = 0\<rparr>"

definition acquiresleep ::
    "klock \<Rightarrow> chan \<Rightarrow> ('z kst_scheme \<Rightarrow> sleeplock) \<Rightarrow> (sleeplock \<Rightarrow> 'z kst_scheme \<Rightarrow> 'z kst_scheme)
     \<Rightarrow> (unit, 'z kst_scheme) kop" where
  "acquiresleep lk ch rd wr =
     andthen (acquire lk)
     (bnd (fetch rd) (\<lambda>l. if sl_locked l then sleep ch lk else
      bnd curproc (\<lambda>p. bnd (proc_get p p_pid) (\<lambda>pid.
      andthen (modify (wr \<lparr>sl_locked = True, sl_pid = pid\<rparr>)) (release lk)))))"

definition releasesleep ::
    "klock \<Rightarrow> chan \<Rightarrow> (sleeplock \<Rightarrow> 'z kst_scheme \<Rightarrow> 'z kst_scheme) \<Rightarrow> (unit, 'z kst_scheme) kop" where
  "releasesleep lk ch wr =
     andthen (acquire lk)
     (andthen (modify (wr \<lparr>sl_locked = False, sl_pid = 0\<rparr>))
     (andthen (wakeup ch) (release lk)))"

definition holdingsleep ::
    "klock \<Rightarrow> ('z kst_scheme \<Rightarrow> sleeplock) \<Rightarrow> (bool, 'z kst_scheme) kop" where
  "holdingsleep lk rd =
     andthen (acquire lk)
     (bnd (fetch rd) (\<lambda>l. andthen (release lk) (ret (sl_locked l))))"

section \<open>Lemmas\<close>

lemma holdingsleep_Ok:
  assumes "lk \<notin> set (k_held s)" and "rd (s\<lparr>k_held := lk # k_held s\<rparr>) = rd s"
  shows "holdingsleep lk rd s = Ok (sl_locked (rd s)) s"
  using assms by (simp add: holdingsleep_def kdefs)

lemma wakeup_Ok:
  assumes "PtableLock \<notin> set (k_held s)"
  shows "wakeup ch s = Ok () (s\<lparr>k_procs := map (wake ch) (k_procs s)\<rparr>)"
  using assms by (simp add: wakeup_eq wakeup1_def kdefs)

text \<open>Every process asleep on the channel before is runnable after.\<close>

definition woken :: "chan \<Rightarrow> 'z kst_scheme \<Rightarrow> 'z kst_scheme \<Rightarrow> bool" where
  "woken ch s t \<longleftrightarrow> length (k_procs t) = length (k_procs s) \<and> (\<forall>i<length (k_procs s).
     p_state (k_procs s ! i) = SLEEPING \<and> p_chan (k_procs s ! i) = ch \<longrightarrow> p_state (k_procs t ! i) = RUNNABLE)"

lemma woken_wake: "woken ch s (s\<lparr>k_procs := map (wake ch) (k_procs s)\<rparr>)"
  by (simp add: woken_def wake_def)

text \<open>What the two lenses must satisfy: the lock field is independent of the shared state.\<close>

locale sleeplock_field =
  fixes rd :: "'z kst_scheme \<Rightarrow> sleeplock"
    and wr :: "sleeplock \<Rightarrow> 'z kst_scheme \<Rightarrow> 'z kst_scheme"
  assumes rd_wr [simp]: "rd (wr l s) = l"
    and wr_wr [simp]: "wr l (wr k s) = wr l s"
    and rd_held [simp]: "rd (s\<lparr>k_held := h\<rparr>) = rd s"
    and wr_held: "(wr l s)\<lparr>k_held := h\<rparr> = wr l (s\<lparr>k_held := h\<rparr>)"
    and held_wr [simp]: "k_held (wr l s) = k_held s"
    and rd_procs [simp]: "rd (s\<lparr>k_procs := ps\<rparr>) = rd s"
    and wr_procs: "(wr l s)\<lparr>k_procs := ps\<rparr> = wr l (s\<lparr>k_procs := ps\<rparr>)"
    and procs_wr [simp]: "k_procs (wr l s) = k_procs s"
    and cur_wr [simp]: "k_cur (wr l s) = k_cur s"
begin

lemma acquiresleep_free:
  assumes "lk \<notin> set (k_held s)" and "\<not> sl_locked (rd s)" and "k_cur s = Some p"
  shows "acquiresleep lk ch rd wr s = Ok () (wr \<lparr>sl_locked = True, sl_pid = p_pid (k_procs s ! p)\<rparr> s)"
  using assms by (simp add: acquiresleep_def proc_get_def kdefs wr_held)

lemma acquiresleep_taken:
  assumes "k_held s = []" and "lk \<noteq> PtableLock" and "sl_locked (rd s)" and "k_cur s = Some p"
    and "p < length (k_procs s)"
  shows "\<exists>t. acquiresleep lk ch rd wr s = Blocked t \<and> k_held t = [PtableLock]
     \<and> p_state (k_procs t ! p) = SLEEPING \<and> p_chan (k_procs t ! p) = ch \<and> rd t = rd s"
  using assms
  by (simp add: acquiresleep_def sleep_eq sched_def swtch_def cur_defs lock_defs kdefs)

lemma releasesleep_Ok:
  assumes "lk \<notin> set (k_held s)" and "PtableLock \<notin> set (k_held s)" and "lk \<noteq> PtableLock"
  shows "releasesleep lk ch wr s
     = Ok () (wr \<lparr>sl_locked = False, sl_pid = 0\<rparr> (s\<lparr>k_procs := map (wake ch) (k_procs s)\<rparr>))"
  using assms by (simp add: releasesleep_def kdefs wakeup_Ok wr_held wr_procs)

lemma release_acquire:
  assumes "lk \<notin> set (k_held s)" and "PtableLock \<notin> set (k_held s)" and "lk \<noteq> PtableLock"
    and "k_cur s = Some p"
  shows "wp (andthen (releasesleep lk ch wr) (acquiresleep lk ch rd wr)) (\<lambda>_ t. sl_locked (rd t)) s"
  using assms by (simp add: wp_def andthen_def bnd_def releasesleep_Ok acquiresleep_free)

end

end
