(* ===== verification/Dlist_Links.thy ===== *)
theory Dlist_Links
  imports Kprelude
begin

text \<open>
  Doubly linked lists given by a successor and a predecessor function, as the buffer cache keeps
  its LRU list: \<open>links nx pv a xs b\<close> says that following \<open>nx\<close> from \<open>a\<close> visits \<open>xs\<close> and then \<open>b\<close>,
  and that \<open>pv\<close> is the inverse of each of these steps.
\<close>

primrec links :: "('a \<Rightarrow> 'a) \<Rightarrow> ('a \<Rightarrow> 'a) \<Rightarrow> 'a \<Rightarrow> 'a list \<Rightarrow> 'a \<Rightarrow> bool" where
  "links nx pv a [] b \<longleftrightarrow> nx a = b \<and> pv b = a"
| "links nx pv a (x # xs) b \<longleftrightarrow> nx a = x \<and> pv x = a \<and> links nx pv x xs b"

lemma links_append:
  "links nx pv a (xs @ y # ys) b \<longleftrightarrow> links nx pv a xs y \<and> links nx pv y ys b"
  by (induction xs arbitrary: a) auto

lemma links_nx_upd:
  "u \<notin> set (a # xs) \<Longrightarrow> links (nx(u := v)) pv a xs b = links nx pv a xs b"
  by (induction xs arbitrary: a) auto

lemma links_pv_upd:
  "u \<notin> set (xs @ [b]) \<Longrightarrow> links nx (pv(u := v)) a xs b = links nx pv a xs b"
  by (induction xs arbitrary: a) auto

lemma links_first: "links nx pv a xs b \<Longrightarrow> nx a = hd (xs @ [b])"
  by (cases xs) auto

lemma links_last: "links nx pv a xs b \<Longrightarrow> pv b = last (a # xs)"
  by (induction xs arbitrary: a) auto

lemma links_rev: "links nx pv a xs b \<longleftrightarrow> links pv nx b (rev xs) a"
proof (induction xs arbitrary: a)
  case Nil
  then show ?case by auto
next
  case (Cons x xs)
  then show ?case by (auto simp: links_append)
qed

text \<open>Unlinking \<open>y\<close>: the two pointer stores of the removal.\<close>

lemma links_unlink:
  assumes "links nx pv a (xs @ y # ys) b"
    and "distinct (a # xs @ y # ys)" and "b \<notin> set (xs @ y # ys)"
  shows "links (nx(pv y := nx y)) (pv(nx y := pv y)) a (xs @ ys) b"
  using assms
proof (induction xs arbitrary: a)
  case Nil
  then have a: "nx a = y" "pv y = a" and l: "links nx pv y ys b" by auto
  show ?case
  proof (cases ys)
    case Nil
    with l a show ?thesis by auto
  next
    case (Cons z zs)
    have "links (nx(a := z)) (pv(z := a)) z zs b"
      using l Cons Nil.prems by (auto simp: links_nx_upd links_pv_upd)
    moreover have "nx y = z" using l Cons by simp
    ultimately show ?thesis
      unfolding Cons append_Nil links.simps a(2) by (simp only: fun_upd_same simp_thms)
  qed
next
  case (Cons x xs)
  have l: "links nx pv x (xs @ y # ys) b" using Cons.prems by simp
  have pvy: "pv y \<in> set (x # xs)"
    using l links_last [of nx pv x xs y] by (simp add: links_append)
  have nxy: "nx y \<in> set (ys @ [b])"
    using l by (cases ys) (auto simp: links_append)
  have "links (nx(pv y := nx y)) (pv(nx y := pv y)) x (xs @ ys) b"
    by (rule Cons.IH) (use l Cons.prems in auto)
  moreover have "pv y \<noteq> a" using pvy Cons.prems by auto
  moreover have "nx y \<noteq> x" using nxy Cons.prems by auto
  ultimately show ?case using Cons.prems by (simp add: fun_upd_def)
qed

text \<open>Linking \<open>y\<close> in right after \<open>a\<close>: the four pointer stores of the insertion.\<close>

lemma links_insert:
  assumes "links nx pv a xs b" and "y \<notin> set (a # xs @ [b])" and "a \<notin> set xs"
    and "distinct (xs @ [b])"
  shows "links (nx(y := nx a, a := y)) (pv(y := a, nx a := y)) a (y # xs) b"
proof (cases xs)
  case Nil
  with assms show ?thesis by auto
next
  case (Cons x xs')
  with assms have a: "nx a = x" "pv x = a" and l: "links nx pv x xs' b" by auto
  have "links (nx(y := x, a := y)) (pv(y := a, x := y)) x xs' b"
    using l assms Cons by (simp add: links_nx_upd links_pv_upd)
  moreover have "y \<noteq> x" "y \<noteq> a" using assms(2) Cons by auto
  ultimately show ?thesis
    unfolding Cons links.simps a(1) by (auto simp only: fun_upd_same fun_upd_other simp_thms)
qed

end
