(* ===== verification/Bio.thy ===== *)
theory Bio
  imports Sleeplock Dlist_Links
begin

text \<open>
  The buffer cache of \<^verbatim>\<open>bio.c\<close> on the memory disk driver of \<^verbatim>\<open>memide.c\<close>.  Buffer pointers are
  the indices \<open>0 ..< NBUF\<close>; index \<open>NBUF\<close> is the list head \<^verbatim>\<open>bcache.head\<close>.  The list is kept
  through \<^verbatim>\<open>prev\<close> and \<^verbatim>\<open>next\<close> as in the source.  A block is a function from byte offsets below
  \<^verbatim>\<open>BSIZE\<close>.  \<open>d_writes\<close> records the block writes the disk has accepted, oldest first: it is not
  read by any routine and serves to talk about a crash between two writes.

  The list walks are bounded by the number of buffers: on a well-formed list (\<open>bcache_list\<close>)
  every walk reaches the head within that many steps, which \<open>list_scan_find\<close> states.
\<close>

section \<open>Definitions\<close>

type_synonym block = "nat \<Rightarrow> u8"

definition BSIZE :: nat where "BSIZE = 512"
definition B_VALID :: u32 where "B_VALID = 2"
definition B_DIRTY :: u32 where "B_DIRTY = 4"

record buf =
  b_flags :: u32
  b_dev :: u32
  b_blockno :: u32
  b_lock :: sleeplock
  b_refcnt :: u32
  b_prev :: nat
  b_next :: nat
  b_data :: block

record bst = kst +
  b_buf :: "nat \<Rightarrow> buf"
  d_disk :: "u32 \<Rightarrow> block"
  d_size :: u32
  d_writes :: "(u32 \<times> block) list"

definition bhead :: nat where "bhead = NBUF"

definition buf_get :: "nat \<Rightarrow> (buf \<Rightarrow> 'a) \<Rightarrow> ('a, 'z bst_scheme) kop" where
  "buf_get i f = fetch (\<lambda>s. f (b_buf s i))"

definition buf_upd :: "nat \<Rightarrow> (buf \<Rightarrow> buf) \<Rightarrow> (unit, 'z bst_scheme) kop" where
  "buf_upd i f = modify (\<lambda>s. s\<lparr>b_buf := (b_buf s)(i := f (b_buf s i))\<rparr>)"

definition buf_lock_wr :: "nat \<Rightarrow> sleeplock \<Rightarrow> 'z bst_scheme \<Rightarrow> 'z bst_scheme" where
  "buf_lock_wr i l s = s\<lparr>b_buf := (b_buf s)(i := (b_buf s i)\<lparr>b_lock := l\<rparr>)\<rparr>"

definition buf_lock_rd :: "nat \<Rightarrow> 'z bst_scheme \<Rightarrow> sleeplock" where
  "buf_lock_rd i s = b_lock (b_buf s i)"

subsection \<open>memide.c\<close>

definition iderw :: "nat \<Rightarrow> (unit, 'z bst_scheme) kop" where
  "iderw b =
     bnd (holdingsleep (BufLk b) (buf_lock_rd b)) (\<lambda>h. if \<not> h then panic ''iderw: buf not locked'' else
     bnd (buf_get b b_flags) (\<lambda>fl.
       if fl AND (B_VALID OR B_DIRTY) = B_VALID then panic ''iderw: nothing to do'' else
     bnd (buf_get b b_dev) (\<lambda>dev. if dev \<noteq> 1 then panic ''iderw: request not for disk 1'' else
     bnd (buf_get b b_blockno) (\<lambda>bno. bnd (fetch d_size) (\<lambda>sz.
       if sz \<le> bno then panic ''iderw: block out of range'' else
     andthen
      (if fl AND B_DIRTY \<noteq> 0 then
         andthen (buf_upd b (\<lambda>p. p\<lparr>b_flags := b_flags p AND NOT B_DIRTY\<rparr>))
         (modify (\<lambda>s. s\<lparr>d_disk := (d_disk s)(bno := b_data (b_buf s b)),
                        d_writes := d_writes s @ [(bno, b_data (b_buf s b))]\<rparr>))
       else modify (\<lambda>s. s\<lparr>b_buf := (b_buf s)(b := (b_buf s b)\<lparr>b_data := d_disk s bno\<rparr>)\<rparr>))
      (buf_upd b (\<lambda>p. p\<lparr>b_flags := b_flags p OR B_VALID\<rparr>)))))))"

subsection \<open>bio.c\<close>

text \<open>One turn of the loop of \<^verbatim>\<open>binit\<close>: link buffer \<open>b\<close> in right after the head.\<close>

definition link_front :: "nat \<Rightarrow> (unit, 'z bst_scheme) kop" where
  "link_front b =
     bnd (buf_get bhead b_next) (\<lambda>h. andthen (buf_upd b (\<lambda>p. p\<lparr>b_next := h\<rparr>))
     (andthen (buf_upd b (\<lambda>p. p\<lparr>b_prev := bhead\<rparr>))
     (bnd (buf_get bhead b_next) (\<lambda>h. andthen (buf_upd h (\<lambda>p. p\<lparr>b_prev := b\<rparr>))
     (buf_upd bhead (\<lambda>p. p\<lparr>b_next := b\<rparr>))))))"

definition binit :: "(unit, 'z bst_scheme) kop" where
  "binit =
     andthen (buf_upd bhead (\<lambda>p. p\<lparr>b_prev := bhead\<rparr>))
     (andthen (buf_upd bhead (\<lambda>p. p\<lparr>b_next := bhead\<rparr>))
     (for_each [0..<NBUF] (\<lambda>b. andthen (modify (buf_lock_wr b initsleeplock)) (link_front b))))"

fun list_scan :: "nat \<Rightarrow> (nat \<Rightarrow> nat) \<Rightarrow> (nat \<Rightarrow> bool) \<Rightarrow> nat \<Rightarrow> nat option" where
  "list_scan 0 link P b = None"
| "list_scan (Suc n) link P b =
     (if b = bhead then None else if P b then Some b else list_scan n link P (link b))"

definition cached_at :: "'z bst_scheme \<Rightarrow> u32 \<Rightarrow> u32 \<Rightarrow> nat option" where
  "cached_at s dev blockno =
     list_scan (Suc NBUF) (\<lambda>b. b_next (b_buf s b))
       (\<lambda>b. b_dev (b_buf s b) = dev \<and> b_blockno (b_buf s b) = blockno) (b_next (b_buf s bhead))"

definition unused_at :: "'z bst_scheme \<Rightarrow> nat option" where
  "unused_at s =
     list_scan (Suc NBUF) (\<lambda>b. b_prev (b_buf s b))
       (\<lambda>b. b_refcnt (b_buf s b) = 0 \<and> b_flags (b_buf s b) AND B_DIRTY = 0) (b_prev (b_buf s bhead))"

definition buf_acquiresleep :: "nat \<Rightarrow> (unit, 'z bst_scheme) kop" where
  "buf_acquiresleep b = acquiresleep (BufLk b) (ChBufLock b) (buf_lock_rd b) (buf_lock_wr b)"

definition buf_releasesleep :: "nat \<Rightarrow> (unit, 'z bst_scheme) kop" where
  "buf_releasesleep b = releasesleep (BufLk b) (ChBufLock b) (buf_lock_wr b)"

definition bget :: "u32 \<Rightarrow> u32 \<Rightarrow> (nat, 'z bst_scheme) kop" where
  "bget dev blockno =
     andthen (acquire BcacheLock)
     (bnd (fetch (\<lambda>s. cached_at s dev blockno)) (\<lambda>r. case r of
        Some b \<Rightarrow>
          andthen (buf_upd b (\<lambda>p. p\<lparr>b_refcnt := b_refcnt p + 1\<rparr>))
          (andthen (release BcacheLock) (andthen (buf_acquiresleep b) (ret b)))
      | None \<Rightarrow>
          bnd (fetch unused_at) (\<lambda>q. case q of
            Some b \<Rightarrow>
              andthen (buf_upd b (\<lambda>p. p\<lparr>b_dev := dev, b_blockno := blockno, b_flags := 0, b_refcnt := 1\<rparr>))
              (andthen (release BcacheLock) (andthen (buf_acquiresleep b) (ret b)))
          | None \<Rightarrow> panic ''bget: no buffers'')))"

definition bread :: "u32 \<Rightarrow> u32 \<Rightarrow> (nat, 'z bst_scheme) kop" where
  "bread dev blockno =
     bnd (bget dev blockno) (\<lambda>b. bnd (buf_get b b_flags) (\<lambda>fl.
     andthen (whenk (fl AND B_VALID = 0) (iderw b)) (ret b)))"

definition bwrite :: "nat \<Rightarrow> (unit, 'z bst_scheme) kop" where
  "bwrite b =
     bnd (holdingsleep (BufLk b) (buf_lock_rd b)) (\<lambda>h. if \<not> h then panic ''bwrite'' else
     andthen (buf_upd b (\<lambda>p. p\<lparr>b_flags := b_flags p OR B_DIRTY\<rparr>)) (iderw b))"

text \<open>The pointer surgery at the end of \<^verbatim>\<open>brelse\<close>: unlink \<open>b\<close>, link it in after the head.\<close>

definition unlink_buf :: "nat \<Rightarrow> (unit, 'z bst_scheme) kop" where
  "unlink_buf b =
     bnd (buf_get b b_next) (\<lambda>nx. bnd (buf_get b b_prev) (\<lambda>pv.
     andthen (buf_upd nx (\<lambda>p. p\<lparr>b_prev := pv\<rparr>))
     (bnd (buf_get b b_prev) (\<lambda>pv. bnd (buf_get b b_next) (\<lambda>nx.
     buf_upd pv (\<lambda>p. p\<lparr>b_next := nx\<rparr>))))))"

definition brelse :: "nat \<Rightarrow> (unit, 'z bst_scheme) kop" where
  "brelse b =
     bnd (holdingsleep (BufLk b) (buf_lock_rd b)) (\<lambda>h. if \<not> h then panic ''brelse'' else
     andthen (buf_releasesleep b)
     (andthen (acquire BcacheLock)
     (andthen (buf_upd b (\<lambda>p. p\<lparr>b_refcnt := b_refcnt p - 1\<rparr>))
     (bnd (buf_get b b_refcnt) (\<lambda>r.
     andthen (whenk (r = 0) (andthen (unlink_buf b) (link_front b)))
     (release BcacheLock))))))"

text \<open>The buffer cache and the disk before \<^verbatim>\<open>binit\<close>: static storage is zeroed.\<close>

definition buf0 :: buf where
  "buf0 = \<lparr>b_flags = 0, b_dev = 0, b_blockno = 0, b_lock = initsleeplock, b_refcnt = 0,
     b_prev = 0, b_next = 0, b_data = (\<lambda>_. 0)\<rparr>"

definition bst0 :: "(u32 \<Rightarrow> block) \<Rightarrow> u32 \<Rightarrow> bst" where
  "bst0 disk sz = kst.extend (kst0\<lparr>k_cur := Some 0\<rparr>)
     \<lparr>b_buf = (\<lambda>_. buf0), d_disk = disk, d_size = sz, d_writes = []\<rparr>"

section \<open>Lemmas\<close>

interpretation buf_lock: sleeplock_field "buf_lock_rd i" "buf_lock_wr i" for i
  by unfold_locales (simp_all add: buf_lock_rd_def buf_lock_wr_def)

subsection \<open>Flags\<close>

lemma flag_exps: "B_VALID = 2 ^ 1" "B_DIRTY = 2 ^ 2"
  by (simp_all add: B_VALID_def B_DIRTY_def)

lemma bit_flags [simp]: "bit B_VALID n \<longleftrightarrow> n = 1" "bit B_DIRTY n \<longleftrightarrow> n = 2"
  by (simp_all only: flag_exps bit_exp_iff) auto

lemma flags_valid: "x AND B_VALID = 0 \<longleftrightarrow> \<not> bit x 1"
  unfolding flag_exps by (rule and_exp_eq_0_iff_not_bit)

lemma flags_dirty: "x AND B_DIRTY = 0 \<longleftrightarrow> \<not> bit x 2"
  unfolding flag_exps by (rule and_exp_eq_0_iff_not_bit)

lemma flags_clean: "x AND (B_VALID OR B_DIRTY) = B_VALID \<longleftrightarrow> bit x 1 \<and> \<not> bit x 2"
proof
  assume e: "x AND (B_VALID OR B_DIRTY) = B_VALID"
  have "bit (x AND (B_VALID OR B_DIRTY)) 1" "\<not> bit (x AND (B_VALID OR B_DIRTY)) 2"
    by (simp_all add: e)
  then show "bit x 1 \<and> \<not> bit x 2" by (auto simp: bit_and_iff bit_or_iff)
next
  assume "bit x 1 \<and> \<not> bit x 2"
  then show "x AND (B_VALID OR B_DIRTY) = B_VALID"
    by (intro bit_word_eqI) (auto simp: bit_and_iff bit_or_iff)
qed

lemma bit_flag_ops [simp]:
  "bit (x OR B_VALID) (Suc 0)" "bit (x OR B_VALID) 2 = bit x 2"
  "bit (x OR B_DIRTY) 2" "bit (x OR B_DIRTY) (Suc 0) = bit x (Suc 0)"
  "\<not> bit (x AND NOT B_DIRTY) 2" "bit (x AND NOT B_DIRTY) (Suc 0) = bit x (Suc 0)"
  by (auto simp: bit_and_iff bit_or_iff bit_not_iff dest: bit_imp_le_length)

abbreviation b_valid :: "buf \<Rightarrow> bool" where "b_valid b \<equiv> bit (b_flags b) 1"
abbreviation b_dirty :: "buf \<Rightarrow> bool" where "b_dirty b \<equiv> bit (b_flags b) 2"

subsection \<open>The buffer list\<close>

definition bcache_list :: "'z bst_scheme \<Rightarrow> nat list \<Rightarrow> bool" where
  "bcache_list s xs \<longleftrightarrow>
     links (\<lambda>b. b_next (b_buf s b)) (\<lambda>b. b_prev (b_buf s b)) bhead xs bhead
     \<and> distinct xs \<and> set xs = {0..<NBUF}"

lemma bhead_notin [simp]: "\<not> bhead < NBUF" "i < NBUF \<Longrightarrow> i \<noteq> bhead" "i < NBUF \<Longrightarrow> bhead \<noteq> i"
  by (auto simp: bhead_def)

lemma bcache_list_length: "bcache_list s xs \<Longrightarrow> length xs = NBUF"
  unfolding bcache_list_def using distinct_card [of xs] by simp

lemma list_scan_find:
  "links nx pv a xs bhead \<Longrightarrow> bhead \<notin> set xs \<Longrightarrow> length xs < n \<Longrightarrow> list_scan n nx P (nx a) = List.find P xs"
proof (induction xs arbitrary: a n)
  case Nil
  then show ?case by (cases n) auto
next
  case (Cons x xs)
  then obtain k where "n = Suc k" by (cases n) auto
  with Cons show ?case by auto
qed

lemma cached_at_find:
  assumes "bcache_list s xs"
  shows "cached_at s dev bn = List.find (\<lambda>b. b_dev (b_buf s b) = dev \<and> b_blockno (b_buf s b) = bn) xs"
  unfolding cached_at_def
  by (rule list_scan_find) (use assms bcache_list_length [OF assms] in \<open>auto simp: bcache_list_def\<close>)

lemma unused_at_find:
  assumes "bcache_list s xs"
  shows "unused_at s = List.find (\<lambda>b. b_refcnt (b_buf s b) = 0 \<and> b_flags (b_buf s b) AND B_DIRTY = 0) (rev xs)"
  unfolding unused_at_def
  by (rule list_scan_find)
    (use assms bcache_list_length [OF assms] in \<open>auto simp: bcache_list_def links_rev [symmetric]\<close>)

lemma find_None_iff_set: "List.find P xs = None \<longleftrightarrow> (\<forall>x\<in>set xs. \<not> P x)"
  by (auto simp: find_None_iff)

lemma find_ex: "\<exists>x\<in>set xs. P x \<Longrightarrow> \<exists>y\<in>set xs. List.find P xs = Some y \<and> P y"
  by (induction xs) auto

lemma find_Some_set: "List.find P xs = Some x \<Longrightarrow> x \<in> set xs \<and> P x"
  by (auto simp: find_Some_iff)

subsection \<open>Cache invariant and logical contents\<close>

definition has_block :: "buf \<Rightarrow> u32 \<Rightarrow> bool" where
  "has_block b bn \<longleftrightarrow> b_dev b = 1 \<and> b_blockno b = bn"

text \<open>What a reader of block \<open>bn\<close> gets: the valid cached copy if there is one, else the disk.\<close>

definition slot :: "'z bst_scheme \<Rightarrow> u32 \<Rightarrow> nat option" where
  "slot s bn = List.find (\<lambda>i. has_block (b_buf s i) bn) [0..<NBUF]"

definition bview :: "'z bst_scheme \<Rightarrow> u32 \<Rightarrow> block" where
  "bview s bn = (case slot s bn of
     Some i \<Rightarrow> if b_valid (b_buf s i) then b_data (b_buf s i) else d_disk s bn
   | None \<Rightarrow> d_disk s bn)"

text \<open>
  A buffer is consistent: dirty implies valid; valid implies a block of disk 1; an unused buffer
  is unlocked and, when valid and clean, equal to the disk.
\<close>

definition buf_ok :: "(u32 \<Rightarrow> block) \<Rightarrow> u32 \<Rightarrow> buf \<Rightarrow> bool" where
  "buf_ok disk sz b \<longleftrightarrow>
     (b_dirty b \<longrightarrow> b_valid b) \<and> (b_valid b \<longrightarrow> b_dev b = 1 \<and> b_blockno b < sz)
   \<and> (b_refcnt b = 0 \<longrightarrow> \<not> sl_locked (b_lock b)
        \<and> (b_valid b \<and> \<not> b_dirty b \<longrightarrow> b_data b = disk (b_blockno b)))"

definition binv :: "'z bst_scheme \<Rightarrow> bool" where
  "binv s \<longleftrightarrow> (\<exists>xs. bcache_list s xs)
   \<and> (\<forall>i<NBUF. buf_ok (d_disk s) (d_size s) (b_buf s i))
   \<and> (\<forall>i<NBUF. \<forall>j<NBUF. \<forall>bn. has_block (b_buf s i) bn \<and> has_block (b_buf s j) bn \<longrightarrow> i = j)"

lemma binvD:
  assumes "binv s"
  shows "\<exists>xs. bcache_list s xs"
    and "i < NBUF \<Longrightarrow> buf_ok (d_disk s) (d_size s) (b_buf s i)"
    and "i < NBUF \<Longrightarrow> j < NBUF \<Longrightarrow> has_block (b_buf s i) bn \<Longrightarrow> has_block (b_buf s j) bn \<Longrightarrow> i = j"
  using assms unfolding binv_def by blast+

lemma slot_None: "slot s bn = None \<longleftrightarrow> (\<forall>i<NBUF. \<not> has_block (b_buf s i) bn)"
  by (auto simp: slot_def find_None_iff_set)

lemma slot_SomeD: "slot s bn = Some i \<Longrightarrow> i < NBUF \<and> has_block (b_buf s i) bn"
  by (auto simp: slot_def dest: find_Some_set)

lemma slot_eq:
  assumes "binv s"
  shows "slot s bn = Some i \<longleftrightarrow> i < NBUF \<and> has_block (b_buf s i) bn"
proof
  assume i: "i < NBUF \<and> has_block (b_buf s i) bn"
  then obtain j where j: "slot s bn = Some j" using slot_None by (cases "slot s bn") blast+
  then show "slot s bn = Some i" using i slot_SomeD [OF j] binvD(3) [OF assms] by blast
qed (rule slot_SomeD)

lemma cached_at_slot:
  assumes "binv s"
  shows "cached_at s 1 bn = slot s bn"
proof -
  obtain xs where xs: "bcache_list s xs" using binvD(1) [OF assms] ..
  then have set: "set xs = {0..<NBUF}" by (simp add: bcache_list_def)
  have c: "cached_at s 1 bn = List.find (\<lambda>i. has_block (b_buf s i) bn) xs"
    by (simp add: cached_at_find [OF xs] has_block_def)
  show ?thesis
  proof (cases "slot s bn")
    case None
    then have "\<forall>i<NBUF. \<not> has_block (b_buf s i) bn" by (simp add: slot_None)
    then show ?thesis unfolding c None find_None_iff_set using set by auto
  next
    case (Some i)
    then have "\<exists>i\<in>set xs. has_block (b_buf s i) bn" using set slot_SomeD by fastforce
    then obtain j where j: "List.find (\<lambda>i. has_block (b_buf s i) bn) xs = Some j"
      by (metis find_None_iff_set not_None_eq)
    then have "slot s bn = Some j" using set find_Some_set [OF j] slot_eq [OF assms] by auto
    with j c show ?thesis by simp
  qed
qed

lemma bviewE:
  assumes "binv s"
  shows "i < NBUF \<Longrightarrow> has_block (b_buf s i) bn \<Longrightarrow> b_valid (b_buf s i) \<Longrightarrow> bview s bn = b_data (b_buf s i)"
    and "(\<And>i. i < NBUF \<Longrightarrow> has_block (b_buf s i) bn \<Longrightarrow> \<not> b_valid (b_buf s i)) \<Longrightarrow> bview s bn = d_disk s bn"
proof -
  assume "i < NBUF" "has_block (b_buf s i) bn" "b_valid (b_buf s i)"
  then show "bview s bn = b_data (b_buf s i)" using slot_eq [OF assms, of bn i] by (simp add: bview_def)
next
  assume "\<And>i. i < NBUF \<Longrightarrow> has_block (b_buf s i) bn \<Longrightarrow> \<not> b_valid (b_buf s i)"
  then show "bview s bn = d_disk s bn"
    by (cases "slot s bn") (auto simp: bview_def dest: slot_SomeD)
qed

subsection \<open>bread\<close>

abbreviation lock_by :: "'z bst_scheme \<Rightarrow> nat \<Rightarrow> sleeplock" where
  "lock_by s p \<equiv> \<lparr>sl_locked = True, sl_pid = p_pid (k_procs s ! p)\<rparr>"

lemma buf_acquiresleep_free:
  assumes "k_held s = []" and "\<not> sl_locked (b_lock (b_buf s i))" and "k_cur s = Some p"
  shows "buf_acquiresleep i s = Ok () (buf_lock_wr i (lock_by s p) s)"
  unfolding buf_acquiresleep_def
  by (rule buf_lock.acquiresleep_free) (use assms in \<open>simp_all add: buf_lock_rd_def\<close>)

lemma bget_hit:
  assumes "binv s" "k_held s = []" "k_cur s = Some p" "slot s bn = Some i"
    "\<not> sl_locked (b_lock (b_buf s i))"
  shows "bget 1 bn s = Ok i (s\<lparr>b_buf := (b_buf s)(i := (b_buf s i)
           \<lparr>b_refcnt := b_refcnt (b_buf s i) + 1, b_lock := lock_by s p\<rparr>)\<rparr>)"
proof -
  have "cached_at (s\<lparr>k_held := [BcacheLock]\<rparr>) 1 bn = Some i"
    using assms cached_at_slot [OF assms(1)] by (simp add: cached_at_def)
  then show ?thesis
    using assms by (simp add: bget_def kdefs buf_upd_def buf_acquiresleep_free buf_lock_wr_def)
qed

lemma bget_miss:
  assumes "binv s" "k_held s = []" "k_cur s = Some p" "slot s bn = None" "unused_at s = Some i"
    "\<not> sl_locked (b_lock (b_buf s i))"
  shows "bget 1 bn s = Ok i (s\<lparr>b_buf := (b_buf s)(i := (b_buf s i)
           \<lparr>b_dev := 1, b_blockno := bn, b_flags := 0, b_refcnt := 1, b_lock := lock_by s p\<rparr>)\<rparr>)"
proof -
  have "cached_at (s\<lparr>k_held := [BcacheLock]\<rparr>) 1 bn = None"
    using assms cached_at_slot [OF assms(1)] by (simp add: cached_at_def)
  moreover have "unused_at (s\<lparr>k_held := [BcacheLock]\<rparr>) = Some i"
    using assms by (simp add: unused_at_def)
  ultimately show ?thesis
    using assms by (simp add: bget_def kdefs buf_upd_def buf_acquiresleep_free buf_lock_wr_def)
qed

lemma iderw_read:
  assumes "k_held s = []" "sl_locked (b_lock (b_buf s i))" "\<not> b_valid (b_buf s i)"
    "\<not> b_dirty (b_buf s i)" "has_block (b_buf s i) bn" "bn < d_size s"
  shows "iderw i s = Ok () (s\<lparr>b_buf := (b_buf s)(i := (b_buf s i)
           \<lparr>b_data := d_disk s bn, b_flags := b_flags (b_buf s i) OR B_VALID\<rparr>)\<rparr>)"
  using assms
  by (simp add: iderw_def kdefs holdingsleep_Ok buf_get_def buf_upd_def buf_lock_rd_def has_block_def
      flags_clean flags_dirty)

lemma iderw_write:
  assumes "k_held s = []" "sl_locked (b_lock (b_buf s i))" "b_dirty (b_buf s i)"
    "has_block (b_buf s i) bn" "bn < d_size s"
  shows "iderw i s = Ok () (s\<lparr>b_buf := (b_buf s)(i := (b_buf s i)
           \<lparr>b_flags := (b_flags (b_buf s i) AND NOT B_DIRTY) OR B_VALID\<rparr>),
           d_disk := (d_disk s)(bn := b_data (b_buf s i)),
           d_writes := d_writes s @ [(bn, b_data (b_buf s i))]\<rparr>)"
  using assms
  by (simp add: iderw_def kdefs holdingsleep_Ok buf_get_def buf_upd_def buf_lock_rd_def has_block_def
      flags_clean flags_dirty)

text \<open>A buffer that can be recycled exists.\<close>

definition has_free :: "'z bst_scheme \<Rightarrow> bool" where
  "has_free s \<longleftrightarrow> (\<exists>i<NBUF. b_refcnt (b_buf s i) = 0 \<and> \<not> b_dirty (b_buf s i))"

lemma unused_at_Some:
  assumes "binv s" "has_free s"
  shows "\<exists>i<NBUF. unused_at s = Some i \<and> b_refcnt (b_buf s i) = 0 \<and> \<not> b_dirty (b_buf s i)"
proof -
  obtain xs where xs: "bcache_list s xs" using binvD(1) [OF assms(1)] ..
  then have set: "set (rev xs) = {0..<NBUF}" by (simp add: bcache_list_def)
  let ?P = "\<lambda>b. b_refcnt (b_buf s b) = 0 \<and> b_flags (b_buf s b) AND B_DIRTY = 0"
  have "\<exists>b\<in>set (rev xs). ?P b" using assms(2) unfolding set has_free_def by (auto simp: flags_dirty)
  from find_ex [OF this] set unused_at_find [OF xs] show ?thesis by (auto simp: flags_dirty)
qed

text \<open>
  The contract of \<^verbatim>\<open>bread\<close>: only the returned buffer changes; it is locked, in use, valid and holds
  the logical contents of the block.
\<close>

definition bread_post :: "'z bst_scheme \<Rightarrow> u32 \<Rightarrow> nat \<Rightarrow> 'z bst_scheme \<Rightarrow> bool" where
  "bread_post s bn i t \<longleftrightarrow> i < NBUF \<and> t = s\<lparr>b_buf := (b_buf s)(i := b_buf t i)\<rparr>
     \<and> b_refcnt (b_buf s i) = 0 \<and> (slot s bn \<noteq> None \<longrightarrow> slot s bn = Some i)
     \<and> (slot s bn = None \<longrightarrow> \<not> b_dirty (b_buf s i))
     \<and> has_block (b_buf t i) bn \<and> b_valid (b_buf t i)
     \<and> (b_dirty (b_buf t i) \<longleftrightarrow> slot s bn = Some i \<and> b_dirty (b_buf s i))
     \<and> b_data (b_buf t i) = bview s bn \<and> b_refcnt (b_buf t i) = 1 \<and> sl_locked (b_lock (b_buf t i))
     \<and> b_next (b_buf t i) = b_next (b_buf s i) \<and> b_prev (b_buf t i) = b_prev (b_buf s i)"

lemma bread_Ok:
  assumes inv: "binv s" and st: "k_held s = []" "k_cur s = Some p" and bn: "bn < d_size s"
    and idle: "\<And>i. i < NBUF \<Longrightarrow> has_block (b_buf s i) bn \<Longrightarrow> b_refcnt (b_buf s i) = 0"
    and free: "slot s bn = None \<Longrightarrow> has_free s"
  shows "\<exists>i t. bread 1 bn s = Ok i t \<and> bread_post s bn i t"
proof (cases "slot s bn")
  case None
  with free unused_at_Some [OF inv] obtain i where i: "i < NBUF" "unused_at s = Some i"
    "b_refcnt (b_buf s i) = 0" "\<not> b_dirty (b_buf s i)" by blast
  have "\<not> sl_locked (b_lock (b_buf s i))" using binvD(2) [OF inv i(1)] i by (simp add: buf_ok_def)
  note get = bget_miss [OF inv st None i(2) this]
  have "bview s bn = d_disk s bn" using None by (simp add: bview_def)
  then show ?thesis
    using None i st bn
    by (simp add: bread_def bnd_def get buf_get_def fetch_def flags_valid andthen_def whenk_def
        iderw_read [where bn = bn] has_block_def ret_def bread_post_def)
next
  case (Some i)
  then have i: "i < NBUF" "has_block (b_buf s i) bn" using slot_SomeD by auto
  have r: "b_refcnt (b_buf s i) = 0" using idle i by blast
  have ok: "buf_ok (d_disk s) (d_size s) (b_buf s i)" using binvD(2) [OF inv i(1)] .
  then have "\<not> sl_locked (b_lock (b_buf s i))" using r by (simp add: buf_ok_def)
  note get = bget_hit [OF inv st Some this]
  have v: "bview s bn = (if b_valid (b_buf s i) then b_data (b_buf s i) else d_disk s bn)"
    using Some by (simp add: bview_def)
  have d: "\<not> b_valid (b_buf s i) \<Longrightarrow> \<not> b_dirty (b_buf s i)" using ok by (auto simp: buf_ok_def)
  show ?thesis
    using Some i r st bn v d
    by (simp add: bread_def bnd_def get buf_get_def fetch_def flags_valid andthen_def whenk_def
        iderw_read [where bn = bn] has_block_def ret_def bread_post_def)
qed

lemma bread_post_frame:
  assumes "bread_post s bn i t" "j \<noteq> i"
  shows "b_buf t j = b_buf s j"
proof -
  have "t = s\<lparr>b_buf := (b_buf s)(i := b_buf t i)\<rparr>" using assms(1) by (simp add: bread_post_def)
  then have "b_buf t = (b_buf s)(i := b_buf t i)" by (metis bst.select_convs(1) bst.surjective bst.update_convs(1))
  then show ?thesis using assms(2) by (metis fun_upd_other)
qed

lemma bread_post_rest:
  assumes "bread_post s bn i t"
  shows "d_disk t = d_disk s" "d_size t = d_size s" "d_writes t = d_writes s"
    "k_held t = k_held s" "k_cur t = k_cur s" "k_procs t = k_procs s"
proof -
  have t: "t = s\<lparr>b_buf := (b_buf s)(i := b_buf t i)\<rparr>" using assms by (simp add: bread_post_def)
  show "d_disk t = d_disk s" by (subst t) simp
  show "d_size t = d_size s" by (subst t) simp
  show "d_writes t = d_writes s" by (subst t) simp
  show "k_held t = k_held s" by (subst t) simp
  show "k_cur t = k_cur s" by (subst t) simp
  show "k_procs t = k_procs s" by (subst t) simp
qed

lemma bread_post_only: "bread_post s bn i t \<Longrightarrow> t = s\<lparr>b_buf := b_buf t\<rparr>"
  unfolding bread_post_def by (metis bst.select_convs(1) bst.surjective bst.update_convs(1))

lemma bread_postD:
  assumes "bread_post s bn i t"
  shows "i < NBUF \<and> b_refcnt (b_buf s i) = 0 \<and> (slot s bn \<noteq> None \<longrightarrow> slot s bn = Some i)
     \<and> (slot s bn = None \<longrightarrow> \<not> b_dirty (b_buf s i))
     \<and> has_block (b_buf t i) bn \<and> b_valid (b_buf t i)
     \<and> (b_dirty (b_buf t i) \<longleftrightarrow> slot s bn = Some i \<and> b_dirty (b_buf s i))
     \<and> b_data (b_buf t i) = bview s bn \<and> b_refcnt (b_buf t i) = 1 \<and> sl_locked (b_lock (b_buf t i))"
  using assms unfolding bread_post_def by blast

lemma bread_post_links:
  assumes "bread_post s bn i t"
  shows "(\<lambda>b. b_next (b_buf t b)) = (\<lambda>b. b_next (b_buf s b))"
    and "(\<lambda>b. b_prev (b_buf t b)) = (\<lambda>b. b_prev (b_buf s b))"
proof -
  have "b_next (b_buf t b) = b_next (b_buf s b) \<and> b_prev (b_buf t b) = b_prev (b_buf s b)" for b
    using assms bread_post_frame [OF assms, of b] by (cases "b = i") (auto simp: bread_post_def)
  then show "(\<lambda>b. b_next (b_buf t b)) = (\<lambda>b. b_next (b_buf s b))"
    and "(\<lambda>b. b_prev (b_buf t b)) = (\<lambda>b. b_prev (b_buf s b))" by auto
qed

lemma has_block_fun: "has_block b m \<Longrightarrow> has_block b n \<Longrightarrow> m = n"
  by (simp add: has_block_def)

lemma bread_binv:
  assumes inv: "binv s" and post: "bread_post s bn i t" and bn: "bn < d_size s"
  shows "binv t"
proof -
  note P = bread_postD [OF post]
  have un: "j = i" if "j < NBUF" "has_block (b_buf s j) bn" for j
    using that P slot_eq [OF inv, of bn j] by fastforce
  have "buf_ok (d_disk t) (d_size t) (b_buf t j)" if "j < NBUF" for j
  proof (cases "j = i")
    case True
    have "b_blockno (b_buf t i) = bn" "b_dev (b_buf t i) = 1" "b_valid (b_buf t i)"
      "b_refcnt (b_buf t i) = 1" using P by (auto simp: has_block_def)
    with True bn bread_post_rest(2) [OF post] show ?thesis by (simp add: buf_ok_def)
  next
    case False
    then show ?thesis
      using binvD(2) [OF inv that] by (simp add: bread_post_frame [OF post] bread_post_rest [OF post])
  qed
  moreover have "j = k"
    if jk: "j < NBUF" "k < NBUF" "has_block (b_buf t j) m" "has_block (b_buf t k) m" for j k m
  proof -
    have i: "n = bn" if "has_block (b_buf t i) n" for n
      using P that by (auto simp: has_block_def)
    have *: "b = i" if "b < NBUF" "has_block (b_buf t b) m" "m = bn" for b
    proof (rule ccontr)
      assume b: "b \<noteq> i"
      then have "has_block (b_buf s b) bn" using that(2,3) bread_post_frame [OF post b] by simp
      with un [OF that(1)] b show False by blast
    qed
    show ?thesis
    proof (cases "j = i \<or> k = i")
      case True
      then have "m = bn" using jk i by blast
      then show ?thesis using * [of j] * [of k] jk by simp
    next
      case False
      then show ?thesis
        using jk binvD(3) [OF inv, of j k m] bread_post_frame [OF post] by simp
    qed
  qed
  ultimately show ?thesis
    using binvD(1) [OF inv] by (auto simp: binv_def bcache_list_def bread_post_links [OF post])
qed

lemma bread_bview:
  assumes inv: "binv s" and post: "bread_post s bn i t" and bn: "bn < d_size s"
  shows "bview t = bview s"
proof
  fix m
  note P = bread_postD [OF post]
  note invt = bread_binv [OF assms]
  show "bview t m = bview s m"
  proof (cases "m = bn")
    case True
    then show ?thesis using bviewE(1) [OF invt, of i bn] P by simp
  next
    case False
    then have i: "\<not> has_block (b_buf t i) m" using P has_block_fun by blast
    show ?thesis
    proof (cases "has_block (b_buf s i) m")
      case True
      then have "\<not> has_block (b_buf s i) bn" using False has_block_fun by blast
      then have "\<not> b_dirty (b_buf s i)" using P slot_SomeD [of s bn i] by blast
      then have v: "b_valid (b_buf s i) \<Longrightarrow> b_data (b_buf s i) = d_disk s m"
        using binvD(2) [OF inv, of i] P True by (simp add: buf_ok_def has_block_def)
      have "bview s m = d_disk s m"
      proof (cases "b_valid (b_buf s i)")
        case True
        then show ?thesis using v bviewE(1) [OF inv, of i m] P \<open>has_block (b_buf s i) m\<close> by simp
      next
        case False
        then show ?thesis using bviewE(2) [OF inv] binvD(3) [OF inv] P \<open>has_block (b_buf s i) m\<close> by metis
      qed
      moreover have "bview t m = d_disk t m"
      proof (rule bviewE(2) [OF invt])
        fix j
        assume j: "j < NBUF" "has_block (b_buf t j) m"
        then have "j \<noteq> i" using i by blast
        then have "has_block (b_buf s j) m" using j bread_post_frame [OF post, of j] by simp
        then show "\<not> b_valid (b_buf t j)" using \<open>j \<noteq> i\<close> j(1) True P binvD(3) [OF inv, of i j m] by blast
      qed
      ultimately show ?thesis by (simp add: bread_post_rest [OF post])
    next
      case no: False
      have same: "j < NBUF \<Longrightarrow> has_block (b_buf t j) m \<longleftrightarrow> has_block (b_buf s j) m" for j
        using no i bread_post_frame [OF post, of j] by (cases "j = i") auto
      then have "slot t m = slot s m" unfolding slot_def by (intro find_cong) auto
      moreover have "slot s m = Some j \<Longrightarrow> b_buf t j = b_buf s j" for j
        using no slot_SomeD [of s m j] bread_post_frame [OF post, of j] by (cases "j = i") auto
      ultimately show ?thesis by (simp add: bview_def bread_post_rest [OF post] split: option.split)
    qed
  qed
qed

subsection \<open>brelse\<close>

text \<open>A buffer without its list links.\<close>

definition bcore :: "buf \<Rightarrow> buf" where
  "bcore b = b\<lparr>b_prev := 0, b_next := 0\<rparr>"

lemma bcore_eqD:
  assumes "bcore a = bcore b"
  shows "b_flags a = b_flags b" "b_dev a = b_dev b" "b_blockno a = b_blockno b" "b_lock a = b_lock b"
    "b_refcnt a = b_refcnt b" "b_data a = b_data b" "has_block a bn = has_block b bn"
    "buf_ok disk sz a = buf_ok disk sz b"
proof -
  show f: "b_flags a = b_flags b" "b_dev a = b_dev b" "b_blockno a = b_blockno b" "b_lock a = b_lock b"
    "b_refcnt a = b_refcnt b" "b_data a = b_data b"
    using assms by (auto simp: bcore_def dest: arg_cong [where f = b_flags] arg_cong [where f = b_dev]
        arg_cong [where f = b_blockno] arg_cong [where f = b_lock] arg_cong [where f = b_refcnt]
        arg_cong [where f = b_data])
  then show "has_block a bn = has_block b bn" "buf_ok disk sz a = buf_ok disk sz b"
    by (simp_all add: has_block_def buf_ok_def)
qed

abbreviation nextf :: "'z bst_scheme \<Rightarrow> nat \<Rightarrow> nat" where "nextf s \<equiv> \<lambda>b. b_next (b_buf s b)"
abbreviation prevf :: "'z bst_scheme \<Rightarrow> nat \<Rightarrow> nat" where "prevf s \<equiv> \<lambda>b. b_prev (b_buf s b)"

text \<open>Steps that only change list links.\<close>

definition relink :: "'z bst_scheme \<Rightarrow> 'z bst_scheme \<Rightarrow> bool" where
  "relink s t \<longleftrightarrow> t = s\<lparr>b_buf := b_buf t\<rparr> \<and> (\<forall>j. bcore (b_buf t j) = bcore (b_buf s j))"

lemma relink_trans: "relink s t \<Longrightarrow> relink t u \<Longrightarrow> relink s u"
  unfolding relink_def by (metis bst.update_convs(1) bst.surjective)

lemma unlink_buf_Ok:
  assumes "b_next (b_buf s b) \<noteq> b" "b_prev (b_buf s b) \<noteq> b"
  shows "\<exists>t. unlink_buf b s = Ok () t \<and> relink s t
     \<and> nextf t = (nextf s)(prevf s b := nextf s b) \<and> prevf t = (prevf s)(nextf s b := prevf s b)"
  using assms
  by (auto simp: unlink_buf_def kdefs buf_get_def buf_upd_def relink_def bcore_def fun_eq_iff)

lemma link_front_Ok:
  assumes "b \<noteq> bhead"
  shows "\<exists>t. link_front b s = Ok () t \<and> relink s t
     \<and> nextf t = (nextf s)(b := nextf s bhead, bhead := b)
     \<and> prevf t = (prevf s)(b := bhead, nextf s bhead := b)"
  using assms
  by (auto simp: link_front_def kdefs buf_get_def buf_upd_def relink_def bcore_def fun_eq_iff)

lemma relink_to_front:
  assumes "bcache_list s (xs @ b # ys)"
  shows "\<exists>t. andthen (unlink_buf b) (link_front b) s = Ok () t \<and> relink s t
     \<and> bcache_list t (b # xs @ ys)"
proof -
  have L: "links (nextf s) (prevf s) bhead (xs @ b # ys) bhead"
    and D: "distinct (xs @ b # ys)" and S: "set (xs @ b # ys) = {0..<NBUF}"
    using assms by (simp_all add: bcache_list_def)
  have hn: "bhead \<notin> set (xs @ b # ys)" using S by (simp only:) simp
  have nb: "nextf s b \<noteq> b" using L D hn by (cases ys) (auto simp: links_append)
  have pb: "prevf s b \<noteq> b"
    using links_last [of "nextf s" "prevf s" bhead xs b] L D hn
    by (auto simp: links_append split: if_splits)
  obtain t where t: "unlink_buf b s = Ok () t" "relink s t"
    "nextf t = (nextf s)(prevf s b := nextf s b)" "prevf t = (prevf s)(nextf s b := prevf s b)"
    using unlink_buf_Ok [OF nb pb] by blast
  have Lt: "links (nextf t) (prevf t) bhead (xs @ ys) bhead"
    unfolding t(3,4) by (rule links_unlink [OF L]) (use D hn in auto)
  obtain u where u: "link_front b t = Ok () u" "relink t u"
    "nextf u = (nextf t)(b := nextf t bhead, bhead := b)"
    "prevf u = (prevf t)(b := bhead, nextf t bhead := b)"
    using link_front_Ok [of b t] hn by auto
  have "links (nextf u) (prevf u) bhead (b # xs @ ys) bhead"
    unfolding u(3,4) by (rule links_insert [OF Lt]) (use D hn in auto)
  moreover have "set (b # xs @ ys) = {0..<NBUF}" using S by auto
  ultimately have "bcache_list u (b # xs @ ys)" using D by (auto simp: bcache_list_def)
  then show ?thesis
    using t u relink_trans by (auto simp: andthen_def bnd_def)
qed

definition brelse_post :: "'z bst_scheme \<Rightarrow> nat \<Rightarrow> 'z bst_scheme \<Rightarrow> bool" where
  "brelse_post s i t \<longleftrightarrow>
     t = s\<lparr>b_buf := b_buf t, k_procs := map (wake (ChBufLock i)) (k_procs s)\<rparr>
     \<and> (\<exists>xs. bcache_list t (i # xs)) \<and> (\<forall>j. j \<noteq> i \<longrightarrow> bcore (b_buf t j) = bcore (b_buf s j))
     \<and> bcore (b_buf t i) = bcore ((b_buf s i)\<lparr>b_lock := initsleeplock, b_refcnt := 0\<rparr>)"

lemma split_at: "x \<in> set xs \<Longrightarrow> \<exists>ys zs. xs = ys @ x # zs"
  by (rule split_list)

lemma brelse_Ok:
  assumes list: "bcache_list s xs" and i: "i < NBUF" and lk: "sl_locked (b_lock (b_buf s i))"
    and r: "b_refcnt (b_buf s i) = 1" and st: "k_held s = []"
  shows "\<exists>t. brelse i s = Ok () t \<and> brelse_post s i t \<and> bcache_list t (i # remove1 i xs)"
proof -
  obtain ys zs where xs: "xs = ys @ i # zs"
    using split_at [of i xs] list i by (auto simp: bcache_list_def)
  let ?b = "(b_buf s i)\<lparr>b_lock := initsleeplock, b_refcnt := 0\<rparr>"
  let ?a = "s\<lparr>k_procs := map (wake (ChBufLock i)) (k_procs s), k_held := [BcacheLock],
              b_buf := (b_buf s)(i := ?b)\<rparr>"
  have "nextf ?a = nextf s" "prevf ?a = prevf s" by auto
  then have "bcache_list ?a (ys @ i # zs)" using list xs by (simp add: bcache_list_def)
  then obtain t where t: "andthen (unlink_buf i) (link_front i) ?a = Ok () t" "relink ?a t"
    "bcache_list t (i # ys @ zs)" using relink_to_front by blast
  have th: "t = ?a\<lparr>b_buf := b_buf t\<rparr>" using t(2) by (simp add: relink_def)
  have held: "k_held t = [BcacheLock]" by (subst th) simp
  have rel: "buf_releasesleep i s = Ok () (s\<lparr>k_procs := map (wake (ChBufLock i)) (k_procs s),
      b_buf := (b_buf s)(i := (b_buf s i)\<lparr>b_lock := initsleeplock\<rparr>)\<rparr>)"
    unfolding buf_releasesleep_def using st
    by (simp add: buf_lock.releasesleep_Ok buf_lock_wr_def initsleeplock_def)
  have "brelse i s = Ok () (t\<lparr>k_held := []\<rparr>)"
    using st lk r held t(1)
    by (simp add: brelse_def bnd_def andthen_def holdingsleep_Ok buf_lock_rd_def rel
        buf_upd_def modify_def buf_get_def fetch_def whenk_def)
  moreover have "brelse_post s i (t\<lparr>k_held := []\<rparr>)"
  proof -
    have "t\<lparr>k_held := []\<rparr> = s\<lparr>b_buf := b_buf t, k_procs := map (wake (ChBufLock i)) (k_procs s)\<rparr>"
      using st by (subst th) simp
    moreover have "bcore (b_buf t j) = bcore (((b_buf s)(i := ?b)) j)" for j
      using t(2) by (simp add: relink_def)
    moreover have "bcache_list (t\<lparr>k_held := []\<rparr>) (i # ys @ zs)" using t(3) by (simp add: bcache_list_def)
    ultimately show ?thesis by (auto simp: brelse_post_def)
  qed
  moreover have "remove1 i xs = ys @ zs"
    using list xs by (auto simp: bcache_list_def remove1_append)
  then have "bcache_list (t\<lparr>k_held := []\<rparr>) (i # remove1 i xs)" using t(3) by (simp add: bcache_list_def)
  ultimately show ?thesis by blast
qed

subsection \<open>Updates of a buffer in use\<close>

lemma upd_held:
  assumes inv: "binv s" and i: "i < NBUF" "has_block (b_buf s i) bn" and bn: "bn < d_size s"
    and b: "has_block b bn" "b_valid b" "b_refcnt b \<noteq> 0"
      "b_next b = b_next (b_buf s i)" "b_prev b = b_prev (b_buf s i)"
    and t: "b_buf t = (b_buf s)(i := b)" "d_disk t = (d_disk s)(bn := x)" "d_size t = d_size s"
  shows "binv t" and "bview t = (bview s)(bn := b_data b)"
proof -
  have nx: "nextf t = nextf s" "prevf t = prevf s" using b t by auto
  have ot: "\<not> has_block (b_buf s j) bn" if "j < NBUF" "j \<noteq> i" for j
    using that i binvD(3) [OF inv, of i j bn] by blast
  have hb: "has_block (b_buf t j) m \<longleftrightarrow> has_block (b_buf s j) m" for j m
    using i b t by (auto simp: has_block_def)
  have "buf_ok (d_disk t) (d_size t) (b_buf t j)" if j: "j < NBUF" for j
  proof (cases "j = i")
    case True
    with b bn t show ?thesis by (auto simp: buf_ok_def has_block_def)
  next
    case False
    with binvD(2) [OF inv j] ot [OF j] t show ?thesis by (auto simp: buf_ok_def has_block_def)
  qed
  then show invt: "binv t"
    using binvD(1,3) [OF inv] hb unfolding binv_def bcache_list_def nx by blast
  show "bview t = (bview s)(bn := b_data b)"
  proof
    fix m
    have sl: "slot t m = slot s m" by (simp add: slot_def hb)
    show "bview t m = ((bview s)(bn := b_data b)) m"
    proof (cases "m = bn")
      case True
      then show ?thesis using bviewE(1) [OF invt i(1), of bn] b t hb i by simp
    next
      case False
      then have "slot s m \<noteq> Some i" using i slot_SomeD [of s m i] has_block_fun by blast
      with sl False t show ?thesis by (auto simp: bview_def split: option.split)
    qed
  qed
qed

lemma brelse_keeps:
  assumes inv: "binv s" and i: "i < NBUF" "has_block (b_buf s i) bn" "b_valid (b_buf s i)"
    and co: "b_dirty (b_buf s i) \<or> b_data (b_buf s i) = d_disk s bn"
    and post: "brelse_post s i t"
  shows "binv t" and "bview t = bview s"
proof -
  have t: "d_disk t = d_disk s" "d_size t = d_size s"
    using post unfolding brelse_post_def by (metis bst.select_convs(2,3) bst.surjective bst.update_convs(1) kst.update_convs(2))+
  let ?b = "(b_buf s i)\<lparr>b_lock := initsleeplock, b_refcnt := 0\<rparr>"
  have core: "bcore (b_buf t j) = bcore (if j = i then ?b else b_buf s j)" for j
    using post by (auto simp: brelse_post_def)
  note C = bcore_eqD [OF core]
  have hb: "has_block (b_buf t j) m \<longleftrightarrow> has_block (b_buf s j) m" for j m
    by (simp add: C(7)) (simp add: has_block_def)
  have fl: "b_flags (b_buf t j) = b_flags (b_buf s j)" "b_data (b_buf t j) = b_data (b_buf s j)" for j
    by (simp_all add: C(1) C(6))
  have "buf_ok (d_disk t) (d_size t) (b_buf t j)" if "j < NBUF" for j
    using binvD(2) [OF inv that] i co unfolding C(8) t
    by (auto simp: buf_ok_def has_block_def initsleeplock_def)
  then show "binv t"
    using binvD(3) [OF inv] hb post unfolding binv_def brelse_post_def by blast
  show "bview t = bview s"
    by (simp add: fun_eq_iff bview_def slot_def hb fl t split: option.split)
qed

lemma bwrite_Ok:
  assumes "k_held s = []" "sl_locked (b_lock (b_buf s i))" "has_block (b_buf s i) bn" "bn < d_size s"
  shows "bwrite i s = Ok () (s\<lparr>b_buf := (b_buf s)(i := (b_buf s i)
           \<lparr>b_flags := ((b_flags (b_buf s i) OR B_DIRTY) AND NOT B_DIRTY) OR B_VALID\<rparr>),
           d_disk := (d_disk s)(bn := b_data (b_buf s i)),
           d_writes := d_writes s @ [(bn, b_data (b_buf s i))]\<rparr>)"
proof -
  let ?s = "s\<lparr>b_buf := (b_buf s)(i := (b_buf s i)\<lparr>b_flags := b_flags (b_buf s i) OR B_DIRTY\<rparr>)\<rparr>"
  have "iderw i ?s = Ok () (s\<lparr>b_buf := (b_buf s)(i := (b_buf s i)
           \<lparr>b_flags := ((b_flags (b_buf s i) OR B_DIRTY) AND NOT B_DIRTY) OR B_VALID\<rparr>),
           d_disk := (d_disk s)(bn := b_data (b_buf s i)),
           d_writes := d_writes s @ [(bn, b_data (b_buf s i))]\<rparr>)"
    using iderw_write [of ?s i bn] assms by (simp add: has_block_def)
  then show ?thesis
    using assms by (simp add: bwrite_def bnd_def andthen_def holdingsleep_Ok buf_lock_rd_def
        buf_upd_def modify_def)
qed

subsection \<open>binit\<close>

definition binit_inv :: "'z bst_scheme \<Rightarrow> nat list \<Rightarrow> 'z bst_scheme \<Rightarrow> bool" where
  "binit_inv s ds t \<longleftrightarrow> links (nextf t) (prevf t) bhead (rev ds) bhead \<and> t = s\<lparr>b_buf := b_buf t\<rparr>
     \<and> (\<forall>j. bcore (b_buf t j)
           = (if j \<in> set ds then bcore ((b_buf s j)\<lparr>b_lock := initsleeplock\<rparr>) else bcore (b_buf s j)))"

lemma binit_step:
  assumes I: "binit_inv s ds t" and b: "b \<notin> set ds" "b \<noteq> bhead" and d: "distinct ds" "bhead \<notin> set ds"
  shows "wp (andthen (modify (buf_lock_wr b initsleeplock)) (link_front b)) (\<lambda>_. binit_inv s (ds @ [b])) t"
proof -
  define a where "a = buf_lock_wr b initsleeplock t"
  have nx: "nextf a = nextf t" "prevf a = prevf t" by (auto simp: a_def buf_lock_wr_def)
  have nxh: "b_next (b_buf a bhead) = b_next (b_buf t bhead)" by (simp add: a_def buf_lock_wr_def)
  obtain u where u: "link_front b a = Ok () u" "relink a u"
    and u3: "nextf u = (nextf t)(b := nextf t bhead, bhead := b)"
    and u4: "prevf u = (prevf t)(b := bhead, nextf t bhead := b)"
    using link_front_Ok [OF b(2), of a] unfolding nx nxh by blast
  have "links (nextf t) (prevf t) bhead (rev ds) bhead" using I by (simp add: binit_inv_def)
  then have "links (nextf u) (prevf u) bhead (b # rev ds) bhead"
    unfolding u3 u4 by (rule links_insert) (use b d in auto)
  moreover have "u = s\<lparr>b_buf := b_buf u\<rparr>"
  proof -
    have "t = s\<lparr>b_buf := b_buf t\<rparr>" using I by (simp add: binit_inv_def)
    moreover have "a = t\<lparr>b_buf := b_buf a\<rparr>" by (simp add: a_def buf_lock_wr_def)
    ultimately have "a = s\<lparr>b_buf := b_buf a\<rparr>" by (metis bst.update_convs(1) bst.surjective)
    then show ?thesis using u(2) unfolding relink_def by (metis bst.update_convs(1) bst.surjective)
  qed
  moreover have "bcore (b_buf u j) = (if j \<in> set (ds @ [b]) then bcore ((b_buf s j)\<lparr>b_lock := initsleeplock\<rparr>)
      else bcore (b_buf s j))" for j
  proof (cases "j = b")
    case True
    have "bcore (b_buf t b) = bcore (b_buf s b)" using I b(1) by (simp add: binit_inv_def)
    then have "bcore ((b_buf t b)\<lparr>b_lock := initsleeplock\<rparr>) = bcore ((b_buf s b)\<lparr>b_lock := initsleeplock\<rparr>)"
      by (cases "b_buf t b"; cases "b_buf s b") (simp add: bcore_def)
    with True u(2) show ?thesis by (simp add: relink_def a_def buf_lock_wr_def)
  next
    case False
    with u(2) I show ?thesis by (simp add: relink_def a_def buf_lock_wr_def binit_inv_def)
  qed
  ultimately have "binit_inv s (ds @ [b]) u" by (simp add: binit_inv_def)
  then show ?thesis
    unfolding wp_andthen wp_modify a_def [symmetric] by (rule wp_OkI [of "link_front b", OF u(1)])
qed

lemma binit_list:
  "\<exists>t. binit s = Ok () t \<and> t = s\<lparr>b_buf := b_buf t\<rparr> \<and> bcache_list t (rev [0..<NBUF])
     \<and> (\<forall>j<NBUF. bcore (b_buf t j) = bcore ((b_buf s j)\<lparr>b_lock := initsleeplock\<rparr>))"
proof -
  let ?h = "(b_buf s bhead)\<lparr>b_prev := bhead, b_next := bhead\<rparr>"
  let ?a = "s\<lparr>b_buf := (b_buf s)(bhead := ?h)\<rparr>"
  have 0: "binit_inv ?a [] ?a" by (simp add: binit_inv_def)
  have "wp (for_each [0..<NBUF] (\<lambda>b. andthen (modify (buf_lock_wr b initsleeplock)) (link_front b)))
     (\<lambda>_. binit_inv ?a [0..<NBUF]) ?a"
  proof (rule wp_for_each [where I = "binit_inv ?a", OF 0])
    fix ds b rest t
    assume e: "[0..<NBUF] = ds @ b # rest" and I: "binit_inv ?a ds t"
    have "distinct (ds @ b # rest)" "set (ds @ b # rest) = {0..<NBUF}" using e [symmetric] by simp_all
    then show "wp (andthen (modify (buf_lock_wr b initsleeplock)) (link_front b))
        (\<lambda>_. binit_inv ?a (ds @ [b])) t"
      by (intro binit_step [OF I]) (use bhead_notin(1) in \<open>auto simp: set_eq_iff simp del: bhead_notin\<close>)
  qed
  then obtain t where t: "for_each [0..<NBUF] (\<lambda>b. andthen (modify (buf_lock_wr b initsleeplock)) (link_front b)) ?a
      = Ok () t" "binit_inv ?a [0..<NBUF] t" by (auto simp: wp_iff)
  have "binit s = Ok () t" using t(1) by (simp add: binit_def andthen_def bnd_def buf_upd_def modify_def)
  moreover have "t = s\<lparr>b_buf := b_buf t\<rparr>"
  proof -
    have "t = ?a\<lparr>b_buf := b_buf t\<rparr>" using t(2) unfolding binit_inv_def by blast
    then show ?thesis by (metis bst.update_convs(1) bst.surjective)
  qed
  moreover have "bcache_list t (rev [0..<NBUF])" using t(2) by (simp add: binit_inv_def bcache_list_def)
  moreover have "bcore (b_buf t j) = bcore ((b_buf s j)\<lparr>b_lock := initsleeplock\<rparr>)" if "j < NBUF" for j
    using t(2) that by (simp add: binit_inv_def)
  ultimately show ?thesis by blast
qed

lemma binit_binv:
  assumes "\<And>j. j < NBUF \<Longrightarrow> b_buf s j = buf0" "binit s = Ok () t"
  shows "binv t" and "bview t = d_disk s"
proof -
  obtain t' where t': "binit s = Ok () t'" "t' = s\<lparr>b_buf := b_buf t'\<rparr>" "bcache_list t' (rev [0..<NBUF])"
    "\<And>j. j < NBUF \<Longrightarrow> bcore (b_buf t' j) = bcore ((b_buf s j)\<lparr>b_lock := initsleeplock\<rparr>)"
    using binit_list [of s] by blast
  have eq: "t' = t" using t'(1) assms(2) by simp
  have b: "b_flags (b_buf t j) = 0" "b_dev (b_buf t j) = 0" "b_refcnt (b_buf t j) = 0"
    "b_lock (b_buf t j) = initsleeplock" if "j < NBUF" for j
    using bcore_eqD [OF t'(4) [OF that]] assms(1) [OF that] by (simp_all add: eq buf0_def)
  have nb: "\<not> has_block (b_buf t j) bn" if "j < NBUF" for j bn using b [OF that] by (simp add: has_block_def)
  have "buf_ok (d_disk t) (d_size t) (b_buf t j)" if "j < NBUF" for j
    using b [OF that] by (simp add: buf_ok_def initsleeplock_def)
  then show "binv t" using t'(3) nb unfolding binv_def eq by blast
  have "d_disk t' = d_disk s" by (subst t'(2)) simp
  moreover have "slot t bn = None" for bn using nb by (simp add: slot_None)
  ultimately show "bview t = d_disk s" by (simp add: fun_eq_iff bview_def eq)
qed

section \<open>Properties\<close>

text \<open>
  \<^verbatim>\<open>binit\<close> on zeroed storage returns and builds one circular list, through both pointers, of
  all \<^verbatim>\<open>NBUF\<close> buffers, the last buffer first; the cache invariant holds and every block reads as it
  is on disk.
\<close>

theorem binit_establishes:
  "\<exists>t. binit (bst0 disk sz) = Ok () t \<and> bcache_list t (rev [0..<NBUF]) \<and> binv t
     \<and> (\<forall>bn. bview t bn = disk bn)"
proof -
  obtain t where t: "binit (bst0 disk sz) = Ok () t" "bcache_list t (rev [0..<NBUF])"
    using binit_list [of "bst0 disk sz"] by blast
  show ?thesis
    using t binit_binv [OF _ t(1)] by (auto simp: bst0_def kst.defs)
qed

text \<open>
  C8: \<^verbatim>\<open>bread\<close> of a block that no one else uses, while some buffer can be recycled, returns a
  locked buffer that holds the logical contents of the block (a dirty cached copy if there is
  one, else what the disk has), keeps the cache invariant, changes neither the disk nor what any
  other block reads as, and leaves every other buffer alone.
\<close>

theorem bread_correct:
  assumes "binv s" "k_held s = []" "k_cur s = Some p" "bn < d_size s"
    and "\<forall>i<NBUF. has_block (b_buf s i) bn \<longrightarrow> b_refcnt (b_buf s i) = 0"
    and "\<exists>i<NBUF. b_refcnt (b_buf s i) = 0 \<and> \<not> b_dirty (b_buf s i)"
  shows "\<exists>i t. bread 1 bn s = Ok i t \<and> i < NBUF \<and> b_data (b_buf t i) = bview s bn
     \<and> b_dev (b_buf t i) = 1 \<and> b_blockno (b_buf t i) = bn
     \<and> sl_locked (b_lock (b_buf t i)) \<and> b_refcnt (b_buf t i) = 1
     \<and> binv t \<and> bview t = bview s \<and> d_disk t = d_disk s \<and> (\<forall>j. j \<noteq> i \<longrightarrow> b_buf t j = b_buf s j)"
proof -
  have "has_free s" using assms(6) by (simp add: has_free_def)
  then obtain i t where it: "bread 1 bn s = Ok i t" "bread_post s bn i t"
    using bread_Ok [OF assms(1-4)] assms(5) by blast
  show ?thesis
    using it(1) bread_postD [OF it(2)] bread_binv [OF assms(1) it(2) assms(4)]
      bread_bview [OF assms(1) it(2) assms(4)] bread_post_rest(1) [OF it(2)] bread_post_frame [OF it(2)]
    by (intro exI [of _ i] exI [of _ t]) (simp add: has_block_def)
qed

text \<open>
  \<^verbatim>\<open>bread\<close> of a block that is not cached panics with \<^verbatim>\<open>bget: no buffers\<close> exactly when every
  buffer is referenced or dirty.
\<close>

theorem bread_no_buffers:
  assumes "binv s" "k_held s = []" "k_cur s = Some p" "bn < d_size s"
    and "\<forall>i<NBUF. \<not> (b_dev (b_buf s i) = 1 \<and> b_blockno (b_buf s i) = bn)"
  shows "bread 1 bn s = Panic ''bget: no buffers''
     \<longleftrightarrow> (\<forall>i<NBUF. b_refcnt (b_buf s i) \<noteq> 0 \<or> b_dirty (b_buf s i))"
proof -
  have sl: "slot s bn = None" using assms(5) by (auto simp: slot_None has_block_def)
  show ?thesis
  proof (cases "has_free s")
    case True
    then obtain i t where "bread 1 bn s = Ok i t"
      using bread_Ok [OF assms(1-4)] assms(5) by (auto simp: has_block_def)
    with True show ?thesis by (auto simp: has_free_def)
  next
    case False
    obtain xs where xs: "bcache_list s xs" using binvD(1) [OF assms(1)] ..
    then have "unused_at s = None"
      unfolding unused_at_find [OF xs] find_None_iff_set using False
      by (auto simp: has_free_def bcache_list_def flags_dirty)
    then have "unused_at (s\<lparr>k_held := [BcacheLock]\<rparr>) = None" by (simp add: unused_at_def del: list_scan.simps)
    moreover have "cached_at (s\<lparr>k_held := [BcacheLock]\<rparr>) 1 bn = None"
      using cached_at_slot [OF assms(1)] sl by (simp add: cached_at_def del: list_scan.simps)
    ultimately have "bread 1 bn s = Panic ''bget: no buffers''"
      using assms(2) by (simp add: bread_def bget_def bnd_def andthen_def fetch_def panic_def)
    with False show ?thesis by (auto simp: has_free_def)
  qed
qed

text \<open>
  \<^verbatim>\<open>brelse\<close> by the only holder moves the buffer to the front of the list, so that the list is
  ordered from the most to the least recently released buffer and \<^verbatim>\<open>bget\<close>, which recycles from the
  back, takes the least recently released clean one.
\<close>

theorem brelse_lru:
  assumes "bcache_list s xs" "i < NBUF" "sl_locked (b_lock (b_buf s i))" "b_refcnt (b_buf s i) = 1"
    "k_held s = []"
  shows "\<exists>t. brelse i s = Ok () t \<and> bcache_list t (i # remove1 i xs)
     \<and> b_refcnt (b_buf t i) = 0 \<and> \<not> sl_locked (b_lock (b_buf t i))
     \<and> unused_at t = List.find (\<lambda>b. b_refcnt (b_buf t b) = 0 \<and> b_flags (b_buf t b) AND B_DIRTY = 0)
           (rev (remove1 i xs) @ [i])"
proof -
  obtain t where t: "brelse i s = Ok () t" "brelse_post s i t" "bcache_list t (i # remove1 i xs)"
    using brelse_Ok [OF assms] by blast
  have "bcore (b_buf t i) = bcore ((b_buf s i)\<lparr>b_lock := initsleeplock, b_refcnt := 0\<rparr>)"
    using t(2) by (simp add: brelse_post_def)
  from bcore_eqD [OF this] t unused_at_find [OF t(3)] show ?thesis
    by (auto simp: initsleeplock_def)
qed

section \<open>Witnesses\<close>

text \<open>The cache right after \<^verbatim>\<open>binit\<close> meets the hypotheses above.\<close>

definition cache_started :: bst where
  "cache_started = (case binit (bst0 (\<lambda>_ _. 0) 1000) of Ok _ t \<Rightarrow> t | _ \<Rightarrow> bst0 (\<lambda>_ _. 0) 1000)"

lemma cache_started_facts:
  "binv cache_started" "k_held cache_started = []" "k_cur cache_started = Some 0"
  "d_size cache_started = 1000" "bcache_list cache_started (rev [0..<NBUF])"
  "j < NBUF \<Longrightarrow> b_refcnt (b_buf cache_started j) = 0 \<and> b_flags (b_buf cache_started j) = 0
     \<and> b_dev (b_buf cache_started j) = 0"
proof -
  let ?s = "bst0 (\<lambda>_ _. 0) 1000"
  obtain t where t: "binit ?s = Ok () t" "t = ?s\<lparr>b_buf := b_buf t\<rparr>" "bcache_list t (rev [0..<NBUF])"
    "\<And>j. j < NBUF \<Longrightarrow> bcore (b_buf t j) = bcore ((b_buf ?s j)\<lparr>b_lock := initsleeplock\<rparr>)"
    using binit_list [of ?s] by blast
  have c: "cache_started = t" using t(1) by (simp add: cache_started_def)
  show "binv cache_started" unfolding c by (rule binit_binv(1) [OF _ t(1)]) (simp add: bst0_def kst.defs)
  show "k_held cache_started = []" unfolding c by (subst t(2)) (simp add: bst0_def kst.defs kst0_def)
  show "k_cur cache_started = Some 0" unfolding c by (subst t(2)) (simp add: bst0_def kst.defs kst0_def)
  show "d_size cache_started = 1000" unfolding c by (subst t(2)) (simp add: bst0_def kst.defs kst0_def)
  show "bcache_list cache_started (rev [0..<NBUF])" unfolding c by (rule t(3))
  show "j < NBUF \<Longrightarrow> b_refcnt (b_buf cache_started j) = 0 \<and> b_flags (b_buf cache_started j) = 0
     \<and> b_dev (b_buf cache_started j) = 0"
    using bcore_eqD [OF t(4)] unfolding c by (simp add: bst0_def kst.defs buf0_def)
qed

lemma NBUF_pos: "0 < NBUF" "5 < NBUF"
  by (simp_all add: NBUF_def MAXOPBLOCKS_def)

theorem bread_correct_witness:
  "\<exists>i t. bread 1 7 cache_started = Ok i t \<and> b_data (b_buf t i) = bview cache_started 7 \<and> binv t"
proof -
  have "\<exists>i<NBUF. b_refcnt (b_buf cache_started i) = 0 \<and> \<not> b_dirty (b_buf cache_started i)"
    using cache_started_facts(6) [OF NBUF_pos(1)] NBUF_pos(1) by auto
  moreover have "\<forall>i<NBUF. has_block (b_buf cache_started i) 7 \<longrightarrow> b_refcnt (b_buf cache_started i) = 0"
    using cache_started_facts(6) by blast
  moreover have "7 < d_size cache_started" by (simp add: cache_started_facts(4))
  ultimately show ?thesis
    using bread_correct [OF cache_started_facts(1-3), of 7] by blast
qed

theorem bread_no_buffers_witness:
  "bread 1 7 cache_started \<noteq> Panic ''bget: no buffers''"
proof -
  have "7 < d_size cache_started" by (simp add: cache_started_facts(4))
  moreover have "\<forall>i<NBUF. \<not> (b_dev (b_buf cache_started i) = 1 \<and> b_blockno (b_buf cache_started i) = 7)"
    using cache_started_facts(6) by simp
  ultimately show ?thesis
    using bread_no_buffers [OF cache_started_facts(1-3), of 7] cache_started_facts(6) [OF NBUF_pos(1)]
      NBUF_pos(1) by auto
qed

definition cache_one_held :: bst where
  "cache_one_held = cache_started\<lparr>b_buf := (b_buf cache_started)(5 := (b_buf cache_started 5)
     \<lparr>b_refcnt := 1, b_lock := \<lparr>sl_locked = True, sl_pid = 0\<rparr>\<rparr>)\<rparr>"

theorem brelse_lru_witness:
  "\<exists>t. brelse 5 cache_one_held = Ok () t \<and> bcache_list t (5 # remove1 5 (rev [0..<NBUF]))"
proof -
  have "nextf cache_one_held = nextf cache_started" "prevf cache_one_held = prevf cache_started"
    by (auto simp: cache_one_held_def)
  then have "bcache_list cache_one_held (rev [0..<NBUF])"
    using cache_started_facts(5) by (simp add: bcache_list_def)
  moreover have "k_held cache_one_held = []" by (simp add: cache_one_held_def cache_started_facts(2))
  ultimately show ?thesis
    using brelse_lru [of cache_one_held "rev [0..<NBUF]" 5] NBUF_pos by (auto simp: cache_one_held_def)
qed

end
