(* ===== verification/Bytes.thy ===== *)
theory Bytes
  imports Kprelude
begin

text \<open>
  Integers in byte arrays.  A disk block and a physical memory are functions from offsets to
  bytes; the structures the kernel lays over them (log header, superblock, inodes, directory
  entries, page tables) are read and written through these little-endian loads and stores.  The
  offset type is \<open>nat\<close> for blocks and \<open>u32\<close> for memory.
\<close>

section \<open>Loads and stores\<close>

definition load16 :: "('a::comm_semiring_1 \<Rightarrow> u8) \<Rightarrow> 'a \<Rightarrow> u16" where
  "load16 m a = ucast (m a) OR push_bit 8 (ucast (m (a + 1)))"

definition store16 :: "('a::comm_semiring_1 \<Rightarrow> u8) \<Rightarrow> 'a \<Rightarrow> u16 \<Rightarrow> 'a \<Rightarrow> u8" where
  "store16 m a v = m(a := ucast v, a + 1 := ucast (drop_bit 8 v))"

definition load32 :: "('a::comm_semiring_1 \<Rightarrow> u8) \<Rightarrow> 'a \<Rightarrow> u32" where
  "load32 m a = ucast (m a) OR push_bit 8 (ucast (m (a + 1))) OR push_bit 16 (ucast (m (a + 2)))
     OR push_bit 24 (ucast (m (a + 3)))"

definition store32 :: "('a::comm_semiring_1 \<Rightarrow> u8) \<Rightarrow> 'a \<Rightarrow> u32 \<Rightarrow> 'a \<Rightarrow> u8" where
  "store32 m a v = m(a := ucast v, a + 1 := ucast (drop_bit 8 v), a + 2 := ucast (drop_bit 16 v),
     a + 3 := ucast (drop_bit 24 v))"

section \<open>Round trips\<close>

lemma split16: "(ucast (ucast (v :: u16) :: u8) :: u16) OR push_bit 8 (ucast (ucast (drop_bit 8 v) :: u8)) = v"
  by (intro bit_word_eqI)
    (auto simp: bit_or_iff bit_push_bit_iff bit_ucast_iff bit_drop_bit_eq; presburger)

lemma split32:
  "(ucast (ucast (v :: u32) :: u8) :: u32) OR push_bit 8 (ucast (ucast (drop_bit 8 v) :: u8))
     OR push_bit 16 (ucast (ucast (drop_bit 16 v) :: u8))
     OR push_bit 24 (ucast (ucast (drop_bit 24 v) :: u8)) = v"
proof (rule bit_word_eqI)
  fix n
  assume n: "n < LENGTH(32)"
  consider "n < 8" | "8 \<le> n \<and> n < 16" | "16 \<le> n \<and> n < 24" | "24 \<le> n" by linarith
  then show "bit ((ucast (ucast (v :: u32) :: u8) :: u32) OR push_bit 8 (ucast (ucast (drop_bit 8 v) :: u8))
     OR push_bit 16 (ucast (ucast (drop_bit 16 v) :: u8))
     OR push_bit 24 (ucast (ucast (drop_bit 24 v) :: u8))) n = bit v n"
    using n by cases (auto simp: bit_or_iff bit_push_bit_iff bit_ucast_iff bit_drop_bit_eq)
qed

lemma load32_store32_same:
  fixes a :: "'a::comm_semiring_1"
  assumes "distinct [a, a + 1, a + 2, a + 3]"
  shows "load32 (store32 m a v) a = v"
  using assms unfolding load32_def store32_def by (simp add: split32)

lemma load32_store32_nat [simp]: "load32 (store32 m (a::nat) v) a = v"
  by (rule load32_store32_same) simp

lemma load32_store32_u32 [simp]: "load32 (store32 m (a::u32) v) a = v"
  by (rule load32_store32_same) simp

lemma load16_store16_nat [simp]: "load16 (store16 m (a::nat) v) a = v"
  by (simp add: load16_def store16_def split16)

lemma load32_cong:
  assumes "m a = m' a" "m (a + 1) = m' (a + 1)" "m (a + 2) = m' (a + 2)" "m (a + 3) = m' (a + 3)"
  shows "load32 m a = load32 m' a"
  using assms by (simp add: load32_def)

lemma load32_store32_other:
  assumes "a + 4 \<le> b \<or> b + 4 \<le> (a::nat)"
  shows "load32 (store32 m a v) b = load32 m b"
  using assms by (intro load32_cong) (auto simp: store32_def)

lemma load16_store16_other:
  assumes "a + 2 \<le> b \<or> b + 2 \<le> (a::nat)"
  shows "load16 (store16 m a v) b = load16 m b"
  using assms by (auto simp: load16_def store16_def)

lemma load16_store32_other:
  assumes "a + 4 \<le> b \<or> b + 2 \<le> (a::nat)"
  shows "load16 (store32 m a v) b = load16 m b"
  using assms by (auto simp: load16_def store32_def)

lemma load32_store16_other:
  assumes "a + 2 \<le> b \<or> b + 4 \<le> (a::nat)"
  shows "load32 (store16 m a v) b = load32 m b"
  using assms by (intro load32_cong) (auto simp: store16_def)

lemma store32_other: "b < a \<or> a + 4 \<le> (b::nat) \<Longrightarrow> store32 m a v b = m b"
  by (auto simp: store32_def)

lemma store16_other: "b < a \<or> a + 2 \<le> (b::nat) \<Longrightarrow> store16 m a v b = m b"
  by (auto simp: store16_def)

section \<open>Arrays of integers\<close>

text \<open>Store a list of words at consecutive offsets, as a loop over the elements does.\<close>

fun store_array :: "(nat \<Rightarrow> u8) \<Rightarrow> nat \<Rightarrow> u32 list \<Rightarrow> nat \<Rightarrow> u8" where
  "store_array m a [] = m"
| "store_array m a (v # vs) = store_array (store32 m a v) (a + 4) vs"

definition load_array :: "(nat \<Rightarrow> u8) \<Rightarrow> nat \<Rightarrow> nat \<Rightarrow> u32 list" where
  "load_array m a n = map (\<lambda>i. load32 m (a + 4 * i)) [0..<n]"

lemma store_array_before: "b + 4 \<le> a \<Longrightarrow> load32 (store_array m a vs) b = load32 m b"
  by (induction m a vs rule: store_array.induct) (auto simp: load32_store32_other)

lemma store_array_byte: "b < a \<or> a + 4 * length vs \<le> b \<Longrightarrow> store_array m a vs b = m b"
  by (induction m a vs rule: store_array.induct) (auto simp: store32_other)

lemma store_array_snoc:
  "store_array m a (vs @ [v]) = store32 (store_array m a vs) (a + 4 * length vs) v"
  by (induction m a vs rule: store_array.induct) (simp_all add: algebra_simps)

lemma load_array_Suc: "load_array m a (Suc n) = load32 m a # load_array m (a + 4) n"
  by (simp add: load_array_def upt_conv_Cons map_Suc_upt [symmetric] add.assoc del: upt_Suc)

lemma load_store_array [simp]: "load_array (store_array m a vs) a (length vs) = vs"
proof (induction m a vs rule: store_array.induct)
  case (1 m a)
  then show ?case by (simp add: load_array_def)
next
  case (2 m a v vs)
  then show ?case by (simp add: load_array_Suc store_array_before)
qed

lemma length_load_array [simp]: "length (load_array m a n) = n"
  by (simp add: load_array_def)

lemma nth_load_array [simp]: "i < n \<Longrightarrow> load_array m a n ! i = load32 m (a + 4 * i)"
  by (simp add: load_array_def)

end
