(* ===== verification/Bufuse.thy ===== *)
theory Bufuse
  imports Bio Bytes
begin

text \<open>
  Using the buffer cache: the contracts of \<^verbatim>\<open>bread\<close>, \<^verbatim>\<open>bwrite\<close> and \<^verbatim>\<open>brelse\<close> for one process that
  holds a set \<open>H\<close> of buffers, in terms of what blocks read as (\<open>bview\<close>), what is on disk and which
  blocks are dirty.  The clients (log, file system) are verified against these contracts only.
\<close>

section \<open>What a client may not change\<close>

definition bframe :: "'z bst_scheme \<Rightarrow> 'z bst_scheme \<Rightarrow> bool" where
  "bframe s t \<longleftrightarrow> t = s\<lparr>k_procs := k_procs t, b_buf := b_buf t, d_disk := d_disk t, d_writes := d_writes t\<rparr>"

lemma bframe_refl [simp, intro]: "bframe s s"
  by (simp add: bframe_def)

lemma bframe_buf: "t = s\<lparr>b_buf := b\<rparr> \<Longrightarrow> bframe s t"
  by (simp add: bframe_def)

lemma bframe_buf_procs: "t = s\<lparr>b_buf := b, k_procs := ps\<rparr> \<Longrightarrow> bframe s t"
  by (simp add: bframe_def)

lemma bframe_trans [trans]:
  assumes "bframe s t" "bframe t u"
  shows "bframe s u"
proof -
  have t: "t = s\<lparr>k_procs := k_procs t, b_buf := b_buf t, d_disk := d_disk t, d_writes := d_writes t\<rparr>"
    and u: "u = t\<lparr>k_procs := k_procs u, b_buf := b_buf u, d_disk := d_disk u, d_writes := d_writes u\<rparr>"
    using assms unfolding bframe_def .
  have "t\<lparr>k_procs := p, b_buf := b, d_disk := d, d_writes := w\<rparr>
      = s\<lparr>k_procs := p, b_buf := b, d_disk := d, d_writes := w\<rparr>" for p b d w
    by (subst t) simp
  then show ?thesis unfolding bframe_def using u by metis
qed

lemma bframeD:
  assumes "bframe s t"
  shows "k_held t = k_held s" "k_cur t = k_cur s" "d_size t = d_size s"
proof -
  have t: "t = s\<lparr>k_procs := k_procs t, b_buf := b_buf t, d_disk := d_disk t, d_writes := d_writes t\<rparr>"
    using assms by (simp add: bframe_def)
  show "k_held t = k_held s" by (subst t) simp
  show "k_cur t = k_cur s" by (subst t) simp
  show "d_size t = d_size s" by (subst t) simp
qed

section \<open>Buffers in use\<close>

definition dset :: "'z bst_scheme \<Rightarrow> u32 set" where
  "dset s = {b_blockno (b_buf s i) | i. i < NBUF \<and> b_dirty (b_buf s i)}"

definition using_bufs :: "'z bst_scheme \<Rightarrow> nat set \<Rightarrow> bool" where
  "using_bufs s H \<longleftrightarrow> binv s \<and> k_held s = [] \<and> k_cur s \<noteq> None \<and> H \<subseteq> {0..<NBUF}
     \<and> (\<forall>i<NBUF. if i \<in> H then b_refcnt (b_buf s i) = 1 \<and> sl_locked (b_lock (b_buf s i)) \<and> b_valid (b_buf s i)
                 else b_refcnt (b_buf s i) = 0)"

lemma using_bufsD:
  assumes "using_bufs s H"
  shows "binv s" "k_held s = []" "k_cur s \<noteq> None" "i \<in> H \<Longrightarrow> i < NBUF" "finite H"
    "i \<in> H \<Longrightarrow> b_refcnt (b_buf s i) = 1 \<and> sl_locked (b_lock (b_buf s i)) \<and> b_valid (b_buf s i)"
    "i < NBUF \<Longrightarrow> i \<notin> H \<Longrightarrow> b_refcnt (b_buf s i) = 0"
proof -
  show "binv s" "k_held s = []" "k_cur s \<noteq> None" using assms by (auto simp: using_bufs_def)
  have sub: "H \<subseteq> {0..<NBUF}" using assms by (simp add: using_bufs_def)
  then show "i \<in> H \<Longrightarrow> i < NBUF" "finite H" by (auto intro: finite_subset)
  then show "i \<in> H \<Longrightarrow> b_refcnt (b_buf s i) = 1 \<and> sl_locked (b_lock (b_buf s i)) \<and> b_valid (b_buf s i)"
    "i < NBUF \<Longrightarrow> i \<notin> H \<Longrightarrow> b_refcnt (b_buf s i) = 0"
    using assms by (auto simp: using_bufs_def)
qed

lemma using_bufsI:
  assumes "binv s" "k_held s = []" "k_cur s \<noteq> None" "\<And>i. i \<in> H \<Longrightarrow> i < NBUF"
    "\<And>i. i \<in> H \<Longrightarrow> b_refcnt (b_buf s i) = 1 \<and> sl_locked (b_lock (b_buf s i)) \<and> b_valid (b_buf s i)"
    "\<And>i. i < NBUF \<Longrightarrow> i \<notin> H \<Longrightarrow> b_refcnt (b_buf s i) = 0"
  shows "using_bufs s H"
  using assms by (auto simp: using_bufs_def)

lemma finite_dset [simp]: "finite (dset s)"
  by (simp add: dset_def)

lemma dset_block: "binv s \<Longrightarrow> i < NBUF \<Longrightarrow> b_dirty (b_buf s i) \<Longrightarrow> has_block (b_buf s i) (b_blockno (b_buf s i))"
  using binvD(2) [of s i] by (auto simp: buf_ok_def has_block_def)

lemma dset_iff:
  assumes "binv s"
  shows "bn \<in> dset s \<longleftrightarrow> (\<exists>i<NBUF. has_block (b_buf s i) bn \<and> b_dirty (b_buf s i))"
  using dset_block [OF assms] by (auto simp: dset_def has_block_def)

lemma dset_has:
  assumes "binv s" "i < NBUF" "has_block (b_buf s i) bn"
  shows "bn \<in> dset s \<longleftrightarrow> b_dirty (b_buf s i)"
  using assms binvD(3) [OF assms(1)] dset_iff [OF assms(1)] by blast

text \<open>A block that is not dirty and not in use reads as it is on disk.\<close>

lemma bview_clean:
  assumes inv: "using_bufs s H" and nd: "bn \<notin> dset s"
    and nh: "\<And>i. i \<in> H \<Longrightarrow> has_block (b_buf s i) bn \<Longrightarrow> b_data (b_buf s i) = d_disk s bn"
  shows "bview s bn = d_disk s bn"
proof (cases "slot s bn")
  case None
  then show ?thesis by (simp add: bview_def)
next
  case (Some i)
  note B = using_bufsD [OF inv]
  have i: "i < NBUF" "has_block (b_buf s i) bn" using slot_SomeD [OF Some] by auto
  have d: "\<not> b_dirty (b_buf s i)" using dset_has [OF B(1) i] nd by simp
  have "b_valid (b_buf s i) \<Longrightarrow> b_data (b_buf s i) = d_disk s bn"
  proof (cases "i \<in> H")
    case True
    then show "b_data (b_buf s i) = d_disk s bn" using nh i by blast
  next
    case False
    assume "b_valid (b_buf s i)"
    then show "b_data (b_buf s i) = d_disk s bn"
      using binvD(2) [OF B(1) i(1)] B(7) [OF i(1) False] d i(2) by (auto simp: buf_ok_def has_block_def)
  qed
  with Some show ?thesis by (simp add: bview_def)
qed

lemma cache_cong:
  fixes s :: "'z bst_scheme" and t :: "'y bst_scheme"
  assumes "b_buf t = b_buf s" "d_disk t = d_disk s" "d_size t = d_size s"
  shows "binv t = binv s" "bview t = bview s" "dset t = dset s"
    "k_held t = k_held s \<Longrightarrow> k_cur t = k_cur s \<Longrightarrow> using_bufs t H = using_bufs s H"
proof -
  show b: "binv t = binv s" using assms by (simp add: binv_def bcache_list_def)
  show "bview t = bview s" by (rule ext) (simp add: assms bview_def slot_def split: option.split)
  show "dset t = dset s" using assms by (simp add: dset_def)
  show "k_held t = k_held s \<Longrightarrow> k_cur t = k_cur s \<Longrightarrow> using_bufs t H = using_bufs s H"
    using assms b by (simp add: using_bufs_def)
qed

text \<open>Dirty and held buffers leave one to recycle.\<close>

lemma has_free_card:
  assumes "using_bufs s H" "card (dset s) + card H < NBUF"
  shows "has_free s"
proof (rule ccontr)
  assume no: "\<not> has_free s"
  note B = using_bufsD [OF assms(1)]
  let ?D = "{i. i < NBUF \<and> b_dirty (b_buf s i)}"
  have "{0..<NBUF} \<subseteq> ?D \<union> H" using no B(7) by (auto simp: has_free_def)
  then have "NBUF \<le> card (?D \<union> H)" using card_mono [of "?D \<union> H" "{0..<NBUF}"] B(5) by simp
  also have "\<dots> \<le> card ?D + card H" by (rule card_Un_le)
  also have "card ?D = card (dset s)"
  proof -
    have "inj_on (\<lambda>i. b_blockno (b_buf s i)) ?D"
    proof (rule inj_onI)
      fix x y
      assume x: "x \<in> ?D" and y: "y \<in> ?D" and e: "b_blockno (b_buf s x) = b_blockno (b_buf s y)"
      then have "has_block (b_buf s x) (b_blockno (b_buf s x))" "has_block (b_buf s y) (b_blockno (b_buf s x))"
        using dset_block [OF B(1), of x] dset_block [OF B(1), of y] by auto
      then show "x = y" using binvD(3) [OF B(1)] x y by blast
    qed
    moreover have "dset s = (\<lambda>i. b_blockno (b_buf s i)) ` ?D" by (auto simp: dset_def)
    ultimately show ?thesis by (simp add: card_image)
  qed
  finally show False using assms(2) by simp
qed

section \<open>Contracts\<close>

lemma bread_use:
  assumes inv: "using_bufs s H" and bn: "bn < d_size s"
    and nh: "\<And>i. i \<in> H \<Longrightarrow> \<not> has_block (b_buf s i) bn"
    and free: "bn \<in> dset s \<or> card (dset s) + card H < NBUF"
  shows "\<exists>i t. bread 1 bn s = Ok i t \<and> i \<notin> H \<and> using_bufs t (insert i H) \<and> has_block (b_buf t i) bn
     \<and> b_data (b_buf t i) = bview s bn \<and> bview t = bview s \<and> dset t = dset s
     \<and> d_disk t = d_disk s \<and> d_writes t = d_writes s \<and> bframe s t
     \<and> (\<forall>j. j \<noteq> i \<longrightarrow> b_buf t j = b_buf s j)"
proof -
  note B = using_bufsD [OF inv]
  have idle: "b_refcnt (b_buf s i) = 0" if "i < NBUF" "has_block (b_buf s i) bn" for i
    using B(7) [of i] that nh by blast
  have fr: "slot s bn = None \<Longrightarrow> has_free s"
    using free has_free_card [OF inv] dset_iff [OF B(1), of bn] by (auto simp: slot_None)
  obtain p where p: "k_cur s = Some p" using B(3) by blast
  obtain i t where it: "bread 1 bn s = Ok i t" "bread_post s bn i t"
    using bread_Ok [OF B(1,2) p bn idle fr] by blast
  note P = bread_postD [OF it(2)] and F = bread_post_frame [OF it(2)] and R = bread_post_rest [OF it(2)]
  have iH: "i \<notin> H" using P B(6) by fastforce
  have invt: "binv t" by (rule bread_binv [OF B(1) it(2) bn])
  have "using_bufs t (insert i H)"
  proof (rule using_bufsI)
    fix j
    show "j \<in> insert i H \<Longrightarrow> j < NBUF" using P B(4) by auto
    show "j \<in> insert i H \<Longrightarrow> b_refcnt (b_buf t j) = 1 \<and> sl_locked (b_lock (b_buf t j)) \<and> b_valid (b_buf t j)"
      using P B(6) [of j] F [of j] by (cases "j = i") auto
    show "j < NBUF \<Longrightarrow> j \<notin> insert i H \<Longrightarrow> b_refcnt (b_buf t j) = 0"
      using B(7) [of j] F [of j] by simp
  qed (use invt R B p in simp_all)
  moreover have "dset t = dset s"
  proof -
    have "(\<exists>j<NBUF. has_block (b_buf t j) m \<and> b_dirty (b_buf t j)) \<longleftrightarrow>
        (\<exists>j<NBUF. has_block (b_buf s j) m \<and> b_dirty (b_buf s j))" for m
    proof -
      have *: "has_block (b_buf t j) m \<and> b_dirty (b_buf t j) \<longleftrightarrow> has_block (b_buf s j) m \<and> b_dirty (b_buf s j)" for j
      proof (cases "j = i")
        case True
        show ?thesis
        proof (cases "slot s bn = Some i")
          case yes: True
          then have "has_block (b_buf s i) bn" using slot_SomeD by blast
          then have "has_block (b_buf t i) m = has_block (b_buf s i) m" using P by (auto simp: has_block_def)
          with yes True P show ?thesis by auto
        next
          case False
          then have "\<not> b_dirty (b_buf t i)" "\<not> b_dirty (b_buf s i)" using P by auto
          with True show ?thesis by simp
        qed
      next
        case False
        then show ?thesis using F by simp
      qed
      then show ?thesis by simp
    qed
    then show ?thesis using dset_iff [OF invt] dset_iff [OF B(1)] by blast
  qed
  moreover have "bframe s t"
    by (rule bframe_buf [OF bread_post_only [OF it(2)]])
  ultimately show ?thesis
    using it(1) iH P F R bread_bview [OF B(1) it(2) bn] by blast
qed

text \<open>Change the data of a held buffer and write it out.\<close>

lemma bwrite_use:
  assumes inv: "using_bufs s H" and i: "i \<in> H" "has_block (b_buf s i) bn" and bn: "bn < d_size s"
    and t: "t = s\<lparr>b_buf := (b_buf s)(i := (b_buf s i)\<lparr>b_data := x\<rparr>)\<rparr>"
  shows "\<exists>u. bwrite i t = Ok () u \<and> using_bufs u H \<and> has_block (b_buf u i) bn
     \<and> b_data (b_buf u i) = x \<and> bview u = (bview s)(bn := x) \<and> dset u = dset s - {bn}
     \<and> d_disk u = (d_disk s)(bn := x) \<and> d_writes u = d_writes s @ [(bn, x)] \<and> bframe s u
     \<and> (\<forall>j. j \<noteq> i \<longrightarrow> b_buf u j = b_buf s j)"
proof -
  note B = using_bufsD [OF inv]
  have iN: "i < NBUF" and h: "b_refcnt (b_buf s i) = 1" "sl_locked (b_lock (b_buf s i))" using B(4,6) i by auto
  let ?b = "(b_buf s i)\<lparr>b_data := x, b_flags := ((b_flags (b_buf s i) OR B_DIRTY) AND NOT B_DIRTY) OR B_VALID\<rparr>"
  let ?u = "s\<lparr>b_buf := (b_buf s)(i := ?b), d_disk := (d_disk s)(bn := x), d_writes := d_writes s @ [(bn, x)]\<rparr>"
  have w: "bwrite i t = Ok () ?u"
    using bwrite_Ok [of t i bn] B(2) h(2) i(2) bn by (simp add: t has_block_def)
  have b: "has_block ?b bn" "b_valid ?b" "\<not> b_dirty ?b" using i(2) by (simp_all add: has_block_def)
  have invu: "binv ?u" and vu: "bview ?u = (bview s)(bn := x)"
    using upd_held [OF B(1) iN i(2) bn b(1,2), of ?u] h(1) by simp_all
  have "using_bufs ?u H"
  proof (rule using_bufsI)
    fix j
    show "j \<in> H \<Longrightarrow> b_refcnt (b_buf ?u j) = 1 \<and> sl_locked (b_lock (b_buf ?u j)) \<and> b_valid (b_buf ?u j)"
      using B(6) [of j] b by (cases "j = i") auto
    show "j < NBUF \<Longrightarrow> j \<notin> H \<Longrightarrow> b_refcnt (b_buf ?u j) = 0"
      using B(7) [of j] i(1) by (cases "j = i") auto
  qed (use invu B in simp_all)
  moreover have "dset ?u = dset s - {bn}"
  proof -
    have "(\<exists>j<NBUF. has_block (b_buf ?u j) m \<and> b_dirty (b_buf ?u j)) \<longleftrightarrow>
        (\<exists>j<NBUF. has_block (b_buf s j) m \<and> b_dirty (b_buf s j)) \<and> m \<noteq> bn" for m
    proof (cases "m = bn")
      case True
      have "\<not> b_dirty (b_buf ?u j)" if "j < NBUF" "has_block (b_buf ?u j) bn" for j
      proof (cases "j = i")
        case True
        then show ?thesis using b(3) by simp
      next
        case False
        then have "has_block (b_buf s j) bn" using that(2) by simp
        then show ?thesis using binvD(3) [OF B(1) iN that(1) i(2)] False by blast
      qed
      then show ?thesis using True by blast
    next
      case False
      then have "\<not> has_block (b_buf s i) m" "\<not> has_block ?b m" using i(2) by (auto simp: has_block_def)
      then have "has_block (b_buf ?u j) m \<and> b_dirty (b_buf ?u j)
          \<longleftrightarrow> has_block (b_buf s j) m \<and> b_dirty (b_buf s j)" for j by (cases "j = i") simp_all
      with False show ?thesis by blast
    qed
    then show ?thesis
      unfolding set_eq_iff Diff_iff singleton_iff dset_iff [OF invu] dset_iff [OF B(1)] by (intro allI)
  qed
  moreover have "bframe s ?u" by (simp add: bframe_def)
  ultimately show ?thesis using w vu b by (intro exI [of _ ?u]) simp
qed

lemma brelse_use:
  assumes inv: "using_bufs s H" and i: "i \<in> H" "has_block (b_buf s i) bn"
    and co: "bn \<in> dset s \<or> b_data (b_buf s i) = d_disk s bn"
  shows "\<exists>t. brelse i s = Ok () t \<and> using_bufs t (H - {i}) \<and> bview t = bview s \<and> dset t = dset s
     \<and> d_disk t = d_disk s \<and> d_writes t = d_writes s \<and> bframe s t
     \<and> (\<forall>j. j \<noteq> i \<longrightarrow> bcore (b_buf t j) = bcore (b_buf s j))"
proof -
  note B = using_bufsD [OF inv]
  have iN: "i < NBUF" and h: "b_refcnt (b_buf s i) = 1" "sl_locked (b_lock (b_buf s i))" "b_valid (b_buf s i)"
    using B(4,6) i by auto
  obtain xs where xs: "bcache_list s xs" using binvD(1) [OF B(1)] ..
  obtain t where t: "brelse i s = Ok () t" "brelse_post s i t"
    using brelse_Ok [OF xs iN h(2,1) B(2)] by blast
  have "b_dirty (b_buf s i) \<or> b_data (b_buf s i) = d_disk s bn" using co dset_has [OF B(1) iN i(2)] by simp
  note K = brelse_keeps [OF B(1) iN i(2) h(3) this t(2)]
  let ?b = "(b_buf s i)\<lparr>b_lock := initsleeplock, b_refcnt := 0\<rparr>"
  have core: "bcore (b_buf t j) = bcore (if j = i then ?b else b_buf s j)" for j
    using t(2) by (auto simp: brelse_post_def)
  note C = bcore_eqD [OF core]
  have te: "t = s\<lparr>b_buf := b_buf t, k_procs := map (wake (ChBufLock i)) (k_procs s)\<rparr>"
    using t(2) by (simp add: brelse_post_def)
  have fr: "bframe s t" by (rule bframe_buf_procs [OF te])
  have "using_bufs t (H - {i})"
  proof (rule using_bufsI)
    fix j
    show "j \<in> H - {i} \<Longrightarrow> j < NBUF" using B(4) by blast
    show "j \<in> H - {i} \<Longrightarrow> b_refcnt (b_buf t j) = 1 \<and> sl_locked (b_lock (b_buf t j)) \<and> b_valid (b_buf t j)"
      using B(6) [of j] C(1,4,5) [of j] by simp
    show "j < NBUF \<Longrightarrow> j \<notin> H - {i} \<Longrightarrow> b_refcnt (b_buf t j) = 0"
      using B(7) [of j] C(5) [of j] by (cases "j = i") simp_all
  qed (use K(1) B bframeD [OF fr] in simp_all)
  moreover have "dset t = dset s"
  proof -
    have "has_block (b_buf t j) m = has_block (b_buf s j) m" "b_dirty (b_buf t j) = b_dirty (b_buf s j)" for j m
      using C(7) [of j m] C(1) [of j] by (auto simp: has_block_def)
    then show ?thesis using dset_iff [OF K(1)] dset_iff [OF B(1)] by blast
  qed
  moreover have "d_disk t = d_disk s" "d_writes t = d_writes s" by (subst te, simp)+
  ultimately show ?thesis using t(1) K(2) fr core by auto
qed

lemma binit_use:
  assumes z: "\<And>j. j < NBUF \<Longrightarrow> b_buf s j = buf0" and st: "k_held s = []" "k_cur s \<noteq> None"
  shows "\<exists>t. binit s = Ok () t \<and> using_bufs t {} \<and> dset t = {} \<and> bframe s t
     \<and> d_disk t = d_disk s \<and> d_writes t = d_writes s"
proof -
  obtain t where t: "binit s = Ok () t" "t = s\<lparr>b_buf := b_buf t\<rparr>"
    "\<And>j. j < NBUF \<Longrightarrow> bcore (b_buf t j) = bcore ((b_buf s j)\<lparr>b_lock := initsleeplock\<rparr>)"
    using binit_list [of s] by blast
  note B = binit_binv [OF z t(1)]
  have b: "b_flags (b_buf t j) = 0 \<and> b_refcnt (b_buf t j) = 0" if "j < NBUF" for j
    using bcore_eqD [OF t(3) [OF that]] z [OF that] by (simp add: buf0_def)
  have f: "bframe s t" by (rule bframe_buf [OF t(2)])
  have "using_bufs t {}" by (rule using_bufsI) (use B(1) b bframeD [OF f] st in simp_all)
  moreover have "dset t = {}" using b by (auto simp: dset_def)
  moreover have "d_disk t = d_disk s" "d_writes t = d_writes s" by (subst t(2), simp)+
  ultimately show ?thesis using t(1) f by blast
qed

end
