(* ===== verification/Log.thy ===== *)
theory Log
  imports Bufuse
begin

text \<open>
  The redo log of \<^verbatim>\<open>log.c\<close>, and the superblock of \<^verbatim>\<open>fs.h\<close> it is found through.  The in-memory
  \<^verbatim>\<open>struct log\<close> is the fields \<open>l_start\<close> to \<open>l_block\<close>; the header block on disk is read and written at
  the offsets the C structure has (\<^verbatim>\<open>n\<close> at 0, \<^verbatim>\<open>block[i]\<close> at \<open>4 + 4 * i\<close>).  An index outside
  \<^verbatim>\<open>log.lh.block\<close>, undefined in C, is a panic of the model.  \<^verbatim>\<open>begin_op\<close> either gets in or goes to
  sleep; after the wake-up it tests again (\<open>begin_op_again\<close>).
\<close>

section \<open>Definitions\<close>

record superblock =
  sb_size :: u32
  sb_nblocks :: u32
  sb_ninodes :: u32
  sb_nlog :: u32
  sb_logstart :: u32
  sb_inodestart :: u32
  sb_bmapstart :: u32

definition sb_decode :: "block \<Rightarrow> superblock" where
  "sb_decode d = \<lparr>sb_size = load32 d 0, sb_nblocks = load32 d 4, sb_ninodes = load32 d 8,
     sb_nlog = load32 d 12, sb_logstart = load32 d 16, sb_inodestart = load32 d 20,
     sb_bmapstart = load32 d 24\<rparr>"

definition readsb :: "u32 \<Rightarrow> (superblock, 'z bst_scheme) kop" where
  "readsb dev =
     bnd (bread dev 1) (\<lambda>bp. bnd (buf_get bp b_data) (\<lambda>d.
     andthen (brelse bp) (ret (sb_decode d))))"

record lst = bst +
  l_start :: u32
  l_size :: int
  l_outstanding :: int
  l_committing :: bool
  l_dev :: u32
  l_n :: int
  l_block :: "u32 list"

definition lh_block :: "nat \<Rightarrow> (u32, 'z lst_scheme) kop" where
  "lh_block i = bnd (fetch l_block) (\<lambda>bs. if i < length bs then ret (bs ! i) else panic ''lh.block index'')"

definition lh_set_block :: "nat \<Rightarrow> u32 \<Rightarrow> (unit, 'z lst_scheme) kop" where
  "lh_set_block i v = bnd (fetch l_block) (\<lambda>bs.
     if i < length bs then modify (\<lambda>s. s\<lparr>l_block := bs[i := v]\<rparr>) else panic ''lh.block index'')"

definition install_one :: "nat \<Rightarrow> (unit, 'z lst_scheme) kop" where
  "install_one tail =
     bnd (fetch l_dev) (\<lambda>dev. bnd (fetch l_start) (\<lambda>start.
     bnd (bread dev (start + of_nat tail + 1)) (\<lambda>lbuf.
     bnd (lh_block tail) (\<lambda>bn.
     bnd (bread dev bn) (\<lambda>dbuf.
     bnd (buf_get lbuf b_data) (\<lambda>d.
     andthen (buf_upd dbuf (\<lambda>p. p\<lparr>b_data := d\<rparr>))
     (andthen (bwrite dbuf)
     (andthen (brelse lbuf)
     (brelse dbuf)))))))))"

definition install_trans :: "(unit, 'z lst_scheme) kop" where
  "install_trans = bnd (fetch l_n) (\<lambda>n. for_each [0..<nat n] install_one)"

definition hdr_n :: "block \<Rightarrow> int" where
  "hdr_n d = sint (load32 d 0)"

definition hdr_block :: "block \<Rightarrow> nat \<Rightarrow> u32" where
  "hdr_block d i = load32 d (4 + 4 * i)"

definition read_head :: "(unit, 'z lst_scheme) kop" where
  "read_head =
     bnd (fetch l_dev) (\<lambda>dev. bnd (fetch l_start) (\<lambda>start.
     bnd (bread dev start) (\<lambda>b. bnd (buf_get b b_data) (\<lambda>d.
     andthen (modify (\<lambda>s. s\<lparr>l_n := hdr_n d\<rparr>))
     (andthen (for_each [0..<nat (hdr_n d)] (\<lambda>i. lh_set_block i (hdr_block d i)))
     (brelse b))))))"

definition write_head :: "(unit, 'z lst_scheme) kop" where
  "write_head =
     bnd (fetch l_dev) (\<lambda>dev. bnd (fetch l_start) (\<lambda>start.
     bnd (bread dev start) (\<lambda>b.
     bnd (fetch l_n) (\<lambda>n.
     andthen (buf_upd b (\<lambda>p. p\<lparr>b_data := store32 (b_data p) 0 (word_of_int n)\<rparr>))
     (andthen (for_each [0..<nat n] (\<lambda>i. bnd (lh_block i) (\<lambda>v.
        buf_upd b (\<lambda>p. p\<lparr>b_data := store32 (b_data p) (4 + 4 * i) v\<rparr>))))
     (andthen (bwrite b)
     (brelse b)))))))"

definition recover_from_log :: "(unit, 'z lst_scheme) kop" where
  "recover_from_log =
     andthen read_head
     (andthen install_trans
     (andthen (modify (\<lambda>s. s\<lparr>l_n := 0\<rparr>))
     write_head))"

definition initlog :: "u32 \<Rightarrow> (unit, 'z lst_scheme) kop" where
  "initlog dev =
     (if 4 + 4 * LOGSIZE \<ge> BSIZE then panic ''initlog: too big logheader'' else
      bnd (readsb dev) (\<lambda>sb.
      andthen (modify (\<lambda>s. s\<lparr>l_start := sb_logstart sb, l_size := sint (sb_nlog sb), l_dev := dev\<rparr>))
      recover_from_log))"

definition begin_op_test :: "(unit, 'z lst_scheme) kop" where
  "begin_op_test =
     bnd (fetch l_committing) (\<lambda>c. bnd (fetch l_n) (\<lambda>n. bnd (fetch l_outstanding) (\<lambda>out.
       if c then sleep ChLog LogLock
       else if n + (out + 1) * int MAXOPBLOCKS > int LOGSIZE then sleep ChLog LogLock
       else andthen (modify (\<lambda>s. s\<lparr>l_outstanding := out + 1\<rparr>)) (release LogLock))))"

definition begin_op :: "(unit, 'z lst_scheme) kop" where
  "begin_op = andthen (acquire LogLock) begin_op_test"

definition begin_op_again :: "(unit, 'z lst_scheme) kop" where
  "begin_op_again = andthen (sleep_resume LogLock) begin_op_test"

definition write_log_one :: "nat \<Rightarrow> (unit, 'z lst_scheme) kop" where
  "write_log_one tail =
     bnd (fetch l_dev) (\<lambda>dev. bnd (fetch l_start) (\<lambda>start.
     bnd (bread dev (start + of_nat tail + 1)) (\<lambda>to.
     bnd (lh_block tail) (\<lambda>bn.
     bnd (bread dev bn) (\<lambda>from.
     bnd (buf_get from b_data) (\<lambda>d.
     andthen (buf_upd to (\<lambda>p. p\<lparr>b_data := d\<rparr>))
     (andthen (bwrite to)
     (andthen (brelse from)
     (brelse to)))))))))"

definition write_log :: "(unit, 'z lst_scheme) kop" where
  "write_log = bnd (fetch l_n) (\<lambda>n. for_each [0..<nat n] write_log_one)"

definition commit :: "(unit, 'z lst_scheme) kop" where
  "commit = bnd (fetch l_n) (\<lambda>n. whenk (n > 0)
     (andthen write_log
     (andthen write_head
     (andthen install_trans
     (andthen (modify (\<lambda>s. s\<lparr>l_n := 0\<rparr>))
     write_head)))))"

text \<open>\<^verbatim>\<open>end_op\<close> in its two critical sections, with \<^verbatim>\<open>commit\<close> between them, outside the lock.\<close>

definition end_op_leave :: "(bool, 'z lst_scheme) kop" where
  "end_op_leave =
     andthen (acquire LogLock)
     (andthen (modify (\<lambda>s. s\<lparr>l_outstanding := l_outstanding s - 1\<rparr>))
     (bnd (fetch l_committing) (\<lambda>c. if c then panic ''log.committing'' else
     bnd (fetch l_outstanding) (\<lambda>out.
     if out = 0 then andthen (modify (\<lambda>s. s\<lparr>l_committing := True\<rparr>)) (andthen (release LogLock) (ret True))
     else andthen (wakeup ChLog) (andthen (release LogLock) (ret False))))))"

definition end_op_done :: "(unit, 'z lst_scheme) kop" where
  "end_op_done =
     andthen (acquire LogLock)
     (andthen (modify (\<lambda>s. s\<lparr>l_committing := False\<rparr>))
     (andthen (wakeup ChLog)
     (release LogLock)))"

definition end_op :: "(unit, 'z lst_scheme) kop" where
  "end_op = bnd end_op_leave (\<lambda>do_commit. whenk do_commit (andthen commit end_op_done))"

definition log_write :: "nat \<Rightarrow> (unit, 'z lst_scheme) kop" where
  "log_write b =
     bnd (fetch l_n) (\<lambda>n. bnd (fetch l_size) (\<lambda>sz.
     if n \<ge> int LOGSIZE \<or> n \<ge> sz - 1 then panic ''too big a transaction'' else
     bnd (fetch l_outstanding) (\<lambda>out. if out < 1 then panic ''log_write outside of trans'' else
     andthen (acquire LogLock)
     (bnd (buf_get b b_blockno) (\<lambda>bn. bnd (fetch (\<lambda>s. find_idx (\<lambda>x. x = bn) (take (nat (l_n s)) (l_block s)))) (\<lambda>r.
     bnd (fetch l_n) (\<lambda>n. let i = (case r of Some i \<Rightarrow> i | None \<Rightarrow> nat n) in
     andthen (lh_set_block i bn)
     (andthen (whenk (int i = n) (modify (\<lambda>s. s\<lparr>l_n := l_n s + 1\<rparr>)))
     (andthen (buf_upd b (\<lambda>p. p\<lparr>b_flags := b_flags p OR B_DIRTY\<rparr>))
     (release LogLock))))))))))"

text \<open>The log of a freshly booted kernel: static storage is zeroed.\<close>

definition lst0 :: "(u32 \<Rightarrow> block) \<Rightarrow> u32 \<Rightarrow> lst" where
  "lst0 disk sz = bst.extend (bst0 disk sz)
     \<lparr>l_start = 0, l_size = 0, l_outstanding = 0, l_committing = False, l_dev = 0, l_n = 0,
      l_block = replicate LOGSIZE 0\<rparr>"

section \<open>Lemmas\<close>

lemma bframe_log:
  assumes "bframe s t"
  shows "l_start t = l_start s" "l_size t = l_size s" "l_outstanding t = l_outstanding s"
    "l_committing t = l_committing s" "l_dev t = l_dev s" "l_n t = l_n s" "l_block t = l_block s"
proof -
  have t: "t = s\<lparr>k_procs := k_procs t, b_buf := b_buf t, d_disk := d_disk t, d_writes := d_writes t\<rparr>"
    using assms by (simp add: bframe_def)
  show "l_start t = l_start s" "l_size t = l_size s" "l_outstanding t = l_outstanding s"
    "l_committing t = l_committing s" "l_dev t = l_dev s" "l_n t = l_n s" "l_block t = l_block s"
    by (subst t, simp)+
qed

lemma Ok_bnd: "m s = Ok x t \<Longrightarrow> bnd m k s = k x t"
  by (simp add: bnd_def)

lemma Ok_andthen: "m s = Ok x t \<Longrightarrow> andthen m k s = k t"
  by (simp add: andthen_def bnd_def)

lemmas Ok_simps = Ok_bnd [OF fetch_def] Ok_andthen [OF modify_def] Ok_bnd [OF ret_def]

subsection \<open>Copying a block through two buffers\<close>

lemma copy_use:
  assumes inv: "using_bufs s H" and a: "a \<in> H" "has_block (b_buf s a) S" and c: "c \<in> H" "has_block (b_buf s c) T"
    and ne: "S \<noteq> T" and T: "T < d_size s" and co: "S \<in> dset s \<or> b_data (b_buf s a) = d_disk s S"
  shows "\<exists>t. bnd (buf_get a b_data) (\<lambda>d. andthen (buf_upd c (\<lambda>p. p\<lparr>b_data := d\<rparr>))
       (andthen (bwrite c) (andthen (brelse a) (brelse c)))) s = Ok () t
     \<and> using_bufs t (H - {a, c}) \<and> bview t = (bview s)(T := b_data (b_buf s a)) \<and> dset t = dset s - {T}
     \<and> d_disk t = (d_disk s)(T := b_data (b_buf s a))
     \<and> d_writes t = d_writes s @ [(T, b_data (b_buf s a))] \<and> bframe s t"
proof -
  let ?x = "b_data (b_buf s a)"
  have ac: "a \<noteq> c" using a c ne has_block_fun by blast
  obtain u where u: "bwrite c (s\<lparr>b_buf := (b_buf s)(c := (b_buf s c)\<lparr>b_data := ?x\<rparr>)\<rparr>) = Ok () u"
    "using_bufs u H" "has_block (b_buf u c) T" "b_data (b_buf u c) = ?x" "bview u = (bview s)(T := ?x)"
    "dset u = dset s - {T}" "d_disk u = (d_disk s)(T := ?x)" "d_writes u = d_writes s @ [(T, ?x)]"
    "bframe s u" "\<And>j. j \<noteq> c \<Longrightarrow> b_buf u j = b_buf s j"
    using bwrite_use [OF inv c T refl] by blast
  have "has_block (b_buf u a) S" "S \<in> dset u \<or> b_data (b_buf u a) = d_disk u S"
    using u(6,7) u(10) [of a] ac a(2) ne co by auto
  then obtain v where v: "brelse a u = Ok () v" "using_bufs v (H - {a})" "bview v = bview u" "dset v = dset u"
    "d_disk v = d_disk u" "d_writes v = d_writes u" "bframe u v" "bcore (b_buf v c) = bcore (b_buf u c)"
    using brelse_use [OF u(2) a(1)] ac by metis
  have "has_block (b_buf v c) T" "b_data (b_buf v c) = d_disk v T"
    using bcore_eqD [OF v(8)] u(3,4,7) v(5) by auto
  moreover have "c \<in> H - {a}" using c ac by auto
  ultimately obtain t where t: "brelse c v = Ok () t" "using_bufs t (H - {a} - {c})" "bview t = bview v"
    "dset t = dset v" "d_disk t = d_disk v" "d_writes t = d_writes v" "bframe v t"
    using brelse_use [OF v(2)] by metis
  have "H - {a} - {c} = H - {a, c}" by auto
  then show ?thesis
    using u v t bframe_trans [OF bframe_trans [OF u(9) v(7)] t(7)]
    by (intro exI [of _ t]) (simp add: buf_get_def buf_upd_def fetch_def modify_def andthen_def bnd_def)
qed

text \<open>One turn of the loops of \<^verbatim>\<open>install_trans\<close> and \<^verbatim>\<open>write_log\<close>.\<close>

definition lentry :: "'z lst_scheme \<Rightarrow> nat \<Rightarrow> bool" where
  "lentry s i \<longleftrightarrow> l_dev s = 1 \<and> i < length (l_block s) \<and> l_start s + of_nat i + 1 < d_size s
     \<and> l_block s ! i < d_size s \<and> l_start s + of_nat i + 1 \<noteq> l_block s ! i
     \<and> l_start s + of_nat i + 1 \<notin> dset s"

lemma two_breads:
  assumes inv: "using_bufs s {}" and e: "lentry s i"
    and free: "card (dset s) < NBUF" "l_block s ! i \<in> dset s \<or> card (dset s) + 1 < NBUF"
  shows "\<exists>a u b t. bread 1 (l_start s + of_nat i + 1) s = Ok a u \<and> bread 1 (l_block s ! i) u = Ok b t \<and> a \<noteq> b
     \<and> using_bufs t {a, b} \<and> has_block (b_buf t a) (l_start s + of_nat i + 1)
     \<and> has_block (b_buf t b) (l_block s ! i)
     \<and> b_data (b_buf t a) = bview s (l_start s + of_nat i + 1) \<and> b_data (b_buf t b) = bview s (l_block s ! i)
     \<and> bview t = bview s \<and> dset t = dset s \<and> d_disk t = d_disk s \<and> d_writes t = d_writes s
     \<and> bframe s u \<and> bframe s t"
proof -
  let ?L = "l_start s + of_nat i + 1" and ?B = "l_block s ! i"
  have E: "?L < d_size s" "?B < d_size s" "?L \<noteq> ?B" using e by (simp_all add: lentry_def)
  obtain a u where u: "bread 1 ?L s = Ok a u" "using_bufs u {a}" "has_block (b_buf u a) ?L"
    "b_data (b_buf u a) = bview s ?L" "bview u = bview s" "dset u = dset s" "d_disk u = d_disk s"
    "d_writes u = d_writes s" "bframe s u"
    using bread_use [OF inv E(1)] free by auto
  have "?B < d_size u" "\<And>i. i \<in> {a} \<Longrightarrow> \<not> has_block (b_buf u i) ?B"
    "?B \<in> dset u \<or> card (dset u) + card {a} < NBUF"
    using bframeD [OF u(9)] E u(3,6) free(2) has_block_fun by auto
  then obtain b t where t: "bread 1 ?B u = Ok b t" "b \<notin> {a}" "using_bufs t (insert b {a})" "has_block (b_buf t b) ?B"
    "b_data (b_buf t b) = bview u ?B" "bview t = bview u" "dset t = dset u" "d_disk t = d_disk u"
    "d_writes t = d_writes u" "bframe u t" "b_buf t a = b_buf u a"
    using bread_use [OF u(2)] by (metis singletonI)
  then show ?thesis
    using u bframe_trans [OF u(9) t(10)] by (intro exI [of _ a] exI [of _ u] exI [of _ b] exI [of _ t]) (auto simp: insert_commute)
qed

lemma lh_block_Ok: "i < length (l_block s) \<Longrightarrow> lh_block i s = Ok (l_block s ! i) s"
  by (simp add: lh_block_def kdefs)

lemma install_one_use:
  assumes inv: "using_bufs s {}" and e: "lentry s i"
    and free: "card (dset s) < NBUF" "l_block s ! i \<in> dset s \<or> card (dset s) + 1 < NBUF"
  defines "B \<equiv> l_block s ! i" and "x \<equiv> bview s (l_start s + of_nat i + 1)"
  shows "\<exists>t. install_one i s = Ok () t \<and> using_bufs t {} \<and> bview t = (bview s)(B := x)
     \<and> dset t = dset s - {B} \<and> d_disk t = (d_disk s)(B := x) \<and> d_writes t = d_writes s @ [(B, x)] \<and> bframe s t"
proof -
  let ?L = "l_start s + of_nat i + 1"
  have E: "l_dev s = 1" "i < length (l_block s)" "?L \<noteq> B" "B < d_size s" "?L \<notin> dset s"
    using e by (simp_all add: lentry_def B_def)
  obtain a u b t where t: "bread 1 ?L s = Ok a u" "bread 1 B u = Ok b t" "a \<noteq> b" "using_bufs t {a, b}"
    "has_block (b_buf t a) ?L" "has_block (b_buf t b) B" "b_data (b_buf t a) = x"
    "bview t = bview s" "dset t = dset s" "d_disk t = d_disk s" "d_writes t = d_writes s" "bframe s u" "bframe s t"
    using two_breads [OF inv e free] unfolding B_def x_def by blast
  have "bview s ?L = d_disk s ?L" by (rule bview_clean [OF inv E(5)]) simp
  then have co: "b_data (b_buf t a) = d_disk t ?L" using t(7,10) by (simp add: x_def)
  have "B < d_size t" using E(4) bframeD [OF t(13)] by simp
  from copy_use [OF t(4) _ t(5) _ t(6) E(3) this disjI2 [OF co]] t
  obtain v where v: "bnd (buf_get a b_data) (\<lambda>d. andthen (buf_upd b (\<lambda>p. p\<lparr>b_data := d\<rparr>))
       (andthen (bwrite b) (andthen (brelse a) (brelse b)))) t = Ok () v"
    "using_bufs v {}" "bview v = (bview s)(B := x)" "dset v = dset s - {B}" "d_disk v = (d_disk s)(B := x)"
    "d_writes v = d_writes s @ [(B, x)]" "bframe t v" by auto
  have "lh_block i u = Ok B u" using lh_block_Ok [of i u] E(2) bframe_log(7) [OF t(12)] by (simp add: B_def)
  then have "install_one i s = Ok () v"
    using v(1) t(1,2) E(1) by (simp add: install_one_def Ok_simps Ok_bnd)
  then show ?thesis using v bframe_trans [OF t(13) v(7)] by blast
qed

lemma write_log_one_use:
  assumes inv: "using_bufs s {}" and e: "lentry s i"
    and free: "card (dset s) < NBUF" "l_block s ! i \<in> dset s \<or> card (dset s) + 1 < NBUF"
  defines "L \<equiv> l_start s + of_nat i + 1" and "x \<equiv> bview s (l_block s ! i)"
  shows "\<exists>t. write_log_one i s = Ok () t \<and> using_bufs t {} \<and> bview t = (bview s)(L := x)
     \<and> dset t = dset s \<and> d_disk t = (d_disk s)(L := x) \<and> d_writes t = d_writes s @ [(L, x)] \<and> bframe s t"
proof -
  let ?B = "l_block s ! i"
  have E: "l_dev s = 1" "i < length (l_block s)" "L \<noteq> ?B" "L < d_size s" "L \<notin> dset s"
    using e by (simp_all add: lentry_def L_def)
  obtain a u b t where t: "bread 1 L s = Ok a u" "bread 1 ?B u = Ok b t" "a \<noteq> b" "using_bufs t {a, b}"
    "has_block (b_buf t a) L" "has_block (b_buf t b) ?B" "b_data (b_buf t b) = x"
    "bview t = bview s" "dset t = dset s" "d_disk t = d_disk s" "d_writes t = d_writes s" "bframe s u" "bframe s t"
    using two_breads [OF inv e free] unfolding L_def x_def by blast
  have co: "?B \<in> dset t \<or> b_data (b_buf t b) = d_disk t ?B"
  proof (cases "?B \<in> dset s")
    case False
    have "bview s ?B = d_disk s ?B" by (rule bview_clean [OF inv False]) simp
    then show ?thesis using t(7,10) by (simp add: x_def)
  qed (simp add: t(9))
  have "L < d_size t" using E(4) bframeD [OF t(13)] by simp
  from copy_use [OF t(4) _ t(6) _ t(5) E(3) [symmetric] this co] t E(5)
  obtain v where v: "bnd (buf_get b b_data) (\<lambda>d. andthen (buf_upd a (\<lambda>p. p\<lparr>b_data := d\<rparr>))
       (andthen (bwrite a) (andthen (brelse b) (brelse a)))) t = Ok () v"
    "using_bufs v {}" "bview v = (bview s)(L := x)" "dset v = dset s" "d_disk v = (d_disk s)(L := x)"
    "d_writes v = d_writes s @ [(L, x)]" "bframe t v" by auto
  have "lh_block i u = Ok ?B u" using lh_block_Ok [of i u] E(2) bframe_log(7) [OF t(12)] by simp
  then have "write_log_one i s = Ok () v"
    using v(1) t(1,2) E(1) by (simp add: write_log_one_def Ok_simps Ok_bnd L_def)
  then show ?thesis using v bframe_trans [OF t(13) v(7)] by blast
qed

subsection \<open>The header block\<close>

text \<open>The header block after \<^verbatim>\<open>write_head\<close>: a header with the given entries over the old bytes.\<close>

definition hdr_encode :: "block \<Rightarrow> int \<Rightarrow> u32 list \<Rightarrow> block" where
  "hdr_encode d n bs = store_array (store32 d 0 (word_of_int n)) 4 (take (nat n) bs)"

lemma LOGSIZE_30 [simp]: "LOGSIZE = 30" and NBUF_30 [simp]: "NBUF = 30"
  by (simp_all add: LOGSIZE_def NBUF_def MAXOPBLOCKS_def)

lemma hdr_n_encode: "0 \<le> n \<Longrightarrow> n \<le> 30 \<Longrightarrow> hdr_n (hdr_encode d n bs) = n"
  by (simp add: hdr_n_def hdr_encode_def store_array_before sint_small)

lemma hdr_block_encode:
  assumes "i < nat n" "nat n \<le> length bs"
  shows "hdr_block (hdr_encode d n bs) i = bs ! i"
proof -
  let ?vs = "take (nat n) bs" and ?m = "store32 d 0 (word_of_int n)"
  have l: "length ?vs = nat n" using assms by simp
  have "load_array (store_array ?m 4 ?vs) 4 (length ?vs) ! i = ?vs ! i" by (simp only: load_store_array)
  then show ?thesis using assms l by (simp add: hdr_block_def hdr_encode_def)
qed

lemma store_head_loop:
  assumes "k \<le> length (l_block s)" "b_data (b_buf s b) = x"
  shows "for_each [0..<k] (\<lambda>i. bnd (lh_block i) (\<lambda>v.
        buf_upd b (\<lambda>p. p\<lparr>b_data := store32 (b_data p) (4 + 4 * i) v\<rparr>))) s
     = Ok () (s\<lparr>b_buf := (b_buf s)(b := (b_buf s b)\<lparr>b_data := store_array x 4 (take k (l_block s))\<rparr>)\<rparr>)"
proof -
  let ?t = "\<lambda>j. s\<lparr>b_buf := (b_buf s)(b := (b_buf s b)\<lparr>b_data := store_array x 4 (take j (l_block s))\<rparr>)\<rparr>"
  let ?f = "\<lambda>i. bnd (lh_block i) (\<lambda>v. buf_upd b (\<lambda>p. p\<lparr>b_data := store32 (b_data p) (4 + 4 * i) v\<rparr>))"
  have body: "?f j (?t j) = Ok () (?t (Suc j))" if "j < k" for j
    using that assms
    by (simp add: bnd_def lh_block_def fetch_def ret_def buf_upd_def modify_def take_Suc_conv_app_nth store_array_snoc)
  have "wp (for_each [0..<k] ?f) (\<lambda>_ t. t = ?t (length [0..<k])) s"
  proof (rule wp_for_each [where I = "\<lambda>ds t. t = ?t (length ds)"])
    fix ds i rest t
    assume e: "[0..<k] = ds @ i # rest" and t: "t = ?t (length ds)"
    have "length ds < k" using arg_cong [OF e, of length] by simp
    moreover have "i = length ds"
      using arg_cong [OF e, of "\<lambda>xs. xs ! length ds"] \<open>length ds < k\<close> by simp
    ultimately show "wp (?f i) (\<lambda>_ t. t = ?t (length (ds @ [i]))) t" using body [of i] t by (simp add: wp_def)
  qed (use assms(2) in auto)
  then show ?thesis by (simp add: wp_iff)
qed

lemma write_head_use:
  assumes inv: "using_bufs s {}" and st: "l_dev s = 1" "l_start s < d_size s" "l_start s \<notin> dset s"
    and n: "0 \<le> l_n s" "l_n s \<le> int (length (l_block s))" and free: "card (dset s) < NBUF"
  defines "x \<equiv> hdr_encode (bview s (l_start s)) (l_n s) (l_block s)"
  shows "\<exists>t. write_head s = Ok () t \<and> using_bufs t {} \<and> bview t = (bview s)(l_start s := x)
     \<and> dset t = dset s \<and> d_disk t = (d_disk s)(l_start s := x)
     \<and> d_writes t = d_writes s @ [(l_start s, x)] \<and> bframe s t"
proof -
  obtain b u where u: "bread 1 (l_start s) s = Ok b u" "using_bufs u {b}" "has_block (b_buf u b) (l_start s)"
    "b_data (b_buf u b) = bview s (l_start s)" "bview u = bview s" "dset u = dset s" "d_disk u = d_disk s"
    "d_writes u = d_writes s" "bframe s u"
    using bread_use [OF inv st(2)] free by auto
  have lb: "l_block u = l_block s" "l_n u = l_n s" "d_size u = d_size s"
    using bframe_log [OF u(9)] bframeD [OF u(9)] by auto
  let ?v = "u\<lparr>b_buf := (b_buf u)(b := (b_buf u b)\<lparr>b_data := x\<rparr>)\<rparr>"
  let ?w = "u\<lparr>b_buf := (b_buf u)(b := (b_buf u b)\<lparr>b_data := store32 (b_data (b_buf u b)) 0 (word_of_int (l_n s))\<rparr>)\<rparr>"
  have loop: "for_each [0..<nat (l_n s)] (\<lambda>i. bnd (lh_block i) (\<lambda>v.
        buf_upd b (\<lambda>p. p\<lparr>b_data := store32 (b_data p) (4 + 4 * i) v\<rparr>))) ?w = Ok () ?v"
    using store_head_loop [of "nat (l_n s)" ?w b] n lb u(4) by (simp add: x_def hdr_encode_def)
  have "l_start s < d_size u" using st lb by simp
  from bwrite_use [OF u(2) _ u(3) this refl, of x] obtain v where v: "bwrite b ?v = Ok () v"
    "using_bufs v {b}" "has_block (b_buf v b) (l_start s)" "b_data (b_buf v b) = x"
    "bview v = (bview u)(l_start s := x)" "dset v = dset u - {l_start s}" "d_disk v = (d_disk u)(l_start s := x)"
    "d_writes v = d_writes u @ [(l_start s, x)]" "bframe u v" by blast
  have "b_data (b_buf v b) = d_disk v (l_start s)" using v(4,7) by simp
  then obtain t where t: "brelse b v = Ok () t" "using_bufs t ({b} - {b})" "bview t = bview v" "dset t = dset v"
    "d_disk t = d_disk v" "d_writes t = d_writes v" "bframe v t"
    using brelse_use [OF v(2) _ v(3)] by blast
  have "write_head s = Ok () t"
    using u(1) st(1) lb loop v(1) t(1)
    by (simp add: write_head_def bnd_def andthen_def fetch_def buf_upd_def modify_def)
  then show ?thesis
    using t v u st(3) bframe_trans [OF bframe_trans [OF u(9) v(9)] t(7)] by auto
qed

lemma log_upd_cong [simp]:
  "using_bufs (s\<lparr>l_n := n\<rparr>) H = using_bufs s H" "bview (s\<lparr>l_n := n\<rparr>) = bview s" "dset (s\<lparr>l_n := n\<rparr>) = dset s"
  "using_bufs (s\<lparr>l_block := bs\<rparr>) H = using_bufs s H" "bview (s\<lparr>l_block := bs\<rparr>) = bview s"
  "dset (s\<lparr>l_block := bs\<rparr>) = dset s"
  by (rule cache_cong; simp)+

lemma bframe_upd: "bframe s t \<Longrightarrow> bframe (s\<lparr>l_n := n, l_block := bs\<rparr>) (t\<lparr>l_n := n, l_block := bs\<rparr>)"
proof -
  assume "bframe s t"
  then have t: "t = s\<lparr>k_procs := k_procs t, b_buf := b_buf t, d_disk := d_disk t, d_writes := d_writes t\<rparr>"
    by (simp add: bframe_def)
  show "bframe (s\<lparr>l_n := n, l_block := bs\<rparr>) (t\<lparr>l_n := n, l_block := bs\<rparr>)"
    unfolding bframe_def by (subst t) simp
qed

lemma lh_set_loop:
  assumes "k \<le> length (l_block s)"
  shows "for_each [0..<k] (\<lambda>i. lh_set_block i (f i)) s
     = Ok () (s\<lparr>l_block := map f [0..<k] @ drop k (l_block s)\<rparr>)"
  using assms
proof (induction k arbitrary: s)
  case 0
  then show ?case by (simp add: ret_def)
next
  case (Suc k)
  have app: "for_each (xs @ [y]) g s = andthen (for_each xs g) (g y) s" for xs y g and s :: "'a lst_scheme"
    by (induction xs arbitrary: s) (auto simp: andthen_def bnd_def ret_def split: outcome.split)
  have "(map f [0..<k] @ drop k (l_block s))[k := f k] = map f [0..<k] @ f k # drop (Suc k) (l_block s)"
    using Suc.prems by (simp add: list_update_append Cons_nth_drop_Suc [symmetric])
  then show ?case
    using Suc.prems Suc.IH [of s] by (simp add: app andthen_def lh_set_block_def bnd_def fetch_def modify_def)
qed

lemma read_head_use:
  assumes inv: "using_bufs s {}" and st: "l_dev s = 1" "l_start s < d_size s"
    and clean: "l_start s \<notin> dset s" and free: "card (dset s) < NBUF"
  defines "d \<equiv> d_disk s (l_start s)"
  assumes n: "hdr_n d \<le> int (length (l_block s))"
  shows "\<exists>t. read_head s = Ok () t \<and> using_bufs t {} \<and> bview t = bview s \<and> dset t = dset s
     \<and> d_disk t = d_disk s \<and> d_writes t = d_writes s
     \<and> bframe (s\<lparr>l_n := hdr_n d, l_block := map (hdr_block d) [0..<nat (hdr_n d)] @ drop (nat (hdr_n d)) (l_block s)\<rparr>) t"
proof -
  obtain b u where u: "bread 1 (l_start s) s = Ok b u" "using_bufs u {b}" "has_block (b_buf u b) (l_start s)"
    "b_data (b_buf u b) = bview s (l_start s)" "bview u = bview s" "dset u = dset s" "d_disk u = d_disk s"
    "d_writes u = d_writes s" "bframe s u"
    using bread_use [OF inv st(2)] free by auto
  have v: "bview s (l_start s) = d" unfolding d_def by (rule bview_clean [OF inv clean]) simp
  let ?bs = "map (hdr_block d) [0..<nat (hdr_n d)] @ drop (nat (hdr_n d)) (l_block s)"
  let ?u = "u\<lparr>l_n := hdr_n d, l_block := ?bs\<rparr>"
  have lb: "l_block u = l_block s" using bframe_log [OF u(9)] by simp
  have loop: "for_each [0..<nat (hdr_n d)] (\<lambda>i. lh_set_block i (hdr_block d i)) (u\<lparr>l_n := hdr_n d\<rparr>) = Ok () ?u"
    using lh_set_loop [of "nat (hdr_n d)" "u\<lparr>l_n := hdr_n d\<rparr>" "hdr_block d"] n lb by simp
  have "using_bufs ?u {b}" "has_block (b_buf ?u b) (l_start s)" "b_data (b_buf ?u b) = d_disk ?u (l_start s)"
    using u v by (simp_all add: d_def)
  then obtain t where t: "brelse b ?u = Ok () t" "using_bufs t ({b} - {b})" "bview t = bview ?u" "dset t = dset ?u"
    "d_disk t = d_disk ?u" "d_writes t = d_writes ?u" "bframe ?u t"
    using brelse_use [of ?u "{b}" b] by blast
  have "read_head s = Ok () t"
    using u(1,4) st(1) v loop t(1) by (simp add: read_head_def bnd_def andthen_def fetch_def buf_get_def modify_def)
  then show ?thesis
    using t u bframe_trans [OF bframe_upd [OF u(9)] t(7)] by auto
qed

subsection \<open>Sequences of disk writes\<close>

definition apply_writes :: "(u32 \<Rightarrow> block) \<Rightarrow> (u32 \<times> block) list \<Rightarrow> u32 \<Rightarrow> block" where
  "apply_writes D ws = foldl (\<lambda>D w. D(fst w := snd w)) D ws"

lemma apply_writes_simps [simp]:
  "apply_writes D [] = D" "apply_writes D (w # ws) = apply_writes (D(fst w := snd w)) ws"
  "apply_writes D (us @ ws) = apply_writes (apply_writes D us) ws"
  by (simp_all add: apply_writes_def)

lemma apply_writes_other: "b \<notin> fst ` set ws \<Longrightarrow> apply_writes D ws b = D b"
  by (induction ws arbitrary: D) auto

text \<open>Writes that agree with a target: the block ends as in the target if it was written at all.\<close>

lemma apply_writes_target:
  assumes "\<forall>w\<in>set ws. snd w = V (fst w)"
  shows "apply_writes D ws b = (if b \<in> fst ` set ws then V b else D b)"
  using assms by (induction ws arbitrary: D) auto

subsection \<open>Loops of commit and recovery\<close>

abbreviation lpos :: "'z lst_scheme \<Rightarrow> nat \<Rightarrow> u32" where
  "lpos s i \<equiv> l_start s + of_nat i + 1"

definition logarea :: "'z lst_scheme \<Rightarrow> u32 set" where
  "logarea s = {b. unat (l_start s) \<le> unat b \<and> unat b < unat (l_start s) + nat (l_size s)}"

text \<open>
  The log is laid out as the superblock says: the header and the log blocks are on the disk, every
  home block is on the disk and outside the log.
\<close>

definition log_geom :: "'z lst_scheme \<Rightarrow> bool" where
  "log_geom s \<longleftrightarrow> l_dev s = 1 \<and> length (l_block s) = LOGSIZE \<and> 0 \<le> l_n s \<and> l_n s < l_size s
     \<and> l_n s \<le> int LOGSIZE \<and> unat (l_start s) + nat (l_size s) \<le> unat (d_size s)
     \<and> (\<forall>i<nat (l_n s). l_block s ! i < d_size s \<and> l_block s ! i \<notin> logarea s)"

lemma log_geomD:
  assumes "log_geom s"
  shows "l_dev s = 1" "length (l_block s) = LOGSIZE" "0 \<le> l_n s" "l_n s \<le> int (length (l_block s))"
    "l_start s < d_size s" "l_start s \<in> logarea s"
    "i < nat (l_n s) \<Longrightarrow> i < length (l_block s)"
    "i < nat (l_n s) \<Longrightarrow> l_block s ! i < d_size s \<and> l_block s ! i \<notin> logarea s"
    "i < nat (l_n s) \<Longrightarrow> unat (lpos s i) = unat (l_start s) + i + 1"
    "i < nat (l_n s) \<Longrightarrow> lpos s i < d_size s" "i < nat (l_n s) \<Longrightarrow> lpos s i \<in> logarea s"
    "i < nat (l_n s) \<Longrightarrow> lpos s i \<noteq> l_start s" "i < nat (l_n s) \<Longrightarrow> lpos s i \<noteq> l_block s ! j \<or> nat (l_n s) \<le> j"
proof -
  show a: "l_dev s = 1" "length (l_block s) = LOGSIZE" "0 \<le> l_n s" "l_n s \<le> int (length (l_block s))"
    "l_start s < d_size s" "l_start s \<in> logarea s"
    "i < nat (l_n s) \<Longrightarrow> i < length (l_block s)"
    "i < nat (l_n s) \<Longrightarrow> l_block s ! i < d_size s \<and> l_block s ! i \<notin> logarea s"
    using assms by (auto simp: log_geom_def logarea_def unat_lt_iff)
  show u: "unat (lpos s i) = unat (l_start s) + i + 1" if "i < nat (l_n s)"
  proof -
    have b: "unat (l_start s) + i + 1 < 2 ^ 32"
      using that assms unsigned_less [of "d_size s", where 'a = nat] nat_less_eq_zless [OF a(3), of "l_size s"]
      by (auto simp: log_geom_def)
    then have "unat (of_nat i :: u32) = i" by (simp add: unat_of_nat)
    then show ?thesis using b by (simp add: unat_word_ariths)
  qed
  show x: "i < nat (l_n s) \<Longrightarrow> lpos s i < d_size s" "i < nat (l_n s) \<Longrightarrow> lpos s i \<in> logarea s"
    using u assms by (auto simp: log_geom_def logarea_def unat_lt_iff)
  show "lpos s i \<noteq> l_start s" if "i < nat (l_n s)"
    using arg_cong [of "lpos s i" "l_start s" unat] u [OF that] by linarith
  show "i < nat (l_n s) \<Longrightarrow> lpos s i \<noteq> l_block s ! j \<or> nat (l_n s) \<le> j"
    using x(2) assms unfolding log_geom_def by (metis not_le)
qed

lemma log_geom_bframe: "bframe s t \<Longrightarrow> log_geom t = log_geom s" "bframe s t \<Longrightarrow> logarea t = logarea s"
  by (simp_all add: log_geom_def logarea_def bframe_log bframeD(3))

lemma lentry_at:
  assumes g: "log_geom s" and f: "bframe s t" and i: "i < nat (l_n s)" and c: "dset t \<inter> logarea s = {}"
  shows "lentry t i"
proof -
  note G = log_geomD [OF g]
  have "lpos s i \<noteq> l_block s ! i" using G(13) [OF i, of i] i by simp
  then show ?thesis
    using G(1) G(7,8,10,11) [OF i] c by (auto simp: lentry_def bframe_log [OF f] bframeD [OF f])
qed

lemma upt_split:
  assumes "[0..<k] = ds @ i # rest"
  shows "i < k" "i = length ds" "ds = [0..<i]"
proof -
  have l: "length ds < k" using arg_cong [OF assms, of length] by simp
  show "i = length ds" using arg_cong [OF assms, of "\<lambda>xs. xs ! length ds"] l by simp
  then show "i < k" "ds = [0..<i]" using l arg_cong [OF assms, of "take (length ds)"] by (simp_all add: take_upt)
qed

definition log_copies :: "'z lst_scheme \<Rightarrow> nat \<Rightarrow> (u32 \<times> block) list" where
  "log_copies s k = map (\<lambda>i. (lpos s i, bview s (l_block s ! i))) [0..<k]"

definition home_copies :: "'z lst_scheme \<Rightarrow> nat \<Rightarrow> (u32 \<times> block) list" where
  "home_copies s k = map (\<lambda>i. (l_block s ! i, bview s (lpos s i))) [0..<k]"

text \<open>What one of the loops has done after the writes \<open>ws\<close>.\<close>

definition wrote :: "'z lst_scheme \<Rightarrow> (u32 \<times> block) list \<Rightarrow> u32 set \<Rightarrow> 'z lst_scheme \<Rightarrow> bool" where
  "wrote s ws dd t \<longleftrightarrow> using_bufs t {} \<and> bview t = apply_writes (bview s) ws \<and> dset t = dd
     \<and> d_disk t = apply_writes (d_disk s) ws \<and> d_writes t = d_writes s @ ws \<and> bframe s t"

lemma write_log_use:
  assumes inv: "using_bufs s {}" and g: "log_geom s" and clean: "dset s \<inter> logarea s = {}"
    and homes: "set (take (nat (l_n s)) (l_block s)) \<subseteq> dset s" and free: "card (dset s) < NBUF"
  shows "\<exists>t. write_log s = Ok () t \<and> wrote s (log_copies s (nat (l_n s))) (dset s) t"
proof -
  let ?n = "nat (l_n s)" and ?I = "\<lambda>ds t. wrote s (log_copies s (length ds)) (dset s) t"
  note G = log_geomD [OF g]
  have "wp (for_each [0..<?n] write_log_one) (\<lambda>_. ?I [0..<?n]) s"
  proof (rule wp_for_each [where I = ?I])
    show "?I [] s" using inv by (simp add: wrote_def log_copies_def)
  next
    fix ds i rest t
    assume e: "[0..<?n] = ds @ i # rest" and I: "?I ds t"
    note i = upt_split [OF e]
    have t: "using_bufs t {}" "dset t = dset s" "bframe s t" "bview t = apply_writes (bview s) (log_copies s i)"
      "d_disk t = apply_writes (d_disk s) (log_copies s i)" "d_writes t = d_writes s @ log_copies s i"
      using I unfolding i(2) [symmetric] wrote_def by simp_all
    have len: "l_block s ! i \<in> dset s"
      using homes i(1) G(7) by (auto simp: in_set_conv_nth subset_iff intro!: exI [of _ i])
    have le: "lentry t i"
      by (rule lentry_at [OF g t(3) i(1)]) (use clean t(2) in auto)
    have vb: "bview t (l_block t ! i) = bview s (l_block s ! i)"
      unfolding t(4) bframe_log(7) [OF t(3)]
      by (rule apply_writes_other) (use G(8) [OF i(1)] G(11) i(1) in \<open>auto simp: log_copies_def\<close>)
    obtain u where u: "write_log_one i t = Ok () u" "using_bufs u {}" "dset u = dset t" "bframe t u"
      "bview u = (bview t)(lpos s i := bview s (l_block s ! i))"
      "d_disk u = (d_disk t)(lpos s i := bview s (l_block s ! i))"
      "d_writes u = d_writes t @ [(lpos s i, bview s (l_block s ! i))]"
      using write_log_one_use [OF t(1) le] free len unfolding t(2) bframe_log(1,7) [OF t(3)] vb [unfolded bframe_log(7) [OF t(3)]] by blast
    have "?I (ds @ [i]) u"
      using u t i(2) bframe_trans [OF t(3) u(4)] by (simp add: wrote_def log_copies_def)
    then show "wp (write_log_one i) (\<lambda>_. ?I (ds @ [i])) t" by (rule wp_OkI [of "write_log_one i", OF u(1)])
  qed
  then show ?thesis by (simp add: wp_iff write_log_def bnd_def fetch_def)
qed

lemma install_trans_use:
  assumes inv: "using_bufs s {}" and g: "log_geom s" and clean: "dset s \<inter> logarea s = {}"
    and free: "dset s = {} \<or> distinct (take (nat (l_n s)) (l_block s))
       \<and> set (take (nat (l_n s)) (l_block s)) \<subseteq> dset s \<and> card (dset s) < NBUF"
  shows "\<exists>t. install_trans s = Ok () t
     \<and> wrote s (home_copies s (nat (l_n s))) (dset s - set (take (nat (l_n s)) (l_block s))) t"
proof -
  let ?n = "nat (l_n s)"
  let ?I = "\<lambda>ds t. wrote s (home_copies s (length ds)) (dset s - set (take (length ds) (l_block s))) t"
  note G = log_geomD [OF g]
  have "wp (for_each [0..<?n] install_one) (\<lambda>_. ?I [0..<?n]) s"
  proof (rule wp_for_each [where I = ?I])
    show "?I [] s" using inv by (simp add: wrote_def home_copies_def)
  next
    fix ds i rest t
    assume e: "[0..<?n] = ds @ i # rest" and I: "?I ds t"
    note i = upt_split [OF e]
    let ?dd = "dset s - set (take i (l_block s))"
    have t: "using_bufs t {}" "dset t = ?dd" "bframe s t" "bview t = apply_writes (bview s) (home_copies s i)"
      "d_disk t = apply_writes (d_disk s) (home_copies s i)" "d_writes t = d_writes s @ home_copies s i"
      using I unfolding i(2) [symmetric] wrote_def by simp_all
    have il: "i < length (l_block s)" using G(7) i(1) by simp
    have "card ?dd \<le> card (dset s)" by (rule card_mono) auto
    then have c1: "card (dset t) < NBUF" using free t(2) by auto
    have c2: "l_block t ! i \<in> dset t \<or> card (dset t) + 1 < NBUF"
    proof (cases "dset s = {}")
      case True
      then show ?thesis by (simp add: t(2))
    next
      case False
      then have d: "distinct (take ?n (l_block s))" "set (take ?n (l_block s)) \<subseteq> dset s" using free by auto
      have "distinct (take (Suc i) (l_block s))"
        using d(1) i(1) distinct_take [of "take ?n (l_block s)" "Suc i"] by (simp add: min_absorb1)
      then have "l_block s ! i \<notin> set (take i (l_block s))" by (simp add: take_Suc_conv_app_nth [OF il])
      moreover have "l_block s ! i \<in> set (take ?n (l_block s))"
        using i(1) il by (auto simp: in_set_conv_nth intro!: exI [of _ i])
      ultimately show ?thesis using d(2) unfolding t(2) bframe_log(7) [OF t(3)] by auto
    qed
    have le: "lentry t i"
      by (rule lentry_at [OF g t(3) i(1)]) (use clean t(2) in auto)
    have vb: "bview t (lpos s i) = bview s (lpos s i)"
      unfolding t(4)
      by (rule apply_writes_other) (use G(13) [of i] i(1) in \<open>fastforce simp: home_copies_def\<close>)
    obtain u where u: "install_one i t = Ok () u" "using_bufs u {}" "dset u = dset t - {l_block s ! i}" "bframe t u"
      "bview u = (bview t)(l_block s ! i := bview s (lpos s i))"
      "d_disk u = (d_disk t)(l_block s ! i := bview s (lpos s i))"
      "d_writes u = d_writes t @ [(l_block s ! i, bview s (lpos s i))]"
      using install_one_use [OF t(1) le c1 c2] unfolding bframe_log(1,7) [OF t(3)] vb by blast
    have "dset u = dset s - set (take (Suc i) (l_block s))"
      using u(3) t(2) by (auto simp: take_Suc_conv_app_nth [OF il])
    then have "?I (ds @ [i]) u"
      using u t i(2) bframe_trans [OF t(3) u(4)] by (simp add: wrote_def home_copies_def)
    then show "wp (install_one i) (\<lambda>_. ?I (ds @ [i])) t" by (rule wp_OkI [of "install_one i", OF u(1)])
  qed
  then show ?thesis by (simp add: wp_iff install_trans_def bnd_def fetch_def)
qed

subsection \<open>commit\<close>

definition home_writes :: "'z lst_scheme \<Rightarrow> (u32 \<times> block) list" where
  "home_writes s = map (\<lambda>b. (b, bview s b)) (take (nat (l_n s)) (l_block s))"

definition commit_writes :: "'z lst_scheme \<Rightarrow> (u32 \<times> block) list" where
  "commit_writes s =
     (let h = hdr_encode (bview s (l_start s)) (l_n s) (l_block s)
      in log_copies s (nat (l_n s)) @ [(l_start s, h)] @ home_writes s
         @ [(l_start s, hdr_encode h 0 (l_block s))])"

text \<open>A state in which \<^verbatim>\<open>commit\<close> runs: no buffer in use, the dirty blocks are those in the log header.\<close>

definition ready :: "'z lst_scheme \<Rightarrow> bool" where
  "ready s \<longleftrightarrow> using_bufs s {} \<and> log_geom s \<and> dset s = set (take (nat (l_n s)) (l_block s))
     \<and> distinct (take (nat (l_n s)) (l_block s)) \<and> l_n s < int NBUF"

lemma log_copies_at:
  assumes "log_geom s" "i < nat (l_n s)"
  shows "apply_writes D (log_copies s (nat (l_n s))) (lpos s i) = bview s (l_block s ! i)"
proof -
  let ?V = "\<lambda>b. bview s (l_block s ! (unat b - unat (l_start s) - 1))"
  have u: "unat (lpos s j) = unat (l_start s) + j + 1" if "j < nat (l_n s)" for j
    using log_geomD(9) [OF assms(1) that] .
  have a: "\<forall>w\<in>set (log_copies s (nat (l_n s))). snd w = ?V (fst w)"
    by (auto simp: log_copies_def u)
  have "lpos s i \<in> fst ` set (log_copies s (nat (l_n s)))"
    using assms(2) by (force simp: log_copies_def)
  then show ?thesis using apply_writes_target [OF a, of D "lpos s i"] u [OF assms(2)] by simp
qed

lemma log_copies_fst: "log_geom s \<Longrightarrow> fst ` set (log_copies s (nat (l_n s))) \<subseteq> logarea s - {l_start s}"
  using log_geomD(11,12) by (fastforce simp: log_copies_def)

lemma map_take_nth: "k \<le> length xs \<Longrightarrow> map (\<lambda>i. f (xs ! i)) [0..<k] = map f (take k xs)"
  by (rule nth_equalityI) auto

lemma bframe_n: "bframe s t \<Longrightarrow> bframe (s\<lparr>l_n := n\<rparr>) (t\<lparr>l_n := n\<rparr>)"
proof -
  assume f: "bframe s t"
  have "x\<lparr>l_n := n, l_block := l_block x\<rparr> = x\<lparr>l_n := n\<rparr>" for x :: "'a lst_scheme" by simp
  then show ?thesis using bframe_upd [OF f, where n = n and bs = "l_block s"] bframe_log(7) [OF f] by metis
qed

lemma commit_use:
  assumes r: "ready s" and n: "0 < l_n s"
  shows "\<exists>t. commit s = Ok () t \<and> using_bufs t {} \<and> dset t = {} \<and> bframe (s\<lparr>l_n := 0\<rparr>) t
     \<and> d_writes t = d_writes s @ commit_writes s
     \<and> d_disk t = apply_writes (d_disk s) (commit_writes s)
     \<and> bview t = apply_writes (bview s) (commit_writes s)"
proof -
  let ?n = "nat (l_n s)" and ?bs = "take (nat (l_n s)) (l_block s)"
  have inv: "using_bufs s {}" and g: "log_geom s" and d: "dset s = set ?bs" "distinct ?bs" and nb: "l_n s < int NBUF"
    using r by (simp_all add: ready_def)
  note G = log_geomD [OF g]
  have cl: "dset s \<inter> logarea s = {}" using d(1) G(7,8) by (auto simp: in_set_conv_nth)
  have cd: "card (dset s) < NBUF" using nb n G(4) by (simp add: d distinct_card)
  obtain t1 where t1: "write_log s = Ok () t1" "wrote s (log_copies s ?n) (dset s) t1"
    using write_log_use [OF inv g cl _ cd] d by auto
  have T1: "using_bufs t1 {}" "bview t1 = apply_writes (bview s) (log_copies s ?n)" "dset t1 = dset s"
    "d_disk t1 = apply_writes (d_disk s) (log_copies s ?n)" "d_writes t1 = d_writes s @ log_copies s ?n" "bframe s t1"
    using t1(2) unfolding wrote_def by simp_all
  note L1 = bframe_log [OF T1(6)] bframeD(3) [OF T1(6)]
  let ?h = "hdr_encode (bview s (l_start s)) (l_n s) (l_block s)"
  have v1: "bview t1 (l_start s) = bview s (l_start s)"
    unfolding T1(2) by (rule apply_writes_other) (use log_copies_fst [OF g] in auto)
  obtain t2 where t2: "write_head t1 = Ok () t2" "using_bufs t2 {}" "bview t2 = (bview t1)(l_start s := ?h)"
    "dset t2 = dset t1" "d_disk t2 = (d_disk t1)(l_start s := ?h)" "d_writes t2 = d_writes t1 @ [(l_start s, ?h)]"
    "bframe t1 t2"
    using write_head_use [OF T1(1)] G(1,3,4,5,6) cl cd unfolding L1 T1(3) v1 by auto
  note f2 = bframe_trans [OF T1(6) t2(7)] and L2 = bframe_log [OF bframe_trans [OF T1(6) t2(7)]]
  have g2: "log_geom t2" "logarea t2 = logarea s" using log_geom_bframe [OF f2] g by simp_all
  have ds2: "dset t2 = set ?bs" using t2(4) T1(3) d(1) by simp
  obtain t3 where t3: "install_trans t2 = Ok () t3" "wrote t2 (home_copies t2 ?n) (dset t2 - set ?bs) t3"
    using install_trans_use [OF t2(2) g2(1)] cl cd d unfolding g2 L2 ds2 by auto
  have hc: "home_copies t2 ?n = home_writes s"
  proof -
    have "bview t2 (lpos s i) = bview s (l_block s ! i)" if "i < ?n" for i
      using log_copies_at [OF g that] G(12) [OF that] by (simp add: t2(3) T1(2))
    then have "home_copies t2 ?n = map (\<lambda>i. (\<lambda>b. (b, bview s b)) (l_block s ! i)) [0..<?n]"
      by (simp add: home_copies_def L2)
    also have "\<dots> = home_writes s" unfolding home_writes_def by (rule map_take_nth) (use G(4) in simp)
    finally show ?thesis .
  qed
  have T3: "using_bufs t3 {}" "bview t3 = apply_writes (bview t2) (home_writes s)" "dset t3 = {}"
    "d_disk t3 = apply_writes (d_disk t2) (home_writes s)" "d_writes t3 = d_writes t2 @ home_writes s" "bframe t2 t3"
    using t3(2) unfolding wrote_def hc ds2 by simp_all
  note f3 = bframe_trans [OF f2 T3(6)] and L3 = bframe_log [OF bframe_trans [OF f2 T3(6)]]
  let ?t = "t3\<lparr>l_n := 0\<rparr>"
  have v3: "bview t3 (l_start s) = ?h"
  proof -
    have "l_start s \<notin> fst ` set (home_writes s)"
      using d(1) cl G(6) by (auto simp: home_writes_def)
    then show ?thesis by (simp add: T3(2) apply_writes_other t2(3))
  qed
  have "using_bufs ?t {}" "l_dev ?t = 1" "l_start ?t < d_size ?t" "l_start ?t \<notin> dset ?t" "0 \<le> l_n ?t"
    "l_n ?t \<le> int (length (l_block ?t))" "card (dset ?t) < NBUF"
    using T3(1,3) G(1,5) L3 bframeD(3) [OF f3] by simp_all
  from write_head_use [OF this] obtain t4 where t4: "write_head ?t = Ok () t4" "using_bufs t4 {}"
    "bview t4 = (bview t3)(l_start s := hdr_encode ?h 0 (l_block s))" "dset t4 = {}"
    "d_disk t4 = (d_disk t3)(l_start s := hdr_encode ?h 0 (l_block s))"
    "d_writes t4 = d_writes t3 @ [(l_start s, hdr_encode ?h 0 (l_block s))]" "bframe ?t t4"
    using T3(3) v3 L3 by auto
  have "commit s = Ok () t4"
    using n t1(1) t2(1) t3(1) t4(1) by (simp add: commit_def bnd_def fetch_def whenk_def andthen_def modify_def)
  moreover have "bframe (s\<lparr>l_n := 0\<rparr>) t4" by (rule bframe_trans [OF bframe_n [OF f3] t4(7)])
  ultimately show ?thesis
    using t4 T3 t2(3,5,6) T1 by (intro exI [of _ t4]) (simp add: commit_writes_def Let_def)
qed

subsection \<open>Recovery\<close>

definition log_entries :: "(u32 \<Rightarrow> block) \<Rightarrow> u32 \<Rightarrow> (u32 \<times> block) list" where
  "log_entries D st = map (\<lambda>i. (hdr_block (D st) i, D (st + of_nat i + 1))) [0..<nat (hdr_n (D st))]"

definition recover_writes :: "(u32 \<Rightarrow> block) \<Rightarrow> u32 \<Rightarrow> (u32 \<times> block) list" where
  "recover_writes D st = log_entries D st @ [(st, hdr_encode (D st) 0 [])]"

text \<open>The header on disk names only blocks of the disk outside the log.\<close>

definition log_disk_ok :: "(u32 \<Rightarrow> block) \<Rightarrow> u32 \<Rightarrow> u32 set \<Rightarrow> u32 \<Rightarrow> int \<Rightarrow> bool" where
  "log_disk_ok D sz area st nlog \<longleftrightarrow> 0 \<le> hdr_n (D st) \<and> hdr_n (D st) < nlog \<and> hdr_n (D st) \<le> int LOGSIZE
     \<and> (\<forall>i<nat (hdr_n (D st)). hdr_block (D st) i < sz \<and> hdr_block (D st) i \<notin> area)"

lemma recover_use:
  assumes inv: "using_bufs s {}" and ds: "dset s = {}" and st: "l_dev s = 1" "length (l_block s) = LOGSIZE"
    and sz: "unat (l_start s) + nat (l_size s) \<le> unat (d_size s)" "0 < l_size s"
    and hd: "log_disk_ok (d_disk s) (d_size s) (logarea s) (l_start s) (l_size s)"
  shows "\<exists>t. recover_from_log s = Ok () t \<and> using_bufs t {} \<and> dset t = {} \<and> l_n t = 0
     \<and> d_disk t = apply_writes (d_disk s) (recover_writes (d_disk s) (l_start s))
     \<and> d_writes t = d_writes s @ recover_writes (d_disk s) (l_start s)
     \<and> l_start t = l_start s \<and> l_size t = l_size s \<and> d_size t = d_size s \<and> length (l_block t) = LOGSIZE"
proof -
  let ?d = "d_disk s (l_start s)" and ?D = "d_disk s" and ?st = "l_start s"
  let ?n = "nat (hdr_n (d_disk s (l_start s)))"
  let ?bs = "map (hdr_block ?d) [0..<?n] @ drop ?n (l_block s)"
  have s0: "?st < d_size s" using sz by (simp add: unat_lt_iff)
  have H: "0 \<le> hdr_n ?d" "hdr_n ?d < l_size s" "hdr_n ?d \<le> 30" using hd by (simp_all add: log_disk_ok_def)
  have v: "bview s = d_disk s" by (rule ext, rule bview_clean [OF inv]) (simp_all add: ds)
  obtain t1 where t1: "read_head s = Ok () t1" "using_bufs t1 {}" "bview t1 = bview s" "dset t1 = dset s"
    "d_disk t1 = ?D" "d_writes t1 = d_writes s" "bframe (s\<lparr>l_n := hdr_n ?d, l_block := ?bs\<rparr>) t1"
    using read_head_use [OF inv st(1) s0] ds H st(2) by auto
  have L1: "l_start t1 = ?st" "l_size t1 = l_size s" "l_dev t1 = 1" "l_n t1 = hdr_n ?d" "l_block t1 = ?bs" "d_size t1 = d_size s"
    using bframe_log [OF t1(7)] bframeD(3) [OF t1(7)] st by simp_all
  have lb: "length ?bs = LOGSIZE" using H st(2) by simp
  have bs: "?bs ! i = hdr_block ?d i" if "i < ?n" for i using that by (simp add: nth_append)
  have g: "log_geom t1"
    using sz lb H hd bs L1 by (simp add: log_geom_def logarea_def log_disk_ok_def)
  obtain t2 where t2: "install_trans t1 = Ok () t2" "wrote t1 (home_copies t1 ?n) (dset t1 - set (take ?n ?bs)) t2"
    using install_trans_use [OF t1(2) g] unfolding L1 t1(4) ds by auto
  have hc: "home_copies t1 ?n = log_entries ?D ?st"
    unfolding home_copies_def log_entries_def by (rule map_cong) (auto simp: L1 bs t1(3) v simp del: of_nat_add)
  have T2: "using_bufs t2 {}" "bview t2 = apply_writes ?D (log_entries ?D ?st)" "dset t2 = {}"
    "d_disk t2 = apply_writes ?D (log_entries ?D ?st)" "d_writes t2 = d_writes s @ log_entries ?D ?st" "bframe t1 t2"
    using t2(2) unfolding wrote_def hc t1(3-6) ds v by simp_all
  have L2: "l_start t2 = ?st" "l_size t2 = l_size s" "l_dev t2 = 1" "l_block t2 = ?bs" "d_size t2 = d_size s"
    using bframe_log [OF T2(6)] bframeD(3) [OF T2(6)] L1 by simp_all
  let ?t = "t2\<lparr>l_n := 0\<rparr>"
  have "using_bufs ?t {}" "l_dev ?t = 1" "l_start ?t < d_size ?t" "l_start ?t \<notin> dset ?t" "0 \<le> l_n ?t"
    "l_n ?t \<le> int (length (l_block ?t))" "card (dset ?t) < NBUF" using T2(1,3) s0 L2 by simp_all
  note W = write_head_use [OF this]
  have hv: "bview t2 ?st = ?d"
    unfolding T2(2) by (rule apply_writes_other)
      (use hd sz(2) in \<open>auto simp: log_entries_def log_disk_ok_def logarea_def\<close>)
  have e: "hdr_encode ?d 0 ?bs = hdr_encode ?d 0 []" by (simp add: hdr_encode_def)
  obtain t3 where t3: "write_head ?t = Ok () t3" "using_bufs t3 {}" "dset t3 = {}"
    "d_disk t3 = (d_disk t2)(?st := hdr_encode ?d 0 [])"
    "d_writes t3 = d_writes t2 @ [(?st, hdr_encode ?d 0 [])]" "bframe ?t t3"
    using W hv T2(3) L2 e by auto
  have "recover_from_log s = Ok () t3"
    using t1(1) t2(1) t3(1) by (simp add: recover_from_log_def andthen_def bnd_def modify_def)
  then show ?thesis
    using t3 T2 L2 lb bframe_log [OF t3(6)] bframeD(3) [OF t3(6)] by (intro exI [of _ t3]) (simp add: recover_writes_def)
qed

end
