(* ===== verification/Txn.thy ===== *)
theory Txn
  imports Log
begin

text \<open>
  Updating blocks inside a transaction: \<^verbatim>\<open>bread\<close>, change the data, \<^verbatim>\<open>log_write\<close>, \<^verbatim>\<open>brelse\<close>.  The
  contracts are in terms of \<open>txn s H\<close>: the process holds the buffers \<open>H\<close>, the dirty blocks are exactly
  those of the log header, and what it holds agrees with disk unless logged.  The file system is
  verified against these contracts.
\<close>

section \<open>State of a transaction\<close>

definition logged :: "'z lst_scheme \<Rightarrow> u32 list" where
  "logged s = take (nat (l_n s)) (l_block s)"

definition coherent :: "'z lst_scheme \<Rightarrow> nat set \<Rightarrow> bool" where
  "coherent s H \<longleftrightarrow> (\<forall>i\<in>H. \<forall>bn. has_block (b_buf s i) bn \<longrightarrow> bn \<in> dset s \<or> b_data (b_buf s i) = d_disk s bn)"

definition txn :: "'z lst_scheme \<Rightarrow> nat set \<Rightarrow> bool" where
  "txn s H \<longleftrightarrow> using_bufs s H \<and> coherent s H \<and> log_geom s \<and> dset s = set (logged s) \<and> distinct (logged s)
     \<and> 1 \<le> l_outstanding s"

text \<open>Room for \<open>k\<close> more blocks in the log and as many buffers.\<close>

definition room :: "'z lst_scheme \<Rightarrow> nat \<Rightarrow> bool" where
  "room s k \<longleftrightarrow> l_n s + int k \<le> int LOGSIZE \<and> l_n s + int k < l_size s"

lemma txnD:
  assumes "txn s H"
  shows "using_bufs s H" "coherent s H" "log_geom s" "dset s = set (logged s)" "distinct (logged s)"
    "1 \<le> l_outstanding s" "length (logged s) = nat (l_n s)" "card (dset s) = nat (l_n s)" "0 \<le> l_n s" "l_dev s = 1"
proof -
  show "using_bufs s H" "coherent s H" "log_geom s" and d: "dset s = set (logged s)" "distinct (logged s)"
    and "1 \<le> l_outstanding s" using assms by (simp_all add: txn_def)
  then show l: "length (logged s) = nat (l_n s)" "0 \<le> l_n s" "l_dev s = 1"
    by (auto simp: log_geom_def logged_def)
  show "card (dset s) = nat (l_n s)" using d l(1) by (simp add: distinct_card)
qed

lemma logged_bframe: "bframe s t \<Longrightarrow> logged t = logged s"
  by (simp add: logged_def bframe_log)

section \<open>Reading and releasing\<close>

lemma txn_bread:
  assumes t: "txn s H" and bn: "bn < d_size s" and nh: "\<And>i. i \<in> H \<Longrightarrow> \<not> has_block (b_buf s i) bn"
    and free: "nat (l_n s) + card H < NBUF"
  shows "\<exists>i t. bread 1 bn s = Ok i t \<and> i \<notin> H \<and> txn t (insert i H) \<and> has_block (b_buf t i) bn
     \<and> b_data (b_buf t i) = bview s bn \<and> bview t = bview s \<and> d_disk t = d_disk s \<and> d_writes t = d_writes s
     \<and> bframe s t \<and> (\<forall>j. j \<noteq> i \<longrightarrow> b_buf t j = b_buf s j)"
proof -
  note T = txnD [OF t]
  obtain i t where it: "bread 1 bn s = Ok i t" "i \<notin> H" "using_bufs t (insert i H)" "has_block (b_buf t i) bn"
    "b_data (b_buf t i) = bview s bn" "bview t = bview s" "dset t = dset s" "d_disk t = d_disk s"
    "d_writes t = d_writes s" "bframe s t" and o: "\<And>j. j \<noteq> i \<Longrightarrow> b_buf t j = b_buf s j"
    using bread_use [OF T(1) bn nh] free T(8) by metis
  have "bn \<in> dset s \<or> bview s bn = d_disk s bn" using bview_clean [OF T(1), of bn] nh by blast
  then have c1: "bn \<in> dset t \<or> b_data (b_buf t i) = d_disk t bn" using it by simp
  have "coherent t (insert i H)" unfolding coherent_def
  proof (intro ballI allI impI)
    fix j m
    assume j: "j \<in> insert i H" and h: "has_block (b_buf t j) m"
    show "m \<in> dset t \<or> b_data (b_buf t j) = d_disk t m"
    proof (cases "j = i")
      case True
      then show ?thesis using c1 h it(4) has_block_fun by blast
    next
      case False
      then show ?thesis using T(2) j h o [of j] it(7,8) by (auto simp: coherent_def)
    qed
  qed
  then have "txn t (insert i H)"
    using it(3,7) T(3-6) log_geom_bframe [OF it(10)] by (simp add: txn_def logged_bframe [OF it(10)] bframe_log [OF it(10)])
  then show ?thesis using it o by blast
qed

lemma txn_brelse:
  assumes t: "txn s H" and i: "i \<in> H" "has_block (b_buf s i) bn"
  shows "\<exists>t. brelse i s = Ok () t \<and> txn t (H - {i}) \<and> bview t = bview s \<and> d_disk t = d_disk s
     \<and> d_writes t = d_writes s \<and> bframe s t \<and> (\<forall>j. j \<noteq> i \<longrightarrow> bcore (b_buf t j) = bcore (b_buf s j))"
proof -
  note T = txnD [OF t]
  have "bn \<in> dset s \<or> b_data (b_buf s i) = d_disk s bn" using T(2) i by (simp add: coherent_def)
  from brelse_use [OF T(1) i this] obtain t where it: "brelse i s = Ok () t" "using_bufs t (H - {i})"
    "bview t = bview s" "dset t = dset s" "d_disk t = d_disk s" "d_writes t = d_writes s" "bframe s t"
    and o: "\<And>j. j \<noteq> i \<Longrightarrow> bcore (b_buf t j) = bcore (b_buf s j)" by blast
  have "coherent t (H - {i})" unfolding coherent_def
  proof (intro ballI allI impI)
    fix j m
    assume j: "j \<in> H - {i}" and h: "has_block (b_buf t j) m"
    have "bcore (b_buf t j) = bcore (b_buf s j)" using o j by blast
    from bcore_eqD [OF this] show "m \<in> dset t \<or> b_data (b_buf t j) = d_disk t m"
      using T(2) j h it(4,5) by (simp add: coherent_def)
  qed
  then have "txn t (H - {i})"
    using it(2,4) T(3-6) log_geom_bframe [OF it(7)] by (simp add: txn_def logged_bframe [OF it(7)] bframe_log [OF it(7)])
  then show ?thesis using it o by blast
qed

section \<open>Logged updates\<close>

definition log_add :: "u32 list \<Rightarrow> u32 \<Rightarrow> u32 list" where
  "log_add bs bn = (if bn \<in> set bs then bs else bs @ [bn])"

lemma find_idx_eq: "find_idx (\<lambda>x. x = b) xs = Some i \<Longrightarrow> i < length xs \<and> xs ! i = b"
  using find_idx_Some(1,2) [of "\<lambda>x. x = b" xs i] by simp

text \<open>\<^verbatim>\<open>log_write\<close>: the header gains the block unless it is there; the buffer becomes dirty.\<close>

lemma log_write_Ok:
  fixes b :: nat
  assumes n: "0 \<le> l_n s" "l_n s < int LOGSIZE" "l_n s < l_size s - 1" and out: "1 \<le> l_outstanding s"
    and lb: "length (l_block s) = LOGSIZE" and held: "k_held s = []"
  defines "bn \<equiv> b_blockno (b_buf s b)"
  shows "\<exists>bs n'. log_write b s = Ok () (s\<lparr>l_block := bs, l_n := n',
       b_buf := (b_buf s)(b := (b_buf s b)\<lparr>b_flags := b_flags (b_buf s b) OR B_DIRTY\<rparr>)\<rparr>)
     \<and> take (nat n') bs = log_add (logged s) bn \<and> length bs = LOGSIZE \<and> n' = int (length (log_add (logged s) bn))"
proof (cases "find_idx (\<lambda>x. x = bn) (logged s)")
  case None
  then have nin: "bn \<notin> set (logged s)" by (auto simp: find_idx_None)
  let ?bs = "(l_block s)[nat (l_n s) := bn]"
  have len: "nat (l_n s) < length (l_block s)" using n lb by simp
  have tk: "take (Suc (nat (l_n s))) ?bs = logged s @ [bn]"
    using len by (simp add: take_Suc_conv_app_nth logged_def)
  have S: "nat (l_n s + 1) = Suc (nat (l_n s))" using n by simp
  have "log_write b s = Ok () (s\<lparr>l_block := ?bs, l_n := l_n s + 1,
       b_buf := (b_buf s)(b := (b_buf s b)\<lparr>b_flags := b_flags (b_buf s b) OR B_DIRTY\<rparr>)\<rparr>)"
    using n out held lb None len
    by (simp add: log_write_def bnd_def andthen_def fetch_def buf_get_def logged_def bn_def lh_set_block_def
        modify_def whenk_def buf_upd_def Let_def)
  moreover have "length (logged s) = nat (l_n s)" using len by (simp add: logged_def)
  ultimately show ?thesis
    using tk S nin lb n by (intro exI [of _ ?bs] exI [of _ "l_n s + 1"]) (simp add: log_add_def)
next
  case (Some i)
  then have i: "i < nat (l_n s)" "l_block s ! i = bn" "i < length (l_block s)" "bn \<in> set (logged s)"
    using find_idx_eq [OF Some] nth_mem [of i "logged s"] by (auto simp: logged_def)
  have "(l_block s)[i := bn] = l_block s" using i by (metis list_update_id)
  then have "log_write b s = Ok () (s\<lparr>l_block := l_block s, l_n := l_n s,
       b_buf := (b_buf s)(b := (b_buf s b)\<lparr>b_flags := b_flags (b_buf s b) OR B_DIRTY\<rparr>)\<rparr>)"
    using n out held lb Some i
    by (simp add: log_write_def bnd_def andthen_def fetch_def buf_get_def logged_def bn_def lh_set_block_def
        modify_def whenk_def buf_upd_def Let_def ret_def)
  moreover have "length (logged s) = nat (l_n s)" using n lb by (simp add: logged_def)
  ultimately show ?thesis
    using i lb n by (intro exI [of _ "l_block s"] exI [of _ "l_n s"]) (simp add: log_add_def logged_def)
qed

text \<open>What a logged update leaves alone.\<close>

definition lframe :: "'z lst_scheme \<Rightarrow> 'z lst_scheme \<Rightarrow> bool" where
  "lframe s t \<longleftrightarrow> t = s\<lparr>k_procs := k_procs t, b_buf := b_buf t, d_disk := d_disk t, d_writes := d_writes t,
     l_n := l_n t, l_block := l_block t\<rparr>"

lemma lframe_refl [simp, intro]: "lframe s s"
  by (simp add: lframe_def)

lemma lframe_trans [trans]:
  assumes "lframe s t" "lframe t u"
  shows "lframe s u"
proof -
  have t: "t = s\<lparr>k_procs := k_procs t, b_buf := b_buf t, d_disk := d_disk t, d_writes := d_writes t,
     l_n := l_n t, l_block := l_block t\<rparr>"
    and u: "u = t\<lparr>k_procs := k_procs u, b_buf := b_buf u, d_disk := d_disk u, d_writes := d_writes u,
     l_n := l_n u, l_block := l_block u\<rparr>"
    using assms unfolding lframe_def .
  have "t\<lparr>k_procs := p, b_buf := b, d_disk := d, d_writes := w, l_n := n, l_block := bs\<rparr>
      = s\<lparr>k_procs := p, b_buf := b, d_disk := d, d_writes := w, l_n := n, l_block := bs\<rparr>" for p b d w n bs
    by (subst t) simp
  then show ?thesis unfolding lframe_def using u by metis
qed

lemma bframe_lframe: "bframe s t \<Longrightarrow> lframe s t"
proof -
  assume f: "bframe s t"
  then have t: "t = s\<lparr>k_procs := k_procs t, b_buf := b_buf t, d_disk := d_disk t, d_writes := d_writes t\<rparr>"
    by (simp add: bframe_def)
  have "s\<lparr>k_procs := p, b_buf := b, d_disk := d, d_writes := w\<rparr>
     = s\<lparr>k_procs := p, b_buf := b, d_disk := d, d_writes := w, l_n := l_n s, l_block := l_block s\<rparr>" for p b d w
    by simp
  then show "lframe s t" using t unfolding lframe_def bframe_log(6,7) [OF f] by metis
qed

lemma lframeD:
  assumes "lframe s t"
  shows "k_held t = k_held s" "k_cur t = k_cur s" "d_size t = d_size s" "l_start t = l_start s"
    "l_size t = l_size s" "l_outstanding t = l_outstanding s" "l_committing t = l_committing s" "l_dev t = l_dev s"
    "logarea t = logarea s"
proof -
  have t: "t = s\<lparr>k_procs := k_procs t, b_buf := b_buf t, d_disk := d_disk t, d_writes := d_writes t,
     l_n := l_n t, l_block := l_block t\<rparr>" using assms by (simp add: lframe_def)
  show "k_held t = k_held s" "k_cur t = k_cur s" "d_size t = d_size s" and st: "l_start t = l_start s"
    "l_size t = l_size s" and "l_outstanding t = l_outstanding s" "l_committing t = l_committing s" "l_dev t = l_dev s"
    by (subst t, simp)+
  then show "logarea t = logarea s" by (simp add: logarea_def)
qed

lemma data_use:
  assumes inv: "using_bufs s H" and i: "i \<in> H" "has_block (b_buf s i) bn" and bn: "bn < d_size s"
    and t: "b_buf t = (b_buf s)(i := (b_buf s i)\<lparr>b_data := x, b_flags := fl\<rparr>)" and fl: "bit fl 1"
    and o: "d_disk t = d_disk s" "d_size t = d_size s" "k_held t = k_held s" "k_cur t = k_cur s"
  shows "using_bufs t H" "bview t = (bview s)(bn := x)"
    "dset t = (if bit fl 2 then insert bn (dset s) else dset s - {bn})"
proof -
  note B = using_bufsD [OF inv]
  have iN: "i < NBUF" and h: "b_refcnt (b_buf s i) = 1" using B(4,6) i by auto
  let ?b = "(b_buf s i)\<lparr>b_data := x, b_flags := fl\<rparr>"
  have hb: "has_block ?b bn" "b_valid ?b" using i(2) fl by (simp_all add: has_block_def)
  have "d_disk t = (d_disk s)(bn := d_disk s bn)" using o by simp
  note U = upd_held [OF B(1) iN i(2) bn hb _ _ _ t this o(2)]
  have invt: "binv t" and v: "bview t = (bview s)(bn := x)" using U h by simp_all
  then show "bview t = (bview s)(bn := x)" by simp
  show "using_bufs t H"
  proof (rule using_bufsI)
    fix j
    show "j \<in> H \<Longrightarrow> b_refcnt (b_buf t j) = 1 \<and> sl_locked (b_lock (b_buf t j)) \<and> b_valid (b_buf t j)"
      using B(6) [of j] hb by (cases "j = i") (auto simp: t)
    show "j < NBUF \<Longrightarrow> j \<notin> H \<Longrightarrow> b_refcnt (b_buf t j) = 0"
      using B(7) [of j] i(1) by (cases "j = i") (auto simp: t)
  qed (use invt B o in simp_all)
  have "m \<in> dset t \<longleftrightarrow> m \<in> (if bit fl 2 then insert bn (dset s) else dset s - {bn})" for m
  proof (cases "m = bn")
    case True
    have "has_block (b_buf t i) bn" using t hb by simp
    from dset_has [OF invt iN this] show ?thesis using True t by simp
  next
    case False
    then have "\<not> has_block (b_buf s i) m" "\<not> has_block ?b m" using i(2) by (auto simp: has_block_def)
    then have "has_block (b_buf t j) m \<and> b_dirty (b_buf t j) \<longleftrightarrow> has_block (b_buf s j) m \<and> b_dirty (b_buf s j)" for j
      by (cases "j = i") (simp_all add: t)
    then show ?thesis using False unfolding dset_iff [OF invt] by (simp add: dset_iff [OF B(1)])
  qed
  then show "dset t = (if bit fl 2 then insert bn (dset s) else dset s - {bn})" by blast
qed

lemma set_log_add [simp]: "set (log_add bs b) = insert b (set bs)"
  by (auto simp: log_add_def)

lemma distinct_log_add: "distinct bs \<Longrightarrow> distinct (log_add bs b)"
  by (simp add: log_add_def)

lemma length_log_add: "length (log_add bs b) \<le> Suc (length bs)"
  by (simp add: log_add_def)

lemma txn_put:
  fixes f :: "block \<Rightarrow> block"
  assumes t: "txn s H" and i: "i \<in> H" "has_block (b_buf s i) bn" and bn: "bn < d_size s" "bn \<notin> logarea s"
    and rm: "room s 1"
  defines "x \<equiv> f (b_data (b_buf s i))"
  shows "\<exists>u. andthen (buf_upd i (\<lambda>p. p\<lparr>b_data := f (b_data p)\<rparr>)) (log_write i) s = Ok () u
     \<and> txn u H \<and> has_block (b_buf u i) bn \<and> b_data (b_buf u i) = x \<and> bview u = (bview s)(bn := x)
     \<and> d_disk u = d_disk s \<and> d_writes u = d_writes s \<and> lframe s u \<and> logged u = log_add (logged s) bn
     \<and> (\<forall>j. j \<noteq> i \<longrightarrow> b_buf u j = b_buf s j)"
proof -
  note T = txnD [OF t] and B = using_bufsD [OF txnD(1) [OF t]]
  let ?s = "s\<lparr>b_buf := (b_buf s)(i := (b_buf s i)\<lparr>b_data := x\<rparr>)\<rparr>"
  have lg: "logged ?s = logged s" by (simp add: logged_def)
  have bi: "b_blockno (b_buf s i) = bn" using i(2) by (simp add: has_block_def)
  have G: "length (l_block s) = LOGSIZE" "0 \<le> l_n s" using T(3) by (simp_all add: log_geom_def)
  obtain bs n' where w: "log_write i ?s = Ok () (?s\<lparr>l_block := bs, l_n := n',
       b_buf := (b_buf ?s)(i := (b_buf ?s i)\<lparr>b_flags := b_flags (b_buf ?s i) OR B_DIRTY\<rparr>)\<rparr>)"
     "take (nat n') bs = log_add (logged s) bn" "length bs = LOGSIZE" "n' = int (length (log_add (logged s) bn))"
    using log_write_Ok [of ?s i] G rm T(6) B(2) bi by (auto simp: room_def lg)
  let ?fl = "b_flags (b_buf s i) OR B_DIRTY"
  define u where "u = s\<lparr>b_buf := (b_buf s)(i := (b_buf s i)\<lparr>b_data := x, b_flags := ?fl\<rparr>), l_block := bs, l_n := n'\<rparr>"
  have ub: "b_buf u = (b_buf s)(i := (b_buf s i)\<lparr>b_data := x, b_flags := ?fl\<rparr>)" "d_disk u = d_disk s"
    "d_size u = d_size s" "k_held u = k_held s" "k_cur u = k_cur s" "d_writes u = d_writes s"
    "l_block u = bs" "l_n u = n'" by (simp_all add: u_def)
  have fl: "bit ?fl 1" "bit ?fl 2" using B(6) [OF i(1)] by simp_all
  note U = data_use [OF T(1) i bn(1) ub(1) fl(1) ub(2-5)]
  have lgu: "logged u = log_add (logged s) bn" using w(2) by (simp add: logged_def ub)
  have lf: "lframe s u" by (simp add: lframe_def u_def)
  have "coherent u H" unfolding coherent_def
  proof (intro ballI allI impI)
    fix j m
    assume j: "j \<in> H" and h: "has_block (b_buf u j) m"
    show "m \<in> dset u \<or> b_data (b_buf u j) = d_disk u m"
    proof (cases "j = i")
      case True
      then have "m = bn" using h i(2) by (auto simp: ub has_block_def)
      then show ?thesis using U(3) fl by simp
    next
      case False
      then show ?thesis using T(2) j h U(3) fl by (auto simp: coherent_def ub)
    qed
  qed
  moreover have "log_geom u"
  proof -
    have "set (log_add (logged s) bn) \<inter> logarea s = {}" "\<forall>b\<in>set (log_add (logged s) bn). b < d_size s"
      using log_geomD(7,8) [OF T(3)] bn by (auto simp: logged_def in_set_conv_nth)
    then have e: "\<forall>k<nat n'. bs ! k < d_size s \<and> bs ! k \<notin> logarea s"
      using w(2,3,4) by (metis disjoint_iff nat_int nth_mem nth_take)
    have "nat n' \<le> Suc (nat (l_n s))" using w(4) length_log_add [of "logged s" bn] T(7) by simp
    then have n: "0 \<le> n'" "n' \<le> l_n s + 1" using w(4) G(2) by simp_all
    have la: "logarea u = logarea s" using lframeD(9) [OF lf] .
    show ?thesis
      using T(3) e n rm w(3) unfolding log_geom_def la lframeD [OF lf] ub by (simp add: room_def)
  qed
  moreover have "dset u = set (logged u)" using U(3) fl T(4) by (simp add: lgu)
  ultimately have "txn u H"
    using U(1) T(5,6) lframeD(6) [OF lf] by (simp add: txn_def lgu distinct_log_add)
  moreover have "andthen (buf_upd i (\<lambda>p. p\<lparr>b_data := f (b_data p)\<rparr>)) (log_write i) s = Ok () u"
    using w(1) by (simp add: andthen_def bnd_def buf_upd_def modify_def u_def x_def)
  ultimately show ?thesis
    using U(2) lf lgu i(2) ub by (intro exI [of _ u]) (simp add: has_block_def)
qed

section \<open>A sample transaction\<close>

text \<open>
  A concrete state for instances of the theorems: the cache just initialised, a log of 30 blocks
  at block 2 as \<^verbatim>\<open>mkfs\<close> lays it out, one operation running.
\<close>

definition run :: "('a, 's) kop \<Rightarrow> 's \<Rightarrow> 's" where
  "run m s = (case m s of Ok _ t \<Rightarrow> t | _ \<Rightarrow> s)"

definition sample_start :: "(unit, 'z lst_scheme) kop" where
  "sample_start = andthen binit
     (modify (\<lambda>s. s\<lparr>l_start := 2, l_size := 30, l_dev := 1, l_outstanding := 1\<rparr>))"

lemma sample_start_use:
  assumes S: "\<And>j. b_buf s j = buf0" "k_held s = []" "k_cur s \<noteq> None" "d_size s = 1000" "l_n s = 0"
    "length (l_block s) = LOGSIZE"
  shows "\<exists>a. sample_start s = Ok () (a\<lparr>l_start := 2, l_size := 30, l_dev := 1, l_outstanding := 1\<rparr>) \<and> bframe s a
     \<and> (\<forall>t. t = a\<lparr>l_start := 2, l_size := 30, l_dev := 1, l_outstanding := 1\<rparr> \<longrightarrow> txn t {} \<and> dset t = {}
       \<and> d_size t = 1000 \<and> d_disk t = d_disk s \<and> l_n t = 0 \<and> l_size t = 30 \<and> l_start t = 2 \<and> k_held t = []
       \<and> l_outstanding t = 1)"
proof -
  obtain a where a: "binit s = Ok () a" "using_bufs a {}" "dset a = {}" "bframe s a" "d_disk a = d_disk s"
    using binit_use [of s] S by auto
  let ?t = "a\<lparr>l_start := 2, l_size := 30, l_dev := 1, l_outstanding := 1\<rparr>"
  have c: "using_bufs ?t {} = using_bufs a {}" "dset ?t = dset a" by (rule cache_cong; simp)+
  note F = bframe_log [OF a(4)] bframeD [OF a(4)]
  have "log_geom ?t" using F S by (simp add: log_geom_def)
  then have "txn ?t {}" using a(2,3) c F S by (simp add: txn_def coherent_def logged_def)
  then show ?thesis
    using a F S c by (intro exI [of _ a]) (simp add: sample_start_def andthen_def bnd_def modify_def)
qed

end
