(* ===== verification/Logcrash.thy ===== *)
theory Logcrash
  imports Txn
begin

text \<open>
  Crash atomicity of \<^verbatim>\<open>log.c\<close>.  A crash may cut the sequence of disk writes of \<^verbatim>\<open>commit\<close> at any
  point; the following boot runs \<^verbatim>\<open>binit\<close> and \<^verbatim>\<open>initlog\<close>, and a crash may cut the writes of that
  recovery again, any number of times.  \<open>crash_disk\<close> holds of every disk image so obtained.
\<close>

section \<open>Crash images\<close>

text \<open>What a boot does with the disk: \<^verbatim>\<open>binit\<close>, later \<^verbatim>\<open>initlog(ROOTDEV)\<close>.\<close>

definition boot_log :: "(unit, 'z lst_scheme) kop" where
  "boot_log = andthen binit (initlog 1)"

text \<open>The writes are those the run of \<^verbatim>\<open>commit\<close>, or of the boot, hands to the disk, in their order.\<close>

inductive crash_disk :: "'z lst_scheme \<Rightarrow> (u32 \<Rightarrow> block) \<Rightarrow> bool" for s where
  in_commit: "commit s = Ok () u \<Longrightarrow> d_writes u = d_writes s @ ws \<Longrightarrow>
     crash_disk s (apply_writes (d_disk s) (take k ws))"
| in_recovery: "crash_disk s D \<Longrightarrow> boot_log (lst0 D (d_size s)) = Ok () u \<Longrightarrow>
     crash_disk s (apply_writes D (take k (d_writes u)))"

text \<open>
  The three forms of a crash image: the old contents with an empty header, the new contents with
  an empty header, or a header naming the transaction with its blocks in the log and everything
  outside the transaction untouched.
\<close>

definition img_settled :: "'z lst_scheme \<Rightarrow> (u32 \<Rightarrow> block) \<Rightarrow> (u32 \<Rightarrow> block) \<Rightarrow> bool" where
  "img_settled s C D \<longleftrightarrow> hdr_n (D (l_start s)) = 0 \<and> (\<forall>b. b \<notin> logarea s \<longrightarrow> D b = C b)"

definition img_committed :: "'z lst_scheme \<Rightarrow> (u32 \<Rightarrow> block) \<Rightarrow> bool" where
  "img_committed s D \<longleftrightarrow> hdr_n (D (l_start s)) = l_n s
     \<and> (\<forall>i<nat (l_n s). hdr_block (D (l_start s)) i = l_block s ! i \<and> D (lpos s i) = bview s (l_block s ! i))
     \<and> (\<forall>b. b \<notin> logarea s \<and> b \<notin> set (take (nat (l_n s)) (l_block s)) \<longrightarrow> D b = bview s b)"

definition img_ok :: "'z lst_scheme \<Rightarrow> (u32 \<Rightarrow> block) \<Rightarrow> bool" where
  "img_ok s D \<longleftrightarrow> img_settled s (d_disk s) D \<or> img_settled s (bview s) D \<or> img_committed s D"

lemma readyD:
  assumes "ready s"
  shows "log_geom s" "b \<notin> set (take (nat (l_n s)) (l_block s)) \<Longrightarrow> bview s b = d_disk s b"
    "fst ` set (home_writes s) = set (take (nat (l_n s)) (l_block s))"
    "set (take (nat (l_n s)) (l_block s)) \<inter> logarea s = {}"
proof -
  show g: "log_geom s" using assms by (simp add: ready_def)
  show "b \<notin> set (take (nat (l_n s)) (l_block s)) \<Longrightarrow> bview s b = d_disk s b"
    by (rule bview_clean [of s "{}"]) (use assms in \<open>simp_all add: ready_def\<close>)
  show "fst ` set (home_writes s) = set (take (nat (l_n s)) (l_block s))" by (force simp: home_writes_def)
  show "set (take (nat (l_n s)) (l_block s)) \<inter> logarea s = {}"
    using log_geomD(7,8) [OF g] by (auto simp: in_set_conv_nth)
qed

lemma home_target: "\<forall>w\<in>set (home_writes s). snd w = bview s (fst w)"
  by (auto simp: home_writes_def)

lemma take_home:
  assumes "set ws \<subseteq> set (home_writes s)"
  shows "apply_writes D ws b = (if b \<in> fst ` set ws then bview s b else D b)"
  by (rule apply_writes_target) (use assms home_target in blast)

text \<open>The image once the header of the transaction is on disk.\<close>

lemma header_written:
  assumes r: "ready s" and ws: "set ws \<subseteq> set (home_writes s)"
  defines "h \<equiv> hdr_encode (bview s (l_start s)) (l_n s) (l_block s)"
  shows "img_committed s (apply_writes (d_disk s) (log_copies s (nat (l_n s)) @ [(l_start s, h)] @ ws))"
proof -
  note g = readyD(1) [OF r] and G = log_geomD [OF readyD(1) [OF r]]
  let ?D = "apply_writes (d_disk s) (log_copies s (nat (l_n s)) @ [(l_start s, h)] @ ws)"
  have F: "fst ` set ws \<subseteq> set (take (nat (l_n s)) (l_block s))" using ws readyD(3) [OF r] by blast
  have D: "?D b = (if b \<in> fst ` set ws then bview s b else if b = l_start s then h
      else apply_writes (d_disk s) (log_copies s (nat (l_n s))) b)" for b
    by (simp add: take_home [OF ws])
  have Dh: "?D (l_start s) = h" using D F readyD(4) [OF r] G(6) by auto
  have "?D (lpos s i) = bview s (l_block s ! i)" if i: "i < nat (l_n s)" for i
  proof -
    have "lpos s i \<notin> fst ` set ws" using F readyD(4) [OF r] G(11) [OF i] by blast
    then show ?thesis using D G(12) [OF i] log_copies_at [OF g i] by simp
  qed
  moreover have "?D b = bview s b" if b: "b \<notin> logarea s" "b \<notin> set (take (nat (l_n s)) (l_block s))" for b
  proof -
    have "b \<notin> fst ` set ws" "b \<noteq> l_start s" "b \<notin> fst ` set (log_copies s (nat (l_n s)))"
      using F b G(6) log_copies_fst [OF g] by auto
    then show ?thesis using D readyD(2) [OF r b(2)] by (simp add: apply_writes_other)
  qed
  moreover have "hdr_n h = l_n s" "\<And>i. i < nat (l_n s) \<Longrightarrow> hdr_block h i = l_block s ! i"
    using G(2-4) by (simp_all add: h_def hdr_n_encode hdr_block_encode)
  ultimately show ?thesis unfolding img_committed_def Dh by blast
qed

lemma commit_prefix_img:
  assumes r: "ready s" and h0: "hdr_n (d_disk s (l_start s)) = 0"
  shows "img_ok s (apply_writes (d_disk s) (take k (commit_writes s)))"
proof -
  note g = readyD(1) [OF r] and G = log_geomD [OF readyD(1) [OF r]]
  let ?A = "log_copies s (nat (l_n s))" and ?h = "hdr_encode (bview s (l_start s)) (l_n s) (l_block s)"
  let ?B = "home_writes s" and ?z = "(l_start s, hdr_encode ?h 0 (l_block s))"
  have cw: "commit_writes s = ?A @ (l_start s, ?h) # ?B @ [?z]" by (simp add: commit_writes_def Let_def)
  consider "k \<le> length ?A" | j where "take k (commit_writes s) = ?A @ [(l_start s, ?h)] @ take j ?B"
    | "take k (commit_writes s) = (?A @ [(l_start s, ?h)] @ ?B) @ [?z]"
  proof (cases "k \<le> length ?A")
    case False
    then obtain m where m: "k = length ?A + Suc m" using less_imp_Suc_add [of "length ?A" k] by auto
    show thesis
    proof (cases "m \<le> length ?B")
      case True
      then show thesis using that(2) [of m] by (simp add: cw m)
    next
      case False
      then show thesis using that(3) by (simp add: cw m)
    qed
  qed (use that in blast)
  then show ?thesis
  proof cases
    case 1
    then have "take k (commit_writes s) = take k ?A" by (simp add: cw)
    moreover have "fst ` set (take k ?A) \<subseteq> logarea s - {l_start s}"
      using log_copies_fst [OF g] set_take_subset [of k ?A] by blast
    ultimately have "apply_writes (d_disk s) (take k (commit_writes s)) b = d_disk s b"
      if "b \<notin> logarea s \<or> b = l_start s" for b
      using that by (auto intro: apply_writes_other)
    then show ?thesis using h0 by (simp add: img_ok_def img_settled_def)
  next
    case (2 j)
    then show ?thesis
      using header_written [OF r, of "take j ?B"] set_take_subset [of j ?B] unfolding img_ok_def by metis
  next
    case 3
    let ?C = "apply_writes (d_disk s) (?A @ [(l_start s, ?h)] @ ?B)"
    have C: "?C b = bview s b" if "b \<notin> logarea s" for b
    proof (cases "b \<in> set (take (nat (l_n s)) (l_block s))")
      case True
      then show ?thesis using take_home [of ?B s] readyD(3) [OF r] by simp
    next
      case False
      then show ?thesis using header_written [OF r, of ?B] that unfolding img_committed_def by blast
    qed
    have e: "apply_writes (d_disk s) (take k (commit_writes s)) = ?C(l_start s := snd ?z)"
      unfolding 3 by simp
    have "b \<noteq> l_start s" if "b \<notin> logarea s" for b using that G(6) by blast
    then show ?thesis unfolding e using C by (simp add: img_ok_def img_settled_def hdr_n_encode)
  qed
qed

section \<open>Recovery from a crash image\<close>

lemma img_log_disk_ok:
  assumes "ready s" "img_ok s D" and sz: "0 < l_size s"
  shows "log_disk_ok D (d_size s) (logarea s) (l_start s) (l_size s)"
proof -
  note G = log_geomD [OF readyD(1) [OF assms(1)]]
  have "l_n s < l_size s" using readyD(1) [OF assms(1)] by (simp add: log_geom_def)
  then show ?thesis
    using assms(2) G(2-4,8) sz by (auto simp: img_ok_def img_settled_def img_committed_def log_disk_ok_def)
qed

lemma entries_settled: "hdr_n (D (l_start s)) = 0 \<Longrightarrow> log_entries D (l_start s) = []"
  by (simp add: log_entries_def)

lemma entries_committed:
  assumes "ready s" "img_committed s D"
  shows "log_entries D (l_start s) = home_writes s"
proof -
  note G = log_geomD [OF readyD(1) [OF assms(1)]]
  have "log_entries D (l_start s) = map (\<lambda>i. (\<lambda>b. (b, bview s b)) (l_block s ! i)) [0..<nat (l_n s)]"
    using assms(2) by (auto simp: log_entries_def img_committed_def)
  also have "\<dots> = home_writes s" unfolding home_writes_def by (rule map_take_nth) (use G(4) in simp)
  finally show ?thesis .
qed

lemma clear_header:
  assumes "ready s" "\<And>b. b \<notin> logarea s \<Longrightarrow> D b = C b"
  shows "img_settled s C (D(l_start s := hdr_encode d 0 []))"
  using assms(2) log_geomD(6) [OF readyD(1) [OF assms(1)]] by (auto simp: img_settled_def hdr_n_encode)

lemma committed_after_home:
  assumes r: "ready s" and c: "img_committed s D" and ws: "set ws \<subseteq> set (home_writes s)"
  shows "img_committed s (apply_writes D ws)"
proof -
  note G = log_geomD [OF readyD(1) [OF r]]
  have F: "fst ` set ws \<subseteq> set (take (nat (l_n s)) (l_block s))" using ws readyD(3) [OF r] by blast
  have a: "apply_writes D ws b = D b" if "b \<in> logarea s" for b
    using that readyD(4) [OF r] F by (intro apply_writes_other) blast
  have "apply_writes D ws b = D b" if "b \<notin> set (take (nat (l_n s)) (l_block s))" for b
    using that F by (intro apply_writes_other) blast
  then show ?thesis using c a G(6,11) by (simp add: img_committed_def)
qed

lemma committed_all_home:
  assumes r: "ready s" and c: "img_committed s D" and b: "b \<notin> logarea s"
  shows "apply_writes D (home_writes s) b = bview s b"
  using take_home [of "home_writes s" s D b] c b readyD(3) [OF r] by (auto simp: img_committed_def)

lemma recover_prefix_img:
  assumes r: "ready s" and i: "img_ok s D"
  shows "img_ok s (apply_writes D (take k (recover_writes D (l_start s))))"
proof -
  note G = log_geomD [OF readyD(1) [OF r]]
  have set: "img_settled s C (apply_writes D (take k (recover_writes D (l_start s))))" if "img_settled s C D" for C
  proof (cases k)
    case 0
    then show ?thesis using that by simp
  next
    case (Suc m)
    then show ?thesis
      using that clear_header [OF r, of D C] by (simp add: recover_writes_def entries_settled img_settled_def)
  qed
  show ?thesis
  proof (cases "img_committed s D")
    case c: True
    note e = entries_committed [OF r c]
    show ?thesis
    proof (cases "k \<le> length (home_writes s)")
      case True
      then show ?thesis
        using committed_after_home [OF r c, of "take k (home_writes s)"] set_take_subset [of k "home_writes s"]
        by (simp add: recover_writes_def e img_ok_def)
    next
      case False
      then show ?thesis
        using clear_header [OF r committed_all_home [OF r c]] by (simp add: recover_writes_def e img_ok_def)
    qed
  next
    case False
    then show ?thesis using i set by (auto simp: img_ok_def)
  qed
qed

lemma recovered_img:
  assumes r: "ready s" and i: "img_ok s D"
  shows "(\<forall>b. b \<notin> logarea s \<longrightarrow> apply_writes D (recover_writes D (l_start s)) b = d_disk s b)
    \<or> (\<forall>b. b \<notin> logarea s \<longrightarrow> apply_writes D (recover_writes D (l_start s)) b = bview s b)"
proof (cases "img_committed s D")
  case True
  have "b \<noteq> l_start s" if "b \<notin> logarea s" for b using that log_geomD(6) [OF readyD(1) [OF r]] by blast
  then show ?thesis
    using committed_all_home [OF r True] by (simp add: recover_writes_def entries_committed [OF r True])
next
  case False
  have "b \<noteq> l_start s" if "b \<notin> logarea s" for b using that log_geomD(6) [OF readyD(1) [OF r]] by blast
  then show ?thesis using i False by (auto simp: img_ok_def img_settled_def recover_writes_def entries_settled)
qed

section \<open>Boot\<close>

lemma readsb_use:
  assumes inv: "using_bufs s {}" and ds: "dset s = {}" and sz: "1 < d_size s"
  shows "\<exists>t. readsb 1 s = Ok (sb_decode (d_disk s 1)) t \<and> using_bufs t {} \<and> dset t = {}
     \<and> d_disk t = d_disk s \<and> d_writes t = d_writes s \<and> bframe s t"
proof -
  obtain b u where u: "bread 1 1 s = Ok b u" "using_bufs u {b}" "has_block (b_buf u b) 1"
    "b_data (b_buf u b) = bview s 1" "dset u = dset s" "d_disk u = d_disk s" "d_writes u = d_writes s" "bframe s u"
    using bread_use [OF inv sz] ds by auto
  have v: "bview s 1 = d_disk s 1" by (rule bview_clean [OF inv]) (simp_all add: ds)
  then have "b_data (b_buf u b) = d_disk u 1" using u by simp
  then obtain t where t: "brelse b u = Ok () t" "using_bufs t ({b} - {b})" "dset t = dset u"
    "d_disk t = d_disk u" "d_writes t = d_writes u" "bframe u t"
    using brelse_use [OF u(2) _ u(3)] by blast
  then show ?thesis
    using u v ds bframe_trans [OF u(8) t(6)]
    by (intro exI [of _ t]) (simp add: readsb_def bnd_def andthen_def buf_get_def fetch_def ret_def)
qed

lemma log_setup_cong [simp]:
  "using_bufs (s\<lparr>l_start := a, l_size := b, l_dev := c\<rparr>) H = using_bufs s H"
  "dset (s\<lparr>l_start := a, l_size := b, l_dev := c\<rparr>) = dset s"
  by (rule cache_cong; simp)+

lemma boot_log_use:
  assumes sb: "sb_logstart (sb_decode (D 1)) = st" "sint (sb_nlog (sb_decode (D 1))) = nlog" and sz: "1 < sz"
    and g: "unat st + nat nlog \<le> unat sz" "0 < nlog"
    and hd: "log_disk_ok D sz {b. unat st \<le> unat b \<and> unat b < unat st + nat nlog} st nlog"
  shows "\<exists>t. boot_log (lst0 D sz) = Ok () t \<and> using_bufs t {} \<and> dset t = {} \<and> l_n t = 0
     \<and> d_disk t = apply_writes D (recover_writes D st) \<and> d_writes t = recover_writes D st
     \<and> l_start t = st \<and> l_size t = nlog \<and> d_size t = sz"
proof -
  let ?s = "lst0 D sz"
  have S: "b_buf ?s j = buf0" "k_held ?s = []" "k_cur ?s \<noteq> None" "d_disk ?s = D" "d_writes ?s = []" "d_size ?s = sz"
    "length (l_block ?s) = LOGSIZE" for j
    by (simp_all add: lst0_def bst0_def bst.defs kst.defs kst0_def)
  obtain a where a: "binit ?s = Ok () a" "using_bufs a {}" "dset a = {}" "bframe ?s a" "d_disk a = D" "d_writes a = []"
    using binit_use [of ?s] S by auto
  have az: "1 < d_size a" using sz bframeD [OF a(4)] S by simp
  obtain b where b: "readsb 1 a = Ok (sb_decode (D 1)) b" "using_bufs b {}" "dset b = {}" "d_disk b = D"
    "d_writes b = []" "bframe a b"
    using readsb_use [OF a(2,3) az] a(5,6) by auto
  note f = bframe_trans [OF a(4) b(6)]
  let ?c = "b\<lparr>l_start := st, l_size := nlog, l_dev := 1\<rparr>"
  have C: "using_bufs ?c {}" "dset ?c = {}" "l_dev ?c = 1" "length (l_block ?c) = LOGSIZE" "d_size ?c = sz"
    using b bframe_log [OF f] bframeD [OF f] S by simp_all
  have la: "logarea ?c = {b. unat st \<le> unat b \<and> unat b < unat st + nat nlog}" by (simp add: logarea_def)
  obtain t where t: "recover_from_log ?c = Ok () t" "using_bufs t {}" "dset t = {}" "l_n t = 0"
    "d_disk t = apply_writes D (recover_writes D st)" "d_writes t = recover_writes D st" "l_start t = st"
    "l_size t = nlog" "d_size t = sz"
    using recover_use [OF C(1-4)] g hd C(5) la b(4,5) by auto
  have "initlog 1 a = Ok () t"
    using b(1) sb t(1) by (simp add: initlog_def BSIZE_def bnd_def andthen_def modify_def)
  then show ?thesis using a(1) t by (simp add: boot_log_def andthen_def bnd_def)
qed

lemma commit_returns:
  assumes "ready s"
  shows "\<exists>u. commit s = Ok () u \<and> d_writes u = d_writes s @ (if l_n s = 0 then [] else commit_writes s)"
proof (cases "l_n s = 0")
  case True
  then show ?thesis by (simp add: commit_def kdefs)
next
  case False
  then have "0 < l_n s" using readyD(1) [OF assms] by (simp add: log_geom_def)
  then show ?thesis using commit_use [OF assms] False by auto
qed

text \<open>What a boot finds on a crash image.\<close>

definition log_on_disk :: "'z lst_scheme \<Rightarrow> bool" where
  "log_on_disk s \<longleftrightarrow> hdr_n (d_disk s (l_start s)) = 0 \<and> 1 \<notin> logarea s
     \<and> 1 \<notin> set (take (nat (l_n s)) (l_block s)) \<and> 1 < d_size s \<and> 0 < l_size s
     \<and> sb_logstart (sb_decode (d_disk s 1)) = l_start s \<and> sint (sb_nlog (sb_decode (d_disk s 1))) = l_size s"

lemma img_boot:
  assumes r: "ready s" and l: "log_on_disk s" and i: "img_ok s D"
  shows "\<exists>t. boot_log (lst0 D (d_size s)) = Ok () t \<and> using_bufs t {} \<and> dset t = {} \<and> l_n t = 0
     \<and> d_disk t = apply_writes D (recover_writes D (l_start s)) \<and> d_writes t = recover_writes D (l_start s)"
proof -
  have "D 1 = d_disk s 1" using i l readyD(2) [OF r, of 1]
    by (auto simp: img_ok_def img_settled_def img_committed_def log_on_disk_def)
  then have sb: "sb_logstart (sb_decode (D 1)) = l_start s" "sint (sb_nlog (sb_decode (D 1))) = l_size s"
    and sz: "1 < d_size s" "0 < l_size s"
    using l by (simp_all add: log_on_disk_def)
  have g: "unat (l_start s) + nat (l_size s) \<le> unat (d_size s)"
    using readyD(1) [OF r] by (simp add: log_geom_def)
  show ?thesis
    using boot_log_use [where D = D, OF sb sz(1) g sz(2)] img_log_disk_ok [OF r i sz(2)]
    unfolding logarea_def by blast
qed

lemma crash_disk_img:
  assumes "crash_disk s D" "ready s" "log_on_disk s"
  shows "img_ok s D"
  using assms
proof induction
  case (in_commit u ws k)
  have h0: "hdr_n (d_disk s (l_start s)) = 0" using in_commit.prems(2) by (simp add: log_on_disk_def)
  have "ws = (if l_n s = 0 then [] else commit_writes s)"
    using commit_returns [OF in_commit.prems(1)] in_commit.hyps by auto
  then show ?case
    using commit_prefix_img [OF in_commit.prems(1) h0] h0 by (auto simp: img_ok_def img_settled_def)
next
  case (in_recovery D u k)
  then have i: "img_ok s D" by blast
  have "d_writes u = recover_writes D (l_start s)"
    using img_boot [OF in_recovery.prems i] in_recovery.hyps by auto
  then show ?case using recover_prefix_img [OF in_recovery.prems(1) i] by simp
qed

section \<open>A logged update\<close>

definition logged_update :: "u32 \<Rightarrow> (block \<Rightarrow> block) \<Rightarrow> (unit, 'z lst_scheme) kop" where
  "logged_update bn f = bnd (bread 1 bn) (\<lambda>i.
     andthen (andthen (buf_upd i (\<lambda>p. p\<lparr>b_data := f (b_data p)\<rparr>)) (log_write i)) (brelse i))"

lemma logged_update_use:
  assumes t: "txn s {}" and bn: "bn < d_size s" "bn \<notin> logarea s" and rm: "room s 1" and fr: "nat (l_n s) < NBUF"
  shows "\<exists>t. logged_update bn f s = Ok () t \<and> txn t {} \<and> bview t = (bview s)(bn := f (bview s bn))
     \<and> d_disk t = d_disk s \<and> lframe s t \<and> logged t = log_add (logged s) bn"
proof -
  have "nat (l_n s) + card ({} :: nat set) < NBUF" using fr by simp
  from txn_bread [OF t bn(1) _ this] obtain i a where a: "bread 1 bn s = Ok i a" "txn a {i}" "has_block (b_buf a i) bn"
    "b_data (b_buf a i) = bview s bn" "bview a = bview s" "d_disk a = d_disk s" "bframe s a" by auto
  note lf = lframeD [OF bframe_lframe [OF a(7)]]
  have "bn < d_size a" "bn \<notin> logarea a" "room a 1"
    using bn rm lf bframe_log [OF a(7)] by (simp_all add: room_def)
  from txn_put [OF a(2) _ a(3) this, of f] obtain b where b:
    "andthen (buf_upd i (\<lambda>p. p\<lparr>b_data := f (b_data p)\<rparr>)) (log_write i) a = Ok () b" "txn b {i}"
    "has_block (b_buf b i) bn" "bview b = (bview a)(bn := f (b_data (b_buf a i)))" "d_disk b = d_disk a"
    "logged b = log_add (logged a) bn" "lframe a b" by auto
  obtain c where c: "brelse i b = Ok () c" "txn c ({i} - {i})" "bview c = bview b" "d_disk c = d_disk b" "bframe b c"
    using txn_brelse [OF b(2) _ b(3)] by auto
  have "logged_update bn f s = Ok () c"
    using a(1) b(1) c(1) unfolding logged_update_def by (simp add: bnd_def andthen_def [of _ "brelse i"])
  then show ?thesis
    using b c a logged_bframe [OF c(5)] logged_bframe [OF a(7)]
      lframe_trans [OF lframe_trans [OF bframe_lframe [OF a(7)] b(7)] bframe_lframe [OF c(5)]] by auto
qed

lemma txn_ready: "txn s {} \<Longrightarrow> l_n s < int NBUF \<Longrightarrow> ready s"
  by (simp add: txn_def ready_def logged_def)

section \<open>Properties\<close>

text \<open>
  C2: \<^verbatim>\<open>commit\<close> of a non-empty transaction returns: it writes the blocks of the transaction to
  the log, then the header, then the blocks to their home locations, then the empty header, in
  this order; afterwards every block outside the log is on disk as the cache had it, the header on
  disk is empty and no buffer is dirty.
\<close>

theorem commit_installs:
  assumes r: "ready s" and n: "0 < l_n s"
  shows "\<exists>t. commit s = Ok () t \<and> d_writes t = d_writes s @ commit_writes s
     \<and> (\<forall>b. b \<notin> logarea s \<longrightarrow> d_disk t b = bview s b \<and> bview t b = bview s b)
     \<and> hdr_n (d_disk t (l_start s)) = 0 \<and> l_n t = 0 \<and> dset t = {}"
proof -
  obtain t where t: "commit s = Ok () t" "using_bufs t {}" "dset t = {}" "bframe (s\<lparr>l_n := 0\<rparr>) t"
    "d_writes t = d_writes s @ commit_writes s" "d_disk t = apply_writes (d_disk s) (commit_writes s)"
    using commit_use [OF r n] by blast
  let ?A = "log_copies s (nat (l_n s))" and ?h = "hdr_encode (bview s (l_start s)) (l_n s) (l_block s)"
  have v: "bview t b = d_disk t b" for b by (rule bview_clean [OF t(2)]) (simp_all add: t(3))
  have c: "img_committed s (apply_writes (d_disk s) (?A @ [(l_start s, ?h)]))"
    using header_written [OF r, of "[]"] by simp
  have e: "d_disk t = (apply_writes (apply_writes (d_disk s) (?A @ [(l_start s, ?h)])) (home_writes s))
      (l_start s := hdr_encode ?h 0 (l_block s))" by (simp add: t(6) commit_writes_def Let_def)
  have "b \<noteq> l_start s" if "b \<notin> logarea s" for b using that log_geomD(6) [OF readyD(1) [OF r]] by blast
  then have "d_disk t b = bview s b" if "b \<notin> logarea s" for b
    using committed_all_home [OF r c that] that unfolding e by simp
  moreover have "l_n t = 0" using bframe_log [OF t(4)] by simp
  moreover have "hdr_n (d_disk t (l_start s)) = 0" unfolding e by (simp add: hdr_n_encode)
  ultimately show ?thesis using t(1,3,5) v by (intro exI [of _ t]) simp
qed

text \<open>
  C1: crash atomicity.  \<^verbatim>\<open>commit\<close> returns; whatever prefix of the disk writes it made survives a crash, and however
  many times the recovery of the following boots is itself cut short after some of its writes, the next boot returns,
  and every block outside the log then reads as before the transaction, or every such block reads as the
  transaction left it; the log is empty.
\<close>

theorem log_crash_atomic:
  assumes "ready s" and "hdr_n (d_disk s (l_start s)) = 0" and "1 \<notin> logarea s"
    and "1 \<notin> set (take (nat (l_n s)) (l_block s))" and "1 < d_size s" and "0 < l_size s"
    and "sb_logstart (sb_decode (d_disk s 1)) = l_start s" and "sint (sb_nlog (sb_decode (d_disk s 1))) = l_size s"
  shows "(\<exists>u ws. commit s = Ok () u \<and> d_writes u = d_writes s @ ws)
    \<and> (\<forall>D. crash_disk s D \<longrightarrow> (\<exists>t. boot_log (lst0 D (d_size s)) = Ok () t
       \<and> ((\<forall>b. b \<notin> logarea s \<longrightarrow> bview t b = d_disk s b) \<or> (\<forall>b. b \<notin> logarea s \<longrightarrow> bview t b = bview s b))
       \<and> (\<forall>b. bview t b = d_disk t b) \<and> l_n t = 0))"
proof (intro conjI allI impI)
  show "\<exists>u ws. commit s = Ok () u \<and> d_writes u = d_writes s @ ws" using commit_returns [OF assms(1)] by blast
  fix D
  assume c: "crash_disk s D"
  have l: "log_on_disk s" using assms by (simp add: log_on_disk_def)
  note i = crash_disk_img [OF c assms(1) l]
  obtain t where t: "boot_log (lst0 D (d_size s)) = Ok () t" "using_bufs t {}" "dset t = {}" "l_n t = 0"
    "d_disk t = apply_writes D (recover_writes D (l_start s))" using img_boot [OF assms(1) l i] by blast
  have v: "bview t b = d_disk t b" for b by (rule bview_clean [OF t(2)]) (simp_all add: t(3))
  then show "\<exists>t. boot_log (lst0 D (d_size s)) = Ok () t
      \<and> ((\<forall>b. b \<notin> logarea s \<longrightarrow> bview t b = d_disk s b) \<or> (\<forall>b. b \<notin> logarea s \<longrightarrow> bview t b = bview s b))
      \<and> (\<forall>b. bview t b = d_disk t b) \<and> l_n t = 0" using t recovered_img [OF assms(1) i] by auto
qed

text \<open>
  a logged update inside a transaction with room in the log: \<^verbatim>\<open>bread\<close>, a change of the data,
  \<^verbatim>\<open>log_write\<close> and \<^verbatim>\<open>brelse\<close> return; the block then reads as changed and no other block does, the
  disk is untouched, and the log header gains the block once, however often it is logged.
\<close>

theorem log_write_absorbs:
  assumes t: "txn s {}" and bn: "bn < d_size s" "bn \<notin> logarea s" and rm: "room s 1" and fr: "nat (l_n s) < NBUF"
  shows "\<exists>t. logged_update bn f s = Ok () t \<and> txn t {} \<and> bview t = (bview s)(bn := f (bview s bn))
     \<and> d_disk t = d_disk s \<and> logged t = log_add (logged s) bn"
  using logged_update_use [OF assms] by blast

text \<open>
  \<^verbatim>\<open>begin_op\<close> on every branch: while a commit runs, or when the blocks already logged and ten
  more for each running operation and this one would not fit the log, the process goes to sleep on
  the log with the table lock; otherwise it is counted in and nothing else changes.
\<close>

theorem begin_op_spec:
  assumes "k_held s = []" "k_cur s = Some p" "p < length (k_procs s)"
  shows "if l_committing s \<or> l_n s + (l_outstanding s + 1) * int MAXOPBLOCKS > int LOGSIZE
     then \<exists>t. begin_op s = Blocked t \<and> k_held t = [PtableLock] \<and> p_state (k_procs t ! p) = SLEEPING
            \<and> p_chan (k_procs t ! p) = ChLog \<and> l_outstanding t = l_outstanding s \<and> l_n t = l_n s
     else begin_op s = Ok () (s\<lparr>l_outstanding := l_outstanding s + 1\<rparr>)"
proof (cases "l_committing s \<or> l_n s + (l_outstanding s + 1) * int MAXOPBLOCKS > int LOGSIZE")
  case True
  then show ?thesis
    using assms by (simp add: begin_op_def begin_op_test_def sleep_eq sched_def swtch_def cur_defs lock_defs kdefs) blast
next
  case False
  then have "begin_op s = Ok () (s\<lparr>l_outstanding := l_outstanding s + 1\<rparr>)"
    using assms by (simp add: begin_op_def begin_op_test_def lock_defs kdefs)
  with False show ?thesis by simp
qed

text \<open>A run of logged updates of new blocks, as long as the log takes them.\<close>

lemma for_each_append: "for_each (xs @ ys) f = andthen (for_each xs f) (for_each ys f)"
  by (induction xs) (simp_all add: andthen_assoc)

lemma logged_updates_use:
  assumes t: "txn s {}" and l: "logged s = []" and sz: "l_size s = int LOGSIZE"
    and bs: "distinct bs" "length bs < LOGSIZE" "\<forall>b\<in>set bs. b < d_size s \<and> b \<notin> logarea s"
  shows "\<exists>u. for_each bs (\<lambda>b. logged_update b f) s = Ok () u \<and> txn u {} \<and> logged u = bs \<and> lframe s u"
proof -
  have "wp (for_each bs (\<lambda>b. logged_update b f)) (\<lambda>_ u. txn u {} \<and> logged u = bs \<and> lframe s u) s"
  proof (rule wp_for_each [where I = "\<lambda>js u. txn u {} \<and> logged u = js \<and> lframe s u"])
    fix js b rest u
    assume split: "bs = js @ b # rest" and I: "txn u {} \<and> logged u = js \<and> lframe s u"
    note F = lframeD [of s u]
    have b: "b < d_size u" "b \<notin> logarea u" "b \<notin> set js" using split bs I F by auto
    have "nat (l_n u) = length js" "0 \<le> l_n u" using txnD(7,9) [of u "{}"] I by simp_all
    then have "l_n u = int (length js)" "length js < 29" "l_size u = 30" using split bs(2) sz I F by simp_all
    then have "room u 1" "nat (l_n u) < NBUF" by (simp_all add: room_def)
    from logged_update_use [OF _ b(1,2) this, of f] I obtain v where
      "logged_update b f u = Ok () v" "txn v {}" "lframe u v" "logged v = log_add (logged u) b" by blast
    then show "wp (logged_update b f) (\<lambda>_ u. txn u {} \<and> logged u = js @ [b] \<and> lframe s u) u"
      using I b(3) lframe_trans [of s u v] by (intro wp_OkI) (auto simp: log_add_def)
  qed (use t l in simp)
  then show ?thesis by (auto simp: wp_iff)
qed

lemma logged_update_full:
  assumes t: "txn s {}" and bn: "bn < d_size s" and fr: "nat (l_n s) < NBUF" and full: "l_n s = l_size s - 1"
  shows "logged_update bn f s = Panic ''too big a transaction''"
proof -
  obtain i a where a: "bread 1 bn s = Ok i a" "bframe s a" using txn_bread [OF t bn] fr by auto
  then show ?thesis
    using full bframe_log [OF a(2)]
    by (simp add: logged_update_def bnd_def andthen_def buf_upd_def modify_def log_write_def fetch_def panic_def)
qed

text \<open>Three operations enter an idle log.\<close>

lemma three_enter:
  assumes "k_held s = []" "\<not> l_committing s" "l_n s = 0" "l_outstanding s = 0"
  shows "for_each [0..<3] (\<lambda>_. begin_op) s = Ok () (s\<lparr>l_outstanding := 3\<rparr>)"
  using assms
  by (simp add: upt_rec begin_op_def begin_op_test_def lock_defs kdefs MAXOPBLOCKS_def)

lemma outstanding_cong [simp]:
  "using_bufs (s\<lparr>l_outstanding := n\<rparr>) H = using_bufs s H" "dset (s\<lparr>l_outstanding := n\<rparr>) = dset s"
  by (rule cache_cong; simp)+

lemma three_txn:
  assumes "ready s" "l_n s = 0"
  shows "txn (s\<lparr>l_outstanding := 3\<rparr>) {}"
  using assms by (simp add: txn_def ready_def coherent_def logged_def log_geom_def logarea_def)

text \<open>
  C9: the reservation of \<^verbatim>\<open>begin_op\<close> is one block larger than what \<^verbatim>\<open>log_write\<close> accepts when the log
  has \<^verbatim>\<open>LOGSIZE\<close> blocks, as \<^verbatim>\<open>mkfs\<close> makes it.  From any state with an idle log and no buffer in use, three
  operations are let in one after the other; then they may log up to \<open>3 * MAXOPBLOCKS\<close> different blocks between them,
  ten each, and of any thirty distinct blocks outside the log the first 29 updates are logged and the thirtieth
  panics with ``too big a transaction''.
\<close>

theorem log_overcommit:
  assumes "ready s" "k_held s = []" "\<not> l_committing s" "l_n s = 0" "l_outstanding s = 0" "l_size s = int LOGSIZE"
    and "distinct bs" "length bs = 3 * MAXOPBLOCKS" "\<forall>b\<in>set bs. b < d_size s \<and> b \<notin> logarea s"
  shows "\<exists>t u. for_each [0..<3] (\<lambda>_. begin_op) s = Ok () t
     \<and> for_each (take 29 bs) (\<lambda>b. logged_update b f) t = Ok () u \<and> logged u = take 29 bs
     \<and> for_each bs (\<lambda>b. logged_update b f) t = Panic ''too big a transaction''"
proof -
  let ?t = "s\<lparr>l_outstanding := 3\<rparr>"
  have l: "length bs = 30" using assms(8) by (simp add: MAXOPBLOCKS_def)
  have T: "txn ?t {}" "logged ?t = []" using three_txn [OF assms(1,4)] assms(4) by (simp_all add: logged_def)
  have "logarea ?t = logarea s" by (simp add: logarea_def)
  then have "\<forall>b\<in>set (take 29 bs). b < d_size ?t \<and> b \<notin> logarea ?t" using assms(9) set_take_subset [of 29 bs] by auto
  then obtain u where u: "for_each (take 29 bs) (\<lambda>b. logged_update b f) ?t = Ok () u" "txn u {}" "logged u = take 29 bs" "lframe ?t u"
    using logged_updates_use [OF T, of "take 29 bs" f] assms(6,7) l by auto
  note F = lframeD [OF u(4)]
  have "nat (l_n u) = 29" "0 \<le> l_n u" using txnD(7,9) [OF u(2)] u(3) l by simp_all
  then have n: "l_n u = 29" by linarith
  have "bs ! 29 < d_size u" using assms(9) l F nth_mem [of 29 bs] by simp
  then have "logged_update (bs ! 29) f u = Panic ''too big a transaction''"
    using logged_update_full [OF u(2)] n F assms(6) by simp
  then have "for_each (take 29 bs @ [bs ! 29]) (\<lambda>b. logged_update b f) ?t = Panic ''too big a transaction''"
    using u(1) by (simp add: for_each_append andthen_def bnd_def)
  moreover have "take 29 bs @ [bs ! 29] = bs" using l take_Suc_conv_app_nth [of 29 bs] by simp
  ultimately have "for_each bs (\<lambda>b. logged_update b f) ?t = Panic ''too big a transaction''" by (simp only:)
  then show ?thesis using three_enter [OF assms(2-5)] u(1,3) by blast
qed

section \<open>Witnesses\<close>

text \<open>A disk with a superblock as \<^verbatim>\<open>mkfs\<close> writes it: 1000 blocks, a log of 30 blocks at block 2.\<close>

definition demo_disk :: "u32 \<Rightarrow> block" where
  "demo_disk b = (if b = 1 then store32 (store32 (\<lambda>_. 0) 12 30) 16 2 else (\<lambda>_. 0))"

definition demo_txn :: lst where
  "demo_txn = run sample_start (lst0 demo_disk 1000)"

definition demo_ready :: lst where
  "demo_ready = run (logged_update 100 (\<lambda>d. d(0 := 7))) demo_txn"

lemma demo_txn_facts:
  "txn demo_txn {}" "d_size demo_txn = 1000" "d_disk demo_txn = demo_disk" "l_n demo_txn = 0"
  "l_size demo_txn = 30" "l_start demo_txn = 2" "k_held demo_txn = []" "l_outstanding demo_txn = 1"
proof -
  let ?s = "lst0 demo_disk 1000"
  have S: "b_buf ?s j = buf0" "k_held ?s = []" "k_cur ?s \<noteq> None" "d_disk ?s = demo_disk" "d_size ?s = 1000"
    "l_n ?s = 0" "length (l_block ?s) = LOGSIZE" for j
    by (simp_all add: lst0_def bst0_def bst.defs kst.defs kst0_def)
  from sample_start_use [of ?s] S obtain t where "sample_start ?s = Ok () t" "txn t {}" "d_size t = 1000" "d_disk t = demo_disk"
    "l_n t = 0" "l_size t = 30" "l_start t = 2" "k_held t = []" "l_outstanding t = 1" by auto
  then show "txn demo_txn {}" "d_size demo_txn = 1000" "d_disk demo_txn = demo_disk" "l_n demo_txn = 0"
    "l_size demo_txn = 30" "l_start demo_txn = 2" "k_held demo_txn = []" "l_outstanding demo_txn = 1"
    by (simp_all add: demo_txn_def run_def)
qed

lemma demo_area: "logarea s = {b. 2 \<le> unat b \<and> unat b < 32}" if "l_start s = 2" "l_size s = 30"
  using that by (simp add: logarea_def)

theorem log_write_absorbs_witness:
  "\<exists>t. logged_update 100 (\<lambda>d. d(0 := 7)) demo_txn = Ok () t \<and> bview t 100 0 = 7 \<and> logged t = [100]"
proof -
  note D = demo_txn_facts
  have "(100 :: u32) < d_size demo_txn" "100 \<notin> logarea demo_txn" "room demo_txn 1" "nat (l_n demo_txn) < NBUF"
    using D by (simp_all add: demo_area room_def)
  moreover have "logged demo_txn = []" using D by (simp add: logged_def)
  ultimately show ?thesis
    using log_write_absorbs [OF D(1), of 100 "\<lambda>d. d(0 := 7)"] by (auto simp: log_add_def)
qed

lemma demo_ready_facts:
  "ready demo_ready" "d_disk demo_ready = demo_disk" "l_n demo_ready = 1" "logged demo_ready = [100]"
  "d_size demo_ready = 1000" "l_size demo_ready = 30" "l_start demo_ready = 2" "bview demo_ready 100 0 = 7"
proof -
  note D = demo_txn_facts
  have "(100 :: u32) < d_size demo_txn" "100 \<notin> logarea demo_txn" "room demo_txn 1" "nat (l_n demo_txn) < NBUF"
    using D by (simp_all add: demo_area room_def)
  then obtain t where t: "logged_update 100 (\<lambda>d. d(0 := 7)) demo_txn = Ok () t" "txn t {}"
    "bview t = (bview demo_txn)(100 := (bview demo_txn 100)(0 := 7))" "d_disk t = d_disk demo_txn" "lframe demo_txn t"
    "logged t = log_add (logged demo_txn) 100"
    using logged_update_use [OF D(1), of 100 "\<lambda>d. d(0 := 7)"] by blast
  have e: "demo_ready = t" using t(1) by (simp add: demo_ready_def run_def)
  show lg: "logged demo_ready = [100]" using t(6) D(4) by (simp add: e logged_def log_add_def)
  show n: "l_n demo_ready = 1" using txnD(7,9) [OF t(2)] lg by (simp add: e)
  show "ready demo_ready" using txn_ready [OF t(2)] n by (simp add: e)
  show "d_disk demo_ready = demo_disk" "d_size demo_ready = 1000" "l_size demo_ready = 30" "l_start demo_ready = 2"
    "bview demo_ready 100 0 = 7"
    using t(3,4) lframeD [OF t(5)] D by (simp_all add: e)
qed

theorem commit_installs_witness:
  "\<exists>t. commit demo_ready = Ok () t \<and> d_disk t 100 0 = 7 \<and> l_n t = 0"
  using commit_installs [OF demo_ready_facts(1)] demo_ready_facts(3,6,7,8) by (auto simp: demo_area)

lemma demo_sb:
  "sb_logstart (sb_decode demo_disk_1) = 2" "sint (sb_nlog (sb_decode demo_disk_1)) = 30"
  if "demo_disk_1 = demo_disk 1"
  by (simp_all add: that demo_disk_def sb_decode_def load32_store32_other)

theorem log_crash_atomic_witness:
  "\<exists>u ws t. commit demo_ready = Ok () u \<and> d_writes u = d_writes demo_ready @ ws
     \<and> boot_log (lst0 (apply_writes (d_disk demo_ready) (take 2 ws)) 1000) = Ok () t \<and> (bview t 100 0 = 0 \<or> bview t 100 0 = 7)"
proof -
  note D = demo_ready_facts
  have 1: "hdr_n (d_disk demo_ready (l_start demo_ready)) = 0" by (simp add: D demo_disk_def hdr_n_def load32_def)
  have 2: "1 \<notin> logarea demo_ready" "100 \<notin> logarea demo_ready" using D by (simp_all add: demo_area)
  have 3: "1 \<notin> set (take (nat (l_n demo_ready)) (l_block demo_ready))" using D(4) by (simp add: logged_def)
  have 4: "1 < d_size demo_ready" "0 < l_size demo_ready" by (simp_all add: D)
  have 5: "sb_logstart (sb_decode (d_disk demo_ready 1)) = l_start demo_ready"
    "sint (sb_nlog (sb_decode (d_disk demo_ready 1))) = l_size demo_ready" using demo_sb D by simp_all
  note T = log_crash_atomic [OF D(1) 1 2(1) 3 4 5]
  obtain u ws where u: "commit demo_ready = Ok () u" "d_writes u = d_writes demo_ready @ ws" using T by blast
  let ?D = "apply_writes (d_disk demo_ready) (take 2 ws)"
  have "crash_disk demo_ready ?D" by (rule in_commit [OF u])
  then obtain t where t: "boot_log (lst0 ?D (d_size demo_ready)) = Ok () t"
    "(\<forall>b. b \<notin> logarea demo_ready \<longrightarrow> bview t b = d_disk demo_ready b)
      \<or> (\<forall>b. b \<notin> logarea demo_ready \<longrightarrow> bview t b = bview demo_ready b)"
    using T by blast
  then have "bview t 100 0 = 0 \<or> bview t 100 0 = 7" using 2(2) D(2,8) by (auto simp: demo_disk_def)
  with t(1) u show ?thesis by (auto simp: D)
qed

theorem begin_op_spec_witness:
  "begin_op (lst0 demo_disk 1000\<lparr>l_outstanding := 1\<rparr>) = Ok () (lst0 demo_disk 1000\<lparr>l_outstanding := 2\<rparr>)"
  using begin_op_spec [of "lst0 demo_disk 1000\<lparr>l_outstanding := 1\<rparr>" 0]
  by (simp add: lst0_def bst0_def bst.defs kst.defs kst0_def MAXOPBLOCKS_def NPROC_def)

lemma demo_idle:
  "ready (demo_txn\<lparr>l_outstanding := 0\<rparr>)" "\<not> l_committing demo_txn"
proof -
  note D = demo_txn_facts
  have "ready demo_txn" using txn_ready [OF D(1)] D(4) by simp
  then show "ready (demo_txn\<lparr>l_outstanding := 0\<rparr>)" by (simp add: ready_def log_geom_def logarea_def)
  let ?s = "lst0 demo_disk 1000"
  have S: "b_buf ?s j = buf0" "k_held ?s = []" "k_cur ?s \<noteq> None" "d_size ?s = 1000" "l_n ?s = 0"
    "length (l_block ?s) = LOGSIZE" "\<not> l_committing ?s" for j
    by (simp_all add: lst0_def bst0_def bst.defs kst.defs kst0_def)
  obtain a where "sample_start ?s = Ok () (a\<lparr>l_start := 2, l_size := 30, l_dev := 1, l_outstanding := 1\<rparr>)" "bframe ?s a"
    using sample_start_use [of ?s] S(1-6) by blast
  then show "\<not> l_committing demo_txn" using bframe_log(4) [of ?s a] S(7) by (simp add: demo_txn_def run_def)
qed

theorem log_overcommit_witness:
  "\<exists>t. for_each [0..<3] (\<lambda>_. begin_op) (demo_txn\<lparr>l_outstanding := 0\<rparr>) = Ok () t
     \<and> for_each (map of_nat [100..<130]) (\<lambda>b. logged_update b (\<lambda>d. d(0 := 7))) t = Panic ''too big a transaction''"
proof -
  let ?s = "demo_txn\<lparr>l_outstanding := 0\<rparr>" and ?bs = "map of_nat [100..<130] :: u32 list"
  note D = demo_txn_facts
  have "unat (of_nat n :: u32) = n" if "n < 130" for n using that by (simp add: unat_of_nat)
  then have b: "inj_on (of_nat :: nat \<Rightarrow> u32) {100..<130}" "\<forall>b\<in>set ?bs. 100 \<le> unat b \<and> unat b < 130"
    by (auto intro!: inj_onI) (metis atLeastLessThan_iff)
  have "distinct ?bs" "length ?bs = 3 * MAXOPBLOCKS" using b(1) by (simp_all add: distinct_map MAXOPBLOCKS_def)
  moreover have "\<forall>b\<in>set ?bs. b < d_size ?s \<and> b \<notin> logarea ?s"
    using b(2) D demo_area [of ?s] by (auto simp: word_less_nat_alt)
  ultimately show ?thesis
    using log_overcommit [of ?s ?bs "\<lambda>d. d(0 := 7)"] demo_idle D by auto
qed

end
