(* ===== verification/Cstring.thy ===== *)
theory Cstring
  imports Bytes
begin

text \<open>
  The memory and string routines of \<^verbatim>\<open>string.c\<close>, on a byte memory with 32-bit addresses, with the
  string instructions of \<^verbatim>\<open>x86.h\<close> that \<^verbatim>\<open>memset\<close> uses.  Loop counters that only count down are
  natural numbers; pointers are words and wrap.  \<^verbatim>\<open>strlen\<close> may run forever and is a partial
  function.
\<close>

type_synonym mem = "u32 \<Rightarrow> u8"

section \<open>Definitions\<close>

fun stosb :: "mem \<Rightarrow> u32 \<Rightarrow> u8 \<Rightarrow> nat \<Rightarrow> mem" where
  "stosb m a c 0 = m"
| "stosb m a c (Suc n) = stosb (m(a := c)) (a + 1) c n"

fun stosl :: "mem \<Rightarrow> u32 \<Rightarrow> u32 \<Rightarrow> nat \<Rightarrow> mem" where
  "stosl m a v 0 = m"
| "stosl m a v (Suc n) = stosl (store32 m a v) (a + 4) v n"

definition memset :: "mem \<Rightarrow> u32 \<Rightarrow> u32 \<Rightarrow> u32 \<Rightarrow> mem" where
  "memset m dst c n =
     (if dst mod 4 = 0 \<and> n mod 4 = 0 then
        let c = c AND 0xFF in
        stosl m dst (push_bit 24 c OR push_bit 16 c OR push_bit 8 c OR c) (unat n div 4)
      else stosb m dst (ucast c) (unat n))"

fun memcmp :: "mem \<Rightarrow> u32 \<Rightarrow> u32 \<Rightarrow> nat \<Rightarrow> int" where
  "memcmp m s1 s2 0 = 0"
| "memcmp m s1 s2 (Suc n) =
     (if m s1 \<noteq> m s2 then uint (m s1) - uint (m s2) else memcmp m (s1 + 1) (s2 + 1) n)"

fun copy_down :: "mem \<Rightarrow> u32 \<Rightarrow> u32 \<Rightarrow> nat \<Rightarrow> mem" where
  "copy_down m d s 0 = m"
| "copy_down m d s (Suc n) = copy_down (m(d - 1 := m (s - 1))) (d - 1) (s - 1) n"

fun copy_up :: "mem \<Rightarrow> u32 \<Rightarrow> u32 \<Rightarrow> nat \<Rightarrow> mem" where
  "copy_up m d s 0 = m"
| "copy_up m d s (Suc n) = copy_up (m(d := m s)) (d + 1) (s + 1) n"

definition memmove :: "mem \<Rightarrow> u32 \<Rightarrow> u32 \<Rightarrow> u32 \<Rightarrow> mem" where
  "memmove m dst src n =
     (if src < dst \<and> src + n > dst then copy_down m (dst + n) (src + n) (unat n)
      else copy_up m dst src (unat n))"

definition memcpy :: "mem \<Rightarrow> u32 \<Rightarrow> u32 \<Rightarrow> u32 \<Rightarrow> mem" where
  "memcpy m dst src n = memmove m dst src n"

fun strncmp :: "mem \<Rightarrow> u32 \<Rightarrow> u32 \<Rightarrow> nat \<Rightarrow> int" where
  "strncmp m p q 0 = 0"
| "strncmp m p q (Suc n) =
     (if m p \<noteq> 0 \<and> m p = m q then strncmp m (p + 1) (q + 1) n else uint (m p) - uint (m q))"

fun strncpy :: "mem \<Rightarrow> u32 \<Rightarrow> u32 \<Rightarrow> nat \<Rightarrow> mem" where
  "strncpy m s t 0 = m"
| "strncpy m s t (Suc n) =
     (let c = m t; m' = m(s := c) in
      if c \<noteq> 0 then strncpy m' (s + 1) (t + 1) n else stosb m' (s + 1) 0 n)"

text \<open>\<^verbatim>\<open>safestrcpy\<close> after its test \<^verbatim>\<open>n <= 0\<close>; the argument is \<open>n - 1\<close>, the bytes left besides the zero.\<close>

fun safestrcpy_loop :: "mem \<Rightarrow> u32 \<Rightarrow> u32 \<Rightarrow> nat \<Rightarrow> mem" where
  "safestrcpy_loop m s t 0 = m(s := 0)"
| "safestrcpy_loop m s t (Suc n) =
     (let c = m t; m' = m(s := c) in
      if c \<noteq> 0 then safestrcpy_loop m' (s + 1) (t + 1) n else m'(s + 1 := 0))"

definition safestrcpy :: "mem \<Rightarrow> u32 \<Rightarrow> u32 \<Rightarrow> int \<Rightarrow> mem" where
  "safestrcpy m s t n = (if n \<le> 0 then m else safestrcpy_loop m s t (nat n - 1))"

partial_function (option) strlen_from :: "mem \<Rightarrow> u32 \<Rightarrow> nat \<Rightarrow> nat option" where
  "strlen_from m s n = (if m (s + of_nat n) = 0 then Some n else strlen_from m s (Suc n))"

definition strlen :: "mem \<Rightarrow> u32 \<Rightarrow> nat option" where
  "strlen m s = strlen_from m s 0"

section \<open>Offsets\<close>

lemma off_Suc: "a + of_nat (Suc i) = (a + 1) + (of_nat i :: u32)"
  by (simp add: add.assoc add.commute add.left_commute)

definition in_range :: "u32 \<Rightarrow> nat \<Rightarrow> u32 \<Rightarrow> bool" where
  "in_range a n b \<longleftrightarrow> (\<exists>i<n. b = a + of_nat i)"

lemma in_range_0 [simp]: "\<not> in_range a 0 b"
  by (simp add: in_range_def)

lemma in_range_Suc: "in_range a (Suc n) b \<longleftrightarrow> b = a \<or> in_range (a + 1) n b"
  unfolding in_range_def Ex_less_Suc2 off_Suc by simp

section \<open>memset\<close>

lemma stosb_val: "stosb m a c n b = (if in_range a n b then c else m b)"
  by (induction n arbitrary: m a) (simp_all add: in_range_Suc)

lemma byte_pattern:
  fixes c :: u32
  defines "v \<equiv> push_bit 24 (c AND 0xFF) OR push_bit 16 (c AND 0xFF) OR push_bit 8 (c AND 0xFF) OR (c AND 0xFF)"
  shows "ucast v = (ucast c :: u8)" "ucast (drop_bit 8 v) = (ucast c :: u8)"
    "ucast (drop_bit 16 v) = (ucast c :: u8)" "ucast (drop_bit 24 v) = (ucast c :: u8)"
proof -
  have m: "c AND 0xFF = take_bit 8 c" by (simp add: take_bit_eq_mask mask_eq_exp_minus_1)
  show "ucast v = (ucast c :: u8)" "ucast (drop_bit 8 v) = (ucast c :: u8)"
    "ucast (drop_bit 16 v) = (ucast c :: u8)" "ucast (drop_bit 24 v) = (ucast c :: u8)"
    unfolding v_def m
    by (intro bit_word_eqI; auto simp: bit_ucast_iff bit_or_iff bit_push_bit_iff bit_take_bit_iff bit_drop_bit_eq)+
qed

lemma in_range_4: "in_range a (4 * Suc n) b \<longleftrightarrow> b = a \<or> b = a + 1 \<or> b = a + 2 \<or> b = a + 3 \<or> in_range (a + 4) (4 * n) b"
proof -
  have "4 * Suc n = Suc (Suc (Suc (Suc (4 * n))))" by simp
  then show ?thesis by (simp only: in_range_Suc add.assoc) (simp add: add.assoc)
qed

lemma stosl_val:
  assumes "ucast v = c" "ucast (drop_bit 8 v) = c" "ucast (drop_bit 16 v) = c" "ucast (drop_bit 24 v) = c"
  shows "stosl m a v n b = (if in_range a (4 * n) b then c else m b)"
proof (induction n arbitrary: m a)
  case 0
  then show ?case by simp
next
  case (Suc n)
  have "store32 m a v = m(a := c, a + 1 := c, a + 2 := c, a + 3 := c)" using assms by (simp add: store32_def)
  then show ?case unfolding in_range_4 by (simp add: Suc)
qed

section \<open>memmove\<close>

lemma unat_off: "unat x + k < 2 ^ 32 \<Longrightarrow> unat (x + of_nat k :: u32) = unat x + k"
  by (simp add: unat_word_ariths unat_of_nat)

lemma off_inj: "unat x + k < 2 ^ 32 \<Longrightarrow> unat y + j < 2 ^ 32 \<Longrightarrow> x + of_nat k = (y + of_nat j :: u32) \<longleftrightarrow> unat x + k = unat y + j"
  using unat_off [of x k] unat_off [of y j] by (metis word_unat_eq_iff)

lemma copy_up_other: "\<not> in_range d n b \<Longrightarrow> copy_up m d s n b = m b"
  by (induction n arbitrary: m d s) (simp_all add: in_range_Suc)

lemma copy_up_val:
  assumes "unat s + n < 2 ^ 32" "unat d + n < 2 ^ 32" "unat d \<le> unat s \<or> unat s + n \<le> unat d" "k < n"
  shows "copy_up m d s n (d + of_nat k) = m (s + of_nat k)"
  using assms
proof (induction n arbitrary: m d s k)
  case 0
  then show ?case by simp
next
  case (Suc n)
  have us: "unat (s + 1) = unat s + 1" "unat (d + 1) = unat d + 1"
    using unat_off [of s 1] unat_off [of d 1] Suc.prems(1,2) by simp_all
  show ?case
  proof (cases k)
    case 0
    have "\<not> in_range (d + 1) n d"
    proof
      assume "in_range (d + 1) n d"
      then obtain i where i: "i < n" "d = d + 1 + of_nat i" unfolding in_range_def by blast
      have "unat (d + 1 + of_nat i) = unat d + 1 + i" using unat_off [of "d + 1" i] us i(1) Suc.prems(2) by simp
      then show False using arg_cong [OF i(2), of unat] by linarith
    qed
    then show ?thesis using 0 by (simp add: copy_up_other)
  next
    case k: (Suc j)
    define m' where "m' = m(d := m s)"
    have "unat (s + 1) + j \<noteq> unat d" using us Suc.prems k by linarith
    then have ne: "s + 1 + of_nat j \<noteq> d"
      using off_inj [of "s + 1" j d 0] us Suc.prems k by simp
    have "copy_up m' (d + 1) (s + 1) n (d + 1 + of_nat j) = m' (s + 1 + of_nat j)"
      by (rule Suc.IH) (use us Suc.prems k in auto)
    then show ?thesis using ne unfolding k off_Suc by (simp add: m'_def)
  qed
qed

lemma copy_down_other: "\<not> in_range (d - of_nat n) n b \<Longrightarrow> copy_down m d s n b = m b"
proof (induction n arbitrary: m d s)
  case 0
  then show ?case by simp
next
  case (Suc n)
  have e: "d - of_nat (Suc n) = d - 1 - of_nat n" by simp
  have no: "b \<noteq> d - 1 - of_nat n + of_nat i" if "i < Suc n" for i
    using Suc.prems that unfolding in_range_def e by blast
  have "b \<noteq> d - 1" using no [of n] by simp
  moreover have "\<not> in_range (d - 1 - of_nat n) n b" 
  proof
    assume "in_range (d - 1 - of_nat n) n b"
    then obtain i where "i < n" "b = d - 1 - of_nat n + of_nat i" unfolding in_range_def by blast
    then show False using no [of i] by simp
  qed
  ultimately show ?case using Suc.IH by simp
qed

lemma copy_down_val:
  assumes "unat s + n < 2 ^ 32" "unat d + n < 2 ^ 32" "unat s \<le> unat d" "k < n"
  shows "copy_down m (d + of_nat n) (s + of_nat n) n (d + of_nat k) = m (s + of_nat k)"
  using assms
proof (induction n arbitrary: m k)
  case 0
  then show ?case by simp
next
  case (Suc n)
  have e: "d + of_nat (Suc n) - 1 = d + of_nat n" "s + of_nat (Suc n) - 1 = s + of_nat n" by simp_all
  define m' where "m' = m(d + of_nat n := m (s + of_nat n))"
  have c: "copy_down m (d + of_nat (Suc n)) (s + of_nat (Suc n)) (Suc n) = copy_down m' (d + of_nat n) (s + of_nat n) n"
    by (simp only: copy_down.simps e m'_def)
  show ?case
  proof (cases "k = n")
    case True
    have "\<not> in_range d n (d + of_nat n)"
      using off_inj [of d n d] Suc.prems by (auto simp: in_range_def)
    then show ?thesis unfolding c True by (subst copy_down_other) (simp_all add: m'_def)
  next
    case False
    then have k: "k < n" using Suc.prems by simp
    have "s + of_nat k \<noteq> d + of_nat n"
      using off_inj [of s k d n] Suc.prems k by auto
    moreover have "copy_down m' (d + of_nat n) (s + of_nat n) n (d + of_nat k) = m' (s + of_nat k)"
      by (rule Suc.IH) (use Suc.prems k in auto)
    ultimately show ?thesis unfolding c by (simp add: m'_def)
  qed
qed

section \<open>Properties\<close>

text \<open>
  \<^verbatim>\<open>memmove\<close> copies correctly also between overlapping regions, in both directions: with both
  regions inside the address space, every destination byte becomes the source byte as it was
  before the call and every byte outside the destination keeps its value.
\<close>

theorem memmove_overlap:
  assumes "unat src + unat n < 2 ^ 32" "unat dst + unat n < 2 ^ 32"
  shows "memmove m dst src n b
     = (if unat dst \<le> unat b \<and> unat b < unat dst + unat n then m (src + (b - dst)) else m b)"
proof -
  have sn: "unat (src + n) = unat src + unat n" using assms(1) by (simp add: unat_word_ariths)
  have r: "in_range dst (unat n) b \<longleftrightarrow> unat dst \<le> unat b \<and> unat b < unat dst + unat n"
  proof
    assume "in_range dst (unat n) b"
    then obtain i where "i < unat n" "b = dst + of_nat i" by (auto simp: in_range_def)
    then show "unat dst \<le> unat b \<and> unat b < unat dst + unat n" using unat_off [of dst i] assms(2) by simp
  next
    assume b: "unat dst \<le> unat b \<and> unat b < unat dst + unat n"
    then have "unat (dst + of_nat (unat b - unat dst)) = unat b" using unat_off [of dst "unat b - unat dst"] assms(2) by simp
    then have "b = dst + of_nat (unat b - unat dst)" by (simp add: word_unat_eq_iff)
    then show "in_range dst (unat n) b" unfolding in_range_def using b by (intro exI [of _ "unat b - unat dst"]) auto
  qed
  have in': "copy_up m dst src (unat n) b = m (src + (b - dst))" if "i < unat n" "b = dst + of_nat i"
      "\<not> (src < dst \<and> src + n > dst)" for i
    using copy_up_val [OF assms _ that(1)] that(2,3) sn by (auto simp: word_less_nat_alt not_less)
  have dn: "copy_down m (dst + n) (src + n) (unat n) b = m (src + (b - dst))" if "i < unat n" "b = dst + of_nat i"
      "src < dst" for i
    using copy_down_val [OF assms _ that(1), of m] that(2,3) by (simp add: word_less_nat_alt)
  have out: "copy_down m (dst + n) (src + n) (unat n) b = m b" if "\<not> in_range dst (unat n) b"
    by (rule copy_down_other) (use that in simp)
  show ?thesis
  proof (cases "in_range dst (unat n) b")
    case True
    then obtain i where "i < unat n" "b = dst + of_nat i" by (auto simp: in_range_def)
    with True in' dn show ?thesis unfolding r [symmetric] memmove_def by simp
  next
    case False
    then show ?thesis unfolding r [symmetric] memmove_def using out copy_up_other by simp
  qed
qed

theorem memmove_overlap_witness:
  "memmove (\<lambda>a. ucast a) 4 2 3 5 = ucast (3 :: u32) \<and> memmove (\<lambda>a. ucast a) 2 4 3 3 = ucast (5 :: u32)"
  using memmove_overlap [of 2 3 4 "\<lambda>a. ucast a" 5] memmove_overlap [of 4 3 2 "\<lambda>a. ucast a" 3] by simp

lemma memset_val:
  "memset m dst c n b = (if in_range dst (unat n) b then ucast c else m b)"
proof (cases "dst mod 4 = 0 \<and> n mod 4 = 0")
  case True
  then have "unat n mod 4 = 0" using unat_mod [of n 4] by simp
  then have "4 * (unat n div 4) = unat n" by presburger
  then show ?thesis
    using True stosl_val [OF byte_pattern [of c], where m = m and a = dst and n = "unat n div 4" and b = b] by (simp add: memset_def Let_def)
next
  case False
  then show ?thesis unfolding memset_def if_not_P [OF False] by (simp add: stosb_val)
qed

text \<open>
  \<^verbatim>\<open>memset\<close>, which stores whole words when address and size are aligned to four, has the same
  effect as the byte-wise store on every input: the \<open>n\<close> bytes from \<open>dst\<close> become the low byte of \<open>c\<close>
  and no other byte changes.
\<close>

theorem memset_sets:
  "memset m dst c n = stosb m dst (ucast c) (unat n)
   \<and> memset m dst c n b = (if in_range dst (unat n) b then ucast c else m b)"
  by (simp add: fun_eq_iff memset_val stosb_val)

lemma safestrcpy_loop_props:
  "(\<forall>b. \<not> in_range s (Suc n) b \<longrightarrow> safestrcpy_loop m s t n b = m b)
     \<and> (\<exists>b. in_range s (Suc n) b \<and> safestrcpy_loop m s t n b = 0)"
proof (induction n arbitrary: m s t)
  case 0
  then show ?case by (auto simp: in_range_Suc)
next
  case (Suc n)
  show ?case
  proof (cases "m t = 0")
    case True
    then show ?thesis by (auto simp: in_range_Suc Let_def)
  next
    case False
    define m' where "m' = m(s := m t)"
    have e: "safestrcpy_loop m s t (Suc n) = safestrcpy_loop m' (s + 1) (t + 1) n"
      using False by (simp add: m'_def Let_def)
    have "m' b = m b" if "b \<noteq> s" for b using that by (simp add: m'_def)
    then show ?thesis unfolding e in_range_Suc [of s] using Suc.IH [of "s + 1" m' "t + 1"] by auto
  qed
qed

text \<open>
  \<^verbatim>\<open>safestrcpy\<close> with a positive size writes only inside the \<open>n\<close> bytes of the destination and
  leaves a zero byte among them, whatever the source; with a size of zero or less it writes nothing.
\<close>

theorem safestrcpy_bounded:
  "if n \<le> 0 then safestrcpy m s t n = m
   else (\<forall>b. in_range s (nat n) b \<or> safestrcpy m s t n b = m b)
      \<and> (\<exists>b. in_range s (nat n) b \<and> safestrcpy m s t n b = 0)"
proof (cases "n \<le> 0")
  case False
  then have "Suc (nat n - 1) = nat n" by simp
  then show ?thesis using False safestrcpy_loop_props [of s "nat n - 1" m t] by (auto simp: safestrcpy_def)
qed (simp add: safestrcpy_def)

lemma strlen_from_le:
  assumes "m (s + of_nat k) = 0" "n \<le> k"
  shows "\<exists>j. strlen_from m s n = Some j \<and> n \<le> j \<and> j \<le> k \<and> m (s + of_nat j) = 0 \<and> (\<forall>i. n \<le> i \<and> i < j \<longrightarrow> m (s + of_nat i) \<noteq> 0)"
  using assms(2)
proof (induction "k - n" arbitrary: n)
  case 0
  then have "n = k" by simp
  then show ?case using assms(1) by (auto simp: strlen_from.simps)
next
  case (Suc d)
  show ?case
  proof (cases "m (s + of_nat n) = 0")
    case True
    then show ?thesis using Suc.prems by (auto simp: strlen_from.simps)
  next
    case False
    then have "n \<noteq> k" using assms(1) by auto
    then obtain j where j: "strlen_from m s (Suc n) = Some j" "Suc n \<le> j" "j \<le> k" "m (s + of_nat j) = 0"
      "\<And>i. Suc n \<le> i \<and> i < j \<Longrightarrow> m (s + of_nat i) \<noteq> 0"
      using Suc.hyps(1) [of "Suc n"] Suc.hyps(2) Suc.prems by force
    have "m (s + of_nat i) \<noteq> 0" if "n \<le> i \<and> i < j" for i
      using that j(5) [of i] False by (cases "i = n") auto
    then show ?thesis using j False by (subst strlen_from.simps) auto
  qed
qed

text \<open>\<^verbatim>\<open>strlen\<close> returns, and returns the index of the first zero byte, whenever there is one.\<close>

theorem strlen_first_zero:
  assumes "m (s + of_nat k) = 0"
  shows "\<exists>j. strlen m s = Some j \<and> j \<le> k \<and> m (s + of_nat j) = 0 \<and> (\<forall>i<j. m (s + of_nat i) \<noteq> 0)"
  using strlen_from_le [where m = m and s = s, OF assms, of 0] by (auto simp: strlen_def)

theorem strlen_first_zero_witness:
  "\<exists>j. strlen (\<lambda>a. if a = 13 then 0 else 1) 10 = Some j \<and> j \<le> 3"
  using strlen_first_zero [of "\<lambda>a. if a = 13 then 0 else 1" 10 3] by auto

end
