(* ===== verification/Fs.thy ===== *)
theory Fs
  imports Txn Cstring
begin

text \<open>
  The file system of \<^verbatim>\<open>fs.c\<close>: block allocator, inodes, inode contents, directories and paths.  The
  inode cache is the table \<open>f_inode\<close> of the entries \<open>0 ..< NINODE\<close>; an inode pointer is an index into it.  On-disk inodes and
  directory entries are read and written at the byte offsets of \<^verbatim>\<open>struct dinode\<close> and
  \<^verbatim>\<open>struct dirent\<close>.

  \<^verbatim>\<open>readi\<close> returns the bytes it copies to the destination along with the count, and \<^verbatim>\<open>writei\<close> takes the
  bytes of the source.  The device table \<^verbatim>\<open>devsw\<close> holds function pointers; its entries are an
  argument (\<open>devs\<close>) of the routines that may call one.  A C string is the list of its bytes before the
  terminating zero.  The loops over block groups and over the entries of a directory are written
  over the list of their index values.
\<close>

section \<open>Data\<close>

definition NDIRECT :: nat where "NDIRECT = 12"
definition NINDIRECT :: nat where "NINDIRECT = BSIZE div 4"
definition MAXFILE :: nat where "MAXFILE = NDIRECT + NINDIRECT"
definition DIRSIZ :: nat where "DIRSIZ = 14"
definition IPB :: u32 where "IPB = 8"
definition BPB :: nat where "BPB = BSIZE * 8"
definition ROOTDEV :: u32 where "ROOTDEV = 1"
definition ROOTINO :: u32 where "ROOTINO = 1"
definition T_DIR :: u16 where "T_DIR = 1"
definition T_FILE :: u16 where "T_FILE = 2"
definition T_DEV :: u16 where "T_DEV = 3"

definition IBLOCK :: "u32 \<Rightarrow> superblock \<Rightarrow> u32" where
  "IBLOCK i sb = i div IPB + sb_inodestart sb"

definition BBLOCK :: "u32 \<Rightarrow> superblock \<Rightarrow> u32" where
  "BBLOCK b sb = b div of_nat BPB + sb_bmapstart sb"

record dinode =
  di_type :: u16
  di_major :: u16
  di_minor :: u16
  di_nlink :: u16
  di_size :: u32
  di_addrs :: "u32 list"

definition dinode_at :: "block \<Rightarrow> nat \<Rightarrow> dinode" where
  "dinode_at d off = \<lparr>di_type = load16 d off, di_major = load16 d (off + 2), di_minor = load16 d (off + 4),
     di_nlink = load16 d (off + 6), di_size = load32 d (off + 8), di_addrs = load_array d (off + 12) (NDIRECT + 1)\<rparr>"

definition dinode_put :: "block \<Rightarrow> nat \<Rightarrow> dinode \<Rightarrow> block" where
  "dinode_put d off di = store_array (store32 (store16 (store16 (store16 (store16 d
     off (di_type di)) (off + 2) (di_major di)) (off + 4) (di_minor di)) (off + 6) (di_nlink di))
     (off + 8) (di_size di)) (off + 12) (di_addrs di)"

definition dinode_off :: "u32 \<Rightarrow> nat" where
  "dinode_off inum = 64 * unat (inum mod IPB)"

record inode =
  i_dev :: u32
  i_inum :: u32
  i_ref :: int
  i_lock :: sleeplock
  i_valid :: bool
  i_type :: u16
  i_major :: u16
  i_minor :: u16
  i_nlink :: u16
  i_size :: u32
  i_addrs :: "u32 list"

record fsst = lst +
  f_sb :: superblock
  f_inode :: "nat \<Rightarrow> inode"

type_synonym 'z devs = "nat \<Rightarrow> (nat \<Rightarrow> u32 \<Rightarrow> (int \<times> u8 list, 'z fsst_scheme) kop) option"
type_synonym 'z devw = "nat \<Rightarrow> (nat \<Rightarrow> u8 list \<Rightarrow> u32 \<Rightarrow> (int, 'z fsst_scheme) kop) option"

definition ino_get :: "nat \<Rightarrow> (inode \<Rightarrow> 'a) \<Rightarrow> ('a, 'z fsst_scheme) kop" where
  "ino_get ip f = fetch (\<lambda>s. f (f_inode s ip))"

definition ino_upd :: "nat \<Rightarrow> (inode \<Rightarrow> inode) \<Rightarrow> (unit, 'z fsst_scheme) kop" where
  "ino_upd ip f = modify (\<lambda>s. s\<lparr>f_inode := (f_inode s)(ip := f (f_inode s ip))\<rparr>)"

definition data_upd :: "nat \<Rightarrow> (block \<Rightarrow> block) \<Rightarrow> (unit, 'z bst_scheme) kop" where
  "data_upd b f = buf_upd b (\<lambda>p. p\<lparr>b_data := f (b_data p)\<rparr>)"

definition ino_lock_rd :: "nat \<Rightarrow> 'z fsst_scheme \<Rightarrow> sleeplock" where
  "ino_lock_rd ip s = i_lock (f_inode s ip)"

definition ino_lock_wr :: "nat \<Rightarrow> sleeplock \<Rightarrow> 'z fsst_scheme \<Rightarrow> 'z fsst_scheme" where
  "ino_lock_wr ip l s = s\<lparr>f_inode := (f_inode s)(ip := (f_inode s ip)\<lparr>i_lock := l\<rparr>)\<rparr>"

section \<open>Blocks\<close>

definition bzero :: "u32 \<Rightarrow> u32 \<Rightarrow> (unit, 'z lst_scheme) kop" where
  "bzero dev bno =
     bnd (bread dev bno) (\<lambda>bp.
     andthen (andthen (data_upd bp (\<lambda>d. (\<lambda>_. 0))) (log_write bp))
     (brelse bp))"

definition bitmask :: "nat \<Rightarrow> u8" where
  "bitmask bi = push_bit (bi mod 8) 1"

definition bit_used :: "block \<Rightarrow> nat \<Rightarrow> bool" where
  "bit_used d bi \<longleftrightarrow> d (bi div 8) AND bitmask bi \<noteq> 0"

definition free_bit :: "block \<Rightarrow> nat \<Rightarrow> nat \<Rightarrow> nat option" where
  "free_bit d b sz = List.find (\<lambda>bi. b + bi < sz \<and> \<not> bit_used d bi) [0..<BPB]"

fun balloc_scan :: "u32 \<Rightarrow> nat list \<Rightarrow> (u32, 'z fsst_scheme) kop" where
  "balloc_scan dev [] = panic ''balloc: out of blocks''"
| "balloc_scan dev (b # bs) =
     bnd (fetch f_sb) (\<lambda>sb.
     bnd (bread dev (BBLOCK (of_nat b) sb)) (\<lambda>bp.
     bnd (buf_get bp b_data) (\<lambda>d.
     case free_bit d b (unat (sb_size sb)) of
       Some bi \<Rightarrow>
         andthen (andthen (data_upd bp (\<lambda>d. d(bi div 8 := d (bi div 8) OR bitmask bi))) (log_write bp))
         (andthen (brelse bp)
         (andthen (bzero dev (of_nat (b + bi)))
         (ret (of_nat (b + bi)))))
     | None \<Rightarrow> andthen (brelse bp) (balloc_scan dev bs))))"

definition balloc :: "u32 \<Rightarrow> (u32, 'z fsst_scheme) kop" where
  "balloc dev = bnd (fetch f_sb) (\<lambda>sb.
     balloc_scan dev (map (\<lambda>k. k * BPB) [0..<(unat (sb_size sb) + BPB - 1) div BPB]))"

definition bfree :: "u32 \<Rightarrow> u32 \<Rightarrow> (unit, 'z fsst_scheme) kop" where
  "bfree dev b =
     bnd (readsb dev) (\<lambda>sb.
     andthen (modify (\<lambda>s. s\<lparr>f_sb := sb\<rparr>))
     (bnd (bread dev (BBLOCK b sb)) (\<lambda>bp.
     let bi = unat b mod BPB in
     bnd (buf_get bp b_data) (\<lambda>d.
     if \<not> bit_used d bi then panic ''freeing free block'' else
     andthen (andthen (data_upd bp (\<lambda>d. d(bi div 8 := d (bi div 8) AND NOT (bitmask bi)))) (log_write bp))
     (brelse bp)))))"

section \<open>Inodes\<close>

definition iinit :: "u32 \<Rightarrow> (unit, 'z fsst_scheme) kop" where
  "iinit dev =
     andthen (for_each [0..<NINODE] (\<lambda>k. ino_upd k (\<lambda>i. i\<lparr>i_lock := initsleeplock\<rparr>)))
     (bnd (readsb dev) (\<lambda>sb.
     andthen (modify (\<lambda>s. s\<lparr>f_sb := sb\<rparr>))
     (cprintf (''sb: size %d nblocks %d ninodes %d nlog %d logstart %d inodestart %d bmap start %d'' @ nl)
        [AInt (sb_size sb), AInt (sb_nblocks sb), AInt (sb_ninodes sb), AInt (sb_nlog sb),
         AInt (sb_logstart sb), AInt (sb_inodestart sb), AInt (sb_bmapstart sb)])))"

definition iget_hit :: "u32 \<Rightarrow> u32 \<Rightarrow> (nat \<Rightarrow> inode) \<Rightarrow> nat option" where
  "iget_hit dev inum is =
     List.find (\<lambda>k. i_ref (is k) > 0 \<and> i_dev (is k) = dev \<and> i_inum (is k) = inum) [0..<NINODE]"

definition iget_empty :: "(nat \<Rightarrow> inode) \<Rightarrow> nat option" where
  "iget_empty is = List.find (\<lambda>k. i_ref (is k) = 0) [0..<NINODE]"

definition iget :: "u32 \<Rightarrow> u32 \<Rightarrow> (nat, 'z fsst_scheme) kop" where
  "iget dev inum =
     andthen (acquire IcacheLock)
     (bnd (fetch f_inode) (\<lambda>is. case iget_hit dev inum is of
        Some ip \<Rightarrow>
          andthen (ino_upd ip (\<lambda>i. i\<lparr>i_ref := i_ref i + 1\<rparr>))
          (andthen (release IcacheLock) (ret ip))
      | None \<Rightarrow> (case iget_empty is of
          None \<Rightarrow> panic ''iget: no inodes''
        | Some ip \<Rightarrow>
            andthen (ino_upd ip (\<lambda>i. i\<lparr>i_dev := dev, i_inum := inum, i_ref := 1, i_valid := False\<rparr>))
            (andthen (release IcacheLock) (ret ip)))))"

definition zero_dinode :: dinode where
  "zero_dinode = \<lparr>di_type = 0, di_major = 0, di_minor = 0, di_nlink = 0, di_size = 0,
     di_addrs = replicate (NDIRECT + 1) 0\<rparr>"

fun ialloc_scan :: "u32 \<Rightarrow> u16 \<Rightarrow> nat list \<Rightarrow> (nat, 'z fsst_scheme) kop" where
  "ialloc_scan dev ty [] = panic ''ialloc: no inodes''"
| "ialloc_scan dev ty (inum # is) =
     bnd (fetch f_sb) (\<lambda>sb.
     bnd (bread dev (IBLOCK (of_nat inum) sb)) (\<lambda>bp.
     let off = dinode_off (of_nat inum) in
     bnd (buf_get bp b_data) (\<lambda>d.
     if di_type (dinode_at d off) = 0 then
       andthen (andthen (data_upd bp (\<lambda>d. dinode_put d off (zero_dinode\<lparr>di_type := ty\<rparr>))) (log_write bp))
       (andthen (brelse bp)
       (iget dev (of_nat inum)))
     else andthen (brelse bp) (ialloc_scan dev ty is))))"

definition ialloc :: "u32 \<Rightarrow> u16 \<Rightarrow> (nat, 'z fsst_scheme) kop" where
  "ialloc dev ty = bnd (fetch f_sb) (\<lambda>sb. ialloc_scan dev ty [1..<unat (sb_ninodes sb)])"

definition dinode_of :: "inode \<Rightarrow> dinode" where
  "dinode_of i = \<lparr>di_type = i_type i, di_major = i_major i, di_minor = i_minor i, di_nlink = i_nlink i,
     di_size = i_size i, di_addrs = i_addrs i\<rparr>"

definition inode_load :: "dinode \<Rightarrow> inode \<Rightarrow> inode" where
  "inode_load di i = i\<lparr>i_type := di_type di, i_major := di_major di, i_minor := di_minor di,
     i_nlink := di_nlink di, i_size := di_size di, i_addrs := di_addrs di\<rparr>"

definition iupdate :: "nat \<Rightarrow> (unit, 'z fsst_scheme) kop" where
  "iupdate ip =
     bnd (ino_get ip id) (\<lambda>i. bnd (fetch f_sb) (\<lambda>sb.
     bnd (bread (i_dev i) (IBLOCK (i_inum i) sb)) (\<lambda>bp.
     andthen (andthen (data_upd bp (\<lambda>d. dinode_put d (dinode_off (i_inum i)) (dinode_of i))) (log_write bp))
     (brelse bp))))"

definition idup :: "nat \<Rightarrow> (nat, 'z fsst_scheme) kop" where
  "idup ip =
     andthen (acquire IcacheLock)
     (andthen (ino_upd ip (\<lambda>i. i\<lparr>i_ref := i_ref i + 1\<rparr>))
     (andthen (release IcacheLock) (ret ip)))"

definition ino_acquiresleep :: "nat \<Rightarrow> (unit, 'z fsst_scheme) kop" where
  "ino_acquiresleep ip = acquiresleep (InodeLk ip) (ChInodeLock ip) (ino_lock_rd ip) (ino_lock_wr ip)"

definition ino_releasesleep :: "nat \<Rightarrow> (unit, 'z fsst_scheme) kop" where
  "ino_releasesleep ip = releasesleep (InodeLk ip) (ChInodeLock ip) (ino_lock_wr ip)"

definition ilock :: "nat \<Rightarrow> (unit, 'z fsst_scheme) kop" where
  "ilock ip =
     bnd (ino_get ip i_ref) (\<lambda>r. if r < 1 then panic ''ilock'' else
     andthen (ino_acquiresleep ip)
     (bnd (ino_get ip i_valid) (\<lambda>v. if v then ret () else
     bnd (ino_get ip id) (\<lambda>i. bnd (fetch f_sb) (\<lambda>sb.
     bnd (bread (i_dev i) (IBLOCK (i_inum i) sb)) (\<lambda>bp.
     bnd (buf_get bp b_data) (\<lambda>d.
     andthen (ino_upd ip (inode_load (dinode_at d (dinode_off (i_inum i)))))
     (andthen (brelse bp)
     (andthen (ino_upd ip (\<lambda>i. i\<lparr>i_valid := True\<rparr>))
     (bnd (ino_get ip i_type) (\<lambda>ty. if ty = 0 then panic ''ilock: no type'' else ret ())))))))))))"

definition iunlock :: "nat \<Rightarrow> (unit, 'z fsst_scheme) kop" where
  "iunlock ip =
     bnd (holdingsleep (InodeLk ip) (ino_lock_rd ip)) (\<lambda>h. bnd (ino_get ip i_ref) (\<lambda>r.
     if \<not> h \<or> r < 1 then panic ''iunlock'' else ino_releasesleep ip))"

section \<open>Inode contents\<close>

definition bmap :: "nat \<Rightarrow> u32 \<Rightarrow> (u32, 'z fsst_scheme) kop" where
  "bmap ip bn =
     bnd (ino_get ip id) (\<lambda>i.
     if unat bn < NDIRECT then
       (if i_addrs i ! unat bn = 0 then
          bnd (balloc (i_dev i)) (\<lambda>addr.
          andthen (ino_upd ip (\<lambda>i. i\<lparr>i_addrs := (i_addrs i)[unat bn := addr]\<rparr>))
          (ret addr))
        else ret (i_addrs i ! unat bn))
     else let bn = unat bn - NDIRECT in
     if bn < NINDIRECT then
       bnd (if i_addrs i ! NDIRECT = 0 then
              bnd (balloc (i_dev i)) (\<lambda>addr.
              andthen (ino_upd ip (\<lambda>i. i\<lparr>i_addrs := (i_addrs i)[NDIRECT := addr]\<rparr>))
              (ret addr))
            else ret (i_addrs i ! NDIRECT)) (\<lambda>ind.
       bnd (bread (i_dev i) ind) (\<lambda>bp.
       bnd (buf_get bp b_data) (\<lambda>d.
       let addr = load32 d (4 * bn) in
       if addr = 0 then
         bnd (balloc (i_dev i)) (\<lambda>addr.
         andthen (andthen (data_upd bp (\<lambda>d. store32 d (4 * bn) addr)) (log_write bp))
         (andthen (brelse bp)
         (ret addr)))
       else andthen (brelse bp) (ret addr))))
     else panic ''bmap: out of range'')"

definition itrunc :: "nat \<Rightarrow> (unit, 'z fsst_scheme) kop" where
  "itrunc ip =
     bnd (ino_get ip i_dev) (\<lambda>dev.
     andthen (for_each [0..<NDIRECT] (\<lambda>k.
       bnd (ino_get ip (\<lambda>i. i_addrs i ! k)) (\<lambda>a. whenk (a \<noteq> 0)
         (andthen (bfree dev a)
         (ino_upd ip (\<lambda>i. i\<lparr>i_addrs := (i_addrs i)[k := 0]\<rparr>))))))
     (bnd (ino_get ip (\<lambda>i. i_addrs i ! NDIRECT)) (\<lambda>ind.
     andthen (whenk (ind \<noteq> 0)
       (bnd (bread dev ind) (\<lambda>bp.
        andthen (for_each [0..<NINDIRECT] (\<lambda>j.
          bnd (buf_get bp (\<lambda>b. load32 (b_data b) (4 * j))) (\<lambda>a. whenk (a \<noteq> 0) (bfree dev a))))
        (andthen (brelse bp)
        (andthen (bfree dev ind)
        (ino_upd ip (\<lambda>i. i\<lparr>i_addrs := (i_addrs i)[NDIRECT := 0]\<rparr>)))))))
     (andthen (ino_upd ip (\<lambda>i. i\<lparr>i_size := 0\<rparr>))
     (iupdate ip)))))"

definition iput :: "nat \<Rightarrow> (unit, 'z fsst_scheme) kop" where
  "iput ip =
     andthen (ino_acquiresleep ip)
     (bnd (ino_get ip (\<lambda>i. i_valid i \<and> i_nlink i = 0)) (\<lambda>dead.
     andthen (whenk dead
       (andthen (acquire IcacheLock)
       (bnd (ino_get ip i_ref) (\<lambda>r.
        andthen (release IcacheLock)
        (whenk (r = 1)
          (andthen (itrunc ip)
          (andthen (ino_upd ip (\<lambda>i. i\<lparr>i_type := 0\<rparr>))
          (andthen (iupdate ip)
          (ino_upd ip (\<lambda>i. i\<lparr>i_valid := False\<rparr>))))))))))
     (andthen (ino_releasesleep ip)
     (andthen (acquire IcacheLock)
     (andthen (ino_upd ip (\<lambda>i. i\<lparr>i_ref := i_ref i - 1\<rparr>))
     (release IcacheLock))))))"

definition iunlockput :: "nat \<Rightarrow> (unit, 'z fsst_scheme) kop" where
  "iunlockput ip = andthen (iunlock ip) (iput ip)"

record kstat =
  st_type :: u16
  st_dev :: u32
  st_ino :: u32
  st_nlink :: u16
  st_size :: u32

definition stati :: "nat \<Rightarrow> (kstat, 'z fsst_scheme) kop" where
  "stati ip = ino_get ip (\<lambda>i. \<lparr>st_type = i_type i, st_dev = i_dev i, st_ino = i_inum i,
     st_nlink = i_nlink i, st_size = i_size i\<rparr>)"

text \<open>The part of the next \<open>n - tot\<close> bytes that lies in the block of offset \<open>off\<close>.\<close>

definition chunk :: "u32 \<Rightarrow> u32 \<Rightarrow> u32 \<Rightarrow> u32" where
  "chunk n tot off = min (n - tot) (of_nat BSIZE - off mod of_nat BSIZE)"

definition get_bytes :: "block \<Rightarrow> nat \<Rightarrow> nat \<Rightarrow> u8 list" where
  "get_bytes d o' m = map (\<lambda>k. d (o' + k)) [0..<m]"

definition put_bytes :: "block \<Rightarrow> nat \<Rightarrow> u8 list \<Rightarrow> block" where
  "put_bytes d o' xs = (\<lambda>k. if o' \<le> k \<and> k < o' + length xs then xs ! (k - o') else d k)"

lemma chunk_pos: "tot < n \<Longrightarrow> 0 < unat (chunk n tot off) \<and> unat (chunk n tot off) \<le> unat n - unat tot"
proof -
  assume t: "tot < n"
  then have nt: "unat (n - tot) = unat n - unat tot" by (simp add: unat_sub_small)
  have B: "unat (of_nat BSIZE :: u32) = 512" by (simp add: BSIZE_def)
  have "unat (off mod of_nat BSIZE) < 512" using B by (simp add: unat_mod)
  then have le: "off mod of_nat BSIZE \<le> of_nat BSIZE" using B by (simp add: word_le_nat_alt)
  have r: "0 < unat (of_nat BSIZE - off mod of_nat BSIZE :: u32)"
    using \<open>unat (off mod of_nat BSIZE) < 512\<close> B unat_sub [OF le] by simp
  show ?thesis
    using t nt r by (auto simp: chunk_def min_def word_less_nat_alt word_le_nat_alt)
qed

lemma chunk_less: "tot < n \<Longrightarrow> unat (n - (tot + chunk n tot off)) < unat (n - tot)"
proof -
  assume t: "tot < n"
  note c = chunk_pos [OF t, of off]
  have u: "unat (tot + chunk n tot off) = unat tot + unat (chunk n tot off)"
    by (rule unat_add_small) (use c unsigned_less [of n, where 'a = nat] t in \<open>auto simp: word_less_nat_alt\<close>)
  have "tot + chunk n tot off \<le> n" using u c t by (auto simp: word_le_nat_alt word_less_nat_alt)
  then show ?thesis using u c t by (auto simp: unat_sub_small word_less_nat_alt order.strict_implies_order)
qed

function readi_loop :: "nat \<Rightarrow> u32 \<Rightarrow> u32 \<Rightarrow> u32 \<Rightarrow> (u8 list, 'z fsst_scheme) kop" where
  "readi_loop ip tot off n =
     (if tot < n then
        let m = chunk n tot off in
        bnd (ino_get ip i_dev) (\<lambda>dev.
        bnd (bmap ip (off div of_nat BSIZE)) (\<lambda>addr.
        bnd (bread dev addr) (\<lambda>bp.
        bnd (buf_get bp (\<lambda>b. get_bytes (b_data b) (unat (off mod of_nat BSIZE)) (unat m))) (\<lambda>xs.
        andthen (brelse bp)
        (bnd (readi_loop ip (tot + m) (off + m) n) (\<lambda>ys.
        ret (xs @ ys)))))))
      else ret [])"
  by pat_completeness auto
termination
  by (relation "measure (\<lambda>(ip, tot, off, n). unat (n - tot))") (use chunk_less in auto)

declare readi_loop.simps [simp del]

definition readi :: "'z devs \<Rightarrow> nat \<Rightarrow> u32 \<Rightarrow> u32 \<Rightarrow> (int \<times> u8 list, 'z fsst_scheme) kop" where
  "readi dv ip off n =
     bnd (ino_get ip id) (\<lambda>i.
     if i_type i = T_DEV then
       (if sint (i_major i) < 0 \<or> sint (i_major i) \<ge> int NDEV then ret (- 1, [])
        else case dv (unat (i_major i)) of None \<Rightarrow> ret (- 1, []) | Some rd \<Rightarrow> rd ip n)
     else if off > i_size i \<or> off + n < off then ret (- 1, [])
     else let n = (if off + n > i_size i then i_size i - off else n) in
     bnd (readi_loop ip 0 off n) (\<lambda>xs. ret (sint n, xs)))"

function writei_loop :: "nat \<Rightarrow> u8 list \<Rightarrow> u32 \<Rightarrow> u32 \<Rightarrow> u32 \<Rightarrow> (u32, 'z fsst_scheme) kop" where
  "writei_loop ip src tot off n =
     (if tot < n then
        let m = chunk n tot off in
        bnd (ino_get ip i_dev) (\<lambda>dev.
        bnd (bmap ip (off div of_nat BSIZE)) (\<lambda>addr.
        bnd (bread dev addr) (\<lambda>bp.
        andthen (andthen (data_upd bp (\<lambda>d. put_bytes d (unat (off mod of_nat BSIZE)) (take (unat m) src))) (log_write bp))
        (andthen (brelse bp)
        (writei_loop ip (drop (unat m) src) (tot + m) (off + m) n)))))
      else ret off)"
  by pat_completeness auto
termination
  by (relation "measure (\<lambda>(ip, src, tot, off, n). unat (n - tot))") (use chunk_less in auto)

declare writei_loop.simps [simp del]

definition writei :: "'z devw \<Rightarrow> nat \<Rightarrow> u8 list \<Rightarrow> u32 \<Rightarrow> u32 \<Rightarrow> (int, 'z fsst_scheme) kop" where
  "writei dw ip src off n =
     bnd (ino_get ip id) (\<lambda>i.
     if i_type i = T_DEV then
       (if sint (i_major i) < 0 \<or> sint (i_major i) \<ge> int NDEV then ret (- 1)
        else case dw (unat (i_major i)) of None \<Rightarrow> ret (- 1) | Some wr \<Rightarrow> wr ip src n)
     else if off > i_size i \<or> off + n < off then ret (- 1)
     else if off + n > of_nat (MAXFILE * BSIZE) then ret (- 1)
     else bnd (writei_loop ip src 0 off n) (\<lambda>off.
     bnd (ino_get ip i_size) (\<lambda>sz.
     andthen (whenk (n > 0 \<and> off > sz)
       (andthen (ino_upd ip (\<lambda>i. i\<lparr>i_size := off\<rparr>)) (iupdate ip)))
     (ret (sint n)))))"

section \<open>Directories\<close>

text \<open>\<^verbatim>\<open>strncmp\<close> and \<^verbatim>\<open>strncpy\<close> on byte lists that end in an implicit zero.\<close>

definition byte0 :: "u8 list \<Rightarrow> u8" where
  "byte0 xs = (case xs of [] \<Rightarrow> 0 | x # _ \<Rightarrow> x)"

fun strncmp_l :: "u8 list \<Rightarrow> u8 list \<Rightarrow> nat \<Rightarrow> int" where
  "strncmp_l p q 0 = 0"
| "strncmp_l p q (Suc n) =
     (if byte0 p \<noteq> 0 \<and> byte0 p = byte0 q then strncmp_l (tl p) (tl q) n
      else uint (byte0 p) - uint (byte0 q))"

definition strncpy_l :: "u8 list \<Rightarrow> nat \<Rightarrow> u8 list" where
  "strncpy_l t n = (let xs = take n (takeWhile (\<lambda>c. c \<noteq> 0) t) in xs @ replicate (n - length xs) 0)"

definition namecmp :: "u8 list \<Rightarrow> u8 list \<Rightarrow> int" where
  "namecmp s t = strncmp_l s t DIRSIZ"

record dirent =
  de_inum :: u16
  de_name :: "u8 list"

definition dirent_decode :: "u8 list \<Rightarrow> dirent" where
  "dirent_decode xs = \<lparr>de_inum = load16 (\<lambda>i. xs ! i) (0::nat), de_name = take DIRSIZ (drop 2 xs)\<rparr>"

definition dirent_encode :: "dirent \<Rightarrow> u8 list" where
  "dirent_encode de = [ucast (de_inum de), ucast (drop_bit 8 (de_inum de))] @ de_name de"

definition DIRENT_SIZE :: nat where "DIRENT_SIZE = 16"

definition dir_offs :: "u32 \<Rightarrow> u32 list" where
  "dir_offs sz = map (\<lambda>k. of_nat (k * DIRENT_SIZE)) [0..<(unat sz + DIRENT_SIZE - 1) div DIRENT_SIZE]"

fun dirlookup_scan :: "'z devs \<Rightarrow> nat \<Rightarrow> u8 list \<Rightarrow> u32 list \<Rightarrow> ((nat \<times> u32) option, 'z fsst_scheme) kop" where
  "dirlookup_scan dv dp name [] = ret None"
| "dirlookup_scan dv dp name (off # offs) =
     bnd (readi dv dp off (of_nat DIRENT_SIZE)) (\<lambda>(r, xs).
     if r \<noteq> int DIRENT_SIZE then panic ''dirlookup read'' else
     let de = dirent_decode xs in
     if de_inum de = 0 then dirlookup_scan dv dp name offs
     else if namecmp name (de_name de) = 0 then
       bnd (ino_get dp i_dev) (\<lambda>dev. bnd (iget dev (ucast (de_inum de))) (\<lambda>ip. ret (Some (ip, off))))
     else dirlookup_scan dv dp name offs)"

definition dirlookup :: "'z devs \<Rightarrow> nat \<Rightarrow> u8 list \<Rightarrow> ((nat \<times> u32) option, 'z fsst_scheme) kop" where
  "dirlookup dv dp name =
     bnd (ino_get dp i_type) (\<lambda>ty. if ty \<noteq> T_DIR then panic ''dirlookup not DIR'' else
     bnd (ino_get dp i_size) (\<lambda>sz. dirlookup_scan dv dp name (dir_offs sz)))"

text \<open>The search of \<^verbatim>\<open>dirlink\<close> for an empty entry: its offset, or the end of the directory.\<close>

fun dirlink_scan :: "'z devs \<Rightarrow> nat \<Rightarrow> u32 \<Rightarrow> u32 list \<Rightarrow> (u32, 'z fsst_scheme) kop" where
  "dirlink_scan dv dp end [] = ret end"
| "dirlink_scan dv dp end (off # offs) =
     bnd (readi dv dp off (of_nat DIRENT_SIZE)) (\<lambda>(r, xs).
     if r \<noteq> int DIRENT_SIZE then panic ''dirlink read'' else
     if de_inum (dirent_decode xs) = 0 then ret off else dirlink_scan dv dp end offs)"

definition dirlink :: "'z devs \<Rightarrow> 'z devw \<Rightarrow> nat \<Rightarrow> u8 list \<Rightarrow> u32 \<Rightarrow> (int, 'z fsst_scheme) kop" where
  "dirlink dv dw dp name inum =
     bnd (dirlookup dv dp name) (\<lambda>found. case found of
       Some (ip, _) \<Rightarrow> andthen (iput ip) (ret (- 1))
     | None \<Rightarrow>
        bnd (ino_get dp i_size) (\<lambda>sz.
        bnd (dirlink_scan dv dp (of_nat (length (dir_offs sz) * DIRENT_SIZE)) (dir_offs sz)) (\<lambda>off.
        bnd (writei dw dp (dirent_encode \<lparr>de_inum = ucast inum, de_name = strncpy_l name DIRSIZ\<rparr>)
               off (of_nat DIRENT_SIZE)) (\<lambda>r.
        if r \<noteq> int DIRENT_SIZE then panic ''dirlink'' else ret 0))))"

section \<open>Paths\<close>

definition slash :: u8 where "slash = 47"

definition skipelem :: "u8 list \<Rightarrow> (u8 list \<times> u8 list) option" where
  "skipelem path =
     (let path = dropWhile (\<lambda>c. c = slash) path in
      if path = [] then None
      else let s = takeWhile (\<lambda>c. c \<noteq> slash) path; path = dropWhile (\<lambda>c. c \<noteq> slash) path;
               name = (if length s \<ge> DIRSIZ then take DIRSIZ s else s)
           in Some (name, dropWhile (\<lambda>c. c = slash) path))"

lemma skipelem_shorter: "skipelem path = Some (name, rest) \<Longrightarrow> length rest < length path"
proof -
  assume e: "skipelem path = Some (name, rest)"
  let ?p = "dropWhile (\<lambda>c. c = slash) path"
  have ne: "?p \<noteq> []" and rest: "rest = dropWhile (\<lambda>c. c = slash) (dropWhile (\<lambda>c. c \<noteq> slash) ?p)"
    using e by (auto simp: skipelem_def Let_def split: if_splits)
  have "hd ?p \<noteq> slash" using hd_dropWhile [OF ne] .
  then have "dropWhile (\<lambda>c. c \<noteq> slash) ?p = dropWhile (\<lambda>c. c \<noteq> slash) (tl ?p)" using ne by (cases ?p) auto
  then have "length rest \<le> length (tl ?p)"
    unfolding rest by (simp only:) (rule order_trans [OF length_dropWhile_le length_dropWhile_le])
  also have "\<dots> < length ?p" using ne by simp
  also have "\<dots> \<le> length path" by (rule length_dropWhile_le)
  finally show ?thesis .
qed

function namex_loop :: "'z devs \<Rightarrow> bool \<Rightarrow> nat \<Rightarrow> u8 list \<Rightarrow> ((nat \<times> u8 list) option, 'z fsst_scheme) kop" where
  "namex_loop dv parent ip path =
     (case skipelem path of
        None \<Rightarrow> if parent then andthen (iput ip) (ret None) else ret (Some (ip, []))
      | Some (name, rest) \<Rightarrow>
          andthen (ilock ip)
          (bnd (ino_get ip i_type) (\<lambda>ty.
           if ty \<noteq> T_DIR then andthen (iunlockput ip) (ret None)
           else if parent \<and> rest = [] then andthen (iunlock ip) (ret (Some (ip, name)))
           else bnd (dirlookup dv ip name) (\<lambda>found. case found of
             None \<Rightarrow> andthen (iunlockput ip) (ret None)
           | Some (next, _) \<Rightarrow> andthen (iunlockput ip) (namex_loop dv parent next rest)))))"
  by pat_completeness auto
termination
  by (relation "measure (\<lambda>(dv, parent, ip, path). length path)") (auto dest: skipelem_shorter)

declare namex_loop.simps [simp del]

definition namex :: "'z devs \<Rightarrow> u8 list \<Rightarrow> bool \<Rightarrow> ((nat \<times> u8 list) option, 'z fsst_scheme) kop" where
  "namex dv path parent =
     bnd (if byte0 path = slash then iget ROOTDEV ROOTINO
          else bnd curproc (\<lambda>p. bnd (proc_get p p_cwd) (\<lambda>c. case c of
                 None \<Rightarrow> panic ''trap'' | Some cwd \<Rightarrow> idup cwd))) (\<lambda>ip.
     namex_loop dv parent ip path)"

definition namei :: "'z devs \<Rightarrow> u8 list \<Rightarrow> (nat option, 'z fsst_scheme) kop" where
  "namei dv path = bnd (namex dv path False) (\<lambda>r. ret (map_option fst r))"

definition nameiparent :: "'z devs \<Rightarrow> u8 list \<Rightarrow> ((nat \<times> u8 list) option, 'z fsst_scheme) kop" where
  "nameiparent dv path = namex dv path True"

text \<open>The inode cache before \<^verbatim>\<open>iinit\<close>: static storage is zeroed.\<close>

definition inode0 :: inode where
  "inode0 = \<lparr>i_dev = 0, i_inum = 0, i_ref = 0, i_lock = initsleeplock, i_valid = False, i_type = 0,
     i_major = 0, i_minor = 0, i_nlink = 0, i_size = 0, i_addrs = replicate (NDIRECT + 1) 0\<rparr>"

definition sb0 :: superblock where
  "sb0 = \<lparr>sb_size = 0, sb_nblocks = 0, sb_ninodes = 0, sb_nlog = 0, sb_logstart = 0, sb_inodestart = 0,
     sb_bmapstart = 0\<rparr>"

definition fsst0 :: "(u32 \<Rightarrow> block) \<Rightarrow> u32 \<Rightarrow> fsst" where
  "fsst0 disk sz = lst.extend (lst0 disk sz) \<lparr>f_sb = sb0, f_inode = (\<lambda>_. inode0)\<rparr>"

end
