(* ===== verification/Fsmeta.thy ===== *)
theory Fsmeta
  imports Fs
begin

text \<open>
  Correctness of the metadata of \<^verbatim>\<open>fs.c\<close>: the layout of on-disk inodes, \<^verbatim>\<open>iupdate\<close>, and the block
  allocator \<^verbatim>\<open>balloc\<close>, \<^verbatim>\<open>bfree\<close> with its bitmap.  The first part gives proof rules for the idiom
  \<^verbatim>\<open>bread\<close>, update and \<^verbatim>\<open>log_write\<close>, \<^verbatim>\<open>brelse\<close> inside a transaction.
\<close>

section \<open>Frames\<close>

lemma lframe_fs:
  assumes "lframe s t"
  shows "f_sb t = f_sb s" "f_inode t = f_inode s"
proof -
  have t: "t = s\<lparr>k_procs := k_procs t, b_buf := b_buf t, d_disk := d_disk t, d_writes := d_writes t,
     l_n := l_n t, l_block := l_block t\<rparr>" using assms by (simp add: lframe_def)
  show "f_sb t = f_sb s" "f_inode t = f_inode s" by (subst t, simp)+
qed

text \<open>Steps that leave the disk alone, take no block out of the log and log at most \<open>k\<close> more.\<close>

definition lstep :: "nat \<Rightarrow> 'z lst_scheme \<Rightarrow> 'z lst_scheme \<Rightarrow> bool" where
  "lstep k s t \<longleftrightarrow> d_disk t = d_disk s \<and> d_writes t = d_writes s \<and> lframe s t \<and> l_n t \<le> l_n s + int k
     \<and> set (logged s) \<subseteq> set (logged t)"

lemma lstep_refl [simp]: "lstep k s s"
  by (simp add: lstep_def)

lemma lstep_trans: "lstep k s t \<Longrightarrow> lstep j t u \<Longrightarrow> lstep (k + j) s u"
  using lframe_trans [of s t u] by (auto simp: lstep_def)

lemma lstepD:
  assumes "lstep k s t"
  shows "d_disk t = d_disk s" "d_writes t = d_writes s" "d_size t = d_size s" "logarea t = logarea s"
    "l_size t = l_size s" "l_n t \<le> l_n s + int k" "k_held t = k_held s" "k_cur t = k_cur s" "lframe s t"
    "set (logged s) \<subseteq> set (logged t)"
  using assms lframeD [of s t] by (simp_all add: lstep_def)

lemma lstep_fs: "lstep k s t \<Longrightarrow> f_sb t = f_sb s" "lstep k s t \<Longrightarrow> f_inode t = f_inode s"
  using lframe_fs by (auto simp: lstep_def)

lemma lstep_room: "lstep k s t \<Longrightarrow> room s (k + j) \<Longrightarrow> room t j"
  using lstepD(5,6) [of k s t] by (auto simp: room_def)

section \<open>Rules for the idiom\<close>

definition holds :: "'z lst_scheme \<Rightarrow> nat \<Rightarrow> u32 \<Rightarrow> block \<Rightarrow> bool" where
  "holds s b bn x \<longleftrightarrow> has_block (b_buf s b) bn \<and> b_data (b_buf s b) = x"

lemma holds_bcore: "bcore (b_buf t b) = bcore (b_buf s b) \<Longrightarrow> holds t b bn x = holds s b bn x"
  using bcore_eqD [of "b_buf t b" "b_buf s b"] by (simp add: holds_def)

lemma wp_bread_txn:
  assumes "txn s H" "bn < d_size s" "\<And>i. i \<in> H \<Longrightarrow> \<not> has_block (b_buf s i) bn" "l_n s + int (card H) < int NBUF"
    and "\<And>b u. b \<notin> H \<Longrightarrow> txn u (insert b H) \<Longrightarrow> holds u b bn (bview s bn) \<Longrightarrow> bview u = bview s \<Longrightarrow> lstep 0 s u
       \<Longrightarrow> (\<And>j. j \<noteq> b \<Longrightarrow> b_buf u j = b_buf s j) \<Longrightarrow> wp (k b) Q u"
  shows "wp (bnd (bread 1 bn) k) Q s"
proof -
  have "nat (l_n s) + card H < NBUF" using assms(4) txnD(9) [OF assms(1)] by linarith
  then obtain b u where u: "bread 1 bn s = Ok b u" "b \<notin> H" "txn u (insert b H)" "has_block (b_buf u b) bn"
    "b_data (b_buf u b) = bview s bn" "bview u = bview s" "d_disk u = d_disk s" "d_writes u = d_writes s" "bframe s u"
    "\<And>j. j \<noteq> b \<Longrightarrow> b_buf u j = b_buf s j"
    using txn_bread [OF assms(1-3)] by blast
  have "wp (k b) Q u"
    by (rule assms(5)) (use u bframe_lframe [OF u(9)] bframe_log [OF u(9)] logged_bframe [OF u(9)] in \<open>auto simp: holds_def lstep_def\<close>)
  then show ?thesis using u(1) by (simp add: wp_def bnd_def)
qed

lemma wp_put_txn:
  assumes "txn s H" "b \<in> H" "holds s b bn x" "bn < d_size s" "bn \<notin> logarea s" "room s 1"
    and "\<And>u. txn u H \<Longrightarrow> holds u b bn (f x) \<Longrightarrow> bview u = (bview s)(bn := f x) \<Longrightarrow> lstep 1 s u
       \<Longrightarrow> (\<And>j. j \<noteq> b \<Longrightarrow> b_buf u j = b_buf s j) \<Longrightarrow> bn \<in> set (logged u) \<Longrightarrow> wp k Q u"
  shows "wp (andthen (andthen (data_upd b f) (log_write b)) k) Q s"
proof -
  have h: "has_block (b_buf s b) bn" "b_data (b_buf s b) = x" using assms(3) by (simp_all add: holds_def)
  obtain u where u: "andthen (data_upd b f) (log_write b) s = Ok () u" "txn u H" "has_block (b_buf u b) bn"
    "b_data (b_buf u b) = f x" "bview u = (bview s)(bn := f x)" "d_disk u = d_disk s" "d_writes u = d_writes s"
    "lframe s u" "logged u = log_add (logged s) bn" "\<And>j. j \<noteq> b \<Longrightarrow> b_buf u j = b_buf s j"
    using txn_put [OF assms(1,2) h(1) assms(4-6), of f] h(2) by (auto simp: data_upd_def)
  have "l_n u \<le> l_n s + 1"
    using txnD(7,9) [OF u(2)] txnD(7,9) [OF assms(1)] length_log_add [of "logged s" bn] u(9) by simp
  moreover have lg: "bn \<in> set (logged u)" "set (logged s) \<subseteq> set (logged u)" unfolding u(9) log_add_def by auto
  ultimately have "lstep 1 s u" using u by (simp add: lstep_def)
  with assms(7) u lg(1) have "wp k Q u" by (simp add: holds_def)
  then show ?thesis using u(1) by (simp add: wp_def andthen_def bnd_def)
qed

lemma wp_brelse_txn:
  assumes "txn s H" "b \<in> H" "holds s b bn x"
    and "\<And>u. txn u (H - {b}) \<Longrightarrow> bview u = bview s \<Longrightarrow> lstep 0 s u
       \<Longrightarrow> (\<And>j. j \<noteq> b \<Longrightarrow> bcore (b_buf u j) = bcore (b_buf s j)) \<Longrightarrow> Q () u"
  shows "wp (brelse b) Q s"
proof -
  have h: "has_block (b_buf s b) bn" using assms(3) by (simp add: holds_def)
  obtain u where u: "brelse b s = Ok () u" "txn u (H - {b})" "bview u = bview s" "d_disk u = d_disk s"
    "d_writes u = d_writes s" "bframe s u" "\<And>j. j \<noteq> b \<Longrightarrow> bcore (b_buf u j) = bcore (b_buf s j)"
    using txn_brelse [OF assms(1,2) h] by blast
  have "lstep 0 s u" using u bframe_lframe [OF u(6)] bframe_log [OF u(6)] logged_bframe [OF u(6)] by (simp add: lstep_def)
  with assms(4) u show ?thesis by (simp add: wp_def)
qed

lemma wp_andthenI: "wp m (\<lambda>_. wp k Q) s \<Longrightarrow> wp (andthen m k) Q s"
  by (simp add: wp_andthen)

text \<open>Reading one block, and updating one block, from start to end.\<close>

lemma wp_peek:
  assumes "txn s {}" "bn < d_size s" "l_n s < int NBUF"
    and "\<And>u. txn u {} \<Longrightarrow> bview u = bview s \<Longrightarrow> lstep 0 s u \<Longrightarrow> wp (k (f (bview s bn))) Q u"
  shows "wp (bnd (bread 1 bn) (\<lambda>b. bnd (buf_get b (\<lambda>p. f (b_data p))) (\<lambda>x. andthen (brelse b) (k x)))) Q s"
proof (rule wp_bread_txn [OF assms(1,2)])
  fix b u
  assume u: "txn u (insert b {})" "holds u b bn (bview s bn)" "bview u = bview s" "lstep 0 s u"
  have "wp (brelse b) (\<lambda>_. wp (k (f (bview s bn))) Q) u"
  proof (rule wp_brelse_txn [OF u(1) _ u(2)])
    fix v
    assume v: "txn v (insert b {} - {b})" "bview v = bview u" "lstep 0 u v"
    show "wp (k (f (bview s bn))) Q v"
      by (rule assms(4)) (use v u lstep_trans [OF u(4) v(3)] in auto)
  qed simp
  then show "wp (bnd (buf_get b (\<lambda>p. f (b_data p))) (\<lambda>x. andthen (brelse b) (k x))) Q u"
    using u(2) by (simp add: wp_bnd wp_andthen buf_get_def wp_fetch holds_def)
qed (use assms in simp_all)

lemma wp_update:
  assumes "txn s {}" "bn < d_size s" "l_n s < int NBUF" "bn \<notin> logarea s" "room s 1"
    and "\<And>u. txn u {} \<Longrightarrow> bview u = (bview s)(bn := f (bview s bn)) \<Longrightarrow> lstep 1 s u \<Longrightarrow> bn \<in> set (logged u) \<Longrightarrow> Q () u"
  shows "wp (bnd (bread 1 bn) (\<lambda>b. andthen (andthen (data_upd b f) (log_write b)) (brelse b))) Q s"
proof (rule wp_bread_txn [OF assms(1,2)])
  fix b u
  assume u: "txn u (insert b {})" "holds u b bn (bview s bn)" "bview u = bview s" "lstep 0 s u"
  note D = lstepD [OF u(4)]
  show "wp (andthen (andthen (data_upd b f) (log_write b)) (brelse b)) Q u"
  proof (rule wp_put_txn [OF u(1) _ u(2)])
    show "room u 1" using lstep_room [OF u(4), of 1] assms(5) by simp
    fix v
    assume v: "txn v (insert b {})" "holds v b bn (f (bview s bn))" "bview v = (bview u)(bn := f (bview s bn))" "lstep 1 u v"
      "bn \<in> set (logged v)"
    show "wp (brelse b) Q v"
    proof (rule wp_brelse_txn [OF v(1) _ v(2)])
      fix w
      assume w: "txn w (insert b {} - {b})" "bview w = bview v" "lstep 0 v w"
      show "Q () w" by (rule assms(6))
        (use w v u lstep_trans [OF lstep_trans [OF u(4) v(4)] w(3)] lstepD(10) [OF w(3)] in auto)
    qed simp
  qed (use assms D in simp_all)
qed (use assms in simp_all)

section \<open>On-disk inodes\<close>

lemma nth_ext_load: "length xs = n \<Longrightarrow> (\<And>i. i < n \<Longrightarrow> load32 d (a + 4 * i) = xs ! i) \<Longrightarrow> load_array d a n = xs"
  by (rule nth_equalityI) auto

lemma load_other_array:
  "b + 4 \<le> a \<or> a + 4 * length vs \<le> b \<Longrightarrow> load32 (store_array m a vs) b = load32 m b"
  by (intro load32_cong) (auto simp: store_array_byte)

lemma load16_other_array:
  "b + 2 \<le> a \<or> a + 4 * length vs \<le> b \<Longrightarrow> load16 (store_array m a vs) b = load16 m b"
  by (auto simp: load16_def store_array_byte)

lemma dinode_at_put:
  assumes "length (di_addrs di) = NDIRECT + 1"
  shows "dinode_at (dinode_put d off di) off = di"
proof -
  let ?m = "store32 (store16 (store16 (store16 (store16 d off (di_type di)) (off + 2) (di_major di))
     (off + 4) (di_minor di)) (off + 6) (di_nlink di)) (off + 8) (di_size di)"
  have "load_array (store_array ?m (off + 12) (di_addrs di)) (off + 12) (NDIRECT + 1) = di_addrs di"
    using load_store_array [of ?m "off + 12" "di_addrs di"] assms by simp
  then show ?thesis
    by (simp add: dinode_at_def dinode_put_def load_other_array load16_other_array load16_store32_other
        load16_store16_other)
qed

lemma dinode_put_byte:
  assumes "length (di_addrs di) = NDIRECT + 1" "k < off \<or> off + 64 \<le> k"
  shows "dinode_put d off di k = d k"
  using assms by (auto simp: dinode_put_def store_array_byte store32_other store16_other NDIRECT_def)

lemma dinode_at_cong: "(\<And>k. off \<le> k \<Longrightarrow> k < off + 64 \<Longrightarrow> d k = d' k) \<Longrightarrow> dinode_at d off = dinode_at d' off"
  by (auto simp: dinode_at_def load16_def load_array_def NDIRECT_def intro!: load32_cong)

lemma dinode_at_put_other:
  assumes "length (di_addrs di) = NDIRECT + 1" "off + 64 \<le> off' \<or> off' + 64 \<le> off"
  shows "dinode_at (dinode_put d off di) off' = dinode_at d off'"
  by (rule dinode_at_cong) (use assms in \<open>auto simp: dinode_put_byte\<close>)

lemma dinode_off_apart: "i mod IPB \<noteq> j mod IPB \<Longrightarrow> dinode_off i + 64 \<le> dinode_off j \<or> dinode_off j + 64 \<le> dinode_off i"
  by (auto simp: dinode_off_def word_unat_eq_iff)

definition dino :: "'z fsst_scheme \<Rightarrow> u32 \<Rightarrow> dinode" where
  "dino s inum = dinode_at (bview s (IBLOCK inum (f_sb s))) (dinode_off inum)"

lemma IBLOCK_eq: "IBLOCK i sb = IBLOCK j sb \<Longrightarrow> i mod IPB = j mod IPB \<Longrightarrow> i = j"
  unfolding IBLOCK_def by (metis add_right_cancel div_mult_mod_eq)

text \<open>The disk inodes after one of them is replaced in its block.\<close>

lemma dino_put:
  assumes "bview t = (bview s)(IBLOCK inum (f_sb s) := dinode_put (bview s (IBLOCK inum (f_sb s))) (dinode_off inum) di)"
    and "f_sb t = f_sb s" "length (di_addrs di) = NDIRECT + 1"
  shows "dino t j = (if j = inum then di else dino s j)"
proof (cases "j = inum")
  case True
  then show ?thesis using assms by (simp add: dino_def dinode_at_put)
next
  case False
  show ?thesis
  proof (cases "IBLOCK j (f_sb s) = IBLOCK inum (f_sb s)")
    case True
    then have "dinode_off inum + 64 \<le> dinode_off j \<or> dinode_off j + 64 \<le> dinode_off inum"
      using False IBLOCK_eq dinode_off_apart by blast
    with assms(3) False show ?thesis by (simp add: dino_def assms(1,2) True dinode_at_put_other)
  next
    case no: False
    with False show ?thesis by (simp add: dino_def assms(1,2))
  qed
qed

section \<open>The bitmap\<close>

lemma bit_used_iff: "bit_used d bi \<longleftrightarrow> bit (d (bi div 8)) (bi mod 8)"
  unfolding bit_used_def bitmask_def push_bit_of_1 by (simp add: and_exp_eq_0_iff_not_bit)

lemma bit_bitmask: "bit (bitmask bi) n \<longleftrightarrow> n = bi mod 8"
  unfolding bitmask_def push_bit_of_1 by (auto simp: bit_exp_iff)

lemma div_mod_8: "i div 8 = j div 8 \<Longrightarrow> i mod 8 = j mod 8 \<Longrightarrow> i = (j::nat)"
  by (metis div_mult_mod_eq)

lemma bit_used_set: "bit_used (d(bi div 8 := d (bi div 8) OR bitmask bi)) bj \<longleftrightarrow> bit_used d bj \<or> bj = bi"
  using div_mod_8 [of bj bi] by (auto simp: bit_used_iff bit_or_iff bit_bitmask)

lemma bit_used_clear: "bit_used (d(bi div 8 := d (bi div 8) AND NOT (bitmask bi))) bj \<longleftrightarrow> bit_used d bj \<and> bj \<noteq> bi"
  using div_mod_8 [of bj bi] by (auto simp: bit_used_iff bit_and_iff bit_not_iff bit_bitmask dest: bit_imp_le_length)

definition used :: "'z fsst_scheme \<Rightarrow> u32 \<Rightarrow> bool" where
  "used s b \<longleftrightarrow> bit_used (bview s (BBLOCK b (f_sb s))) (unat b mod BPB)"

definition bitmap_blocks :: "'z fsst_scheme \<Rightarrow> u32 set" where
  "bitmap_blocks s = {BBLOCK b (f_sb s) | b. b < sb_size (f_sb s)}"

text \<open>
  The bitmap lies on the disk outside the log, and whatever it marks free may be handed out: it is
  on the disk and neither in the log nor part of the bitmap.
\<close>

definition bitmap_ok :: "'z fsst_scheme \<Rightarrow> bool" where
  "bitmap_ok s \<longleftrightarrow> (\<forall>b. b < sb_size (f_sb s) \<longrightarrow> BBLOCK b (f_sb s) < d_size s \<and> BBLOCK b (f_sb s) \<notin> logarea s
     \<and> (\<not> used s b \<longrightarrow> b < d_size s \<and> b \<notin> logarea s \<and> b \<notin> bitmap_blocks s))"

lemma bitmap_okD:
  assumes "bitmap_ok s" "b < sb_size (f_sb s)"
  shows "BBLOCK b (f_sb s) < d_size s" "BBLOCK b (f_sb s) \<notin> logarea s"
    "\<not> used s b \<Longrightarrow> b < d_size s" "\<not> used s b \<Longrightarrow> b \<notin> logarea s" "\<not> used s b \<Longrightarrow> b \<notin> bitmap_blocks s"
  using assms by (auto simp: bitmap_ok_def)

lemma bitmap_cong:
  assumes "bview t = bview s" "lstep k s t"
  shows "used t = used s" "bitmap_blocks t = bitmap_blocks s" "bitmap_ok t = bitmap_ok s"
proof -
  show a: "used t = used s" "bitmap_blocks t = bitmap_blocks s"
    using lstep_fs [OF assms(2)] by (auto simp: used_def [abs_def] bitmap_blocks_def assms(1))
  show "bitmap_ok t = bitmap_ok s"
    using lstep_fs [OF assms(2)] lstepD [OF assms(2)] by (simp add: bitmap_ok_def a)
qed

lemma BPB_4096 [simp]: "BPB = 4096"
  by (simp add: BPB_def BSIZE_def)

lemma BBLOCK_eq: "BBLOCK b sb = BBLOCK c sb \<Longrightarrow> unat b mod BPB = unat c mod BPB \<Longrightarrow> b = c"
proof -
  assume "BBLOCK b sb = BBLOCK c sb" "unat b mod BPB = unat c mod BPB"
  then have "b div 4096 = c div 4096" and m: "unat b mod 4096 = unat c mod 4096"
    by (simp_all add: BBLOCK_def)
  then have "unat (b div 4096) = unat (c div 4096)" by simp
  then have "unat b div 4096 = unat c div 4096" by (simp only: unat_div) simp
  then show "b = c" using m by (metis div_mult_mod_eq word_unat_eq_iff)
qed

text \<open>The usage of all blocks after the bit of one of them is changed.\<close>

lemma used_change:
  assumes "bview t = (bview s)(BBLOCK b (f_sb s) := x)" "f_sb t = f_sb s"
    and "\<And>bi. bit_used x bi \<longleftrightarrow> (if bi = unat b mod BPB then v else bit_used (bview s (BBLOCK b (f_sb s))) bi)"
  shows "used t c = (if c = b then v else used s c)"
  using assms BBLOCK_eq [of c "f_sb s" b] by (auto simp: used_def)

lemma free_bit_Some:
  assumes "free_bit d b sz = Some bi"
  shows "bi < BPB" "b + bi < sz" "\<not> bit_used d bi" "j < bi \<Longrightarrow> \<not> (b + j < sz \<and> \<not> bit_used d j)"
  using assms unfolding free_bit_def find_Some_iff by (auto simp del: upt_Suc)

lemma free_bit_None:
  "free_bit d b sz = None \<longleftrightarrow> (\<forall>bi<BPB. b + bi < sz \<longrightarrow> bit_used d bi)"
  unfolding free_bit_def find_None_iff by auto

section \<open>balloc and bfree\<close>

lemma wp_bzero:
  assumes "txn s {}" "bn < d_size s" "l_n s < int NBUF" "bn \<notin> logarea s" "room s 1"
    and "\<And>u. txn u {} \<Longrightarrow> bview u = (bview s)(bn := (\<lambda>_. 0)) \<Longrightarrow> lstep 1 s u \<Longrightarrow> bn \<in> set (logged u) \<Longrightarrow> Q () u"
  shows "wp (bzero 1 bn) Q s"
  unfolding bzero_def by (rule wp_update [OF assms(1-5)]) (use assms(6) in simp)

text \<open>What \<^verbatim>\<open>balloc\<close> promises of the block it returns.\<close>

definition balloc_post :: "'z fsst_scheme \<Rightarrow> u32 \<Rightarrow> 'z fsst_scheme \<Rightarrow> bool" where
  "balloc_post s r t \<longleftrightarrow> r < sb_size (f_sb s) \<and> \<not> used s r \<and> (\<forall>b<r. used s b) \<and> txn t {} \<and> lstep 2 s t
     \<and> bview t r = (\<lambda>_. 0) \<and> (\<forall>b. b \<noteq> r \<and> b \<notin> bitmap_blocks s \<longrightarrow> bview t b = bview s b)
     \<and> (\<forall>b. b < sb_size (f_sb s) \<longrightarrow> used t b = (used s b \<or> b = r))
     \<and> r \<in> set (logged t) \<and> BBLOCK r (f_sb s) \<in> set (logged t)"

lemma group_block:
  assumes "b = k * BPB" "b + bi < unat (sb_size sb)" "bi < BPB"
  defines "r \<equiv> of_nat (b + bi) :: u32"
  shows "unat r = b + bi" "r < sb_size sb" "BBLOCK r sb = BBLOCK (of_nat b) sb" "unat r mod BPB = bi"
proof -
  have "b + bi < 2 ^ 32" using assms(2) unsigned_less [of "sb_size sb", where 'a = nat] by simp
  then show u: "unat r = b + bi" by (simp add: r_def unat_of_nat del: of_nat_add)
  then show "r < sb_size sb" using assms(2) by (simp add: word_less_nat_alt)
  have v: "unat (of_nat b :: u32) = b" using \<open>b + bi < 2 ^ 32\<close> by (simp add: unat_of_nat)
  have "unat (r div of_nat BPB) = unat (of_nat b div of_nat BPB :: u32)"
    unfolding unat_div u v using assms(1,3) by simp
  then have "r div of_nat BPB = of_nat b div of_nat BPB" by (simp only: word_unat_eq_iff)
  then show "BBLOCK r sb = BBLOCK (of_nat b) sb" by (simp only: BBLOCK_def)
  show "unat r mod BPB = bi" using u assms(1,3) by simp
qed

lemma balloc_group_free:
  assumes t: "txn s {}" and ok: "bitmap_ok s" and rm: "room s 2" and fr: "l_n s + 1 < int NBUF"
    and b: "b = k * BPB" and f: "free_bit (bview s (BBLOCK (of_nat b) (f_sb s))) b (unat (sb_size (f_sb s))) = Some bi"
    and below: "\<And>c. unat c < b \<Longrightarrow> c < sb_size (f_sb s) \<Longrightarrow> used s c"
  shows "wp (balloc_scan 1 (b # bs)) (balloc_post s) s"
proof -
  let ?sb = "f_sb s"
  define r where "r = (of_nat (b + bi) :: u32)"
  note F = free_bit_Some [OF f] and G = group_block [OF b free_bit_Some(2,1) [OF f], folded r_def]
  let ?B = "BBLOCK (of_nat b) ?sb" and ?f = "\<lambda>d :: block. d(bi div 8 := d (bi div 8) OR bitmask bi)"
  have nu: "\<not> used s r" using F(3) unfolding used_def G(3,4) .
  note O = bitmap_okD [OF ok G(2)]
  have Bd: "?B < d_size s" "?B \<notin> logarea s" using O(1,2) by (simp_all add: G(3))
  have rB: "r \<notin> bitmap_blocks s" "r \<noteq> ?B" using O(5) [OF nu] G(2,3) by (auto simp: bitmap_blocks_def)
  have first: "used s c" if "c < r" for c
  proof (cases "unat c < b")
    case True
    then show ?thesis using below that G(2) by (meson order.strict_trans)
  next
    case False
    then obtain j where j: "unat c = b + j" using le_Suc_ex by (metis not_less)
    then have jb: "j < bi" using that G(1) by (simp add: word_less_nat_alt)
    then have "b + j < unat (sb_size ?sb)" "j < BPB" using F(1,2) by simp_all
    note H = group_block [OF b this]
    have "c = of_nat (b + j)" using j H(1) by (simp only: word_unat_eq_iff)
    then show ?thesis using F(4) [OF jb] \<open>b + j < unat (sb_size ?sb)\<close> H by (simp add: used_def del: of_nat_add)
  qed
  show ?thesis
    unfolding balloc_scan.simps
  proof (subst wp_bnd, subst wp_fetch, rule wp_bread_txn [OF t Bd(1)])
    fix p u
    assume u: "txn u (insert p {})" "holds u p ?B (bview s ?B)" "bview u = bview s" "lstep 0 s u"
    have Du: "?B < d_size u" "?B \<notin> logarea u" "room u 2" "b_data (b_buf u p) = bview s ?B"
      using Bd lstepD [OF u(4)] lstep_room [OF u(4), of 2] rm u(2) by (simp_all add: holds_def numeral_2_eq_2)
    have "wp (andthen (andthen (data_upd p ?f) (log_write p)) (andthen (brelse p) (andthen (bzero 1 r) (ret r))))
       (balloc_post s) u"
    proof (rule wp_put_txn [OF u(1) _ u(2) Du(1,2)])
      show "room u 1" using Du(3) by (simp add: room_def)
      fix v
      assume v: "txn v (insert p {})" "holds v p ?B (?f (bview s ?B))" "bview v = (bview u)(?B := ?f (bview s ?B))" "lstep 1 u v"
        "?B \<in> set (logged v)"
      show "wp (andthen (brelse p) (andthen (bzero 1 r) (ret r))) (balloc_post s) v"
      proof (rule wp_andthenI, rule wp_brelse_txn [OF v(1) _ v(2)])
        fix w
        assume w: "txn w (insert p {} - {p})" "bview w = bview v" "lstep 0 v w"
        have sw: "lstep 1 s w" using lstep_trans [OF lstep_trans [OF u(4) v(4)] w(3)] by simp
        show "wp (andthen (bzero 1 r) (ret r)) (balloc_post s) w"
        proof (rule wp_andthenI, rule wp_bzero)
          show "txn w {}" using w(1) by simp
          show "r < d_size w" "r \<notin> logarea w" "l_n w < int NBUF" "room w 1"
            using O(3,4) [OF nu] lstepD [OF sw] fr lstep_room [OF sw, of 1] rm by (simp_all add: numeral_2_eq_2)
          fix x
          assume x: "txn x {}" "bview x = (bview w)(r := (\<lambda>_. 0))" "lstep 1 w x" "r \<in> set (logged x)"
          have lg: "?B \<in> set (logged x)" using v(5) lstepD(10) [OF w(3)] lstepD(10) [OF x(3)] by blast
          have sx: "lstep 2 s x" using lstep_trans [OF sw x(3)] by (simp add: numeral_2_eq_2)
          have vx: "bview x = ((bview s)(?B := ?f (bview s ?B)))(r := (\<lambda>_. 0))"
            using x(2) w(2) v(3) u(3) by simp
          have ux: "used x c = (used s c \<or> c = r)" if "c < sb_size ?sb" for c
          proof -
            have ne: "BBLOCK c ?sb \<noteq> r" using rB(1) that by (auto simp: bitmap_blocks_def)
            have bx: "used x c = bit_used (((bview s)(?B := ?f (bview s ?B))) (BBLOCK c ?sb)) (unat c mod BPB)"
              unfolding used_def vx lstep_fs [OF sx] fun_upd_other [OF ne] ..
            have uc: "used s c = bit_used (bview s (BBLOCK c ?sb)) (unat c mod BPB)" by (simp only: used_def)
            show ?thesis
            proof (cases "BBLOCK c ?sb = ?B")
              case True
              have "(unat c mod BPB = bi) = (c = r)" using BBLOCK_eq [of c ?sb r] True G(3,4) by metis
              then show ?thesis unfolding bx uc True fun_upd_same bit_used_set by blast
            next
              case False
              then have "c \<noteq> r" using G(3) by metis
              with False show ?thesis unfolding bx uc by simp
            qed
          qed
          have "?B \<in> bitmap_blocks s" using G(2,3) by (auto simp: bitmap_blocks_def intro!: exI [of _ r])
          then have "balloc_post s r x"
            using x(1,4) sx ux nu first G(2,3) vx rB(2) lg by (auto simp: balloc_post_def)
          then show "wp (ret r) (balloc_post s) x" by (simp add: wp_ret)
        qed
      qed simp
    qed simp
    then show "wp (bnd (buf_get p b_data) (\<lambda>d. case free_bit d b (unat (sb_size ?sb)) of
         None \<Rightarrow> andthen (brelse p) (balloc_scan 1 bs)
       | Some bi \<Rightarrow> andthen (andthen (data_upd p (\<lambda>d. d(bi div 8 := d (bi div 8) OR bitmask bi))) (log_write p))
           (andthen (brelse p) (andthen (bzero 1 (of_nat (b + bi))) (ret (of_nat (b + bi))))))) (balloc_post s) u"
      using f Du(4) by (simp add: wp_bnd buf_get_def wp_fetch r_def del: of_nat_add)
  qed (use fr in simp_all)
qed

lemma balloc_group_full:
  assumes t: "txn s {}" and ok: "bitmap_ok s" and fr: "l_n s < int NBUF"
    and b: "b = k * BPB" "b < unat (sb_size (f_sb s))"
    and f: "free_bit (bview s (BBLOCK (of_nat b) (f_sb s))) b (unat (sb_size (f_sb s))) = None"
  shows "\<exists>u. txn u {} \<and> bview u = bview s \<and> lstep 0 s u \<and> balloc_scan 1 (b # bs) s = balloc_scan 1 bs u"
proof -
  have "BBLOCK (of_nat b) (f_sb s) < d_size s"
    using bitmap_okD(1) [OF ok, of "of_nat b"] group_block(2) [OF b(1), of 0 "f_sb s"] b(2) by simp
  from txn_bread [OF t this] fr obtain p u where u: "bread 1 (BBLOCK (of_nat b) (f_sb s)) s = Ok p u" "txn u {p}"
    "has_block (b_buf u p) (BBLOCK (of_nat b) (f_sb s))" "b_data (b_buf u p) = bview s (BBLOCK (of_nat b) (f_sb s))"
    "bview u = bview s" "d_disk u = d_disk s" "d_writes u = d_writes s" "bframe s u" by fastforce
  from txn_brelse [OF u(2) _ u(3)] obtain v where v: "brelse p u = Ok () v" "txn v {}" "bview v = bview u"
    "d_disk v = d_disk u" "d_writes v = d_writes u" "bframe u v" by auto
  have "lstep 0 s v"
    using u v lframe_trans [OF bframe_lframe [OF u(8)] bframe_lframe [OF v(6)]] bframe_log [OF u(8)] bframe_log [OF v(6)]
      logged_bframe [OF u(8)] logged_bframe [OF v(6)]
    by (simp add: lstep_def)
  moreover have "balloc_scan 1 (b # bs) s = balloc_scan 1 bs v"
    using u(1,4) v(1) f by (simp add: bnd_def fetch_def buf_get_def andthen_def)
  ultimately show ?thesis using u v by auto
qed

lemma group_below:
  assumes "free_bit (bview s (BBLOCK (of_nat b) (f_sb s))) b (unat (sb_size (f_sb s))) = None"
    and "b = k * BPB" "unat c < b \<Longrightarrow> used s c" "unat c < b + BPB" "c < sb_size (f_sb s)"
  shows "used s c"
proof (cases "unat c < b")
  case False
  then obtain j where j: "unat c = b + j" by (metis le_Suc_ex not_less)
  then have jb: "j < BPB" "b + j < unat (sb_size (f_sb s))" using assms(4,5) by (simp_all add: word_less_nat_alt)
  note G = group_block [OF assms(2) jb(2,1)]
  have c: "c = of_nat (b + j)" using j G(1) by (simp only: word_unat_eq_iff)
  have "bit_used (bview s (BBLOCK (of_nat b) (f_sb s))) j" using assms(1) jb unfolding free_bit_None by blast
  then show ?thesis unfolding used_def c G(3,4) .
qed (rule assms(3))

lemma balloc_scan_use:
  assumes "txn s {}" "bitmap_ok s" "room s 2" "l_n s + 1 < int NBUF"
    and "\<And>c. unat c < k * BPB \<Longrightarrow> c < sb_size (f_sb s) \<Longrightarrow> used s c" "K = (unat (sb_size (f_sb s)) + BPB - 1) div BPB" "k \<le> K"
  shows "if \<forall>b. b < sb_size (f_sb s) \<longrightarrow> used s b then balloc_scan 1 (map (\<lambda>k. k * BPB) [k..<K]) s = Panic ''balloc: out of blocks''
    else wp (balloc_scan 1 (map (\<lambda>k. k * BPB) [k..<K])) (balloc_post s) s"
  using assms
proof (induction "K - k" arbitrary: k s)
  case 0
  then have "unat (sb_size (f_sb s)) \<le> k * BPB" by simp
  then have "\<forall>b. b < sb_size (f_sb s) \<longrightarrow> used s b" using 0 by (auto simp: word_less_nat_alt)
  then show ?case using 0 by (simp add: panic_def)
next
  case (Suc d)
  let ?b = "k * BPB" and ?bs = "map (\<lambda>k. k * BPB) [Suc k..<K]"
  have kK: "k < K" using Suc.hyps(2) by simp
  then have l: "map (\<lambda>k. k * BPB) [k..<K] = ?b # ?bs" by (simp add: upt_conv_Cons)
  have bs: "?b < unat (sb_size (f_sb s))" using kK Suc.prems(6) by simp
  show ?case
  proof (cases "free_bit (bview s (BBLOCK (of_nat ?b) (f_sb s))) ?b (unat (sb_size (f_sb s)))")
    case (Some bi)
    have "wp (balloc_scan 1 (?b # ?bs)) (balloc_post s) s"
      by (rule balloc_group_free [OF Suc.prems(1-4) refl Some Suc.prems(5)])
    moreover have nf: "\<not> (\<forall>b. b < sb_size (f_sb s) \<longrightarrow> used s b)"
      using group_block [OF refl free_bit_Some(2,1) [OF Some]] free_bit_Some(3) [OF Some] unfolding used_def by metis
    ultimately show ?thesis unfolding l if_not_P [OF nf] by blast
  next
    case None
    have "l_n s < int NBUF" using Suc.prems(4) by simp
    from balloc_group_full [OF Suc.prems(1,2) this refl bs None, of ?bs] obtain u where u: "txn u {}" "bview u = bview s"
      "lstep 0 s u" "balloc_scan 1 (?b # ?bs) s = balloc_scan 1 ?bs u" by blast
    note C = bitmap_cong [OF u(2,3)] and F = lstep_fs [OF u(3)] and D = lstepD [OF u(3)]
    have low: "used u c" if "unat c < Suc k * BPB" "c < sb_size (f_sb u)" for c
      using group_below [OF None refl, of c] Suc.prems(5) [of c] that unfolding C(1) F(1) by simp
    have pst: "balloc_post u r t \<Longrightarrow> balloc_post s r t" for r t
      using C F(1) u(2) lstep_trans [OF u(3), of 2 t] by (auto simp: balloc_post_def numeral_2_eq_2)
    have "if \<forall>b. b < sb_size (f_sb u) \<longrightarrow> used u b then balloc_scan 1 ?bs u = Panic ''balloc: out of blocks''
        else wp (balloc_scan 1 ?bs) (balloc_post u) u"
    proof (rule Suc.hyps(1) [OF _ u(1)])
      show "room u 2" using lstep_room [OF u(3), of 2] Suc.prems(3) by (simp add: numeral_2_eq_2)
      show "bitmap_ok u" "l_n u + 1 < int NBUF" "K = (unat (sb_size (f_sb u)) + BPB - 1) div BPB"
        using C(3) Suc.prems lstep_room [OF u(3), of 2] D(6) F by simp_all
    qed (use Suc.hyps(2) kK low in simp_all)
    then have IH: "if \<forall>b. b < sb_size (f_sb s) \<longrightarrow> used s b then balloc_scan 1 ?bs u = Panic ''balloc: out of blocks''
        else wp (balloc_scan 1 ?bs) (balloc_post u) u" unfolding C(1) F(1) .
    show ?thesis
    proof (cases "\<forall>b. b < sb_size (f_sb s) \<longrightarrow> used s b")
      case True
      with IH show ?thesis unfolding l u(4) if_P [OF True] by blast
    next
      case False
      then have "wp (balloc_scan 1 ?bs) (balloc_post u) u" using IH unfolding if_not_P [OF False] by blast
      then have "wp (balloc_scan 1 ?bs) (balloc_post s) u" by (rule wp_mono) (rule pst)
      then have "wp (balloc_scan 1 (?b # ?bs)) (balloc_post s) s" unfolding wp_def u(4) .
      then show ?thesis unfolding l if_not_P [OF False] .
    qed
  qed
qed

lemma balloc_use:
  assumes "txn s {}" "bitmap_ok s" "room s 2" "l_n s + 1 < int NBUF"
  shows "if \<forall>b. b < sb_size (f_sb s) \<longrightarrow> used s b then balloc 1 s = Panic ''balloc: out of blocks''
    else wp (balloc 1) (balloc_post s) s"
proof -
  let ?gs = "map (\<lambda>k. k * BPB) [0..<(unat (sb_size (f_sb s)) + BPB - 1) div BPB]"
  have e: "balloc 1 s = balloc_scan 1 ?gs s" by (simp add: balloc_def bnd_def fetch_def del: BPB_4096)
  have w: "wp (balloc 1) (balloc_post s) s = wp (balloc_scan 1 ?gs) (balloc_post s) s" by (simp only: wp_def e)
  show ?thesis unfolding e w by (rule balloc_scan_use [OF assms _ refl]) simp_all
qed

lemma balloc_bitmap_ok:
  assumes ok: "bitmap_ok s" and p: "balloc_post s r t"
  shows "bitmap_ok t"
proof -
  have st: "lstep 2 s t" and u: "\<And>b. b < sb_size (f_sb s) \<Longrightarrow> used t b = (used s b \<or> b = r)"
    using p by (simp_all add: balloc_post_def)
  have "bitmap_blocks t = bitmap_blocks s" by (simp add: bitmap_blocks_def lstep_fs [OF st])
  then show ?thesis using ok u lstep_fs [OF st] lstepD [OF st] by (auto simp: bitmap_ok_def)
qed

lemma readsb_txn:
  assumes t: "txn s {}" and sz: "1 < d_size s" and fr: "l_n s < int NBUF"
    and k: "\<And>u. txn u {} \<Longrightarrow> bview u = bview s \<Longrightarrow> lstep 0 s u \<Longrightarrow> wp (k (sb_decode (bview s 1))) Q u"
  shows "wp (bnd (readsb 1) k) Q s"
proof -
  have e: "bnd (readsb 1) k = bnd (bread 1 1) (\<lambda>b. bnd (buf_get b (\<lambda>p. sb_decode (b_data p))) (\<lambda>x. andthen (brelse b) (k x)))"
    by (simp add: fun_eq_iff readsb_def bnd_def andthen_def buf_get_def fetch_def ret_def split: outcome.split)
  show ?thesis unfolding e by (rule wp_peek [OF t sz fr]) (rule k)
qed

definition bfree_post :: "'z fsst_scheme \<Rightarrow> u32 \<Rightarrow> 'z fsst_scheme \<Rightarrow> bool" where
  "bfree_post s b t \<longleftrightarrow> txn t {} \<and> lstep 1 s t \<and> (\<forall>c. used t c = (used s c \<and> c \<noteq> b))
     \<and> (\<forall>c. c \<noteq> BBLOCK b (f_sb s) \<longrightarrow> bview t c = bview s c)"

lemma lstep_same_sb: "f_sb s = sb \<Longrightarrow> s\<lparr>f_sb := sb\<rparr> = (s :: 'z fsst_scheme)"
  by simp

lemma bfree_use:
  assumes t: "txn s {}" and sz: "1 < d_size s" and fr: "l_n s < int NBUF" and rm: "room s 1"
    and sb: "sb_decode (bview s 1) = f_sb s"
    and B: "BBLOCK b (f_sb s) < d_size s" "BBLOCK b (f_sb s) \<notin> logarea s" and us: "used s b"
  shows "wp (bfree 1 b) (\<lambda>_. bfree_post s b) s"
  unfolding bfree_def
proof (rule readsb_txn [OF t sz fr])
  fix u
  assume u: "txn u {}" "bview u = bview s" "lstep 0 s u"
  note F = lstep_fs [OF u(3)] and D = lstepD [OF u(3)]
  let ?B = "BBLOCK b (f_sb s)" and ?bi = "unat b mod BPB"
  let ?f = "\<lambda>d :: block. d(?bi div 8 := d (?bi div 8) AND NOT (bitmask ?bi))"
  have same: "u\<lparr>f_sb := f_sb s\<rparr> = u" using F(1) by (simp add: lstep_same_sb)
  have d: "bview u ?B = bview s ?B" using u(2) by simp
  have main: "wp (bnd (bread 1 ?B) (\<lambda>bp. bnd (buf_get bp b_data) (\<lambda>d. if \<not> bit_used d ?bi then panic ''freeing free block'' else
     andthen (andthen (data_upd bp ?f) (log_write bp)) (brelse bp)))) (\<lambda>_. bfree_post s b) u"
  proof (rule wp_bread_txn [OF u(1)])
    fix p v
    assume v: "txn v (insert p {})" "holds v p ?B (bview u ?B)" "bview v = bview u" "lstep 0 u v"
    have "wp (andthen (andthen (data_upd p ?f) (log_write p)) (brelse p)) (\<lambda>_. bfree_post s b) v"
    proof (rule wp_put_txn [OF v(1) _ v(2)])
      show "?B < d_size v" "?B \<notin> logarea v" "room v 1"
        using B D lstepD [OF v(4)] lstep_room [OF lstep_trans [OF u(3) v(4)], of 1] rm by simp_all
      fix w
      assume w: "txn w (insert p {})" "holds w p ?B (?f (bview u ?B))" "bview w = (bview v)(?B := ?f (bview u ?B))" "lstep 1 v w"
      show "wp (brelse p) (\<lambda>_. bfree_post s b) w"
      proof (rule wp_brelse_txn [OF w(1) _ w(2)])
        fix x
        assume x: "txn x (insert p {} - {p})" "bview x = bview w" "lstep 0 w x"
        have sx: "lstep 1 s x" using lstep_trans [OF lstep_trans [OF lstep_trans [OF u(3) v(4)] w(4)] x(3)] by simp
        have vx: "bview x = (bview s)(?B := ?f (bview s ?B))" using x(2) w(3) v(3) u(2) by simp
        have "used x c = (if c = b then False else used s c)" for c
          by (rule used_change [OF vx lstep_fs(1) [OF sx]]) (simp only: bit_used_clear, simp)
        then show "bfree_post s b x" using x(1) sx vx by (auto simp: bfree_post_def)
      qed simp
    qed simp
    then show "wp (bnd (buf_get p b_data) (\<lambda>d. if \<not> bit_used d ?bi then panic ''freeing free block'' else
       andthen (andthen (data_upd p ?f) (log_write p)) (brelse p))) (\<lambda>_. bfree_post s b) v"
      using v(2) us d by (simp add: wp_bnd buf_get_def wp_fetch holds_def used_def)
  qed (use B D fr in simp_all)
  show "wp (andthen (modify (\<lambda>s'. s'\<lparr>f_sb := sb_decode (bview s 1)\<rparr>)) (bnd (bread 1 (BBLOCK b (sb_decode (bview s 1)))) (\<lambda>bp.
     let bi = unat b mod BPB in
     bnd (buf_get bp b_data) (\<lambda>d.
     if \<not> bit_used d bi then panic ''freeing free block'' else
     andthen (andthen (data_upd bp (\<lambda>d. d(bi div 8 := d (bi div 8) AND NOT (bitmask bi)))) (log_write bp))
     (brelse bp))))) (\<lambda>_. bfree_post s b) u"
    unfolding wp_andthen wp_modify sb same Let_def by (rule main)
qed

lemma readsb_step:
  assumes "txn s {}" "1 < d_size s" "l_n s < int NBUF"
  obtains u where "readsb 1 s = Ok (sb_decode (bview s 1)) u" "txn u {}" "bview u = bview s" "lstep 0 s u"
proof -
  have "wp (bnd (readsb 1) ret) (\<lambda>x u. x = sb_decode (bview s 1) \<and> txn u {} \<and> bview u = bview s \<and> lstep 0 s u) s"
    by (rule readsb_txn [OF assms]) (simp add: wp_ret)
  then show thesis using that by (auto simp: wp_bnd wp_ret) (auto simp: wp_iff)
qed

lemma bfree_free:
  assumes "txn s {}" "1 < d_size s" "l_n s < int NBUF" "sb_decode (bview s 1) = f_sb s"
    "BBLOCK b (f_sb s) < d_size s" and free: "\<not> used s b"
  shows "bfree 1 b s = Panic ''freeing free block''"
proof -
  let ?B = "BBLOCK b (f_sb s)"
  obtain u where u: "readsb 1 s = Ok (f_sb s) u" "txn u {}" "bview u = bview s" "lstep 0 s u"
    using readsb_step [OF assms(1-3)] assms(4) by metis
  have "f_sb u = f_sb s" using lstep_fs(1) [OF u(4)] .
  then have same: "u\<lparr>f_sb := f_sb s\<rparr> = u" by (simp add: lstep_same_sb)
  have "wp (bnd (bread 1 ?B) ret) (\<lambda>p v. b_data (b_buf v p) = bview s ?B) u"
    by (rule wp_bread_txn [OF u(2)]) (use lstepD [OF u(4)] assms(3,5) u(3) in \<open>simp_all add: wp_ret holds_def\<close>)
  then obtain p v where "bread 1 ?B u = Ok p v" "b_data (b_buf v p) = bview s ?B"
    by (auto simp: wp_bnd wp_ret) (auto simp: wp_iff)
  then show ?thesis using u(1) same free
    by (simp add: bfree_def bnd_def andthen_def modify_def buf_get_def fetch_def used_def panic_def Let_def)
qed

section \<open>Inode updates\<close>

lemma iupdate_use:
  assumes t: "txn s {}" and fr: "l_n s < int NBUF" and rm: "room s 1"
    and i: "f_inode s ip = i" "i_dev i = 1"
    and B: "IBLOCK (i_inum i) (f_sb s) < d_size s" "IBLOCK (i_inum i) (f_sb s) \<notin> logarea s"
  shows "wp (iupdate ip) (\<lambda>_ t. txn t {} \<and> lstep 1 s t \<and> bview t = (bview s)(IBLOCK (i_inum i) (f_sb s)
     := dinode_put (bview s (IBLOCK (i_inum i) (f_sb s))) (dinode_off (i_inum i)) (dinode_of i))) s"
  unfolding iupdate_def wp_bnd ino_get_def wp_fetch id_apply i
  unfolding wp_bnd [symmetric] by (rule wp_update [OF t B(1) fr B(2) rm]) simp

section \<open>Properties\<close>

text \<open>
  C10: \<^verbatim>\<open>balloc\<close> panics exactly when every block is in use; otherwise it returns the lowest free
  block, which it marks in use and zeroes: no other block's usage changes and no block outside the
  bitmap other than the returned one changes its contents.  The change is only logged: the returned block and
  the bitmap block that holds its bit are in the log, with everything that was there and at most these two more, and
  nothing is written to the disk.
\<close>

theorem balloc_correct:
  assumes "txn s {}" "bitmap_ok s" "room s 2" "l_n s + 1 < int NBUF"
  shows "if \<forall>b. b < sb_size (f_sb s) \<longrightarrow> used s b then balloc 1 s = Panic ''balloc: out of blocks''
    else \<exists>r t. balloc 1 s = Ok r t \<and> r < sb_size (f_sb s) \<and> \<not> used s r \<and> (\<forall>b<r. used s b)
      \<and> (\<forall>b. b < sb_size (f_sb s) \<longrightarrow> used t b = (used s b \<or> b = r))
      \<and> bview t r = (\<lambda>_. 0) \<and> (\<forall>b. b \<noteq> r \<and> b \<notin> bitmap_blocks s \<longrightarrow> bview t b = bview s b)
      \<and> r \<in> set (logged t) \<and> BBLOCK r (f_sb s) \<in> set (logged t) \<and> set (logged s) \<subseteq> set (logged t)
      \<and> d_disk t = d_disk s \<and> d_writes t = d_writes s
      \<and> txn t {} \<and> bitmap_ok t \<and> l_n t \<le> l_n s + 2"
proof (cases "\<forall>b. b < sb_size (f_sb s) \<longrightarrow> used s b")
  case True
  show ?thesis using balloc_use [OF assms] unfolding if_P [OF True] .
next
  case False
  then obtain r t where b: "balloc 1 s = Ok r t" "balloc_post s r t"
    using balloc_use [OF assms] unfolding if_not_P [OF False] wp_iff by blast
  then have "lstep 2 s t" by (simp add: balloc_post_def)
  then show ?thesis
    unfolding if_not_P [OF False] using b balloc_bitmap_ok [OF assms(2) b(2)] lstepD [of 2 s t]
    by (intro exI [of _ r] exI [of _ t]) (simp add: balloc_post_def)
qed

text \<open>
  \<^verbatim>\<open>bfree\<close> of a block in use clears its bit and no other, and touches no other block; \<^verbatim>\<open>bfree\<close> of a
  free block panics, so nothing is freed twice.
\<close>

theorem bfree_correct:
  assumes "txn s {}" "1 < d_size s" "l_n s < int NBUF" "room s 1" "sb_decode (bview s 1) = f_sb s"
    "BBLOCK b (f_sb s) < d_size s" "BBLOCK b (f_sb s) \<notin> logarea s"
  shows "if used s b then \<exists>t. bfree 1 b s = Ok () t \<and> (\<forall>c. used t c = (used s c \<and> c \<noteq> b))
     \<and> (\<forall>c. c \<noteq> BBLOCK b (f_sb s) \<longrightarrow> bview t c = bview s c) \<and> txn t {} \<and> f_inode t = f_inode s
   else bfree 1 b s = Panic ''freeing free block''"
proof (cases "used s b")
  case True
  obtain t where t: "bfree 1 b s = Ok () t" "bfree_post s b t" using bfree_use [OF assms True] by (auto simp: wp_iff)
  then have "lstep 1 s t" by (simp add: bfree_post_def)
  with t lstep_fs(2) show ?thesis using True by (auto simp: bfree_post_def)
next
  case False
  then show ?thesis using bfree_free [OF assms(1-3,5,6)] by simp
qed

text \<open>
  \<^verbatim>\<open>iupdate\<close> makes the on-disk inode equal to the cached one: reading it back gives every field
  and all thirteen block addresses, no other inode of the disk changes, also not those in the same
  block, and no other block does.
\<close>

theorem iupdate_persists:
  assumes "txn s {}" "l_n s < int NBUF" "room s 1" "i_dev (f_inode s ip) = 1"
    "length (i_addrs (f_inode s ip)) = NDIRECT + 1"
    "IBLOCK (i_inum (f_inode s ip)) (f_sb s) < d_size s" "IBLOCK (i_inum (f_inode s ip)) (f_sb s) \<notin> logarea s"
  shows "\<exists>t. iupdate ip s = Ok () t \<and> dino t (i_inum (f_inode s ip)) = dinode_of (f_inode s ip)
     \<and> (\<forall>j. j \<noteq> i_inum (f_inode s ip) \<longrightarrow> dino t j = dino s j)
     \<and> (\<forall>c. c \<noteq> IBLOCK (i_inum (f_inode s ip)) (f_sb s) \<longrightarrow> bview t c = bview s c)
     \<and> txn t {} \<and> f_inode t = f_inode s"
proof -
  let ?i = "f_inode s ip"
  obtain t where t: "iupdate ip s = Ok () t" "txn t {}" "lstep 1 s t" "bview t = (bview s)(IBLOCK (i_inum ?i) (f_sb s)
     := dinode_put (bview s (IBLOCK (i_inum ?i) (f_sb s))) (dinode_off (i_inum ?i)) (dinode_of ?i))"
    using iupdate_use [OF assms(1-3) refl assms(4,6,7)] by (auto simp: wp_iff)
  have "length (di_addrs (dinode_of ?i)) = NDIRECT + 1" using assms(5) by (simp add: dinode_of_def)
  note P = dino_put [OF t(4) lstep_fs(1) [OF t(3)] this]
  show ?thesis using t P lstep_fs(2) [OF t(3)] by auto
qed

section \<open>Witnesses\<close>

text \<open>
  A file system as \<^verbatim>\<open>mkfs\<close> makes it: 1000 blocks, log at 2, inodes at 32, the bitmap in block 58
  with the first 59 blocks in use.
\<close>

definition demo_sb :: superblock where
  "demo_sb = \<lparr>sb_size = 1000, sb_nblocks = 941, sb_ninodes = 200, sb_nlog = 30, sb_logstart = 2,
     sb_inodestart = 32, sb_bmapstart = 58\<rparr>"

definition demo_fs_disk :: "u32 \<Rightarrow> block" where
  "demo_fs_disk b =
     (if b = 1 then store_array (\<lambda>_. 0) 0 [1000, 941, 200, 30, 2, 32, 58]
      else if b = 58 then (\<lambda>k. if k < 7 then - 1 else if k = 7 then 7 else 0)
      else (\<lambda>_. 0))"

definition demo_inode :: inode where
  "demo_inode = inode0\<lparr>i_dev := 1, i_inum := 9, i_ref := 1, i_type := T_FILE, i_size := 3\<rparr>"

definition demo_fs :: fsst where
  "demo_fs = (run sample_start (fsst0 demo_fs_disk 1000))\<lparr>f_sb := demo_sb, f_inode := (\<lambda>_. demo_inode)\<rparr>"

lemma fs_upd_cong:
  "using_bufs (s\<lparr>f_sb := a, f_inode := b\<rparr>) H = using_bufs s H" "bview (s\<lparr>f_sb := a, f_inode := b\<rparr>) = bview s"
  "dset (s\<lparr>f_sb := a, f_inode := b\<rparr>) = dset s"
  by (rule cache_cong; simp)+

lemma demo_fs_facts:
  "txn demo_fs {}" "d_size demo_fs = 1000" "bview demo_fs = demo_fs_disk" "l_n demo_fs = 0"
  "l_size demo_fs = 30" "l_start demo_fs = 2" "f_sb demo_fs = demo_sb" "f_inode demo_fs = (\<lambda>_. demo_inode)"
proof -
  let ?s = "fsst0 demo_fs_disk 1000"
  have S: "b_buf ?s j = buf0" "k_held ?s = []" "k_cur ?s \<noteq> None" "d_disk ?s = demo_fs_disk" "d_size ?s = 1000"
    "l_n ?s = 0" "length (l_block ?s) = LOGSIZE" for j
    by (simp_all add: fsst0_def lst.defs lst0_def bst0_def bst.defs kst.defs kst0_def)
  from sample_start_use [of ?s] S obtain t where t: "sample_start ?s = Ok () t" "txn t {}" "dset t = {}" "d_size t = 1000"
    "d_disk t = demo_fs_disk" "l_n t = 0" "l_size t = 30" "l_start t = 2" by auto
  have d: "demo_fs = t\<lparr>f_sb := demo_sb, f_inode := (\<lambda>_. demo_inode)\<rparr>" by (simp add: demo_fs_def run_def t(1))
  show "d_size demo_fs = 1000" "l_n demo_fs = 0" "l_size demo_fs = 30" "l_start demo_fs = 2"
    "f_sb demo_fs = demo_sb" "f_inode demo_fs = (\<lambda>_. demo_inode)" using t by (simp_all add: d)
  have "using_bufs t {}" using t(2) by (simp add: txn_def)
  then have "bview t b = d_disk t b" for b by (rule bview_clean) (simp_all add: t(3))
  then show "bview demo_fs = demo_fs_disk" unfolding d fs_upd_cong using t(5) by auto
  have "log_geom demo_fs = log_geom t" "logged demo_fs = logged t" "l_outstanding demo_fs = l_outstanding t"
    by (simp_all add: d log_geom_def logarea_def logged_def)
  then show "txn demo_fs {}" using t(2) unfolding txn_def by (simp add: d fs_upd_cong coherent_def)
qed

lemma demo_used: "b < 1000 \<Longrightarrow> used demo_fs b \<longleftrightarrow> unat b < 59"
proof -
  assume "b < 1000"
  then have u: "unat b < 1000" by (simp add: word_less_nat_alt)
  have B: "BBLOCK b demo_sb = 58"
  proof -
    have "unat (b div 4096) = 0" using u by (simp only: unat_div) simp
    then have "b div 4096 = 0" by (simp only: word_unat_eq_iff) simp
    then show ?thesis by (simp add: BBLOCK_def demo_sb_def)
  qed
  have "used demo_fs b \<longleftrightarrow> bit (demo_fs_disk 58 (unat b div 8)) (unat b mod 8)"
    using u by (simp add: used_def demo_fs_facts B bit_used_iff)
  also have "\<dots> \<longleftrightarrow> unat b < 59"
  proof -
    have seven: "bit (7 :: u8) n \<longleftrightarrow> n < 3" for n
    proof -
      have "(7 :: u8) = mask 3" by (simp add: mask_eq_exp_minus_1)
      then show ?thesis by (simp only: bit_mask_iff) auto
    qed
    consider "unat b < 56" | "unat b div 8 = 7" | "64 \<le> unat b" by linarith
    then show ?thesis
    proof cases
      case 1
      then have "unat b div 8 < 7" by simp
      then show ?thesis using 1 by (simp add: demo_fs_disk_def)
    next
      case 2
      have "unat b = 56 + unat b mod 8" using 2 by presburger
      then have "unat b mod 8 < 3 \<longleftrightarrow> unat b < 59" by linarith
      then show ?thesis using 2 seven [of "unat b mod 8"] by (simp add: demo_fs_disk_def)
    next
      case 3
      then have "\<not> unat b div 8 < 7" "unat b div 8 \<noteq> 7" by simp_all
      then show ?thesis using 3 by (simp add: demo_fs_disk_def)
    qed
  qed
  finally show "used demo_fs b \<longleftrightarrow> unat b < 59" .
qed

lemma demo_area_fs: "logarea demo_fs = {b. 2 \<le> unat b \<and> unat b < 32}"
  using demo_fs_facts by (simp add: logarea_def)

lemma demo_BBLOCK: "b < 1000 \<Longrightarrow> BBLOCK b demo_sb = 58"
proof -
  assume "b < 1000"
  then have "unat (b div 4096) = 0" by (simp only: unat_div) (simp add: word_less_nat_alt)
  then have "b div 4096 = 0" by (simp only: word_unat_eq_iff) simp
  then show ?thesis by (simp add: BBLOCK_def demo_sb_def)
qed

lemma demo_bitmap_ok: "bitmap_ok demo_fs"
  unfolding bitmap_ok_def
proof (intro allI impI)
  fix b
  assume "b < sb_size (f_sb demo_fs)"
  then have b: "b < 1000" by (simp add: demo_fs_facts demo_sb_def)
  have "bitmap_blocks demo_fs \<subseteq> {58}" using demo_BBLOCK by (auto simp: bitmap_blocks_def demo_fs_facts demo_sb_def)
  then have n: "b \<notin> bitmap_blocks demo_fs" if "59 \<le> unat b" using that by auto
  show "BBLOCK b (f_sb demo_fs) < d_size demo_fs \<and> BBLOCK b (f_sb demo_fs) \<notin> logarea demo_fs
     \<and> (\<not> used demo_fs b \<longrightarrow> b < d_size demo_fs \<and> b \<notin> logarea demo_fs \<and> b \<notin> bitmap_blocks demo_fs)"
    using b n demo_BBLOCK [OF b] demo_used [OF b] by (auto simp: demo_fs_facts demo_area_fs)
qed

theorem balloc_correct_witness:
  "\<exists>r t. balloc 1 demo_fs = Ok r t \<and> \<not> used demo_fs r \<and> used t r \<and> bview t r = (\<lambda>_. 0) \<and> r \<in> set (logged t)
     \<and> d_disk t = d_disk demo_fs"
proof -
  note D = demo_fs_facts
  have nf: "\<not> (\<forall>b. b < sb_size (f_sb demo_fs) \<longrightarrow> used demo_fs b)"
  proof
    assume "\<forall>b. b < sb_size (f_sb demo_fs) \<longrightarrow> used demo_fs b"
    then have "used demo_fs 59" by (simp add: D demo_sb_def)
    then show False using demo_used [of 59] by simp
  qed
  have "room demo_fs 2" "l_n demo_fs + 1 < int NBUF" by (simp_all add: D room_def)
  from balloc_correct [OF D(1) demo_bitmap_ok this] show ?thesis unfolding if_not_P [OF nf] by blast
qed

theorem bfree_correct_witness:
  "\<exists>t. bfree 1 40 demo_fs = Ok () t \<and> \<not> used t 40 \<and> used t 41"
proof -
  note D = demo_fs_facts
  have "sb_decode (bview demo_fs 1) = f_sb demo_fs"
    using load_store_array [of "\<lambda>_. 0" 0 "[1000, 941, 200, 30, 2, 32, 58]"]
    by (simp add: D demo_fs_disk_def sb_decode_def demo_sb_def load_array_def upt_rec)
  moreover have "used demo_fs 40" "used demo_fs 41" using demo_used by simp_all
  ultimately show ?thesis
    using bfree_correct [OF D(1), of 40] demo_BBLOCK [of 40] by (auto simp: D room_def demo_area_fs)
qed

theorem iupdate_persists_witness:
  "\<exists>t. iupdate 0 demo_fs = Ok () t \<and> dino t 9 = dinode_of demo_inode"
proof -
  note D = demo_fs_facts
  have "IBLOCK 9 demo_sb = 33" by (simp add: IBLOCK_def IPB_def demo_sb_def)
  then show ?thesis
    using iupdate_persists [OF D(1), of 0] by (auto simp: D room_def demo_area_fs demo_inode_def inode0_def)
qed

end
