(* ===== verification/Fsdata.thy ===== *)
theory Fsdata
  imports Fsmeta
begin

text \<open>
  Reading inode contents: \<^verbatim>\<open>bmap\<close> on mapped blocks and \<^verbatim>\<open>readi\<close> against the abstract file, the byte at
  each offset.
\<close>

section \<open>Reading a block\<close>

definition qstep :: "'z lst_scheme \<Rightarrow> 'z lst_scheme \<Rightarrow> bool" where
  "qstep s t \<longleftrightarrow> using_bufs t {} \<and> bview t = bview s \<and> dset t = dset s \<and> d_disk t = d_disk s
     \<and> d_writes t = d_writes s \<and> bframe s t"

lemma qstep_trans: "qstep s t \<Longrightarrow> qstep t u \<Longrightarrow> qstep s u"
  using bframe_trans by (fastforce simp: qstep_def)

lemma qstepD:
  assumes "qstep s t"
  shows "using_bufs t {}" "bview t = bview s" "dset t = dset s" "bframe s t" "d_size t = d_size s"
  using assms bframeD(3) [of s t] by (simp_all add: qstep_def)

lemma bframe_fs:
  assumes "bframe s t"
  shows "f_sb t = f_sb s" "f_inode t = f_inode s"
proof -
  have t: "t = s\<lparr>k_procs := k_procs t, b_buf := b_buf t, d_disk := d_disk t, d_writes := d_writes t\<rparr>"
    using assms by (simp add: bframe_def)
  show "f_sb t = f_sb s" "f_inode t = f_inode s" by (subst t, simp)+
qed

lemma look_use:
  assumes inv: "using_bufs s {}" and bn: "bn < d_size s" and fr: "card (dset s) < NBUF"
  shows "\<exists>b u v. bread 1 bn s = Ok b u \<and> b_data (b_buf u b) = bview s bn \<and> brelse b u = Ok () v \<and> qstep s v"
proof -
  obtain b u where u: "bread 1 bn s = Ok b u" "using_bufs u {b}" "has_block (b_buf u b) bn"
    "b_data (b_buf u b) = bview s bn" "bview u = bview s" "dset u = dset s" "d_disk u = d_disk s"
    "d_writes u = d_writes s" "bframe s u"
    using bread_use [OF inv bn] fr by auto
  have "bn \<in> dset s \<or> bview s bn = d_disk s bn" using bview_clean [OF inv, of bn] by blast
  then have "bn \<in> dset u \<or> b_data (b_buf u b) = d_disk u bn" using u by simp
  from brelse_use [OF u(2) _ u(3) this] obtain v where v: "brelse b u = Ok () v" "using_bufs v {}" "bview v = bview u"
    "dset v = dset u" "d_disk v = d_disk u" "d_writes v = d_writes u" "bframe u v" by auto
  have "qstep s v" using u v bframe_trans [OF u(9) v(7)] by (simp add: qstep_def)
  with u v show ?thesis by blast
qed

section \<open>The blocks of a file\<close>

definition fblock :: "(u32 \<Rightarrow> block) \<Rightarrow> inode \<Rightarrow> nat \<Rightarrow> u32" where
  "fblock V i bn =
     (if bn < NDIRECT then i_addrs i ! bn
      else if bn < MAXFILE \<and> i_addrs i ! NDIRECT \<noteq> 0 then load32 (V (i_addrs i ! NDIRECT)) (4 * (bn - NDIRECT))
      else 0)"

definition fbyte :: "(u32 \<Rightarrow> block) \<Rightarrow> inode \<Rightarrow> nat \<Rightarrow> u8" where
  "fbyte V i k = V (fblock V i (k div BSIZE)) (k mod BSIZE)"

text \<open>The first \<open>n\<close> bytes of the file are in allocated blocks of the disk.\<close>

definition mapped :: "'z fsst_scheme \<Rightarrow> inode \<Rightarrow> nat \<Rightarrow> bool" where
  "mapped s i n \<longleftrightarrow> (\<forall>bn. bn * BSIZE < n \<longrightarrow> fblock (bview s) i bn \<noteq> 0 \<and> fblock (bview s) i bn < d_size s
     \<and> (NDIRECT \<le> bn \<longrightarrow> i_addrs i ! NDIRECT < d_size s))"

lemma mapped_mono: "mapped s i n \<Longrightarrow> m \<le> n \<Longrightarrow> mapped s i m"
  unfolding mapped_def by (meson less_le_trans)

lemma bmap_use:
  assumes inv: "using_bufs s {}" and fr: "card (dset s) < NBUF" and i: "f_inode s ip = i" "i_dev i = 1"
    and m: "fblock (bview s) i (unat bn) \<noteq> 0" "NDIRECT \<le> unat bn \<longrightarrow> i_addrs i ! NDIRECT < d_size s"
  shows "\<exists>u. bmap ip bn s = Ok (fblock (bview s) i (unat bn)) u \<and> qstep s u"
proof (cases "unat bn < NDIRECT")
  case True
  have "qstep s s" using inv by (simp add: qstep_def)
  with True m(1) show ?thesis by (simp add: bmap_def ino_get_def bnd_def fetch_def i ret_def fblock_def)
next
  case False
  then have b: "unat bn < MAXFILE" "i_addrs i ! NDIRECT \<noteq> 0" using m(1) by (auto simp: fblock_def split: if_splits)
  let ?n = "unat bn - NDIRECT" and ?ind = "i_addrs i ! NDIRECT"
  have n: "?n < NINDIRECT" using b(1) False by (simp add: MAXFILE_def)
  have a: "load32 (bview s ?ind) (4 * ?n) = fblock (bview s) i (unat bn)" using False b by (simp add: fblock_def)
  obtain p u v where u: "bread 1 ?ind s = Ok p u" "b_data (b_buf u p) = bview s ?ind" "brelse p u = Ok () v" "qstep s v"
    using look_use [OF inv _ fr] m(2) False by (metis not_less)
  have "bmap ip bn s = Ok (fblock (bview s) i (unat bn)) v"
    using False b n m(1) u by (simp add: bmap_def ino_get_def bnd_def fetch_def i ret_def Let_def buf_get_def andthen_def a)
  with u show ?thesis by blast
qed

section \<open>readi\<close>

lemma BSIZE_512 [simp]: "BSIZE = 512"
  by (simp add: BSIZE_def)

lemma div_mod_add:
  assumes "x mod d + k < (d::nat)"
  shows "(x + k) div d = x div d" "(x + k) mod d = x mod d + k"
proof -
  have k: "k div d = 0" "k mod d = k" using assms by simp_all
  show "(x + k) div d = x div d" using assms by (simp add: div_add1_eq [of x k d] k)
  show "(x + k) mod d = x mod d + k" using assms by (metis mod_add_left_eq mod_less)
qed

lemma get_bytes_file:
  assumes "m \<le> 512 - off mod 512"
  shows "get_bytes (V (fblock V i (off div 512))) (off mod 512) m = map (fbyte V i) [off..<off + m]"
proof (rule nth_equalityI)
  fix k
  assume "k < length (get_bytes (V (fblock V i (off div 512))) (off mod 512) m)"
  then have k: "k < m" by (simp add: get_bytes_def)
  then have lt: "off mod 512 + k < 512" using assms by (simp add: less_diff_conv)
  have "(off + k) div 512 = off div 512" "(off + k) mod 512 = off mod 512 + k"
    using div_mod_add [OF lt] by simp_all
  then show "get_bytes (V (fblock V i (off div 512))) (off mod 512) m ! k = map (fbyte V i) [off..<off + m] ! k"
    using k by (simp add: get_bytes_def fbyte_def)
qed (simp add: get_bytes_def)

lemma chunk_val: "tot < n \<Longrightarrow> unat (chunk n tot off) = min (unat n - unat tot) (512 - unat off mod 512)"
proof -
  assume t: "tot < n"
  have "unat (off mod 512) = unat off mod 512" by (simp only: unat_mod) simp
  then have o: "off mod 512 \<le> (512 :: u32)" "unat (512 - off mod 512 :: u32) = 512 - unat off mod 512"
    using unat_sub_small [of "off mod 512" 512] by (simp_all add: word_le_nat_alt)
  have "unat (n - tot) = unat n - unat tot" using t by (simp add: unat_sub_small)
  then show ?thesis unfolding chunk_def min_def word_le_nat_alt using o by simp
qed

lemma readi_loop_use:
  assumes "using_bufs s {}" "card (dset s) < NBUF" "f_inode s ip = i" "i_dev i = 1" "mapped s i (unat off + (unat n - unat tot))"
    and "tot \<le> n" "unat off + (unat n - unat tot) < 2 ^ 32"
  shows "\<exists>t. readi_loop ip tot off n s = Ok (map (fbyte (bview s) i) [unat off..<unat off + (unat n - unat tot)]) t \<and> qstep s t"
  using assms
proof (induction ip tot off n arbitrary: s rule: readi_loop.induct)
  case (1 ip tot off n)
  show ?case
  proof (cases "tot < n")
    case False
    then have "tot = n" using "1.prems"(6) by simp
    then show ?thesis using "1.prems"(1) by (subst readi_loop.simps) (simp add: ret_def qstep_def)
  next
    case True
    let ?m = "chunk n tot off" and ?bn = "off div of_nat BSIZE"
    note c = chunk_val [OF True, of off]
    have lt: "unat tot < unat n" using True by (simp add: word_less_nat_alt)
    have ub: "unat ?bn = unat off div 512" by (simp add: unat_div)
    have um: "unat (off mod of_nat BSIZE) = unat off mod 512" by (simp add: unat_mod)
    have "unat off div 512 * BSIZE \<le> unat off" by simp
    then have mp: "fblock (bview s) i (unat ?bn) \<noteq> 0" "fblock (bview s) i (unat ?bn) < d_size s"
      "NDIRECT \<le> unat ?bn \<longrightarrow> i_addrs i ! NDIRECT < d_size s"
      using "1.prems"(5) lt unfolding mapped_def ub by (auto simp del: BSIZE_512 dest!: spec [of _ "unat off div 512"])
    obtain u where u: "bmap ip ?bn s = Ok (fblock (bview s) i (unat ?bn)) u" "qstep s u"
      using bmap_use [OF "1.prems"(1-4) mp(1,3)] by blast
    note U = qstepD [OF u(2)]
    obtain p v w where v: "bread 1 (fblock (bview s) i (unat ?bn)) u = Ok p v"
      "b_data (b_buf v p) = bview s (fblock (bview s) i (unat ?bn))" "brelse p v = Ok () w" "qstep u w"
      using look_use [OF U(1), of "fblock (bview s) i (unat ?bn)"] mp(2) U "1.prems"(2) by auto
    note sw = qstep_trans [OF u(2) v(4)]
    note W = qstepD [OF sw]
    have ut: "unat (tot + ?m) = unat tot + unat ?m"
      by (rule unat_add_small) (use c lt unsigned_less [of n, where 'a = nat] in auto)
    have uo: "unat (off + ?m) = unat off + unat ?m"
      by (rule unat_add_small) (use c lt "1.prems"(7) in auto)
    have rest: "unat off + unat ?m + (unat n - (unat tot + unat ?m)) = unat off + (unat n - unat tot)" using c lt by auto
    obtain x where x: "readi_loop ip (tot + ?m) (off + ?m) n w
        = Ok (map (fbyte (bview s) i) [unat off + unat ?m..<unat off + (unat n - unat tot)]) x" "qstep w x"
    proof -
      have "\<exists>t. readi_loop ip (tot + ?m) (off + ?m) n w
        = Ok (map (fbyte (bview w) i) [unat (off + ?m)..<unat (off + ?m) + (unat n - unat (tot + ?m))]) t \<and> qstep w t"
      proof (rule "1.IH" [OF True refl W(1)])
        show "card (dset w) < NBUF" "f_inode w ip = i" "mapped w i (unat (off + ?m) + (unat n - unat (tot + ?m)))"
          using "1.prems" W bframe_fs [OF W(4)] unfolding mapped_def ut uo rest by simp_all
        show "tot + ?m \<le> n" using ut chunk_pos [OF True, of off] lt unfolding word_le_nat_alt by linarith
        show "unat (off + ?m) + (unat n - unat (tot + ?m)) < 2 ^ 32" using "1.prems"(7) unfolding ut uo rest .
      qed (use "1.prems" in simp)
      then show thesis using that unfolding ut uo rest W(2) by blast
    qed
    have "get_bytes (bview s (fblock (bview s) i (unat ?bn))) (unat (off mod of_nat BSIZE)) (unat ?m)
        = map (fbyte (bview s) i) [unat off..<unat off + unat ?m]"
      unfolding ub um by (rule get_bytes_file) (use c in simp)
    moreover have "[unat off..<unat off + unat ?m] @ [unat off + unat ?m..<unat off + (unat n - unat tot)]
        = [unat off..<unat off + (unat n - unat tot)]"
    proof -
      obtain d where "unat n - unat tot = unat ?m + d" using c by (metis le_Suc_ex min.cobounded1)
      then show ?thesis using upt_add_eq_append [of "unat off" "unat off + unat ?m" d] by (simp add: add.assoc)
    qed
    ultimately have "readi_loop ip tot off n s = Ok (map (fbyte (bview s) i) [unat off..<unat off + (unat n - unat tot)]) x"
      using True u(1) v(1,2,3) x(1) "1.prems"(3,4)
      by (subst readi_loop.simps) (simp add: Let_def ino_get_def buf_get_def bnd_def fetch_def andthen_def ret_def
          map_append [symmetric] del: map_append upt_Suc of_nat_add)
    then show ?thesis using qstep_trans [OF sw x(2)] by blast
  qed
qed

section \<open>Properties\<close>

text \<open>
  C11: \<^verbatim>\<open>readi\<close> of a file whose blocks are allocated, on every branch: an offset past the end, or a
  range that wraps around, gives -1; otherwise the request is cut to the end of the file and exactly
  the bytes of the file in that range are returned, through direct and indirect blocks alike.
  Nothing observable changes.
\<close>

theorem readi_reads_file:
  assumes "using_bufs s {}" "card (dset s) < NBUF" "i_dev (f_inode s ip) = 1" "i_type (f_inode s ip) \<noteq> T_DEV"
    and "unat (i_size (f_inode s ip)) \<le> MAXFILE * BSIZE" "mapped s (f_inode s ip) (unat (i_size (f_inode s ip)))"
  shows "if off > i_size (f_inode s ip) \<or> off + n < off then readi dv ip off n s = Ok (- 1, []) s
    else \<exists>t. readi dv ip off n s = Ok (int (min (unat n) (unat (i_size (f_inode s ip)) - unat off)),
        map (fbyte (bview s) (f_inode s ip)) [unat off..<unat off + min (unat n) (unat (i_size (f_inode s ip)) - unat off)]) t
      \<and> bview t = bview s \<and> d_disk t = d_disk s \<and> f_inode t = f_inode s"
proof (cases "off > i_size (f_inode s ip) \<or> off + n < off")
  case True
  then show ?thesis using assms(4) by (simp add: readi_def ino_get_def bnd_def fetch_def ret_def)
next
  case False
  let ?i = "f_inode s ip" and ?sz = "unat (i_size (f_inode s ip))"
  let ?n = "if off + n > i_size ?i then i_size ?i - off else n"
  let ?m = "min (unat n) (?sz - unat off)"
  have ms: "?sz \<le> 71680" using assms(5) by (simp add: MAXFILE_def NDIRECT_def NINDIRECT_def)
  have ol: "unat off \<le> ?sz" using False by (simp add: word_le_nat_alt not_less)
  have nw: "unat (off + n) = unat off + unat n"
    using False by (metis not_less unat_plus_simple)
  have un: "unat ?n = ?m"
    using ol nw False by (auto simp: unat_sub_small word_less_nat_alt word_le_nat_alt)
  have mp: "mapped s ?i (unat off + (unat ?n - unat (0::u32)))"
    by (rule mapped_mono [OF assms(6)]) (use ol un in auto)
  have "\<exists>t. readi_loop ip 0 off ?n s = Ok (map (fbyte (bview s) ?i) [unat off..<unat off + (unat ?n - unat (0::u32))]) t \<and> qstep s t"
    by (rule readi_loop_use [OF assms(1,2) refl assms(3) mp]) (use un ol ms in auto)
  then obtain t where t: "readi_loop ip 0 off ?n s = Ok (map (fbyte (bview s) ?i) [unat off..<unat off + ?m]) t" "qstep s t"
    unfolding un by auto
  have sn: "sint ?n = int ?m"
  proof -
    have "unat ?n < 2 ^ 31" unfolding un using ol ms by simp
    then show ?thesis using un sint_unat_small [of ?n] by simp
  qed
  have "readi dv ip off n s = Ok (int ?m, map (fbyte (bview s) ?i) [unat off..<unat off + ?m]) t"
    using False assms(4) t(1) sn by (simp add: readi_def ino_get_def bnd_def fetch_def ret_def Let_def)
  then show ?thesis using False t(2) bframe_fs [of s t] by (auto simp: qstep_def)
qed

definition demo_file :: fsst where
  "demo_file = demo_fs\<lparr>f_inode := (\<lambda>_. demo_inode\<lparr>i_addrs := 100 # replicate NDIRECT 0\<rparr>)\<rparr>"

theorem readi_reads_file_witness:
  "\<exists>t. readi (\<lambda>_. None) 0 1 10 demo_file = Ok (2, [0, 0]) t \<and> bview t = bview demo_file"
proof -
  let ?i = "demo_inode\<lparr>i_addrs := 100 # replicate NDIRECT 0\<rparr>"
  have c: "using_bufs demo_file {} = using_bufs demo_fs {}" "dset demo_file = dset demo_fs" "bview demo_file = bview demo_fs"
    unfolding demo_file_def by (rule cache_cong; simp)+
  have i: "f_inode demo_file 0 = ?i" "d_size demo_file = 1000" by (simp_all add: demo_file_def demo_fs_facts)
  have sz: "i_size ?i = 3" "i_dev ?i = 1" "i_type ?i \<noteq> T_DEV" by (simp_all add: demo_inode_def T_FILE_def T_DEV_def)
  have q: "using_bufs demo_file {}" "card (dset demo_file) < NBUF"
    using txnD(1,8) [OF demo_fs_facts(1)] by (simp_all add: c demo_fs_facts)
  have "fblock (bview demo_file) ?i 0 = 100" by (simp add: fblock_def NDIRECT_def)
  moreover have "bn = 0" if "bn * BSIZE < unat (i_size ?i)" for bn :: nat
    using that unfolding sz by simp
  ultimately have m: "mapped demo_file ?i (unat (i_size ?i))"
    unfolding mapped_def i by (intro allI impI) (fastforce simp: NDIRECT_def)
  have d: "i_size demo_inode = 3" "i_dev demo_inode = 1" "i_type demo_inode \<noteq> T_DEV"
    by (simp_all add: demo_inode_def T_FILE_def T_DEV_def)
  have "fbyte (bview demo_file) ?i k = 0" if "k < 512" for k
    using that by (simp add: fbyte_def fblock_def NDIRECT_def c demo_fs_facts demo_fs_disk_def)
  then have b: "map (fbyte (bview demo_file) ?i) [1..<3] = [0, 0]" by (simp add: upt_rec)
  have r: "\<exists>t. readi (\<lambda>_. None) 0 1 10 demo_file = Ok (2, map (fbyte (bview demo_file) ?i) [1..<3]) t
      \<and> bview t = bview demo_file"
    using readi_reads_file [OF q, of 0 1 10 "\<lambda>_. None"] m
    unfolding i by (auto simp: d MAXFILE_def NDIRECT_def NINDIRECT_def upt_rec)
  then show ?thesis unfolding b .
qed

end
