(* ===== verification/Mkfs.thy ===== *)
theory Mkfs
  imports Fsdata
begin

text \<open>
  The file system image builder \<^verbatim>\<open>mkfs.c\<close>, a program of the host.  The image is \<open>mk_size\<close> blocks long; it grows
  when a block behind its end is written, and reading there fails.  \<^verbatim>\<open>exit(1)\<close> and a failed \<^verbatim>\<open>assert\<close> are
  panics.  An input file is its name with the byte lists successive calls of \<^verbatim>\<open>read\<close> deliver, or \<open>None\<close> when
  it cannot be opened.  What the program prints is left out.
\<close>

section \<open>State and layout\<close>

record mkst =
  mk_img :: "u32 \<Rightarrow> block"
  mk_size :: nat
  mk_sb :: superblock
  mk_freeinode :: u32
  mk_freeblock :: u32

definition NINODES :: nat where "NINODES = 200"
definition nbitmap :: nat where "nbitmap = FSSIZE div (BSIZE * 8) + 1"
definition ninodeblocks :: nat where "ninodeblocks = NINODES div unat IPB + 1"
definition nlog :: nat where "nlog = LOGSIZE"
definition nmeta :: nat where "nmeta = 2 + nlog + ninodeblocks + nbitmap"

definition xshort :: "u16 \<Rightarrow> u16" where
  "xshort x = load16 (\<lambda>i :: nat. if i = 0 then ucast x else ucast (drop_bit 8 x)) 0"

definition xint :: "u32 \<Rightarrow> u32" where
  "xint x = load32 (\<lambda>i :: nat. [ucast x, ucast (drop_bit 8 x), ucast (drop_bit 16 x), ucast (drop_bit 24 x)] ! i) 0"

definition zeroes :: block where "zeroes = (\<lambda>_. 0)"

section \<open>Sectors and inodes\<close>

text \<open>The block that \<^verbatim>\<open>lseek\<close> to \<^verbatim>\<open>sec * BSIZE\<close>, a 32-bit product, selects.\<close>

definition sect :: "u32 \<Rightarrow> u32" where
  "sect sec = (sec * of_nat BSIZE) div of_nat BSIZE"

definition wsect :: "u32 \<Rightarrow> block \<Rightarrow> (unit, mkst) kop" where
  "wsect sec buf = modify (\<lambda>s. s\<lparr>mk_img := (mk_img s)(sect sec := buf), mk_size := max (mk_size s) (unat (sect sec) + 1)\<rparr>)"

definition rsect :: "u32 \<Rightarrow> (block, mkst) kop" where
  "rsect sec = bnd (fetch mk_size) (\<lambda>n. if unat (sect sec) < n then fetch (\<lambda>s. mk_img s (sect sec)) else panic ''read'')"

definition winode :: "u32 \<Rightarrow> dinode \<Rightarrow> (unit, mkst) kop" where
  "winode inum ip =
     bnd (fetch mk_sb) (\<lambda>sb. let bn = IBLOCK inum sb in
     bnd (rsect bn) (\<lambda>buf. wsect bn (dinode_put buf (dinode_off inum) ip)))"

definition rinode :: "u32 \<Rightarrow> (dinode, mkst) kop" where
  "rinode inum =
     bnd (fetch mk_sb) (\<lambda>sb. bnd (rsect (IBLOCK inum sb)) (\<lambda>buf. ret (dinode_at buf (dinode_off inum))))"

definition mk_ialloc :: "u16 \<Rightarrow> (u32, mkst) kop" where
  "mk_ialloc ty =
     bnd (fetch mk_freeinode) (\<lambda>inum.
     andthen (modify (\<lambda>s. s\<lparr>mk_freeinode := inum + 1\<rparr>))
     (andthen (winode inum \<lparr>di_type = xshort ty, di_major = 0, di_minor = 0, di_nlink = xshort 1, di_size = xint 0,
        di_addrs = replicate (NDIRECT + 1) 0\<rparr>)
     (ret inum)))"

definition mk_balloc :: "int \<Rightarrow> (unit, mkst) kop" where
  "mk_balloc nused =
     (if \<not> nused < int BSIZE * 8 then panic ''assert'' else
      let buf = fold (\<lambda>i d. d(i div 8 := d (i div 8) OR bitmask i)) [0..<nat nused] zeroes in
      bnd (fetch mk_sb) (\<lambda>sb. wsect (sb_bmapstart sb) buf))"

section \<open>Appending to a file\<close>

definition new_block :: "(u32, mkst) kop" where
  "new_block = bnd (fetch mk_freeblock) (\<lambda>b. andthen (modify (\<lambda>s. s\<lparr>mk_freeblock := b + 1\<rparr>)) (ret b))"

text \<open>\<^verbatim>\<open>din.addrs[k]\<close> gets a block if it has none.\<close>

definition fill_addr :: "nat \<Rightarrow> dinode \<Rightarrow> (dinode, mkst) kop" where
  "fill_addr k din =
     (if xint (di_addrs din ! k) = 0 then bnd new_block (\<lambda>b. ret (din\<lparr>di_addrs := (di_addrs din)[k := xint b]\<rparr>)) else ret din)"

definition iappend_slot :: "dinode \<Rightarrow> nat \<Rightarrow> (u32 \<times> dinode, mkst) kop" where
  "iappend_slot din fbn =
     (if fbn < NDIRECT then bnd (fill_addr fbn din) (\<lambda>din. ret (xint (di_addrs din ! fbn), din))
      else
        bnd (fill_addr NDIRECT din) (\<lambda>din.
        let ind = xint (di_addrs din ! NDIRECT); k = 4 * (fbn - NDIRECT) in
        bnd (rsect ind) (\<lambda>indirect.
        if load32 indirect k = 0 then
          bnd new_block (\<lambda>b. let indirect = store32 indirect k (xint b) in
          andthen (wsect ind indirect) (ret (xint (load32 indirect k), din)))
        else ret (xint (load32 indirect k), din))))"

function iappend_loop :: "dinode \<Rightarrow> u32 \<Rightarrow> u8 list \<Rightarrow> (dinode \<times> u32, mkst) kop" where
  "iappend_loop din off p =
     (if p = [] then ret (din, off) else
      let fbn = unat off div BSIZE in
      if \<not> fbn < MAXFILE then panic ''assert'' else
      bnd (iappend_slot din fbn) (\<lambda>(x, din).
      let n1 = min (length p) ((fbn + 1) * BSIZE - unat off) in
      bnd (rsect x) (\<lambda>buf.
      andthen (wsect x (put_bytes buf (unat off - fbn * BSIZE) (take n1 p)))
      (iappend_loop din (off + of_nat n1) (drop n1 p)))))"
  by auto
termination
proof (relation "measure (\<lambda>(din, off, p). length p)")
  fix p :: "u8 list" and off fbn n1
  assume p: "p \<noteq> []" and "fbn = unat (off :: u32) div BSIZE" "n1 = min (length p) ((fbn + 1) * BSIZE - unat off)"
  then have "0 < n1" using div_mult_mod_eq [of "unat off" 512] mod_less_divisor [of 512 "unat off"] by (simp add: BSIZE_def)
  with p show "((din', off + of_nat n1, drop n1 p), din, off, p) \<in> measure (\<lambda>(din, off, p). length p)" for din' din
    by (cases p) auto
qed simp

declare iappend_loop.simps [simp del]

definition iappend :: "u32 \<Rightarrow> u8 list \<Rightarrow> (unit, mkst) kop" where
  "iappend inum p =
     bnd (rinode inum) (\<lambda>din.
     bnd (iappend_loop din (xint (di_size din)) p) (\<lambda>(din, off).
     winode inum (din\<lparr>di_size := xint off\<rparr>)))"

section \<open>The program\<close>

definition sb_encode :: "superblock \<Rightarrow> block" where
  "sb_encode sb = store32 (store32 (store32 (store32 (store32 (store32 (store32 zeroes 0 (sb_size sb)) 4 (sb_nblocks sb))
     8 (sb_ninodes sb)) 12 (sb_nlog sb)) 16 (sb_logstart sb)) 20 (sb_inodestart sb)) 24 (sb_bmapstart sb)"

definition mkfs_sb :: superblock where
  "mkfs_sb = \<lparr>sb_size = xint (of_nat FSSIZE), sb_nblocks = xint (of_nat (FSSIZE - nmeta)), sb_ninodes = xint (of_nat NINODES),
     sb_nlog = xint (of_nat nlog), sb_logstart = xint 2, sb_inodestart = xint (of_nat (2 + nlog)),
     sb_bmapstart = xint (of_nat (2 + nlog + ninodeblocks))\<rparr>"

definition mk_dirent :: "u32 \<Rightarrow> u8 list \<Rightarrow> u8 list" where
  "mk_dirent inum name = dirent_encode \<lparr>de_inum = xshort (ucast inum), de_name = strncpy_l name DIRSIZ\<rparr>"

definition skip_underscore :: "u8 list \<Rightarrow> u8 list" where
  "skip_underscore name = (case name of c # cs \<Rightarrow> if c = 95 then cs else name | [] \<Rightarrow> name)"

definition mk_file :: "u32 \<Rightarrow> u8 list \<times> u8 list list option \<Rightarrow> (unit, mkst) kop" where
  "mk_file rootino f =
     (if 47 \<in> set (fst f) then panic ''assert'' else
      case snd f of None \<Rightarrow> panic ''open''
      | Some chunks \<Rightarrow>
          bnd (mk_ialloc T_FILE) (\<lambda>inum.
          andthen (iappend rootino (mk_dirent inum (skip_underscore (fst f))))
          (for_each chunks (iappend inum))))"

definition fix_root :: "u32 \<Rightarrow> (unit, mkst) kop" where
  "fix_root rootino =
     bnd (rinode rootino) (\<lambda>din.
     let off = xint (di_size din); off = (off div of_nat BSIZE + 1) * of_nat BSIZE in
     winode rootino (din\<lparr>di_size := xint off\<rparr>))"

definition mkfs :: "(u8 list \<times> u8 list list option) list \<Rightarrow> (unit, mkst) kop" where
  "mkfs files =
     andthen (modify (\<lambda>s. s\<lparr>mk_sb := mkfs_sb, mk_freeblock := of_nat nmeta\<rparr>))
     (andthen (for_each [0..<FSSIZE] (\<lambda>i. wsect (of_nat i) zeroes))
     (andthen (wsect 1 (sb_encode mkfs_sb))
     (bnd (mk_ialloc T_DIR) (\<lambda>rootino. if rootino \<noteq> ROOTINO then panic ''assert'' else
     andthen (iappend rootino (mk_dirent rootino [46]))
     (andthen (iappend rootino (mk_dirent rootino [46, 46]))
     (andthen (for_each files (mk_file rootino))
     (andthen (fix_root rootino)
     (bnd (fetch mk_freeblock) (\<lambda>b. mk_balloc (sint b))))))))))"

definition mkst0 :: mkst where
  "mkst0 = \<lparr>mk_img = (\<lambda>_. zeroes), mk_size = 0, mk_sb = \<lparr>sb_size = 0, sb_nblocks = 0, sb_ninodes = 0, sb_nlog = 0, sb_logstart = 0,
     sb_inodestart = 0, sb_bmapstart = 0\<rparr>, mk_freeinode = 1, mk_freeblock = 0\<rparr>"

section \<open>Sizes\<close>

lemma layout: "nbitmap = 1" "ninodeblocks = 26" "nlog = 30" "nmeta = 59"
  by (simp_all add: nbitmap_def ninodeblocks_def nlog_def nmeta_def FSSIZE_def BSIZE_def NINODES_def IPB_def LOGSIZE_def MAXOPBLOCKS_def)

lemma xint_id [simp]: "xint x = x"
  by (simp add: xint_def load32_def split32)

lemma xshort_id [simp]: "xshort x = x"
  by (simp add: xshort_def load16_def split16)

lemma limits: "NDIRECT = 12" "MAXFILE = 140" "FSSIZE = 1000" "NINDIRECT = 128"
  by (simp_all add: NDIRECT_def MAXFILE_def NINDIRECT_def BSIZE_def FSSIZE_def)

lemma mkfs_sb_vals: "sb_inodestart mkfs_sb = 32" "sb_bmapstart mkfs_sb = 58"
  by (simp_all add: mkfs_sb_def layout)

lemma sect_small: "unat b < FSSIZE \<Longrightarrow> sect b = b"
proof -
  assume "unat b < FSSIZE"
  then have "unat (b * 512) = unat b * 512" by (simp add: unat_word_ariths FSSIZE_def)
  then have "unat ((b * 512) div 512) = unat b" by (simp add: unat_div)
  then show ?thesis by (simp add: sect_def word_unat_eq_iff)
qed

text \<open>The blocks a file of \<open>n\<close> bytes takes, the indirect block included.\<close>

definition need :: "nat \<Rightarrow> nat" where
  "need n = (n + 511) div 512 + (if n > 6144 then 1 else 0)"

lemma ceil_blocks: "0 < r \<Longrightarrow> r \<le> 512 \<Longrightarrow> (q * 512 + r + 511) div 512 = q + (1 :: nat)"
  by (rule div_nat_eqI) simp_all

lemma need_mono: "m \<le> n \<Longrightarrow> need m \<le> need n"
  by (auto simp: need_def intro!: add_mono div_le_mono)

section \<open>Block ownership\<close>

text \<open>
  \<open>slots V D i k\<close> is the \<open>k\<close>-th block of inode \<open>i\<close> as the kernel finds it (\<open>fblock\<close>), and for \<open>k = MAXFILE\<close> its
  indirect block.
\<close>

definition mem_inode :: "dinode \<Rightarrow> inode" where
  "mem_inode di = \<lparr>i_dev = 1, i_inum = 0, i_ref = 0, i_lock = initsleeplock, i_valid = True, i_type = di_type di,
     i_major = di_major di, i_minor = di_minor di, i_nlink = di_nlink di, i_size = di_size di, i_addrs = di_addrs di\<rparr>"

definition slots :: "(u32 \<Rightarrow> block) \<Rightarrow> (u32 \<Rightarrow> dinode) \<Rightarrow> u32 \<Rightarrow> nat \<Rightarrow> u32" where
  "slots V D i k = (if k = MAXFILE then di_addrs (D i) ! NDIRECT else fblock V (mem_inode (D i)) k)"

definition core :: "(u32 \<Rightarrow> nat \<Rightarrow> u32) \<Rightarrow> u32 set \<Rightarrow> u32 \<Rightarrow> bool" where
  "core S I fb \<longleftrightarrow> (\<forall>i\<in>I. \<forall>k\<le>MAXFILE. S i k \<noteq> 0 \<longrightarrow> nmeta \<le> unat (S i k) \<and> S i k < fb)
     \<and> (\<forall>i\<in>I. \<forall>j\<in>I. \<forall>k\<le>MAXFILE. \<forall>l\<le>MAXFILE. S i k \<noteq> 0 \<and> S i k = S j l \<longrightarrow> i = j \<and> k = l)"

definition sized :: "(nat \<Rightarrow> u32) \<Rightarrow> nat \<Rightarrow> bool" where
  "sized S n \<longleftrightarrow> (\<forall>k<MAXFILE. S k \<noteq> 0 \<longleftrightarrow> k * 512 < n) \<and> (S MAXFILE \<noteq> 0 \<longleftrightarrow> 6144 < n)"

definition base :: "(u32 \<Rightarrow> block) \<Rightarrow> (u32 \<Rightarrow> dinode) \<Rightarrow> u32 set \<Rightarrow> u32 \<Rightarrow> bool" where
  "base V D I fb \<longleftrightarrow> core (slots V D) I fb \<and> (\<forall>i\<in>I. length (di_addrs (D i)) = NDIRECT + 1)
     \<and> (\<forall>b. fb \<le> b \<and> unat b < FSSIZE \<longrightarrow> V b = zeroes) \<and> nmeta \<le> unat fb \<and> unat fb \<le> FSSIZE"

definition content :: "(u32 \<Rightarrow> block) \<Rightarrow> (u32 \<Rightarrow> dinode) \<Rightarrow> u32 \<Rightarrow> nat \<Rightarrow> u8 list" where
  "content V D i n = map (fbyte V (mem_inode (D i))) [0..<n]"

lemma sizedD: "sized S n \<Longrightarrow> k < MAXFILE \<Longrightarrow> S k \<noteq> 0 \<longleftrightarrow> k * 512 < n" "sized S n \<Longrightarrow> S MAXFILE \<noteq> 0 \<longleftrightarrow> 6144 < n"
  by (simp_all add: sized_def)

lemma coreD:
  assumes "core S I fb" "i \<in> I" "k \<le> MAXFILE" "S i k \<noteq> 0"
  shows "nmeta \<le> unat (S i k)" "S i k < fb" "j \<in> I \<Longrightarrow> l \<le> MAXFILE \<Longrightarrow> S i k = S j l \<Longrightarrow> i = j \<and> k = l"
  using assms unfolding core_def by blast+

lemma core_cong: "core S I fb \<Longrightarrow> (\<And>i k. i \<in> I \<Longrightarrow> S' i k = S i k) \<Longrightarrow> core S' I fb"
  unfolding core_def by (intro conjI ballI allI impI) (metis)+

lemma core_alloc:
  assumes c: "core S I fb" and fb: "nmeta \<le> unat fb" "unat fb < FSSIZE"
    and S': "\<And>i l. i \<in> I \<Longrightarrow> l \<le> MAXFILE \<Longrightarrow> S' i l = (if i = inum \<and> l = k then fb else S i l)"
  shows "core S' I (fb + 1)"
proof -
  have u: "unat (fb + 1) = unat fb + 1" using fb(2) unat_add_small [of fb 1] by (simp add: FSSIZE_def)
  have lt: "S i l < fb" if "i \<in> I" "l \<le> MAXFILE" "S i l \<noteq> 0" for i l using coreD(2) [OF c] that by blast
  have "nmeta \<le> unat (S' i l) \<and> S' i l < fb + 1" if "i \<in> I" "l \<le> MAXFILE" "S' i l \<noteq> 0" for i l
    using that S' [OF that(1,2)] coreD(1,2) [OF c that(1,2)] fb(1) u by (auto simp: word_less_nat_alt split: if_splits)
  moreover have "i = j \<and> m = l" if h: "i \<in> I" "j \<in> I" "m \<le> MAXFILE" "l \<le> MAXFILE" "S' i m \<noteq> 0" "S' i m = S' j l" for i j m l
    using h(5,6) S' [OF h(1,3)] S' [OF h(2,4)] coreD(3) [OF c h(1,3) _ h(2,4)] lt [OF h(1,3)] lt [OF h(2,4)]
    by (auto split: if_splits)
  ultimately show ?thesis unfolding core_def by blast
qed

lemma slots_addr: "k < NDIRECT \<Longrightarrow> slots V D i k = di_addrs (D i) ! k"
  "slots V D i MAXFILE = di_addrs (D i) ! NDIRECT"
  "NDIRECT \<le> k \<Longrightarrow> k < MAXFILE \<Longrightarrow> slots V D i k =
     (if di_addrs (D i) ! NDIRECT = 0 then 0 else load32 (V (di_addrs (D i) ! NDIRECT)) (4 * (k - NDIRECT)))"
  by (simp_all add: slots_def fblock_def mem_inode_def limits)

text \<open>Writing a block that is not an indirect block leaves the slots alone.\<close>

lemma slots_write:
  assumes "di_addrs (D i) ! NDIRECT \<noteq> 0 \<longrightarrow> V' (di_addrs (D i) ! NDIRECT) = V (di_addrs (D i) ! NDIRECT)"
  shows "slots V' D i k = slots V D i k"
  using assms by (simp add: slots_def fblock_def mem_inode_def)

lemma content_cong:
  assumes "\<And>k. k * 512 < n \<Longrightarrow> slots V' D' i k = slots V D i k \<and> V' (slots V D i k) = V (slots V D i k)" "n \<le> MAXFILE * 512"
  shows "content V' D' i n = content V D i n"
  unfolding content_def
proof (rule map_cong [OF refl])
  fix m assume "m \<in> set [0..<n]"
  then have m: "m < n" by simp
  then have "(m div 512) * 512 < n" using div_times_less_eq_dividend [of m 512] by linarith
  moreover from this have "m div 512 \<noteq> MAXFILE" using assms(2) by auto
  ultimately show "fbyte V' (mem_inode (D' i)) m = fbyte V (mem_inode (D i)) m"
    using assms(1) [of "m div 512"] by (simp add: fbyte_def slots_def)
qed

text \<open>A new block for slot \<open>k\<close> of inode \<open>inum\<close>; \<open>V'\<close> differs from \<open>V\<close> at most in the inode's indirect block.\<close>

definition grown_slot :: "(u32 \<Rightarrow> block) \<Rightarrow> (u32 \<Rightarrow> dinode) \<Rightarrow> u32 set \<Rightarrow> u32 \<Rightarrow> u32 \<Rightarrow> nat \<Rightarrow> (u32 \<Rightarrow> block) \<Rightarrow> (u32 \<Rightarrow> dinode) \<Rightarrow> bool" where
  "grown_slot V D I fb inum k V' D' \<longleftrightarrow>
     (\<forall>i\<in>I. \<forall>l\<le>MAXFILE. slots V' D' i l = (if i = inum \<and> l = k then fb else slots V D i l))
     \<and> (\<forall>i\<in>I. length (di_addrs (D' i)) = NDIRECT + 1)
     \<and> (\<forall>b. V' b \<noteq> V b \<longrightarrow> b = slots V D inum MAXFILE \<and> b \<noteq> 0)"

lemma baseD:
  assumes "base V D I fb"
  shows "core (slots V D) I fb" "i \<in> I \<Longrightarrow> length (di_addrs (D i)) = NDIRECT + 1"
    "fb \<le> b \<Longrightarrow> unat b < FSSIZE \<Longrightarrow> V b = zeroes" "nmeta \<le> unat fb" "unat fb \<le> FSSIZE"
  using assms by (auto simp: base_def)

lemma unat_fb_Suc: "unat (fb :: u32) < FSSIZE \<Longrightarrow> unat (fb + 1) = unat fb + 1"
  using unat_add_small [of fb 1] by (simp add: FSSIZE_def)

lemma grown_base:
  assumes b: "base V D I fb" and fb: "unat fb < FSSIZE" and g: "grown_slot V D I fb inum k V' D'" and inum: "inum \<in> I"
  shows "base V' D' I (fb + 1)"
proof -
  note B = baseD [OF b]
  have "core (slots V' D') I (fb + 1)"
    using core_alloc [OF B(1,4) fb, of "slots V' D'" inum k] g by (simp add: grown_slot_def)
  moreover have "V' c = zeroes" if "fb + 1 \<le> c" "unat c < FSSIZE" for c
  proof -
    have c: "fb < c" using that(1) unat_fb_Suc [OF fb] by (simp add: word_le_nat_alt word_less_nat_alt)
    have "V' c = V c"
    proof (rule ccontr)
      assume "V' c \<noteq> V c"
      then have "c = slots V D inum MAXFILE" "c \<noteq> 0" using g by (auto simp: grown_slot_def)
      then show False using coreD(2) [OF B(1) inum, of MAXFILE] c by auto
    qed
    then show ?thesis using B(3) [of c] c that(2) by simp
  qed
  ultimately show ?thesis using g B(4) unat_fb_Suc [OF fb] fb by (simp add: base_def grown_slot_def)
qed

lemma grown_meta:
  assumes "base V D I fb" "grown_slot V D I fb inum k V' D'" "inum \<in> I" "unat b < nmeta"
  shows "V' b = V b"
proof (rule ccontr)
  assume "V' b \<noteq> V b"
  then have "b = slots V D inum MAXFILE" "b \<noteq> 0" using assms(2) by (auto simp: grown_slot_def)
  then show False using coreD(1) [OF baseD(1) [OF assms(1)] assms(3), of MAXFILE] assms(4) by auto
qed

lemma grown_content:
  assumes b: "base V D I fb" and g: "grown_slot V D I fb inum k V' D'" and i: "inum \<in> I" "i \<in> I"
    and n: "n \<le> MAXFILE * 512" "\<forall>l. l * 512 < n \<longrightarrow> slots V D i l \<noteq> 0" "i = inum \<longrightarrow> slots V D inum k = 0"
  shows "content V' D' i n = content V D i n"
proof (rule content_cong [OF _ n(1)])
  fix l assume l: "l * 512 < n"
  then have lm: "l < MAXFILE" "slots V D i l \<noteq> 0" using n by auto
  have "slots V D i l \<noteq> slots V D inum MAXFILE"
    using coreD(3) [OF baseD(1) [OF b] i(2) _ lm(2) i(1), of MAXFILE] lm(1) by auto
  then have "V' (slots V D i l) = V (slots V D i l)" using g by (auto simp: grown_slot_def)
  moreover have "slots V' D' i l = slots V D i l" using g i(2) lm n(3) by (auto simp: grown_slot_def)
  ultimately show "slots V' D' i l = slots V D i l \<and> V' (slots V D i l) = V (slots V D i l)" by simp
qed

text \<open>The three places a block goes to.\<close>

lemma grown_addrs:
  assumes b: "base V (D(inum := din)) I fb" and i: "inum \<in> I"
    and own: "\<And>l. slots V (D(inum := din')) inum l = (if l = k then fb else slots V (D(inum := din)) inum l)"
    and len: "length (di_addrs din') = NDIRECT + 1"
  shows "grown_slot V (D(inum := din)) I fb inum k V (D(inum := din'))"
proof -
  have "slots V (D(inum := din')) j l = slots V (D(inum := din)) j l" if "j \<noteq> inum" for j l using that by (simp add: slots_def)
  moreover have "length (di_addrs ((D(inum := din')) j)) = NDIRECT + 1" if "j \<in> I" for j
    using baseD(2) [OF b that] len by (cases "j = inum") simp_all
  ultimately show ?thesis using own unfolding grown_slot_def by metis
qed

lemma grown_direct:
  assumes b: "base V (D(inum := din)) I fb" and i: "inum \<in> I" and k: "k < NDIRECT"
  shows "grown_slot V (D(inum := din)) I fb inum k V (D(inum := din\<lparr>di_addrs := (di_addrs din)[k := fb]\<rparr>))"
proof -
  have len: "length (di_addrs din) = NDIRECT + 1" using baseD(2) [OF b i] by simp
  have "slots V (D(inum := din\<lparr>di_addrs := (di_addrs din)[k := fb]\<rparr>)) inum l = (if l = k then fb else slots V (D(inum := din)) inum l)" for l
    using len k by (auto simp: slots_def fblock_def mem_inode_def limits)
  then show ?thesis by (rule grown_addrs [OF b i]) (use len in simp_all)
qed

lemma load_zeroes: "load32 zeroes k = 0"
  by (simp add: load32_def zeroes_def)

lemma grown_indirect:
  assumes b: "base V (D(inum := din)) I fb" and i: "inum \<in> I" and z: "di_addrs din ! NDIRECT = 0" and fb: "unat fb < FSSIZE"
  shows "grown_slot V (D(inum := din)) I fb inum MAXFILE V (D(inum := din\<lparr>di_addrs := (di_addrs din)[NDIRECT := fb]\<rparr>))"
proof -
  have len: "length (di_addrs din) = NDIRECT + 1" using baseD(2) [OF b i] by simp
  have v: "V fb = zeroes" using baseD(3) [OF b] fb by simp
  have "slots V (D(inum := din\<lparr>di_addrs := (di_addrs din)[NDIRECT := fb]\<rparr>)) inum l
      = (if l = MAXFILE then fb else slots V (D(inum := din)) inum l)" for l
    using len z v by (auto simp: slots_def fblock_def mem_inode_def limits load_zeroes)
  then show ?thesis by (rule grown_addrs [OF b i]) (use len in simp_all)
qed

lemma grown_entry:
  assumes b: "base V D I fb" and i: "inum \<in> I" and k: "NDIRECT \<le> k" "k < MAXFILE" and nz: "di_addrs (D inum) ! NDIRECT = ind" "ind \<noteq> 0"
  shows "grown_slot V D I fb inum k (V(ind := store32 (V ind) (4 * (k - NDIRECT)) fb)) D" (is "grown_slot _ _ _ _ _ _ ?V _")
proof -
  have own: "slots ?V D inum l = (if l = k then fb else slots V D inum l)" for l
  proof -
    have "load32 (store32 (V ind) (4 * (k - NDIRECT)) fb) (4 * (l - NDIRECT)) = load32 (V ind) (4 * (l - NDIRECT))"
      if "NDIRECT \<le> l" "l \<noteq> k" using that k(1) by (intro load32_store32_other) auto
    then show ?thesis using nz k by (auto simp: slots_def fblock_def mem_inode_def limits)
  qed
  have other: "slots ?V D j l = slots V D j l" if "j \<in> I" "j \<noteq> inum" for j l
  proof (rule slots_write)
    have "di_addrs (D j) ! NDIRECT \<noteq> ind" if "di_addrs (D j) ! NDIRECT \<noteq> 0"
      using coreD(3) [OF baseD(1) [OF b] i, of MAXFILE j MAXFILE] that nz \<open>j \<in> I\<close> \<open>j \<noteq> inum\<close> by (auto simp: slots_addr)
    then show "di_addrs (D j) ! NDIRECT \<noteq> 0 \<longrightarrow> ?V (di_addrs (D j) ! NDIRECT) = V (di_addrs (D j) ! NDIRECT)" by auto
  qed
  have "slots ?V D j l = (if j = inum \<and> l = k then fb else slots V D j l)" if "j \<in> I" for j l
    using own [of l] other [OF that, of l] by (cases "j = inum") simp_all
  then show ?thesis unfolding grown_slot_def using baseD(2) [OF b] nz by (auto simp: slots_addr)
qed

text \<open>Blocks of inode \<open>inum\<close> are added or filled in; all that was there before is as it was.\<close>

definition ext :: "u32 set \<Rightarrow> u32 \<Rightarrow> (u32 \<Rightarrow> block) \<Rightarrow> (u32 \<Rightarrow> dinode) \<Rightarrow> (u32 \<Rightarrow> block) \<Rightarrow> (u32 \<Rightarrow> dinode) \<Rightarrow> bool" where
  "ext I inum V D V' D' \<longleftrightarrow>
     (\<forall>i\<in>I. \<forall>l\<le>MAXFILE. i \<noteq> inum \<or> slots V D i l \<noteq> 0 \<longrightarrow> slots V' D' i l = slots V D i l)
     \<and> (\<forall>i\<in>I. \<forall>n\<le>MAXFILE * 512. (\<forall>l. l * 512 < n \<longrightarrow> slots V D i l \<noteq> 0) \<longrightarrow> content V' D' i n = content V D i n)
     \<and> (\<forall>b. unat b < nmeta \<longrightarrow> V' b = V b)"

lemma ext_refl: "ext I inum V D V D"
  by (simp add: ext_def)

lemma ext_trans:
  assumes 1: "ext I inum V D V' D'" and 2: "ext I inum V' D' W E"
  shows "ext I inum V D W E"
  unfolding ext_def
proof (intro conjI ballI allI impI)
  fix i l assume "i \<in> I" "l \<le> MAXFILE" "i \<noteq> inum \<or> slots V D i l \<noteq> 0"
  then show "slots W E i l = slots V D i l" using 1 2 unfolding ext_def by metis
next
  fix i n assume i: "i \<in> I" "n \<le> MAXFILE * 512" "\<forall>l. l * 512 < n \<longrightarrow> slots V D i l \<noteq> 0"
  have "slots V' D' i l \<noteq> 0" if "l * 512 < n" for l
  proof -
    have "l \<le> MAXFILE" using that i(2) by simp
    then show ?thesis using 1 i(1,3) that unfolding ext_def by metis
  qed
  then show "content W E i n = content V D i n" using 1 2 i unfolding ext_def by metis
next
  fix b :: u32 assume "unat b < nmeta"
  then show "W b = V b" using 1 2 unfolding ext_def by metis
qed

lemma grown_ext:
  assumes b: "base V D I fb" and g: "grown_slot V D I fb inum k V' D'" and i: "inum \<in> I" and z: "slots V D inum k = 0"
  shows "ext I inum V D V' D'"
  unfolding ext_def
proof (intro conjI ballI allI impI)
  fix i l assume "i \<in> I" "l \<le> MAXFILE" "i \<noteq> inum \<or> slots V D i l \<noteq> 0"
  then show "slots V' D' i l = slots V D i l" using g z by (auto simp: grown_slot_def)
next
  fix i n assume "i \<in> I" "n \<le> MAXFILE * 512" "\<forall>l. l * 512 < n \<longrightarrow> slots V D i l \<noteq> 0"
  then show "content V' D' i n = content V D i n" using grown_content [OF b g i] z by blast
next
  fix c :: u32 assume "unat c < nmeta"
  then show "V' c = V c" by (rule grown_meta [OF b g i])
qed

section \<open>A turn of the loop\<close>

definition geom :: "mkst \<Rightarrow> bool" where
  "geom s \<longleftrightarrow> mk_sb s = mkfs_sb \<and> mk_size s = FSSIZE"

lemma rsect_Ok: "geom s \<Longrightarrow> unat b < FSSIZE \<Longrightarrow> rsect b s = Ok (mk_img s b) s"
  by (simp add: rsect_def geom_def sect_small kdefs)

lemma wsect_Ok:
  assumes "geom s" "unat b < FSSIZE"
  shows "wsect b d s = Ok () (s\<lparr>mk_img := (mk_img s)(b := d)\<rparr>)"
proof -
  have "max (mk_size s) (unat b + 1) = mk_size s" using assms by (simp add: geom_def)
  then show ?thesis using assms(2) by (simp add: wsect_def sect_small modify_def)
qed

lemma new_block_Ok: "new_block s = Ok (mk_freeblock s) (s\<lparr>mk_freeblock := mk_freeblock s + 1\<rparr>)"
  by (simp add: new_block_def kdefs)

lemma geom_upd [simp]: "geom (s\<lparr>mk_img := V\<rparr>) = geom s" "geom (s\<lparr>mk_freeblock := b\<rparr>) = geom s" "geom (s\<lparr>mk_freeinode := b\<rparr>) = geom s"
  by (simp_all add: geom_def)

text \<open>The block of \<open>off\<close> is there: what the lookup in \<^verbatim>\<open>iappend\<close> has done.\<close>

definition slot_post :: "u32 set \<Rightarrow> u32 \<Rightarrow> (u32 \<Rightarrow> dinode) \<Rightarrow> nat \<Rightarrow> mkst \<Rightarrow> dinode \<Rightarrow> u32 \<Rightarrow> dinode \<Rightarrow> mkst \<Rightarrow> bool" where
  "slot_post I inum D off s din x din' t \<longleftrightarrow>
     t = s\<lparr>mk_img := mk_img t, mk_freeblock := mk_freeblock t\<rparr> \<and> din' = din\<lparr>di_addrs := di_addrs din'\<rparr>
     \<and> base (mk_img t) (D(inum := din')) I (mk_freeblock t) \<and> ext I inum (mk_img s) (D(inum := din)) (mk_img t) (D(inum := din'))
     \<and> slots (mk_img t) (D(inum := din')) inum (off div 512) = x \<and> sized (slots (mk_img t) (D(inum := din')) inum) (off + 1)
     \<and> unat (mk_freeblock t) + need off = unat (mk_freeblock s) + need (off + 1)"

lemma sized_same:
  assumes "sized S off" "off mod 512 \<noteq> 0"
  shows "sized S (off + 1)" "need (off + 1) = need off"
proof -
  have k: "k * 512 < off \<longleftrightarrow> k * 512 < off + 1" for k using assms(2) by (cases "k * 512 = off") auto
  have six: "6144 < off \<longleftrightarrow> 6144 < off + 1" using k [of 12] by simp
  show "sized S (off + 1)" using assms(1) k six unfolding sized_def by blast
  define q r where "q = off div 512" and "r = off mod 512"
  then have off: "off = q * 512 + r" "0 < r" "r < 512" using assms(2) by (simp_all add: div_mult_mod_eq)
  then have "(off + 1 + 511) div 512 = (off + 511) div 512" using ceil_blocks [of r q] ceil_blocks [of "r + 1" q] by simp
  then show "need (off + 1) = need off" using six by (simp add: need_def)
qed

lemma slot_present:
  assumes g: "geom s" and b: "base (mk_img s) (D(inum := din)) I (mk_freeblock s)" and i: "inum \<in> I" "off < MAXFILE * 512"
    and z: "sized (slots (mk_img s) (D(inum := din)) inum) off" and m: "off mod 512 \<noteq> 0"
  shows "\<exists>x. iappend_slot din (off div 512) s = Ok (x, din) s \<and> slot_post I inum D off s din x din s"
proof -
  let ?k = "off div 512" and ?S = "slots (mk_img s) (D(inum := din)) inum"
  have k: "?k < MAXFILE" "?k * 512 < off" using i(2) m div_mult_mod_eq [of off 512] by (simp add: less_mult_imp_div_less, linarith)
  have nz: "?S ?k \<noteq> 0" using z k by (simp add: sized_def)
  have "iappend_slot din ?k s = Ok (?S ?k, din) s"
  proof (cases "?k < NDIRECT")
    case True
    then show ?thesis using nz by (simp add: iappend_slot_def fill_addr_def slots_addr ret_def)
  next
    case False
    then have "?S ?k = load32 (mk_img s (di_addrs din ! NDIRECT)) (4 * (?k - NDIRECT))" "di_addrs din ! NDIRECT \<noteq> 0"
      using nz k(1) by (auto simp: slots_addr split: if_splits)
    moreover from this have "unat (di_addrs din ! NDIRECT) < FSSIZE"
      using coreD(2) [OF baseD(1) [OF b] i(1), of MAXFILE] baseD(5) [OF b] by (auto simp: slots_addr word_less_nat_alt)
    ultimately show ?thesis using False nz rsect_Ok [OF g] by (simp add: iappend_slot_def fill_addr_def bnd_def ret_def Let_def)
  qed
  moreover have "slot_post I inum D off s din (?S ?k) din s"
    using b sized_same [OF z m] by (simp add: slot_post_def ext_refl)
  ultimately show ?thesis by blast
qed

lemma sized_step:
  assumes "sized S (k * 512)" "k < MAXFILE" "S' k \<noteq> 0" "\<And>l. l < MAXFILE \<Longrightarrow> l \<noteq> k \<Longrightarrow> S' l = S l" "S' MAXFILE \<noteq> 0 \<longleftrightarrow> 12 \<le> k"
  shows "sized S' (k * 512 + 1)"
proof -
  have "S' l \<noteq> 0 \<longleftrightarrow> l * 512 < k * 512 + 1" if "l < MAXFILE" for l
    using assms(1) assms(3) assms(4) [OF that] that by (cases "l = k") (auto simp: sized_def)
  moreover have "6144 < k * 512 + 1 \<longleftrightarrow> 12 \<le> k" by linarith
  ultimately show ?thesis using assms(5) by (simp add: sized_def)
qed

lemma need_step: "need (k * 512 + 1) = need (k * 512) + (if k = 12 then 2 else 1)"
proof -
  have "(k * 512 + 511) div 512 = k" by (rule div_nat_eqI) simp_all
  moreover have "(k * 512 + 1 + 511) div 512 = k + 1" by (rule ceil_blocks) simp_all
  moreover have "6144 < k * 512 + 1 \<longleftrightarrow> 12 \<le> k" "6144 < k * 512 \<longleftrightarrow> 12 < k" by linarith+
  ultimately show ?thesis by (simp add: need_def)
qed

lemma fb_nonzero: "base V D I fb \<Longrightarrow> fb \<noteq> 0"
  using baseD(4) [of V D I fb] by (auto simp: layout)

lemma slot_direct:
  assumes b: "base (mk_img s) (D(inum := din)) I (mk_freeblock s)" and i: "inum \<in> I" "k < NDIRECT"
    and z: "sized (slots (mk_img s) (D(inum := din)) inum) (k * 512)" and room: "unat (mk_freeblock s) < FSSIZE"
  shows "\<exists>x din' t. iappend_slot din k s = Ok (x, din') t \<and> slot_post I inum D (k * 512) s din x din' t"
proof -
  let ?fb = "mk_freeblock s" and ?V = "mk_img s"
  let ?d = "din\<lparr>di_addrs := (di_addrs din)[k := ?fb]\<rparr>" and ?t = "s\<lparr>mk_freeblock := ?fb + 1\<rparr>"
  have km: "k < MAXFILE" "k \<noteq> 12" using i(2) by (simp_all add: limits)
  have sz: "slots ?V (D(inum := din)) inum k = 0" "slots ?V (D(inum := din)) inum MAXFILE = 0"
    using sizedD(1) [OF z km(1)] sizedD(2) [OF z] i(2) by (auto simp: limits(1))
  have len: "length (di_addrs din) = NDIRECT + 1" using baseD(2) [OF b i(1)] by simp
  have g: "grown_slot ?V (D(inum := din)) I ?fb inum k ?V (D(inum := ?d))" by (rule grown_direct [OF b i])
  have S': "slots ?V (D(inum := ?d)) inum l = (if l = k then ?fb else slots ?V (D(inum := din)) inum l)" if "l \<le> MAXFILE" for l
    using g i(1) that by (simp add: grown_slot_def)
  have "sized (slots ?V (D(inum := ?d)) inum) (k * 512 + 1)"
    by (rule sized_step [OF z km(1)]) (use S' sz(2) km i(2) fb_nonzero [OF b] in \<open>simp_all add: limits\<close>)
  then have "slot_post I inum D (k * 512) s din ?fb ?d ?t"
    using grown_base [OF b room g i(1)] grown_ext [OF b g i(1) sz(1)] S' [of k] km need_step [of k] unat_fb_Suc [OF room]
    by (simp add: slot_post_def)
  moreover have "di_addrs din ! k = 0" using sz(1) i(2) by (simp add: slots_addr)
  then have "iappend_slot din k s = Ok (?fb, ?d) ?t"
    using i(2) len by (simp add: iappend_slot_def fill_addr_def new_block_Ok bnd_def ret_def)
  ultimately show ?thesis by blast
qed

text \<open>The entry of the indirect block, which is there.\<close>

lemma slot_entry:
  assumes g: "geom s" and b: "base (mk_img s) (D(inum := din)) I (mk_freeblock s)" and i: "inum \<in> I" and k: "NDIRECT \<le> k" "k < MAXFILE"
    and z: "slots (mk_img s) (D(inum := din)) inum k = 0" and ind: "di_addrs din ! NDIRECT \<noteq> 0" and room: "unat (mk_freeblock s) < FSSIZE"
  obtains V where "bnd (rsect (di_addrs din ! NDIRECT)) (\<lambda>indirect. if load32 indirect (4 * (k - NDIRECT)) = 0 then
          bnd new_block (\<lambda>b. let indirect = store32 indirect (4 * (k - NDIRECT)) (xint b) in
          andthen (wsect (di_addrs din ! NDIRECT) indirect) (ret (xint (load32 indirect (4 * (k - NDIRECT))), din)))
        else ret (xint (load32 indirect (4 * (k - NDIRECT))), din)) s
      = Ok (mk_freeblock s, din) (s\<lparr>mk_img := V, mk_freeblock := mk_freeblock s + 1\<rparr>)"
    "grown_slot (mk_img s) (D(inum := din)) I (mk_freeblock s) inum k V (D(inum := din))"
proof -
  let ?ind = "di_addrs din ! NDIRECT" and ?k = "4 * (k - NDIRECT)"
  let ?V = "(mk_img s)(?ind := store32 (mk_img s ?ind) ?k (mk_freeblock s))"
  have n: "unat ?ind < FSSIZE"
    using coreD(2) [OF baseD(1) [OF b] i, of MAXFILE] ind baseD(5) [OF b] by (auto simp: slots_addr word_less_nat_alt)
  have "load32 (mk_img s ?ind) ?k = 0" using z k ind by (simp add: slots_addr)
  moreover have "geom (s\<lparr>mk_freeblock := mk_freeblock s + 1\<rparr>)" using g by simp
  ultimately show thesis
    using that [of ?V] rsect_Ok [OF g n] wsect_Ok [OF _ n] new_block_Ok [of s] grown_entry [OF b i k, of ?ind] ind
    by (simp add: bnd_def andthen_def ret_def Let_def)
qed

lemma slot_more:
  assumes g: "geom s" and b: "base (mk_img s) (D(inum := din)) I (mk_freeblock s)" and i: "inum \<in> I" and k: "12 < k" "k < MAXFILE"
    and z: "sized (slots (mk_img s) (D(inum := din)) inum) (k * 512)" and room: "unat (mk_freeblock s) < FSSIZE"
  shows "\<exists>x din' t. iappend_slot din k s = Ok (x, din') t \<and> slot_post I inum D (k * 512) s din x din' t"
proof -
  let ?fb = "mk_freeblock s" and ?S = "slots (mk_img s) (D(inum := din)) inum"
  have sz: "?S k = 0" "?S MAXFILE \<noteq> 0" using sizedD(1) [OF z k(2)] sizedD(2) [OF z] k(1) by auto
  then have ind: "di_addrs din ! NDIRECT \<noteq> 0" by (simp add: slots_addr)
  have kn: "NDIRECT \<le> k" using k(1) by (simp add: limits)
  obtain V where V: "iappend_slot din k s = Ok (?fb, din) (s\<lparr>mk_img := V, mk_freeblock := ?fb + 1\<rparr>)"
      "grown_slot (mk_img s) (D(inum := din)) I ?fb inum k V (D(inum := din))"
    using slot_entry [OF g b i kn k(2) sz(1) ind room] kn ind by (auto simp: iappend_slot_def fill_addr_def Let_def)
  have S': "slots V (D(inum := din)) inum l = (if l = k then ?fb else ?S l)" if "l \<le> MAXFILE" for l
    using V(2) i that by (simp add: grown_slot_def)
  have "sized (slots V (D(inum := din)) inum) (k * 512 + 1)"
    by (rule sized_step [OF z k(2)]) (use S' sz(2) k fb_nonzero [OF b] in simp_all)
  then show ?thesis
    using V grown_base [OF b room V(2) i] grown_ext [OF b V(2) i sz(1)] S' [of k] k need_step [of k] unat_fb_Suc [OF room]
    by (auto simp: slot_post_def)
qed

lemma slot_first:
  assumes g: "geom s" and b: "base (mk_img s) (D(inum := din)) I (mk_freeblock s)" and i: "inum \<in> I"
    and z: "sized (slots (mk_img s) (D(inum := din)) inum) (12 * 512)" and room: "unat (mk_freeblock s) + 1 < FSSIZE"
  shows "\<exists>x din' t. iappend_slot din 12 s = Ok (x, din') t \<and> slot_post I inum D (12 * 512) s din x din' t"
proof -
  let ?fb = "mk_freeblock s" and ?S = "slots (mk_img s) (D(inum := din)) inum"
  let ?d = "din\<lparr>di_addrs := (di_addrs din)[NDIRECT := ?fb]\<rparr>" and ?s = "s\<lparr>mk_freeblock := ?fb + 1\<rparr>"
  have sz: "?S 12 = 0" "?S MAXFILE = 0" using sizedD(1) [OF z, of 12] sizedD(2) [OF z] by (auto simp: limits(2))
  then have z0: "di_addrs din ! NDIRECT = 0" by (simp add: slots_addr)
  have len: "length (di_addrs din) = NDIRECT + 1" using baseD(2) [OF b i] by simp
  have r: "unat ?fb < FSSIZE" "unat (?fb + 1) < FSSIZE" "unat (?fb + 1) = unat ?fb + 1" using room unat_fb_Suc [of ?fb] by simp_all
  have g1: "grown_slot (mk_img s) (D(inum := din)) I ?fb inum MAXFILE (mk_img s) (D(inum := ?d))" by (rule grown_indirect [OF b i z0 r(1)])
  have b1: "base (mk_img ?s) (D(inum := ?d)) I (mk_freeblock ?s)" using grown_base [OF b r(1) g1 i] by simp
  have S1: "slots (mk_img s) (D(inum := ?d)) inum l = (if l = MAXFILE then ?fb else ?S l)" if "l \<le> MAXFILE" for l
    using g1 i that by (simp add: grown_slot_def)
  have z1: "slots (mk_img ?s) (D(inum := ?d)) inum 12 = 0" "di_addrs ?d ! NDIRECT \<noteq> 0" "geom ?s" "unat (mk_freeblock ?s) < FSSIZE"
    using S1 [of 12] sz(1) fb_nonzero [OF b] len g r(2) by (simp_all add: limits)
  have k: "NDIRECT \<le> 12" "12 < MAXFILE" by (simp_all add: limits)
  have fl: "fill_addr NDIRECT din s = Ok ?d ?s" using z0 by (simp add: fill_addr_def new_block_Ok bnd_def ret_def)
  obtain V where V: "iappend_slot din 12 s = Ok (?fb + 1, ?d) (?s\<lparr>mk_img := V, mk_freeblock := ?fb + 1 + 1\<rparr>)"
      "grown_slot (mk_img s) (D(inum := ?d)) I (?fb + 1) inum 12 V (D(inum := ?d))"
    using slot_entry [OF z1(3) b1 i k z1(1,2,4)] fl k by (auto simp: iappend_slot_def Let_def bnd_def)
  have S2: "slots V (D(inum := ?d)) inum l = (if l = 12 then ?fb + 1 else if l = MAXFILE then ?fb else ?S l)" if "l \<le> MAXFILE" for l
    using V(2) i S1 [OF that] that by (auto simp: grown_slot_def)
  have "sized (slots V (D(inum := ?d)) inum) (12 * 512 + 1)"
    by (rule sized_step [OF z k(2)]) (use S2 k fb_nonzero [OF b] fb_nonzero [OF b1] in auto)
  moreover have "ext I inum (mk_img s) (D(inum := din)) V (D(inum := ?d))"
    using ext_trans [OF grown_ext [OF b g1 i sz(2)]] grown_ext [OF _ V(2) i] b1 z1(1) by simp
  moreover have "base V (D(inum := ?d)) I (?fb + 1 + 1)" using grown_base [OF _ r(2) V(2) i] b1 by simp
  moreover have "unat (?fb + 1 + 1) + need (12 * 512) = unat ?fb + need (12 * 512 + 1)"
    using unat_fb_Suc [OF r(2)] r(3) need_step [of 12] by simp
  ultimately show ?thesis using V(1) S2 [of 12] k by (auto simp: slot_post_def)
qed

lemma iappend_slot_ok:
  assumes g: "geom s" and b: "base (mk_img s) (D(inum := din)) I (mk_freeblock s)" and i: "inum \<in> I" "off < MAXFILE * 512"
    and z: "sized (slots (mk_img s) (D(inum := din)) inum) off" and room: "unat (mk_freeblock s) + need (off + 1) \<le> FSSIZE + need off"
  shows "\<exists>x din' t. iappend_slot din (off div 512) s = Ok (x, din') t \<and> slot_post I inum D off s din x din' t"
proof (cases "off mod 512 = 0")
  case False
  then show ?thesis using slot_present [OF g b i z] by blast
next
  case True
  define k where "k = off div 512"
  then have off: "off = k * 512" using True div_mult_mod_eq [of off 512] by simp
  have km: "k < MAXFILE" using off i(2) by simp
  note room = room [unfolded off need_step] and z = z [unfolded off]
  have r: "unat (mk_freeblock s) < FSSIZE" "k = 12 \<Longrightarrow> unat (mk_freeblock s) + 1 < FSSIZE" using room by (simp_all split: if_splits)
  consider "k < NDIRECT" | "k = 12" | "12 < k" by (simp add: limits) linarith
  then have "\<exists>x din' t. iappend_slot din k s = Ok (x, din') t \<and> slot_post I inum D (k * 512) s din x din' t"
    using slot_direct [OF b i(1) _ z r(1)] slot_first [OF g b i(1)] slot_more [OF g b i(1) _ km z r(1)] z r(2) by cases auto
  then show ?thesis unfolding off by simp
qed

section \<open>Writing the bytes\<close>

lemma write_slots:
  assumes b: "base V D I fb" and i: "inum \<in> I" "k < MAXFILE" "slots V D inum k = x" "x \<noteq> 0" and j: "j \<in> I"
  shows "slots (V(x := d)) D j l = slots V D j l"
proof (rule slots_write)
  have "di_addrs (D j) ! NDIRECT \<noteq> x" if "di_addrs (D j) ! NDIRECT \<noteq> 0"
    using coreD(3) [OF baseD(1) [OF b] i(1), of k j MAXFILE] i j by (auto simp: slots_addr)
  then show "di_addrs (D j) ! NDIRECT \<noteq> 0 \<longrightarrow> (V(x := d)) (di_addrs (D j) ! NDIRECT) = V (di_addrs (D j) ! NDIRECT)" by auto
qed

lemma write_base:
  assumes b: "base V D I fb" and i: "inum \<in> I" "k < MAXFILE" "slots V D inum k = x" "x \<noteq> 0"
  shows "base (V(x := d)) D I fb"
proof -
  have S: "slots (V(x := d)) D j l = slots V D j l" if "j \<in> I" for j l by (rule write_slots [OF b i that])
  have "x < fb" using coreD(2) [OF baseD(1) [OF b] i(1), of k] i by simp
  then have "(V(x := d)) c = zeroes" if "fb \<le> c" "unat c < FSSIZE" for c using baseD(3) [OF b that] that by auto
  moreover have "core (slots (V(x := d)) D) I fb" by (rule core_cong [OF baseD(1) [OF b] S])
  ultimately show ?thesis using baseD(2,4,5) [OF b] by (simp add: base_def)
qed

lemma write_content_other:
  assumes b: "base V D I fb" and i: "inum \<in> I" "k < MAXFILE" "slots V D inum k = x" "x \<noteq> 0" and j: "j \<in> I" "j \<noteq> inum"
    and n: "n \<le> MAXFILE * 512"
  shows "content (V(x := d)) D j n = content V D j n"
proof (rule content_cong [OF _ n])
  fix l assume "l * 512 < n"
  then have "l \<le> MAXFILE" using n by simp
  then have "slots V D j l \<noteq> x" using coreD(3) [OF baseD(1) [OF b] i(1), of k j l] i j by auto
  then show "slots (V(x := d)) D j l = slots V D j l \<and> (V(x := d)) (slots V D j l) = V (slots V D j l)"
    using write_slots [OF b i j(1)] by simp
qed

lemma write_content:
  assumes b: "base V D I fb" and i: "inum \<in> I" "k < MAXFILE" "slots V D inum k = x" "x \<noteq> 0" and o: "o' + length xs \<le> 512"
  shows "content (V(x := put_bytes (V x) o' xs)) D inum (k * 512 + o' + length xs) = content V D inum (k * 512 + o') @ xs"
proof -
  let ?V = "V(x := put_bytes (V x) o' xs)" and ?n = "k * 512 + o'"
  have S: "slots ?V D inum l = slots V D inum l" for l by (rule write_slots [OF b i i(1)])
  have byte: "fbyte ?V (mem_inode (D inum)) m = ?V (slots V D inum (m div 512)) (m mod 512)" if "m div 512 < MAXFILE" for m
    using S [of "m div 512"] that by (simp add: fbyte_def slots_def)
  have byte0: "fbyte V (mem_inode (D inum)) m = V (slots V D inum (m div 512)) (m mod 512)" if "m div 512 < MAXFILE" for m
    using that by (simp add: fbyte_def slots_def)
  have old: "fbyte ?V (mem_inode (D inum)) m = fbyte V (mem_inode (D inum)) m" if m: "m < ?n" and len: "xs \<noteq> []" for m
  proof (cases "m div 512 = k")
    case True
    then have "m mod 512 < o'" using m div_mult_mod_eq [of m 512] by simp
    then show ?thesis using byte [of m] byte0 [of m] True i by (auto simp: put_bytes_def)
  next
    case False
    have "o' < 512" using o len by (cases xs) auto
    then have "m < (k + 1) * 512" using m by simp
    then have "m div 512 < k" using False less_mult_imp_div_less [of m "k + 1" 512] by simp
    moreover have "slots V D inum (m div 512) \<noteq> x"
      using coreD(3) [OF baseD(1) [OF b] i(1), of k inum "m div 512"] i False \<open>m div 512 < k\<close> by auto
    ultimately show ?thesis using byte [of m] byte0 [of m] i(2) by simp
  qed
  have new: "fbyte ?V (mem_inode (D inum)) (?n + e) = xs ! e" if "e < length xs" for e
  proof -
    have lt: "o' + e < 512" using o that by simp
    then have "(?n + e) div 512 = k" "(?n + e) mod 512 = o' + e" by (simp_all add: add.assoc)
    then show ?thesis using byte [of "?n + e"] i that by (simp add: put_bytes_def)
  qed
  show ?thesis
  proof (cases "xs = []")
    case True
    have "put_bytes (V x) o' [] = V x" by (auto simp: put_bytes_def fun_eq_iff)
    then show ?thesis using True by simp
  next
    case False
    have "map (fbyte ?V (mem_inode (D inum))) [0..<?n] = map (fbyte V (mem_inode (D inum))) [0..<?n]" using old False by simp
    moreover have "map (fbyte ?V (mem_inode (D inum))) [?n..<?n + length xs] = xs" using new by (intro nth_equalityI) simp_all
    moreover have "[0..<?n + length xs] = [0..<?n] @ [?n..<?n + length xs]" by (rule upt_add_eq_append) simp
    ultimately show ?thesis unfolding content_def by simp
  qed
qed

section \<open>The loop\<close>

definition app_post :: "u32 set \<Rightarrow> u32 \<Rightarrow> (u32 \<Rightarrow> dinode) \<Rightarrow> nat \<Rightarrow> u8 list \<Rightarrow> mkst \<Rightarrow> dinode \<Rightarrow> dinode \<Rightarrow> mkst \<Rightarrow> bool" where
  "app_post I inum D n p s din din' t \<longleftrightarrow>
     t = s\<lparr>mk_img := mk_img t, mk_freeblock := mk_freeblock t\<rparr> \<and> din' = din\<lparr>di_addrs := di_addrs din'\<rparr>
     \<and> base (mk_img t) (D(inum := din')) I (mk_freeblock t)
     \<and> sized (slots (mk_img t) (D(inum := din')) inum) (n + length p)
     \<and> content (mk_img t) (D(inum := din')) inum (n + length p) = content (mk_img s) (D(inum := din)) inum n @ p
     \<and> (\<forall>i\<in>I. i \<noteq> inum \<longrightarrow> (\<forall>l\<le>MAXFILE. slots (mk_img t) (D(inum := din')) i l = slots (mk_img s) (D(inum := din)) i l)
          \<and> (\<forall>m\<le>MAXFILE * 512. (\<forall>l. l * 512 < m \<longrightarrow> slots (mk_img s) (D(inum := din)) i l \<noteq> 0) \<longrightarrow>
               content (mk_img t) (D(inum := din')) i m = content (mk_img s) (D(inum := din)) i m))
     \<and> (\<forall>b. unat b < nmeta \<longrightarrow> mk_img t b = mk_img s b)
     \<and> unat (mk_freeblock t) + need n = unat (mk_freeblock s) + need (n + length p)"

lemma app_postD:
  assumes "app_post I inum D n p s din din' t"
  shows "t = s\<lparr>mk_img := mk_img t, mk_freeblock := mk_freeblock t\<rparr>" "din' = din\<lparr>di_addrs := di_addrs din'\<rparr>"
    "base (mk_img t) (D(inum := din')) I (mk_freeblock t)" "sized (slots (mk_img t) (D(inum := din')) inum) (n + length p)"
    "content (mk_img t) (D(inum := din')) inum (n + length p) = content (mk_img s) (D(inum := din)) inum n @ p"
    "i \<in> I \<Longrightarrow> i \<noteq> inum \<Longrightarrow> l \<le> MAXFILE \<Longrightarrow> slots (mk_img t) (D(inum := din')) i l = slots (mk_img s) (D(inum := din)) i l"
    "i \<in> I \<Longrightarrow> i \<noteq> inum \<Longrightarrow> m \<le> MAXFILE * 512 \<Longrightarrow> \<forall>l. l * 512 < m \<longrightarrow> slots (mk_img s) (D(inum := din)) i l \<noteq> 0 \<Longrightarrow>
       content (mk_img t) (D(inum := din')) i m = content (mk_img s) (D(inum := din)) i m"
    "unat b < nmeta \<Longrightarrow> mk_img t b = mk_img s b"
    "unat (mk_freeblock t) + need n = unat (mk_freeblock s) + need (n + length p)"
  using assms unfolding app_post_def by blast+

lemma app_post_trans:
  assumes 1: "app_post I inum D n p s din din1 t" and 2: "app_post I inum D (n + length p) q t din1 din2 u"
  shows "app_post I inum D n (p @ q) s din din2 u"
proof -
  note A = app_postD [OF 1] and B = app_postD [OF 2]
  have fr: "u = s\<lparr>mk_img := mk_img u, mk_freeblock := mk_freeblock u\<rparr>" "din2 = din\<lparr>di_addrs := di_addrs din2\<rparr>"
    by (subst B(1), subst A(1), simp) (subst B(2), subst A(2), simp)
  have S: "slots (mk_img u) (D(inum := din2)) i l = slots (mk_img s) (D(inum := din)) i l" if "i \<in> I" "i \<noteq> inum" "l \<le> MAXFILE" for i l
    using A(6) B(6) that by simp
  have "content (mk_img u) (D(inum := din2)) i m = content (mk_img s) (D(inum := din)) i m"
    if i: "i \<in> I" "i \<noteq> inum" "m \<le> MAXFILE * 512" "\<forall>l. l * 512 < m \<longrightarrow> slots (mk_img s) (D(inum := din)) i l \<noteq> 0" for i m
  proof -
    have "slots (mk_img t) (D(inum := din1)) i l \<noteq> 0" if "l * 512 < m" for l
    proof -
      have "l \<le> MAXFILE" using that i(3) by simp
      then show ?thesis using A(6) i that by simp
    qed
    then show ?thesis using A(7) [OF i] B(7) [OF i(1-3)] by simp
  qed
  moreover have "unat (mk_freeblock u) + need n = unat (mk_freeblock s) + need (n + length (p @ q))"
    using A(9) B(9) by (simp add: add.assoc)
  ultimately show ?thesis using fr S A(5,8) B(3,4,5,8) unfolding app_post_def by (simp add: add.assoc)
qed

text \<open>One turn: the block, then the bytes.\<close>

lemma sized_block:
  assumes "sized S (n + 1)" "0 < m" "n mod 512 + m \<le> 512"
  shows "sized S (n + m)" "need (n + m) = need (n + 1)"
proof -
  define q r where "q = n div 512" and "r = n mod 512"
  then have n: "n = q * 512 + r" "r + m \<le> 512" using assms(3) by (simp_all add: div_mult_mod_eq)
  have k: "k * 512 < n + 1 \<longleftrightarrow> k * 512 < n + m" for k
  proof (cases "k \<le> q")
    case False
    then have "(q + 1) * 512 \<le> k * 512" by (intro mult_right_mono) simp_all
    then show ?thesis using n assms(2) by auto
  next
    case True
    then have "k * 512 \<le> q * 512" by simp
    then show ?thesis using n assms(2) by linarith
  qed
  have six: "6144 < n + 1 \<longleftrightarrow> 6144 < n + m" using k [of 12] by simp
  show "sized S (n + m)" using assms(1) k six unfolding sized_def by blast
  have "(n + m + 511) div 512 = (n + 1 + 511) div 512"
    using ceil_blocks [of "r + m" q] ceil_blocks [of "r + 1" q] n assms(2) by (simp add: add.assoc)
  then show "need (n + m) = need (n + 1)" using six by (simp add: need_def)
qed

lemma turn_post:
  assumes sp: "slot_post I inum D n s din x din' t" and i: "inum \<in> I" "n < MAXFILE * 512"
    and b: "base (mk_img s) (D(inum := din)) I (mk_freeblock s)" and z: "sized (slots (mk_img s) (D(inum := din)) inum) n"
    and q: "q \<noteq> []" "n mod 512 + length q \<le> 512"
  shows "app_post I inum D n q s din din' (t\<lparr>mk_img := (mk_img t)(x := put_bytes (mk_img t x) (n mod 512) q)\<rparr>)" (is "app_post _ _ _ _ _ _ _ _ ?u")
    and "x \<noteq> 0" "unat x < FSSIZE"
proof -
  let ?D = "D(inum := din)" and ?E = "D(inum := din')" and ?k = "n div 512"
  have T: "t = s\<lparr>mk_img := mk_img t, mk_freeblock := mk_freeblock t\<rparr>" "din' = din\<lparr>di_addrs := di_addrs din'\<rparr>"
    "base (mk_img t) ?E I (mk_freeblock t)" "ext I inum (mk_img s) ?D (mk_img t) ?E" "slots (mk_img t) ?E inum ?k = x"
    "sized (slots (mk_img t) ?E inum) (n + 1)" "unat (mk_freeblock t) + need n = unat (mk_freeblock s) + need (n + 1)"
    using sp unfolding slot_post_def by blast+
  have k: "?k < MAXFILE" "?k * 512 + n mod 512 = n" using i(2) by (simp_all add: less_mult_imp_div_less div_mult_mod_eq)
  show x: "x \<noteq> 0" using sizedD(1) [OF T(6) k(1)] T(5) k(2) by auto
  show "unat x < FSSIZE" using coreD(2) [OF baseD(1) [OF T(3)] i(1), of ?k] T(5) x k(1) baseD(5) [OF T(3)] by (auto simp: word_less_nat_alt)
  note wr = T(3) i(1) k(1) T(5) x
  have S: "slots (mk_img ?u) ?E j l = slots (mk_img t) ?E j l" if "j \<in> I" for j l using write_slots [OF wr that] by simp
  have len: "0 < length q" using q(1) by simp
  have "content (mk_img ?u) ?E inum (n + length q) = content (mk_img t) ?E inum n @ q"
    using write_content [OF wr q(2)] k(2) by simp
  moreover have "content (mk_img t) ?E inum n = content (mk_img s) ?D inum n"
  proof -
    have "slots (mk_img s) ?D inum l \<noteq> 0" if "l * 512 < n" for l
    proof -
      have "l < MAXFILE" using that i(2) by simp
      then show ?thesis using sizedD(1) [OF z] that by blast
    qed
    then show ?thesis using T(4) i less_imp_le unfolding ext_def by blast
  qed
  moreover have "slots (mk_img ?u) ?E i l = slots (mk_img s) ?D i l" if "i \<in> I" "i \<noteq> inum" "l \<le> MAXFILE" for i l
    using S [OF that(1)] T(4) that unfolding ext_def by simp
  moreover have "content (mk_img ?u) ?E i m = content (mk_img s) ?D i m"
    if "i \<in> I" "i \<noteq> inum" "m \<le> MAXFILE * 512" "\<forall>l. l * 512 < m \<longrightarrow> slots (mk_img s) ?D i l \<noteq> 0" for i m
    using write_content_other [OF wr that(1-3)] T(4) that unfolding ext_def by simp
  moreover have "mk_img ?u b = mk_img s b" if "unat b < nmeta" for b
  proof -
    have "nmeta \<le> unat x" using coreD(1) [OF baseD(1) [OF T(3)] i(1), of ?k] T(5) x k(1) by auto
    then show ?thesis using T(4) that unfolding ext_def by auto
  qed
  moreover have "sized (slots (mk_img ?u) ?E inum) (n + length q)" "need (n + length q) = need (n + 1)"
    using sized_block [OF T(6) len q(2)] S [OF i(1)] by (simp_all add: sized_def)
  moreover have "?u = s\<lparr>mk_img := mk_img ?u, mk_freeblock := mk_freeblock ?u\<rparr>" by (subst T(1)) simp
  ultimately show "app_post I inum D n q s din din' ?u"
    unfolding app_post_def using T(2,7) write_base [OF wr] by simp
qed

lemma block_rest: "n = q * 512 + r \<Longrightarrow> (q + 1) * 512 - n = 512 - (r :: nat)"
  by simp

lemma app_post_empty:
  assumes "base (mk_img s) (D(inum := din)) I (mk_freeblock s)" "sized (slots (mk_img s) (D(inum := din)) inum) n"
  shows "app_post I inum D n [] s din din s"
  using assms by (simp add: app_post_def)

lemma turn_size:
  fixes off :: u32
  assumes "p \<noteq> []" "unat off + length p \<le> MAXFILE * 512" "n1 = min (length p) ((unat off div BSIZE + 1) * BSIZE - unat off)"
  shows "unat off < MAXFILE * 512" "unat off div 512 < MAXFILE" "0 < n1" "n1 \<le> length p" "unat off mod 512 + n1 \<le> 512"
    "unat (off + of_nat n1) = unat off + n1" "off + of_nat n1 + of_nat (length (drop n1 p)) = off + of_nat (length p)"
    "unat off - unat off div BSIZE * BSIZE = unat off mod 512"
proof -
  have len: "0 < length p" using assms(1) by simp
  show n: "unat off < MAXFILE * 512" using assms(2) len by linarith
  then show "unat off div 512 < MAXFILE" by (rule less_mult_imp_div_less)
  have md: "unat off = unat off div 512 * 512 + unat off mod 512" "unat off mod 512 < 512" by (simp_all add: div_mult_mod_eq)
  have "(unat off div BSIZE + 1) * BSIZE - unat off = 512 - unat off mod 512" unfolding BSIZE_512 by (rule block_rest) (rule md(1))
  then show "0 < n1" "n1 \<le> length p" and le: "unat off mod 512 + n1 \<le> 512" using len md(2) assms(3) by (auto simp: min_def)
  have "unat off + n1 < 2 ^ 32" using n le by (simp add: limits)
  then show "unat (off + of_nat n1) = unat off + n1" by (simp add: unat_word_ariths unat_of_nat)
  have "of_nat n1 + of_nat (length (drop n1 p)) = (of_nat (n1 + length (drop n1 p)) :: u32)" by simp
  also have "n1 + length (drop n1 p) = length p" using assms(3) by simp
  finally show "off + of_nat n1 + of_nat (length (drop n1 p)) = off + of_nat (length p)" by (simp only: add.assoc)
  show "unat off - unat off div BSIZE * BSIZE = unat off mod 512" by (simp add: minus_div_mult_eq_mod)
qed

lemma iappend_loop_ok:
  assumes "geom s" "base (mk_img s) (D(inum := din)) I (mk_freeblock s)" "inum \<in> I"
    "sized (slots (mk_img s) (D(inum := din)) inum) (unat off)" "unat off + length p \<le> MAXFILE * 512"
    "unat (mk_freeblock s) + need (unat off + length p) \<le> FSSIZE + need (unat off)"
  shows "\<exists>din' t. iappend_loop din off p s = Ok (din', off + of_nat (length p)) t \<and> app_post I inum D (unat off) p s din din' t"
  using assms
proof (induction din off p arbitrary: s rule: iappend_loop.induct)
  case (1 din off p)
  show ?case
  proof (cases "p = []")
    case True
    have "iappend_loop din off p s = Ok (din, off) s" using True by (subst iappend_loop.simps) (simp add: ret_def)
    then show ?thesis using app_post_empty [OF "1.prems"(2,4)] True by auto
  next
    case False
    let ?n = "unat off" let ?n1 = "min (length p) ((?n div BSIZE + 1) * BSIZE - ?n)" let ?q = "take ?n1 p"
    note N = turn_size [OF False "1.prems"(5) refl]
    have q: "length ?q = ?n1" "?q \<noteq> []" "?n mod 512 + length ?q \<le> 512" using N(3,5) False by auto
    have "need (?n + 1) \<le> need (?n + length p)" using N(3,4) by (intro need_mono) linarith
    then obtain x din' t where sl: "iappend_slot din (?n div 512) s = Ok (x, din') t" and sp: "slot_post I inum D ?n s din x din' t"
      using iappend_slot_ok [OF "1.prems"(1,2,3) N(1) "1.prems"(4)] "1.prems"(6) by auto
    let ?u = "t\<lparr>mk_img := (mk_img t)(x := put_bytes (mk_img t x) (?n mod 512) ?q)\<rparr>"
    note tp = turn_post [OF sp "1.prems"(3) N(1) "1.prems"(2,4) q(2,3)]
    note A = app_postD [OF tp(1)]
    have gt: "geom t" "geom ?u" using "1.prems"(1) sp unfolding slot_post_def by (metis geom_upd(1,2), metis geom_upd(1,2))
    have "\<exists>d v. iappend_loop din' (off + of_nat ?n1) (drop ?n1 p) ?u = Ok (d, off + of_nat ?n1 + of_nat (length (drop ?n1 p))) v
        \<and> app_post I inum D (unat (off + of_nat ?n1)) (drop ?n1 p) ?u din' d v"
    proof (rule "1.IH" [OF False refl _ refl])
      show "\<not> \<not> ?n div BSIZE < MAXFILE" using N(2) by simp
      show "geom ?u" "base (mk_img ?u) (D(inum := din')) I (mk_freeblock ?u)" "inum \<in> I" by (rule gt(2) A(3) "1.prems"(3))+
      show "sized (slots (mk_img ?u) (D(inum := din')) inum) (unat (off + of_nat ?n1))" using A(4) N(6) q(1) by simp
      show "unat (off + of_nat ?n1) + length (drop ?n1 p) \<le> MAXFILE * 512" using N(6) "1.prems"(5) by simp
      show "unat (mk_freeblock ?u) + need (unat (off + of_nat ?n1) + length (drop ?n1 p)) \<le> FSSIZE + need (unat (off + of_nat ?n1))"
        using A(9) "1.prems"(6) N(6) q(1) by simp
    qed
    then obtain d v where v: "iappend_loop din' (off + of_nat ?n1) (drop ?n1 p) ?u = Ok (d, off + of_nat (length p)) v"
        "app_post I inum D (?n + length ?q) (drop ?n1 p) ?u din' d v" unfolding N(6,7) q(1) by blast
    have "iappend_loop din off p s = Ok (d, off + of_nat (length p)) v"
      using False N(2,8) sl v(1) rsect_Ok [OF gt(1) tp(3)] wsect_Ok [OF gt(1) tp(3)]
      by (subst iappend_loop.simps) (simp add: bnd_def andthen_def Let_def)
    moreover have "app_post I inum D ?n p s din d v" using app_post_trans [OF tp(1) v(2)] by simp
    ultimately show ?thesis by auto
  qed
qed

end
