(* ===== verification/Mkimage.thy ===== *)
theory Mkimage
  imports Mkfs
begin

text \<open>
  The image \<^verbatim>\<open>mkfs.c\<close> leaves: an abstract image, the contents and types of the inodes handed out, is kept by
  \<^verbatim>\<open>ialloc\<close> and \<^verbatim>\<open>iappend\<close>, and the whole program ends in the image of the files it is given, read the way the
  kernel reads it.
\<close>

section \<open>The image\<close>

text \<open>
  The abstract image: \<open>F i\<close> is the contents and \<open>T i\<close> the type of inode \<open>i\<close>, for the inodes handed out so far.
\<close>

definition inums :: "u32 \<Rightarrow> u32 set" where
  "inums k = {i. 0 < unat i \<and> unat i < unat k}"

definition taken_blocks :: "(u32 \<Rightarrow> u8 list) \<Rightarrow> u32 \<Rightarrow> nat" where
  "taken_blocks F k = (\<Sum>i\<in>inums k. need (length (F i)))"

definition disk_inode :: "(u32 \<Rightarrow> block) \<Rightarrow> u32 \<Rightarrow> dinode" where
  "disk_inode V i = dinode_at (V (IBLOCK i mkfs_sb)) (dinode_off i)"

definition disk_inodes :: "(u32 \<Rightarrow> block) \<Rightarrow> (u32 \<Rightarrow> dinode) \<Rightarrow> u32 set \<Rightarrow> bool" where
  "disk_inodes V D I \<longleftrightarrow> (\<forall>i\<in>I. disk_inode V i = D i)"

text \<open>The superblock, the empty log and the free inodes.\<close>

definition head_ok :: "(u32 \<Rightarrow> block) \<Rightarrow> u32 set \<Rightarrow> bool" where
  "head_ok V I \<longleftrightarrow> (\<forall>b. unat b < 32 \<longrightarrow> V b = (if b = 1 then sb_encode mkfs_sb else zeroes))
     \<and> (\<forall>i. unat i \<le> NINODES \<and> i \<notin> I \<longrightarrow> di_type (disk_inode V i) = 0)"

definition file_ok :: "(u32 \<Rightarrow> block) \<Rightarrow> (u32 \<Rightarrow> dinode) \<Rightarrow> u32 \<Rightarrow> u8 list \<Rightarrow> u16 \<Rightarrow> bool" where
  "file_ok V D i f ty \<longleftrightarrow> sized (slots V D i) (length f) \<and> length f \<le> MAXFILE * 512 \<and> content V D i (length f) = f
     \<and> unat (di_size (D i)) = length f \<and> di_type (D i) = ty \<and> di_nlink (D i) = 1"

definition img_ok :: "mkst \<Rightarrow> (u32 \<Rightarrow> dinode) \<Rightarrow> (u32 \<Rightarrow> u8 list) \<Rightarrow> (u32 \<Rightarrow> u16) \<Rightarrow> bool" where
  "img_ok s D F T \<longleftrightarrow> geom s \<and> head_ok (mk_img s) (inums (mk_freeinode s)) \<and> disk_inodes (mk_img s) D (inums (mk_freeinode s)) \<and> base (mk_img s) D (inums (mk_freeinode s)) (mk_freeblock s)
     \<and> (\<forall>i\<in>inums (mk_freeinode s). file_ok (mk_img s) D i (F i) (T i))
     \<and> unat (mk_freeblock s) = nmeta + taken_blocks F (mk_freeinode s) \<and> 0 < unat (mk_freeinode s) \<and> unat (mk_freeinode s) \<le> NINODES"

lemma file_okD:
  assumes "file_ok V D i f ty"
  shows "sized (slots V D i) (length f)" "length f \<le> MAXFILE * 512" "content V D i (length f) = f" "unat (di_size (D i)) = length f"
    "di_type (D i) = ty" "di_nlink (D i) = 1"
  using assms by (simp_all add: file_ok_def)

lemma img_okD:
  assumes "img_ok s D F T"
  shows "geom s" "disk_inodes (mk_img s) D (inums (mk_freeinode s))" "base (mk_img s) D (inums (mk_freeinode s)) (mk_freeblock s)"
    "i \<in> inums (mk_freeinode s) \<Longrightarrow> file_ok (mk_img s) D i (F i) (T i)"
    "unat (mk_freeblock s) = nmeta + taken_blocks F (mk_freeinode s)" "0 < unat (mk_freeinode s)" "unat (mk_freeinode s) \<le> NINODES"
    "head_ok (mk_img s) (inums (mk_freeinode s))"
  using assms unfolding img_ok_def by blast+

lemma inode_block:
  assumes "unat i \<le> NINODES"
  shows "unat (IBLOCK i mkfs_sb) < nmeta" "32 \<le> unat (IBLOCK i mkfs_sb)" "unat (IBLOCK i mkfs_sb) \<noteq> 58"
proof -
  have "unat (i div 8) = unat i div 8" by (simp add: unat_div)
  moreover have "unat i div 8 \<le> 25" using assms by (simp add: NINODES_def)
  ultimately have "unat (IBLOCK i mkfs_sb) = unat i div 8 + 32" "unat i div 8 \<le> 25"
    by (simp_all add: IBLOCK_def IPB_def mkfs_sb_vals unat_word_ariths)
  then show "unat (IBLOCK i mkfs_sb) < nmeta" "32 \<le> unat (IBLOCK i mkfs_sb)" "unat (IBLOCK i mkfs_sb) \<noteq> 58" by (simp_all add: layout)
qed

lemma rinode_Ok:
  assumes "geom s" "unat i \<le> NINODES"
  shows "rinode i s = Ok (disk_inode (mk_img s) i) s"
proof -
  have "unat (IBLOCK i mkfs_sb) < FSSIZE" using inode_block(1) [OF assms(2)] by (simp add: layout limits)
  then show ?thesis using assms(1) rsect_Ok [OF assms(1)] by (simp add: rinode_def bnd_def fetch_def ret_def geom_def disk_inode_def)
qed

lemma winode_Ok:
  assumes "geom s" "unat i \<le> NINODES"
  shows "winode i d s = Ok () (s\<lparr>mk_img := (mk_img s)(IBLOCK i mkfs_sb := dinode_put (mk_img s (IBLOCK i mkfs_sb)) (dinode_off i) d)\<rparr>)"
proof -
  have "unat (IBLOCK i mkfs_sb) < FSSIZE" using inode_block(1) [OF assms(2)] by (simp add: layout limits)
  then show ?thesis using assms(1) rsect_Ok [OF assms(1)] wsect_Ok [OF assms(1)] by (simp add: winode_def bnd_def fetch_def Let_def geom_def)
qed

lemma winode_disk:
  assumes "length (di_addrs d) = NDIRECT + 1"
  shows "disk_inode (V(IBLOCK i mkfs_sb := dinode_put (V (IBLOCK i mkfs_sb)) (dinode_off i) d)) j = (if j = i then d else disk_inode V j)"
proof (cases "j = i")
  case True
  then show ?thesis using dinode_at_put [OF assms] by (simp add: disk_inode_def)
next
  case False
  show ?thesis
  proof (cases "IBLOCK j mkfs_sb = IBLOCK i mkfs_sb")
    case True
    then have "dinode_off i + 64 \<le> dinode_off j \<or> dinode_off j + 64 \<le> dinode_off i" using False IBLOCK_eq dinode_off_apart by metis
    then show ?thesis using True False dinode_at_put_other [OF assms] by (simp add: disk_inode_def)
  qed (use False in \<open>simp add: disk_inode_def\<close>)
qed

text \<open>Writing an inode leaves blocks, slots and contents alone.\<close>

lemma meta_write:
  assumes b: "base V D I fb" and m: "unat x < nmeta" and V': "V' = V(x := d)"
  shows "i \<in> I \<Longrightarrow> slots V' D i k = slots V D i k" "base V' D I fb"
    "i \<in> I \<Longrightarrow> n \<le> MAXFILE * 512 \<Longrightarrow> sized (slots V D i) n \<Longrightarrow> content V' D i n = content V D i n"
proof -
  have ne: "slots V D i k \<noteq> x" if "i \<in> I" "k \<le> MAXFILE" "slots V D i k \<noteq> 0" for i k
    using coreD(1) [OF baseD(1) [OF b] that] m by auto
  show S: "slots V' D i k = slots V D i k" if "i \<in> I" for i k
    by (rule slots_write) (use ne [OF that, of MAXFILE] in \<open>auto simp: V' slots_addr\<close>)
  have "core (slots V' D) I fb" by (rule core_cong [OF baseD(1) [OF b] S])
  moreover have "V' c = zeroes" if "fb \<le> c" "unat c < FSSIZE" for c
    using baseD(3) [OF b that] that m baseD(4) [OF b] by (auto simp: V' word_le_nat_alt)
  ultimately show "base V' D I fb" using baseD(2,4,5) [OF b] by (simp add: base_def)
  show "content V' D i n = content V D i n" if i: "i \<in> I" "n \<le> MAXFILE * 512" "sized (slots V D i) n" for i n
  proof (rule content_cong [OF _ i(2)])
    fix l assume "l * 512 < n"
    moreover from this have "l < MAXFILE" using i(2) by simp
    ultimately have "slots V D i l \<noteq> x" using ne [OF i(1), of l] sizedD(1) [OF i(3)] by auto
    then show "slots V' D i l = slots V D i l \<and> V' (slots V D i l) = V (slots V D i l)" using S [OF i(1)] by (simp add: V')
  qed
qed

lemma slots_addrs:
  assumes "di_addrs (D' i) = di_addrs (D i)"
  shows "slots V D' i k = slots V D i k" "content V D' i n = content V D i n"
  using assms by (simp_all add: slots_def fblock_def mem_inode_def content_def fbyte_def fun_eq_iff)

lemma base_addrs:
  assumes "base V D I fb" "\<And>i. i \<in> I \<Longrightarrow> di_addrs (D' i) = di_addrs (D i)"
  shows "base V D' I fb"
proof -
  have "core (slots V D') I fb" by (rule core_cong [OF baseD(1) [OF assms(1)]]) (use assms(2) slots_addrs(1) in blast)
  then show ?thesis using baseD(2-5) [OF assms(1)] assms(2) by (simp add: base_def)
qed

lemma sized_cong: "(\<And>k. k \<le> MAXFILE \<Longrightarrow> S' k = S k) \<Longrightarrow> sized S' n = sized S n"
  by (simp add: sized_def)

lemma file_ok_meta:
  assumes b: "base V D I fb" "unat x < nmeta" "i \<in> I" and f: "file_ok V D i f ty"
  shows "file_ok (V(x := d)) D i f ty"
proof -
  note M = meta_write [OF b(1,2), of "V(x := d)" d, OF refl]
  have "sized (slots (V(x := d)) D i) (length f)" using sized_cong [of "slots (V(x := d)) D i" "slots V D i"] M(1) [OF b(3)] file_okD(1) [OF f] by simp
  then show ?thesis using M(3) [OF b(3) file_okD(2,1) [OF f]] f by (simp add: file_ok_def)
qed

text \<open>Writing one inode of an image whose blocks are in order.\<close>

lemma winode_img:
  assumes g: "geom t" and b: "base (mk_img t) D (inums (mk_freeinode t)) (mk_freeblock t)" and i: "unat i \<le> NINODES"
    and dk: "disk_inodes (mk_img t) D (inums (mk_freeinode t) - {i})" and len: "length (di_addrs (D i)) = NDIRECT + 1"
    and f: "\<And>j. j \<in> inums (mk_freeinode t) \<Longrightarrow> file_ok (mk_img t) D j (F j) (T j)"
    and n: "unat (mk_freeblock t) = nmeta + taken_blocks F (mk_freeinode t)" "0 < unat (mk_freeinode t)" "unat (mk_freeinode t) \<le> NINODES"
    and hd: "head_ok (mk_img t) (inums (mk_freeinode t))" "i \<in> inums (mk_freeinode t)"
  obtains u where "winode i (D i) t = Ok () u" "img_ok u D F T" "mk_freeinode u = mk_freeinode t"
proof -
  let ?b = "IBLOCK i mkfs_sb"
  let ?u = "t\<lparr>mk_img := (mk_img t)(?b := dinode_put (mk_img t ?b) (dinode_off i) (D i))\<rparr>"
  have "disk_inodes (mk_img ?u) D (inums (mk_freeinode t))"
    using dk winode_disk [OF len] by (simp add: disk_inodes_def)
  moreover have "base (mk_img ?u) D (inums (mk_freeinode t)) (mk_freeblock t)" using meta_write(2) [OF b inode_block(1) [OF i]] by simp
  moreover have "file_ok (mk_img ?u) D j (F j) (T j)" if "j \<in> inums (mk_freeinode t)" for j
    using file_ok_meta [OF b inode_block(1) [OF i] that f [OF that]] by simp
  moreover have "head_ok (mk_img ?u) (inums (mk_freeinode t))"
    using hd winode_disk [OF len, of _ i] inode_block(2) [OF i] by (auto simp: head_ok_def)
  ultimately have "img_ok ?u D F T" using g n by (simp add: img_ok_def)
  then show thesis using that [of ?u] winode_Ok [OF g i] by simp
qed

lemma finite_inums [simp]: "finite (inums k)"
  by simp

lemma taken_upd:
  assumes "i \<in> inums k"
  shows "taken_blocks (F(i := x)) k + need (length (F i)) = taken_blocks F k + need (length x)"
proof -
  have "taken_blocks G k = need (length (G i)) + (\<Sum>j\<in>inums k - {i}. need (length (G j)))" for G
    unfolding taken_blocks_def using assms by (intro sum.remove) simp_all
  moreover have "(\<Sum>j\<in>inums k - {i}. need (length ((F(i := x)) j))) = (\<Sum>j\<in>inums k - {i}. need (length (F j)))"
    by (rule sum.cong) auto
  ultimately show ?thesis by simp
qed

lemma inums_le: "i \<in> inums k \<Longrightarrow> unat k \<le> NINODES \<Longrightarrow> unat i \<le> NINODES"
  by (simp add: inums_def)

lemma app_post_files:
  assumes ap: "app_post I inum D (length (F inum)) p s (D inum) din' t" and i: "inum \<in> I"
    and f: "\<And>j. j \<in> I \<Longrightarrow> file_ok (mk_img s) D j (F j) (T j)" and n: "length (F inum) + length p \<le> MAXFILE * 512"
    and D': "D' = D(inum := din'\<lparr>di_size := di_size (D inum) + of_nat (length p)\<rparr>)" and j: "j \<in> I"
  shows "file_ok (mk_img t) D' j ((F(inum := F inum @ p)) j) (T j)"
proof -
  note A = app_postD [OF ap, unfolded fun_upd_triv] and K = file_okD [OF f]
  have S: "slots V D' k l = slots V (D(inum := din')) k l" "content V D' k m = content V (D(inum := din')) k m" for V k l m
    by (rule slots_addrs; simp add: D')+
  show ?thesis
  proof (cases "j = inum")
    case True
    have "unat (di_size (D inum)) + length p < 2 ^ 32" using n K(4) [OF i] by (simp add: limits)
    then have "unat (di_size (D inum) + of_nat (length p)) = length (F inum) + length p"
      using K(4) [OF i] by (simp add: unat_word_ariths unat_of_nat)
    moreover have "di_type din' = T inum \<and> di_nlink din' = 1" using K(5,6) [OF i] by (subst A(2), subst (2) A(2)) simp
    moreover have "sized (slots (mk_img t) D' inum) (length (F inum) + length p)" using A(4) S(1) sized_cong by metis
    ultimately show ?thesis using A(5) K(3) [OF i] n True S(2) by (simp add: file_ok_def D')
  next
    case False
    have "slots (mk_img s) D j l \<noteq> 0" if "l * 512 < length (F j)" for l
    proof -
      have "l < MAXFILE" using that K(2) [OF j] by simp
      then show ?thesis using sizedD(1) [OF K(1) [OF j]] that by blast
    qed
    then have "content (mk_img t) D' j (length (F j)) = F j" using A(7) [OF j False K(2) [OF j]] K(3) [OF j] S(2) by simp
    moreover have "sized (slots (mk_img t) D' j) (length (F j))"
      using K(1) [OF j] A(6) [OF j False] S(1) sized_cong [of "slots (mk_img t) D' j" "slots (mk_img s) D j"] by simp
    ultimately show ?thesis using K(2,4-6) [OF j] False by (simp add: file_ok_def D')
  qed
qed

lemma iappend_ok:
  assumes ok: "img_ok s D F T" and i: "inum \<in> inums (mk_freeinode s)" and n: "length (F inum) + length p \<le> MAXFILE * 512"
    and room: "nmeta + taken_blocks (F(inum := F inum @ p)) (mk_freeinode s) \<le> FSSIZE"
  obtains t D' where "iappend inum p s = Ok () t" "img_ok t D' (F(inum := F inum @ p)) T" "mk_freeinode t = mk_freeinode s"
proof -
  note K = img_okD [OF ok]
  let ?I = "inums (mk_freeinode s)" and ?din = "D inum" and ?n = "length (F inum)"
  have ni: "unat inum \<le> NINODES" by (rule inums_le [OF i K(7)])
  have off: "unat (di_size ?din) = ?n" by (rule file_okD(4) [OF K(4) [OF i]])
  have rd: "rinode inum s = Ok ?din s" using rinode_Ok [OF K(1) ni] K(2) i by (simp add: disk_inodes_def)
  have tb: "taken_blocks (F(inum := F inum @ p)) (mk_freeinode s) + need ?n = taken_blocks F (mk_freeinode s) + need (?n + length p)"
    using taken_upd [OF i, of F "F inum @ p"] by simp
  have "\<exists>din' t. iappend_loop ?din (di_size ?din) p s = Ok (din', di_size ?din + of_nat (length p)) t \<and> app_post ?I inum D ?n p s ?din din' t"
    using iappend_loop_ok [of s D inum ?din ?I "di_size ?din" p] K(1,3,5) file_okD(1) [OF K(4) [OF i]] i n off room tb by simp
  then obtain din' t where lp: "iappend_loop ?din (di_size ?din) p s = Ok (din', di_size ?din + of_nat (length p)) t"
    and ap: "app_post ?I inum D ?n p s ?din din' t" by blast
  note A = app_postD [OF ap, unfolded fun_upd_triv]
  define D' where "D' = D(inum := din'\<lparr>di_size := di_size ?din + of_nat (length p)\<rparr>)"
  have t: "geom t" "mk_freeinode t = mk_freeinode s" using K(1) by (subst A(1), simp)+
  have bD: "base (mk_img t) D' ?I (mk_freeblock t)" by (rule base_addrs [OF A(3)]) (simp add: D'_def)
  have dk: "disk_inode (mk_img t) j = disk_inode (mk_img s) j" if "unat j \<le> NINODES" for j
    using A(8) inode_block(1) [OF that] by (simp add: disk_inode_def)
  have "disk_inodes (mk_img t) D' (?I - {inum})" using K(2) dk inums_le [OF _ K(7)] by (simp add: disk_inodes_def D'_def)
  moreover have "head_ok (mk_img t) ?I" using K(8) dk A(8) by (simp add: head_ok_def layout)
  moreover have "unat (mk_freeblock t) = nmeta + taken_blocks (F(inum := F inum @ p)) (mk_freeinode t)"
    using A(9) tb K(5) t(2) by simp
  ultimately obtain u where "winode inum (D' inum) t = Ok () u" "img_ok u D' (F(inum := F inum @ p)) T" "mk_freeinode u = mk_freeinode t"
    using winode_img [of t D' inum "F(inum := F inum @ p)" T] app_post_files [OF ap i K(4) n D'_def] t bD ni baseD(2) [OF bD i] K(6,7) i
    by metis
  then show thesis using that [of u D'] rd lp t(2) by (simp add: iappend_def bnd_def D'_def)
qed

section \<open>A new inode\<close>

definition fresh_dinode :: "u16 \<Rightarrow> dinode" where
  "fresh_dinode ty = \<lparr>di_type = ty, di_major = 0, di_minor = 0, di_nlink = 1, di_size = 0, di_addrs = replicate (NDIRECT + 1) 0\<rparr>"

lemma unat_fi_Suc: "unat (k :: u32) \<le> NINODES \<Longrightarrow> unat (k + 1) = unat k + 1"
  using unat_add_small [of k 1] by (simp add: NINODES_def)

lemma inums_Suc:
  assumes "0 < unat k" "unat k < NINODES"
  shows "inums (k + 1) = insert k (inums k)" "k \<notin> inums k"
proof -
  have "unat i < unat k + 1 \<longleftrightarrow> i = k \<or> unat i < unat k" for i :: u32 by (auto simp: less_Suc_eq unat_arith_simps)
  then show "inums (k + 1) = insert k (inums k)" using unat_fi_Suc [of k] assms by (auto simp: inums_def)
  show "k \<notin> inums k" by (simp add: inums_def)
qed

lemma fresh_slots: "D i = fresh_dinode ty \<Longrightarrow> l \<le> MAXFILE \<Longrightarrow> slots V D i l = 0"
  by (simp add: slots_def fblock_def mem_inode_def fresh_dinode_def limits nth_append nth_Cons')

lemma fresh_base:
  assumes b: "base V D I fb" and D': "D' = D(k := fresh_dinode ty)" and k: "k \<notin> I"
  shows "base V D' (insert k I) fb"
proof -
  have S: "slots V D' j l = (if j = k then 0 else slots V D j l)" if "l \<le> MAXFILE" for j l
    using fresh_slots [of D' k ty l V] that by (auto simp: D' slots_def)
  have "core (slots V D') (insert k I) fb" unfolding core_def
    using coreD(1,2) [OF baseD(1) [OF b]] coreD(3) [OF baseD(1) [OF b]]
    by (auto simp: S k split: if_splits)
  then show ?thesis using baseD(2-5) [OF b] by (auto simp: base_def D' fresh_dinode_def)
qed

lemma mk_ialloc_ok:
  assumes ok: "img_ok s D F T" and n: "unat (mk_freeinode s) < NINODES" and k: "k = mk_freeinode s"
  obtains t D' where "mk_ialloc ty s = Ok k t" "img_ok t D' (F(k := [])) (T(k := ty))" "mk_freeinode t = k + 1"
proof -
  note K = img_okD [OF ok] and I = inums_Suc [OF img_okD(6) [OF ok] n, folded k]
  let ?t = "s\<lparr>mk_freeinode := k + 1\<rparr>"
  define D' where "D' = D(k := fresh_dinode ty)"
  have b: "base (mk_img ?t) D' (inums (mk_freeinode ?t)) (mk_freeblock ?t)"
    using fresh_base [OF _ D'_def, of "mk_img s" "inums k"] K(3) I k by simp
  have d: "disk_inodes (mk_img ?t) D' (inums (mk_freeinode ?t) - {k})" using K(2) I k by (simp add: disk_inodes_def D'_def)
  have f: "file_ok (mk_img ?t) D' j ((F(k := [])) j) ((T(k := ty)) j)" if "j \<in> inums (mk_freeinode ?t)" for j
  proof (cases "j = k")
    case True
    then show ?thesis using fresh_slots [of D' k ty _ "mk_img s"] by (simp add: file_ok_def sized_def content_def D'_def) (simp add: fresh_dinode_def)
  next
    case False
    then have "D' j = D j" "slots (mk_img s) D' j = slots (mk_img s) D j" "content (mk_img s) D' j = content (mk_img s) D j"
      by (auto simp: D'_def slots_def content_def)
    then show ?thesis using that False K(4) [of j] I k by (simp add: file_ok_def)
  qed
  have h: "head_ok (mk_img ?t) (inums (mk_freeinode ?t))" using K(8) I k by (simp add: head_ok_def)
  have "taken_blocks (F(k := [])) (k + 1) = taken_blocks F k"
  proof -
    have "(\<Sum>i\<in>inums k. need (length ((F(k := [])) i))) = taken_blocks F k" unfolding taken_blocks_def using I(2) by (intro sum.cong) auto
    then show ?thesis using I by (simp add: taken_blocks_def need_def)
  qed
  moreover have "unat (k + 1) \<le> NINODES" "0 < unat (k + 1)" "unat k \<le> NINODES" using unat_fi_Suc [of k] n k by simp_all
  ultimately obtain u where "winode k (D' k) ?t = Ok () u" "img_ok u D' (F(k := [])) (T(k := ty))" "mk_freeinode u = k + 1"
    using winode_img [of ?t D' k "F(k := [])" "T(k := ty)"] b d f h I(1) K(1,5) k by (auto simp: D'_def fresh_dinode_def)
  then show thesis using that [of u D'] k by (simp add: mk_ialloc_def kdefs D'_def fresh_dinode_def)
qed

section \<open>The files\<close>

lemma taken_mono:
  assumes "unat k \<le> unat l" "\<And>i. i \<in> inums k \<Longrightarrow> length (F i) \<le> length (G i)"
  shows "taken_blocks F k \<le> taken_blocks G l"
proof -
  have "taken_blocks F k \<le> taken_blocks G k" unfolding taken_blocks_def by (intro sum_mono need_mono assms(2))
  also have "\<dots> \<le> taken_blocks G l" unfolding taken_blocks_def by (intro sum_mono2) (use assms(1) in \<open>auto simp: inums_def\<close>)
  finally show ?thesis .
qed

lemma append_chunks:
  assumes "img_ok s D F T" "inum \<in> inums (mk_freeinode s)" "length (F inum) + length (concat chunks) \<le> MAXFILE * 512"
    "nmeta + taken_blocks (F(inum := F inum @ concat chunks)) (mk_freeinode s) \<le> FSSIZE"
  shows "\<exists>t D'. for_each chunks (iappend inum) s = Ok () t \<and> img_ok t D' (F(inum := F inum @ concat chunks)) T \<and> mk_freeinode t = mk_freeinode s"
  using assms
proof (induction chunks arbitrary: s D F)
  case (Cons c cs)
  have "taken_blocks (F(inum := F inum @ c)) (mk_freeinode s) \<le> taken_blocks (F(inum := F inum @ concat (c # cs))) (mk_freeinode s)"
    by (rule taken_mono) simp_all
  then have r: "nmeta + taken_blocks (F(inum := F inum @ c)) (mk_freeinode s) \<le> FSSIZE" using Cons.prems(4) by linarith
  have "length (F inum) + length c \<le> MAXFILE * 512" using Cons.prems(3) by simp
  then obtain t D' where t: "iappend inum c s = Ok () t" "img_ok t D' (F(inum := F inum @ c)) T" "mk_freeinode t = mk_freeinode s"
    using iappend_ok [OF Cons.prems(1,2) _ r] by blast
  let ?G = "F(inum := F inum @ c)" and ?H = "F(inum := F inum @ concat (c # cs))"
  have "?G(inum := ?G inum @ concat cs) = ?H" by auto
  then have "\<exists>u D'. for_each cs (iappend inum) t = Ok () u \<and> img_ok u D' ?H T \<and> mk_freeinode u = mk_freeinode s"
    using Cons.IH [OF t(2)] Cons.prems(2-4) t(3) by (simp del: fun_upd_apply) (simp)
  moreover have "for_each (c # cs) (iappend inum) s = for_each cs (iappend inum) t" using t(1) by (simp add: andthen_def bnd_def)
  ultimately show ?case by metis
qed (auto simp: ret_def)

type_synonym host_file = "u8 list \<times> u8 list list option"

definition body :: "host_file \<Rightarrow> u8 list" where
  "body f = concat (the (snd f))"

definition file_entry :: "u32 \<Rightarrow> host_file \<Rightarrow> u8 list" where
  "file_entry k f = mk_dirent k (skip_underscore (fst f))"

definition host_ok :: "host_file \<Rightarrow> bool" where
  "host_ok f \<longleftrightarrow> 47 \<notin> set (fst f) \<and> snd f \<noteq> None \<and> length (body f) \<le> MAXFILE * BSIZE"

lemma length_mk_dirent: "length (mk_dirent k name) = 16"
proof -
  have "length (strncpy_l name DIRSIZ) = 14" by (simp add: strncpy_l_def Let_def DIRSIZ_def)
  then show ?thesis by (simp add: mk_dirent_def dirent_encode_def)
qed

lemma mk_file_ok:
  assumes ok: "img_ok s D F T" and k: "k = mk_freeinode s" "unat k < NINODES" "1 < unat k" and h: "host_ok f"
    and n: "length (F 1) + 16 \<le> MAXFILE * 512"
    and room: "nmeta + taken_blocks (F(1 := F 1 @ file_entry k f, k := body f)) (k + 1) \<le> FSSIZE"
  obtains t D' where "mk_file 1 f s = Ok () t" "img_ok t D' (F(1 := F 1 @ file_entry k f, k := body f)) (T(k := T_FILE))" "mk_freeinode t = k + 1"
proof -
  obtain chunks where c: "snd f = Some chunks" "47 \<notin> set (fst f)" "length (concat chunks) \<le> MAXFILE * 512" "body f = concat chunks"
    using h by (auto simp: host_ok_def body_def)
  obtain t1 D1 where 1: "mk_ialloc T_FILE s = Ok k t1" "img_ok t1 D1 (F(k := [])) (T(k := T_FILE))" "mk_freeinode t1 = k + 1"
    using mk_ialloc_ok [OF ok _ k(1)] k by metis
  have I: "1 \<in> inums (k + 1)" "k \<in> inums (k + 1)" "k \<noteq> 1" using k(2,3) unat_fi_Suc [of k] by (auto simp: inums_def)
  let ?G = "(F(k := []))(1 := F 1 @ file_entry k f)"
  have "taken_blocks ?G (k + 1) \<le> taken_blocks (F(1 := F 1 @ file_entry k f, k := body f)) (k + 1)" by (rule taken_mono) (use I(3) in simp_all)
  then obtain t2 D2 where 2: "iappend 1 (file_entry k f) t1 = Ok () t2" "img_ok t2 D2 ?G (T(k := T_FILE))" "mk_freeinode t2 = k + 1"
    using iappend_ok [OF 1(2), of 1 "file_entry k f"] 1(3) I n room by (auto simp: file_entry_def length_mk_dirent)
  have "?G(k := ?G k @ concat chunks) = F(1 := F 1 @ file_entry k f, k := body f)" using I(3) c(4) by (auto simp: fun_eq_iff)
  then obtain t3 D3 where "for_each chunks (iappend k) t2 = Ok () t3" "img_ok t3 D3 (F(1 := F 1 @ file_entry k f, k := body f)) (T(k := T_FILE))"
      "mk_freeinode t3 = k + 1"
    using append_chunks [OF 2(2), of k chunks] 2(3) I c(3) room by auto
  then show thesis using that [of t3 D3] 1(1) 2(1) c(1,2) by (simp add: mk_file_def bnd_def andthen_def file_entry_def)
qed

text \<open>The contents when \<open>fs\<close> get the inodes from \<open>k\<close> on.\<close>

primrec add_files :: "host_file list \<Rightarrow> u32 \<Rightarrow> (u32 \<Rightarrow> u8 list) \<Rightarrow> u32 \<Rightarrow> u8 list" where
  "add_files [] k F = F"
| "add_files (f # fs) k F = add_files fs (k + 1) (F(1 := F 1 @ file_entry k f, k := body f))"

primrec add_types :: "host_file list \<Rightarrow> u32 \<Rightarrow> (u32 \<Rightarrow> u16) \<Rightarrow> u32 \<Rightarrow> u16" where
  "add_types [] k T = T"
| "add_types (f # fs) k T = add_types fs (k + 1) (T(k := T_FILE))"

lemma add_files_mono:
  "1 < unat k \<Longrightarrow> unat k + length fs \<le> NINODES \<Longrightarrow> i \<in> inums k \<Longrightarrow> length (F i) \<le> length (add_files fs k F i)"
proof (induction fs arbitrary: k F)
  case (Cons f fs)
  have "length (F i) \<le> length ((F(1 := F 1 @ file_entry k f, k := body f)) i)" using Cons.prems(3) by (auto simp: inums_def)
  also have "\<dots> \<le> length (add_files (f # fs) k F i)"
    unfolding add_files.simps by (rule Cons.IH) (use Cons.prems unat_fi_Suc [of k] in \<open>auto simp: inums_def\<close>)
  finally show ?case .
qed simp

lemma unat_plus_len: "unat (k :: u32) + n \<le> NINODES \<Longrightarrow> unat (k + of_nat n) = unat k + n"
  by (simp add: unat_word_ariths unat_of_nat NINODES_def)

lemma mk_files_ok:
  assumes "img_ok s D F T" "k = mk_freeinode s" "1 < unat k" "unat k + length fs \<le> NINODES" "\<forall>f\<in>set fs. host_ok f"
    "length (F 1) + 16 * length fs \<le> MAXFILE * 512" "nmeta + taken_blocks (add_files fs k F) (k + of_nat (length fs)) \<le> FSSIZE"
  shows "\<exists>t D'. for_each fs (mk_file 1) s = Ok () t \<and> img_ok t D' (add_files fs k F) (add_types fs k T) \<and> mk_freeinode t = k + of_nat (length fs)"
  using assms
proof (induction fs arbitrary: s D F T k)
  case (Cons f fs)
  let ?G = "F(1 := F 1 @ file_entry k f, k := body f)"
  have u: "unat (k + 1) = unat k + 1" using Cons.prems(4) by (simp add: unat_fi_Suc)
  have kl: "k + 1 + of_nat (length fs) = k + of_nat (length (f # fs))" by simp
  have "taken_blocks ?G (k + 1) \<le> taken_blocks (add_files fs (k + 1) ?G) (k + 1 + of_nat (length fs))"
    by (rule taken_mono) (use u Cons.prems(3,4) unat_plus_len [of "k + 1" "length fs"] in \<open>simp_all add: add_files_mono del: fun_upd_apply\<close>)
  then have "nmeta + taken_blocks ?G (k + 1) \<le> FSSIZE" using Cons.prems(7) kl by simp
  then obtain t D' where t: "mk_file 1 f s = Ok () t" "img_ok t D' ?G (T(k := T_FILE))" "mk_freeinode t = k + 1"
    using mk_file_ok [OF Cons.prems(1,2) _ Cons.prems(3), of f] Cons.prems(4-6) by auto
  have len: "length (?G 1) = length (F 1) + 16" using Cons.prems(3) by (auto simp: file_entry_def length_mk_dirent)
  have "\<exists>v E. for_each fs (mk_file 1) t = Ok () v \<and> img_ok v E (add_files fs (k + 1) ?G) (add_types fs (k + 1) (T(k := T_FILE)))
      \<and> mk_freeinode v = k + 1 + of_nat (length fs)"
    by (rule Cons.IH [OF t(2) t(3) [symmetric]])
      (use Cons.prems(3-7) u len in \<open>simp_all add: add.assoc del: fun_upd_apply\<close>)
  moreover have "for_each (f # fs) (mk_file 1) s = for_each fs (mk_file 1) t" using t(1) by (simp add: andthen_def bnd_def)
  ultimately show ?case unfolding kl add_files.simps add_types.simps by metis
qed (auto simp: ret_def)

section \<open>The empty image\<close>

lemma zero_loop:
  assumes "mk_img s = (\<lambda>_. zeroes)" "mk_size s = a" "a + d \<le> FSSIZE"
  shows "for_each [a..<a + d] (\<lambda>i. wsect (of_nat i) zeroes) s = Ok () (s\<lparr>mk_size := a + d\<rparr>)"
  using assms
proof (induction d arbitrary: a s)
  case (Suc d)
  have a: "unat (of_nat a :: u32) = a" using Suc.prems(3) by (simp add: unat_of_nat FSSIZE_def)
  then have "sect (of_nat a) = of_nat a" using Suc.prems(3) by (intro sect_small) simp
  moreover have "(\<lambda>_. zeroes)(of_nat a := zeroes) = (\<lambda>_ :: u32. zeroes)" by auto
  ultimately have w: "wsect (of_nat a) zeroes s = Ok () (s\<lparr>mk_size := a + 1\<rparr>)"
    using Suc.prems(1,2) a by (simp add: wsect_def modify_def)
  have "[a..<a + Suc d] = a # [a + 1..<a + 1 + d]" by (simp add: upt_conv_Cons)
  then show ?case using Suc.IH [of "s\<lparr>mk_size := a + 1\<rparr>" "a + 1"] Suc.prems w by (simp add: andthen_def bnd_def)
qed (simp add: ret_def)

lemma empty_base: "(\<And>b. nmeta \<le> unat b \<Longrightarrow> V b = zeroes) \<Longrightarrow> base V D {} (of_nat nmeta)"
  by (simp add: base_def core_def word_le_nat_alt layout FSSIZE_def)

lemma empty_image:
  obtains s where "andthen (modify (\<lambda>s. s\<lparr>mk_sb := mkfs_sb, mk_freeblock := of_nat nmeta\<rparr>))
      (andthen (for_each [0..<FSSIZE] (\<lambda>i. wsect (of_nat i) zeroes)) (wsect 1 (sb_encode mkfs_sb))) mkst0 = Ok () s"
    "img_ok s D (\<lambda>_. []) T" "mk_freeinode s = 1"
proof -
  let ?a = "mkst0\<lparr>mk_sb := mkfs_sb, mk_freeblock := of_nat nmeta\<rparr>" and ?b = "mkst0\<lparr>mk_sb := mkfs_sb, mk_freeblock := of_nat nmeta, mk_size := FSSIZE\<rparr>"
  let ?V = "(\<lambda>_. zeroes)(1 := sb_encode mkfs_sb)" let ?s = "?b\<lparr>mk_img := ?V\<rparr>"
  have z: "for_each [0..<FSSIZE] (\<lambda>i. wsect (of_nat i) zeroes) ?a = Ok () ?b" using zero_loop [of ?a 0 FSSIZE] by (simp add: mkst0_def)
  have g: "geom ?b" by (simp add: geom_def)
  have w: "wsect 1 (sb_encode mkfs_sb) ?b = Ok () ?s" using wsect_Ok [OF g, of 1 "sb_encode mkfs_sb"] by (simp add: FSSIZE_def mkst0_def)
  have I: "inums (mk_freeinode ?s) = {}" by (auto simp: inums_def mkst0_def)
  have "disk_inode ?V i = dinode_at zeroes (dinode_off i)" if "unat i \<le> NINODES" for i
    using inode_block(2) [OF that] by (auto simp: disk_inode_def)
  moreover have "di_type (dinode_at zeroes k) = 0" for k by (simp add: dinode_at_def load16_def zeroes_def)
  ultimately have "head_ok (mk_img ?s) {}" by (simp add: head_ok_def)
  moreover have "base ?V D {} (of_nat nmeta)" by (rule empty_base) (auto simp: layout)
  moreover have "geom ?s" using g by simp
  moreover have "unat (mk_freeblock ?s) = nmeta + taken_blocks (\<lambda>_. []) (mk_freeinode ?s)" unfolding taken_blocks_def I by (simp add: layout)
  moreover have "mk_freeinode ?s = 1" "mk_freeblock ?s = of_nat nmeta" "mk_img ?s = ?V" by (simp_all add: mkst0_def)
  ultimately have "img_ok ?s D (\<lambda>_. []) T" using I unfolding img_ok_def disk_inodes_def by (simp add: NINODES_def)
  then show thesis using that [of ?s] z w by (simp add: andthen_def bnd_def modify_def mkst0_def)
qed

section \<open>The root directory's size and the bitmap\<close>

lemma set_bits:
  "bit_used (fold (\<lambda>i d. d(i div 8 := d (i div 8) OR bitmask i)) [0..<n] zeroes) b \<longleftrightarrow> b < n"
proof (induction n)
  case 0
  show ?case by (simp add: bit_used_def zeroes_def)
next
  case (Suc n)
  then show ?case by (simp add: bit_used_set less_Suc_eq del: fun_upd_apply)
qed

lemma mk_balloc_Ok:
  assumes "geom s" "unat (b :: u32) \<le> FSSIZE"
  shows "\<exists>d. mk_balloc (sint b) s = Ok () (s\<lparr>mk_img := (mk_img s)(58 := d)\<rparr>) \<and> (\<forall>k. bit_used d k \<longleftrightarrow> k < unat b)"
proof -
  have u: "sint b = int (unat b)" using assms(2) by (intro sint_unat_small) (simp add: FSSIZE_def)
  then have lt: "sint b < int BSIZE * 8" "nat (sint b) = unat b" using assms(2) by (simp_all only: BSIZE_512 FSSIZE_def)
  have "unat (58 :: u32) < FSSIZE" by (simp add: FSSIZE_def)
  then show ?thesis using wsect_Ok [OF assms(1), of 58] assms(1) lt set_bits [of "unat b"]
    by (auto simp: mk_balloc_def geom_def mkfs_sb_vals bnd_def fetch_def Let_def)
qed

lemma file_ok_cong: "D' i = D i \<Longrightarrow> file_ok V D' i f ty = file_ok V D i f ty"
  using slots_addrs [of D' i D V] by (simp add: file_ok_def sized_def)

definition root_size :: "nat \<Rightarrow> u32" where
  "root_size n = of_nat ((n div 512 + 1) * 512)"

lemma root_size_word: "unat (k :: u32) = n \<Longrightarrow> n \<le> MAXFILE * 512 \<Longrightarrow> (k div 512 + 1) * 512 = root_size n"
proof -
  assume k: "unat k = n" "n \<le> MAXFILE * 512"
  then have "unat (k div 512) = n div 512" by (simp add: unat_div)
  then have "k div 512 = of_nat (n div 512)" by (metis of_nat_unat ucast_id)
  then show ?thesis by (simp add: root_size_def)
qed

lemma root_size_unat: "n \<le> MAXFILE * 512 \<Longrightarrow> unat (root_size n) = (n div 512 + 1) * 512"
proof -
  assume n: "n \<le> MAXFILE * 512"
  have "(n div 512 + 1) * 512 \<le> n + 512" by (simp add: div_times_less_eq_dividend)
  also have "n + 512 < 2 ^ 32" using n by (simp add: limits)
  finally show ?thesis unfolding root_size_def by (simp only: unat_of_nat len_num1 len_bit0 mod_less) simp
qed

lemma finish_ok:
  assumes ok: "img_ok s D F T" and i: "1 \<in> inums (mk_freeinode s)"
  obtains t where "andthen (fix_root 1) (bnd (fetch mk_freeblock) (\<lambda>b. mk_balloc (sint b))) s = Ok () t"
    "mk_freeblock t = mk_freeblock s" "head_ok (mk_img t) (inums (mk_freeinode s))"
    "base (mk_img t) (disk_inode (mk_img t)) (inums (mk_freeinode s)) (mk_freeblock s)"
    "\<And>j. j \<in> inums (mk_freeinode s) \<Longrightarrow> j \<noteq> 1 \<Longrightarrow> file_ok (mk_img t) (disk_inode (mk_img t)) j (F j) (T j)"
    "content (mk_img t) (disk_inode (mk_img t)) 1 (length (F 1)) = F 1"
    "disk_inode (mk_img t) 1 = (D 1)\<lparr>di_size := root_size (length (F 1))\<rparr>"
    "\<And>k. bit_used (mk_img t 58) k \<longleftrightarrow> k < unat (mk_freeblock s)"
proof -
  note K = img_okD [OF ok] and R = file_okD [OF img_okD(4) [OF ok i]]
  let ?I = "inums (mk_freeinode s)" and ?d = "(D 1)\<lparr>di_size := root_size (length (F 1))\<rparr>" and ?b = "IBLOCK 1 mkfs_sb"
  let ?t = "s\<lparr>mk_img := (mk_img s)(?b := dinode_put (mk_img s ?b) (dinode_off 1) ?d)\<rparr>"
  have n: "unat (1 :: u32) \<le> NINODES" by (simp add: NINODES_def)
  have "rinode 1 s = Ok (D 1) s" using rinode_Ok [OF K(1) n] K(2) i by (simp add: disk_inodes_def)
  then have fx: "fix_root 1 s = Ok () ?t"
    using winode_Ok [OF K(1) n] root_size_word [OF R(4,2)] by (simp add: fix_root_def bnd_def Let_def)
  obtain bm where bm: "mk_balloc (sint (mk_freeblock s)) ?t = Ok () (?t\<lparr>mk_img := (mk_img ?t)(58 := bm)\<rparr>)"
      "\<And>k. bit_used bm k \<longleftrightarrow> k < unat (mk_freeblock s)"
    using mk_balloc_Ok [of ?t "mk_freeblock s"] K(1) baseD(5) [OF K(3)] by auto
  let ?V = "(mk_img ?t)(58 := bm)" and ?D = "D(1 := ?d)"
  have len: "length (di_addrs ?d) = NDIRECT + 1" using baseD(2) [OF K(3) i] by simp
  have dk: "disk_inode ?V j = (if j = 1 then ?d else disk_inode (mk_img s) j)" if "unat j \<le> NINODES" for j
    using winode_disk [OF len, of "mk_img s" 1 j] inode_block(3) [OF that] by (auto simp: disk_inode_def)
  then have dI: "disk_inode ?V j = ?D j" if "j \<in> ?I" for j using K(2) that inums_le [OF that K(7)] by (simp add: disk_inodes_def)
  have m: "unat ?b < nmeta" "unat (58 :: u32) < nmeta" using inode_block(1) [OF n] by (simp_all add: layout)
  have b0: "base (mk_img s) ?D ?I (mk_freeblock s)" by (rule base_addrs [OF K(3)]) simp
  have b1: "base (mk_img ?t) ?D ?I (mk_freeblock s)" using meta_write(2) [OF b0 m(1)] by simp
  have "base ?V ?D ?I (mk_freeblock s)" by (rule meta_write(2) [OF b1 m(2) refl])
  then have b2: "base ?V (disk_inode ?V) ?I (mk_freeblock s)" by (rule base_addrs) (simp only: dI)
  have fo: "file_ok ?V (disk_inode ?V) j (F j) (T j)" if j: "j \<in> ?I" "j \<noteq> 1" for j
  proof -
    have "file_ok (mk_img s) ?D j (F j) (T j)" using K(4) [OF j(1)] file_ok_cong [of ?D j D] j(2) by simp
    then have "file_ok (mk_img ?t) ?D j (F j) (T j)" using file_ok_meta [OF b0 m(1) j(1)] by simp
    then have "file_ok ?V ?D j (F j) (T j)" by (rule file_ok_meta [OF b1 m(2) j(1)])
    then show ?thesis using file_ok_cong [of "disk_inode ?V" j ?D] dI [OF j(1)] by blast
  qed
  have rt: "file_ok (mk_img ?t) D 1 (F 1) (T 1)" using file_ok_meta [OF K(3) m(1) i K(4) [OF i]] by simp
  have "base (mk_img ?t) D ?I (mk_freeblock s)" using meta_write(2) [OF K(3) m(1)] by simp
  then have "file_ok ?V D 1 (F 1) (T 1)" using rt by (rule file_ok_meta [OF _ m(2) i])
  then have "content ?V D 1 (length (F 1)) = F 1" by (rule file_okD(3))
  then have "content ?V (disk_inode ?V) 1 (length (F 1)) = F 1" using slots_addrs(2) [of "disk_inode ?V" 1 D] dI [OF i] by simp
  moreover have "head_ok ?V ?I" using K(8) i dk inode_block(2) [OF n] by (auto simp: head_ok_def)
  ultimately show thesis
    using that [of "?t\<lparr>mk_img := ?V\<rparr>"] fx bm b2 fo dI [OF i] by (simp add: andthen_def bnd_def fetch_def)
qed

section \<open>The whole program\<close>

lemma add_files_other: "unat k + length fs \<le> NINODES \<Longrightarrow> i \<in> inums k \<Longrightarrow> i \<noteq> 1 \<Longrightarrow> add_files fs k F i = F i"
proof (induction fs arbitrary: k F)
  case (Cons f fs)
  then have "i \<in> inums (k + 1)" "i \<noteq> k" using unat_fi_Suc [of k] by (auto simp: inums_def)
  then show ?case using Cons unat_fi_Suc [of k] by simp
qed simp

lemma add_files_at:
  "1 < unat k \<Longrightarrow> unat k + length fs \<le> NINODES \<Longrightarrow> j < length fs \<Longrightarrow> add_files fs k F (k + of_nat j) = body (fs ! j)"
proof (induction fs arbitrary: k F j)
  case (Cons f fs)
  have u: "unat (k + 1) = unat k + 1" using Cons.prems(2) unat_fi_Suc [of k] by simp
  show ?case
  proof (cases j)
    case 0
    have "k \<in> inums (k + 1)" "k \<noteq> 1" using u Cons.prems(1) by (auto simp: inums_def)
    then show ?thesis using 0 u Cons.prems add_files_other [of "k + 1" fs k] by simp
  next
    case (Suc m)
    then show ?thesis using Cons.IH [of "k + 1" m] Cons.prems u by (simp add: add.assoc)
  qed
qed simp

lemma add_files_root:
  "1 < unat k \<Longrightarrow> unat k + length fs \<le> NINODES \<Longrightarrow>
     add_files fs k F 1 = F 1 @ concat (map (\<lambda>j. file_entry (k + of_nat j) (fs ! j)) [0..<length fs])"
proof (induction fs arbitrary: k F)
  case (Cons f fs)
  have u: "unat (k + 1) = unat k + 1" "k \<noteq> 1" using Cons.prems unat_fi_Suc [of k] by auto
  have "map (\<lambda>j. file_entry (k + of_nat j) ((f # fs) ! j)) [0..<length (f # fs)] = file_entry k f # map (\<lambda>j. file_entry (k + 1 + of_nat j) (fs ! j)) [0..<length fs]"
    by (rule nth_equalityI) (auto simp: nth_Cons' add.assoc algebra_simps simp del: upt_Suc)
  then show ?case using Cons.IH [of "k + 1"] Cons.prems u by simp
qed simp

lemma add_types_other: "unat k + length fs \<le> NINODES \<Longrightarrow> i \<in> inums k \<Longrightarrow> add_types fs k T i = T i"
proof (induction fs arbitrary: k T)
  case (Cons f fs)
  then have "i \<in> inums (k + 1)" "i \<noteq> k" using unat_fi_Suc [of k] by (auto simp: inums_def)
  then show ?case using Cons unat_fi_Suc [of k] by simp
qed simp

lemma add_types_at:
  "1 < unat k \<Longrightarrow> unat k + length fs \<le> NINODES \<Longrightarrow> j < length fs \<Longrightarrow> add_types fs k T (k + of_nat j) = T_FILE"
proof (induction fs arbitrary: k T j)
  case (Cons f fs)
  have u: "unat (k + 1) = unat k + 1" using Cons.prems(2) unat_fi_Suc [of k] by simp
  show ?case
  proof (cases j)
    case 0
    have "k \<in> inums (k + 1)" using u Cons.prems(1) by (auto simp: inums_def)
    then show ?thesis using 0 u Cons.prems add_types_other [of "k + 1" fs k] by simp
  next
    case (Suc m)
    then show ?thesis using Cons.IH [of "k + 1" m] Cons.prems u by (simp add: add.assoc)
  qed
qed simp

lemma add_files_taken:
  "1 < unat k \<Longrightarrow> unat k + length fs \<le> NINODES \<Longrightarrow> taken_blocks (add_files fs k F) (k + of_nat (length fs)) + need (length (F 1))
     = taken_blocks F k + need (length (F 1) + 16 * length fs) + (\<Sum>f\<leftarrow>fs. need (length (body f)))"
proof (induction fs arbitrary: k F)
  case (Cons f fs)
  have u: "unat (k + 1) = unat k + 1" "k \<noteq> 1" using Cons.prems unat_fi_Suc [of k] by auto
  let ?F = "F(1 := F 1 @ file_entry k f)" let ?G = "?F(k := body f)"
  have len: "length (?G 1) = length (F 1) + 16" using u(2) by (simp add: file_entry_def length_mk_dirent)
  have I: "inums (k + 1) = insert k (inums k)" "k \<notin> inums k" "1 \<in> inums k"
    using inums_Suc [of k] Cons.prems by (simp_all add: inums_def)
  have "(\<Sum>i\<in>inums k. need (length (?G i))) = taken_blocks ?F k" unfolding taken_blocks_def by (rule sum.cong) (use I(2) in auto)
  then have "taken_blocks ?G (k + 1) = need (length (body f)) + taken_blocks ?F k" unfolding taken_blocks_def [of ?G] I(1) using I(2) by simp
  moreover have "taken_blocks ?F k + need (length (F 1)) = taken_blocks F k + need (length (F 1) + 16)"
    using taken_upd [OF I(3), of F "F 1 @ file_entry k f"] by (simp add: file_entry_def length_mk_dirent)
  moreover have "taken_blocks (add_files fs (k + 1) ?G) (k + 1 + of_nat (length fs)) + need (length (?G 1))
      = taken_blocks ?G (k + 1) + need (length (?G 1) + 16 * length fs) + (\<Sum>f\<leftarrow>fs. need (length (body f)))"
    by (rule Cons.IH) (use Cons.prems u in simp_all)
  ultimately show ?case unfolding len by (simp add: add.assoc del: fun_upd_apply)
qed simp

lemma sb_decode_encode: "sb_decode (sb_encode sb) = sb"
  by (simp add: sb_decode_def sb_encode_def load32_store32_other)

definition root_bytes :: "host_file list \<Rightarrow> u8 list" where
  "root_bytes files = mk_dirent 1 [46] @ mk_dirent 1 [46, 46]
     @ concat (map (\<lambda>j. mk_dirent (of_nat (j + 2)) (skip_underscore (fst (files ! j)))) [0..<length files])"

lemma length_root_bytes: "length (root_bytes files) = 16 * (length files + 2)"
proof -
  have "length (concat (map (\<lambda>j. mk_dirent (g j) (h j)) [0..<n])) = 16 * n" for g h n by (induction n) (simp_all add: length_mk_dirent)
  then show ?thesis by (simp add: root_bytes_def length_mk_dirent)
qed

lemma root_ready:
  assumes s0: "img_ok s0 D0 (\<lambda>_. []) (\<lambda>_. 0)" "mk_freeinode s0 = 1"
  obtains s D where "bnd (mk_ialloc T_DIR) (\<lambda>rootino. if rootino \<noteq> ROOTINO then panic ''assert'' else
     andthen (iappend rootino (mk_dirent rootino [46])) (andthen (iappend rootino (mk_dirent rootino [46, 46])) (k rootino))) s0 = k 1 s"
    "img_ok s D ((\<lambda>_. [])(1 := mk_dirent 1 [46] @ mk_dirent 1 [46, 46])) ((\<lambda>_. 0)(1 := T_DIR))" "mk_freeinode s = 2"
proof -
  let ?F = "(\<lambda>_. [])(1 := []) :: u32 \<Rightarrow> u8 list" and ?T = "(\<lambda>_. 0)(1 := T_DIR) :: u32 \<Rightarrow> u16" let ?a = "mk_dirent 1 [46]" and ?b = "mk_dirent 1 [46, 46]"
  have I: "inums 2 = {1}" by (auto simp: inums_def word_unat_eq_iff)
  have tk: "taken_blocks G 2 = need (length (G 1))" for G by (simp add: taken_blocks_def I)
  have nd: "need 16 = 1" "need 32 = 1" by (simp_all add: need_def)
  obtain s1 D1 where 1: "mk_ialloc T_DIR s0 = Ok 1 s1" "img_ok s1 D1 ?F ?T" "mk_freeinode s1 = 2"
    using mk_ialloc_ok [OF s0(1), of 1 T_DIR] s0(2) by (auto simp: NINODES_def)
  have r: "1 \<in> inums (mk_freeinode s1)" "length (?F 1) + length ?a \<le> MAXFILE * 512"
      "nmeta + taken_blocks (?F(1 := ?F 1 @ ?a)) (mk_freeinode s1) \<le> FSSIZE"
    using 1(3) by (simp_all add: I tk nd length_mk_dirent limits layout)
  obtain s2 D2 where 2: "iappend 1 ?a s1 = Ok () s2" "img_ok s2 D2 (?F(1 := ?F 1 @ ?a)) ?T" "mk_freeinode s2 = 2"
    using iappend_ok [OF 1(2) r] 1(3) by metis
  let ?G = "?F(1 := ?F 1 @ ?a)"
  have r: "1 \<in> inums (mk_freeinode s2)" "length (?G 1) + length ?b \<le> MAXFILE * 512"
      "nmeta + taken_blocks (?G(1 := ?G 1 @ ?b)) (mk_freeinode s2) \<le> FSSIZE"
    using 2(3) by (simp_all add: I tk nd length_mk_dirent limits layout)
  obtain s3 D3 where 3: "iappend 1 ?b s2 = Ok () s3" "img_ok s3 D3 (?G(1 := ?G 1 @ ?b)) ?T" "mk_freeinode s3 = 2"
    using iappend_ok [OF 2(2) r] 2(3) by metis
  have "?G(1 := ?G 1 @ ?b) = (\<lambda>_. [])(1 := ?a @ ?b)" by auto
  then show thesis using that [of s3 D3] 1(1) 2(1) 3 by (simp add: bnd_def andthen_def ROOTINO_def)
qed

lemma andthen_regroup: "andthen a (andthen b c) s = Ok () t \<Longrightarrow> andthen a (andthen b (andthen c d)) s = d t"
  by (auto simp: andthen_def bnd_def split: outcome.splits)

lemma inums_upto: "n + 2 \<le> NINODES \<Longrightarrow> inums (2 + of_nat n) = {i. 1 \<le> unat i \<and> unat i \<le> n + 1}"
  using unat_plus_len [of 2 n] by (auto simp: inums_def)

text \<open>What the kernel finds in an image whose inodes \<open>1\<close> and \<open>2\<close> to \<open>n + 1\<close> are the root directory and \<open>n\<close> files.\<close>

definition holds_files :: "(u32 \<Rightarrow> block) \<Rightarrow> host_file list \<Rightarrow> bool" where
  "holds_files V files \<longleftrightarrow> (\<forall>j<length files. let d = disk_inode V (of_nat (j + 2)); f = body (files ! j) in
     di_type d = T_FILE \<and> di_nlink d = 1 \<and> unat (di_size d) = length f \<and> map (fbyte V (mem_inode d)) [0..<length f] = f)"

definition holds_root :: "(u32 \<Rightarrow> block) \<Rightarrow> host_file list \<Rightarrow> bool" where
  "holds_root V files \<longleftrightarrow> (let d = disk_inode V ROOTINO; n = length (root_bytes files) in
     di_type d = T_DIR \<and> di_nlink d = 1 \<and> unat (di_size d) = (n div BSIZE + 1) * BSIZE
     \<and> map (fbyte V (mem_inode d)) [0..<n] = root_bytes files)"

definition blocks_needed :: "host_file list \<Rightarrow> nat" where
  "blocks_needed files = nmeta + need (length (root_bytes files)) + (\<Sum>f\<leftarrow>files. need (length (body f)))"

lemma final_files:
  assumes ok: "img_ok s D F T" "mk_freeinode s = 2 + of_nat (length files)" and n: "length files + 2 \<le> NINODES"
    and F: "F = add_files files 2 F0" "T = add_types files 2 T0"
    and f: "\<And>j. j \<in> inums (mk_freeinode s) \<Longrightarrow> j \<noteq> 1 \<Longrightarrow> file_ok V (disk_inode V) j (F j) (T j)"
  shows "holds_files V files"
  unfolding holds_files_def
proof (intro allI impI)
  fix j assume j: "j < length files"
  let ?i = "of_nat (j + 2) :: u32"
  have u: "unat ?i = j + 2" using j n unat_plus_len [of 2 j] by (simp add: add.commute)
  then have "?i \<noteq> 1" by (simp only: word_unat_eq_iff) simp
  moreover have "?i \<in> inums (mk_freeinode s)" using u j n ok(2) by (simp add: inums_upto del: of_nat_add)
  moreover have "F ?i = body (files ! j)" "T ?i = T_FILE"
    using add_files_at [of 2 files j F0] add_types_at [of 2 files j T0] j n F by simp_all
  ultimately have fo: "file_ok V (disk_inode V) ?i (body (files ! j)) T_FILE" using f [of ?i] by metis
  show "let d = disk_inode V ?i; f = body (files ! j) in
     di_type d = T_FILE \<and> di_nlink d = 1 \<and> unat (di_size d) = length f \<and> map (fbyte V (mem_inode d)) [0..<length f] = f"
    using file_okD [OF fo] by (simp add: content_def Let_def)
qed

text \<open>
  C7: Given fewer than \<open>199\<close> files whose names hold no slash, which can be opened, are no longer than \<^verbatim>\<open>MAXFILE\<close> blocks
  and together fit the disk, \<^verbatim>\<open>mkfs\<close> ends normally, and the image is a file system for the kernel: the superblock
  decodes to the layout, the log is empty, inode 1 is the root directory with an entry for itself, its parent and
  every file in order, inode \<open>j + 2\<close> is the \<open>j\<close>-th file with its size and exactly its bytes, every other inode is
  free, the bitmap marks exactly the blocks in use, and no block belongs to two places.  The root's size is rounded
  up past its last entry by at least one byte.
\<close>

theorem mkfs_correct:
  assumes files: "\<forall>f\<in>set files. host_ok f" and n: "length files + 2 \<le> NINODES" and room: "blocks_needed files \<le> FSSIZE"
  shows "\<exists>t. mkfs files mkst0 = Ok () t
     \<and> sb_decode (mk_img t 1) = mkfs_sb \<and> hdr_n (mk_img t (sb_logstart mkfs_sb)) = 0
     \<and> holds_root (mk_img t) files \<and> holds_files (mk_img t) files
     \<and> (\<forall>i. length files + 2 \<le> unat i \<and> unat i < NINODES \<longrightarrow> di_type (disk_inode (mk_img t) i) = 0)
     \<and> (\<forall>b. bit_used (mk_img t (sb_bmapstart mkfs_sb)) b \<longleftrightarrow> b < blocks_needed files)
     \<and> core (slots (mk_img t) (disk_inode (mk_img t))) {i. 1 \<le> unat i \<and> unat i \<le> length files + 1} (of_nat (blocks_needed files))"
proof -
  let ?n = "length files" and ?A = "(\<lambda>_. [])(1 := mk_dirent 1 [46] @ mk_dirent 1 [46, 46]) :: u32 \<Rightarrow> u8 list"
  let ?B = "(\<lambda>_. 0)(1 := T_DIR) :: u32 \<Rightarrow> u16" let ?F = "add_files files 2 ?A" and ?T = "add_types files 2 ?B"
  have k: "1 < unat (2 :: u32)" "unat (2 :: u32) + ?n \<le> NINODES" using n by simp_all
  have F1: "?F 1 = root_bytes files" using add_files_root [OF k, of ?A] by (simp add: root_bytes_def file_entry_def add.commute)
  have I2: "inums 2 = {1}" by (auto simp: inums_def word_unat_eq_iff)
  have tk: "nmeta + taken_blocks ?F (2 + of_nat ?n) = blocks_needed files"
    using add_files_taken [OF k, of ?A] by (simp add: taken_blocks_def I2 length_mk_dirent blocks_needed_def length_root_bytes)
  obtain s0 where s0: "andthen (modify (\<lambda>s. s\<lparr>mk_sb := mkfs_sb, mk_freeblock := of_nat nmeta\<rparr>))
      (andthen (for_each [0..<FSSIZE] (\<lambda>i. wsect (of_nat i) zeroes)) (wsect 1 (sb_encode mkfs_sb))) mkst0 = Ok () s0"
      "img_ok s0 (\<lambda>_. fresh_dinode 0) (\<lambda>_. []) (\<lambda>_. 0)" "mk_freeinode s0 = 1" using empty_image by blast
  define rest where "rest r = andthen (for_each files (mk_file r)) (andthen (fix_root r) (bnd (fetch mk_freeblock) (\<lambda>b. mk_balloc (sint b))))" for r
  obtain s D where s: "bnd (mk_ialloc T_DIR) (\<lambda>rootino. if rootino \<noteq> ROOTINO then panic ''assert'' else
     andthen (iappend rootino (mk_dirent rootino [46])) (andthen (iappend rootino (mk_dirent rootino [46, 46])) (rest rootino))) s0 = rest 1 s"
      "img_ok s D ?A ?B" "mk_freeinode s = 2" by (rule root_ready [OF s0(2,3), of rest])
  have len: "length (?A 1) + 16 * ?n \<le> MAXFILE * 512" using n by (simp add: length_mk_dirent NINODES_def limits)
  obtain u E where u: "for_each files (mk_file 1) s = Ok () u" "img_ok u E ?F ?T" "mk_freeinode u = 2 + of_nat ?n"
    using mk_files_ok [OF s(2) s(3) [symmetric] k files len room [folded tk]] by blast
  have i: "1 \<in> inums (mk_freeinode u)" using u(3) n by (simp add: inums_upto)
  obtain t where t: "andthen (fix_root 1) (bnd (fetch mk_freeblock) (\<lambda>b. mk_balloc (sint b))) u = Ok () t"
    "mk_freeblock t = mk_freeblock u" "head_ok (mk_img t) (inums (mk_freeinode u))"
    "base (mk_img t) (disk_inode (mk_img t)) (inums (mk_freeinode u)) (mk_freeblock u)"
    "\<And>j. j \<in> inums (mk_freeinode u) \<Longrightarrow> j \<noteq> 1 \<Longrightarrow> file_ok (mk_img t) (disk_inode (mk_img t)) j (?F j) (?T j)"
    "content (mk_img t) (disk_inode (mk_img t)) 1 (length (?F 1)) = ?F 1"
    "disk_inode (mk_img t) 1 = (E 1)\<lparr>di_size := root_size (length (?F 1))\<rparr>"
    "\<And>k. bit_used (mk_img t 58) k \<longleftrightarrow> k < unat (mk_freeblock u)" using finish_ok [OF u(2) i] by blast
  have "rest 1 s = Ok () t" using t(1) u(1) by (simp add: rest_def andthen_def bnd_def)
  then have run: "mkfs files mkst0 = Ok () t"
    unfolding mkfs_def using s(1) by (subst andthen_regroup [OF s0(1)]) (simp only: rest_def)
  have fb: "unat (mk_freeblock u) = blocks_needed files" using img_okD(5) [OF u(2)] u(3) tk by simp
  then have fb': "mk_freeblock u = of_nat (blocks_needed files)" by (metis of_nat_unat ucast_id)
  have hd: "sb_decode (mk_img t 1) = mkfs_sb" "hdr_n (mk_img t (sb_logstart mkfs_sb)) = 0"
    using t(3) by (simp_all add: head_ok_def sb_decode_encode mkfs_sb_def hdr_n_def load_zeroes)
  have "di_type (E 1) = T_DIR \<and> di_nlink (E 1) = 1" using file_okD(5,6) [OF img_okD(4) [OF u(2) i]] add_types_other [OF k(2), of 1 ?B] by (simp add: I2)
  then have rt: "holds_root (mk_img t) files"
    using t(6,7) F1 root_size_unat [of "length (root_bytes files)"] length_root_bytes [of files] n unfolding holds_root_def
    by (simp add: content_def ROOTINO_def NINODES_def limits Let_def)
  have free: "di_type (disk_inode (mk_img t) i) = 0" if "?n + 2 \<le> unat i" "unat i < NINODES" for i
    using t(3) that n u(3) by (simp add: head_ok_def inums_upto)
  show ?thesis
    using run hd rt free final_files [OF u(2,3) n refl refl t(5)] t(8) fb baseD(1) [OF t(4)] fb' u(3) n
    by (intro exI [of _ t]) (simp add: mkfs_sb_vals inums_upto)
qed

definition demo_files :: "host_file list" where
  "demo_files = [([95, 97], Some [[1, 2], [3]]), ([98], Some [])]"

theorem mkfs_correct_witness:
  "\<exists>t. mkfs demo_files mkst0 = Ok () t \<and> sb_decode (mk_img t 1) = mkfs_sb \<and> holds_root (mk_img t) demo_files
     \<and> holds_files (mk_img t) demo_files \<and> (\<forall>b. bit_used (mk_img t 58) b \<longleftrightarrow> b < 61)"
proof -
  have len: "length (root_bytes demo_files) = 64" by (simp add: length_root_bytes demo_files_def)
  have b: "blocks_needed demo_files = 61" unfolding blocks_needed_def len by (simp add: demo_files_def body_def need_def layout)
  have "\<forall>f\<in>set demo_files. host_ok f" by (simp add: demo_files_def host_ok_def body_def limits)
  moreover have "length demo_files + 2 \<le> NINODES" "blocks_needed demo_files \<le> FSSIZE" by (simp_all add: b, simp_all add: demo_files_def NINODES_def FSSIZE_def)
  ultimately show ?thesis using mkfs_correct [of demo_files] by (auto simp: b mkfs_sb_vals)
qed

end
