(* ===== verification/Fspath.thy ===== *)
theory Fspath
  imports Fs
begin

text \<open>
  The inode cache (\<^verbatim>\<open>iget\<close>, \<^verbatim>\<open>idup\<close>, \<^verbatim>\<open>iput\<close>), path parsing and directory entries of \<^verbatim>\<open>fs.c\<close>.
\<close>

section \<open>The inode cache\<close>

interpretation ino_lock: sleeplock_field "ino_lock_rd ip" "ino_lock_wr ip" for ip
  by unfold_locales (simp_all add: ino_lock_rd_def ino_lock_wr_def)

lemmas ino_defs = ino_get_def ino_upd_def

text \<open>No inode is cached twice.\<close>

definition icache_ok :: "'z fsst_scheme \<Rightarrow> bool" where
  "icache_ok s \<longleftrightarrow> (\<forall>i<NINODE. i_ref (f_inode s i) \<ge> 0)
     \<and> (\<forall>i<NINODE. \<forall>j<NINODE. i_ref (f_inode s i) > 0 \<and> i_ref (f_inode s j) > 0
          \<and> i_dev (f_inode s i) = i_dev (f_inode s j) \<and> i_inum (f_inode s i) = i_inum (f_inode s j) \<longrightarrow> i = j)"

lemma icache_okD:
  assumes "icache_ok s"
  shows "i < NINODE \<Longrightarrow> i_ref (f_inode s i) \<ge> 0"
    and "i < NINODE \<Longrightarrow> j < NINODE \<Longrightarrow> i_ref (f_inode s i) > 0 \<Longrightarrow> i_ref (f_inode s j) > 0
       \<Longrightarrow> i_dev (f_inode s i) = i_dev (f_inode s j) \<Longrightarrow> i_inum (f_inode s i) = i_inum (f_inode s j) \<Longrightarrow> i = j"
  using assms unfolding icache_ok_def by blast+

lemma icache_upd:
  assumes ok: "icache_ok s" and t: "f_inode t = (f_inode s)(k := x)" and r: "i_ref x \<ge> 0"
    and u: "\<And>j. j < NINODE \<Longrightarrow> j \<noteq> k \<Longrightarrow> i_ref (f_inode s j) > 0 \<Longrightarrow> i_dev (f_inode s j) = i_dev x
       \<Longrightarrow> i_inum (f_inode s j) = i_inum x \<Longrightarrow> i_ref x \<le> 0"
  shows "icache_ok t"
  unfolding icache_ok_def
proof (intro conjI allI impI)
  fix i
  assume "i < NINODE"
  then show "i_ref (f_inode t i) \<ge> 0" using icache_okD(1) [OF ok] r t by simp
next
  fix i j
  assume i: "i < NINODE" and j: "j < NINODE" and h: "i_ref (f_inode t i) > 0 \<and> i_ref (f_inode t j) > 0
     \<and> i_dev (f_inode t i) = i_dev (f_inode t j) \<and> i_inum (f_inode t i) = i_inum (f_inode t j)"
  show "i = j"
  proof (cases "i = k \<or> j = k")
    case True
    then show ?thesis using h u [OF i] u [OF j] t by (cases "i = k"; cases "j = k") auto
  next
    case False
    then show ?thesis using h icache_okD(2) [OF ok i j] t by simp
  qed
qed

lemma iget_hit_Some:
  "iget_hit dev inum is = Some k \<Longrightarrow> k < NINODE \<and> i_ref (is k) > 0 \<and> i_dev (is k) = dev \<and> i_inum (is k) = inum"
  unfolding iget_hit_def by (auto dest: find_Some_set)

lemma iget_hit_None:
  "iget_hit dev inum is = None \<longleftrightarrow> (\<forall>k<NINODE. \<not> (i_ref (is k) > 0 \<and> i_dev (is k) = dev \<and> i_inum (is k) = inum))"
  unfolding iget_hit_def find_None_iff_set by auto

lemma iget_empty_Some: "iget_empty is = Some k \<Longrightarrow> k < NINODE \<and> i_ref (is k) = 0"
  unfolding iget_empty_def by (auto dest: find_Some_set)

lemma iget_empty_None: "iget_empty is = None \<longleftrightarrow> (\<forall>k<NINODE. i_ref (is k) \<noteq> 0)"
  unfolding iget_empty_def find_None_iff_set by auto

section \<open>Path elements\<close>

text \<open>The elements of a path: the maximal non-empty runs of bytes other than the slash.\<close>

fun split_slash :: "u8 list \<Rightarrow> u8 list list" where
  "split_slash [] = [[]]"
| "split_slash (c # cs) =
     (if c = slash then [] # split_slash cs
      else case split_slash cs of [] \<Rightarrow> [[c]] | e # es \<Rightarrow> (c # e) # es)"

definition path_elems :: "u8 list \<Rightarrow> u8 list list" where
  "path_elems p = filter (\<lambda>e. e \<noteq> []) (split_slash p)"

lemma split_slash_ne: "split_slash p \<noteq> []"
  by (cases p) (auto split: list.split)

lemma split_slash_prefix:
  "slash \<notin> set a \<Longrightarrow> split_slash (a @ b) = (a @ hd (split_slash b)) # tl (split_slash b)"
proof (induction a)
  case Nil
  then show ?case using split_slash_ne [of b] by simp
next
  case (Cons c a)
  then show ?case by auto
qed

lemma path_elems_slash [simp]: "path_elems (slash # p) = path_elems p"
  by (simp add: path_elems_def)

lemma path_elems_drop: "path_elems (dropWhile (\<lambda>c. c = slash) p) = path_elems p"
  by (induction p) auto

lemma path_elems_Nil [simp]: "path_elems [] = []"
  by (simp add: path_elems_def)

lemma path_elems_step:
  assumes "slash \<notin> set a" "a \<noteq> []" "b = [] \<or> (\<exists>c. b = slash # c)"
  shows "path_elems (a @ b) = a # path_elems b"
  using assms by (auto simp: path_elems_def split_slash_prefix)

lemma path_elems_head:
  assumes "p \<noteq> []" "hd p \<noteq> slash"
  shows "path_elems p = takeWhile (\<lambda>c. c \<noteq> slash) p # path_elems (dropWhile (\<lambda>c. c \<noteq> slash) p)"
proof -
  let ?a = "takeWhile (\<lambda>c. c \<noteq> slash) p" and ?b = "dropWhile (\<lambda>c. c \<noteq> slash) p"
  have "slash \<notin> set ?a" by (auto dest: set_takeWhileD)
  moreover have "?a \<noteq> []" using assms by (cases p) auto
  moreover have "?b = [] \<or> (\<exists>c. ?b = slash # c)"
    using hd_dropWhile [of "\<lambda>c. c \<noteq> slash" p] by (cases ?b) auto
  ultimately show ?thesis using path_elems_step [of ?a ?b] by simp
qed

lemma path_elems_empty_iff: "p = [] \<or> hd p \<noteq> slash \<Longrightarrow> path_elems p = [] \<longleftrightarrow> p = []"
  using path_elems_head by (cases p) auto

section \<open>Properties\<close>

text \<open>
  \<^verbatim>\<open>iget\<close> on every branch: a cached inode gets one more reference; an inode that is not cached
  takes a free entry, with one reference and nothing loaded; without a free entry it panics.  All
  other entries are untouched, the lock is released, and no inode is ever cached twice.
\<close>

theorem iget_correct:
  assumes "icache_ok s" "IcacheLock \<notin> set (k_held s)"
  shows "case iget_hit dev inum (f_inode s) of
     Some k \<Rightarrow> iget dev inum s = Ok k (s\<lparr>f_inode := (f_inode s)(k := (f_inode s k)\<lparr>i_ref := i_ref (f_inode s k) + 1\<rparr>)\<rparr>)
       \<and> icache_ok (s\<lparr>f_inode := (f_inode s)(k := (f_inode s k)\<lparr>i_ref := i_ref (f_inode s k) + 1\<rparr>)\<rparr>)
   | None \<Rightarrow> if \<forall>k<NINODE. i_ref (f_inode s k) \<noteq> 0 then iget dev inum s = Panic ''iget: no inodes''
       else \<exists>k t. iget dev inum s = Ok k t \<and> k < NINODE \<and> i_ref (f_inode s k) = 0
         \<and> i_dev (f_inode t k) = dev \<and> i_inum (f_inode t k) = inum \<and> i_ref (f_inode t k) = 1 \<and> \<not> i_valid (f_inode t k)
         \<and> (\<forall>j. j \<noteq> k \<longrightarrow> f_inode t j = f_inode s j) \<and> icache_ok t"
proof (cases "iget_hit dev inum (f_inode s)")
  case (Some k)
  have "icache_ok (s\<lparr>f_inode := (f_inode s)(k := (f_inode s k)\<lparr>i_ref := i_ref (f_inode s k) + 1\<rparr>)\<rparr>)"
  proof (rule icache_upd [OF assms(1)])
    fix j
    assume "j < NINODE" "j \<noteq> k" "i_ref (f_inode s j) > 0"
      "i_dev (f_inode s j) = i_dev ((f_inode s k)\<lparr>i_ref := i_ref (f_inode s k) + 1\<rparr>)"
      "i_inum (f_inode s j) = i_inum ((f_inode s k)\<lparr>i_ref := i_ref (f_inode s k) + 1\<rparr>)"
    then show "i_ref ((f_inode s k)\<lparr>i_ref := i_ref (f_inode s k) + 1\<rparr>) \<le> 0"
      using icache_okD(2) [OF assms(1), of j k] iget_hit_Some [OF Some] by simp
  qed (use iget_hit_Some [OF Some] in simp_all)
  then show ?thesis using Some assms(2) by (simp add: iget_def ino_defs kdefs)
next
  case None
  show ?thesis
  proof (cases "iget_empty (f_inode s)")
    case e: None
    then have "\<forall>k<NINODE. i_ref (f_inode s k) \<noteq> 0" by (simp add: iget_empty_None)
    then show ?thesis using None e assms(2) by (simp add: iget_def kdefs)
  next
    case (Some k)
    note k = iget_empty_Some [OF Some]
    let ?t = "s\<lparr>f_inode := (f_inode s)(k := (f_inode s k)\<lparr>i_dev := dev, i_inum := inum, i_ref := 1, i_valid := False\<rparr>)\<rparr>"
    have "iget dev inum s = Ok k ?t" using None Some assms(2) by (simp add: iget_def ino_defs kdefs)
    moreover have "icache_ok ?t"
      by (rule icache_upd [OF assms(1)]) (use None in \<open>auto simp: iget_hit_None\<close>)
    moreover have "\<not> (\<forall>k<NINODE. i_ref (f_inode s k) \<noteq> 0)" using k by blast
    ultimately show ?thesis using None k by (simp del: not_all)
  qed
qed

theorem iget_correct_witness:
  "\<exists>k t. iget 1 5 (fsst0 (\<lambda>_ _. 0) 1000) = Ok k t \<and> i_inum (f_inode t k) = 5 \<and> i_ref (f_inode t k) = 1"
proof -
  let ?s = "fsst0 (\<lambda>_ _. 0) 1000"
  have I: "f_inode ?s k = inode0" "k_held ?s = []" for k
    by (simp_all add: fsst0_def lst.defs lst0_def bst.defs bst0_def kst.defs kst0_def)
  then have "icache_ok ?s" "iget_hit 1 5 (f_inode ?s) = None" by (simp_all add: icache_ok_def iget_hit_None inode0_def)
  note A = this
  have nf: "\<not> (\<forall>k<NINODE. i_ref (f_inode ?s k) \<noteq> 0)"
    by (auto simp: I inode0_def NINODE_def intro: exI [of _ 0])
  have "IcacheLock \<notin> set (k_held ?s)" by (simp add: I)
  from iget_correct [OF A(1) this, of 1 5] show ?thesis unfolding A(2) option.case if_not_P [OF nf] by blast
qed

text \<open>
  \<^verbatim>\<open>skipelem\<close> splits off exactly the first element of the path, cut to \<^verbatim>\<open>DIRSIZ\<close> bytes, and
  returns the rest without leading slashes, so that the rest is empty exactly when no element is
  left; it returns 0 exactly for a path without elements.
\<close>

theorem skipelem_correct:
  "case skipelem path of
     None \<Rightarrow> path_elems path = []
   | Some (name, rest) \<Rightarrow> (\<exists>e. path_elems path = e # path_elems rest \<and> name = take DIRSIZ e)
       \<and> (rest = [] \<longleftrightarrow> path_elems rest = [])"
proof (cases "dropWhile (\<lambda>c. c = slash) path = []")
  case True
  then have "path_elems path = []" using path_elems_drop [of path] by (simp only: path_elems_Nil)
  then show ?thesis using True by (simp add: skipelem_def)
next
  case False
  let ?p = "dropWhile (\<lambda>c. c = slash) path"
  let ?e = "takeWhile (\<lambda>c. c \<noteq> slash) ?p" and ?r = "dropWhile (\<lambda>c. c \<noteq> slash) ?p"
  let ?rest = "dropWhile (\<lambda>c. c = slash) ?r"
  have h: "hd ?p \<noteq> slash" using hd_dropWhile [OF False] .
  have "path_elems path = ?e # path_elems ?rest"
    using path_elems_head [OF False h] by (simp add: path_elems_drop)
  moreover have "skipelem path = Some (take DIRSIZ ?e, ?rest)"
    using False by (simp add: skipelem_def Let_def)
  moreover have "?rest = [] \<or> hd ?rest \<noteq> slash" using hd_dropWhile [of "\<lambda>c. c = slash" ?r] by blast
  ultimately show ?thesis using path_elems_empty_iff [of ?rest] by auto
qed

theorem skipelem_correct_witness:
  "skipelem [47, 47, 97, 47, 47, 98, 98] = Some ([97], [98, 98]) \<and> path_elems [47, 47, 97, 47, 47, 98, 98] = [[97], [98, 98]]"
  using skipelem_correct [of "[47, 47, 97, 47, 47, 98, 98]"]
  by (simp add: skipelem_def slash_def path_elems_def DIRSIZ_def)

text \<open>a directory entry written with a full name field is read back as it was written.\<close>

theorem dirent_roundtrip:
  assumes "length (de_name de) = DIRSIZ"
  shows "dirent_decode (dirent_encode de) = de \<and> length (dirent_encode de) = DIRENT_SIZE"
  using assms split16 [of "de_inum de"]
  by (simp add: dirent_decode_def dirent_encode_def load16_def DIRSIZ_def DIRENT_SIZE_def)

theorem dirent_roundtrip_witness:
  "dirent_decode (dirent_encode \<lparr>de_inum = 7, de_name = strncpy_l [46] 14\<rparr>) = \<lparr>de_inum = 7, de_name = strncpy_l [46] 14\<rparr>"
  using dirent_roundtrip [of "\<lparr>de_inum = 7, de_name = strncpy_l [46] 14\<rparr>"] by (simp add: strncpy_l_def DIRSIZ_def)

end
