(* ===== verification/Kalloc.thy ===== *)
theory Kalloc
  imports Fs
begin

text \<open>
  The physical page allocator of \<^verbatim>\<open>kalloc.c\<close>: the free list is threaded through the free pages
  themselves.  \<open>m_mem\<close> is memory by kernel virtual address (the direct map above
  \<^verbatim>\<open>KERNBASE\<close>); \<open>m_end\<close> and \<open>m_data\<close> are the linker symbols \<^verbatim>\<open>end\<close> and \<^verbatim>\<open>data\<close>.  The abstract
  view is a list of free pages; the locale \<open>page_allocator\<close> states what its clients rely on.
\<close>

section \<open>State and operations\<close>

record mst = fsst +
  m_mem :: mem
  m_use_lock :: bool
  m_freelist :: u32
  m_end :: u32
  m_data :: u32

definition mem_upd :: "(mem \<Rightarrow> mem) \<Rightarrow> (unit, 'z mst_scheme) kop" where
  "mem_upd f = modify (\<lambda>s. s\<lparr>m_mem := f (m_mem s)\<rparr>)"

definition mem_ld :: "u32 \<Rightarrow> (u32, 'z mst_scheme) kop" where
  "mem_ld a = fetch (\<lambda>s. load32 (m_mem s) a)"

definition PGROUNDUP :: "u32 \<Rightarrow> u32" where
  "PGROUNDUP sz = (sz + PGSIZE - 1) AND NOT (PGSIZE - 1)"

definition PGROUNDDOWN :: "u32 \<Rightarrow> u32" where
  "PGROUNDDOWN a = a AND NOT (PGSIZE - 1)"

definition kfree :: "u32 \<Rightarrow> (unit, 'z mst_scheme) kop" where
  "kfree v =
     bnd (fetch m_end) (\<lambda>kend. if v mod PGSIZE \<noteq> 0 \<or> v < kend \<or> V2P v \<ge> PHYSTOP then panic ''kfree'' else
     andthen (mem_upd (\<lambda>m. memset m v 1 PGSIZE))
     (bnd (fetch m_use_lock) (\<lambda>ul.
     andthen (whenk ul (acquire KmemLock))
     (bnd (fetch m_freelist) (\<lambda>fl.
     andthen (mem_upd (\<lambda>m. store32 m v fl))
     (andthen (modify (\<lambda>s. s\<lparr>m_freelist := v\<rparr>))
     (whenk ul (release KmemLock))))))))"

definition kalloc :: "(u32, 'z mst_scheme) kop" where
  "kalloc =
     bnd (fetch m_use_lock) (\<lambda>ul.
     andthen (whenk ul (acquire KmemLock))
     (bnd (fetch m_freelist) (\<lambda>r.
     andthen (whenk (r \<noteq> 0) (bnd (mem_ld r) (\<lambda>nxt. modify (\<lambda>s. s\<lparr>m_freelist := nxt\<rparr>))))
     (andthen (whenk ul (release KmemLock))
     (ret r)))))"

lemma V2P_lt:
  assumes "V2P p < PHYSTOP"
  shows "unat p < 0x8E000000" "0x80000000 \<le> unat p" "unat (p + PGSIZE) = unat p + 4096"
proof -
  have d: "unat (p - 0x80000000) < 0xE000000"
    using assms by (simp add: V2P_def PHYSTOP_def KERNBASE_def word_less_nat_alt)
  have "unat p < 2 ^ 32" using unsigned_less [of p, where 'a = nat] by simp
  then show "unat p < 0x8E000000" "0x80000000 \<le> unat p"
    using d by (auto simp: unat_sub_if' split: if_splits)
  then show "unat (p + PGSIZE) = unat p + 4096"
    by (subst unat_add_small) (simp_all add: PGSIZE_def)
qed

lemma kfree_bound:
  assumes "kfree p s = Ok u t"
  shows "V2P p < PHYSTOP" "\<not> p < m_end s" "p mod PGSIZE = 0"
  using assms by (auto simp: kfree_def kdefs not_le split: if_splits)

function freerange_loop :: "u32 \<Rightarrow> u32 \<Rightarrow> (unit, 'z mst_scheme) kop" where
  "freerange_loop p vend s =
     (if p + PGSIZE \<le> vend then
        (case kfree p s of Ok u t \<Rightarrow> freerange_loop (p + PGSIZE) vend t
         | Panic e \<Rightarrow> Panic e | Blocked t \<Rightarrow> Blocked t)
      else Ok () s)"
  by pat_completeness auto
termination
proof (relation "measure (\<lambda>(p, vend, s). 2 ^ 32 - unat p)")
  fix p vend :: u32 and s u t
  assume "kfree p s = Ok u (t :: 'z mst_scheme)"
  then have "unat (p + PGSIZE) = unat p + 4096" using V2P_lt(3) [OF kfree_bound(1)] by blast
  moreover have "unat (p + PGSIZE) < 2 ^ 32" using unsigned_less [of "p + PGSIZE", where 'a = nat] by simp
  ultimately show "((p + PGSIZE, vend, t), p, vend, s) \<in> measure (\<lambda>(p, vend, s). 2 ^ 32 - unat p)"
    by auto
qed simp

declare freerange_loop.simps [simp del]

definition freerange :: "u32 \<Rightarrow> u32 \<Rightarrow> (unit, 'z mst_scheme) kop" where
  "freerange vstart vend = freerange_loop (PGROUNDUP vstart) vend"

definition kinit1 :: "u32 \<Rightarrow> u32 \<Rightarrow> (unit, 'z mst_scheme) kop" where
  "kinit1 vstart vend = andthen (modify (\<lambda>s. s\<lparr>m_use_lock := False\<rparr>)) (freerange vstart vend)"

definition kinit2 :: "u32 \<Rightarrow> u32 \<Rightarrow> (unit, 'z mst_scheme) kop" where
  "kinit2 vstart vend = andthen (freerange vstart vend) (modify (\<lambda>s. s\<lparr>m_use_lock := True\<rparr>))"

section \<open>Pages\<close>

definition kpage :: "u32 \<Rightarrow> u32 \<Rightarrow> bool" where
  "kpage kend p \<longleftrightarrow> p mod PGSIZE = 0 \<and> \<not> p < kend \<and> V2P p < PHYSTOP"

lemma kpage_nonzero: "kpage e p \<Longrightarrow> p \<noteq> 0"
  using V2P_lt(2) [of p] by (auto simp: kpage_def)

lemma page_mod: "(p :: u32) mod PGSIZE = 0 \<longleftrightarrow> unat p mod 4096 = 0"
  by (simp add: PGSIZE_def unat_mod word_unat_eq_iff)

lemma page_end: "unat (p :: u32) mod 4096 = 0 \<Longrightarrow> unat p + 4096 \<le> 2 ^ 32"
proof -
  assume a: "unat p mod 4096 = 0"
  have "unat p < 2 ^ 32" using unsigned_less [of p, where 'a = nat] by simp
  moreover obtain k where "unat p = 4096 * k" using a by (auto simp: mod_eq_0_iff_dvd)
  ultimately show ?thesis by simp
qed

lemma page_off: "unat (p :: u32) mod 4096 = 0 \<Longrightarrow> i < 4096 \<Longrightarrow> unat (p + of_nat i) = unat p + i"
  using page_end [of p] by (intro unat_off) simp

lemma page_disjoint:
  assumes "unat (p :: u32) mod 4096 = 0" "unat q mod 4096 = 0" "p \<noteq> q" "i < 4096" "j < 4096"
  shows "p + of_nat i \<noteq> q + of_nat j"
proof
  assume "p + of_nat i = q + of_nat j"
  then have "unat p + i = unat q + j" using page_off assms by metis
  moreover have "unat p = 4096 * (unat p div 4096)" "unat q = 4096 * (unat q div 4096)"
    using assms by (metis add.right_neutral mult_div_mod_eq)+
  ultimately have "unat p div 4096 = unat q div 4096" using assms(4,5) by linarith
  then show False using assms(1-3) \<open>unat p = _\<close> \<open>unat q = _\<close> by (metis word_unat_eq_iff)
qed

lemma mask_page: "(0xFFF :: u32) = mask 12"
  by (simp add: mask_eq_exp_minus_1)

lemma and_not_page: "(a :: u32) AND NOT 0xFFF = push_bit 12 (drop_bit 12 a)"
  unfolding mask_page by (intro bit_word_eqI) (auto simp: bit_simps)

lemma unat_drop_page: "unat (drop_bit 12 (a :: u32)) = unat a div 4096"
proof -
  have "drop_bit 12 a = a div 4096" by (simp add: drop_bit_eq_div)
  then show ?thesis by (simp add: unat_div)
qed

lemma unat_and_not_page: "unat ((a :: u32) AND NOT 0xFFF) = unat a div 4096 * 4096"
proof -
  have "unat a < 2 ^ 32" using unsigned_less [of a, where 'a = nat] by simp
  then have "unat a div 4096 * 4096 < 2 ^ 32" by (meson div_times_less_eq_dividend le_less_trans)
  then show ?thesis
    unfolding and_not_page push_bit_eq_mult by (subst unat_word_ariths) (simp add: unat_drop_page)
qed

lemma unat_and_page: "unat ((a :: u32) AND 0xFFF) = unat a mod 4096"
proof -
  have "a AND 0xFFF = a mod 4096" unfolding mask_page take_bit_eq_mask [symmetric] by (simp add: take_bit_eq_mod)
  then show ?thesis by (simp only: unat_mod) simp
qed

lemma PGSIZE_mask: "PGSIZE - 1 = 0xFFF"
  by (simp add: PGSIZE_def)

lemma unat_PGROUNDDOWN: "unat (PGROUNDDOWN a) = unat a div 4096 * 4096"
  unfolding PGROUNDDOWN_def PGSIZE_mask by (rule unat_and_not_page)

lemma unat_PGROUNDUP:
  assumes "unat a + 4095 < 2 ^ 32"
  shows "unat (PGROUNDUP a) = (unat a + 4095) div 4096 * 4096"
proof -
  have "unat (a + 0xFFF) = unat a + 4095" by (subst unat_add_small) (use assms in simp_all)
  moreover have "a + PGSIZE - 1 = a + 0xFFF" by (simp add: PGSIZE_def)
  ultimately show ?thesis unfolding PGROUNDUP_def PGSIZE_mask unat_and_not_page by (simp only:)
qed

lemma PGROUNDDOWN_le: "PGROUNDDOWN a \<le> a"
  by (simp add: word_le_nat_alt unat_PGROUNDDOWN)

lemma unat_page_off: "unat (a - PGROUNDDOWN a) = unat a mod 4096"
  using unat_sub_small [OF PGROUNDDOWN_le [of a]] by (simp add: unat_PGROUNDDOWN minus_div_mult_eq_mod)

lemma page_load32:
  assumes "\<And>i. i < 4 \<Longrightarrow> m (p + of_nat i) = m' (p + of_nat i)"
  shows "load32 m (p :: u32) = load32 m' p"
  using assms [of 0] assms [of 1] assms [of 2] assms [of 3] by (intro load32_cong) simp_all

lemma store32_page_other:
  assumes "unat (v :: u32) mod 4096 = 0" "unat p mod 4096 = 0" "p \<noteq> v" "i < 4096"
  shows "store32 m v x (p + of_nat i) = m (p + of_nat i)"
  using page_disjoint [OF assms(2,1,3,4), of 0] page_disjoint [OF assms(2,1,3,4), of 1]
    page_disjoint [OF assms(2,1,3,4), of 2] page_disjoint [OF assms(2,1,3,4), of 3]
  by (simp add: store32_def)

lemma memset_page_other:
  assumes "unat (v :: u32) mod 4096 = 0" "unat p mod 4096 = 0" "p \<noteq> v" "i < 4096"
  shows "memset m v c PGSIZE (p + of_nat i) = m (p + of_nat i)"
proof -
  have "\<not> in_range v 4096 (p + of_nat i)"
    using page_disjoint [OF assms(2,1,3,4)] by (auto simp: in_range_def)
  then show ?thesis by (simp add: memset_val PGSIZE_def)
qed

section \<open>The interface of an allocator\<close>

text \<open>
  A client that allocates pages and frees those it owns, in any order: \<open>Rfree k\<close> frees the
  \<open>k\<close>-th page it owns.  The result is the list of pages it owns at the end.
\<close>

datatype req = Ralloc | Rfree nat

fun serve :: "'p \<Rightarrow> ('p, 's) kop \<Rightarrow> ('p \<Rightarrow> (unit, 's) kop) \<Rightarrow> req list \<Rightarrow> 'p list \<Rightarrow> ('p list, 's) kop" where
  "serve nul alloc free [] own = ret own"
| "serve nul alloc free (Ralloc # rs) own =
     bnd alloc (\<lambda>p. serve nul alloc free rs (if p = nul then own else p # own))"
| "serve nul alloc free (Rfree k # rs) own =
     (if k < length own then andthen (free (own ! k)) (serve nul alloc free rs (take k own @ drop (Suc k) own))
      else serve nul alloc free rs own)"

locale page_allocator =
  fixes rep :: "'s \<Rightarrow> 'p list \<Rightarrow> bool"
    and valid :: "'s \<Rightarrow> 'p \<Rightarrow> bool"
    and nul :: 'p
    and alloc :: "('p, 's) kop"
    and free :: "'p \<Rightarrow> (unit, 's) kop"
  assumes alloc_Cons: "rep s (p # ps) \<Longrightarrow> \<exists>t. alloc s = Ok p t \<and> rep t ps \<and> valid t = valid s"
    and alloc_Nil: "rep s [] \<Longrightarrow> \<exists>t. alloc s = Ok nul t \<and> rep t [] \<and> valid t = valid s"
    and free_Cons: "rep s ps \<Longrightarrow> valid s p \<Longrightarrow> p \<notin> set ps
      \<Longrightarrow> \<exists>t. free p s = Ok () t \<and> rep t (p # ps) \<and> valid t = valid s"
    and rep_valid: "rep s ps \<Longrightarrow> p \<in> set ps \<Longrightarrow> valid s p"
    and rep_distinct: "rep s ps \<Longrightarrow> distinct ps"
    and nul_invalid: "\<not> valid s nul"
begin

lemma serve_sound:
  assumes "rep s ps" "distinct (own @ ps)" "\<forall>p\<in>set own. valid s p"
  shows "\<exists>own' t ps'. serve nul alloc free rs own s = Ok own' t \<and> rep t ps'
    \<and> distinct (own' @ ps') \<and> set (own' @ ps') = set (own @ ps)"
  using assms
proof (induction rs arbitrary: s own ps)
  case Nil
  then show ?case by (auto simp: ret_def)
next
  case (Cons r rs)
  show ?case
  proof (cases r)
    case Ralloc
    show ?thesis
    proof (cases ps)
      case Nil
      obtain t where t: "alloc s = Ok nul t" "rep t []" "valid t = valid s"
        using alloc_Nil Cons.prems(1) Nil by blast
      have "\<exists>own' u ps'. serve nul alloc free rs own t = Ok own' u \<and> rep u ps'
          \<and> distinct (own' @ ps') \<and> set (own' @ ps') = set (own @ [])"
        using Cons.IH [OF t(2), of own] Cons.prems t(3) by simp
      then show ?thesis using Ralloc Nil t(1) by (simp add: bnd_def)
    next
      case (Cons p qs)
      obtain t where t: "alloc s = Ok p t" "rep t qs" "valid t = valid s"
        using alloc_Cons Cons.prems(1) Cons by blast
      have v: "valid s p" using rep_valid [OF Cons.prems(1)] Cons by simp
      then have n: "p \<noteq> nul" using nul_invalid by auto
      have "\<exists>own' u ps'. serve nul alloc free rs (p # own) t = Ok own' u \<and> rep u ps'
          \<and> distinct (own' @ ps') \<and> set (own' @ ps') = set ((p # own) @ qs)"
        by (rule Cons.IH [OF t(2)]) (use Cons.prems Cons t(3) v in auto)
      then show ?thesis using Ralloc Cons t(1) n by (simp add: bnd_def)
    qed
  next
    case (Rfree k)
    show ?thesis
    proof (cases "k < length own")
      case True
      let ?own = "take k own @ drop (Suc k) own"
      have own: "own = take k own @ own ! k # drop (Suc k) own" using True by (rule id_take_nth_drop)
      have "distinct ((take k own @ own ! k # drop (Suc k) own) @ ps)"
        using Cons.prems(2) own by simp
      then have d: "distinct (?own @ own ! k # ps)" by auto
      have so: "set own = insert (own ! k) (set ?own)" using arg_cong [OF own, of set] by simp
      obtain t where t: "free (own ! k) s = Ok () t" "rep t (own ! k # ps)" "valid t = valid s"
        using free_Cons [OF Cons.prems(1), of "own ! k"] Cons.prems(3) d True by auto
      have "\<exists>own' u ps'. serve nul alloc free rs ?own t = Ok own' u \<and> rep u ps'
          \<and> distinct (own' @ ps') \<and> set (own' @ ps') = set (?own @ own ! k # ps)"
        by (rule Cons.IH [OF t(2) d]) (use Cons.prems(3) t(3) so in auto)
      then show ?thesis using Rfree True t(1) so by (simp add: andthen_def bnd_def Un_assoc)
    next
      case False
      then show ?thesis using Cons Rfree by simp
    qed
  qed
qed

end

section \<open>The free list in memory\<close>

fun flist :: "mem \<Rightarrow> u32 \<Rightarrow> u32 list \<Rightarrow> bool" where
  "flist m r [] = (r = 0)"
| "flist m r (p # ps) = (r = p \<and> flist m (load32 m p) ps)"

definition kmem_rep :: "'z mst_scheme \<Rightarrow> u32 list \<Rightarrow> bool" where
  "kmem_rep s ps \<longleftrightarrow> flist (m_mem s) (m_freelist s) ps \<and> distinct ps \<and> (\<forall>p\<in>set ps. kpage (m_end s) p)
     \<and> KmemLock \<notin> set (k_held s)"

lemma kpage_mod: "kpage e p \<Longrightarrow> unat p mod 4096 = 0"
  by (simp add: kpage_def page_mod)

lemma flist_cong:
  assumes "\<And>p. p \<in> set ps \<Longrightarrow> load32 m' p = load32 m p"
  shows "flist m' r ps = flist m r ps"
  using assms by (induction ps arbitrary: r) auto

lemma kfree_result:
  assumes "KmemLock \<notin> set (k_held s)" "kpage (m_end s) v"
  shows "kfree v s = Ok () (s\<lparr>m_mem := store32 (memset (m_mem s) v 1 PGSIZE) v (m_freelist s), m_freelist := v\<rparr>)"
  using assms by (auto simp: kfree_def kpage_def kdefs mem_upd_def not_le)

lemma kfree_page_frame:
  assumes "unat (v :: u32) mod 4096 = 0" "unat p mod 4096 = 0" "p \<noteq> v" "i < 4096"
  shows "store32 (memset m v 1 PGSIZE) v x (p + of_nat i) = m (p + of_nat i)"
  using assms by (simp add: store32_page_other memset_page_other)

lemma kmem_rep_kfree:
  assumes r: "kmem_rep s ps" and v: "kpage (m_end s) v" "v \<notin> set ps"
  shows "\<exists>t. kfree v s = Ok () t \<and> kmem_rep t (v # ps) \<and> m_end t = m_end s
    \<and> (\<forall>p i. unat p mod 4096 = 0 \<and> p \<noteq> v \<and> i < 4096 \<longrightarrow> m_mem t (p + of_nat i) = m_mem s (p + of_nat i))"
proof -
  let ?m = "store32 (memset (m_mem s) v 1 PGSIZE) v (m_freelist s)"
  have f: "?m (p + of_nat i) = m_mem s (p + of_nat i)" if "unat p mod 4096 = 0" "p \<noteq> v" "i < 4096" for p i
    by (rule kfree_page_frame [OF kpage_mod [OF v(1)] that])
  have "load32 ?m p = load32 (m_mem s) p" if "p \<in> set ps" for p
  proof (rule page_load32)
    have "kpage (m_end s) p" "p \<noteq> v" using r v that by (auto simp: kmem_rep_def)
    then show "?m (p + of_nat i) = m_mem s (p + of_nat i)" if "i < 4" for i :: nat
      using f [OF kpage_mod, of "m_end s" p i] that by simp
  qed
  then have "flist ?m (m_freelist s) ps" using r flist_cong [of ps ?m "m_mem s"] by (simp add: kmem_rep_def)
  then show ?thesis using r v f by (simp add: kfree_result kmem_rep_def)
qed

lemma kmem_rep_kalloc:
  assumes "kmem_rep s (p # ps)"
  shows "\<exists>t. kalloc s = Ok p t \<and> kmem_rep t ps \<and> t = s\<lparr>m_freelist := load32 (m_mem s) p\<rparr>"
proof -
  have "p \<noteq> 0" using assms kpage_nonzero by (auto simp: kmem_rep_def)
  then show ?thesis using assms by (auto simp: kalloc_def kmem_rep_def kdefs mem_ld_def)
qed

lemma kmem_rep_kalloc_empty: "kmem_rep s [] \<Longrightarrow> kalloc s = Ok 0 s"
  by (auto simp: kalloc_def kmem_rep_def kdefs)

interpretation kmem: page_allocator kmem_rep "\<lambda>s. kpage (m_end s)" 0 kalloc kfree
proof
  show "\<exists>t. kalloc s = Ok p t \<and> kmem_rep t ps \<and> kpage (m_end t) = kpage (m_end s)"
    if "kmem_rep s (p # ps)" for s :: "'a mst_scheme" and p ps
    using kmem_rep_kalloc [OF that] by auto
  show "\<exists>t. kalloc s = Ok 0 t \<and> kmem_rep t [] \<and> kpage (m_end t) = kpage (m_end s)"
    if "kmem_rep s []" for s :: "'a mst_scheme"
    using kmem_rep_kalloc_empty [OF that] that by auto
  show "\<exists>t. kfree p s = Ok () t \<and> kmem_rep t (p # ps) \<and> kpage (m_end t) = kpage (m_end s)"
    if "kmem_rep s ps" "kpage (m_end s) p" "p \<notin> set ps" for s :: "'a mst_scheme" and p ps
    using kmem_rep_kfree [OF that] by auto
qed (auto simp: kmem_rep_def dest: kpage_nonzero)

section \<open>Properties\<close>

text \<open>
  C13: the allocator refines a pool of pages: from any well-formed free list, every sequence of
  \<^verbatim>\<open>kalloc\<close> calls and of \<^verbatim>\<open>kfree\<close> calls on pages the client owns runs without panic, never hands
  out a page that is already owned or still free, and loses no page.
\<close>

theorem kalloc_kfree_sound:
  assumes "kmem_rep s ps"
  shows "\<exists>own t ps'. serve 0 kalloc kfree reqs [] s = Ok own t \<and> kmem_rep t ps'
    \<and> distinct (own @ ps') \<and> set (own @ ps') = set ps"
  using kmem.serve_sound [OF assms, of "[]" reqs] assms by (simp add: kmem_rep_def)

definition mst0 :: "(u32 \<Rightarrow> block) \<Rightarrow> u32 \<Rightarrow> u32 \<Rightarrow> mst" where
  "mst0 disk sz kend = fsst.extend (fsst0 disk sz)
     \<lparr>m_mem = (\<lambda>_. 0), m_use_lock = False, m_freelist = 0, m_end = kend, m_data = kend\<rparr>"

lemma mst0_sel [simp]:
  "m_mem (mst0 d n e) = (\<lambda>_. 0)" "m_freelist (mst0 d n e) = 0" "m_end (mst0 d n e) = e"
  "k_held (mst0 d n e) = []" "m_use_lock (mst0 d n e) = False"
  by (simp_all add: mst0_def fsst.defs fsst0_def lst.defs lst0_def bst.defs bst0_def kst.defs kst0_def)

theorem kalloc_kfree_sound_witness:
  "\<exists>own t ps'. serve 0 kalloc kfree [Ralloc, Rfree 0, Ralloc]
       [] ((mst0 (\<lambda>_ _. 0) 1000 0x80200000)\<lparr>m_freelist := 0x80400000\<rparr>) = Ok own t
     \<and> distinct (own @ ps') \<and> set (own @ ps') = {0x80400000}"
proof -
  have "kmem_rep ((mst0 (\<lambda>_ _. 0) 1000 0x80200000)\<lparr>m_freelist := 0x80400000\<rparr>) [0x80400000]"
    by (simp add: kmem_rep_def kpage_def PGSIZE_def V2P_def KERNBASE_def PHYSTOP_def load32_def)
  from kalloc_kfree_sound [OF this, of "[Ralloc, Rfree 0, Ralloc]"] show ?thesis by auto
qed

end
