(* ===== verification/Vm.thy ===== *)
theory Vm
  imports Kalloc Proc
begin

text \<open>
  Two-level page tables of \<^verbatim>\<open>vm.c\<close>, kept in memory as the hardware reads them: \<^verbatim>\<open>walkpgdir\<close>,
  \<^verbatim>\<open>mappages\<close>, the construction, growth, shrinking, copying and freeing of address spaces, and the
  copies into user memory.  A null pointer is 0.  \<open>translate\<close> is what the paging hardware does;
  kernel accesses below \<^verbatim>\<open>KERNBASE\<close> go through it and fault where nothing is mapped.
\<close>

section \<open>Entries and indices (mmu.h)\<close>

definition PDX :: "u32 \<Rightarrow> u32" where "PDX va = drop_bit 22 va AND 0x3FF"
definition PTX :: "u32 \<Rightarrow> u32" where "PTX va = drop_bit 12 va AND 0x3FF"
definition PGADDR :: "u32 \<Rightarrow> u32 \<Rightarrow> u32 \<Rightarrow> u32" where
  "PGADDR d t off = (push_bit 22 d OR push_bit 12 t OR off)"
definition PTE_P :: u32 where "PTE_P = 1"
definition PTE_W :: u32 where "PTE_W = 2"
definition PTE_U :: u32 where "PTE_U = 4"
definition PTE_ADDR :: "u32 \<Rightarrow> u32" where "PTE_ADDR pte = pte AND NOT 0xFFF"
definition PTE_FLAGS :: "u32 \<Rightarrow> u32" where "PTE_FLAGS pte = pte AND 0xFFF"
definition NPDENTRIES :: nat where "NPDENTRIES = 1024"
definition KERNLINK :: u32 where "KERNLINK = KERNBASE + EXTMEM"

section \<open>Kernel accesses through the hardware\<close>

definition translate :: "mem \<Rightarrow> u32 \<Rightarrow> u32 \<Rightarrow> u32 option" where
  "translate m pgdir va =
     (let pde = load32 m (pgdir + 4 * PDX va) in
      if pde AND PTE_P = 0 then None
      else let pte = load32 m (P2V (PTE_ADDR pde) + 4 * PTX va) in
      if pte AND PTE_P = 0 then None else Some (P2V (PTE_ADDR pte) + (va AND 0xFFF)))"

definition kaddr :: "'z mst_scheme \<Rightarrow> u32 \<Rightarrow> u32 option" where
  "kaddr s va = (if KERNBASE \<le> va then Some va else translate (m_mem s) (P2V (k_cr3 s)) va)"

text \<open>A word read through a pointer of any value.\<close>

definition kload32 :: "u32 \<Rightarrow> (u32, 'z mst_scheme) kop" where
  "kload32 va = bnd (fetch (\<lambda>s. kaddr s va)) (\<lambda>a. case a of None \<Rightarrow> panic ''trap'' | Some k \<Rightarrow> mem_ld k)"

section \<open>Page tables\<close>

definition walkpgdir :: "u32 \<Rightarrow> u32 \<Rightarrow> bool \<Rightarrow> (u32, 'z mst_scheme) kop" where
  "walkpgdir pgdir va alloc =
     (let pde = pgdir + 4 * PDX va in
     bnd (mem_ld pde) (\<lambda>e.
     if e AND PTE_P \<noteq> 0 then ret (P2V (PTE_ADDR e) + 4 * PTX va)
     else if \<not> alloc then ret 0
     else bnd kalloc (\<lambda>pgtab. if pgtab = 0 then ret 0 else
     andthen (mem_upd (\<lambda>m. memset m pgtab 0 PGSIZE))
     (andthen (mem_upd (\<lambda>m. store32 m pde (V2P pgtab OR PTE_P OR PTE_W OR PTE_U)))
     (ret (pgtab + 4 * PTX va))))))"

text \<open>
  The loop of \<^verbatim>\<open>mappages\<close> ends at \<^verbatim>\<open>a == last\<close>.  Both are page aligned, so the distance is a multiple
  of the page size and the second test never decides; it makes the function total.
\<close>

function map_loop :: "u32 \<Rightarrow> u32 \<Rightarrow> u32 \<Rightarrow> u32 \<Rightarrow> u32 \<Rightarrow> (int, 'z mst_scheme) kop" where
  "map_loop pgdir a la pa perm =
     bnd (walkpgdir pgdir a True) (\<lambda>pte. if pte = 0 then ret (- 1) else
     bnd (mem_ld pte) (\<lambda>e. if e AND PTE_P \<noteq> 0 then panic ''remap'' else
     andthen (mem_upd (\<lambda>m. store32 m pte (pa OR perm OR PTE_P)))
     (if a = la \<or> la - a < PGSIZE then ret 0
      else map_loop pgdir (a + PGSIZE) la (pa + PGSIZE) perm)))"
  by pat_completeness auto
termination
proof (relation "measure (\<lambda>(pgdir, a, la, pa, perm). unat (la - a))")
  fix pgdir a la pa perm :: u32
  assume "\<not> (a = la \<or> la - a < PGSIZE)"
  then have "4096 \<le> unat (la - a)" by (simp add: PGSIZE_def word_less_nat_alt)
  then have "unat (la - a - PGSIZE) = unat (la - a) - 4096"
    by (subst unat_sub_small) (simp_all add: PGSIZE_def word_le_nat_alt)
  moreover have "la - (a + PGSIZE) = la - a - PGSIZE" by simp
  ultimately show "((pgdir, a + PGSIZE, la, pa + PGSIZE, perm), pgdir, a, la, pa, perm)
      \<in> measure (\<lambda>(pgdir, a, la, pa, perm). unat (la - a))"
    using \<open>4096 \<le> unat (la - a)\<close> by (simp only: in_measure prod.case)
qed simp

declare map_loop.simps [simp del]

definition mappages :: "u32 \<Rightarrow> u32 \<Rightarrow> u32 \<Rightarrow> u32 \<Rightarrow> u32 \<Rightarrow> (int, 'z mst_scheme) kop" where
  "mappages pgdir va sz pa perm =
     map_loop pgdir (PGROUNDDOWN va) (PGROUNDDOWN (va + sz - 1)) pa perm"

section \<open>Shrinking and freeing\<close>

text \<open>
  The \<^verbatim>\<open>for\<close> loop of \<^verbatim>\<open>deallocuvm\<close>: without a page table it goes on at the next directory entry.
  Its callers pass sizes up to \<^verbatim>\<open>KERNBASE\<close>, where the address never wraps (\<open>dealloc_next_gt\<close>); the test
  \<open>nxt \<le> a\<close> makes the function total.
\<close>

definition dealloc_next :: "u32 \<Rightarrow> u32 \<Rightarrow> u32" where
  "dealloc_next pte a = (if pte = 0 then PGADDR (PDX a + 1) 0 0 - PGSIZE else a) + PGSIZE"

definition dealloc_page :: "u32 \<Rightarrow> (unit, 'z mst_scheme) kop" where
  "dealloc_page pte =
     whenk (pte \<noteq> 0) (bnd (mem_ld pte) (\<lambda>e.
       whenk (e AND PTE_P \<noteq> 0)
         (let pa = PTE_ADDR e in if pa = 0 then panic ''kfree'' else
          andthen (kfree (P2V pa)) (mem_upd (\<lambda>m. store32 m pte 0)))))"

lemma u32_lt_if_less: "unat (a :: u32) < unat (b :: u32) \<Longrightarrow> unat a < 4294967296"
  using unsigned_less [of a, where 'a = nat] by simp

function dealloc_loop :: "u32 \<Rightarrow> u32 \<Rightarrow> u32 \<Rightarrow> (unit, 'z mst_scheme) kop" where
  "dealloc_loop pgdir a oldsz =
     (if a < oldsz then
        bnd (walkpgdir pgdir a False) (\<lambda>pte.
        andthen (dealloc_page pte)
        (let nxt = dealloc_next pte a in
         if nxt \<le> a then ret () else dealloc_loop pgdir nxt oldsz))
      else ret ())"
  by pat_completeness auto
termination
  by (relation "measure (\<lambda>(pgdir, a, oldsz). 2 ^ 32 - unat a)")
    (auto simp: not_le word_less_nat_alt intro!: diff_less_mono2 dest: u32_lt_if_less)

declare dealloc_loop.simps [simp del]

definition deallocuvm :: "u32 \<Rightarrow> u32 \<Rightarrow> u32 \<Rightarrow> (u32, 'z mst_scheme) kop" where
  "deallocuvm pgdir oldsz newsz =
     (if newsz \<ge> oldsz then ret oldsz
      else andthen (dealloc_loop pgdir (PGROUNDUP newsz) oldsz) (ret newsz))"

definition freevm :: "u32 \<Rightarrow> (unit, 'z mst_scheme) kop" where
  "freevm pgdir =
     (if pgdir = 0 then panic ''freevm: no pgdir'' else
      bnd (deallocuvm pgdir KERNBASE 0) (\<lambda>_.
      andthen (for_each [0..<NPDENTRIES] (\<lambda>i.
        bnd (mem_ld (pgdir + 4 * of_nat i)) (\<lambda>e.
        whenk (e AND PTE_P \<noteq> 0) (kfree (P2V (PTE_ADDR e))))))
      (kfree pgdir)))"

section \<open>The kernel part\<close>

record kmap =
  km_virt :: u32
  km_phys_start :: u32
  km_phys_end :: u32
  km_perm :: u32

definition kmap_table :: "u32 \<Rightarrow> kmap list" where
  "kmap_table data =
     [\<lparr>km_virt = KERNBASE, km_phys_start = 0, km_phys_end = EXTMEM, km_perm = PTE_W\<rparr>,
      \<lparr>km_virt = KERNLINK, km_phys_start = V2P KERNLINK, km_phys_end = V2P data, km_perm = 0\<rparr>,
      \<lparr>km_virt = data, km_phys_start = V2P data, km_phys_end = PHYSTOP, km_perm = PTE_W\<rparr>,
      \<lparr>km_virt = DEVSPACE, km_phys_start = DEVSPACE, km_phys_end = 0, km_perm = PTE_W\<rparr>]"

fun setupkvm_loop :: "u32 \<Rightarrow> kmap list \<Rightarrow> (u32, 'z mst_scheme) kop" where
  "setupkvm_loop pgdir [] = ret pgdir"
| "setupkvm_loop pgdir (k # ks) =
     bnd (mappages pgdir (km_virt k) (km_phys_end k - km_phys_start k) (km_phys_start k) (km_perm k)) (\<lambda>r.
     if r < 0 then andthen (freevm pgdir) (ret 0) else setupkvm_loop pgdir ks)"

definition setupkvm :: "(u32, 'z mst_scheme) kop" where
  "setupkvm =
     bnd kalloc (\<lambda>pgdir. if pgdir = 0 then ret 0 else
     andthen (mem_upd (\<lambda>m. memset m pgdir 0 PGSIZE))
     (if P2V PHYSTOP > DEVSPACE then panic ''PHYSTOP too high'' else
      bnd (fetch m_data) (\<lambda>data. setupkvm_loop pgdir (kmap_table data))))"

definition kvmalloc :: "(unit, 'z mst_scheme) kop" where
  "kvmalloc = bnd setupkvm (\<lambda>p. andthen (modify (\<lambda>s. s\<lparr>k_kpgdir := p\<rparr>)) switchkvm)"

section \<open>User memory\<close>

text \<open>
  Bytes stored at a kernel address, as \<^verbatim>\<open>memmove\<close> from a kernel buffer does.
\<close>

fun put_mem :: "u32 \<Rightarrow> u8 list \<Rightarrow> mem \<Rightarrow> mem" where
  "put_mem a [] m = m"
| "put_mem a (x # xs) m = put_mem (a + 1) xs (m(a := x))"

definition get_mem :: "u32 \<Rightarrow> nat \<Rightarrow> mem \<Rightarrow> u8 list" where
  "get_mem a n m = map (\<lambda>i. m (a + of_nat i)) [0..<n]"

text \<open>
  \<^verbatim>\<open>inituvm\<close> runs on the kernel page table, which maps nothing below \<^verbatim>\<open>KERNBASE\<close>: if \<^verbatim>\<open>kalloc\<close> fails,
  clearing the page faults.
\<close>

definition inituvm :: "u32 \<Rightarrow> u8 list \<Rightarrow> (unit, 'z mst_scheme) kop" where
  "inituvm pgdir init =
     (if length init \<ge> unat PGSIZE then panic ''inituvm: more than a page'' else
      bnd kalloc (\<lambda>pg. if pg = 0 then panic ''trap'' else
      andthen (mem_upd (\<lambda>m. memset m pg 0 PGSIZE))
      (bnd (mappages pgdir 0 PGSIZE (V2P pg) (PTE_W OR PTE_U)) (\<lambda>_.
      mem_upd (put_mem pg init)))))"

text \<open>The page addresses from \<open>a\<close> below \<open>lim\<close>: \<^verbatim>\<open>for(; a < lim; a += PGSIZE)\<close>.\<close>

definition pages_from :: "u32 \<Rightarrow> u32 \<Rightarrow> u32 list" where
  "pages_from a lim = map (\<lambda>k. a + of_nat (4096 * k)) [0..<(unat lim - unat a + 4095) div 4096]"

fun loaduvm_loop :: "'z mst_ext devs \<Rightarrow> u32 \<Rightarrow> u32 \<Rightarrow> nat \<Rightarrow> u32 \<Rightarrow> u32 \<Rightarrow> u32 list \<Rightarrow> (int, 'z mst_scheme) kop" where
  "loaduvm_loop dv pgdir addr ip offset sz [] = ret 0"
| "loaduvm_loop dv pgdir addr ip offset sz (i # is) =
     bnd (walkpgdir pgdir (addr + i) False) (\<lambda>pte. if pte = 0 then panic ''loaduvm: address should exist'' else
     bnd (mem_ld pte) (\<lambda>e.
     let pa = PTE_ADDR e; n = (if sz - i < PGSIZE then sz - i else PGSIZE) in
     bnd (readi dv ip (offset + i) n) (\<lambda>(r, bytes).
     andthen (mem_upd (put_mem (P2V pa) bytes))
     (if word_of_int r \<noteq> n then ret (- 1) else loaduvm_loop dv pgdir addr ip offset sz is))))"

definition loaduvm :: "'z mst_ext devs \<Rightarrow> u32 \<Rightarrow> u32 \<Rightarrow> nat \<Rightarrow> u32 \<Rightarrow> u32 \<Rightarrow> (int, 'z mst_scheme) kop" where
  "loaduvm dv pgdir addr ip offset sz =
     (if addr mod PGSIZE \<noteq> 0 then panic ''loaduvm: addr must be page aligned''
      else loaduvm_loop dv pgdir addr ip offset sz (pages_from 0 sz))"

fun allocuvm_loop :: "u32 \<Rightarrow> u32 \<Rightarrow> u32 \<Rightarrow> u32 list \<Rightarrow> (u32, 'z mst_scheme) kop" where
  "allocuvm_loop pgdir oldsz newsz [] = ret newsz"
| "allocuvm_loop pgdir oldsz newsz (a # as) =
     bnd kalloc (\<lambda>pg. if pg = 0 then
       andthen (cprintf (''allocuvm out of memory'' @ nl) [])
       (bnd (deallocuvm pgdir newsz oldsz) (\<lambda>_. ret 0))
     else
       andthen (mem_upd (\<lambda>m. memset m pg 0 PGSIZE))
       (bnd (mappages pgdir a PGSIZE (V2P pg) (PTE_W OR PTE_U)) (\<lambda>r. if r < 0 then
         andthen (cprintf (''allocuvm out of memory (2)'' @ nl) [])
         (bnd (deallocuvm pgdir newsz oldsz) (\<lambda>_.
         andthen (kfree pg) (ret 0)))
       else allocuvm_loop pgdir oldsz newsz as)))"

definition allocuvm :: "u32 \<Rightarrow> u32 \<Rightarrow> u32 \<Rightarrow> (u32, 'z mst_scheme) kop" where
  "allocuvm pgdir oldsz newsz =
     (if newsz \<ge> KERNBASE then ret 0
      else if newsz < oldsz then ret oldsz
      else allocuvm_loop pgdir oldsz newsz (pages_from (PGROUNDUP oldsz) newsz))"

definition clearpteu :: "u32 \<Rightarrow> u32 \<Rightarrow> (unit, 'z mst_scheme) kop" where
  "clearpteu pgdir uva =
     bnd (walkpgdir pgdir uva False) (\<lambda>pte. if pte = 0 then panic ''clearpteu'' else
     mem_upd (\<lambda>m. store32 m pte (load32 m pte AND NOT PTE_U)))"

fun copyuvm_loop :: "u32 \<Rightarrow> u32 \<Rightarrow> u32 list \<Rightarrow> (u32, 'z mst_scheme) kop" where
  "copyuvm_loop pgdir d [] = ret d"
| "copyuvm_loop pgdir d (i # is) =
     bnd (walkpgdir pgdir i False) (\<lambda>pte. if pte = 0 then panic ''copyuvm: pte should exist'' else
     bnd (mem_ld pte) (\<lambda>e. if e AND PTE_P = 0 then panic ''copyuvm: page not present'' else
     let pa = PTE_ADDR e; flags = PTE_FLAGS e in
     bnd kalloc (\<lambda>pg. if pg = 0 then andthen (freevm d) (ret 0) else
     andthen (mem_upd (\<lambda>m. memmove m pg (P2V pa) PGSIZE))
     (bnd (mappages d i PGSIZE (V2P pg) flags) (\<lambda>r.
     if r < 0 then andthen (freevm d) (ret 0) else copyuvm_loop pgdir d is)))))"

definition copyuvm :: "u32 \<Rightarrow> u32 \<Rightarrow> (u32, 'z mst_scheme) kop" where
  "copyuvm pgdir sz = bnd setupkvm (\<lambda>d. if d = 0 then ret 0 else copyuvm_loop pgdir d (pages_from 0 sz))"

text \<open>\<^verbatim>\<open>uva2ka\<close> reads the entry without a test for null.\<close>

definition uva2ka :: "u32 \<Rightarrow> u32 \<Rightarrow> (u32, 'z mst_scheme) kop" where
  "uva2ka pgdir uva =
     bnd (walkpgdir pgdir uva False) (\<lambda>pte.
     bnd (kload32 pte) (\<lambda>e.
     if e AND PTE_P = 0 then ret 0
     else if e AND PTE_U = 0 then ret 0
     else ret (P2V (PTE_ADDR e))))"

definition copyout_n :: "u32 \<Rightarrow> nat \<Rightarrow> nat" where
  "copyout_n va len = min (4096 - unat (va - PGROUNDDOWN va)) len"

function copyout :: "u32 \<Rightarrow> u32 \<Rightarrow> u8 list \<Rightarrow> (int, 'z mst_scheme) kop" where
  "copyout pgdir va buf =
     (if buf = [] then ret 0 else
      let va0 = PGROUNDDOWN va in
      bnd (uva2ka pgdir va0) (\<lambda>pa0. if pa0 = 0 then ret (- 1) else
      let n = copyout_n va (length buf) in
      andthen (mem_upd (put_mem (pa0 + (va - va0)) (take n buf)))
      (copyout pgdir (va0 + PGSIZE) (drop n buf))))"
  by pat_completeness auto
termination
  by (relation "measure (\<lambda>(pgdir, va, buf). length buf)")
    (auto simp: copyout_n_def min_def unat_page_off)

declare copyout.simps [simp del]

end
