(* ===== verification/Ring.thy ===== *)
theory Ring
  imports Kprelude
begin

text \<open>
  Ring buffers with free-running 32-bit counters, as \<^verbatim>\<open>pipe.c\<close> and \<^verbatim>\<open>console.c\<close> use them: the slot of
  counter value \<open>c\<close> is \<open>c\<close> modulo the buffer size, and the counters wrap around at \<open>2 ^ 32\<close>, a
  multiple of the size.
\<close>

definition ring_contents :: "nat \<Rightarrow> (nat \<Rightarrow> 'a) \<Rightarrow> u32 \<Rightarrow> u32 \<Rightarrow> 'a list" where
  "ring_contents n d r w = map (\<lambda>i. d (unat (r + of_nat i) mod n)) [0..<unat (w - r)]"

lemma length_ring_contents [simp]: "length (ring_contents n d r w) = unat (w - r)"
  by (simp add: ring_contents_def)

lemma ring_contents_empty [simp]: "ring_contents n d r r = []"
  by (simp add: ring_contents_def)

lemma unat_diff_Suc: "(r :: u32) \<noteq> w \<Longrightarrow> unat (w - r) = Suc (unat (w - (r + 1)))"
proof -
  assume "r \<noteq> w"
  then have "w - r \<noteq> 0" by simp
  then have "unat (w - r) = Suc (unat (w - r - 1))" by (simp add: unat_minus_one unat_gt_0)
  then show ?thesis by (simp add: diff_diff_eq)
qed

lemma ring_get:
  assumes "r \<noteq> w"
  shows "ring_contents n d r w = d (unat r mod n) # ring_contents n d (r + 1) w"
proof -
  have u: "[0..<unat (w - r)] = 0 # map Suc [0..<unat (w - (r + 1))]"
    unfolding unat_diff_Suc [OF assms] by (simp only: upt_conv_Cons map_Suc_upt zero_less_Suc)
  show ?thesis unfolding ring_contents_def u by (simp add: o_def add.assoc)
qed

lemma unat_ring_split:
  fixes r w e :: u32
  assumes "unat (w - r) + unat (e - w) < 2 ^ 32"
  shows "unat (e - r) = unat (w - r) + unat (e - w)"
proof -
  have "e - r = (w - r) + (e - w)" by simp
  then show ?thesis using unat_add_small [of "w - r" "e - w"] assms by simp
qed

lemma ring_contents_append:
  assumes "unat (w - r) + unat (e - w) < 2 ^ 32"
  shows "ring_contents n d r e = ring_contents n d r w @ ring_contents n d w e"
proof -
  have "d (unat (r + of_nat (unat (w - r) + i)) mod n) = d (unat (w + of_nat i) mod n)" for i
    by (simp add: add.assoc [symmetric])
  then have "map (\<lambda>i. d (unat (r + of_nat i) mod n)) [unat (w - r)..<unat (w - r) + unat (e - w)]
      = map (\<lambda>i. d (unat (w + of_nat i) mod n)) [0..<unat (e - w)]"
    by (intro nth_equalityI) simp_all
  then show ?thesis
    unfolding ring_contents_def unat_ring_split [OF assms] upt_add_eq_append [OF le0, of "unat (w - r)" "unat (e - w)"] map_append
    by simp
qed

lemma ring_drop_last:
  assumes "w \<noteq> e"
  shows "ring_contents n d w e = ring_contents n d w (e - 1) @ [d (unat (e - 1) mod n)]"
proof -
  have "unat (e - w) = Suc (unat (e - 1 - w))"
    using unat_diff_Suc [OF assms] by (simp add: diff_diff_eq add.commute)
  moreover have "w + of_nat (unat (e - 1 - w)) = e - 1" by simp
  ultimately show ?thesis unfolding ring_contents_def by simp
qed

locale ring =
  fixes n :: nat
  assumes size: "0 < n" "n dvd 2 ^ 32" "n < 2 ^ 32"
begin

lemma slot: "unat (r + of_nat i :: u32) mod n = (unat r + i) mod n"
proof -
  have "unat (r + of_nat i :: u32) = (unat r + i) mod 2 ^ 32"
    by (simp add: unat_word_ariths unat_of_nat mod_simps)
  then show ?thesis using size(2) by (simp add: mod_mod_cancel)
qed

lemma slot_neq: "i < k \<Longrightarrow> k < n \<Longrightarrow> unat (r + of_nat i :: u32) mod n \<noteq> unat (r + of_nat k :: u32) mod n"
proof
  assume a: "i < k" "k < n" "unat (r + of_nat i :: u32) mod n = unat (r + of_nat k :: u32) mod n"
  then have "(unat r + k) mod n = (unat r + i) mod n" by (simp add: slot)
  then have "n dvd (unat r + k) - (unat r + i)" using a(1) by (subst mod_eq_dvd_iff_nat [symmetric]) simp_all
  then have "n dvd k - i" by simp
  with a show False by (simp add: nat_dvd_not_less)
qed

lemma put:
  assumes "unat (w - r) < n"
  shows "ring_contents n (d(unat w mod n := x)) r (w + 1) = ring_contents n d r w @ [x]"
proof -
  let ?k = "unat (w - r)"
  have w: "w = r + of_nat ?k" by simp
  have "w + 1 - r \<noteq> 0"
  proof
    assume "w + 1 - r = 0"
    then have "w - r = - 1" by (metis add_diff_eq diff_add_eq eq_neg_iff_add_eq_0)
    then have "unat (w - r) = 2 ^ 32 - 1" by (simp add: unsigned_minus_1_eq_mask mask_eq_exp_minus_1)
    then show False using assms size(3) by simp
  qed
  then have s: "unat (w + 1 - r) = Suc ?k" using unatSuc [of "w - r"] by (simp add: algebra_simps)
  have "map (\<lambda>i. (d(unat w mod n := x)) (unat (r + of_nat i) mod n)) [0..<?k] = map (\<lambda>i. d (unat (r + of_nat i) mod n)) [0..<?k]"
  proof (rule map_cong [OF refl])
    fix i
    assume "i \<in> set [0..<?k]"
    then have "unat (r + of_nat i) mod n \<noteq> unat (r + of_nat ?k) mod n" using slot_neq [of i ?k r] assms by simp
    then show "(d(unat w mod n := x)) (unat (r + of_nat i) mod n) = d (unat (r + of_nat i) mod n)" by simp
  qed
  then show ?thesis unfolding ring_contents_def s by simp
qed

lemma put_other:
  assumes "unat (w - r) \<le> unat (e - r)" "unat (e - r) < n"
  shows "ring_contents n (d(unat e mod n := x)) r w = ring_contents n d r w"
  unfolding ring_contents_def
proof (rule map_cong [OF refl])
  fix i
  assume "i \<in> set [0..<unat (w - r)]"
  then have "unat (r + of_nat i) mod n \<noteq> unat (r + of_nat (unat (e - r))) mod n"
    using slot_neq [of i "unat (e - r)" r] assms by simp
  then show "(d(unat e mod n := x)) (unat (r + of_nat i) mod n) = d (unat (r + of_nat i) mod n)" by simp
qed

lemma count_put:
  fixes w r :: u32
  assumes "unat (w - r) < n"
  shows "unat (w + 1 - r) = Suc (unat (w - r))"
  using arg_cong [OF put [OF assms, of "\<lambda>_. ()" "()"], of length] by simp

end

end
