(* ===== verification/Pipe.thy ===== *)
theory Pipe
  imports Vm Ring
begin

text \<open>
  Pipes, \<^verbatim>\<open>pipe.c\<close>: a bounded buffer of 512 bytes with two free-running counters, shared by the
  processes at its two ends.  A pipe lives in a page of its own, taken from and given back
  to the page allocator; \<open>u_pipe\<close> maps the page address to the structure, which is kept apart from the bytes of the page,
  since nothing but the routines of \<^verbatim>\<open>pipe.c\<close> reads or writes them.  The bytes a caller writes or receives are lists.  A call that has to wait ends in
  \<open>Blocked\<close>; \<open>pipewrite_again\<close> and \<open>piperead_again\<close> are what it does when it runs again.
\<close>

section \<open>State and operations\<close>

definition PIPESIZE :: nat where "PIPESIZE = 512"

record pipe =
  pp_data :: "nat \<Rightarrow> u8"
  pp_nread :: u32
  pp_nwrite :: u32
  pp_readopen :: bool
  pp_writeopen :: bool

record pst = mst +
  u_pipe :: "u32 \<Rightarrow> pipe"

definition pipe_get :: "u32 \<Rightarrow> (pipe \<Rightarrow> 'a) \<Rightarrow> ('a, 'z pst_scheme) kop" where
  "pipe_get p f = fetch (\<lambda>s. f (u_pipe s p))"

definition pipe_upd :: "u32 \<Rightarrow> (pipe \<Rightarrow> pipe) \<Rightarrow> (unit, 'z pst_scheme) kop" where
  "pipe_upd p f = modify (\<lambda>s. s\<lparr>u_pipe := (u_pipe s)(p := f (u_pipe s p))\<rparr>)"

definition pipeclose :: "u32 \<Rightarrow> bool \<Rightarrow> (unit, 'z pst_scheme) kop" where
  "pipeclose p writable =
     andthen (acquire (PipeLk p))
     (andthen (if writable then andthen (pipe_upd p (\<lambda>q. q\<lparr>pp_writeopen := False\<rparr>)) (wakeup (ChPipeRead p))
               else andthen (pipe_upd p (\<lambda>q. q\<lparr>pp_readopen := False\<rparr>)) (wakeup (ChPipeWrite p)))
     (bnd (pipe_get p (\<lambda>q. \<not> pp_readopen q \<and> \<not> pp_writeopen q)) (\<lambda>dead.
     if dead then andthen (release (PipeLk p)) (kfree p)
     else release (PipeLk p))))"

text \<open>\<^verbatim>\<open>p->data[p->nwrite++ % PIPESIZE] = c\<close> and \<^verbatim>\<open>p->data[p->nread++ % PIPESIZE]\<close>.\<close>

definition pipe_put :: "u8 \<Rightarrow> pipe \<Rightarrow> pipe" where
  "pipe_put c q = q\<lparr>pp_data := (pp_data q)(unat (pp_nwrite q) mod PIPESIZE := c), pp_nwrite := pp_nwrite q + 1\<rparr>"

definition pipe_full :: "pipe \<Rightarrow> bool" where
  "pipe_full q \<longleftrightarrow> pp_nwrite q = pp_nread q + of_nat PIPESIZE"

text \<open>The loop of \<^verbatim>\<open>pipewrite\<close> over the bytes not yet written, with the lock held; the result is
  false after the error return.\<close>

fun pipewrite_loop :: "u32 \<Rightarrow> u8 list \<Rightarrow> (bool, 'z pst_scheme) kop" where
  "pipewrite_loop p [] = ret True"
| "pipewrite_loop p (c # cs) =
     bnd (pipe_get p pipe_full) (\<lambda>full.
     if full then
       bnd (pipe_get p pp_readopen) (\<lambda>ro.
       bnd curproc (\<lambda>me. bnd (proc_get me p_killed) (\<lambda>killed.
       if \<not> ro \<or> killed then andthen (release (PipeLk p)) (ret False)
       else andthen (wakeup (ChPipeRead p)) (sleep (ChPipeWrite p) (PipeLk p)))))
     else andthen (pipe_upd p (pipe_put c)) (pipewrite_loop p cs))"

definition pipewrite_rest :: "u32 \<Rightarrow> u8 list \<Rightarrow> int \<Rightarrow> (int, 'z pst_scheme) kop" where
  "pipewrite_rest p cs n =
     bnd (pipewrite_loop p cs) (\<lambda>ok. if \<not> ok then ret (- 1) else
     andthen (wakeup (ChPipeRead p)) (andthen (release (PipeLk p)) (ret n)))"

definition pipewrite :: "u32 \<Rightarrow> u8 list \<Rightarrow> (int, 'z pst_scheme) kop" where
  "pipewrite p cs = andthen (acquire (PipeLk p)) (pipewrite_rest p cs (int (length cs)))"

definition pipewrite_again :: "u32 \<Rightarrow> u8 list \<Rightarrow> int \<Rightarrow> (int, 'z pst_scheme) kop" where
  "pipewrite_again p cs n = andthen (sleep_resume (PipeLk p)) (pipewrite_rest p cs n)"

fun piperead_copy :: "u32 \<Rightarrow> nat \<Rightarrow> (u8 list, 'z pst_scheme) kop" where
  "piperead_copy p 0 = ret []"
| "piperead_copy p (Suc n) =
     bnd (pipe_get p id) (\<lambda>q.
     if pp_nread q = pp_nwrite q then ret []
     else andthen (pipe_upd p (\<lambda>q. q\<lparr>pp_nread := pp_nread q + 1\<rparr>))
       (bnd (piperead_copy p n) (\<lambda>cs. ret (pp_data q (unat (pp_nread q) mod PIPESIZE) # cs))))"

definition piperead_rest :: "u32 \<Rightarrow> int \<Rightarrow> (int \<times> u8 list, 'z pst_scheme) kop" where
  "piperead_rest p n =
     bnd (pipe_get p (\<lambda>q. pp_nread q = pp_nwrite q \<and> pp_writeopen q)) (\<lambda>empty.
     if empty then
       bnd curproc (\<lambda>me. bnd (proc_get me p_killed) (\<lambda>killed.
       if killed then andthen (release (PipeLk p)) (ret (- 1, []))
       else sleep (ChPipeRead p) (PipeLk p)))
     else
       bnd (piperead_copy p (nat n)) (\<lambda>cs.
       andthen (wakeup (ChPipeWrite p))
       (andthen (release (PipeLk p)) (ret (int (length cs), cs)))))"

definition piperead :: "u32 \<Rightarrow> int \<Rightarrow> (int \<times> u8 list, 'z pst_scheme) kop" where
  "piperead p n = andthen (acquire (PipeLk p)) (piperead_rest p n)"

definition piperead_again :: "u32 \<Rightarrow> int \<Rightarrow> (int \<times> u8 list, 'z pst_scheme) kop" where
  "piperead_again p n = andthen (sleep_resume (PipeLk p)) (piperead_rest p n)"

section \<open>A pipe as a queue of bytes\<close>

interpretation pipe_ring: ring PIPESIZE
  by unfold_locales (simp_all add: PIPESIZE_def)

definition pipe_queue :: "pipe \<Rightarrow> u8 list" where
  "pipe_queue q = ring_contents PIPESIZE (pp_data q) (pp_nread q) (pp_nwrite q)"

definition pipe_ok :: "pipe \<Rightarrow> bool" where
  "pipe_ok q \<longleftrightarrow> unat (pp_nwrite q - pp_nread q) \<le> PIPESIZE"

lemma pipe_full_iff: "pipe_full q \<longleftrightarrow> length (pipe_queue q) = PIPESIZE"
proof -
  have "unat (pp_nwrite q - pp_nread q) = PIPESIZE \<longleftrightarrow> pp_nwrite q - pp_nread q = of_nat PIPESIZE"
    by (simp add: PIPESIZE_def word_unat_eq_iff)
  then show ?thesis by (auto simp: pipe_full_def pipe_queue_def diff_eq_eq add.commute)
qed

lemma pipe_empty_iff: "pp_nread q = pp_nwrite q \<longleftrightarrow> pipe_queue q = []"
proof -
  have "pipe_queue q = [] \<longleftrightarrow> unat (pp_nwrite q - pp_nread q) = 0"
    unfolding pipe_queue_def by (subst length_0_conv [symmetric]) simp
  then show ?thesis by (auto simp: unat_eq_0)
qed

lemma pipe_put_queue:
  assumes "pipe_ok q" "\<not> pipe_full q"
  shows "pipe_queue (pipe_put c q) = pipe_queue q @ [c]" "pipe_ok (pipe_put c q)"
proof -
  have lt: "unat (pp_nwrite q - pp_nread q) < PIPESIZE"
    using assms by (simp add: pipe_ok_def pipe_full_iff pipe_queue_def)
  show "pipe_queue (pipe_put c q) = pipe_queue q @ [c]"
    using pipe_ring.put [OF lt] by (simp add: pipe_queue_def pipe_put_def)
  show "pipe_ok (pipe_put c q)"
    using pipe_ring.count_put [OF lt] lt by (simp add: pipe_ok_def pipe_put_def)
qed

lemma pipe_get_queue:
  assumes "pipe_ok q" "pp_nread q \<noteq> pp_nwrite q"
  shows "pipe_queue q = pp_data q (unat (pp_nread q) mod PIPESIZE) # pipe_queue (q\<lparr>pp_nread := pp_nread q + 1\<rparr>)"
    "pipe_ok (q\<lparr>pp_nread := pp_nread q + 1\<rparr>)"
proof -
  show "pipe_queue q = pp_data q (unat (pp_nread q) mod PIPESIZE) # pipe_queue (q\<lparr>pp_nread := pp_nread q + 1\<rparr>)"
    using ring_get [OF assms(2)] by (simp add: pipe_queue_def)
  show "pipe_ok (q\<lparr>pp_nread := pp_nread q + 1\<rparr>)"
    using unat_diff_Suc [OF assms(2)] assms(1) by (simp add: pipe_ok_def)
qed

section \<open>Filling and draining\<close>

definition pipe_set :: "u32 \<Rightarrow> pipe \<Rightarrow> 'z pst_scheme \<Rightarrow> 'z pst_scheme" where
  "pipe_set p q s = s\<lparr>u_pipe := (u_pipe s)(p := q)\<rparr>"

lemma pipe_set_simps [simp]:
  "u_pipe (pipe_set p q s) = (u_pipe s)(p := q)" "k_held (pipe_set p q s) = k_held s"
  "k_cur (pipe_set p q s) = k_cur s" "k_procs (pipe_set p q s) = k_procs s"
  "pipe_set p q' (pipe_set p q s) = pipe_set p q' s"
  by (simp_all add: pipe_set_def)

lemma pipe_get_bnd: "bnd (pipe_get p f) k s = k (f (u_pipe s p)) s"
  by (simp add: pipe_get_def kdefs)

lemma pipe_upd_then: "andthen (pipe_upd p f) k s = k (pipe_set p (f (u_pipe s p)) s)"
  by (simp add: pipe_upd_def pipe_set_def kdefs)

lemma fold_put:
  assumes "pipe_ok q" "length cs \<le> PIPESIZE - length (pipe_queue q)"
  shows "pipe_ok (fold pipe_put cs q) \<and> pipe_queue (fold pipe_put cs q) = pipe_queue q @ cs
    \<and> pp_readopen (fold pipe_put cs q) = pp_readopen q \<and> pp_writeopen (fold pipe_put cs q) = pp_writeopen q"
  using assms
proof (induction cs arbitrary: q)
  case Nil
  then show ?case by simp
next
  case (Cons c cs)
  then have nf: "\<not> pipe_full q" by (auto simp: pipe_full_iff)
  note put = pipe_put_queue [OF Cons.prems(1) nf, of c]
  have "pp_readopen (pipe_put c q) = pp_readopen q" "pp_writeopen (pipe_put c q) = pp_writeopen q"
    by (simp_all add: pipe_put_def)
  moreover have "length cs \<le> PIPESIZE - length (pipe_queue (pipe_put c q))" using Cons.prems(2) put by simp
  ultimately show ?case using Cons.IH [OF put(2)] put(1) by simp
qed

lemma pipewrite_loop_fill:
  assumes "pipe_ok (u_pipe s p)" "length cs \<le> PIPESIZE - length (pipe_queue (u_pipe s p))"
  shows "pipewrite_loop p (cs @ ds) s = pipewrite_loop p ds (pipe_set p (fold pipe_put cs (u_pipe s p)) s)"
  using assms
proof (induction cs arbitrary: s)
  case Nil
  then show ?case by (simp add: pipe_set_def)
next
  case (Cons c cs)
  let ?t = "pipe_set p (pipe_put c (u_pipe s p)) s"
  have nf: "\<not> pipe_full (u_pipe s p)" using Cons.prems by (auto simp: pipe_full_iff)
  note put = pipe_put_queue [OF Cons.prems(1) nf, of c]
  have "pipewrite_loop p (cs @ ds) ?t = pipewrite_loop p ds (pipe_set p (fold pipe_put cs (u_pipe ?t p)) ?t)"
    by (rule Cons.IH) (use put Cons.prems(2) in auto)
  then show ?case using nf by (simp add: pipe_get_bnd pipe_upd_then)
qed

lemma piperead_copy_drain:
  assumes "pipe_ok (u_pipe s p)"
  shows "\<exists>q. piperead_copy p n s = Ok (take n (pipe_queue (u_pipe s p))) (pipe_set p q s) \<and> pipe_ok q
    \<and> pipe_queue q = drop n (pipe_queue (u_pipe s p)) \<and> pp_readopen q = pp_readopen (u_pipe s p)
    \<and> pp_writeopen q = pp_writeopen (u_pipe s p)"
  using assms
proof (induction n arbitrary: s)
  case 0
  have "pipe_set p (u_pipe s p) s = s" by (simp add: pipe_set_def)
  then show ?case using 0 by (intro exI [of _ "u_pipe s p"]) (simp add: ret_def)
next
  case (Suc n)
  let ?q = "u_pipe s p"
  show ?case
  proof (cases "pp_nread ?q = pp_nwrite ?q")
    case True
    then have "pipe_queue ?q = []" by (simp add: pipe_empty_iff)
    moreover have "pipe_set p ?q s = s" by (simp add: pipe_set_def)
    ultimately show ?thesis using True Suc.prems
      by (intro exI [of _ ?q]) (simp add: pipe_get_bnd ret_def)
  next
    case False
    let ?q' = "?q\<lparr>pp_nread := pp_nread ?q + 1\<rparr>"
    note g = pipe_get_queue [OF Suc.prems False]
    obtain q where q: "piperead_copy p n (pipe_set p ?q' s) = Ok (take n (pipe_queue ?q')) (pipe_set p q s)"
      "pipe_ok q" "pipe_queue q = drop n (pipe_queue ?q')" "pp_readopen q = pp_readopen ?q" "pp_writeopen q = pp_writeopen ?q"
      using Suc.IH [of "pipe_set p ?q' s"] g(2) by auto
    then show ?thesis using False g(1)
      by (intro exI [of _ q]) (simp add: pipe_get_bnd pipe_upd_then, simp add: bnd_def ret_def)
  qed
qed

section \<open>Properties\<close>

lemma pipewrite_full:
  assumes "pipe_full (u_pipe s p)" "k_held s = [PipeLk p]" "k_cur s = Some me" "me < length (k_procs s)"
    "p_state (k_procs s ! me) = RUNNING"
  shows "if \<not> pp_readopen (u_pipe s p) \<or> p_killed (k_procs s ! me)
    then pipewrite_loop p (c # cs) s = Ok False (s\<lparr>k_held := []\<rparr>)
    else \<exists>t. pipewrite_loop p (c # cs) s = Blocked t \<and> u_pipe t = u_pipe s \<and> k_held t = [PtableLock]
      \<and> p_state (k_procs t ! me) = SLEEPING \<and> p_chan (k_procs t ! me) = ChPipeWrite p \<and> woken (ChPipeRead p) s t"
proof (cases "\<not> pp_readopen (u_pipe s p) \<or> p_killed (k_procs s ! me)")
  case True
  show ?thesis unfolding if_P [OF True]
    using assms True by (simp add: pipe_get_bnd) (simp add: kdefs cur_defs)
next
  case False
  let ?ps = "map (wake (ChPipeRead p)) (k_procs s)"
  let ?u = "s\<lparr>k_procs := ?ps\<rparr>"
  let ?t = "?u\<lparr>k_held := [PtableLock], k_procs := ?ps[me := (?ps ! me)\<lparr>p_chan := ChPipeWrite p, p_state := SLEEPING\<rparr>]\<rparr>"
  have w: "wakeup (ChPipeRead p) s = Ok () ?u" using assms(2) by (intro wakeup_Ok) simp
  have "sleep (ChPipeWrite p) (PipeLk p) ?u = Blocked ?t"
    using assms by (simp add: sleep_eq sched_def swtch_def cur_defs lock_defs kdefs)
  then have "pipewrite_loop p (c # cs) s = Blocked ?t"
    using assms False w by (simp add: pipe_get_bnd) (simp add: kdefs cur_defs)
  moreover have "woken (ChPipeRead p) s ?t"
    unfolding woken_def
  proof (intro conjI allI impI)
    fix i
    assume i: "i < length (k_procs s)" "p_state (k_procs s ! i) = SLEEPING \<and> p_chan (k_procs s ! i) = ChPipeRead p"
    then have "i \<noteq> me" using assms(5) by auto
    then show "p_state (k_procs ?t ! i) = RUNNABLE" using i by (simp add: wake_def)
  qed simp
  ultimately show ?thesis unfolding if_not_P [OF False] using assms by (intro exI [of _ ?t]) simp
qed

text \<open>What a call leaves of the queue and of the other pipes, on every branch.\<close>

definition pipewrite_post :: "u32 \<Rightarrow> nat \<Rightarrow> u8 list \<Rightarrow> 'z pst_scheme \<Rightarrow> 'z pst_scheme \<Rightarrow> bool" where
  "pipewrite_post p r cs s t \<longleftrightarrow> pipe_ok (u_pipe t p) \<and> pipe_queue (u_pipe t p) = pipe_queue (u_pipe s p) @ take r cs
     \<and> (\<forall>q. q \<noteq> p \<longrightarrow> u_pipe t q = u_pipe s q)"

lemma pipewrite_fits:
  assumes "k_held s = []" "pipe_ok (u_pipe s p)" "r = PIPESIZE - length (pipe_queue (u_pipe s p))" "length cs \<le> r"
  shows "\<exists>t. pipewrite p cs s = Ok (int (length cs)) t \<and> pipewrite_post p r cs s t \<and> k_held t = [] \<and> woken (ChPipeRead p) s t"
proof -
  let ?q = "fold pipe_put cs (u_pipe s p)"
  let ?s = "pipe_set p ?q (s\<lparr>k_held := [PipeLk p]\<rparr>)"
  let ?t = "?s\<lparr>k_held := [], k_procs := map (wake (ChPipeRead p)) (k_procs s)\<rparr>"
  note F = fold_put [OF assms(2), of cs]
  have "pipewrite_loop p cs (s\<lparr>k_held := [PipeLk p]\<rparr>) = Ok True ?s"
    using pipewrite_loop_fill [of "s\<lparr>k_held := [PipeLk p]\<rparr>" p cs "[]"] assms by (simp add: ret_def)
  moreover have "wakeup (ChPipeRead p) ?s = Ok () (?s\<lparr>k_procs := map (wake (ChPipeRead p)) (k_procs s)\<rparr>)"
    using wakeup_Ok [of ?s "ChPipeRead p"] by simp
  ultimately have "pipewrite p cs s = Ok (int (length cs)) ?t"
    using assms(1) by (simp add: pipewrite_def pipewrite_rest_def kdefs pipe_set_def)
  moreover have "woken (ChPipeRead p) s ?t" by (simp add: woken_def wake_def)
  ultimately show ?thesis using F assms(3,4) by (intro exI [of _ ?t]) (simp add: pipewrite_post_def)
qed

lemma pipewrite_too_long:
  assumes "k_held s = []" "k_cur s = Some me" "me < length (k_procs s)" "p_state (k_procs s ! me) = RUNNING"
    "pipe_ok (u_pipe s p)" "r = PIPESIZE - length (pipe_queue (u_pipe s p))" "\<not> length cs \<le> r"
  shows "if \<not> pp_readopen (u_pipe s p) \<or> p_killed (k_procs s ! me)
    then \<exists>t. pipewrite p cs s = Ok (- 1) t \<and> pipewrite_post p r cs s t
    else \<exists>t. pipewrite p cs s = Blocked t \<and> pipewrite_post p r cs s t \<and> length (pipe_queue (u_pipe t p)) = PIPESIZE
      \<and> k_held t = [PtableLock] \<and> woken (ChPipeRead p) s t
      \<and> p_state (k_procs t ! me) = SLEEPING \<and> p_chan (k_procs t ! me) = ChPipeWrite p"
proof -
  let ?q = "fold pipe_put (take r cs) (u_pipe s p)"
  let ?s = "pipe_set p ?q (s\<lparr>k_held := [PipeLk p]\<rparr>)"
  let ?c = "\<not> pp_readopen (u_pipe s p) \<or> p_killed (k_procs s ! me)"
  obtain c ds where d: "drop r cs = c # ds" using assms(7) by (cases "drop r cs") auto
  note F = fold_put [OF assms(5), of "take r cs"]
  have len: "length (pipe_queue ?q) = PIPESIZE"
    using F assms(5-7) by (simp add: pipe_ok_def pipe_queue_def)
  have l: "pipewrite_loop p cs (s\<lparr>k_held := [PipeLk p]\<rparr>) = pipewrite_loop p (c # ds) ?s"
    using pipewrite_loop_fill [of "s\<lparr>k_held := [PipeLk p]\<rparr>" p "take r cs" "c # ds"] assms(5,6)
      append_take_drop_id [of r cs] unfolding d by (simp del: pipewrite_loop.simps)
  have w: "pipewrite p cs s = bnd (pipewrite_loop p (c # ds)) (\<lambda>ok. if \<not> ok then ret (- 1) else
      andthen (wakeup (ChPipeRead p)) (andthen (release (PipeLk p)) (ret (int (length cs))))) ?s"
    using assms(1) l by (simp add: pipewrite_def pipewrite_rest_def andthen_def bnd_def del: pipewrite_loop.simps)
  have post: "pipewrite_post p r cs s t" if "u_pipe t = u_pipe ?s" for t
    using that F assms(6) by (simp add: pipewrite_post_def)
  have "pipe_full (u_pipe ?s p)" "k_held ?s = [PipeLk p]" "k_cur ?s = Some me" "me < length (k_procs ?s)"
    "p_state (k_procs ?s ! me) = RUNNING" using len assms by (simp_all add: pipe_full_iff)
  note full = pipewrite_full [OF this, of c ds]
  have ro: "pp_readopen (u_pipe ?s p) = pp_readopen (u_pipe s p)" using F assms(6) by simp
  show ?thesis
  proof (cases ?c)
    case True
    have "pipewrite_loop p (c # ds) ?s = Ok False (?s\<lparr>k_held := []\<rparr>)"
      using full True unfolding ro by (simp del: pipewrite_loop.simps)
    then have "pipewrite p cs s = Ok (- 1) (?s\<lparr>k_held := []\<rparr>)" unfolding w bnd_def by (simp add: ret_def)
    then show ?thesis using True post [of "?s\<lparr>k_held := []\<rparr>"] by auto
  next
    case False
    then obtain t where t: "pipewrite_loop p (c # ds) ?s = Blocked t" "u_pipe t = u_pipe ?s" "k_held t = [PtableLock]"
        "p_state (k_procs t ! me) = SLEEPING" "p_chan (k_procs t ! me) = ChPipeWrite p" "woken (ChPipeRead p) ?s t"
      using full unfolding ro by (auto simp del: pipewrite_loop.simps)
    then have "pipewrite p cs s = Blocked t" unfolding w bnd_def by simp
    moreover have "woken (ChPipeRead p) s t" using t(6) by (simp add: woken_def)
    ultimately show ?thesis using False t post len by auto
  qed
qed

text \<open>
  C14: \<^verbatim>\<open>pipewrite\<close> refines appending to a bounded queue, whatever values the wrapping counters have:
  the bytes join the end of the queue in order up to 512.  If all fit, the count is returned and
  every waiting reader is made runnable; if not, the writer returns -1 when the read end is closed
  or it has been killed, and otherwise sleeps with the queue full and every waiting reader runnable.
\<close>

theorem pipewrite_refines:
  assumes "k_held s = []" "k_cur s = Some me" "me < length (k_procs s)" "p_state (k_procs s ! me) = RUNNING"
    "pipe_ok (u_pipe s p)" "r = PIPESIZE - length (pipe_queue (u_pipe s p))"
  shows "\<exists>t. (pipewrite p cs s =
        (if length cs \<le> r then Ok (int (length cs)) t
         else if \<not> pp_readopen (u_pipe s p) \<or> p_killed (k_procs s ! me) then Ok (- 1) t else Blocked t))
    \<and> pipe_ok (u_pipe t p) \<and> pipe_queue (u_pipe t p) = pipe_queue (u_pipe s p) @ take r cs
    \<and> (\<forall>q. q \<noteq> p \<longrightarrow> u_pipe t q = u_pipe s q)
    \<and> (length cs \<le> r \<longrightarrow> k_held t = [] \<and> woken (ChPipeRead p) s t)
    \<and> (\<forall>u. pipewrite p cs s = Blocked u \<longrightarrow> k_held u = [PtableLock] \<and> woken (ChPipeRead p) s u
        \<and> length (pipe_queue (u_pipe u p)) = PIPESIZE
        \<and> p_state (k_procs u ! me) = SLEEPING \<and> p_chan (k_procs u ! me) = ChPipeWrite p)"
proof (cases "length cs \<le> r")
  case True
  then show ?thesis using pipewrite_fits [OF assms(1,5,6) True] by (auto simp: pipewrite_post_def)
next
  case False
  show ?thesis
  proof (cases "\<not> pp_readopen (u_pipe s p) \<or> p_killed (k_procs s ! me)")
    case True
    then show ?thesis using pipewrite_too_long [OF assms False] False unfolding if_P [OF True] pipewrite_post_def by auto
  next
    case nk: False
    then show ?thesis using pipewrite_too_long [OF assms False] False unfolding if_not_P [OF nk] pipewrite_post_def by auto
  qed
qed

text \<open>
  C15: \<^verbatim>\<open>piperead\<close> refines removing from the front of the queue: it returns the oldest bytes, as many
  as asked for and present, and leaves the rest; it waits only on an empty queue whose write end is
  open (or returns -1 there when killed), and on return every waiting writer is runnable.
\<close>

theorem piperead_refines:
  assumes "k_held s = []" "k_cur s = Some me" "me < length (k_procs s)" "pipe_ok (u_pipe s p)"
  shows "if pipe_queue (u_pipe s p) = [] \<and> pp_writeopen (u_pipe s p)
    then (if p_killed (k_procs s ! me) then piperead p n s = Ok (- 1, []) s
      else \<exists>t. piperead p n s = Blocked t \<and> u_pipe t = u_pipe s \<and> k_held t = [PtableLock]
        \<and> p_state (k_procs t ! me) = SLEEPING \<and> p_chan (k_procs t ! me) = ChPipeRead p)
    else \<exists>t. piperead p n s = Ok (int (length (take (nat n) (pipe_queue (u_pipe s p)))), take (nat n) (pipe_queue (u_pipe s p))) t
      \<and> pipe_ok (u_pipe t p) \<and> pipe_queue (u_pipe t p) = drop (nat n) (pipe_queue (u_pipe s p))
      \<and> (\<forall>q. q \<noteq> p \<longrightarrow> u_pipe t q = u_pipe s q) \<and> k_held t = [] \<and> woken (ChPipeWrite p) s t"
proof (cases "pipe_queue (u_pipe s p) = [] \<and> pp_writeopen (u_pipe s p)")
  case True
  let ?s = "s\<lparr>k_held := [PipeLk p]\<rparr>"
  let ?t = "s\<lparr>k_held := [PtableLock], k_procs := (k_procs s)[me := (k_procs s ! me)\<lparr>p_chan := ChPipeRead p, p_state := SLEEPING\<rparr>]\<rparr>"
  have e: "pp_nread (u_pipe s p) = pp_nwrite (u_pipe s p)" using True by (simp add: pipe_empty_iff)
  have "sleep (ChPipeRead p) (PipeLk p) ?s = (Blocked ?t :: (int \<times> u8 list, _) outcome)"
    using assms by (simp add: sleep_eq sched_def swtch_def cur_defs lock_defs kdefs)
  moreover have "s\<lparr>k_held := []\<rparr> = s" using assms(1) kst_held_idem [of s] by simp
  ultimately show ?thesis unfolding if_P [OF True]
    using assms True e by (simp add: piperead_def piperead_rest_def pipe_get_bnd) (simp add: kdefs cur_defs pipe_get_def)
next
  case False
  let ?s = "s\<lparr>k_held := [PipeLk p]\<rparr>"
  have e: "\<not> (pp_nread (u_pipe s p) = pp_nwrite (u_pipe s p) \<and> pp_writeopen (u_pipe s p))"
    using False by (simp add: pipe_empty_iff)
  obtain q where q: "piperead_copy p (nat n) ?s = Ok (take (nat n) (pipe_queue (u_pipe s p))) (pipe_set p q ?s)"
    "pipe_ok q" "pipe_queue q = drop (nat n) (pipe_queue (u_pipe s p))"
    using piperead_copy_drain [of ?s p "nat n"] assms(4) by auto
  let ?t = "(pipe_set p q s)\<lparr>k_held := [], k_procs := map (wake (ChPipeWrite p)) (k_procs s)\<rparr>"
  have w: "wakeup (ChPipeWrite p) (pipe_set p q ?s) = Ok () ((pipe_set p q ?s)\<lparr>k_procs := map (wake (ChPipeWrite p)) (k_procs s)\<rparr>)"
    using wakeup_Ok [of "pipe_set p q ?s" "ChPipeWrite p"] by simp
  have "piperead p n s = Ok (int (length (take (nat n) (pipe_queue (u_pipe s p)))), take (nat n) (pipe_queue (u_pipe s p))) ?t"
    unfolding piperead_def piperead_rest_def using assms(1) q(1) w
    by (simp add: pipe_get_def andthen_def bnd_def fetch_def if_not_P [OF e]) (simp add: kdefs pipe_set_def)
  moreover have "woken (ChPipeWrite p) s ?t" by (simp add: woken_def wake_def)
  ultimately show ?thesis unfolding if_not_P [OF False] using q by (intro exI [of _ ?t]) simp
qed


text \<open>The state of one CPU running process 0, with an empty pipe whose counters are about to wrap.\<close>

definition demo_pipe :: pipe where
  "demo_pipe = \<lparr>pp_data = (\<lambda>_. 0), pp_nread = 0xFFFFFFFE, pp_nwrite = 0xFFFFFFFE, pp_readopen = True, pp_writeopen = True\<rparr>"

definition demo_pst :: pst where
  "demo_pst = mst.extend ((mst0 (\<lambda>_ _. 0) 1000 0x80200000)
     \<lparr>k_cur := Some 0, k_procs := [proc0\<lparr>p_state := RUNNING\<rparr>, proc0\<lparr>p_state := SLEEPING, p_chan := ChPipeRead 0x80400000\<rparr>]\<rparr>)
     \<lparr>u_pipe = (\<lambda>_. demo_pipe)\<rparr>"

lemma demo_pst_facts:
  "k_held demo_pst = []" "k_cur demo_pst = Some 0" "length (k_procs demo_pst) = 2"
  "p_state (k_procs demo_pst ! 0) = RUNNING" "\<not> p_killed (k_procs demo_pst ! 0)" "u_pipe demo_pst = (\<lambda>_. demo_pipe)"
  "p_state (k_procs demo_pst ! 1) = SLEEPING" "p_chan (k_procs demo_pst ! 1) = ChPipeRead 0x80400000"
  "pipe_ok demo_pipe" "pipe_queue demo_pipe = []"
  by (simp_all add: demo_pst_def mst.defs mst0_def fsst.defs fsst0_def lst.defs lst0_def bst.defs bst0_def
      kst.defs kst0_def proc0_def demo_pipe_def pipe_ok_def pipe_queue_def)

theorem pipewrite_refines_witness:
  "\<exists>t. pipewrite 0x80400000 [1, 2, 3] demo_pst = Ok 3 t \<and> pipe_queue (u_pipe t 0x80400000) = [1, 2, 3]
     \<and> p_state (k_procs t ! 1) = RUNNABLE"
  using pipewrite_refines [of demo_pst 0 "0x80400000" PIPESIZE "[1, 2, 3]"] demo_pst_facts
  by (auto simp: PIPESIZE_def woken_def)

theorem piperead_refines_witness:
  "\<exists>t. piperead 0x80400000 5 demo_pst = Blocked t \<and> p_chan (k_procs t ! 0) = ChPipeRead 0x80400000"
  using piperead_refines [of demo_pst 0 "0x80400000" 5] demo_pst_facts
  by (auto simp: demo_pipe_def)

end
