(* ===== verification/File.thy ===== *)
theory File
  imports Pipe
begin

text \<open>
  Open files, \<^verbatim>\<open>file.c\<close>, and \<^verbatim>\<open>pipealloc\<close> of \<^verbatim>\<open>pipe.c\<close>.  A file is an index below \<^verbatim>\<open>NFILE\<close> into the
  table \<open>t_file\<close>, \<open>None\<close> the null pointer.  The device tables \<^verbatim>\<open>devsw\<close> are arguments.  Data read or
  written are byte lists; the system calls move them between these lists and user memory.
\<close>

section \<open>State\<close>

datatype fdtype = FD_NONE | FD_PIPE | FD_INODE

record kfile =
  fl_type :: fdtype
  fl_ref :: int
  fl_readable :: bool
  fl_writable :: bool
  fl_pipe :: u32
  fl_ip :: nat
  fl_off :: u32

record ffst = pst +
  t_file :: "nat \<Rightarrow> kfile"

definition file_get :: "nat \<Rightarrow> (kfile \<Rightarrow> 'a) \<Rightarrow> ('a, 'z ffst_scheme) kop" where
  "file_get f g = fetch (\<lambda>s. g (t_file s f))"

definition file_upd :: "nat \<Rightarrow> (kfile \<Rightarrow> kfile) \<Rightarrow> (unit, 'z ffst_scheme) kop" where
  "file_upd f g = modify (\<lambda>s. s\<lparr>t_file := (t_file s)(f := g (t_file s f))\<rparr>)"

type_synonym 'z kdevs = "'z ffst_ext pst_ext mst_ext devs"
type_synonym 'z kdevw = "'z ffst_ext pst_ext mst_ext devw"

section \<open>Operations\<close>

definition filealloc :: "(nat option, 'z ffst_scheme) kop" where
  "filealloc =
     andthen (acquire FtableLock)
     (bnd (fetch (\<lambda>s. List.find (\<lambda>f. fl_ref (t_file s f) = 0) [0..<NFILE])) (\<lambda>r.
      andthen (case r of Some f \<Rightarrow> file_upd f (\<lambda>x. x\<lparr>fl_ref := 1\<rparr>) | None \<Rightarrow> ret ())
      (andthen (release FtableLock) (ret r))))"

definition filedup :: "nat \<Rightarrow> (nat, 'z ffst_scheme) kop" where
  "filedup f =
     andthen (acquire FtableLock)
     (bnd (file_get f fl_ref) (\<lambda>r. if r < 1 then panic ''filedup'' else
      andthen (file_upd f (\<lambda>x. x\<lparr>fl_ref := fl_ref x + 1\<rparr>))
      (andthen (release FtableLock) (ret f))))"

text \<open>What \<^verbatim>\<open>fileclose\<close> does with the copy of the entry after the last reference is gone.\<close>

definition fileclose_last :: "kfile \<Rightarrow> (unit, 'z ffst_scheme) kop" where
  "fileclose_last ff = (case fl_type ff of
     FD_PIPE \<Rightarrow> pipeclose (fl_pipe ff) (fl_writable ff)
   | FD_INODE \<Rightarrow> andthen begin_op (andthen (iput (fl_ip ff)) end_op)
   | FD_NONE \<Rightarrow> ret ())"

definition fileclose :: "nat \<Rightarrow> (unit, 'z ffst_scheme) kop" where
  "fileclose f =
     andthen (acquire FtableLock)
     (bnd (file_get f fl_ref) (\<lambda>r. if r < 1 then panic ''fileclose'' else
      andthen (file_upd f (\<lambda>x. x\<lparr>fl_ref := fl_ref x - 1\<rparr>))
      (if r - 1 > 0 then release FtableLock else
       bnd (file_get f id) (\<lambda>ff.
       andthen (file_upd f (\<lambda>x. x\<lparr>fl_ref := 0, fl_type := FD_NONE\<rparr>))
       (andthen (release FtableLock)
       (fileclose_last ff))))))"

definition filestat :: "nat \<Rightarrow> (kstat option, 'z ffst_scheme) kop" where
  "filestat f =
     bnd (file_get f id) (\<lambda>x. if fl_type x = FD_INODE then
       andthen (ilock (fl_ip x))
       (bnd (stati (fl_ip x)) (\<lambda>st.
       andthen (iunlock (fl_ip x)) (ret (Some st))))
     else ret None)"

definition fileread :: "'z kdevs \<Rightarrow> nat \<Rightarrow> int \<Rightarrow> (int \<times> u8 list, 'z ffst_scheme) kop" where
  "fileread dv f n =
     bnd (file_get f id) (\<lambda>x.
     if \<not> fl_readable x then ret (- 1, [])
     else if fl_type x = FD_PIPE then piperead (fl_pipe x) n
     else if fl_type x = FD_INODE then
       andthen (ilock (fl_ip x))
       (bnd (file_get f fl_off) (\<lambda>off.
       bnd (readi dv (fl_ip x) off (word_of_int n)) (\<lambda>(r, bytes).
       andthen (whenk (r > 0) (file_upd f (\<lambda>x. x\<lparr>fl_off := fl_off x + word_of_int r\<rparr>)))
       (andthen (iunlock (fl_ip x))
       (ret (r, bytes))))))
     else panic ''fileread'')"

definition write_max :: nat where
  "write_max = (MAXOPBLOCKS - 1 - 1 - 2) div 2 * 512"

text \<open>The loop of \<^verbatim>\<open>filewrite\<close> over the bytes not yet written; true when it gets to the end.\<close>

function filewrite_loop :: "'z kdevw \<Rightarrow> nat \<Rightarrow> u8 list \<Rightarrow> (bool, 'z ffst_scheme) kop" where
  "filewrite_loop dw f cs =
     (if cs = [] then ret True else
      let n1 = min (length cs) write_max in
      andthen begin_op
      (bnd (file_get f fl_ip) (\<lambda>ip.
      andthen (ilock ip)
      (bnd (file_get f fl_off) (\<lambda>off.
      bnd (writei dw ip (take n1 cs) off (of_nat n1)) (\<lambda>r.
      andthen (whenk (r > 0) (file_upd f (\<lambda>x. x\<lparr>fl_off := fl_off x + word_of_int r\<rparr>)))
      (andthen (iunlock ip)
      (andthen end_op
      (if r < 0 then ret False
       else if r \<noteq> int n1 then panic ''short filewrite''
       else filewrite_loop dw f (drop n1 cs))))))))))"
  by pat_completeness auto
termination
  by (relation "measure (\<lambda>(dw, f, cs). length cs)") (auto simp: write_max_def MAXOPBLOCKS_def)

declare filewrite_loop.simps [simp del]

definition filewrite :: "'z kdevw \<Rightarrow> nat \<Rightarrow> u8 list \<Rightarrow> (int, 'z ffst_scheme) kop" where
  "filewrite dw f cs =
     bnd (file_get f id) (\<lambda>x.
     if \<not> fl_writable x then ret (- 1)
     else if fl_type x = FD_PIPE then pipewrite (fl_pipe x) cs
     else if fl_type x = FD_INODE then
       bnd (filewrite_loop dw f cs) (\<lambda>ok. ret (if ok then int (length cs) else - 1))
     else panic ''filewrite'')"

section \<open>pipealloc\<close>

text \<open>The code at label \<^verbatim>\<open>bad\<close>.\<close>

definition pipe_bad :: "u32 \<Rightarrow> nat option \<Rightarrow> nat option \<Rightarrow> ((nat \<times> nat) option, 'z ffst_scheme) kop" where
  "pipe_bad p f0 f1 =
     andthen (whenk (p \<noteq> 0) (kfree p))
     (andthen (case f0 of Some f \<Rightarrow> fileclose f | None \<Rightarrow> ret ())
     (andthen (case f1 of Some f \<Rightarrow> fileclose f | None \<Rightarrow> ret ())
     (ret None)))"

definition pipealloc :: "((nat \<times> nat) option, 'z ffst_scheme) kop" where
  "pipealloc =
     bnd filealloc (\<lambda>r0. case r0 of None \<Rightarrow> pipe_bad 0 None None
     | Some f0 \<Rightarrow> bnd filealloc (\<lambda>r1. case r1 of None \<Rightarrow> pipe_bad 0 (Some f0) None
     | Some f1 \<Rightarrow> bnd kalloc (\<lambda>p. if p = 0 then pipe_bad 0 (Some f0) (Some f1) else
       andthen (pipe_upd p (\<lambda>q. q\<lparr>pp_readopen := True, pp_writeopen := True, pp_nwrite := 0, pp_nread := 0\<rparr>))
       (andthen (file_upd f0 (\<lambda>x. x\<lparr>fl_type := FD_PIPE, fl_readable := True, fl_writable := False, fl_pipe := p\<rparr>))
       (andthen (file_upd f1 (\<lambda>x. x\<lparr>fl_type := FD_PIPE, fl_readable := False, fl_writable := True, fl_pipe := p\<rparr>))
       (ret (Some (f0, f1))))))))"

section \<open>Reference counts\<close>

text \<open>\<open>hs\<close> lists every pointer to an open file that some holder has (descriptors, mostly): the
  invariant says that the counts count them.\<close>

definition refs_ok :: "'z ffst_scheme \<Rightarrow> nat list \<Rightarrow> bool" where
  "refs_ok s hs \<longleftrightarrow> (\<forall>f<NFILE. fl_ref (t_file s f) = int (count_list hs f))"

lemma count_list_pos: "x \<in> set xs \<Longrightarrow> 0 < count_list xs x"
  by (simp add: count_list_0_iff neq0_conv [symmetric])

lemma count_list_remove1: "count_list (remove1 x xs) y = (if x = y then count_list xs y - 1 else count_list xs y)"
  by (induction xs) (auto simp: Suc_diff_le dest: count_list_pos)

lemma filealloc_refs:
  assumes "refs_ok s hs" "FtableLock \<notin> set (k_held s)"
  shows "\<exists>r t. filealloc s = Ok r t \<and> (case r of
        Some g \<Rightarrow> g < NFILE \<and> g \<notin> set hs \<and> refs_ok t (g # hs) | None \<Rightarrow> t = s \<and> {..<NFILE} \<subseteq> set hs)"
proof -
  let ?P = "\<lambda>f. fl_ref (t_file s f) = 0"
  have free: "?P g \<longleftrightarrow> g \<notin> set hs" if "g < NFILE" for g
    using assms(1) that by (simp add: refs_ok_def count_list_0_iff)
  show ?thesis
  proof (cases "List.find ?P [0..<NFILE]")
    case None
    then have "{..<NFILE} \<subseteq> set hs" using free by (auto simp: find_None_iff)
    moreover have "filealloc s = Ok None s" using assms(2) None by (simp add: filealloc_def kdefs)
    ultimately show ?thesis by auto
  next
    case (Some g)
    then have g: "g < NFILE" "?P g" using find_Some_iff [of ?P "[0..<NFILE]" g] by auto
    let ?t = "s\<lparr>t_file := (t_file s)(g := (t_file s g)\<lparr>fl_ref := 1\<rparr>)\<rparr>"
    have "filealloc s = Ok (Some g) ?t" using assms(2) Some by (simp add: filealloc_def file_upd_def kdefs)
    moreover have "refs_ok ?t (g # hs)" using assms(1) g free [OF g(1)] by (simp add: refs_ok_def)
    ultimately show ?thesis using g free by auto
  qed
qed

lemma filedup_refs:
  assumes "refs_ok s hs" "FtableLock \<notin> set (k_held s)" "f < NFILE"
  shows "if f \<in> set hs then \<exists>t. filedup f s = Ok f t \<and> refs_ok t (f # hs) else filedup f s = Panic ''filedup''"
proof -
  have r: "fl_ref (t_file s f) = int (count_list hs f)" using assms by (simp add: refs_ok_def)
  let ?t = "s\<lparr>t_file := (t_file s)(f := (t_file s f)\<lparr>fl_ref := fl_ref (t_file s f) + 1\<rparr>)\<rparr>"
  have "refs_ok ?t (f # hs)" using assms(1) by (auto simp: refs_ok_def)
  moreover have "filedup f s = Ok f ?t" if "f \<in> set hs"
    using assms(2) r count_list_pos [OF that] by (simp add: filedup_def file_get_def file_upd_def kdefs)
  moreover have "filedup f s = Panic ''filedup''" if "f \<notin> set hs"
    using assms(2) r that by (simp add: filedup_def file_get_def kdefs)
  ultimately show ?thesis by auto
qed

lemma fileclose_refs:
  assumes "refs_ok s hs" "FtableLock \<notin> set (k_held s)" "f < NFILE"
  shows "if f \<in> set hs then \<exists>t. refs_ok t (remove1 f hs) \<and> (if count_list hs f = 1
       then fileclose f s = fileclose_last ((t_file s f)\<lparr>fl_ref := 0\<rparr>) t \<and> fl_type (t_file t f) = FD_NONE
       else fileclose f s = Ok () t \<and> t_file t f = (t_file s f)\<lparr>fl_ref := fl_ref (t_file s f) - 1\<rparr>)
     else fileclose f s = Panic ''fileclose''"
proof (cases "f \<in> set hs")
  case True
  have r: "fl_ref (t_file s f) = int (count_list hs f)" using assms by (simp add: refs_ok_def)
  have p: "0 < count_list hs f" using True by (rule count_list_pos)
  let ?x = "if count_list hs f = 1 then (t_file s f)\<lparr>fl_ref := 0, fl_type := FD_NONE\<rparr>
      else (t_file s f)\<lparr>fl_ref := fl_ref (t_file s f) - 1\<rparr>"
  let ?u = "s\<lparr>t_file := (t_file s)(f := ?x)\<rparr>"
  have "refs_ok ?u (remove1 f hs)" using assms(1) p by (auto simp: refs_ok_def count_list_remove1 of_nat_diff)
  moreover have "if count_list hs f = 1
      then fileclose f s = fileclose_last ((t_file s f)\<lparr>fl_ref := 0\<rparr>) ?u \<and> fl_type (t_file ?u f) = FD_NONE
      else fileclose f s = Ok () ?u \<and> t_file ?u f = (t_file s f)\<lparr>fl_ref := fl_ref (t_file s f) - 1\<rparr>"
    using assms(2) r p by (auto simp: fileclose_def file_get_def file_upd_def kdefs)
  ultimately show ?thesis using True by (simp only: if_True) blast
next
  case False
  then have "fl_ref (t_file s f) = 0" using assms by (simp add: refs_ok_def count_list_0_iff)
  then show ?thesis using False assms(2) by (simp add: fileclose_def file_get_def kdefs)
qed

text \<open>
  C16: the file table keeps its counts equal to the number of holders.  \<^verbatim>\<open>filealloc\<close> hands out an entry
  nobody holds, or fails exactly when all are held; \<^verbatim>\<open>filedup\<close> of a held file adds a holder;
  \<^verbatim>\<open>fileclose\<close> of a file with other holders only drops the count; the last close frees the entry
  before the pipe end or the inode is released; and using a file without a holder panics.
\<close>

theorem file_refs_counted:
  assumes "refs_ok s hs" "FtableLock \<notin> set (k_held s)" "f < NFILE"
  shows "(\<exists>r t. filealloc s = Ok r t \<and> (case r of
        Some g \<Rightarrow> g < NFILE \<and> g \<notin> set hs \<and> refs_ok t (g # hs) | None \<Rightarrow> t = s \<and> {..<NFILE} \<subseteq> set hs))
    \<and> (if f \<in> set hs
        then (\<exists>t. filedup f s = Ok f t \<and> refs_ok t (f # hs))
          \<and> (\<exists>t. refs_ok t (remove1 f hs) \<and> (if count_list hs f = 1
               then fileclose f s = fileclose_last ((t_file s f)\<lparr>fl_ref := 0\<rparr>) t \<and> fl_type (t_file t f) = FD_NONE
               else fileclose f s = Ok () t \<and> t_file t f = (t_file s f)\<lparr>fl_ref := fl_ref (t_file s f) - 1\<rparr>))
        else filedup f s = Panic ''filedup'' \<and> fileclose f s = Panic ''fileclose'')"
proof (rule conjI)
  show "\<exists>r t. filealloc s = Ok r t \<and> (case r of
        Some g \<Rightarrow> g < NFILE \<and> g \<notin> set hs \<and> refs_ok t (g # hs) | None \<Rightarrow> t = s \<and> {..<NFILE} \<subseteq> set hs)"
    by (rule filealloc_refs [OF assms(1,2)])
qed (use filedup_refs [OF assms] fileclose_refs [OF assms] in \<open>auto split: if_splits\<close>)

definition file0 :: kfile where
  "file0 = \<lparr>fl_type = FD_NONE, fl_ref = 0, fl_readable = False, fl_writable = False, fl_pipe = 0, fl_ip = 0, fl_off = 0\<rparr>"

definition demo_ffst :: ffst where
  "demo_ffst = pst.extend demo_pst \<lparr>t_file = (\<lambda>_. file0)(3 := file0\<lparr>fl_ref := 2\<rparr>)\<rparr>"

lemma demo_ffst_facts:
  "k_held demo_ffst = []" "t_file demo_ffst = (\<lambda>_. file0)(3 := file0\<lparr>fl_ref := 2\<rparr>)"
  by (simp_all add: demo_ffst_def pst.defs demo_pst_def mst.defs mst0_def fsst.defs fsst0_def lst.defs lst0_def bst.defs bst0_def
      kst.defs kst0_def)

theorem file_refs_counted_witness:
  "\<exists>t. fileclose 3 demo_ffst = Ok () t \<and> fl_ref (t_file t 3) = 1"
proof -
  have "refs_ok demo_ffst [3, 3]" by (simp add: refs_ok_def demo_ffst_facts file0_def)
  from file_refs_counted [OF this, of 3] show ?thesis
    by (auto simp: demo_ffst_facts NFILE_def)
qed

end
