(* ===== verification/Proclife.thy ===== *)
theory Proclife
  imports File
begin

text \<open>
  The life of a process, \<^verbatim>\<open>proc.c\<close>: \<^verbatim>\<open>allocproc\<close>, \<^verbatim>\<open>userinit\<close>, \<^verbatim>\<open>growproc\<close>, \<^verbatim>\<open>fork\<close>, \<^verbatim>\<open>exit\<close>,
  \<^verbatim>\<open>wait\<close>.  The trap frame and the saved context at the top of a kernel stack are the fields \<open>p_tf\<close> and
  \<open>p_context\<close>; the return address between them is stored in memory.  \<open>x_forkret\<close>, \<open>x_trapret\<close> and
  \<open>x_initcode\<close> are the linker symbols the code refers to.
\<close>

section \<open>State\<close>

record xst = ffst +
  x_forkret :: u32
  x_trapret :: u32
  x_initcode :: "u8 list"
  x_first :: bool

type_synonym 'z xdevs = "'z xst_ext kdevs"
type_synonym 'z xdevw = "'z xst_ext kdevw"

definition SEG_UCODE :: u16 where "SEG_UCODE = 3"
definition SEG_UDATA :: u16 where "SEG_UDATA = 4"
definition DPL_USER :: u16 where "DPL_USER = 3"
definition FL_IF :: u32 where "FL_IF = 0x200"
definition TF_SIZE :: u32 where "TF_SIZE = 76"

text \<open>A \<^verbatim>\<open>char name[16]\<close> filled by \<^verbatim>\<open>safestrcpy\<close> keeps 15 characters.\<close>

definition proc_name :: "string \<Rightarrow> string" where
  "proc_name n = take 15 n"

section \<open>Creation\<close>

text \<open>The kernel stack of the new process, with the frames that make it return to user space.\<close>

definition allocproc_stack :: "nat \<Rightarrow> (nat option, 'z xst_scheme) kop" where
  "allocproc_stack p =
     bnd kalloc (\<lambda>ks.
     andthen (proc_upd p (\<lambda>q. q\<lparr>p_kstack := ks\<rparr>))
     (if ks = 0 then andthen (proc_upd p (\<lambda>q. q\<lparr>p_state := UNUSED\<rparr>)) (ret None) else
      bnd (fetch (\<lambda>s. (x_forkret s, x_trapret s))) (\<lambda>(fr, tr).
      andthen (mem_upd (\<lambda>m. store32 m (ks + KSTACKSIZE - TF_SIZE - 4) tr))
      (andthen (proc_upd p (\<lambda>q. q\<lparr>p_context := context0\<lparr>cx_eip := fr\<rparr>\<rparr>))
      (ret (Some p))))))"

definition allocproc :: "(nat option, 'z xst_scheme) kop" where
  "allocproc =
     andthen (acquire PtableLock)
     (bnd (fetch (\<lambda>s. find_idx (\<lambda>p. p_state p = UNUSED) (k_procs s))) (\<lambda>r. case r of
       None \<Rightarrow> andthen (release PtableLock) (ret None)
     | Some p \<Rightarrow>
       bnd (fetch k_nextpid) (\<lambda>pid.
       andthen (proc_upd p (\<lambda>q. q\<lparr>p_state := EMBRYO, p_pid := pid, p_priority := 10\<rparr>))
       (andthen (modify (\<lambda>s. s\<lparr>k_nextpid := int32 (pid + 1)\<rparr>))
       (andthen (release PtableLock)
       (allocproc_stack p))))))"

definition user_tf :: trapframe where
  "user_tf = (let ds = push_bit 3 SEG_UDATA OR DPL_USER in
     tf0\<lparr>tf_cs := push_bit 3 SEG_UCODE OR DPL_USER, tf_ds := ds, tf_es := ds, tf_ss := ds, tf_eflags := FL_IF,
       tf_esp := PGSIZE, tf_eip := 0\<rparr>)"

text \<open>\<^verbatim>\<open>userinit\<close> runs before any process, on the kernel page table: a null process pointer faults.\<close>

definition userinit :: "'z xdevs \<Rightarrow> (unit, 'z xst_scheme) kop" where
  "userinit dv =
     bnd allocproc (\<lambda>r.
     andthen (modify (\<lambda>s. s\<lparr>k_initproc := r\<rparr>))
     (case r of None \<Rightarrow> panic ''trap'' | Some p \<Rightarrow>
     bnd setupkvm (\<lambda>pd.
     andthen (proc_upd p (\<lambda>q. q\<lparr>p_pgdir := pd\<rparr>))
     (if pd = 0 then panic ''userinit: out of memory?'' else
     bnd (fetch x_initcode) (\<lambda>code.
     andthen (inituvm pd code)
     (andthen (proc_upd p (\<lambda>q. q\<lparr>p_sz := PGSIZE, p_tf := user_tf, p_name := proc_name ''initcode''\<rparr>))
     (bnd (namei dv [slash]) (\<lambda>ip.
     andthen (proc_upd p (\<lambda>q. q\<lparr>p_cwd := ip\<rparr>))
     (andthen (acquire PtableLock)
     (andthen (proc_upd p (\<lambda>q. q\<lparr>p_state := RUNNABLE\<rparr>))
     (release PtableLock)))))))))))"

definition growproc :: "int \<Rightarrow> (int, 'z xst_scheme) kop" where
  "growproc n =
     bnd curproc (\<lambda>me. bnd (proc_get me id) (\<lambda>c.
     bnd (if n > 0 then
            bnd (allocuvm (p_pgdir c) (p_sz c) (p_sz c + word_of_int n)) (\<lambda>sz. ret (if sz = 0 then None else Some sz))
          else if n < 0 then
            bnd (deallocuvm (p_pgdir c) (p_sz c) (p_sz c + word_of_int n)) (\<lambda>sz. ret (if sz = 0 then None else Some sz))
          else ret (Some (p_sz c))) (\<lambda>r. case r of None \<Rightarrow> ret (- 1)
     | Some sz \<Rightarrow>
       andthen (proc_upd me (\<lambda>q. q\<lparr>p_sz := sz\<rparr>))
       (andthen (switchuvm (Some me))
       (ret 0)))))"

definition fork :: "(int, 'z xst_scheme) kop" where
  "fork =
     bnd curproc (\<lambda>me.
     bnd allocproc (\<lambda>r. case r of None \<Rightarrow> ret (- 1)
     | Some np \<Rightarrow>
       bnd (proc_get me id) (\<lambda>c.
       bnd (copyuvm (p_pgdir c) (p_sz c)) (\<lambda>pd.
       andthen (proc_upd np (\<lambda>q. q\<lparr>p_pgdir := pd\<rparr>))
       (if pd = 0 then
          bnd (proc_get np p_kstack) (\<lambda>ks.
          andthen (kfree ks)
          (andthen (proc_upd np (\<lambda>q. q\<lparr>p_kstack := 0, p_state := UNUSED\<rparr>))
          (ret (- 1))))
        else
          andthen (proc_upd np (\<lambda>q. q\<lparr>p_sz := p_sz c, p_parent := Some me, p_tf := (p_tf c)\<lparr>tf_eax := 0\<rparr>\<rparr>))
          (andthen (for_each [0..<NOFILE] (\<lambda>i. case p_ofile c ! i of None \<Rightarrow> ret ()
             | Some f \<Rightarrow> bnd (filedup f) (\<lambda>g. proc_upd np (\<lambda>q. q\<lparr>p_ofile := (p_ofile q)[i := Some g]\<rparr>))))
          (bnd (case p_cwd c of None \<Rightarrow> panic ''trap'' | Some ip \<Rightarrow> idup ip) (\<lambda>ip.
          andthen (proc_upd np (\<lambda>q. q\<lparr>p_cwd := Some ip, p_name := proc_name (p_name c)\<rparr>))
          (bnd (proc_get np p_pid) (\<lambda>pid.
          andthen (acquire PtableLock)
          (andthen (proc_upd np (\<lambda>q. q\<lparr>p_state := RUNNABLE\<rparr>))
          (andthen (release PtableLock)
          (ret pid)))))))))))))"

section \<open>Exit and wait\<close>

definition parent_chan :: "nat option \<Rightarrow> chan" where
  "parent_chan p = (case p of None \<Rightarrow> ChNone | Some i \<Rightarrow> ChProc i)"

text \<open>One turn of the loop that passes children to init.\<close>

definition reparent_one :: "nat \<Rightarrow> nat \<Rightarrow> (unit, 'z kst_scheme) kop" where
  "reparent_one me i =
     bnd (proc_get i id) (\<lambda>p. whenk (p_parent p = Some me)
       (bnd (fetch k_initproc) (\<lambda>init.
        andthen (proc_upd i (\<lambda>q. q\<lparr>p_parent := init\<rparr>))
        (whenk (p_state p = ZOMBIE) (wakeup1 (parent_chan init))))))"

text \<open>The part of \<^verbatim>\<open>exit\<close> under the table lock.\<close>

definition exit_tail :: "nat \<Rightarrow> (unit, 'z kst_scheme) kop" where
  "exit_tail me =
     andthen (acquire PtableLock)
     (bnd (proc_get me p_parent) (\<lambda>par.
     andthen (wakeup1 (parent_chan par))
     (bnd (fetch (\<lambda>s. length (k_procs s))) (\<lambda>n.
     andthen (for_each [0..<n] (reparent_one me))
     (andthen (proc_upd me (\<lambda>q. q\<lparr>p_state := ZOMBIE\<rparr>))
     (andthen (sched :: (unit, 'z kst_scheme) kop)
     (panic ''zombie exit'')))))))"

definition exit_proc :: "(unit, 'z xst_scheme) kop" where
  "exit_proc =
     bnd curproc (\<lambda>me. bnd (fetch k_initproc) (\<lambda>init. if init = Some me then panic ''init exiting'' else
     andthen (for_each [0..<NOFILE] (\<lambda>fd. bnd (proc_get me (\<lambda>q. p_ofile q ! fd)) (\<lambda>f. case f of None \<Rightarrow> ret ()
        | Some g \<Rightarrow> andthen (fileclose g) (proc_upd me (\<lambda>q. q\<lparr>p_ofile := (p_ofile q)[fd := None]\<rparr>)))))
     (andthen begin_op
     (bnd (proc_get me p_cwd) (\<lambda>cwd.
     andthen (case cwd of None \<Rightarrow> panic ''trap'' | Some ip \<Rightarrow> iput ip)
     (andthen end_op
     (andthen (proc_upd me (\<lambda>q. q\<lparr>p_cwd := None\<rparr>))
     (exit_tail me))))))))"

text \<open>The scan of \<^verbatim>\<open>wait\<close> over the table: the first exited child, and whether there are children.\<close>

definition zombie_child :: "nat \<Rightarrow> proc list \<Rightarrow> nat option" where
  "zombie_child me ps = find_idx (\<lambda>p. p_parent p = Some me \<and> p_state p = ZOMBIE) ps"

definition have_kids :: "nat \<Rightarrow> proc list \<Rightarrow> bool" where
  "have_kids me ps = list_ex (\<lambda>p. p_parent p = Some me) ps"

definition reap :: "nat \<Rightarrow> (int, 'z mst_scheme) kop" where
  "reap p =
     bnd (proc_get p id) (\<lambda>q.
     andthen (kfree (p_kstack q))
     (andthen (proc_upd p (\<lambda>q. q\<lparr>p_kstack := 0\<rparr>))
     (andthen (freevm (p_pgdir q))
     (andthen (proc_upd p (\<lambda>q. q\<lparr>p_pid := 0, p_parent := None, p_name := [], p_killed := False, p_state := UNUSED\<rparr>))
     (andthen (release PtableLock)
     (ret (p_pid q)))))))"

text \<open>The body of the endless loop; it ends in \<open>Blocked\<close> where the code sleeps and loops.\<close>

definition wait_loop :: "nat \<Rightarrow> (int, 'z mst_scheme) kop" where
  "wait_loop me =
     bnd (fetch k_procs) (\<lambda>ps. case zombie_child me ps of
       Some p \<Rightarrow> reap p
     | None \<Rightarrow>
         if \<not> have_kids me ps \<or> p_killed (ps ! me) then andthen (release PtableLock) (ret (- 1))
         else sleep (ChProc me) PtableLock)"

definition wait_child :: "(int, 'z mst_scheme) kop" where
  "wait_child = bnd curproc (\<lambda>me. andthen (acquire PtableLock) (wait_loop me))"

definition wait_again :: "(int, 'z mst_scheme) kop" where
  "wait_again = bnd curproc (\<lambda>me. andthen (sleep_resume PtableLock) (wait_loop me))"

text \<open>The first scheduling of a process: \<^verbatim>\<open>forkret\<close> gives the table lock up; the very first call
  also initializes the file system.\<close>

definition forkret :: "(unit, 'z xst_scheme) kop" where
  "forkret =
     andthen (release PtableLock)
     (bnd (fetch x_first) (\<lambda>first.
     whenk first (andthen (modify (\<lambda>s. s\<lparr>x_first := False\<rparr>)) (andthen (iinit ROOTDEV) (initlog ROOTDEV)))))"

end
