(* ===== verification/Kpres.thy ===== *)
theory Kpres
  imports Kstate
begin

text \<open>
  Preservation of a state predicate by a kernel routine: whether it returns or gives the CPU up, the
  predicate still holds.  The rules follow the structure of a routine, so a goal
  \<open>pres I m\<close> splits into one goal for each state update in \<open>m\<close>.
\<close>

named_theorems pres_intros \<open>introduction rules for preservation\<close>

definition pres :: "('s \<Rightarrow> bool) \<Rightarrow> ('a, 's) kop \<Rightarrow> bool" where
  "pres I m \<longleftrightarrow> (\<forall>s. I s \<longrightarrow> (case m s of Ok x t \<Rightarrow> I t | Panic e \<Rightarrow> True | Blocked t \<Rightarrow> I t))"

lemma presD_Ok: "pres I m \<Longrightarrow> m s = Ok x t \<Longrightarrow> I s \<Longrightarrow> I t"
  by (auto simp: pres_def dest: spec [of _ s])

lemma presD_Blocked: "pres I m \<Longrightarrow> m s = Blocked t \<Longrightarrow> I s \<Longrightarrow> I t"
  by (auto simp: pres_def dest: spec [of _ s])

lemma pres_imp: "pres I m \<Longrightarrow> I s \<Longrightarrow> case m s of Ok x t \<Rightarrow> I t | Panic e \<Rightarrow> True | Blocked t \<Rightarrow> I t"
  by (simp add: pres_def)

lemma pres_weaken:
  assumes "pres I m" "I s" "\<And>t. I t \<Longrightarrow> J t"
  shows "case m s of Ok x t \<Rightarrow> J t | Panic e \<Rightarrow> True | Blocked t \<Rightarrow> J t"
  using pres_imp [OF assms(1,2)] assms(3) by (cases "m s") auto

lemma pres_bnd [pres_intros]: "pres I m \<Longrightarrow> (\<And>x. pres I (k x)) \<Longrightarrow> pres I (bnd m k)"
proof -
  assume m: "pres I m" and k: "\<And>x. pres I (k x)"
  have "case bnd m k s of Ok x t \<Rightarrow> I t | Panic e \<Rightarrow> True | Blocked t \<Rightarrow> I t" if "I s" for s
  proof (cases "m s")
    case (Ok x t)
    then have "I t" using presD_Ok [OF m] that by blast
    then show ?thesis using k [of x] Ok by (simp add: bnd_def pres_def)
  next
    case (Blocked t)
    then show ?thesis using presD_Blocked [OF m] that by (simp add: bnd_def)
  qed (simp add: bnd_def)
  then show ?thesis by (simp add: pres_def)
qed

lemma pres_andthen [pres_intros]: "pres I m \<Longrightarrow> pres I k \<Longrightarrow> pres I (andthen m k)"
  by (simp add: andthen_def pres_bnd)

lemma pres_ret [pres_intros]: "pres I (ret x)"
  by (simp add: pres_def ret_def)

lemma pres_panic [pres_intros]: "pres I (panic e)"
  by (simp add: pres_def panic_def)

lemma pres_fetch [pres_intros]: "pres I (fetch f)"
  by (simp add: pres_def fetch_def)

lemma pres_modify: "(\<And>s. I s \<Longrightarrow> I (f s)) \<Longrightarrow> pres I (modify f)"
  by (simp add: pres_def modify_def)

lemma pres_whenk [pres_intros]: "(c \<Longrightarrow> pres I m) \<Longrightarrow> pres I (whenk c m)"
  by (simp add: whenk_def pres_ret)

lemma pres_if [pres_intros]: "(c \<Longrightarrow> pres I m) \<Longrightarrow> (\<not> c \<Longrightarrow> pres I n) \<Longrightarrow> pres I (if c then m else n)"
  by simp

lemma pres_option [pres_intros]:
  "(x = None \<Longrightarrow> pres I m) \<Longrightarrow> (\<And>y. x = Some y \<Longrightarrow> pres I (n y)) \<Longrightarrow> pres I (case x of None \<Rightarrow> m | Some y \<Rightarrow> n y)"
  by (cases x) simp_all

lemma pres_prod [pres_intros]: "(\<And>a b. x = (a, b) \<Longrightarrow> pres I (n a b)) \<Longrightarrow> pres I (case x of (a, b) \<Rightarrow> n a b)"
  by (cases x) simp

lemma pres_let [pres_intros]: "pres I (f x) \<Longrightarrow> pres I (let y = x in f y)"
  by simp

lemma pres_for_each [pres_intros]: "(\<And>i. i \<in> set is \<Longrightarrow> pres I (f i)) \<Longrightarrow> pres I (for_each is f)"
  by (induction "is") (simp_all add: pres_ret pres_andthen)

text \<open>Routines that only read: locks apart, they change nothing.\<close>

lemma pres_acquire: "(\<And>s h. I s \<Longrightarrow> I (s\<lparr>k_held := h\<rparr>)) \<Longrightarrow> pres I (acquire lk)"
  unfolding acquire_def holding_def by (intro pres_intros pres_modify) blast

lemma pres_release: "(\<And>s h. I s \<Longrightarrow> I (s\<lparr>k_held := h\<rparr>)) \<Longrightarrow> pres I (release lk)"
  unfolding release_def holding_def by (intro pres_intros pres_modify) blast

lemma pres_proc_get [pres_intros]: "pres I (proc_get p f)"
  by (simp add: proc_get_def pres_fetch)

lemma pres_curproc [pres_intros]: "pres I curproc"
  unfolding curproc_def myproc_def by (intro pres_intros)

lemma pres_cprintf:
  "(\<And>s h. I s \<Longrightarrow> I (s\<lparr>k_held := h\<rparr>)) \<Longrightarrow> (\<And>s h. I s \<Longrightarrow> I (s\<lparr>k_out := h\<rparr>)) \<Longrightarrow> pres I (cprintf fmt args)"
  unfolding cprintf_def by (intro pres_intros pres_acquire pres_release pres_modify) auto

section \<open>From one predicate to another\<close>

text \<open>From \<open>P\<close> the routine establishes \<open>Q\<close> when it returns, and \<open>B\<close> when it gives the CPU up.\<close>

definition triple :: "('s \<Rightarrow> bool) \<Rightarrow> ('a, 's) kop \<Rightarrow> ('a \<Rightarrow> 's \<Rightarrow> bool) \<Rightarrow> ('s \<Rightarrow> bool) \<Rightarrow> bool" where
  "triple P m Q B \<longleftrightarrow> (\<forall>s. P s \<longrightarrow> (case m s of Ok x t \<Rightarrow> Q x t | Panic e \<Rightarrow> True | Blocked t \<Rightarrow> B t))"

lemma triple_pres: "pres I m \<Longrightarrow> (\<And>s. I s \<Longrightarrow> B s) \<Longrightarrow> triple I m (\<lambda>_. I) B"
proof -
  assume p: "pres I m" and b: "\<And>s. I s \<Longrightarrow> B s"
  show ?thesis
    unfolding triple_def
  proof (intro allI impI)
    fix s
    assume "I s"
    then show "case m s of Ok x t \<Rightarrow> I t | Panic e \<Rightarrow> True | Blocked t \<Rightarrow> B t"
      using presD_Ok [OF p] presD_Blocked [OF p] b by (cases "m s") auto
  qed
qed

lemma triple_bnd:
  assumes "triple P m R B" "\<And>x. triple (R x) (k x) Q B"
  shows "triple P (bnd m k) Q B"
  unfolding triple_def
proof (intro allI impI)
  fix s
  assume "P s"
  then have m: "case m s of Ok x t \<Rightarrow> R x t | Panic e \<Rightarrow> True | Blocked t \<Rightarrow> B t" using assms(1) by (simp add: triple_def)
  show "case bnd m k s of Ok x t \<Rightarrow> Q x t | Panic e \<Rightarrow> True | Blocked t \<Rightarrow> B t"
  proof (cases "m s")
    case (Ok x t)
    then show ?thesis using m assms(2) [of x] by (simp add: bnd_def triple_def)
  qed (use m in \<open>simp_all add: bnd_def\<close>)
qed

lemma triple_andthen: "triple P m (\<lambda>_. R) B \<Longrightarrow> triple R k Q B \<Longrightarrow> triple P (andthen m k) Q B"
  unfolding andthen_def by (rule triple_bnd)

lemma triple_ret: "(\<And>s. P s \<Longrightarrow> Q x s) \<Longrightarrow> triple P (ret x) Q B"
  by (simp add: triple_def ret_def)

lemma triple_modify: "(\<And>s. P s \<Longrightarrow> Q () (f s)) \<Longrightarrow> triple P (modify f) Q B"
  by (simp add: triple_def modify_def)

lemma triple_if: "(c \<Longrightarrow> triple P m Q B) \<Longrightarrow> (\<not> c \<Longrightarrow> triple P n Q B) \<Longrightarrow> triple P (if c then m else n) Q B"
  by simp

lemma triple_option:
  "triple P m Q B \<Longrightarrow> (\<And>y. triple (R y) (n y) Q B)
   \<Longrightarrow> triple (\<lambda>s. case x of None \<Rightarrow> P s | Some y \<Rightarrow> R y s) (case x of None \<Rightarrow> m | Some y \<Rightarrow> n y) Q B"
  by (cases x) simp_all

lemma triple_imp: "triple P m Q B \<Longrightarrow> P s \<Longrightarrow> case m s of Ok x t \<Rightarrow> Q x t | Panic e \<Rightarrow> True | Blocked t \<Rightarrow> B t"
  by (simp add: triple_def)

lemma triple_is_pres: "triple I m (\<lambda>_. I) I = pres I m"
  by (simp add: triple_def pres_def)

end
