(* ===== verification/Vmframe.thy ===== *)
theory Vmframe
  imports Vm Kpres
begin

text \<open>
  What the memory allocator and the page-table routines leave alone: every predicate that does not
  look at memory, the free list, the held locks or the console output is preserved by them.
\<close>

locale mem_frame =
  fixes I :: "'z mst_scheme \<Rightarrow> bool"
  assumes held: "I s \<Longrightarrow> I (s\<lparr>k_held := h\<rparr>)"
    and mem: "I s \<Longrightarrow> I (s\<lparr>m_mem := m\<rparr>)"
    and freelist: "I s \<Longrightarrow> I (s\<lparr>m_freelist := p\<rparr>)"
    and out: "I s \<Longrightarrow> I (s\<lparr>k_out := c\<rparr>)"
begin

lemma mem_upd: "pres I (mem_upd f)"
  unfolding mem_upd_def by (intro pres_modify mem)

lemma mem_ld: "pres I (mem_ld a)"
  unfolding mem_ld_def by (intro pres_intros)

lemmas basics = mem_upd mem_ld pres_acquire [where I = I, OF held] pres_release [where I = I, OF held]
  pres_cprintf [where I = I, OF held out]

lemma kfree: "pres I (kfree v)"
  unfolding kfree_def by (intro pres_intros basics pres_modify freelist)

lemma kalloc: "pres I kalloc"
  unfolding kalloc_def by (intro pres_intros basics pres_modify freelist)

lemma walkpgdir: "pres I (walkpgdir pd va al)"
  unfolding walkpgdir_def by (intro pres_intros basics kalloc)

lemma map_loop: "pres I (map_loop pd a la pa perm)"
proof (induction pd a la pa perm rule: map_loop.induct)
  case (1 pd a la pa perm)
  show ?case
    by (subst map_loop.simps) (intro pres_intros basics walkpgdir "1.IH")
qed

lemma mappages: "pres I (mappages pd va n pa perm)"
  unfolding mappages_def by (rule map_loop)

lemma dealloc_page: "pres I (dealloc_page pte)"
  unfolding dealloc_page_def by (intro pres_intros basics kfree)

lemma dealloc_loop: "pres I (dealloc_loop pd a lim)"
proof (induction pd a lim rule: dealloc_loop.induct)
  case (1 pd a lim)
  show ?case
    by (subst dealloc_loop.simps) (intro pres_intros basics walkpgdir dealloc_page "1.IH"; simp)
qed

lemma deallocuvm: "pres I (deallocuvm pd o' n)"
  unfolding deallocuvm_def by (intro pres_intros dealloc_loop)

lemma freevm: "pres I (freevm pd)"
  unfolding freevm_def by (intro pres_intros basics deallocuvm kfree)

lemma setupkvm_loop: "pres I (setupkvm_loop pd ks)"
proof (induction ks)
  case Nil
  show ?case unfolding setupkvm_loop.simps by (intro pres_intros)
next
  case (Cons k ks)
  show ?case unfolding setupkvm_loop.simps by (intro pres_intros mappages freevm Cons)
qed

lemma setupkvm: "pres I setupkvm"
  unfolding setupkvm_def by (intro pres_intros basics kalloc setupkvm_loop)

lemma copyuvm_loop: "pres I (copyuvm_loop pd d as)"
proof (induction as)
  case Nil
  show ?case unfolding copyuvm_loop.simps by (intro pres_intros)
next
  case (Cons a as)
  show ?case unfolding copyuvm_loop.simps by (intro pres_intros basics walkpgdir mappages freevm kalloc Cons)
qed

lemma copyuvm: "pres I (copyuvm pd n)"
  unfolding copyuvm_def by (intro pres_intros setupkvm copyuvm_loop)

lemma allocuvm_loop: "pres I (allocuvm_loop pd o' n as)"
proof (induction as)
  case Nil
  show ?case unfolding allocuvm_loop.simps by (intro pres_intros)
next
  case (Cons a as)
  show ?case unfolding allocuvm_loop.simps by (intro pres_intros basics mappages deallocuvm kalloc kfree Cons)
qed

lemma allocuvm: "pres I (allocuvm pd o' n)"
  unfolding allocuvm_def by (intro pres_intros allocuvm_loop)

end

end
