(* ===== verification/Procinv.thy ===== *)
theory Procinv
  imports Proclife Vmframe
begin

text \<open>
  An invariant of the process table over all the operations of \<^verbatim>\<open>proc.c\<close> that change it: live
  processes have distinct positive pids below \<^verbatim>\<open>nextpid\<close>, which is at most \<open>N\<close>, and the process of this CPU is live.
\<close>

section \<open>The invariant\<close>

definition live :: "proc \<Rightarrow> bool" where
  "live p \<longleftrightarrow> p_state p \<noteq> UNUSED"

definition table_ok :: "proc list \<Rightarrow> int \<Rightarrow> nat option \<Rightarrow> bool" where
  "table_ok ps n cur \<longleftrightarrow>
     (\<forall>i<length ps. \<forall>j<length ps. live (ps ! i) \<and> live (ps ! j) \<and> p_pid (ps ! i) = p_pid (ps ! j) \<longrightarrow> i = j)
     \<and> (\<forall>i<length ps. live (ps ! i) \<longrightarrow> 0 < p_pid (ps ! i) \<and> p_pid (ps ! i) < n) \<and> 0 < n
     \<and> (\<forall>p. cur = Some p \<longrightarrow> p < length ps \<and> live (ps ! p))"

definition pids_ok :: "int \<Rightarrow> 'z kst_scheme \<Rightarrow> bool" where
  "pids_ok N s \<longleftrightarrow> table_ok (k_procs s) (k_nextpid s) (k_cur s) \<and> k_nextpid s \<le> N"






section \<open>Operations\<close>








definition embryo :: "int \<Rightarrow> nat \<Rightarrow> 'z kst_scheme \<Rightarrow> bool" where
  "embryo N p s \<longleftrightarrow> pids_ok N s \<and> p < length (k_procs s) \<and> p_state (k_procs s ! p) = EMBRYO \<and> k_cur s \<noteq> Some p"

interpretation pids_frame: mem_frame "pids_ok N" for N
  by unfold_locales (simp_all add: pids_ok_def)




lemma embryo_pids: "embryo N p s \<Longrightarrow> pids_ok N s"
  by (simp add: embryo_def)
















section \<open>Exit, wait, sleep and the scheduler\<close>





















section \<open>The process table as a state machine\<close>









text \<open>Beyond that bound the claim fails: the creation that takes the last positive pid makes the next pid negative.\<close>

interpretation nextpid_frame: mem_frame "\<lambda>s. k_nextpid s = v" for v
  by unfold_locales simp_all

lemma allocproc_stack_nextpid: "pres (\<lambda>s. k_nextpid s = v) (allocproc_stack p)"
  unfolding allocproc_stack_def proc_upd_def
  by (intro pres_intros nextpid_frame.kalloc nextpid_frame.mem_upd pres_modify) (auto intro!: pres_intros nextpid_frame.mem_upd pres_modify)

theorem nextpid_overflow:
  assumes "allocproc s = Ok (Some p) t" "k_nextpid s = 2 ^ 31 - 1"
  shows "k_nextpid t = - (2 ^ 31)"
proof -
  obtain q where q: "PtableLock \<notin> set (k_held s)" "find_idx (\<lambda>p. p_state p = UNUSED) (k_procs s) = Some q"
    using assms(1) by (cases "PtableLock \<in> set (k_held s)"; cases "find_idx (\<lambda>p. p_state p = UNUSED) (k_procs s)")
      (auto simp: allocproc_def kdefs)
  then obtain u where "allocproc_stack q u = Ok (Some p) t" "k_nextpid u = int32 (2 ^ 31)"
    using assms by (simp add: allocproc_def kdefs proc_upd_def)
  then have "k_nextpid t = int32 (2 ^ 31)" using presD_Ok [OF allocproc_stack_nextpid] by blast
  then show ?thesis by (simp add: int32_def)
qed




section \<open>Exit\<close>

text \<open>The table after the turns of the loop for the entries in \<open>js\<close>.\<close>

definition orphans_done :: "nat \<Rightarrow> nat \<Rightarrow> proc list \<Rightarrow> nat list \<Rightarrow> proc list \<Rightarrow> bool" where
  "orphans_done me init ps js qs \<longleftrightarrow> length qs = length ps \<and> (\<forall>i<length ps. qs ! i =
     (let p = (ps ! i)\<lparr>p_parent := if i \<in> set js \<and> p_parent (ps ! i) = Some me then Some init else p_parent (ps ! i)\<rparr>
      in if \<exists>j\<in>set js. p_parent (ps ! j) = Some me \<and> p_state (ps ! j) = ZOMBIE then wake (ChProc init) p else p))"

lemma wake_simps [simp]:
  "p_parent (wake ch p) = p_parent p" "p_state (wake ch p) = ZOMBIE \<longleftrightarrow> p_state p = ZOMBIE"
  "wake ch (wake ch p) = wake ch p" "(wake ch p)\<lparr>p_parent := x\<rparr> = wake ch (p\<lparr>p_parent := x\<rparr>)"
  by (simp_all add: wake_def)

lemma proc_parent_idem [simp]: "p\<lparr>p_parent := p_parent p\<rparr> = (p :: proc)"
  by (cases p) simp

lemma orphans_step:
  assumes "orphans_done me init ps js qs" "i < length ps" "i \<notin> set js" "p_parent (qs ! i) = Some me"
    "rs = qs[i := (qs ! i)\<lparr>p_parent := Some init\<rparr>]"
  shows "orphans_done me init ps (js @ [i]) (if p_state (qs ! i) = ZOMBIE then map (wake (ChProc init)) rs else rs)"
proof -
  let ?w = "\<exists>j\<in>set js. p_parent (ps ! j) = Some me \<and> p_state (ps ! j) = ZOMBIE"
  have len: "length qs = length ps" and q: "\<And>k. k < length ps \<Longrightarrow> qs ! k =
     (let p = (ps ! k)\<lparr>p_parent := if k \<in> set js \<and> p_parent (ps ! k) = Some me then Some init else p_parent (ps ! k)\<rparr>
      in if ?w then wake (ChProc init) p else p)"
    using assms(1) by (simp_all add: orphans_done_def)
  have i: "p_parent (ps ! i) = Some me" "p_state (qs ! i) = ZOMBIE \<longleftrightarrow> p_state (ps ! i) = ZOMBIE"
    using q [OF assms(2)] assms(3,4) by (simp_all add: Let_def split: if_splits)
  have r: "rs ! k = (let p = (ps ! k)\<lparr>p_parent := if k \<in> set (js @ [i]) \<and> p_parent (ps ! k) = Some me then Some init else p_parent (ps ! k)\<rparr>
      in if ?w then wake (ChProc init) p else p)" if "k < length ps" for k
    using q [OF that] q [OF assms(2)] that len assms(5) i(1) by (cases "k = i") (auto simp: Let_def)
  show ?thesis
    using r i len assms(2,5) by (auto simp: orphans_done_def Let_def)
qed

lemma orphans_skip:
  assumes "orphans_done me init ps js qs" "i < length ps" "i \<notin> set js" "p_parent (qs ! i) \<noteq> Some me"
  shows "orphans_done me init ps (js @ [i]) qs"
proof -
  have "p_parent (ps ! i) \<noteq> Some me"
    using assms by (auto simp: orphans_done_def Let_def split: if_splits)
  then show ?thesis using assms(1) by (auto simp: orphans_done_def Let_def)
qed

lemma reparent_all:
  assumes "k_initproc s = Some init"
  shows "wp (for_each [0..<length (k_procs s)] (reparent_one me))
    (\<lambda>_ t. \<exists>qs. t = s\<lparr>k_procs := qs\<rparr> \<and> orphans_done me init (k_procs s) [0..<length (k_procs s)] qs) s"
proof (rule wp_for_each [where I = "\<lambda>js t. \<exists>qs. t = s\<lparr>k_procs := qs\<rparr> \<and> orphans_done me init (k_procs s) js qs"])
  have "orphans_done me init (k_procs s) [] (k_procs s)" by (simp add: orphans_done_def)
  then show "\<exists>qs. s = s\<lparr>k_procs := qs\<rparr> \<and> orphans_done me init (k_procs s) [] qs"
    by (intro exI [of _ "k_procs s"]) simp
next
  fix js i rest t
  assume l: "[0..<length (k_procs s)] = js @ i # rest"
    and "\<exists>qs. t = s\<lparr>k_procs := qs\<rparr> \<and> orphans_done me init (k_procs s) js qs"
  then obtain qs where t: "t = s\<lparr>k_procs := qs\<rparr>" and od: "orphans_done me init (k_procs s) js qs" by blast
  have "i \<in> set [0..<length (k_procs s)]" unfolding l by simp
  moreover have "distinct (js @ i # rest)" unfolding l [symmetric] by simp
  ultimately have i: "i < length (k_procs s)" "i \<notin> set js" by auto
  show "wp (reparent_one me i) (\<lambda>_ t. \<exists>qs. t = s\<lparr>k_procs := qs\<rparr> \<and> orphans_done me init (k_procs s) (js @ [i]) qs) t"
  proof (cases "p_parent (qs ! i) = Some me")
    case True
    let ?rs = "qs[i := (qs ! i)\<lparr>p_parent := Some init\<rparr>]"
    have "reparent_one me i t = Ok () (s\<lparr>k_procs := if p_state (qs ! i) = ZOMBIE then map (wake (ChProc init)) ?rs else ?rs\<rparr>)"
      using True assms by (simp add: reparent_one_def kdefs cur_defs wakeup1_def t parent_chan_def)
    then show ?thesis by (rule wp_OkI) (use orphans_step [OF od i True refl] in blast)
  next
    case False
    then have "reparent_one me i t = Ok () t" by (simp add: reparent_one_def kdefs cur_defs t)
    then show ?thesis using orphans_skip [OF od i False] t by (intro wp_OkI) blast+
  qed
qed


text \<open>
  C18: \<^verbatim>\<open>exit\<close> under the table lock.  The process becomes a zombie and gives the CPU up holding only the
  table lock; each of its children, and nobody else, gets init as parent; a parent asleep in
  \<^verbatim>\<open>wait\<close> is made runnable, and so is init when a child it inherits has already exited.
\<close>

theorem exit_hands_over:
  assumes "k_held s = []" "k_cur s = Some me" "me < length (k_procs s)" "k_initproc s = Some init"
  shows "\<exists>t. exit_tail me s = Blocked t \<and> k_held t = [PtableLock] \<and> p_state (k_procs t ! me) = ZOMBIE
    \<and> length (k_procs t) = length (k_procs s)
    \<and> (\<forall>i<length (k_procs s). p_parent (k_procs t ! i)
        = (if p_parent (k_procs s ! i) = Some me then Some init else p_parent (k_procs s ! i)))
    \<and> (\<forall>i<length (k_procs s). i \<noteq> me \<longrightarrow> p_state (k_procs t ! i) =
        (if p_state (k_procs s ! i) = SLEEPING \<and> (p_chan (k_procs s ! i) = parent_chan (p_parent (k_procs s ! me))
             \<or> p_chan (k_procs s ! i) = ChProc init
               \<and> (\<exists>j<length (k_procs s). p_parent (k_procs s ! j) = Some me \<and> p_state (k_procs s ! j) = ZOMBIE))
         then RUNNABLE else p_state (k_procs s ! i)))"
proof -
  let ?ps = "k_procs s"
  let ?qs = "map (wake (parent_chan (p_parent (?ps ! me)))) ?ps"
  let ?u = "s\<lparr>k_held := [PtableLock], k_procs := ?qs\<rparr>"
  let ?w = "\<exists>j<length ?ps. p_parent (?ps ! j) = Some me \<and> p_state (?ps ! j) = ZOMBIE"
  obtain rs where r: "for_each [0..<length ?ps] (reparent_one me) ?u = Ok () (?u\<lparr>k_procs := rs\<rparr>)"
    "orphans_done me init ?qs [0..<length ?ps] rs"
    using reparent_all [of ?u init me] assms(4) by (auto simp: wp_iff)
  let ?t = "?u\<lparr>k_procs := rs[me := (rs ! me)\<lparr>p_state := ZOMBIE\<rparr>]\<rparr>"
  have l: "length rs = length ?ps" using r(2) by (simp add: orphans_done_def)
  have w: "(\<exists>j\<in>set [0..<length ?ps]. p_parent (?qs ! j) = Some me \<and> p_state (?qs ! j) = ZOMBIE) \<longleftrightarrow> ?w" by auto
  have n: "rs ! i = (let p = (?qs ! i)\<lparr>p_parent := if p_parent (?ps ! i) = Some me then Some init else p_parent (?ps ! i)\<rparr>
      in if ?w then wake (ChProc init) p else p)" if "i < length ?ps" for i
    using r(2) that unfolding orphans_done_def w by (auto simp: Let_def)
  have "exit_tail me s = Blocked ?t"
    using assms r(1) l by (simp add: exit_tail_def sched_def swtch_def cur_defs lock_defs kdefs wakeup1_def)
  moreover have "p_parent (k_procs ?t ! i) = (if p_parent (?ps ! i) = Some me then Some init else p_parent (?ps ! i))"
    if "i < length ?ps" for i
    using n [OF that] that l by (cases "i = me") (simp_all add: Let_def)
  moreover have "p_state (k_procs ?t ! i) = (if p_state (?ps ! i) = SLEEPING \<and> (p_chan (?ps ! i) = parent_chan (p_parent (?ps ! me))
      \<or> p_chan (?ps ! i) = ChProc init \<and> ?w) then RUNNABLE else p_state (?ps ! i))" if "i < length ?ps" "i \<noteq> me" for i
    using n [OF that(1)] that l by (auto simp: Let_def wake_def)
  ultimately show ?thesis using l assms(3) by (intro exI [of _ ?t]) simp
qed

theorem exit_hands_over_witness:
  "\<exists>t. exit_tail 1 (kst0\<lparr>k_cur := Some 1, k_initproc := Some 0, k_procs := [proc0\<lparr>p_state := SLEEPING, p_chan := ChProc 0\<rparr>,
       proc0\<lparr>p_state := RUNNING, p_parent := Some 0\<rparr>, proc0\<lparr>p_state := ZOMBIE, p_parent := Some 1\<rparr>]\<rparr>) = Blocked t
     \<and> p_parent (k_procs t ! 2) = Some 0 \<and> p_state (k_procs t ! 0) = RUNNABLE \<and> p_state (k_procs t ! 1) = ZOMBIE"
  using exit_hands_over [of "kst0\<lparr>k_cur := Some 1, k_initproc := Some 0, k_procs := [proc0\<lparr>p_state := SLEEPING, p_chan := ChProc 0\<rparr>,
       proc0\<lparr>p_state := RUNNING, p_parent := Some 0\<rparr>, proc0\<lparr>p_state := ZOMBIE, p_parent := Some 1\<rparr>]\<rparr>" 1 0]
  by (auto simp: kst0_def parent_chan_def)

end
