(* ===== verification/Sysarg.thy ===== *)
theory Sysarg
  imports Proclife
begin

text \<open>
  System call arguments, \<^verbatim>\<open>syscall.c\<close>: the words on the user stack and the pointers and strings they
  refer to, checked against the size of the process.  User memory is read and written through the
  page table of the running process; an access that nothing is mapped at faults, and a fault in the
  kernel panics.
\<close>

section \<open>User memory\<close>

fun uread :: "u32 \<Rightarrow> nat \<Rightarrow> (u8 list, 'z mst_scheme) kop" where
  "uread a 0 = ret []"
| "uread a (Suc n) =
     bnd (fetch (\<lambda>s. map_option (m_mem s) (kaddr s a))) (\<lambda>b. case b of None \<Rightarrow> panic ''trap''
     | Some x \<Rightarrow> bnd (uread (a + 1) n) (\<lambda>xs. ret (x # xs)))"

fun uwrite :: "u32 \<Rightarrow> u8 list \<Rightarrow> (unit, 'z mst_scheme) kop" where
  "uwrite a [] = ret ()"
| "uwrite a (x # xs) =
     bnd (fetch (\<lambda>s. kaddr s a)) (\<lambda>k. case k of None \<Rightarrow> panic ''trap''
     | Some b \<Rightarrow> andthen (mem_upd (\<lambda>m. m(b := x))) (uwrite (a + 1) xs))"

definition word_bytes :: "u32 \<Rightarrow> u8 list" where
  "word_bytes v = [ucast v, ucast (drop_bit 8 v), ucast (drop_bit 16 v), ucast (drop_bit 24 v)]"

definition half_bytes :: "u16 \<Rightarrow> u8 list" where
  "half_bytes v = [ucast v, ucast (drop_bit 8 v)]"

definition bytes_word :: "u8 list \<Rightarrow> u32" where
  "bytes_word xs = load32 (\<lambda>i. xs ! i) (0 :: nat)"

section \<open>Arguments\<close>

definition fetchint :: "u32 \<Rightarrow> (u32 option, 'z mst_scheme) kop" where
  "fetchint addr =
     bnd curproc (\<lambda>me. bnd (proc_get me p_sz) (\<lambda>sz.
     if addr \<ge> sz \<or> addr + 4 > sz then ret None
     else bnd (uread addr 4) (\<lambda>xs. ret (Some (bytes_word xs)))))"

text \<open>The loop of \<^verbatim>\<open>fetchstr\<close>: the bytes before the first zero byte below \<open>ep\<close>.\<close>

function fetchstr_loop :: "u32 \<Rightarrow> u32 \<Rightarrow> (u8 list option, 'z mst_scheme) kop" where
  "fetchstr_loop a ep =
     (if a < ep then
        bnd (uread a 1) (\<lambda>xs. if hd xs = 0 then ret (Some [])
        else bnd (fetchstr_loop (a + 1) ep) (\<lambda>r. ret (map_option (Cons (hd xs)) r)))
      else ret None)"
  by pat_completeness auto
termination
proof (relation "measure (\<lambda>(a, ep). unat ep - unat a)")
  fix a ep :: u32
  assume lt: "a < ep"
  then have "unat a + 1 < 2 ^ 32" using unsigned_less [of ep, where 'a = nat] by (simp add: word_less_nat_alt)
  then have "unat (a + 1) = unat a + 1" by (subst unat_add_small) simp_all
  then show "((a + 1, ep), a, ep) \<in> measure (\<lambda>(a, ep). unat ep - unat a)"
    using lt by (simp add: word_less_nat_alt)
qed simp

declare fetchstr_loop.simps [simp del]

definition fetchstr :: "u32 \<Rightarrow> (u8 list option, 'z mst_scheme) kop" where
  "fetchstr addr =
     bnd curproc (\<lambda>me. bnd (proc_get me p_sz) (\<lambda>sz.
     if addr \<ge> sz then ret None else fetchstr_loop addr sz))"

definition argint :: "nat \<Rightarrow> (u32 option, 'z mst_scheme) kop" where
  "argint n = bnd curproc (\<lambda>me. bnd (proc_get me (\<lambda>p. tf_esp (p_tf p))) (\<lambda>esp. fetchint (esp + 4 + 4 * of_nat n)))"

definition argptr :: "nat \<Rightarrow> int \<Rightarrow> (u32 option, 'z mst_scheme) kop" where
  "argptr n sz =
     bnd curproc (\<lambda>me.
     bnd (argint n) (\<lambda>r. case r of None \<Rightarrow> ret None
     | Some i \<Rightarrow> bnd (proc_get me p_sz) (\<lambda>psz.
       if sz < 0 \<or> i \<ge> psz \<or> i + word_of_int sz > psz then ret None else ret (Some i))))"

definition argstr :: "nat \<Rightarrow> (u8 list option, 'z mst_scheme) kop" where
  "argstr n = bnd (argint n) (\<lambda>r. case r of None \<Rightarrow> ret None | Some a \<Rightarrow> fetchstr a)"

section \<open>Lemmas\<close>

definition umapped :: "'z mst_scheme \<Rightarrow> u32 \<Rightarrow> bool" where
  "umapped s sz \<longleftrightarrow> (\<forall>a. a < sz \<longrightarrow> kaddr s a \<noteq> None)"

definition ubyte :: "'z mst_scheme \<Rightarrow> u32 \<Rightarrow> u8" where
  "ubyte s a = m_mem s (the (kaddr s a))"

lemma uread_Ok:
  assumes "\<And>i. i < n \<Longrightarrow> kaddr s (a + of_nat i) \<noteq> None"
  shows "uread a n s = Ok (map (\<lambda>i. ubyte s (a + of_nat i)) [0..<n]) s"
  using assms
proof (induction n arbitrary: a)
  case 0
  then show ?case by (simp add: ret_def)
next
  case (Suc n)
  have "kaddr s (a + 1 + of_nat i) \<noteq> None" if "i < n" for i
    using Suc.prems [of "Suc i"] that by (simp add: add.assoc)
  note IH = Suc.IH [OF this]
  obtain k where k: "kaddr s a = Some k" using Suc.prems [of 0] by auto
  have "map (\<lambda>i. ubyte s (a + of_nat i)) [0..<Suc n] = ubyte s a # map (\<lambda>i. ubyte s (a + 1 + of_nat i)) [0..<n]"
    by (simp only: upt_conv_Cons zero_less_Suc map_Suc_upt [symmetric] list.map) (simp add: o_def add.assoc)
  then show ?case using k IH by (simp add: bnd_def fetch_def ret_def ubyte_def del: upt_Suc)
qed

lemma fetchint_Ok:
  assumes "k_cur s = Some me" "umapped s (p_sz (k_procs s ! me))" "p_sz (k_procs s ! me) \<le> KERNBASE"
  shows "\<exists>r. fetchint a s = Ok r s \<and> (r \<noteq> None \<longleftrightarrow> unat a + 4 \<le> unat (p_sz (k_procs s ! me)))"
proof -
  let ?sz = "p_sz (k_procs s ! me)"
  have k: "unat ?sz \<le> 0x80000000" using assms(3) by (simp add: KERNBASE_def word_le_nat_alt)
  have b: "\<not> (a \<ge> ?sz \<or> a + 4 > ?sz) \<longleftrightarrow> unat a + 4 \<le> unat ?sz"
  proof (cases "a < ?sz")
    case True
    then have "unat (a + 4) = unat a + 4" using k by (subst unat_add_small) (simp_all add: word_less_nat_alt)
    then show ?thesis using True by (simp add: word_less_nat_alt word_le_nat_alt not_le not_less)
  next
    case False
    then show ?thesis by (simp add: word_less_nat_alt word_le_nat_alt not_less)
  qed
  show ?thesis
  proof (cases "a \<ge> ?sz \<or> a + 4 > ?sz")
    case True
    then have "fetchint a s = Ok None s" using assms(1) by (simp add: fetchint_def kdefs proc_get_def)
    then show ?thesis using True b by auto
  next
    case False
    then have le: "unat a + 4 \<le> unat ?sz" using b by blast
    have "kaddr s (a + of_nat i) \<noteq> None" if "i < 4" for i
    proof -
      have "unat (a + of_nat i) = unat a + i" using unat_off [of a i] le k that by simp
      then have "a + of_nat i < ?sz" using le that by (simp add: word_less_nat_alt)
      then show ?thesis using assms(2) by (simp add: umapped_def)
    qed
    note u = uread_Ok [OF this]
    have "fetchint a s = bnd (uread a 4) (\<lambda>xs. ret (Some (bytes_word xs))) s"
      using assms(1) unfolding fetchint_def by (simp add: bnd_def proc_get_def fetch_def if_not_P [OF False])
    then show ?thesis using u le by (simp add: bnd_def ret_def)
  qed
qed

lemma fetchstr_loop_Ok:
  assumes "umapped s ep"
  shows "\<exists>r. fetchstr_loop a ep s = Ok r s \<and> (case r of
      None \<Rightarrow> (\<forall>b. a \<le> b \<and> b < ep \<longrightarrow> ubyte s b \<noteq> 0)
    | Some str \<Rightarrow> unat a + length str < unat ep \<and> 0 \<notin> set str)"
  using assms
proof (induction a ep rule: fetchstr_loop.induct)
  case (1 a ep)
  show ?case
  proof (cases "a < ep")
    case False
    then have "fetchstr_loop a ep s = Ok None s" by (subst fetchstr_loop.simps) (simp add: ret_def)
    then show ?thesis using False by auto
  next
    case True
    have u: "uread a 1 s = Ok [ubyte s a] s" using uread_Ok [of 1 s a] "1.prems" True by (simp add: umapped_def)
    have a1: "unat (a + 1) = unat a + 1"
      using True unsigned_less [of ep, where 'a = nat] by (subst unat_add_small) (simp_all add: word_less_nat_alt)
    show ?thesis
    proof (cases "ubyte s a = 0")
      case z: True
      then have "fetchstr_loop a ep s = Ok (Some []) s"
        using True u by (subst fetchstr_loop.simps) (simp add: bnd_def ret_def del: uread.simps)
      then show ?thesis using True by (auto simp: word_less_nat_alt)
    next
      case nz: False
      obtain r where r: "fetchstr_loop (a + 1) ep s = Ok r s" "case r of
          None \<Rightarrow> (\<forall>b. a + 1 \<le> b \<and> b < ep \<longrightarrow> ubyte s b \<noteq> 0)
        | Some str \<Rightarrow> unat (a + 1) + length str < unat ep \<and> 0 \<notin> set str"
        using "1.IH" [OF True _ "1.prems", of "[ubyte s a]"] nz by auto
      have f: "fetchstr_loop a ep s = Ok (map_option (Cons (ubyte s a)) r) s"
        using True u nz r(1) by (subst fetchstr_loop.simps) (simp add: bnd_def ret_def del: uread.simps)
      have "ubyte s b \<noteq> 0" if "r = None" "a \<le> b" "b < ep" for b
      proof (cases "b = a")
        case False
        then have "unat a < unat b" using that(2) by (simp add: word_le_nat_alt word_unat_eq_iff)
        then have "a + 1 \<le> b" using a1 by (simp add: word_le_nat_alt)
        then show ?thesis using that r(2) by simp
      qed (use nz in simp)
      then show ?thesis using f r(2) nz a1 by (cases r) auto
    qed
  qed
qed

section \<open>Properties\<close>

text \<open>
  C20: no system call reaches outside its process through an argument.  For a process whose pages are
  mapped and end below the kernel, \<^verbatim>\<open>fetchint\<close>, \<^verbatim>\<open>fetchstr\<close> and \<^verbatim>\<open>argptr\<close> always return, without
  fault and without changing anything: an integer is fetched exactly when its four bytes lie in the
  process, a string only when it ends inside it (and is refused only when no byte up to the end is
  zero), and a buffer only when all of it lies inside it, also for addresses near the top of the
  32-bit range.
\<close>

theorem args_in_bounds:
  assumes "k_cur s = Some me" "umapped s (p_sz (k_procs s ! me))" "p_sz (k_procs s ! me) \<le> KERNBASE" "n < 2 ^ 31"
  shows "(\<exists>r. fetchint a s = Ok r s \<and> (r \<noteq> None \<longleftrightarrow> unat a + 4 \<le> unat (p_sz (k_procs s ! me))))
    \<and> (\<exists>r. fetchstr a s = Ok r s \<and> (case r of
          None \<Rightarrow> (\<forall>b. a \<le> b \<and> b < p_sz (k_procs s ! me) \<longrightarrow> ubyte s b \<noteq> 0)
        | Some str \<Rightarrow> unat a + length str < unat (p_sz (k_procs s ! me)) \<and> 0 \<notin> set str))
    \<and> (\<exists>r. argptr k n s = Ok r s \<and> (\<forall>p. r = Some p \<longrightarrow> 0 \<le> n \<and> unat p + nat n \<le> unat (p_sz (k_procs s ! me))))"
proof (intro conjI)
  let ?sz = "p_sz (k_procs s ! me)"
  show "\<exists>r. fetchint a s = Ok r s \<and> (r \<noteq> None \<longleftrightarrow> unat a + 4 \<le> unat ?sz)" by (rule fetchint_Ok [OF assms(1-3)])
  show "\<exists>r. fetchstr a s = Ok r s \<and> (case r of None \<Rightarrow> (\<forall>b. a \<le> b \<and> b < ?sz \<longrightarrow> ubyte s b \<noteq> 0)
        | Some str \<Rightarrow> unat a + length str < unat ?sz \<and> 0 \<notin> set str)"
  proof (cases "a \<ge> ?sz")
    case True
    then have "fetchstr a s = Ok None s" using assms(1) by (simp add: fetchstr_def kdefs proc_get_def)
    then show ?thesis using True by auto
  next
    case False
    then have "fetchstr a s = fetchstr_loop a ?sz s" using assms(1) by (simp add: fetchstr_def bnd_def proc_get_def fetch_def)
    then show ?thesis using fetchstr_loop_Ok [OF assms(2), of a] by simp
  qed
  obtain r where r: "argint k s = Ok r s"
    using fetchint_Ok [OF assms(1-3)] assms(1) by (fastforce simp: argint_def bnd_def proc_get_def fetch_def)
  show "\<exists>r. argptr k n s = Ok r s \<and> (\<forall>p. r = Some p \<longrightarrow> 0 \<le> n \<and> unat p + nat n \<le> unat ?sz)"
  proof (cases r)
    case None
    then show ?thesis using r assms(1) by (simp add: argptr_def kdefs)
  next
    case (Some i)
    show ?thesis
    proof (cases "n < 0 \<or> i \<ge> ?sz \<or> i + word_of_int n > ?sz")
      case True
      then have "argptr k n s = Ok None s" using r Some assms(1) by (auto simp: argptr_def kdefs proc_get_def)
      then show ?thesis by blast
    next
      case False
      then have c: "argptr k n s = Ok (Some i) s" using r Some assms(1) by (auto simp: argptr_def kdefs proc_get_def)
      have "0 \<le> n" using False by simp
      then have "uint (word_of_int n :: u32) = n" using assms(4) by (simp add: uint_word_of_int)
      then have n: "unat (word_of_int n :: u32) = nat n" by (simp only: unat_eq_nat_uint)
      have "unat i < unat ?sz" "unat ?sz \<le> 0x80000000" "nat n < 2 ^ 31"
        using False assms(3,4) by (auto simp: KERNBASE_def word_le_nat_alt not_le)
      then have "unat (i + word_of_int n) = unat i + nat n" using n by (subst unat_add_small) simp_all
      then show ?thesis using c False by (auto simp: word_le_nat_alt not_less)
    qed
  qed
qed


text \<open>A process of one page, at physical address 0x400000, that the page table at 0x80401000 maps at 0.\<close>

definition demo_user :: mst where
  "demo_user = (mst0 (\<lambda>_ _. 0) 1000 0x80200000)
     \<lparr>k_cur := Some 0, k_procs := [proc0\<lparr>p_sz := 4096, p_tf := tf0\<lparr>tf_esp := 16\<rparr>\<rparr>], k_cr3 := 0x401000,
      m_mem := (\<lambda>_. 0)(0x80401000 := 1, 0x80401001 := 0x20, 0x80401002 := 0x40,
        0x80402000 := 7, 0x80402002 := 0x40, 0x80400014 := 8)\<rparr>"

lemma demo_user_facts:
  "k_cur demo_user = Some 0" "p_sz (k_procs demo_user ! 0) = 4096" "k_cr3 demo_user = 0x401000"
  by (simp_all add: demo_user_def)

lemma small_page: "(a :: u32) < 4096 \<Longrightarrow> PDX a = 0 \<and> PTX a = 0 \<and> a AND 0xFFF = a"
proof -
  assume a: "a < 4096"
  then have u: "unat a < 4096" by (simp add: word_less_nat_alt)
  have d: "drop_bit 12 a = 0" using unat_drop_page [of a] u by (simp only: word_unat_eq_iff unat_0)
  have "drop_bit 22 a = drop_bit 10 (drop_bit 12 a)" by (simp only: drop_bit_drop_bit) simp
  then have e: "drop_bit 22 a = 0" unfolding d by simp
  have "a AND 0xFFF = a" using unat_and_page [of a] u by (simp only: word_unat_eq_iff) simp
  then show ?thesis unfolding PDX_def PTX_def d e by simp
qed

lemma demo_user_mapped: "umapped demo_user 4096"
  unfolding umapped_def
proof (intro allI impI)
  fix a :: u32
  assume a: "a < 4096"
  then have "a < KERNBASE" by (simp add: KERNBASE_def word_less_nat_alt)
  then show "kaddr demo_user a \<noteq> None"
    using small_page [OF a]
    by (simp add: kaddr_def translate_def demo_user_def load32_def P2V_def KERNBASE_def PTE_P_def PTE_ADDR_def Let_def not_le)
qed

theorem args_in_bounds_witness:
  "\<exists>r. fetchint 0xFFFFFFFE demo_user = Ok r demo_user \<and> r = None"
proof -
  have "umapped demo_user (p_sz (k_procs demo_user ! 0))" "p_sz (k_procs demo_user ! 0) \<le> KERNBASE"
    using demo_user_mapped by (simp_all add: demo_user_facts KERNBASE_def)
  from args_in_bounds [OF demo_user_facts(1) this, of 4 "0xFFFFFFFE" 0] show ?thesis
    by (auto simp: demo_user_facts)
qed

end
