(* ===== verification/Exec.thy ===== *)
theory Exec
  imports Sysarg
begin

text \<open>
  \<^verbatim>\<open>exec.c\<close>: load a program from a file into a new address space, lay out its stack, and switch to
  it.  The argument strings come without their terminating zero.  \<open>exec_bad\<close> is the code at label
  \<^verbatim>\<open>bad\<close>.
\<close>

section \<open>ELF headers (elf.h)\<close>

definition ELF_MAGIC :: u32 where "ELF_MAGIC = 0x464C457F"
definition ELF_PROG_LOAD :: u32 where "ELF_PROG_LOAD = 1"
definition ELFHDR_SIZE :: nat where "ELFHDR_SIZE = 52"
definition PROGHDR_SIZE :: nat where "PROGHDR_SIZE = 32"

record elfhdr =
  elf_magic :: u32
  elf_entry :: u32
  elf_phoff :: u32
  elf_phnum :: u16

record proghdr =
  ph_type :: u32
  ph_off :: u32
  ph_vaddr :: u32
  ph_paddr :: u32
  ph_filesz :: u32
  ph_memsz :: u32

definition elf_decode :: "u8 list \<Rightarrow> elfhdr" where
  "elf_decode xs = (let m = (\<lambda>i. xs ! i) in
     \<lparr>elf_magic = load32 m (0 :: nat), elf_entry = load32 m 24, elf_phoff = load32 m 28, elf_phnum = load16 m 44\<rparr>)"

definition ph_decode :: "u8 list \<Rightarrow> proghdr" where
  "ph_decode xs = (let m = (\<lambda>i. xs ! i) in
     \<lparr>ph_type = load32 m (0 :: nat), ph_off = load32 m 4, ph_vaddr = load32 m 8, ph_paddr = load32 m 12,
      ph_filesz = load32 m 16, ph_memsz = load32 m 20\<rparr>)"

section \<open>Loading\<close>

text \<open>The loop over the program headers that are left, at file offset \<open>off\<close>: the new size, or
  \<open>None\<close> at a jump to \<^verbatim>\<open>bad\<close>.\<close>

fun exec_load :: "'z xdevs \<Rightarrow> nat \<Rightarrow> u32 \<Rightarrow> nat \<Rightarrow> u32 \<Rightarrow> u32 \<Rightarrow> (u32 option, 'z xst_scheme) kop" where
  "exec_load dv ip pgdir 0 off sz = ret (Some sz)"
| "exec_load dv ip pgdir (Suc k) off sz =
     bnd (readi dv ip off (of_nat PROGHDR_SIZE)) (\<lambda>(r, bytes). if r \<noteq> int PROGHDR_SIZE then ret None else
     let ph = ph_decode bytes; next = off + of_nat PROGHDR_SIZE in
     if ph_type ph \<noteq> ELF_PROG_LOAD then exec_load dv ip pgdir k next sz
     else if ph_memsz ph < ph_filesz ph then ret None
     else if ph_vaddr ph + ph_memsz ph < ph_vaddr ph then ret None
     else bnd (allocuvm pgdir sz (ph_vaddr ph + ph_memsz ph)) (\<lambda>sz. if sz = 0 then ret None
     else if ph_vaddr ph mod PGSIZE \<noteq> 0 then ret None
     else bnd (loaduvm dv pgdir (ph_vaddr ph) ip (ph_off ph) (ph_filesz ph)) (\<lambda>l. if l < 0 then ret None
     else exec_load dv ip pgdir k next sz)))"

section \<open>The stack\<close>

text \<open>Push the argument strings from the number \<open>argc\<close> on: the stack pointer and the pointers to
  the strings.\<close>

fun exec_args :: "u32 \<Rightarrow> u32 \<Rightarrow> nat \<Rightarrow> u8 list list \<Rightarrow> ((u32 \<times> u32 list) option, 'z mst_scheme) kop" where
  "exec_args pgdir sp argc [] = ret (Some (sp, []))"
| "exec_args pgdir sp argc (a # as) =
     (if argc \<ge> MAXARG then ret None else
      let sp = (sp - of_nat (length a + 1)) AND NOT 3 in
      bnd (copyout pgdir sp (a @ [0])) (\<lambda>r. if r < 0 then ret None else
      bnd (exec_args pgdir sp (Suc argc) as) (\<lambda>q.
      ret (map_option (\<lambda>(sp', ps). (sp', sp # ps)) q))))"

text \<open>The words below the strings: fake return address, argument count, argument vector.\<close>

definition ustack :: "u32 \<Rightarrow> u32 list \<Rightarrow> u32 list" where
  "ustack sp ps = (let argc = length ps in
     [0xffffffff, of_nat argc, sp - of_nat (argc + 1) * 4] @ ps @ [0])"

text \<open>The part of a path behind its last slash.\<close>

fun last_elem :: "u8 list \<Rightarrow> u8 list \<Rightarrow> u8 list" where
  "last_elem la [] = la"
| "last_elem la (c # s) = (if c = slash then last_elem s s else last_elem la s)"

definition exec_bad :: "u32 \<Rightarrow> nat option \<Rightarrow> (int, 'z xst_scheme) kop" where
  "exec_bad pgdir ip =
     andthen (whenk (pgdir \<noteq> 0) (freevm pgdir))
     (andthen (case ip of None \<Rightarrow> ret () | Some i \<Rightarrow> andthen (iunlockput i) end_op)
     (ret (- 1)))"

definition exec_commit :: "nat \<Rightarrow> u8 list \<Rightarrow> u32 \<Rightarrow> u32 \<Rightarrow> u32 \<Rightarrow> u32 \<Rightarrow> (int, 'z xst_scheme) kop" where
  "exec_commit me path pgdir sz entry sp =
     bnd (proc_get me p_pgdir) (\<lambda>oldpgdir.
     andthen (proc_upd me (\<lambda>q. q\<lparr>p_name := proc_name (map (\<lambda>c. char_of (unat c)) (last_elem path path)),
       p_pgdir := pgdir, p_sz := sz, p_tf := (p_tf q)\<lparr>tf_eip := entry, tf_esp := sp\<rparr>, p_priority := 2\<rparr>))
     (andthen (switchuvm (Some me))
     (andthen (freevm oldpgdir)
     (ret 0))))"

definition exec_stack :: "nat \<Rightarrow> u8 list \<Rightarrow> u8 list list \<Rightarrow> u32 \<Rightarrow> u32 \<Rightarrow> u32 \<Rightarrow> (int, 'z xst_scheme) kop" where
  "exec_stack me path argv pgdir sz entry =
     (let sz = PGROUNDUP sz in
     bnd (allocuvm pgdir sz (sz + 2 * PGSIZE)) (\<lambda>sz. if sz = 0 then exec_bad pgdir None else
     andthen (clearpteu pgdir (sz - 2 * PGSIZE))
     (bnd (exec_args pgdir sz 0 argv) (\<lambda>r. case r of None \<Rightarrow> exec_bad pgdir None
     | Some (sp, ps) \<Rightarrow>
       let words = ustack sp ps; sp = sp - of_nat (length words) * 4 in
       bnd (copyout pgdir sp (concat (map word_bytes words))) (\<lambda>r. if r < 0 then exec_bad pgdir None else
       exec_commit me path pgdir sz entry sp)))))"

definition exec :: "'z xdevs \<Rightarrow> u8 list \<Rightarrow> u8 list list \<Rightarrow> (int, 'z xst_scheme) kop" where
  "exec dv path argv =
     bnd curproc (\<lambda>me.
     andthen begin_op
     (bnd (namei dv path) (\<lambda>r. case r of
       None \<Rightarrow> andthen end_op (andthen (cprintf (''exec: fail'' @ nl) []) (ret (- 1)))
     | Some ip \<Rightarrow>
       andthen (ilock ip)
       (bnd (readi dv ip 0 (of_nat ELFHDR_SIZE)) (\<lambda>(n, bytes). if n \<noteq> int ELFHDR_SIZE then exec_bad 0 (Some ip) else
        let elf = elf_decode bytes in
        if elf_magic elf \<noteq> ELF_MAGIC then exec_bad 0 (Some ip) else
        bnd setupkvm (\<lambda>pgdir. if pgdir = 0 then exec_bad 0 (Some ip) else
        bnd (exec_load dv ip pgdir (unat (elf_phnum elf)) (elf_phoff elf) 0) (\<lambda>r. case r of
          None \<Rightarrow> exec_bad pgdir (Some ip)
        | Some sz \<Rightarrow>
          andthen (iunlockput ip)
          (andthen end_op
          (exec_stack me path argv pgdir sz (elf_entry elf))))))))))"

end
