(* ===== verification/Sysfile.thy ===== *)
theory Sysfile
  imports Exec
begin

text \<open>
  The file-system calls of \<^verbatim>\<open>sysfile.c\<close>.  Each call is its handler, from the checks of its arguments to
  the value the process finds in \<^verbatim>\<open>eax\<close>; the labels \<^verbatim>\<open>bad\<close> are definitions of their own.  A call that
  has to wait ends in \<open>Blocked\<close>.
\<close>

section \<open>Descriptors\<close>

definition argfd :: "nat \<Rightarrow> ((nat \<times> nat) option, 'z xst_scheme) kop" where
  "argfd n =
     bnd (argint n) (\<lambda>r. case r of None \<Rightarrow> ret None
     | Some w \<Rightarrow> let fd = sint w in
       if fd < 0 \<or> fd \<ge> int NOFILE then ret None
       else bnd curproc (\<lambda>me. bnd (proc_get me (\<lambda>p. p_ofile p ! nat fd)) (\<lambda>f. case f of
         None \<Rightarrow> ret None | Some g \<Rightarrow> ret (Some (nat fd, g)))))"

definition fdalloc :: "nat \<Rightarrow> (nat option, 'z kst_scheme) kop" where
  "fdalloc f =
     bnd curproc (\<lambda>me. bnd (proc_get me p_ofile) (\<lambda>fs.
     case List.find (\<lambda>fd. fs ! fd = None) [0..<NOFILE] of
       None \<Rightarrow> ret None
     | Some fd \<Rightarrow> andthen (proc_upd me (\<lambda>q. q\<lparr>p_ofile := (p_ofile q)[fd := Some f]\<rparr>)) (ret (Some fd))))"

definition sys_dup :: "(int, 'z xst_scheme) kop" where
  "sys_dup =
     bnd (argfd 0) (\<lambda>r. case r of None \<Rightarrow> ret (- 1)
     | Some (_, f) \<Rightarrow> bnd (fdalloc f) (\<lambda>r. case r of None \<Rightarrow> ret (- 1)
     | Some fd \<Rightarrow> bnd (filedup f) (\<lambda>_. ret (int fd))))"

text \<open>The arguments of \<^verbatim>\<open>sys_read\<close> and \<^verbatim>\<open>sys_write\<close>: file, buffer, count.\<close>

definition arg_io :: "((nat \<times> u32 \<times> int) option, 'z xst_scheme) kop" where
  "arg_io =
     bnd (argfd 0) (\<lambda>r. case r of None \<Rightarrow> ret None
     | Some (_, f) \<Rightarrow> bnd (argint 2) (\<lambda>r. case r of None \<Rightarrow> ret None
     | Some n \<Rightarrow> bnd (argptr 1 (sint n)) (\<lambda>r. case r of None \<Rightarrow> ret None
     | Some p \<Rightarrow> ret (Some (f, p, sint n)))))"

definition sys_read :: "'z xdevs \<Rightarrow> (int, 'z xst_scheme) kop" where
  "sys_read dv =
     bnd arg_io (\<lambda>r. case r of None \<Rightarrow> ret (- 1)
     | Some (f, p, n) \<Rightarrow> bnd (fileread dv f n) (\<lambda>(k, bytes). andthen (uwrite p bytes) (ret k)))"

definition sys_write :: "'z xdevw \<Rightarrow> (int, 'z xst_scheme) kop" where
  "sys_write dw =
     bnd arg_io (\<lambda>r. case r of None \<Rightarrow> ret (- 1)
     | Some (f, p, n) \<Rightarrow> bnd (uread p (nat n)) (\<lambda>bytes. filewrite dw f bytes))"

definition sys_close :: "(int, 'z xst_scheme) kop" where
  "sys_close =
     bnd (argfd 0) (\<lambda>r. case r of None \<Rightarrow> ret (- 1)
     | Some (fd, f) \<Rightarrow> bnd curproc (\<lambda>me.
       andthen (proc_upd me (\<lambda>q. q\<lparr>p_ofile := (p_ofile q)[fd := None]\<rparr>))
       (andthen (fileclose f) (ret 0))))"

definition STAT_SIZE :: int where "STAT_SIZE = 20"

text \<open>The fields of \<^verbatim>\<open>struct stat\<close> in user memory; the padding is not written.\<close>

definition put_stat :: "u32 \<Rightarrow> kstat \<Rightarrow> (unit, 'z mst_scheme) kop" where
  "put_stat p st =
     andthen (uwrite (p + 4) (word_bytes (st_dev st)))
     (andthen (uwrite (p + 8) (word_bytes (st_ino st)))
     (andthen (uwrite p (half_bytes (st_type st)))
     (andthen (uwrite (p + 12) (half_bytes (st_nlink st)))
     (uwrite (p + 16) (word_bytes (st_size st))))))"

definition sys_fstat :: "(int, 'z xst_scheme) kop" where
  "sys_fstat =
     bnd (argfd 0) (\<lambda>r. case r of None \<Rightarrow> ret (- 1)
     | Some (_, f) \<Rightarrow> bnd (argptr 1 STAT_SIZE) (\<lambda>r. case r of None \<Rightarrow> ret (- 1)
     | Some p \<Rightarrow> bnd (filestat f) (\<lambda>r. case r of None \<Rightarrow> ret (- 1)
     | Some st \<Rightarrow> andthen (put_stat p st) (ret 0))))"

section \<open>Links\<close>

text \<open>Change the link count of a locked inode and write the inode back.\<close>

definition nlink_upd :: "nat \<Rightarrow> (u16 \<Rightarrow> u16) \<Rightarrow> (unit, 'z fsst_scheme) kop" where
  "nlink_upd ip f = andthen (ino_upd ip (\<lambda>i. i\<lparr>i_nlink := f (i_nlink i)\<rparr>)) (iupdate ip)"

definition fail_op :: "('a, 'z xst_scheme) kop \<Rightarrow> (int, 'z xst_scheme) kop" where
  "fail_op m = andthen m (andthen end_op (ret (- 1)))"

definition link_bad :: "nat \<Rightarrow> (int, 'z xst_scheme) kop" where
  "link_bad ip =
     andthen (ilock ip)
     (andthen (nlink_upd ip (\<lambda>n. n - 1))
     (fail_op (iunlockput ip)))"

definition sys_link :: "'z xdevs \<Rightarrow> 'z xdevw \<Rightarrow> (int, 'z xst_scheme) kop" where
  "sys_link dv dw =
     bnd (argstr 0) (\<lambda>r. case r of None \<Rightarrow> ret (- 1)
     | Some old \<Rightarrow> bnd (argstr 1) (\<lambda>r. case r of None \<Rightarrow> ret (- 1)
     | Some new \<Rightarrow>
       andthen begin_op
       (bnd (namei dv old) (\<lambda>r. case r of None \<Rightarrow> fail_op (ret ())
     | Some ip \<Rightarrow>
       andthen (ilock ip)
       (bnd (ino_get ip i_type) (\<lambda>ty. if ty = T_DIR then fail_op (iunlockput ip) else
       andthen (nlink_upd ip (\<lambda>n. n + 1))
       (andthen (iunlock ip)
       (bnd (nameiparent dv new) (\<lambda>r. case r of None \<Rightarrow> link_bad ip
     | Some (dp, name) \<Rightarrow>
       andthen (ilock dp)
       (bnd (ino_get dp i_dev) (\<lambda>ddev. bnd (ino_get ip id) (\<lambda>i.
       bnd (if ddev \<noteq> i_dev i then ret (- 1) else dirlink dv dw dp name (i_inum i)) (\<lambda>l.
       if l < 0 then andthen (iunlockput dp) (link_bad ip) else
       andthen (iunlockput dp)
       (andthen (iput ip)
       (andthen end_op
       (ret 0))))))))))))))))"

fun isdirempty_scan :: "'z xdevs \<Rightarrow> nat \<Rightarrow> u32 list \<Rightarrow> (bool, 'z xst_scheme) kop" where
  "isdirempty_scan dv dp [] = ret True"
| "isdirempty_scan dv dp (off # offs) =
     bnd (readi dv dp off (of_nat DIRENT_SIZE)) (\<lambda>(r, bytes).
     if r \<noteq> int DIRENT_SIZE then panic ''isdirempty: readi''
     else if de_inum (dirent_decode bytes) \<noteq> 0 then ret False
     else isdirempty_scan dv dp offs)"

definition isdirempty :: "'z xdevs \<Rightarrow> nat \<Rightarrow> (bool, 'z xst_scheme) kop" where
  "isdirempty dv dp = bnd (ino_get dp i_size) (\<lambda>sz. isdirempty_scan dv dp (drop 2 (dir_offs sz)))"

definition sys_unlink :: "'z xdevs \<Rightarrow> 'z xdevw \<Rightarrow> (int, 'z xst_scheme) kop" where
  "sys_unlink dv dw =
     bnd (argstr 0) (\<lambda>r. case r of None \<Rightarrow> ret (- 1)
     | Some path \<Rightarrow>
       andthen begin_op
       (bnd (nameiparent dv path) (\<lambda>r. case r of None \<Rightarrow> fail_op (ret ())
     | Some (dp, name) \<Rightarrow>
       andthen (ilock dp)
       (if namecmp name [46] = 0 \<or> namecmp name [46, 46] = 0 then fail_op (iunlockput dp) else
       bnd (dirlookup dv dp name) (\<lambda>r. case r of None \<Rightarrow> fail_op (iunlockput dp)
     | Some (ip, off) \<Rightarrow>
       andthen (ilock ip)
       (bnd (ino_get ip id) (\<lambda>i. if sint (i_nlink i) < 1 then panic ''unlink: nlink < 1'' else
       bnd (if i_type i = T_DIR then isdirempty dv ip else ret True) (\<lambda>empty.
       if \<not> empty then andthen (iunlockput ip) (fail_op (iunlockput dp)) else
       bnd (writei dw dp (replicate DIRENT_SIZE 0) off (of_nat DIRENT_SIZE)) (\<lambda>w.
       if w \<noteq> int DIRENT_SIZE then panic ''unlink: writei'' else
       andthen (whenk (i_type i = T_DIR) (nlink_upd dp (\<lambda>n. n - 1)))
       (andthen (iunlockput dp)
       (andthen (nlink_upd ip (\<lambda>n. n - 1))
       (andthen (iunlockput ip)
       (andthen end_op
       (ret 0))))))))))))))"

section \<open>Creation and opening\<close>

text \<open>The new inode of \<^verbatim>\<open>create\<close>: filled, and for a directory given its two entries.  \<^verbatim>\<open>ialloc\<close> never
  returns null.\<close>

definition create_new :: "'z xdevs \<Rightarrow> 'z xdevw \<Rightarrow> nat \<Rightarrow> u8 list \<Rightarrow> u16 \<Rightarrow> u16 \<Rightarrow> u16 \<Rightarrow> (nat option, 'z xst_scheme) kop" where
  "create_new dv dw dp name ty major minor =
     bnd (ino_get dp i_dev) (\<lambda>dev.
     bnd (ialloc dev ty) (\<lambda>ip.
     andthen (ilock ip)
     (andthen (ino_upd ip (\<lambda>i. i\<lparr>i_major := major, i_minor := minor, i_nlink := 1\<rparr>))
     (andthen (iupdate ip)
     (bnd (ino_get ip i_inum) (\<lambda>inum. bnd (ino_get dp i_inum) (\<lambda>dinum.
     andthen (whenk (ty = T_DIR)
       (andthen (nlink_upd dp (\<lambda>n. n + 1))
       (bnd (dirlink dv dw ip [46] inum) (\<lambda>l. if l < 0 then panic ''create dots'' else
        bnd (dirlink dv dw ip [46, 46] dinum) (\<lambda>l. if l < 0 then panic ''create dots'' else ret ())))))
     (bnd (dirlink dv dw dp name inum) (\<lambda>l. if l < 0 then panic ''create: dirlink'' else
     andthen (iunlockput dp)
     (ret (Some ip)))))))))))"

definition create :: "'z xdevs \<Rightarrow> 'z xdevw \<Rightarrow> u8 list \<Rightarrow> u16 \<Rightarrow> u16 \<Rightarrow> u16 \<Rightarrow> (nat option, 'z xst_scheme) kop" where
  "create dv dw path ty major minor =
     bnd (nameiparent dv path) (\<lambda>r. case r of None \<Rightarrow> ret None
     | Some (dp, name) \<Rightarrow>
       andthen (ilock dp)
       (bnd (dirlookup dv dp name) (\<lambda>r. case r of
         Some (ip, _) \<Rightarrow>
           andthen (iunlockput dp)
           (andthen (ilock ip)
           (bnd (ino_get ip i_type) (\<lambda>t. if ty = T_FILE \<and> t = T_FILE then ret (Some ip)
            else andthen (iunlockput ip) (ret None))))
       | None \<Rightarrow> create_new dv dw dp name ty major minor)))"

definition O_WRONLY :: u32 where "O_WRONLY = 1"
definition O_RDWR :: u32 where "O_RDWR = 2"
definition O_CREATE :: u32 where "O_CREATE = 0x200"

text \<open>The second half of \<^verbatim>\<open>sys_open\<close>, with the inode locked.\<close>

definition open_file :: "nat \<Rightarrow> u32 \<Rightarrow> (int, 'z xst_scheme) kop" where
  "open_file ip omode =
     bnd filealloc (\<lambda>r. case r of None \<Rightarrow> fail_op (iunlockput ip)
     | Some f \<Rightarrow> bnd (fdalloc f) (\<lambda>r. case r of None \<Rightarrow> andthen (fileclose f) (fail_op (iunlockput ip))
     | Some fd \<Rightarrow>
       andthen (iunlock ip)
       (andthen end_op
       (andthen (file_upd f (\<lambda>x. x\<lparr>fl_type := FD_INODE, fl_ip := ip, fl_off := 0,
          fl_readable := (omode AND O_WRONLY = 0),
          fl_writable := (omode AND O_WRONLY \<noteq> 0 \<or> omode AND O_RDWR \<noteq> 0)\<rparr>))
       (ret (int fd))))))"

definition sys_open :: "'z xdevs \<Rightarrow> 'z xdevw \<Rightarrow> (int, 'z xst_scheme) kop" where
  "sys_open dv dw =
     bnd (argstr 0) (\<lambda>r. case r of None \<Rightarrow> ret (- 1)
     | Some path \<Rightarrow> bnd (argint 1) (\<lambda>r. case r of None \<Rightarrow> ret (- 1)
     | Some omode \<Rightarrow>
       andthen begin_op
       (if omode AND O_CREATE \<noteq> 0 then
          bnd (create dv dw path T_FILE 0 0) (\<lambda>r. case r of None \<Rightarrow> fail_op (ret ())
          | Some ip \<Rightarrow> open_file ip omode)
        else
          bnd (namei dv path) (\<lambda>r. case r of None \<Rightarrow> fail_op (ret ())
          | Some ip \<Rightarrow>
            andthen (ilock ip)
            (bnd (ino_get ip i_type) (\<lambda>ty. if ty = T_DIR \<and> omode \<noteq> 0 then fail_op (iunlockput ip)
             else open_file ip omode))))))"

text \<open>The common end of \<^verbatim>\<open>sys_mkdir\<close> and \<^verbatim>\<open>sys_mknod\<close>.\<close>

definition create_done :: "nat option \<Rightarrow> (int, 'z xst_scheme) kop" where
  "create_done r = (case r of None \<Rightarrow> fail_op (ret ())
     | Some ip \<Rightarrow> andthen (iunlockput ip) (andthen end_op (ret 0)))"

definition sys_mkdir :: "'z xdevs \<Rightarrow> 'z xdevw \<Rightarrow> (int, 'z xst_scheme) kop" where
  "sys_mkdir dv dw =
     andthen begin_op
     (bnd (argstr 0) (\<lambda>r. case r of None \<Rightarrow> fail_op (ret ())
     | Some path \<Rightarrow> bnd (create dv dw path T_DIR 0 0) create_done))"

definition sys_mknod :: "'z xdevs \<Rightarrow> 'z xdevw \<Rightarrow> (int, 'z xst_scheme) kop" where
  "sys_mknod dv dw =
     andthen begin_op
     (bnd (argstr 0) (\<lambda>r. case r of None \<Rightarrow> fail_op (ret ())
     | Some path \<Rightarrow> bnd (argint 1) (\<lambda>r. case r of None \<Rightarrow> fail_op (ret ())
     | Some major \<Rightarrow> bnd (argint 2) (\<lambda>r. case r of None \<Rightarrow> fail_op (ret ())
     | Some minor \<Rightarrow> bnd (create dv dw path T_DEV (ucast major) (ucast minor)) create_done))))"

definition sys_chdir :: "'z xdevs \<Rightarrow> (int, 'z xst_scheme) kop" where
  "sys_chdir dv =
     bnd curproc (\<lambda>me.
     andthen begin_op
     (bnd (argstr 0) (\<lambda>r. case r of None \<Rightarrow> fail_op (ret ())
     | Some path \<Rightarrow> bnd (namei dv path) (\<lambda>r. case r of None \<Rightarrow> fail_op (ret ())
     | Some ip \<Rightarrow>
       andthen (ilock ip)
       (bnd (ino_get ip i_type) (\<lambda>ty. if ty \<noteq> T_DIR then fail_op (iunlockput ip) else
       andthen (iunlock ip)
       (bnd (proc_get me p_cwd) (\<lambda>cwd.
       andthen (case cwd of None \<Rightarrow> panic ''trap'' | Some c \<Rightarrow> iput c)
       (andthen end_op
       (andthen (proc_upd me (\<lambda>q. q\<lparr>p_cwd := Some ip\<rparr>))
       (ret 0)))))))))))"

section \<open>exec and pipe\<close>

text \<open>The loop of \<^verbatim>\<open>sys_exec\<close> over the user's argument vector, with \<open>k\<close> slots left.\<close>

fun exec_argv :: "u32 \<Rightarrow> nat \<Rightarrow> (u8 list list option, 'z mst_scheme) kop" where
  "exec_argv uargv 0 = ret None"
| "exec_argv uargv (Suc k) =
     bnd (fetchint uargv) (\<lambda>r. case r of None \<Rightarrow> ret None
     | Some uarg \<Rightarrow> if uarg = 0 then ret (Some []) else
       bnd (fetchstr uarg) (\<lambda>r. case r of None \<Rightarrow> ret None
     | Some a \<Rightarrow> bnd (exec_argv (uargv + 4) k) (\<lambda>r. ret (map_option (Cons a) r))))"

definition sys_exec :: "'z xdevs \<Rightarrow> (int, 'z xst_scheme) kop" where
  "sys_exec dv =
     bnd (argstr 0) (\<lambda>r. case r of None \<Rightarrow> ret (- 1)
     | Some path \<Rightarrow> bnd (argint 1) (\<lambda>r. case r of None \<Rightarrow> ret (- 1)
     | Some uargv \<Rightarrow> bnd (exec_argv uargv MAXARG) (\<lambda>r. case r of None \<Rightarrow> ret (- 1)
     | Some argv \<Rightarrow> exec dv path argv)))"

definition pipe_undo :: "nat option \<Rightarrow> nat \<Rightarrow> nat \<Rightarrow> (int, 'z xst_scheme) kop" where
  "pipe_undo fd0 rf wr =
     bnd curproc (\<lambda>me.
     andthen (case fd0 of None \<Rightarrow> ret () | Some fd \<Rightarrow> proc_upd me (\<lambda>q. q\<lparr>p_ofile := (p_ofile q)[fd := None]\<rparr>))
     (andthen (fileclose rf)
     (andthen (fileclose wr)
     (ret (- 1)))))"

definition sys_pipe :: "(int, 'z xst_scheme) kop" where
  "sys_pipe =
     bnd (argptr 0 8) (\<lambda>r. case r of None \<Rightarrow> ret (- 1)
     | Some p \<Rightarrow> bnd pipealloc (\<lambda>r. case r of None \<Rightarrow> ret (- 1)
     | Some (rf, wr) \<Rightarrow> bnd (fdalloc rf) (\<lambda>r. case r of None \<Rightarrow> pipe_undo None rf wr
     | Some fd0 \<Rightarrow> bnd (fdalloc wr) (\<lambda>r. case r of None \<Rightarrow> pipe_undo (Some fd0) rf wr
     | Some fd1 \<Rightarrow>
       andthen (uwrite p (word_bytes (of_nat fd0)))
       (andthen (uwrite (p + 4) (word_bytes (of_nat fd1)))
       (ret 0))))))"

end
