(* ===== verification/Syscall.thy ===== *)
theory Syscall
  imports Sysfile
begin

text \<open>
  The process calls of \<^verbatim>\<open>sysproc.c\<close> and the dispatcher of \<^verbatim>\<open>syscall.c\<close>.  \<open>sys_sleep_again\<close> is what
  \<^verbatim>\<open>sys_sleep\<close> does each time it is woken.
\<close>

section \<open>Process calls\<close>

definition sys_fork :: "(int, 'z xst_scheme) kop" where
  "sys_fork = fork"

definition sys_exit :: "(int, 'z xst_scheme) kop" where
  "sys_exit = andthen exit_proc (ret 0)"

definition sys_wait :: "(int, 'z xst_scheme) kop" where
  "sys_wait = wait_child"

definition sys_kill :: "(int, 'z xst_scheme) kop" where
  "sys_kill = bnd (argint 0) (\<lambda>r. case r of None \<Rightarrow> ret (- 1) | Some pid \<Rightarrow> kill (sint pid))"

definition sys_getpid :: "(int, 'z xst_scheme) kop" where
  "sys_getpid = bnd curproc (\<lambda>me. proc_get me p_pid)"

definition sys_sbrk :: "(int, 'z xst_scheme) kop" where
  "sys_sbrk =
     bnd (argint 0) (\<lambda>r. case r of None \<Rightarrow> ret (- 1)
     | Some n \<Rightarrow> bnd curproc (\<lambda>me. bnd (proc_get me p_sz) (\<lambda>addr.
       bnd (growproc (sint n)) (\<lambda>g. if g < 0 then ret (- 1) else ret (sint addr)))))"

text \<open>The loop test compares as unsigned integers.\<close>

definition sleep_ticks :: "u32 \<Rightarrow> u32 \<Rightarrow> (int, 'z kst_scheme) kop" where
  "sleep_ticks ticks0 n =
     bnd (fetch k_ticks) (\<lambda>ticks. if ticks - ticks0 < n then
       bnd curproc (\<lambda>me. bnd (proc_get me p_killed) (\<lambda>killed.
       if killed then andthen (release TicksLock) (ret (- 1))
       else sleep ChTicks TicksLock))
     else andthen (release TicksLock) (ret 0))"

definition sys_sleep :: "(int, 'z xst_scheme) kop" where
  "sys_sleep =
     bnd (argint 0) (\<lambda>r. case r of None \<Rightarrow> ret (- 1)
     | Some n \<Rightarrow> andthen (acquire TicksLock) (bnd (fetch k_ticks) (\<lambda>ticks0. sleep_ticks ticks0 n)))"

definition sys_sleep_again :: "u32 \<Rightarrow> u32 \<Rightarrow> (int, 'z xst_scheme) kop" where
  "sys_sleep_again ticks0 n = andthen (sleep_resume TicksLock) (sleep_ticks ticks0 n)"

definition sys_uptime :: "(int, 'z xst_scheme) kop" where
  "sys_uptime =
     andthen (acquire TicksLock)
     (bnd (fetch k_ticks) (\<lambda>x. andthen (release TicksLock) (ret (sint x))))"

definition sys_cps :: "(int, 'z xst_scheme) kop" where
  "sys_cps = cps"

definition sys_chpr :: "(int, 'z xst_scheme) kop" where
  "sys_chpr =
     bnd (argint 0) (\<lambda>r. case r of None \<Rightarrow> ret (- 1)
     | Some pid \<Rightarrow> bnd (argint 1) (\<lambda>r. case r of None \<Rightarrow> ret (- 1)
     | Some pr \<Rightarrow> chpr (sint pid) (sint pr)))"

section \<open>Dispatch\<close>

text \<open>The table \<^verbatim>\<open>syscalls\<close>, indexed by the numbers of \<^verbatim>\<open>syscall.h\<close>; entry 0 is null.\<close>

definition syscalls :: "'z xdevs \<Rightarrow> 'z xdevw \<Rightarrow> (int, 'z xst_scheme) kop option list" where
  "syscalls dv dw =
     [None, Some sys_fork, Some sys_exit, Some sys_wait, Some sys_pipe, Some (sys_read dv), Some sys_kill,
      Some (sys_exec dv), Some sys_fstat, Some (sys_chdir dv), Some sys_dup, Some sys_getpid, Some sys_sbrk,
      Some sys_sleep, Some sys_uptime, Some (sys_open dv dw), Some (sys_write dw), Some (sys_mknod dv dw),
      Some (sys_unlink dv dw), Some (sys_link dv dw), Some (sys_mkdir dv dw), Some sys_close, Some sys_cps, Some sys_chpr]"

definition set_eax :: "nat \<Rightarrow> int \<Rightarrow> (unit, 'z kst_scheme) kop" where
  "set_eax me v = proc_upd me (\<lambda>q. q\<lparr>p_tf := (p_tf q)\<lparr>tf_eax := word_of_int v\<rparr>\<rparr>)"

definition syscall_handler :: "'z xdevs \<Rightarrow> 'z xdevw \<Rightarrow> int \<Rightarrow> (int, 'z xst_scheme) kop option" where
  "syscall_handler dv dw num =
     (if 0 < num \<and> num < int (length (syscalls dv dw)) then syscalls dv dw ! nat num else None)"

definition syscall :: "'z xdevs \<Rightarrow> 'z xdevw \<Rightarrow> (unit, 'z xst_scheme) kop" where
  "syscall dv dw =
     bnd curproc (\<lambda>me. bnd (proc_get me id) (\<lambda>c.
     let num = sint (tf_eax (p_tf c)) in
     case syscall_handler dv dw num of
       Some h \<Rightarrow> bnd h (\<lambda>v. set_eax me v)
     | None \<Rightarrow>
         andthen (cprintf (''%d %s: unknown sys call %d'' @ nl)
           [AInt (word_of_int (p_pid c)), AStr (p_name c), AInt (word_of_int num)])
         (set_eax me (- 1))))"

end
