(* ===== verification/Ide.thy ===== *)
theory Ide
  imports Bio
begin

text \<open>
  The disk driver of \<^verbatim>\<open>ide.c\<close>: a queue of buffers linked through \<^verbatim>\<open>qnext\<close>, whose head is the request
  the drive works on; \<^verbatim>\<open>iderw\<close> appends a buffer and sleeps, \<^verbatim>\<open>ideintr\<close> completes the head and starts
  the next.

  The drives are part of the state.  \<open>q_reg\<close> holds the last byte written to each port and \<open>q_media\<close> the sectors
  of the two drives.  Only a command byte at port \<open>0x1f7\<close> starts anything: the drive and the sector are then
  those the other registers hold, for one sector in LBA mode.  A read command makes the sector available to the next
  \<^verbatim>\<open>insl\<close>, a write command makes the drive take the next \<^verbatim>\<open>outsl\<close>; when the data are ready, or taken, the drive
  raises its interrupt, provided interrupts are enabled in the control register \<open>0x3f6\<close>.  No interrupt
  comes otherwise.  \<open>q_error\<close> is the error bit of the status register, a drive with an error stores nothing, and
  \<open>q_bus\<close> is what \<^verbatim>\<open>insl\<close> finds when no read is pending; \<^verbatim>\<open>idewait\<close> spins until the drive is ready,
  which it is in every state of the model.
\<close>

section \<open>The drives\<close>

datatype xfer = NoXfer | XRead bool u32 | XWrite bool u32

record idst = bst +
  q_head :: "nat option"
  q_next :: "nat \<Rightarrow> nat option"
  q_disk1 :: bool
  q_error :: bool
  q_reg :: "u32 \<Rightarrow> u8"
  q_xfer :: xfer
  q_irq :: bool
  q_bus :: block
  q_media :: "bool \<Rightarrow> u32 \<Rightarrow> block"

definition IDE_CMD_READ :: u8 where "IDE_CMD_READ = 0x20"
definition IDE_CMD_WRITE :: u8 where "IDE_CMD_WRITE = 0x30"
definition IDE_CMD_RDMUL :: u8 where "IDE_CMD_RDMUL = 0xc4"
definition IDE_CMD_WRMUL :: u8 where "IDE_CMD_WRMUL = 0xc5"
definition SECTOR_SIZE :: nat where "SECTOR_SIZE = 512"

text \<open>The sector the address registers select, the drive, and whether the command applies to one sector in LBA mode.\<close>

definition ide_lba :: "(u32 \<Rightarrow> u8) \<Rightarrow> u32" where
  "ide_lba r = ucast (r 0x1f3) OR push_bit 8 (ucast (r 0x1f4)) OR push_bit 16 (ucast (r 0x1f5)) OR push_bit 24 (take_bit 4 (ucast (r 0x1f6)))"

definition ide_drive :: "(u32 \<Rightarrow> u8) \<Rightarrow> bool" where
  "ide_drive r = bit (r 0x1f6) 4"

definition one_sector :: "(u32 \<Rightarrow> u8) \<Rightarrow> bool" where
  "one_sector r \<longleftrightarrow> bit (r 0x1f6) 6 \<and> r 0x1f2 = 1"

definition irq_enabled :: "(u32 \<Rightarrow> u8) \<Rightarrow> bool" where
  "irq_enabled r \<longleftrightarrow> \<not> bit (r 0x3f6) 1"

definition drive_command :: "'z idst_scheme \<Rightarrow> 'z idst_scheme" where
  "drive_command s = (let r = q_reg s in
     if \<not> one_sector r then s
     else if r 0x1f7 = IDE_CMD_READ then s\<lparr>q_xfer := XRead (ide_drive r) (ide_lba r), q_irq := irq_enabled r\<rparr>
     else if r 0x1f7 = IDE_CMD_WRITE then s\<lparr>q_xfer := XWrite (ide_drive r) (ide_lba r)\<rparr>
     else s)"

definition outb :: "u32 \<Rightarrow> u8 \<Rightarrow> (unit, 'z idst_scheme) kop" where
  "outb port v = modify (\<lambda>s. let t = s\<lparr>q_reg := (q_reg s)(port := v)\<rparr> in if port = 0x1f7 then drive_command t else t)"

text \<open>A block of data to and from the data port.\<close>

definition put_media :: "bool \<Rightarrow> u32 \<Rightarrow> block \<Rightarrow> (bool \<Rightarrow> u32 \<Rightarrow> block) \<Rightarrow> bool \<Rightarrow> u32 \<Rightarrow> block" where
  "put_media d l x m = m(d := (m d)(l := x))"

definition outsl :: "block \<Rightarrow> (unit, 'z idst_scheme) kop" where
  "outsl x = modify (\<lambda>s. case q_xfer s of
     XWrite d l \<Rightarrow> s\<lparr>q_media := (if q_error s then q_media s else put_media d l x (q_media s)),
       q_xfer := NoXfer, q_irq := irq_enabled (q_reg s)\<rparr>
   | _ \<Rightarrow> s)"

definition insl :: "(block, 'z idst_scheme) kop" where
  "insl = bnd (fetch (\<lambda>s. case q_xfer s of XRead d l \<Rightarrow> q_media s d l | _ \<Rightarrow> q_bus s)) (\<lambda>x.
     andthen (modify (\<lambda>s. s\<lparr>q_xfer := NoXfer\<rparr>)) (ret x))"

definition idewait :: "bool \<Rightarrow> (int, 'z idst_scheme) kop" where
  "idewait checkerr = fetch (\<lambda>s. if checkerr \<and> q_error s then - 1 else 0)"

section \<open>Operations\<close>

definition idestart :: "nat option \<Rightarrow> (unit, 'z idst_scheme) kop" where
  "idestart bo = (case bo of None \<Rightarrow> panic ''idestart''
   | Some b \<Rightarrow>
     bnd (buf_get b id) (\<lambda>p.
     if unat (b_blockno p) \<ge> FSSIZE then panic ''incorrect blockno'' else
     let spb = BSIZE div SECTOR_SIZE; sector = b_blockno p * of_nat spb;
         read_cmd = (if spb = 1 then IDE_CMD_READ else IDE_CMD_RDMUL);
         write_cmd = (if spb = 1 then IDE_CMD_WRITE else IDE_CMD_WRMUL) in
     if spb > 7 then panic ''idestart'' else
     bnd (idewait False) (\<lambda>_.
     andthen (outb 0x3f6 0)
     (andthen (outb 0x1f2 (of_nat spb))
     (andthen (outb 0x1f3 (ucast sector))
     (andthen (outb 0x1f4 (ucast (drop_bit 8 sector)))
     (andthen (outb 0x1f5 (ucast (drop_bit 16 sector)))
     (andthen (outb 0x1f6 (0xe0 OR push_bit 4 (ucast (b_dev p AND 1)) OR (ucast (drop_bit 24 sector) AND 0x0f)))
     (if b_flags p AND B_DIRTY \<noteq> 0 then andthen (outb 0x1f7 write_cmd) (outsl (b_data p))
      else outb 0x1f7 read_cmd)))))))))"

definition ideintr :: "(unit, 'z idst_scheme) kop" where
  "ideintr =
     andthen (acquire IdeLock)
     (bnd (fetch q_head) (\<lambda>h. case h of None \<Rightarrow> release IdeLock
     | Some b \<Rightarrow>
       andthen (modify (\<lambda>s. s\<lparr>q_head := q_next s b\<rparr>))
       (bnd (buf_get b id) (\<lambda>p.
       andthen (whenk (b_flags p AND B_DIRTY = 0)
         (bnd (idewait True) (\<lambda>r. whenk (r \<ge> 0)
           (bnd insl (\<lambda>x. buf_upd b (\<lambda>p. p\<lparr>b_data := x\<rparr>))))))
       (andthen (buf_upd b (\<lambda>p. p\<lparr>b_flags := (b_flags p OR B_VALID) AND NOT B_DIRTY\<rparr>))
       (andthen (wakeup (ChBuf b))
       (bnd (fetch q_head) (\<lambda>q.
       andthen (whenk (q \<noteq> None) (idestart q))
       (release IdeLock)))))))))"

text \<open>The walk to the end of the queue; the queue holds each buffer at most once, so \<^verbatim>\<open>NBUF\<close> steps
  reach it.\<close>

fun queue_end :: "nat \<Rightarrow> (nat \<Rightarrow> nat option) \<Rightarrow> nat \<Rightarrow> nat" where
  "queue_end 0 nx b = b"
| "queue_end (Suc n) nx b = (case nx b of None \<Rightarrow> b | Some c \<Rightarrow> queue_end n nx c)"

definition ide_append :: "nat \<Rightarrow> (unit, 'z idst_scheme) kop" where
  "ide_append b =
     andthen (modify (\<lambda>s. s\<lparr>q_next := (q_next s)(b := None)\<rparr>))
     (modify (\<lambda>s. case q_head s of None \<Rightarrow> s\<lparr>q_head := Some b\<rparr>
        | Some h \<Rightarrow> s\<lparr>q_next := (q_next s)(queue_end NBUF (q_next s) h := Some b)\<rparr>))"

text \<open>The loop that waits for the request to finish.\<close>

definition ide_wait :: "nat \<Rightarrow> (unit, 'z idst_scheme) kop" where
  "ide_wait b =
     bnd (buf_get b b_flags) (\<lambda>fl. if fl AND (B_VALID OR B_DIRTY) \<noteq> B_VALID then sleep (ChBuf b) IdeLock
     else release IdeLock)"

definition ide_rw :: "nat \<Rightarrow> (unit, 'z idst_scheme) kop" where
  "ide_rw b =
     bnd (holdingsleep (BufLk b) (buf_lock_rd b)) (\<lambda>h. if \<not> h then panic ''iderw: buf not locked'' else
     bnd (buf_get b id) (\<lambda>p.
     if b_flags p AND (B_VALID OR B_DIRTY) = B_VALID then panic ''iderw: nothing to do'' else
     bnd (fetch q_disk1) (\<lambda>d1. if b_dev p \<noteq> 0 \<and> \<not> d1 then panic ''iderw: ide disk 1 not present'' else
     andthen (acquire IdeLock)
     (andthen (ide_append b)
     (bnd (fetch q_head) (\<lambda>h.
     andthen (whenk (h = Some b) (idestart (Some b)))
     (ide_wait b)))))))"

definition ide_rw_again :: "nat \<Rightarrow> (unit, 'z idst_scheme) kop" where
  "ide_rw_again b = andthen (sleep_resume IdeLock) (ide_wait b)"

section \<open>The queue\<close>

fun qlist :: "(nat \<Rightarrow> nat option) \<Rightarrow> nat option \<Rightarrow> nat list \<Rightarrow> bool" where
  "qlist nx h [] = (h = None)"
| "qlist nx h (x # xs) = (h = Some x \<and> qlist nx (nx x) xs)"

lemma qlist_cong: "(\<And>x. x \<in> set xs \<Longrightarrow> nx' x = nx x) \<Longrightarrow> qlist nx' h xs = qlist nx h xs"
  by (induction xs arbitrary: h) auto

lemma queue_end_last:
  "qlist nx (Some x) xs \<Longrightarrow> length xs \<le> n \<Longrightarrow> queue_end n nx x = last xs"
proof (induction xs arbitrary: n x)
  case (Cons y ys)
  then obtain k where k: "n = Suc k" by (cases n) auto
  show ?case
  proof (cases ys)
    case Nil
    then show ?thesis using Cons.prems k by simp
  next
    case (Cons z zs)
    then show ?thesis using Cons.IH [of z k] Cons.prems k by simp
  qed
qed simp

lemma qlist_snoc:
  assumes "qlist nx (Some h) xs" "xs \<noteq> []" "distinct xs" "b \<notin> set xs"
  shows "qlist (nx(last xs := Some b, b := None)) (Some h) (xs @ [b])"
  using assms
proof (induction xs arbitrary: h)
  case (Cons x xs)
  let ?n = "nx(last (x # xs) := Some b, b := None)"
  show ?case
  proof (cases xs)
    case Nil
    then show ?thesis using Cons.prems by auto
  next
    case (Cons y ys)
    have "x \<noteq> last xs" using Cons.prems(3) Cons by (metis distinct.simps(2) last_in_set list.distinct(1))
    then show ?thesis using Cons.IH [of y] Cons.prems Cons by auto
  qed
qed simp

definition pending :: "buf \<Rightarrow> bool" where
  "pending p \<longleftrightarrow> b_flags p AND (B_VALID OR B_DIRTY) \<noteq> B_VALID \<and> unat (b_blockno p) < FSSIZE"

text \<open>The drive and the sector of a buffer, and the medium once the request of a buffer is done.\<close>

definition bdrive :: "buf \<Rightarrow> bool" where
  "bdrive p = bit (b_dev p) 0"

definition dirty :: "buf \<Rightarrow> bool" where
  "dirty p \<longleftrightarrow> b_flags p AND B_DIRTY \<noteq> 0"

definition ide_serve :: "buf \<Rightarrow> (bool \<Rightarrow> u32 \<Rightarrow> block) \<Rightarrow> bool \<Rightarrow> u32 \<Rightarrow> block" where
  "ide_serve p m = (if dirty p then put_media (bdrive p) (b_blockno p) (b_data p) m else m)"

lemma serve_twice: "ide_serve p (ide_serve p m) = ide_serve p m"
  by (simp add: ide_serve_def put_media_def fun_eq_iff)

text \<open>The drive has been told of a request: its interrupt is on the way; it has the data of a write, and is ready to
  deliver the sector of a read.\<close>

definition drive_started :: "'z idst_scheme \<Rightarrow> buf \<Rightarrow> bool" where
  "drive_started s p \<longleftrightarrow> q_irq s \<and> (if dirty p then \<not> q_error s \<longrightarrow> ide_serve p (q_media s) = q_media s
     else q_xfer s = XRead (bdrive p) (b_blockno p))"

definition queue_inv :: "'z idst_scheme \<Rightarrow> nat list \<Rightarrow> bool" where
  "queue_inv s xs \<longleftrightarrow> qlist (q_next s) (q_head s) xs \<and> distinct xs \<and> set xs \<subseteq> {..<NBUF}
     \<and> (\<forall>b\<in>set xs. pending (b_buf s b))"

definition ide_inv :: "'z idst_scheme \<Rightarrow> nat list \<Rightarrow> bool" where
  "ide_inv s xs \<longleftrightarrow> queue_inv s xs \<and> (xs \<noteq> [] \<longrightarrow> drive_started s (b_buf s (hd xs)))"

lemma queue_inv_length: "queue_inv s xs \<Longrightarrow> length xs \<le> NBUF"
  unfolding queue_inv_def by (metis card_lessThan card_mono distinct_card finite_lessThan)

text \<open>\<open>idestart\<close> touches the drive only.\<close>

definition drive_only :: "'z idst_scheme \<Rightarrow> 'z idst_scheme \<Rightarrow> bool" where
  "drive_only s t \<longleftrightarrow> (\<exists>r x i m. t = s\<lparr>q_reg := r, q_xfer := x, q_irq := i, q_media := m\<rparr>)"

lemma drive_onlyD:
  assumes "drive_only s t"
  shows "b_buf t = b_buf s" "q_head t = q_head s" "q_next t = q_next s" "k_held t = k_held s" "k_procs t = k_procs s"
    "k_cur t = k_cur s" "q_error t = q_error s"
  using assms by (auto simp: drive_only_def)

lemma drive_only_refl: "drive_only s s"
  unfolding drive_only_def
  by (rule exI [of _ "q_reg s"], rule exI [of _ "q_xfer s"], rule exI [of _ "q_irq s"], rule exI [of _ "q_media s"]) simp

lemma low_nibble: "bit (0x0f :: int) n \<longleftrightarrow> n < 4"
proof -
  have "(0x0f :: int) = mask 4" by (simp add: mask_eq_exp_minus_1)
  then show ?thesis by (simp only: bit_mask_iff) auto
qed

lemma high_bits: "bit (0xe0 :: int) n \<longleftrightarrow> 5 \<le> n \<and> n < 8"
proof -
  have "(0xe0 :: int) = push_bit 5 (mask 3)" by (simp add: mask_eq_exp_minus_1)
  then show ?thesis by (simp only: bit_push_bit_iff bit_mask_iff) auto
qed

lemma ide_regs:
  fixes sec dev :: u32
  assumes "unat sec < 2 ^ 28" "r 0x1f3 = ucast sec" "r 0x1f4 = ucast (drop_bit 8 sec)" "r 0x1f5 = ucast (drop_bit 16 sec)"
    "r 0x1f6 = 0xe0 OR push_bit 4 (ucast (dev AND 1)) OR (ucast (drop_bit 24 sec) AND 0x0f)"
  shows "ide_lba r = sec" "ide_drive r = bit dev 0" "bit (r 0x1f6) 6"
proof -
  show "ide_drive r = bit dev 0" "bit (r 0x1f6) 6"
    using assms(5) by (simp_all add: ide_drive_def bit_simps high_bits low_nibble)
  have "unat (take_bit 28 sec) = unat sec" using assms(1) by (simp only: unsigned_take_bit_eq take_bit_nat_eq_self)
  then have "take_bit 28 sec = sec" by (simp only: word_unat_eq_iff)
  then have hi: "\<not> bit sec n" if "28 \<le> n" for n using that by (metis bit_take_bit_iff not_le)
  show "ide_lba r = sec"
  proof (rule bit_word_eqI)
    fix n
    assume "n < LENGTH(32)"
    then consider "n < 8" | "8 \<le> n" "n < 16" | "16 \<le> n" "n < 24" | "24 \<le> n" "n < 28" | "28 \<le> n" "n < 32" by fastforce
    then show "bit (ide_lba r) n = bit sec n"
      unfolding ide_lba_def assms(2-5) by cases (auto simp add: bit_simps high_bits low_nibble hi)
  qed
qed

lemma idestart_Ok:
  assumes "unat (b_blockno (b_buf s b)) < FSSIZE"
  shows "\<exists>t. idestart (Some b) s = Ok () t \<and> drive_only s t \<and> drive_started t (b_buf s b)
    \<and> q_media t = (if q_error s then q_media s else ide_serve (b_buf s b) (q_media s))"
proof -
  let ?p = "b_buf s b"
  let ?r = "(q_reg s)(0x3f6 := 0, 0x1f2 := 1, 0x1f3 := ucast (b_blockno ?p), 0x1f4 := ucast (drop_bit 8 (b_blockno ?p)),
     0x1f5 := ucast (drop_bit 16 (b_blockno ?p)),
     0x1f6 := 0xe0 OR push_bit 4 (ucast (b_dev ?p AND 1)) OR (ucast (drop_bit 24 (b_blockno ?p)) AND 0x0f))"
  have r: "ide_lba (?r(0x1f7 := c)) = b_blockno ?p" "ide_drive (?r(0x1f7 := c)) = bdrive ?p" "one_sector (?r(0x1f7 := c))"
    "irq_enabled (?r(0x1f7 := c))" for c
    using ide_regs [of "b_blockno ?p" "?r(0x1f7 := c)" "b_dev ?p"] assms
    by (simp_all add: FSSIZE_def one_sector_def irq_enabled_def bdrive_def)
  have e: "idestart (Some b) s = (if dirty ?p then andthen (outb 0x1f7 IDE_CMD_WRITE) (outsl (b_data ?p)) else outb 0x1f7 IDE_CMD_READ)
      (s\<lparr>q_reg := ?r\<rparr>)"
    using assms by (simp add: idestart_def buf_get_def idewait_def outb_def kdefs Let_def SECTOR_SIZE_def BSIZE_def dirty_def)
  show ?thesis
  proof (cases "dirty ?p")
    case True
    let ?t = "s\<lparr>q_reg := ?r(0x1f7 := IDE_CMD_WRITE), q_xfer := NoXfer, q_irq := True,
      q_media := if q_error s then q_media s else ide_serve ?p (q_media s)\<rparr>"
    have "idestart (Some b) s = Ok () ?t"
      unfolding e using True r [of IDE_CMD_WRITE]
      by (simp add: outb_def outsl_def drive_command_def kdefs Let_def IDE_CMD_READ_def IDE_CMD_WRITE_def ide_serve_def)
    moreover have "drive_only s ?t" unfolding drive_only_def by blast
    moreover have "drive_started ?t ?p" using True serve_twice [of ?p] by (simp add: drive_started_def)
    ultimately show ?thesis by (intro exI [of _ ?t]) simp
  next
    case False
    let ?t = "s\<lparr>q_reg := ?r(0x1f7 := IDE_CMD_READ), q_xfer := XRead (bdrive ?p) (b_blockno ?p), q_irq := True\<rparr>"
    have "idestart (Some b) s = Ok () ?t"
      unfolding e using False r [of IDE_CMD_READ]
      by (simp add: outb_def drive_command_def kdefs Let_def)
    moreover have "drive_only s ?t"
      unfolding drive_only_def by (intro exI [of _ "?r(0x1f7 := IDE_CMD_READ)"] exI [of _ "XRead (bdrive ?p) (b_blockno ?p)"]
          exI [of _ True] exI [of _ "q_media s"]) simp
    moreover have "drive_started ?t ?p" using False by (simp add: drive_started_def)
    ultimately show ?thesis using False by (intro exI [of _ ?t]) (simp add: ide_serve_def)
  qed
qed

section \<open>Completion\<close>

definition done_buf :: "buf \<Rightarrow> bool" where
  "done_buf p \<longleftrightarrow> b_flags p AND (B_VALID OR B_DIRTY) = B_VALID"

lemma done_flags: "done_buf (p\<lparr>b_flags := (b_flags p OR B_VALID) AND NOT B_DIRTY\<rparr>)"
  by (simp add: done_buf_def flags_clean)

text \<open>The buffer after its request: for a read, the sector has been transferred unless the drive
  reported an error.\<close>

definition complete :: "'z idst_scheme \<Rightarrow> nat \<Rightarrow> buf" where
  "complete s b = (let p = b_buf s b;
     p = (if \<not> dirty p \<and> \<not> q_error s then p\<lparr>b_data := q_media s (bdrive p) (b_blockno p)\<rparr> else p)
     in p\<lparr>b_flags := (b_flags p OR B_VALID) AND NOT B_DIRTY\<rparr>)"

lemma complete_done: "done_buf (complete s b)"
  unfolding complete_def Let_def by (rule done_flags)

text \<open>The next interrupt of the drive: one that has been raised is delivered, and without one the CPU waits for ever.\<close>

definition next_irq :: "(unit, 'z idst_scheme) kop" where
  "next_irq s = (if q_irq s then Ok () (s\<lparr>q_irq := False\<rparr>) else Blocked s)"

fun interrupts :: "nat \<Rightarrow> (unit, 'z idst_scheme) kop" where
  "interrupts 0 = ret ()"
| "interrupts (Suc n) = andthen (andthen next_irq ideintr) (interrupts n)"

lemma started_media: "drive_started s p \<Longrightarrow> \<not> q_error s \<Longrightarrow> ide_serve p (q_media s) = q_media s"
  by (auto simp: drive_started_def ide_serve_def split: if_splits)

lemma ideintr_step:
  assumes inv: "ide_inv s (b # xs)" and held: "IdeLock \<notin> set (k_held s)" "PtableLock \<notin> set (k_held s)"
  shows "\<exists>t. andthen next_irq ideintr s = Ok () t \<and> ide_inv t xs \<and> b_buf t = (b_buf s)(b := complete s b)
    \<and> k_held t = k_held s \<and> k_procs t = map (wake (ChBuf b)) (k_procs s) \<and> q_error t = q_error s
    \<and> (\<not> q_error s \<longrightarrow> q_media t = (if xs = [] then q_media s else ide_serve (b_buf s (hd xs)) (q_media s)))"
proof -
  let ?s = "s\<lparr>q_irq := False, k_held := IdeLock # k_held s\<rparr>"
  let ?h = "?s\<lparr>q_head := q_next s b\<rparr>"
  let ?v = "(if \<not> dirty (b_buf s b) \<and> \<not> q_error s then ?h\<lparr>q_xfer := NoXfer\<rparr> else ?h)\<lparr>b_buf := (b_buf s)(b := complete s b)\<rparr>"
  let ?u = "?v\<lparr>k_procs := map (wake (ChBuf b)) (k_procs s)\<rparr>"
  have h: "q_head s = Some b" "qlist (q_next s) (q_next s b) xs" "distinct (b # xs)" "set xs \<subseteq> {..<NBUF}"
    "\<forall>c\<in>set xs. pending (b_buf s c)" and st: "drive_started s (b_buf s b)"
    using inv by (simp_all add: ide_inv_def queue_inv_def)
  have w: "wakeup (ChBuf b) ?v = Ok () ?u" using wakeup_Ok [of ?v "ChBuf b"] held by simp
  have n: "andthen next_irq ideintr s = ideintr (s\<lparr>q_irq := False\<rparr>)"
    using st by (simp add: drive_started_def next_irq_def andthen_def bnd_def)
  have "ideintr (s\<lparr>q_irq := False\<rparr>) = bnd (fetch q_head) (\<lambda>q. andthen (whenk (q \<noteq> None) (idestart q)) (release IdeLock)) ?u"
    using h(1) held(1) w st
    by (cases "dirty (b_buf s b)"; cases "q_error s")
      (simp_all add: ideintr_def insl_def buf_get_def buf_upd_def idewait_def andthen_def bnd_def fetch_def modify_def whenk_def ret_def
        complete_def Let_def dirty_def drive_started_def)
  then obtain u where i: "ideintr (s\<lparr>q_irq := False\<rparr>) = bnd (fetch q_head) (\<lambda>q. andthen (whenk (q \<noteq> None) (idestart q)) (release IdeLock)) u"
    and U: "b_buf u = (b_buf s)(b := complete s b)" "q_head u = q_next s b" "q_next u = q_next s"
      "k_held u = IdeLock # k_held s" "k_procs u = map (wake (ChBuf b)) (k_procs s)" "q_error u = q_error s" "q_media u = q_media s"
    by (rule that) (simp_all split: if_split)
  have inv': "ide_inv t xs"
    if "b_buf t = b_buf u" "q_head t = q_head u" "q_next t = q_next u" "xs \<noteq> [] \<Longrightarrow> drive_started t (b_buf s (hd xs))" for t
    using that h U by (cases xs) (auto simp: ide_inv_def queue_inv_def)
  show ?thesis
  proof (cases xs)
    case Nil
    then have "q_next s b = None" using h(2) by simp
    then have "andthen next_irq ideintr s = Ok () (u\<lparr>k_held := k_held s\<rparr>)"
      unfolding n i using U by (simp add: bnd_def fetch_def andthen_def whenk_def ret_def)
    then show ?thesis using inv' [of "u\<lparr>k_held := k_held s\<rparr>"] Nil U by simp
  next
    case (Cons c ys)
    then have nx: "q_next s b = Some c" "c \<noteq> b" using h(2,3) by auto
    have "unat (b_blockno (b_buf u c)) < FSSIZE" using h(5) Cons nx U by (simp add: pending_def)
    then obtain t where t: "idestart (Some c) u = Ok () t" "drive_only u t" "drive_started t (b_buf s c)"
      "q_media t = (if q_error s then q_media s else ide_serve (b_buf s c) (q_media s))"
      using idestart_Ok [of u c] nx(2) U by auto
    note T = drive_onlyD [OF t(2)]
    have "andthen next_irq ideintr s = Ok () (t\<lparr>k_held := k_held s\<rparr>)"
      unfolding n i using nx t(1) T U by (simp add: bnd_def fetch_def andthen_def whenk_def)
    moreover have "ide_inv (t\<lparr>k_held := k_held s\<rparr>) xs"
      using inv' [of "t\<lparr>k_held := k_held s\<rparr>"] T t(3) Cons by (simp add: drive_started_def)
    ultimately show ?thesis using T U t(4) Cons by simp
  qed
qed

text \<open>The medium after the requests of a list of buffers, in that order.\<close>

definition media_after :: "(nat \<Rightarrow> buf) \<Rightarrow> nat list \<Rightarrow> (bool \<Rightarrow> u32 \<Rightarrow> block) \<Rightarrow> bool \<Rightarrow> u32 \<Rightarrow> block" where
  "media_after bs xs m = fold (\<lambda>c. ide_serve (bs c)) xs m"

lemma media_after_simps [simp]:
  "media_after bs [] m = m" "media_after bs (x # xs) m = media_after bs xs (ide_serve (bs x) m)"
  "media_after bs (xs @ ys) m = media_after bs ys (media_after bs xs m)"
  by (simp_all add: media_after_def)

lemma media_after_cong: "(\<And>c. c \<in> set xs \<Longrightarrow> bs c = bs' c) \<Longrightarrow> media_after bs xs m = media_after bs' xs m"
  unfolding media_after_def by (rule fold_cong) auto

lemma media_after_started:
  assumes "m' = (if xs = [] then m else ide_serve (bs (hd xs)) m)"
  shows "media_after bs xs m' = media_after bs xs m"
  using assms by (cases xs) (simp_all add: serve_twice)

lemma media_after_read:
  assumes "m' = ide_serve (bs (hd (ys @ c # zs))) m" "\<not> dirty (bs c)"
  shows "media_after bs ys m' = media_after bs ys m"
  using assms by (cases ys) (simp_all add: serve_twice, simp add: ide_serve_def)

text \<open>What the buffer \<open>c\<close>, queued behind \<open>ys\<close>, holds when its request is done.\<close>

definition served_data :: "'z idst_scheme \<Rightarrow> nat list \<Rightarrow> nat \<Rightarrow> block" where
  "served_data s ys c = (let p = b_buf s c in if dirty p then b_data p
     else media_after (b_buf s) ys (q_media s) (bdrive p) (b_blockno p))"

text \<open>The process table after the wake-ups of a list of buffers.\<close>

definition wake_all :: "nat list \<Rightarrow> proc list \<Rightarrow> proc list" where
  "wake_all xs ps = fold (\<lambda>c. map (wake (ChBuf c))) xs ps"

lemma wake_all_simps [simp]:
  "wake_all [] ps = ps" "wake_all (x # xs) ps = wake_all xs (map (wake (ChBuf x)) ps)"
  by (simp_all add: wake_all_def)

lemma wake_all_nth:
  "i < length ps \<Longrightarrow> wake_all xs ps ! i
     = (if p_state (ps ! i) = SLEEPING \<and> p_chan (ps ! i) \<in> ChBuf ` set xs then (ps ! i)\<lparr>p_state := RUNNABLE\<rparr> else ps ! i)"
  by (induction xs arbitrary: ps) (auto simp: wake_def)

lemma interrupts_serve:
  assumes "ide_inv s xs" "k_held s = []"
  shows "\<exists>t. interrupts (length xs) s = Ok () t \<and> ide_inv t [] \<and> k_held t = [] \<and> k_procs t = wake_all xs (k_procs s)
    \<and> (\<forall>c. c \<notin> set xs \<longrightarrow> b_buf t c = b_buf s c) \<and> (\<forall>c\<in>set xs. done_buf (b_buf t c))
    \<and> (\<not> q_error s \<longrightarrow> q_media t = media_after (b_buf s) xs (q_media s)
       \<and> (\<forall>ys c zs. xs = ys @ c # zs \<longrightarrow> b_data (b_buf t c) = served_data s ys c))"
  using assms
proof (induction xs arbitrary: s)
  case Nil
  then show ?case by (auto simp: ret_def)
next
  case (Cons b xs)
  have nb: "b \<notin> set xs" using Cons.prems(1) by (simp add: ide_inv_def queue_inv_def)
  have st: "\<not> q_error s \<Longrightarrow> ide_serve (b_buf s b) (q_media s) = q_media s"
    using Cons.prems(1) started_media [of s "b_buf s b"] by (simp add: ide_inv_def)
  obtain u where u: "andthen next_irq ideintr s = Ok () u" "ide_inv u xs" "b_buf u = (b_buf s)(b := complete s b)" "k_held u = []"
    "k_procs u = map (wake (ChBuf b)) (k_procs s)" "q_error u = q_error s"
    "\<not> q_error s \<Longrightarrow> q_media u = (if xs = [] then q_media s else ide_serve (b_buf s (hd xs)) (q_media s))"
    using ideintr_step [of s b xs] Cons.prems by auto
  obtain t where t: "interrupts (length xs) u = Ok () t" "ide_inv t []" "k_held t = []" "k_procs t = wake_all xs (k_procs u)"
    "\<And>c. c \<notin> set xs \<Longrightarrow> b_buf t c = b_buf u c" "\<And>c. c \<in> set xs \<Longrightarrow> done_buf (b_buf t c)"
    "\<not> q_error u \<Longrightarrow> q_media t = media_after (b_buf u) xs (q_media u)"
    "\<And>ys c zs. \<not> q_error u \<Longrightarrow> xs = ys @ c # zs \<Longrightarrow> b_data (b_buf t c) = served_data u ys c"
    using Cons.IH [OF u(2,4)] by blast
  have ma: "media_after (b_buf u) ys m = media_after (b_buf s) ys m" if "set ys \<subseteq> set xs" for ys m
    by (rule media_after_cong) (use u(3) nb that in auto)
  have tb: "b_buf t b = complete s b" using t(5) [OF nb] u(3) by simp
  have media: "q_media t = media_after (b_buf s) (b # xs) (q_media s)" if e: "\<not> q_error s"
    using t(7) u(6) e st [OF e] ma [of xs] media_after_started [of _ _ _ "b_buf s", OF u(7) [OF e]] by simp
  have rd: "b_data (b_buf t c) = served_data s ys c" if e: "\<not> q_error s" and c: "b # xs = ys @ c # zs" for ys c zs
  proof (cases ys)
    case Nil
    then show ?thesis using c tb e by (simp add: served_data_def complete_def Let_def)
  next
    case (Cons y ys')
    then have xs: "xs = ys' @ c # zs" "y = b" using c by simp_all
    then have "b_buf u c = b_buf s c" using u(3) nb by auto
    moreover have "media_after (b_buf u) ys' (q_media u) = media_after (b_buf s) ys' (q_media s)" if "\<not> dirty (b_buf s c)"
    proof -
      have "media_after (b_buf u) ys' (q_media u) = media_after (b_buf s) ys' (q_media u)" by (rule ma) (use xs in auto)
      then show ?thesis using media_after_read [of "q_media u" "b_buf s" ys' c zs "q_media s"] u(7) [OF e] xs that by simp
    qed
    ultimately show ?thesis using t(8) [OF _ xs(1)] u(6) e st [OF e] Cons xs(2) by (auto simp: served_data_def Let_def)
  qed
  have "interrupts (length (b # xs)) s = Ok () t" using u(1) t(1) by (simp add: andthen_def [of "andthen next_irq ideintr"] bnd_def)
  then show ?case
    using t(2-6) u(3,5) media rd tb complete_done [of s b] by (intro exI [of _ t]) (auto simp del: media_after_simps)
qed

lemma ide_append_inv:
  assumes "queue_inv s xs" "b < NBUF" "b \<notin> set xs" "pending (b_buf s b)"
  shows "\<exists>h nx. ide_append b s = Ok () (s\<lparr>q_head := Some h, q_next := nx\<rparr>) \<and> queue_inv (s\<lparr>q_head := Some h, q_next := nx\<rparr>) (xs @ [b])
    \<and> (h = b \<longleftrightarrow> xs = [])"
proof (cases xs)
  case Nil
  then show ?thesis using assms
    by (intro exI [of _ b] exI [of _ "(q_next s)(b := None)"]) (auto simp: ide_append_def kdefs queue_inv_def)
next
  case (Cons h ys)
  let ?n = "(q_next s)(b := None)" and ?m = "(q_next s)(last xs := Some b, b := None)"
  have q: "q_head s = Some h" "qlist (q_next s) (Some h) xs" "distinct xs" using assms(1) Cons by (simp_all add: queue_inv_def)
  have "qlist ?n (Some h) xs = qlist (q_next s) (Some h) xs" by (rule qlist_cong) (use assms(3) in auto)
  then have "qlist ?n (Some h) xs" using q(2) by simp
  then have e: "queue_end NBUF ?n h = last xs" using queue_end_last queue_inv_length [OF assms(1)] by blast
  have l: "last xs \<in> set xs" using Cons by simp
  then have "?n(last xs := Some b) = ?m" using assms(3) by (intro fun_upd_twist) auto
  then have "ide_append b s = Ok () (s\<lparr>q_head := Some h, q_next := ?m\<rparr>)"
    using q(1) e by (simp add: ide_append_def kdefs)
  moreover have "qlist ?m (Some h) (xs @ [b])" by (rule qlist_snoc [OF q(2) _ q(3) assms(3)]) (simp add: Cons)
  then have "queue_inv (s\<lparr>q_head := Some h, q_next := ?m\<rparr>) (xs @ [b])" using assms by (auto simp: queue_inv_def)
  moreover have "h = b \<longleftrightarrow> xs = []" using Cons assms(3) by auto
  ultimately show ?thesis by (intro exI [of _ h] exI [of _ ?m] conjI)
qed

section \<open>Properties\<close>

lemma rw_start:
  assumes "ide_inv s xs" "b < NBUF" "b \<notin> set xs" "pending (b_buf s b)"
  shows "\<exists>h v. ide_append b s = Ok () v \<and> q_head v = Some h \<and> (\<exists>w. whenk (Some h = Some b) (idestart (Some b)) v = Ok () w
     \<and> drive_only v w \<and> ide_inv w (xs @ [b]) \<and> b_buf w = b_buf s \<and> k_held w = k_held s \<and> k_procs w = k_procs s \<and> k_cur w = k_cur s
     \<and> q_error w = q_error s
     \<and> q_media w = (if xs = [] \<and> \<not> q_error s then ide_serve (b_buf s b) (q_media s) else q_media s))"
proof -
  have q: "queue_inv s xs" using assms(1) by (simp add: ide_inv_def)
  obtain h nx where a: "ide_append b s = Ok () (s\<lparr>q_head := Some h, q_next := nx\<rparr>)"
    "queue_inv (s\<lparr>q_head := Some h, q_next := nx\<rparr>) (xs @ [b])" "h = b \<longleftrightarrow> xs = []"
    using ide_append_inv [OF q assms(2-4)] by blast
  let ?v = "s\<lparr>q_head := Some h, q_next := nx\<rparr>"
  show ?thesis
  proof (cases "xs = []")
    case True
    obtain w where w: "idestart (Some b) ?v = Ok () w" "drive_only ?v w" "drive_started w (b_buf s b)"
      "q_media w = (if q_error s then q_media s else ide_serve (b_buf s b) (q_media s))"
      using idestart_Ok [of ?v b] assms(4) by (auto simp: pending_def)
    note W = drive_onlyD [OF w(2)]
    have "ide_inv w (xs @ [b])" using a(2) W w(3) True by (simp add: ide_inv_def queue_inv_def)
    then show ?thesis using a True w W by (intro exI [of _ h] exI [of _ ?v] conjI exI [of _ w]) (simp_all add: whenk_def)
  next
    case False
    have "ide_inv ?v (xs @ [b])" using a(2) assms(1) False by (simp add: ide_inv_def drive_started_def)
    then show ?thesis using a False drive_only_refl [of ?v]
      by (intro exI [of _ h] exI [of _ ?v] conjI exI [of _ ?v]) (simp_all add: whenk_def ret_def)
  qed
qed

text \<open>
  C23: every disk request is served.  \<^verbatim>\<open>iderw\<close> on a locked buffer that needs the disk puts it at the end of the
  queue, starts the drive if it was idle, and sleeps.  From then on the drive raises one interrupt for each request of
  the queue, and after the last one the queue is empty, every buffer of it is valid and clean, and the process that
  waits is runnable.  Without a drive error the media have received the data of every dirty buffer, in queue
  order and nothing else, and the new request's buffer and its sector hold the same block: the data the buffer had, if it was dirty,
  and otherwise what the requests before it left in the sector.
\<close>

theorem ide_request_served:
  assumes "ide_inv s xs" "k_held s = []" "k_cur s = Some me" "me < length (k_procs s)" "b < NBUF" "b \<notin> set xs"
    "pending (b_buf s b)" "sl_locked (b_lock (b_buf s b))" "q_disk1 s"
  shows "\<exists>t u. ide_rw b s = Blocked t \<and> k_held t = [PtableLock] \<and> p_state (k_procs t ! me) = SLEEPING
    \<and> interrupts (Suc (length xs)) (t\<lparr>k_held := []\<rparr>) = Ok () u \<and> (\<forall>c\<in>set (xs @ [b]). done_buf (b_buf u c))
    \<and> p_state (k_procs u ! me) = RUNNABLE \<and> ide_inv u []
    \<and> (\<not> q_error s \<longrightarrow> q_media u = media_after (b_buf s) (xs @ [b]) (q_media s)
       \<and> b_data (b_buf u b) = q_media u (bdrive (b_buf s b)) (b_blockno (b_buf s b))
       \<and> (dirty (b_buf s b) \<longrightarrow> b_data (b_buf u b) = b_data (b_buf s b)))"
proof -
  let ?s = "s\<lparr>k_held := [IdeLock]\<rparr>" and ?p = "b_buf s b"
  have pd: "b_flags ?p AND (B_VALID OR B_DIRTY) \<noteq> B_VALID" using assms(7) by (simp add: pending_def)
  have "ide_inv ?s xs" using assms(1) by (simp add: ide_inv_def queue_inv_def drive_started_def)
  then obtain h a v where a: "ide_append b ?s = Ok () a" "q_head a = Some h"
    and v: "whenk (Some h = Some b) (idestart (Some b)) a = Ok () v" "ide_inv v (xs @ [b])" "b_buf v = b_buf s"
      "k_held v = [IdeLock]" "k_procs v = k_procs s" "k_cur v = Some me" "q_error v = q_error s"
      "q_media v = (if xs = [] \<and> \<not> q_error s then ide_serve ?p (q_media s) else q_media s)"
    using rw_start [of ?s xs b] assms(3,5-7) by auto
  let ?t = "v\<lparr>k_held := [PtableLock], k_procs := (k_procs v)[me := (k_procs v ! me)\<lparr>p_chan := ChBuf b, p_state := SLEEPING\<rparr>]\<rparr>"
  have sl: "ide_wait b v = Blocked ?t"
    using v(3-6) pd assms(3,4) by (simp add: ide_wait_def buf_get_def sleep_eq sched_def swtch_def cur_defs lock_defs kdefs)
  have hs: "holdingsleep (BufLk b) (buf_lock_rd b) s = Ok True s"
    using holdingsleep_Ok [of "BufLk b" s "buf_lock_rd b"] assms(2,8) by (simp add: buf_lock_rd_def)
  have rw: "ide_rw b s = Blocked ?t"
    unfolding ide_rw_def using hs pd assms(2,9) a v(1) sl
    by (simp add: bnd_def buf_get_def fetch_def andthen_def)
  let ?z = "?t\<lparr>k_held := []\<rparr>"
  have "ide_inv ?z (xs @ [b])" using v(2) by (simp add: ide_inv_def queue_inv_def drive_started_def)
  then obtain u where u: "interrupts (Suc (length xs)) ?z = Ok () u" "ide_inv u []" "k_procs u = wake_all (xs @ [b]) (k_procs ?z)"
    "\<forall>c\<in>set (xs @ [b]). done_buf (b_buf u c)" "\<not> q_error s \<Longrightarrow> q_media u = media_after (b_buf s) (xs @ [b]) (q_media v)"
    "\<not> q_error s \<Longrightarrow> b_data (b_buf u b) = served_data ?z xs b"
    using interrupts_serve [of ?z "xs @ [b]"] v(3,7) by auto
  have m: "q_media u = media_after (b_buf s) (xs @ [b]) (q_media s)" if "\<not> q_error s"
    using u(5) [OF that] v(8) that by (cases "xs = []") (simp_all add: serve_twice)
  have d: "b_data (b_buf u b) = q_media u (bdrive ?p) (b_blockno ?p)" "dirty ?p \<longrightarrow> b_data (b_buf u b) = b_data ?p" if "\<not> q_error s"
    using u(5,6) [OF that] v(3) by (auto simp: served_data_def Let_def ide_serve_def put_media_def)
  have "p_state (k_procs u ! me) = RUNNABLE" using u(3) assms(4) v(5) by (simp add: wake_all_nth)
  then show ?thesis
    using rw u(1,2,4) m d assms(4) v(5) by (intro exI [of _ ?t] exI [of _ u] conjI impI) (simp_all del: interrupts.simps media_after_simps)
qed

text \<open>A write of buffer 3 queued behind the read of buffer 7.\<close>

definition demo_ide :: idst where
  "demo_ide = bst.extend ((bst0 (\<lambda>_ _. 0) 1000)\<lparr>b_buf := (\<lambda>i. buf0\<lparr>b_dev := 1, b_blockno := of_nat i,
       b_flags := if i = 3 then B_DIRTY else 0, b_data := if i = 3 then (\<lambda>_. 9) else (\<lambda>_. 0),
       b_lock := \<lparr>sl_locked = True, sl_pid = 1\<rparr>\<rparr>)\<rparr>)
     \<lparr>q_head = Some 7, q_next = (\<lambda>_. None), q_disk1 = True, q_error = False, q_reg = (\<lambda>_. 0), q_xfer = XRead True 7,
      q_irq = True, q_bus = (\<lambda>_. 0xff), q_media = (\<lambda>_ _ _. 5)\<rparr>"

theorem ide_request_served_witness:
  "\<exists>t u. ide_rw 3 demo_ide = Blocked t \<and> interrupts 2 (t\<lparr>k_held := []\<rparr>) = Ok () u \<and> done_buf (b_buf u 3)
     \<and> q_media u True 3 0 = 9 \<and> q_media u True 4 0 = 5"
proof -
  have b: "b_buf demo_ide i = buf0\<lparr>b_dev := 1, b_blockno := of_nat i, b_flags := if i = 3 then B_DIRTY else 0,
      b_data := if i = 3 then (\<lambda>_. 9) else (\<lambda>_. 0), b_lock := \<lparr>sl_locked = True, sl_pid = 1\<rparr>\<rparr>" for i
    by (simp add: demo_ide_def bst.defs)
  have p: "pending (b_buf demo_ide 3)" "pending (b_buf demo_ide 7)"
    by (simp_all add: b pending_def FSSIZE_def B_VALID_def B_DIRTY_def)
  have d: "dirty (b_buf demo_ide 3)" "\<not> dirty (b_buf demo_ide 7)" "bdrive (b_buf demo_ide 3)" "bdrive (b_buf demo_ide 7)"
    by (simp_all add: b dirty_def bdrive_def B_DIRTY_def)
  have f: "sl_locked (b_lock (b_buf demo_ide 3))" "q_disk1 demo_ide" "k_held demo_ide = []" "k_cur demo_ide = Some 0"
    "0 < length (k_procs demo_ide)" "\<not> q_error demo_ide" "q_media demo_ide = (\<lambda>_ _ _. 5)"
    by (simp_all add: demo_ide_def bst.defs bst0_def kst.defs kst0_def NPROC_def)
  have "drive_started demo_ide (b_buf demo_ide 7)" using d by (simp add: drive_started_def) (simp add: demo_ide_def bst.defs)
  then have i: "ide_inv demo_ide [7]"
    using p(2) by (simp add: ide_inv_def queue_inv_def NBUF_def MAXOPBLOCKS_def) (simp add: demo_ide_def bst.defs)
  have n: "(3 :: nat) < NBUF" "(3 :: nat) \<notin> set [7]" by (simp_all add: NBUF_def MAXOPBLOCKS_def)
  obtain t u where t: "ide_rw 3 demo_ide = Blocked t" "interrupts (Suc (length [7 :: nat])) (t\<lparr>k_held := []\<rparr>) = Ok () u"
    "done_buf (b_buf u 3)" "q_media u = media_after (b_buf demo_ide) ([7] @ [3]) (q_media demo_ide)"
    using ide_request_served [OF i f(3-5) n p(1) f(1,2)] f(6) by auto
  have "q_media u True 3 0 = 9 \<and> q_media u True 4 0 = 5"
    unfolding t(4) using d by (simp add: ide_serve_def put_media_def f(7) b)
  then show ?thesis using t(1-3) by (auto simp: numeral_2_eq_2)
qed

end
