(* ===== verification/Grep.thy ===== *)
theory Grep
  imports Kprelude
begin

text \<open>
  The user program \<^verbatim>\<open>grep.c\<close>.  A C string, and a pointer into one, is the list of the characters up to
  the terminating zero; \<^verbatim>\<open>strchr\<close> of \<^verbatim>\<open>ulib.c\<close> is \<open>strchr\<close>.  What the program reads is a list of chunks, the characters
  that are there for one \<^verbatim>\<open>read\<close> after the other: a \<^verbatim>\<open>read\<close> delivers the next chunk, or as much of it as
  asked for, and the rest stays for the next \<^verbatim>\<open>read\<close>; an empty chunk, like the end of the list, ends the input.  A
  regular file is one chunk, which \<^verbatim>\<open>readi\<close> delivers in full; a pipe and the console may deliver less than asked for at
  any time.  The result is what the program writes.
\<close>

section \<open>The regular expression matcher\<close>

function matchhere :: "string \<Rightarrow> string \<Rightarrow> bool" and matchstar :: "char \<Rightarrow> string \<Rightarrow> string \<Rightarrow> bool" where
  "matchhere re tx =
     (case re of [] \<Rightarrow> True
      | c # re1 \<Rightarrow>
        (case re1 of d # re2 \<Rightarrow> if d = CHR ''*'' then matchstar c re2 tx
           else (case tx of t # ts \<Rightarrow> (c = CHR ''.'' \<or> c = t) \<and> matchhere re1 ts | [] \<Rightarrow> False)
         | [] \<Rightarrow> if c = CHR ''$'' then tx = []
           else (case tx of t # ts \<Rightarrow> (c = CHR ''.'' \<or> c = t) \<and> matchhere re1 ts | [] \<Rightarrow> False)))"
| "matchstar c re tx =
     (matchhere re tx \<or>
      (case tx of [] \<Rightarrow> False | t # ts \<Rightarrow> (t = c \<or> c = CHR ''.'') \<and> matchstar c re ts))"
  by pat_completeness auto
termination
  by (relation "measures [\<lambda>x. case x of Inl (re, tx) \<Rightarrow> 2 * length re | Inr (c, re, tx) \<Rightarrow> 2 * length re + 1,
    \<lambda>x. case x of Inl (re, tx) \<Rightarrow> length tx | Inr (c, re, tx) \<Rightarrow> length tx]") auto

declare matchhere.simps [simp del] matchstar.simps [simp del]

text \<open>The loop of \<^verbatim>\<open>match\<close> over the positions of the text, the one behind its last character included.\<close>

fun match_from :: "string \<Rightarrow> string \<Rightarrow> bool" where
  "match_from re tx = (matchhere re tx \<or> (case tx of [] \<Rightarrow> False | t # ts \<Rightarrow> match_from re ts))"

declare match_from.simps [simp del]

definition match :: "string \<Rightarrow> string \<Rightarrow> bool" where
  "match re tx = (case re of c # re1 \<Rightarrow> if c = CHR ''^'' then matchhere re1 tx else match_from re tx
     | [] \<Rightarrow> match_from re tx)"

section \<open>The loop over the file\<close>

definition newline :: char where "newline = CHR 0x0A"

fun strchr :: "string \<Rightarrow> char \<Rightarrow> string option" where
  "strchr [] c = None"
| "strchr (x # s) c = (if x = c then Some (x # s) else strchr s c)"

text \<open>The inner loop: \<open>p\<close> is what is left of the buffer.  The result is the output and the final \<open>p\<close>.\<close>

lemma strchr_length: "strchr s c = Some q \<Longrightarrow> length (tl q) < length s"
  by (induction s) (auto split: if_splits)

function grep_lines :: "string \<Rightarrow> string \<Rightarrow> string \<times> string" where
  "grep_lines pattern p =
     (case strchr p newline of None \<Rightarrow> ([], p)
      | Some q \<Rightarrow>
        let line = take (length p - length q) p; (out, r) = grep_lines pattern (tl q) in
        ((if match pattern line then line @ [newline] else []) @ out, r))"
  by pat_completeness auto
termination
  by (relation "measure (length \<circ> snd)") (simp_all add: strchr_length del: length_tl)

declare grep_lines.simps [simp del]

definition BUFSZ :: nat where "BUFSZ = 1024"

text \<open>The characters one \<^verbatim>\<open>read\<close> of at most \<open>k\<close> delivers, and the chunks it leaves.\<close>

fun read_chunk :: "nat \<Rightarrow> string list \<Rightarrow> string \<times> string list" where
  "read_chunk k [] = ([], [])"
| "read_chunk k (c # cs) = (take k c, if length c \<le> k then cs else drop k c # cs)"

lemma read_chunk_length: "read_chunk k cs = (d, cs') \<Longrightarrow> length (concat cs') + length d = length (concat cs)"
  by (cases cs) (auto simp: min_def)

text \<open>The outer loop: \<open>b\<close> is the start of a line kept in the buffer.  A buffer without a newline is
  dropped.\<close>

function grep_loop :: "string \<Rightarrow> string \<Rightarrow> string list \<Rightarrow> string" where
  "grep_loop pattern b chunks =
     (let (d, chunks') = read_chunk (BUFSZ - length b - 1) chunks; buf = b @ d; (out, p) = grep_lines pattern buf in
      if d = [] then []
      else out @ grep_loop pattern (if length p = length buf then [] else p) chunks')"
  by pat_completeness auto
termination
  by (relation "measure (\<lambda>(pattern, b, chunks). length (concat chunks))")
    (auto dest!: read_chunk_length [OF sym] simp flip: length_greater_0_conv)

declare grep_loop.simps [simp del]

definition grep :: "string \<Rightarrow> string list \<Rightarrow> string" where
  "grep pattern chunks = grep_loop pattern [] chunks"

section \<open>The language of a pattern\<close>

text \<open>What a pattern means: a sequence of items, each with the strings it stands for.\<close>

datatype item = Lit char | Dot | Rep char | RepDot

definition item_of :: "char \<Rightarrow> item" where
  "item_of c = (if c = CHR ''.'' then Dot else Lit c)"

definition rep_of :: "char \<Rightarrow> item" where
  "rep_of c = (if c = CHR ''.'' then RepDot else Rep c)"

fun items :: "string \<Rightarrow> item list" where
  "items [] = []"
| "items [c] = (if c = CHR ''$'' then [] else [item_of c])"
| "items (c # d # re) = (if d = CHR ''*'' then rep_of c # items re else item_of c # items (d # re))"

text \<open>A dollar sign that ends the pattern, and is not starred, anchors it at the end of the text.\<close>

fun dollar :: "string \<Rightarrow> bool" where
  "dollar [] = False"
| "dollar [c] = (c = CHR ''$'')"
| "dollar (c # d # re) = (if d = CHR ''*'' then dollar re else dollar (d # re))"

fun item_lang :: "item \<Rightarrow> string set" where
  "item_lang (Lit c) = {[c]}"
| "item_lang Dot = {w. length w = 1}"
| "item_lang (Rep c) = {w. set w \<subseteq> {c}}"
| "item_lang RepDot = UNIV"

fun lang :: "item list \<Rightarrow> string set" where
  "lang [] = {[]}"
| "lang (i # is) = {v @ w | v w. v \<in> item_lang i \<and> w \<in> lang is}"

definition here :: "string \<Rightarrow> string \<Rightarrow> bool" where
  "here re tx \<longleftrightarrow> (\<exists>w post. tx = w @ post \<and> w \<in> lang (items re) \<and> (dollar re \<longrightarrow> post = []))"

text \<open>The text contains a match of the pattern; a leading caret anchors it at the beginning.\<close>

definition contains :: "string \<Rightarrow> string \<Rightarrow> bool" where
  "contains re tx \<longleftrightarrow> (case re of c # re1 \<Rightarrow> if c = CHR ''^'' then here re1 tx else (\<exists>pre t. tx = pre @ t \<and> here re t)
     | [] \<Rightarrow> True)"

lemma split_one: "(\<exists>v y. x = v @ y \<and> (\<exists>t. v = [t] \<and> Q t) \<and> P y) \<longleftrightarrow> (\<exists>t ts. x = t # ts \<and> Q t \<and> P ts)"
proof
  assume "\<exists>t ts. x = t # ts \<and> Q t \<and> P ts"
  then obtain t ts where "x = [t] @ ts" "Q t" "P ts" by auto
  then show "\<exists>v y. x = v @ y \<and> (\<exists>t. v = [t] \<and> Q t) \<and> P y" by blast
qed auto

lemma split_more:
  "(\<exists>v y. x = v @ y \<and> (v = [] \<or> (\<exists>t w. v = t # w \<and> Q t \<and> R w)) \<and> P y) \<longleftrightarrow>
   P x \<or> (\<exists>t ts. x = t # ts \<and> Q t \<and> (\<exists>v y. ts = v @ y \<and> R v \<and> P y))"
proof
  assume "P x \<or> (\<exists>t ts. x = t # ts \<and> Q t \<and> (\<exists>v y. ts = v @ y \<and> R v \<and> P y))"
  then consider "x = [] @ x" "P x" | t v y where "x = (t # v) @ y" "Q t" "R v" "P y" by auto
  then show "\<exists>v y. x = v @ y \<and> (v = [] \<or> (\<exists>t w. v = t # w \<and> Q t \<and> R w)) \<and> P y" by cases blast+
qed auto

lemma here_Nil [simp]: "here [] tx"
  by (simp add: here_def)

lemma here_dollar: "here ''$'' tx \<longleftrightarrow> tx = []"
  by (auto simp: here_def)

lemma here_item:
  assumes "\<not> (\<exists>r. re = CHR ''*'' # r)" "re = [] \<Longrightarrow> c \<noteq> CHR ''$''"
  shows "here (c # re) tx \<longleftrightarrow> (\<exists>t ts. tx = t # ts \<and> (c = CHR ''.'' \<or> c = t) \<and> here re ts)"
proof -
  have e: "items (c # re) = item_of c # items re" "dollar (c # re) = dollar re"
    using assms by (cases re; auto)+
  have i: "v \<in> item_lang (item_of c) \<longleftrightarrow> (\<exists>t. v = [t] \<and> (c = CHR ''.'' \<or> c = t))" for v
    by (auto simp: item_of_def length_Suc_conv)
  have "here (c # re) tx \<longleftrightarrow> (\<exists>v y. tx = v @ y \<and> v \<in> item_lang (item_of c) \<and> here re y)"
    unfolding here_def e lang.simps mem_Collect_eq by (metis append.assoc)
  then show ?thesis unfolding i split_one .
qed

lemma here_star:
  "here (c # CHR ''*'' # re) tx \<longleftrightarrow>
     here re tx \<or> (\<exists>t ts. tx = t # ts \<and> (t = c \<or> c = CHR ''.'') \<and> here (c # CHR ''*'' # re) ts)"
proof -
  have e: "items (c # CHR ''*'' # re) = rep_of c # items re" "dollar (c # CHR ''*'' # re) = dollar re" by simp_all
  have i: "v \<in> item_lang (rep_of c) \<longleftrightarrow> v = [] \<or> (\<exists>t w. v = t # w \<and> (t = c \<or> c = CHR ''.'') \<and> w \<in> item_lang (rep_of c))" for v
    by (cases v) (auto simp: rep_of_def)
  have h: "here (c # CHR ''*'' # re) x \<longleftrightarrow> (\<exists>v y. x = v @ y \<and> v \<in> item_lang (rep_of c) \<and> here re y)" for x
    unfolding here_def e lang.simps mem_Collect_eq by (metis append.assoc)
  show ?thesis unfolding h by (subst i) (rule split_more)
qed

lemma matchhere_iff: "matchhere re tx \<longleftrightarrow> here re tx"
  and matchstar_iff: "matchstar c re tx \<longleftrightarrow> here (c # CHR ''*'' # re) tx"
proof (induction re tx and c re tx rule: matchhere_matchstar.induct)
  case (1 re tx)
  consider "re = []" | c where "re = [c]" | c d r where "re = c # d # r" by (cases re rule: items.cases) auto
  then show ?case
  proof cases
    case 1
    then show ?thesis by (simp add: matchhere.simps)
  next
    case 2
    then show ?thesis using "1.IH" here_item [of "[]" c tx]
      by (subst matchhere.simps) (auto simp: here_dollar split: list.splits)
  next
    case 3
    then show ?thesis using "1.IH" here_item [of "d # r" c tx]
      by (subst matchhere.simps) (auto split: list.splits)
  qed
next
  case (2 c re tx)
  then show ?case by (subst matchstar.simps, subst here_star) (auto split: list.splits)
qed

lemma match_from_iff: "match_from re tx \<longleftrightarrow> (\<exists>pre t. tx = pre @ t \<and> here re t)"
proof (induction re tx rule: match_from.induct)
  case (1 re tx)
  show ?case
  proof (cases tx)
    case Nil
    then show ?thesis by (subst match_from.simps) (simp add: matchhere_iff)
  next
    case (Cons a ts)
    with "1.IH" have "match_from re tx \<longleftrightarrow> here re tx \<or> (\<exists>pre t. ts = pre @ t \<and> here re t)"
      by (subst match_from.simps) (simp add: matchhere_iff)
    also have "\<dots> \<longleftrightarrow> (\<exists>pre t. tx = pre @ t \<and> here re t)" using Cons by (metis append_Cons append_Nil append_eq_Cons_conv)
    finally show ?thesis .
  qed
qed

lemma match_iff: "match re tx \<longleftrightarrow> contains re tx"
  by (auto simp: match_def contains_def match_from_iff matchhere_iff split: list.split)

section \<open>Lines\<close>

text \<open>The lines of a file that end in a newline, without it, and what is left behind the last newline.\<close>

fun complete_lines :: "string \<Rightarrow> string \<Rightarrow> string list" where
  "complete_lines l [] = []"
| "complete_lines l (c # s) = (if c = newline then l # complete_lines [] s else complete_lines (l @ [c]) s)"

fun last_part :: "string \<Rightarrow> string \<Rightarrow> string" where
  "last_part l [] = l"
| "last_part l (c # s) = (if c = newline then last_part [] s else last_part (l @ [c]) s)"

definition select_lines :: "(string \<Rightarrow> bool) \<Rightarrow> string list \<Rightarrow> string" where
  "select_lines P ls = concat (map (\<lambda>l. l @ [newline]) (filter P ls))"

lemma complete_lines_acc: "newline \<notin> set a \<Longrightarrow> complete_lines l (a @ y) = complete_lines (l @ a) y"
  by (induction a arbitrary: l) auto

lemma last_part_acc: "newline \<notin> set a \<Longrightarrow> last_part l (a @ y) = last_part (l @ a) y"
  by (induction a arbitrary: l) auto

lemma last_part_no_newline: "newline \<notin> set l \<Longrightarrow> newline \<notin> set (last_part l x)"
  by (induction l x rule: last_part.induct) auto

lemma complete_lines_append:
  "newline \<notin> set l \<Longrightarrow> complete_lines l (x @ y) = complete_lines l x @ complete_lines [] (last_part l x @ y)"
  by (induction l x rule: complete_lines.induct) (auto simp: complete_lines_acc)

lemma last_part_length: "newline \<in> set x \<Longrightarrow> length (last_part l x) < length x"
proof (induction l x rule: last_part.induct)
  case (2 l c s)
  show ?case
  proof (cases "newline \<in> set s")
    case False
    then have "c = newline" using 2 by auto
    then show ?thesis using False last_part_acc [of s "[]" "[]"] by simp
  qed (use 2 in \<open>auto simp: less_Suc_eq\<close>)
qed simp

lemma last_part_le: "length (last_part [] x) \<le> length x"
  using last_part_length [of x "[]"] last_part_acc [of x "[]" "[]"] by (cases "newline \<in> set x") auto

lemma complete_lines_first_length:
  "l # ls = complete_lines acc (x @ y) \<Longrightarrow> newline \<notin> set x \<Longrightarrow> length acc + length x \<le> length l"
proof (induction acc "x @ y" arbitrary: x y rule: complete_lines.induct)
  case (2 acc c s)
  then show ?case using "2.hyps"(2) [of "[]" s] by (cases x) (auto split: if_splits)
qed auto

lemma lines_exist: "newline \<in> set x \<Longrightarrow> \<exists>l ls. complete_lines acc x = l # ls"
  by (induction acc x rule: complete_lines.induct) auto

lemma strchr_split:
  "case strchr p c of None \<Rightarrow> c \<notin> set p
   | Some q \<Rightarrow> \<exists>l r. p = l @ c # r \<and> c \<notin> set l \<and> q = c # r"
proof (induction p)
  case (Cons a p)
  then show ?case by (cases "a = c") (auto split: option.splits intro: exI [of _ "a # l" for l])
qed simp

lemma grep_lines_eq: "grep_lines pat p = (select_lines (contains pat) (complete_lines [] p), last_part [] p)"
proof (induction pat p rule: grep_lines.induct)
  case (1 pat p)
  show ?case
  proof (cases "strchr p newline")
    case None
    then have "newline \<notin> set p" using strchr_split [of newline p] by simp
    then show ?thesis using None complete_lines_acc [of p "[]" "[]"] last_part_acc [of p "[]" "[]"]
      by (subst grep_lines.simps) (simp add: select_lines_def)
  next
    case (Some q)
    then obtain l r where p: "p = l @ newline # r" "newline \<notin> set l" "q = newline # r" using strchr_split [of newline p] by auto
    then show ?thesis using Some "1.IH" [OF Some]
      by (subst grep_lines.simps) (simp add: match_iff select_lines_def complete_lines_acc last_part_acc)
  qed
qed

text \<open>A full buffer without a newline can be dropped when no line is that long.\<close>

lemma partial_line:
  assumes "newline \<notin> set x" "y = [] \<or> n \<le> length x" "\<forall>l\<in>set (complete_lines [] (x @ y)). length l < n"
  shows "complete_lines [] (x @ y) = complete_lines [] y"
proof (cases "newline \<in> set y")
  case True
  then obtain l ls where l: "l # ls = complete_lines [] (x @ y)" using lines_exist [of "x @ y" "[]"] by auto
  then have "length x \<le> length l" using complete_lines_first_length assms(1) by force
  moreover have "l \<in> set (complete_lines [] (x @ y))" using l by (metis list.set_intros(1))
  ultimately have "y = []" using assms(2,3) by fastforce
  then show ?thesis using assms(1) complete_lines_acc [of x "[]" "[]"] by simp
next
  case False
  then show ?thesis using assms(1) complete_lines_acc [of "x @ y" "[]" "[]"] complete_lines_acc [of y "[]" "[]"] by simp
qed

lemma grep_loop_step:
  assumes "read_chunk (BUFSZ - length b - 1) cs = (d, cs')" "d \<noteq> []"
  shows "grep_loop pat b cs = select_lines (contains pat) (complete_lines [] (b @ d))
     @ grep_loop pat (if length (last_part [] (b @ d)) = length (b @ d) then [] else last_part [] (b @ d)) cs'"
  using assms by (subst grep_loop.simps) (simp add: grep_lines_eq Let_def)

text \<open>Chunks that break no line: all but the last end in a newline.\<close>

definition whole_lines :: "string list \<Rightarrow> bool" where
  "whole_lines cs \<longleftrightarrow> (\<forall>c\<in>set cs. c \<noteq> []) \<and> (\<forall>c\<in>set (butlast cs). last c = newline)"

lemma whole_lines_drop:
  assumes "whole_lines (c # cs)" "k < length c"
  shows "whole_lines (drop k c # cs)"
  using assms by (cases cs) (auto simp: whole_lines_def last_drop)

lemma last_part_newline: "last x = newline \<Longrightarrow> x \<noteq> [] \<Longrightarrow> last_part l x = []"
  by (induction l x rule: last_part.induct) (auto split: if_splits)

lemma select_lines_append [simp]: "select_lines P (xs @ ys) = select_lines P xs @ select_lines P ys"
  by (simp add: select_lines_def)

lemma grep_split:
  assumes b: "newline \<notin> set b" and x: "x = b @ d" and y: "y = [] \<or> BUFSZ - 1 \<le> length x"
    and l: "\<forall>l\<in>set (complete_lines [] (x @ y)). length l < BUFSZ - 1"
  defines "r \<equiv> if length (last_part [] x) = length x then [] else last_part [] x"
  shows "complete_lines [] (x @ y) = complete_lines [] x @ complete_lines [] (r @ y)"
proof (cases "newline \<in> set x")
  case True
  then show ?thesis using complete_lines_append [of "[]" x y] last_part_length [OF True, of "[]"] by (simp add: r_def)
next
  case False
  then have *: "last_part [] x = x" "complete_lines [] x = []"
    using last_part_acc [of x "[]" "[]"] complete_lines_acc [of x "[]" "[]"] by simp_all
  have "complete_lines [] (x @ y) = complete_lines [] y" by (rule partial_line [where n = "BUFSZ - 1"]) (use False y l in auto)
  then show ?thesis using * by (simp add: r_def)
qed

lemma grep_loop_eq:
  assumes "newline \<notin> set b" "length b < BUFSZ - 1" "whole_lines cs"
    "\<forall>l\<in>set (complete_lines [] (b @ concat cs)). length l < BUFSZ - 1"
  shows "grep_loop pat b cs = select_lines (contains pat) (complete_lines [] (b @ concat cs))"
  using assms
proof (induction pat b cs rule: grep_loop.induct)
  case (1 pat b cs)
  let ?k = "BUFSZ - length b - 1" and ?n = "complete_lines []"
  note b0 = complete_lines_acc [OF 1(2), of "[]" "[]"]
  show ?case
  proof (cases cs)
    case Nil
    then show ?thesis using b0 by (subst grep_loop.simps) (simp add: grep_lines_eq select_lines_def)
  next
    case (Cons c cs1)
    define cs' where "cs' = (if length c \<le> ?k then cs1 else drop ?k c # cs1)"
    let ?d = "take ?k c"
    let ?x = "b @ ?d"
    let ?b = "if length (last_part [] ?x) = length ?x then [] else last_part [] ?x"
    have rd: "read_chunk ?k cs = (?d, cs')" by (simp add: Cons cs'_def)
    have c: "c \<noteq> []" using 1(4) Cons by (simp add: whole_lines_def)
    have d: "?d \<noteq> []" using c 1(3) by simp
    have cc: "b @ concat cs = ?x @ concat cs'" by (simp add: Cons cs'_def)
    have w: "whole_lines cs'"
      using 1(4) whole_lines_drop [of c cs1 ?k] unfolding Cons cs'_def by (cases cs1) (auto simp: whole_lines_def)
    have split: "?n (b @ concat cs) = ?n ?x @ ?n (?b @ concat cs')"
    proof (cases "length c \<le> ?k \<and> cs1 \<noteq> []")
      case True
      then have "last c = newline" using 1(4) Cons by (simp add: whole_lines_def)
      then have lp: "last_part l ?x = []" for l using last_part_newline [of "b @ c" l] True c by simp
      moreover have "?x \<noteq> []" using d by simp
      ultimately show ?thesis using complete_lines_append [of "[]" ?x "concat cs'"] cc by simp
    next
      case False
      then have "concat cs' = [] \<or> BUFSZ - 1 \<le> length ?x" using 1(3) by (auto simp: cs'_def)
      then show ?thesis unfolding cc by (rule grep_split [OF 1(2) refl]) (use 1(5) cc in metis)
    qed
    have "grep_loop pat ?b cs' = select_lines (contains pat) (?n (?b @ concat cs'))"
    proof (rule "1.IH" [OF rd [symmetric] refl refl grep_lines_eq [symmetric] refl d _ _ w])
    qed (use last_part_no_newline [of "[]" ?x] 1(5) split last_part_le [of ?x] 1(3) in \<open>auto simp: BUFSZ_def\<close>)
    then show ?thesis unfolding split grep_loop_step [OF rd d] by simp
  qed
qed

section \<open>Property\<close>

text \<open>
  C24: \<^verbatim>\<open>grep\<close> writes exactly the lines of its input that contain a match of the pattern, in order, each
  with its newline, where containing a match is the declarative meaning of patterns with \<^verbatim>\<open>^\<close>, \<^verbatim>\<open>.\<close>,
  \<^verbatim>\<open>*\<close> and \<^verbatim>\<open>$\<close> and not the matcher's recursion; lines that the end of the buffer cuts are put together
  again.  The input is a regular file, or arrives from a pipe or the console in chunks that each end with the end of
  a line; its lines are shorter than the buffer and, as C strings, hold no zero character.
\<close>

theorem grep_correct:
  assumes "whole_lines chunks" "\<forall>l\<in>set (complete_lines [] (concat chunks)). length l < BUFSZ - 1"
    "CHR 0x00 \<notin> set (concat chunks)" "CHR 0x00 \<notin> set pat"
  shows "grep pat chunks = select_lines (contains pat) (complete_lines [] (concat chunks))"
  using grep_loop_eq [of "[]" chunks pat] assms(1,2) by (simp add: grep_def BUFSZ_def)

theorem grep_correct_witness:
  "grep ''^a.*c$'' [''abc'' @ [newline] @ ''xac'' @ [newline], ''ac'' @ [newline] @ ''a''] = ''abc'' @ [newline] @ ''ac'' @ [newline]"
proof -
  let ?f = "[''abc'' @ [newline] @ ''xac'' @ [newline], ''ac'' @ [newline] @ ''a'']"
  have l: "complete_lines [] (concat ?f) = [''abc'', ''xac'', ''ac'']" by (simp add: newline_def)
  have m: "contains ''^a.*c$'' ''abc''" "\<not> contains ''^a.*c$'' ''xac''" "contains ''^a.*c$'' ''ac''"
    unfolding match_iff [symmetric] by code_simp+
  have w: "whole_lines ?f" by (simp add: whole_lines_def)
  have "grep ''^a.*c$'' ?f = select_lines (contains ''^a.*c$'') (complete_lines [] (concat ?f))"
    by (rule grep_correct [OF w]) (unfold l, simp_all add: BUFSZ_def newline_def)
  also have "\<dots> = ''abc'' @ [newline] @ ''ac'' @ [newline]"
    unfolding l select_lines_def using m by (simp only: filter.simps list.map concat.simps if_True if_False append_assoc append_Nil2)
  finally show ?thesis .
qed

text \<open>
  The condition on the chunks is needed.  A read that ends inside a line and delivers no newline loses what it
  delivered, although the buffer has room: the rest of the line is then matched, and printed, alone.
\<close>

theorem grep_short_read_drops:
  assumes "newline \<notin> set c" "c \<noteq> []" "length c < BUFSZ"
  shows "grep pat (c # cs) = grep pat cs"
proof -
  have "read_chunk (BUFSZ - length [] - 1) (c # cs) = (c, cs)" using assms(3) by simp
  from grep_loop_step [OF this assms(2), of pat] show ?thesis
    using assms(1) last_part_acc [of c "[]" "[]"] complete_lines_acc [of c "[]" "[]"] by (simp add: grep_def select_lines_def)
qed

end
