(* ===== verification/Sh.thy ===== *)
theory Sh
  imports Kprelude
begin

text \<open>
  The parser of the user-level shell \<^verbatim>\<open>sh.c\<close>: the tokenizer \<^verbatim>\<open>gettoken\<close> and \<^verbatim>\<open>peek\<close>, the recursive
  descent from \<^verbatim>\<open>parsecmd\<close> to \<^verbatim>\<open>parseexec\<close>, and \<^verbatim>\<open>nulterminate\<close>.  The command line is the list of its
  characters before the terminating zero, a pointer into it an index, and \<^verbatim>\<open>es\<close> the length of the list.
  \<^verbatim>\<open>panic\<close> of the shell ends the process: it is the result \<open>Fail\<close>.  The parsing functions call each
  other and carry fuel; \<open>NoFuel\<close> is never the result of \<open>parsecmd\<close>, which is proved below.
\<close>

section \<open>Commands\<close>

text \<open>A word of the command line is its first index and the index behind its last character.\<close>

datatype cmd = EXEC "(nat \<times> nat) list" | REDIR cmd nat nat nat nat | PIPE cmd cmd | LIST cmd cmd | BACK cmd

datatype 'a presult = NoFuel | Fail string | Got 'a nat

fun then_parse :: "'a presult \<Rightarrow> ('a \<Rightarrow> nat \<Rightarrow> 'b presult) \<Rightarrow> 'b presult" where
  "then_parse (Got x s) f = f x s"
| "then_parse (Fail e) f = Fail e"
| "then_parse NoFuel f = NoFuel"

definition MAXARGS :: nat where "MAXARGS = 10"

definition mode_rdonly :: nat where "mode_rdonly = 0"
definition mode_create :: nat where "mode_create = 0x201"

section \<open>Tokens\<close>

definition whitespace :: string where "whitespace = [CHR 0x20, CHR 0x09, CHR 0x0D, CHR 0x0A, CHR 0x0B]"
definition symbols :: string where "symbols = ''<|>&;()''"

definition char_at :: "string \<Rightarrow> nat \<Rightarrow> char" where
  "char_at b i = (if i < length b then b ! i else CHR 0x00)"

function skip_space :: "string \<Rightarrow> nat \<Rightarrow> nat" where
  "skip_space b s = (if s < length b \<and> char_at b s \<in> set whitespace then skip_space b (s + 1) else s)"
  by pat_completeness auto
termination
  by (relation "measure (\<lambda>(b, s). length b - s)") auto

function word_end :: "string \<Rightarrow> nat \<Rightarrow> nat" where
  "word_end b s =
     (if s < length b \<and> char_at b s \<notin> set whitespace \<and> char_at b s \<notin> set symbols then word_end b (s + 1) else s)"
  by pat_completeness auto
termination
  by (relation "measure (\<lambda>(b, s). length b - s)") auto

declare skip_space.simps [simp del] word_end.simps [simp del]

text \<open>The \<^verbatim>\<open>switch\<close> of \<^verbatim>\<open>gettoken\<close>: the kind of the token and the index behind it.\<close>

definition token_at :: "string \<Rightarrow> nat \<Rightarrow> char \<times> nat" where
  "token_at b s = (let c = char_at b s in
     if c = CHR 0x00 then (c, s)
     else if c \<in> set ''|();&<'' then (c, s + 1)
     else if c = CHR ''>'' then (if char_at b (s + 1) = CHR ''>'' then (CHR ''+'', s + 2) else (c, s + 1))
     else (CHR ''a'', word_end b s))"

text \<open>The result is the kind, the word, and the new position.\<close>

definition gettoken :: "string \<Rightarrow> nat \<Rightarrow> char \<times> (nat \<times> nat) \<times> nat" where
  "gettoken b s = (let q = skip_space b s; (k, eq) = token_at b q in (k, (q, eq), skip_space b eq))"

definition peek :: "string \<Rightarrow> nat \<Rightarrow> string \<Rightarrow> bool \<times> nat" where
  "peek b s toks = (let s' = skip_space b s; c = char_at b s' in (c \<noteq> CHR 0x00 \<and> c \<in> set toks, s'))"

lemma skip_space_bounds: "s \<le> skip_space b s" "s \<le> length b \<Longrightarrow> skip_space b s \<le> length b"
  by (induction b s rule: skip_space.induct; subst skip_space.simps; force)+

lemma word_end_bounds: "s \<le> word_end b s" "s \<le> length b \<Longrightarrow> word_end b s \<le> length b"
  by (induction b s rule: word_end.induct; subst word_end.simps; force)+

lemma skip_space_stop: "skip_space b s < length b \<Longrightarrow> char_at b (skip_space b s) \<notin> set whitespace"
  by (induction b s rule: skip_space.induct) (metis skip_space.simps)

lemma char_at_nonzero: "char_at b i \<noteq> CHR 0x00 \<Longrightarrow> i < length b"
  by (auto simp: char_at_def split: if_splits)

definition word_char :: "char \<Rightarrow> bool" where
  "word_char c \<longleftrightarrow> c \<notin> set whitespace \<and> c \<notin> set symbols"

lemma token_at_progress:
  assumes "token_at b q = (k, eq)" "k \<noteq> CHR 0x00" "char_at b q \<notin> set whitespace"
  shows "q < eq" "eq \<le> length b"
proof -
  have c: "char_at b q \<noteq> CHR 0x00" using assms by (auto simp: token_at_def Let_def split: if_splits)
  then have q: "q < length b" by (rule char_at_nonzero)
  have "q < word_end b q" if "char_at b q \<notin> set symbols"
    using that q assms(3) word_end_bounds(1) [of "q + 1" b] by (subst word_end.simps) simp
  then show "q < eq" using assms c by (auto simp: token_at_def Let_def symbols_def split: if_splits)
  show "eq \<le> length b"
    using assms c q word_end_bounds(2) [of q b] char_at_nonzero [of b "q + 1"]
    by (auto simp: token_at_def Let_def split: if_splits)
qed

lemma gettoken_progress:
  assumes "gettoken b s = (k, (q, eq), s')" "k \<noteq> CHR 0x00"
  shows "s \<le> q" "q < eq" "eq \<le> s'" "s' \<le> length b"
proof -
  have t: "token_at b q = (k, eq)" "q = skip_space b s" "s' = skip_space b eq"
    using assms(1) by (auto simp: gettoken_def Let_def split: prod.splits)
  have "char_at b q \<noteq> CHR 0x00" using t(1) assms(2) by (auto simp: token_at_def Let_def split: if_splits)
  then have "char_at b q \<notin> set whitespace" using t(2) skip_space_stop char_at_nonzero by blast
  from token_at_progress [OF t(1) assms(2) this]
  show "s \<le> q" "q < eq" "eq \<le> s'" "s' \<le> length b"
    using t skip_space_bounds by auto
qed

lemma peek_progress:
  assumes "peek b s toks = (r, s')"
  shows "s \<le> s'" "s \<le> length b \<Longrightarrow> s' \<le> length b" "r \<Longrightarrow> s' < length b" "r \<longleftrightarrow> char_at b s' \<noteq> CHR 0x00 \<and> char_at b s' \<in> set toks"
    "s' = skip_space b s"
  using assms skip_space_bounds [of s b] char_at_nonzero [of b s'] by (auto simp: peek_def Let_def)

lemma skip_space_idem [simp]: "skip_space b (skip_space b s) = skip_space b s"
  by (induction b s rule: skip_space.induct) (metis skip_space.simps)

text \<open>A token read where \<^verbatim>\<open>peek\<close> has just seen a symbol moves on.\<close>

lemma gettoken_peeked:
  assumes "peek b s toks = (True, s1)" "gettoken b s1 = (k, w, s2)"
  shows "k \<noteq> CHR 0x00" "s < s2" "s2 \<le> length b"
proof -
  note P = peek_progress [OF assms(1)]
  obtain q eq where w: "w = (q, eq)" by fastforce
  have q: "q = s1" "token_at b s1 = (k, eq)" using assms(2) P(5) w by (auto simp: gettoken_def Let_def split: prod.splits)
  then show k: "k \<noteq> CHR 0x00" using P(4) by (auto simp: token_at_def Let_def split: if_splits)
  from gettoken_progress [OF assms(2) [unfolded w] k] q P(1) show "s < s2" "s2 \<le> length b" by auto
qed

section \<open>The parser\<close>

text \<open>The loop of \<^verbatim>\<open>parseredirs\<close>: the redirections found, in order, each with its file, mode and
  descriptor; \<open>add_redirs\<close> wraps them around a command, the first one innermost.\<close>

type_synonym redirection = "nat \<times> nat \<times> nat \<times> nat"

function redirs :: "string \<Rightarrow> nat \<Rightarrow> redirection list presult" where
  "redirs b s =
     (case peek b s ''<>'' of (more, s1) \<Rightarrow>
      if \<not> more then Got [] s1
      else (case gettoken b s1 of (tok, _, s2) \<Rightarrow>
        case gettoken b s2 of (k, (q, eq), s3) \<Rightarrow>
        if k \<noteq> CHR ''a'' then Fail ''missing file for redirection''
        else (case redirs b s3 of
            Got rs s4 \<Rightarrow> Got (if tok = CHR ''<'' then (q, eq, mode_rdonly, 0) # rs
              else if tok = CHR ''>'' \<or> tok = CHR ''+'' then (q, eq, mode_create, 1) # rs else rs) s4
          | r \<Rightarrow> r)))"
  by pat_completeness auto
termination
proof (relation "measure (\<lambda>(b, s). length b - s)")
  fix b s x1 s1 tok t w s2 k p u s3 q eq
  assume a: "(x1, s1) = peek b s ''<>''" "\<not> \<not> x1" "(tok, t) = gettoken b s1" "(w, s2) = t"
    "(k, p) = gettoken b s2" "(u, s3) = p" "(q, eq) = u" "\<not> k \<noteq> CHR ''a''"
  have 1: "peek b s ''<>'' = (True, s1)" using a(1,2) by simp
  have 2: "gettoken b s1 = (tok, w, s2)" using a(3,4) by simp
  have 3: "gettoken b s2 = (k, (q, eq), s3)" using a(5-7) by simp
  have "k \<noteq> CHR 0x00" using a(8) by auto
  then show "((b, s3), b, s) \<in> measure (\<lambda>(b, s). length b - s)"
    using gettoken_peeked [OF 1 2] gettoken_progress [OF 3] by simp
qed simp

declare redirs.simps [simp del]

fun add_redirs :: "cmd \<Rightarrow> redirection list \<Rightarrow> cmd" where
  "add_redirs c [] = c"
| "add_redirs c ((q, eq, m, fd) # rs) = add_redirs (REDIR c q eq m fd) rs"

text \<open>The loop of \<^verbatim>\<open>parseexec\<close> with \<open>argc\<close> words found so far.  The node the words are stored in is
  inside the redirections found on the way, so both are collected.\<close>

function parse_args :: "string \<Rightarrow> nat \<Rightarrow> nat \<Rightarrow> ((nat \<times> nat) list \<times> redirection list) presult" where
  "parse_args b s argc =
     (case peek b s ''|)&;'' of (stop, s1) \<Rightarrow>
      if stop then Got ([], []) s1
      else (case gettoken b s1 of (k, w, s2) \<Rightarrow>
        if k = CHR 0x00 then Got ([], []) s2
        else if k \<noteq> CHR ''a'' then Fail ''syntax''
        else if argc + 1 \<ge> MAXARGS then Fail ''too many args''
        else (case redirs b s2 of
            Got rs s3 \<Rightarrow> (case parse_args b s3 (argc + 1) of
                Got (ws, rs') s4 \<Rightarrow> Got (w # ws, rs @ rs') s4
              | NoFuel \<Rightarrow> NoFuel | Fail e \<Rightarrow> Fail e)
          | NoFuel \<Rightarrow> NoFuel | Fail e \<Rightarrow> Fail e)))"
  by pat_completeness auto
termination
  by (relation "measure (\<lambda>(b, s, argc). MAXARGS - argc)") auto

declare parse_args.simps [simp del]

text \<open>The loop of \<^verbatim>\<open>parseline\<close> over the ampersands.\<close>

function amps :: "string \<Rightarrow> cmd \<Rightarrow> nat \<Rightarrow> cmd \<times> nat" where
  "amps b c s =
     (case peek b s ''&'' of (more, s1) \<Rightarrow>
      if more then (case gettoken b s1 of (_, _, s2) \<Rightarrow> amps b (BACK c) s2) else (c, s1))"
  by pat_completeness auto
termination
proof (relation "measure (\<lambda>(b, c, s). length b - s)")
  fix b c s x s1 k t w s2
  assume "(x, s1) = peek b s ''&''" "x" "(k, t) = gettoken b s1" "(w, s2) = t"
  then have "peek b s ''&'' = (True, s1)" "gettoken b s1 = (k, w, s2)" by simp_all
  from gettoken_peeked [OF this] show "((b, BACK c, s2), b, c, s) \<in> measure (\<lambda>(b, c, s). length b - s)" by simp
qed simp

declare amps.simps [simp del]

text \<open>\<^verbatim>\<open>parseline\<close>, \<^verbatim>\<open>parsepipe\<close>, \<^verbatim>\<open>parseblock\<close> and \<^verbatim>\<open>parseexec\<close>.\<close>

definition next_pos :: "string \<Rightarrow> nat \<Rightarrow> nat" where
  "next_pos b s = (case gettoken b s of (_, _, s') \<Rightarrow> s')"

fun parseline :: "nat \<Rightarrow> string \<Rightarrow> nat \<Rightarrow> cmd presult"
  and parsepipe :: "nat \<Rightarrow> string \<Rightarrow> nat \<Rightarrow> cmd presult"
  and parseblock :: "nat \<Rightarrow> string \<Rightarrow> nat \<Rightarrow> cmd presult"
  and parseexec :: "nat \<Rightarrow> string \<Rightarrow> nat \<Rightarrow> cmd presult" where
  "parseline 0 b s = NoFuel"
| "parseline (Suc n) b s =
     then_parse (parsepipe n b s) (\<lambda>c s1.
     case amps b c s1 of (c1, s2) \<Rightarrow>
     case peek b s2 '';'' of (more, s3) \<Rightarrow>
     if more then then_parse (parseline n b (next_pos b s3)) (\<lambda>d s4. Got (LIST c1 d) s4)
     else Got c1 s3)"
| "parsepipe 0 b s = NoFuel"
| "parsepipe (Suc n) b s =
     then_parse (parseexec n b s) (\<lambda>c s1.
     case peek b s1 ''|'' of (more, s2) \<Rightarrow>
     if more then then_parse (parsepipe n b (next_pos b s2)) (\<lambda>d s3. Got (PIPE c d) s3)
     else Got c s2)"
| "parseblock 0 b s = NoFuel"
| "parseblock (Suc n) b s =
     (case peek b s ''('' of (here, s1) \<Rightarrow>
      if \<not> here then Fail ''parseblock'' else
      then_parse (parseline n b (next_pos b s1)) (\<lambda>c s2.
      case peek b s2 '')'' of (closed, s3) \<Rightarrow>
      if \<not> closed then Fail ''syntax - missing )'' else
      then_parse (redirs b (next_pos b s3)) (\<lambda>rs s4. Got (add_redirs c rs) s4)))"
| "parseexec 0 b s = NoFuel"
| "parseexec (Suc n) b s =
     (case peek b s ''('' of (block, s1) \<Rightarrow>
      if block then parseblock n b s1 else
      then_parse (redirs b s1) (\<lambda>rs0 s2.
      then_parse (parse_args b s2 0) (\<lambda>(ws, rs) s3. Got (add_redirs (EXEC ws) (rs0 @ rs)) s3)))"

definition parsecmd :: "string \<Rightarrow> cmd presult" where
  "parsecmd b =
     then_parse (parseline (4 * length b + 4) b 0) (\<lambda>c s.
     case peek b s [] of (_, s1) \<Rightarrow> if s1 \<noteq> length b then Fail ''syntax'' else Got c s1)"

section \<open>Terminating the words\<close>

text \<open>\<open>m\<close> is the buffer with its terminating zero.\<close>

fun nulterminate :: "cmd \<Rightarrow> string \<Rightarrow> string" where
  "nulterminate (EXEC ws) m = foldl (\<lambda>m (q, eq). m[eq := CHR 0x00]) m ws"
| "nulterminate (REDIR c q eq mode fd) m = (nulterminate c m)[eq := CHR 0x00]"
| "nulterminate (PIPE l r) m = nulterminate r (nulterminate l m)"
| "nulterminate (LIST l r) m = nulterminate r (nulterminate l m)"
| "nulterminate (BACK c) m = nulterminate c m"

section \<open>Unfolding and induction for the loops\<close>

definition redir_of :: "char \<Rightarrow> nat \<Rightarrow> nat \<Rightarrow> redirection list \<Rightarrow> redirection list" where
  "redir_of tok q eq rs = (if tok = CHR ''<'' then (q, eq, mode_rdonly, 0) # rs
     else if tok = CHR ''>'' \<or> tok = CHR ''+'' then (q, eq, mode_create, 1) # rs else rs)"

lemma redirs_stop: "peek b s ''<>'' = (False, s1) \<Longrightarrow> redirs b s = Got [] s1"
  by (subst redirs.simps) simp

lemma redirs_step:
  assumes "peek b s ''<>'' = (True, s1)" "gettoken b s1 = (tok, w, s2)" "gettoken b s2 = (k, (q, eq), s3)"
  shows "redirs b s = (if k \<noteq> CHR ''a'' then Fail ''missing file for redirection''
    else then_parse (redirs b s3) (\<lambda>rs s4. Got (redir_of tok q eq rs) s4))"
  using assms by (subst redirs.simps) (simp add: redir_of_def split: presult.split)

lemma redirs_induct [case_names stop step]:
  assumes stop: "\<And>s s1. peek b s ''<>'' = (False, s1) \<Longrightarrow> P s"
    and step: "\<And>s s1 tok w s2 k q eq s3. peek b s ''<>'' = (True, s1) \<Longrightarrow> gettoken b s1 = (tok, w, s2)
      \<Longrightarrow> gettoken b s2 = (k, (q, eq), s3) \<Longrightarrow> (k = CHR ''a'' \<Longrightarrow> P s3) \<Longrightarrow> P s"
  shows "P s"
proof (induction "length b - s" arbitrary: s rule: less_induct)
  case less
  obtain m s1 where p: "peek b s ''<>'' = (m, s1)" by fastforce
  obtain tok w s2 where t: "gettoken b s1 = (tok, w, s2)" by (metis prod_cases3)
  obtain k q eq s3 where f: "gettoken b s2 = (k, (q, eq), s3)" by (metis prod_cases3 surj_pair)
  show ?case
  proof (cases m)
    case True
    then have pT: "peek b s ''<>'' = (True, s1)" using p by simp
    show ?thesis
    proof (rule step [OF pT t f])
      assume "k = CHR ''a''"
      then show "P s3" using less gettoken_peeked [OF pT t] gettoken_progress [OF f] by simp
    qed
  qed (use stop p in simp)
qed

lemma parse_args_stop: "peek b s ''|)&;'' = (True, s1) \<Longrightarrow> parse_args b s n = Got ([], []) s1"
  by (subst parse_args.simps) simp

lemma parse_args_step:
  assumes "peek b s ''|)&;'' = (False, s1)" "gettoken b s1 = (k, w, s2)"
  shows "parse_args b s n = (if k = CHR 0x00 then Got ([], []) s2 else if k \<noteq> CHR ''a'' then Fail ''syntax''
    else if n + 1 \<ge> MAXARGS then Fail ''too many args''
    else then_parse (redirs b s2) (\<lambda>rs s3. then_parse (parse_args b s3 (n + 1)) (\<lambda>(ws, rs') s4. Got (w # ws, rs @ rs') s4)))"
  using assms by (subst parse_args.simps) (auto split: presult.split)

lemma parse_args_induct [case_names stop step]:
  assumes stop: "\<And>s n s1. peek b s ''|)&;'' = (True, s1) \<Longrightarrow> P s n"
    and step: "\<And>s n s1 k w s2. peek b s ''|)&;'' = (False, s1) \<Longrightarrow> gettoken b s1 = (k, w, s2)
      \<Longrightarrow> (\<And>s3. n + 1 < MAXARGS \<Longrightarrow> P s3 (n + 1)) \<Longrightarrow> P s n"
  shows "P s n"
proof (induction "MAXARGS - n" arbitrary: s n rule: less_induct)
  case less
  obtain m s1 where p: "peek b s ''|)&;'' = (m, s1)" by fastforce
  obtain k w s2 where g: "gettoken b s1 = (k, w, s2)" by (metis prod_cases3)
  show ?case
  proof (cases m)
    case False
    then show ?thesis using step [of s s1 k w s2 n] p g less by simp
  qed (use stop p in simp)
qed

lemma amps_stop: "peek b s ''&'' = (False, s1) \<Longrightarrow> amps b c s = (c, s1)"
  by (subst amps.simps) simp

lemma amps_step: "peek b s ''&'' = (True, s1) \<Longrightarrow> amps b c s = amps b (BACK c) (next_pos b s1)"
  by (subst amps.simps) (auto simp: next_pos_def split: prod.split)

lemma next_pos_peeked: "peek b s toks = (True, s1) \<Longrightarrow> s < next_pos b s1 \<and> next_pos b s1 \<le> length b"
  using gettoken_peeked [of b s toks s1] by (auto simp: next_pos_def split: prod.splits)

lemma amps_induct [case_names stop step]:
  assumes stop: "\<And>s c s1. peek b s ''&'' = (False, s1) \<Longrightarrow> P c s"
    and step: "\<And>s c s1. peek b s ''&'' = (True, s1) \<Longrightarrow> P (BACK c) (next_pos b s1) \<Longrightarrow> P c s"
  shows "P c s"
proof (induction "length b - s" arbitrary: c s rule: less_induct)
  case less
  obtain m s1 where p: "peek b s ''&'' = (m, s1)" by fastforce
  show ?case
  proof (cases m)
    case True
    then have pT: "peek b s ''&'' = (True, s1)" using p by simp
    show ?thesis by (rule step [OF pT], rule less) (use next_pos_peeked [OF pT] in auto)
  qed (use stop p in simp)
qed

section \<open>The parser always returns\<close>

lemma redirs_total: "redirs b s \<noteq> NoFuel"
proof (induction s rule: redirs_induct [where b = b])
  case (step s s1 tok w s2 k q eq s3)
  then show ?case unfolding redirs_step [OF step(1-3)] by (cases "redirs b s3") auto
qed (simp add: redirs_stop)

lemma total_then: "r \<noteq> NoFuel \<Longrightarrow> (\<And>x s. r = Got x s \<Longrightarrow> f x s \<noteq> NoFuel) \<Longrightarrow> then_parse r f \<noteq> NoFuel"
  by (cases r) auto

lemma then_NoFuel: "then_parse r f = NoFuel \<Longrightarrow> r = NoFuel \<or> (\<exists>x s. r = Got x s \<and> f x s = NoFuel)"
  by (cases r) auto

lemma parse_args_total: "parse_args b s n \<noteq> NoFuel"
proof (induction s n rule: parse_args_induct [where b = b])
  case (step s n s1 k w s2)
  have "then_parse (redirs b s2) (\<lambda>rs s3. then_parse (parse_args b s3 (n + 1)) (\<lambda>(ws, rs') s4. Got (w # ws, rs @ rs') s4)) \<noteq> NoFuel"
    if "n + 1 < MAXARGS" by (intro total_then redirs_total step(3) that) (simp split: prod.split)
  then show ?case unfolding parse_args_step [OF step(1,2)] by (simp add: not_le)
qed (simp add: parse_args_stop)

lemma peek_skip [simp]: "peek b (skip_space b s) toks = peek b s toks"
  by (simp add: peek_def)

text \<open>What a parsing step at \<open>s\<close> guarantees: the position moves on inside the line and the result
  satisfies \<open>P\<close>, or it stops with one of the error messages.\<close>

definition sh_errors :: "string set" where
  "sh_errors = {''syntax'', ''missing file for redirection'', ''too many args'', ''syntax - missing )''}"

definition parses :: "('a \<Rightarrow> bool) \<Rightarrow> string \<Rightarrow> nat \<Rightarrow> 'a presult \<Rightarrow> bool" where
  "parses P b s r \<longleftrightarrow> (case r of Got x s' \<Rightarrow> s \<le> s' \<and> (s \<le> length b \<longrightarrow> s' \<le> length b) \<and> P x
     | Fail e \<Rightarrow> e \<in> sh_errors | NoFuel \<Rightarrow> True)"

lemma parses_simps [simp]:
  "parses P b s NoFuel" "parses P b s (Fail e) \<longleftrightarrow> e \<in> sh_errors"
  "parses P b s (Got x s') \<longleftrightarrow> s \<le> s' \<and> (s \<le> length b \<longrightarrow> s' \<le> length b) \<and> P x"
  by (simp_all add: parses_def)

lemma parses_from: "parses P b s0 r \<Longrightarrow> s \<le> s0 \<and> (s \<le> length b \<longrightarrow> s0 \<le> length b) \<Longrightarrow> parses P b s r"
  by (auto simp: parses_def split: presult.splits)

lemma parses_then:
  "parses P b s r \<Longrightarrow> (\<And>x s'. P x \<Longrightarrow> parses Q b s' (f x s')) \<Longrightarrow> parses Q b s (then_parse r f)"
  by (cases r) (auto intro: parses_from)

lemma gettoken_moves: "gettoken b s = (k, w, s') \<Longrightarrow> s \<le> s' \<and> (s \<le> length b \<longrightarrow> s' \<le> length b)"
proof (cases "k = CHR 0x00")
  case True
  assume g: "gettoken b s = (k, w, s')"
  with True have "s' = skip_space b s" by (auto simp: gettoken_def token_at_def Let_def split: prod.splits if_splits)
  then show ?thesis using skip_space_bounds [of s b] by auto
next
  case False
  assume g: "gettoken b s = (k, w, s')"
  obtain q eq where "w = (q, eq)" by fastforce
  with gettoken_progress [of b s k q eq s'] g False show ?thesis by simp
qed

lemma parses_next: "parses P b (next_pos b s) r \<Longrightarrow> parses P b s r"
  by (erule parses_from) (auto simp: next_pos_def split: prod.split dest: gettoken_moves)

lemma parses_peek:
  "(\<And>more s1. peek b s1 toks = (more, s1) \<Longrightarrow> parses P b s1 (f more s1)) \<Longrightarrow>
   parses P b s (case peek b s toks of (more, s1) \<Rightarrow> f more s1)"
proof -
  assume a: "\<And>more s1. peek b s1 toks = (more, s1) \<Longrightarrow> parses P b s1 (f more s1)"
  obtain more s1 where p: "peek b s toks = (more, s1)" by fastforce
  then have "peek b s1 toks = (more, s1)" using peek_progress(5) [OF p] by simp
  then show ?thesis using p parses_from [OF a] peek_progress(1,2) [OF p] by simp
qed

text \<open>A word: a maximal run of characters that are neither white space nor symbols.\<close>

fun word_ok :: "string \<Rightarrow> nat \<times> nat \<Rightarrow> bool" where
  "word_ok b (q, eq) \<longleftrightarrow> q < eq \<and> eq \<le> length b \<and> (\<forall>i. q \<le> i \<and> i < eq \<longrightarrow> word_char (b ! i)) \<and> (eq < length b \<longrightarrow> \<not> word_char (b ! eq))"

declare word_ok.simps [simp del]

fun words :: "cmd \<Rightarrow> (nat \<times> nat) set" where
  "words (EXEC ws) = set ws"
| "words (REDIR c q eq mode fd) = insert (q, eq) (words c)"
| "words (PIPE l r) = words l \<union> words r"
| "words (LIST l r) = words l \<union> words r"
| "words (BACK c) = words c"

definition words_ok :: "string \<Rightarrow> cmd \<Rightarrow> bool" where
  "words_ok b c \<longleftrightarrow> (\<forall>w\<in>words c. word_ok b w)"

lemma words_ok_simps [simp]:
  "words_ok b (EXEC ws) \<longleftrightarrow> (\<forall>w\<in>set ws. word_ok b w)"
  "words_ok b (REDIR c q eq mode fd) \<longleftrightarrow> word_ok b (q, eq) \<and> words_ok b c"
  "words_ok b (PIPE l r) \<longleftrightarrow> words_ok b l \<and> words_ok b r"
  "words_ok b (LIST l r) \<longleftrightarrow> words_ok b l \<and> words_ok b r"
  "words_ok b (BACK c) \<longleftrightarrow> words_ok b c"
  by (auto simp: words_ok_def)

lemma word_end_chars:
  "(\<forall>i. s \<le> i \<and> i < word_end b s \<longrightarrow> word_char (b ! i)) \<and> (word_end b s < length b \<longrightarrow> \<not> word_char (b ! word_end b s))"
proof (induction b s rule: word_end.induct)
  case (1 b s)
  show ?case
  proof (cases "s < length b \<and> char_at b s \<notin> set whitespace \<and> char_at b s \<notin> set symbols")
    case True
    then have "word_end b s = word_end b (s + 1)" by (subst word_end.simps) simp
    moreover have "word_char (b ! s)" using True by (auto simp: word_char_def char_at_def)
    ultimately show ?thesis using "1.IH" [OF True] by (metis Suc_eq_plus1 Suc_leI le_neq_implies_less)
  next
    case False
    then have "word_end b s = s" by (subst word_end.simps) auto
    then show ?thesis using False by (auto simp: word_char_def char_at_def)
  qed
qed

lemma gettoken_word: "gettoken b s = (CHR ''a'', w, s') \<Longrightarrow> word_ok b w"
proof -
  assume g: "gettoken b s = (CHR ''a'', w, s')"
  obtain q eq where w: "w = (q, eq)" by fastforce
  have t: "token_at b q = (CHR ''a'', eq)" using g w by (auto simp: gettoken_def Let_def split: prod.splits)
  then have "eq = word_end b q" by (auto simp: token_at_def Let_def split: if_splits)
  then show ?thesis using gettoken_progress [of b s "CHR ''a''" q eq s'] g w word_end_chars [of q b]
      token_at_progress(2) [OF t] by (auto simp: word_ok.simps)
qed

definition redirs_ok :: "string \<Rightarrow> redirection list \<Rightarrow> bool" where
  "redirs_ok b rs \<longleftrightarrow> (\<forall>(q, eq, m, fd)\<in>set rs. word_ok b (q, eq))"

lemma redirs_ok_simps [simp]:
  "redirs_ok b []" "redirs_ok b ((q, eq, m, fd) # rs) \<longleftrightarrow> word_ok b (q, eq) \<and> redirs_ok b rs"
  "redirs_ok b (rs @ rs') \<longleftrightarrow> redirs_ok b rs \<and> redirs_ok b rs'"
  by (auto simp: redirs_ok_def ball_Un)

lemma add_redirs_ok: "words_ok b c \<Longrightarrow> redirs_ok b rs \<Longrightarrow> words_ok b (add_redirs c rs)"
  by (induction c rs rule: add_redirs.induct) simp_all

lemma redirs_parses: "parses (redirs_ok b) b s (redirs b s)"
proof (induction s rule: redirs_induct [where b = b])
  case (stop s s1)
  then show ?case using peek_progress [OF stop] by (simp add: redirs_stop)
next
  case (step s s1 tok w s2 k q eq s3)
  show ?case
  proof (cases "k = CHR ''a''")
    case True
    have "word_ok b (q, eq)" using gettoken_word step(3) True by blast
    then have "parses (redirs_ok b) b s3 (then_parse (redirs b s3) (\<lambda>rs s4. Got (redir_of tok q eq rs) s4))"
      by (intro parses_then [OF step(4) [OF True]]) (simp add: redir_of_def)
    then show ?thesis unfolding redirs_step [OF step(1-3)]
      using True gettoken_peeked [OF step(1,2)] gettoken_progress [OF step(3)] by (auto intro: parses_from)
  qed (simp add: redirs_step [OF step(1-3)] sh_errors_def)
qed

lemma parse_args_parses: "parses (\<lambda>(ws, rs). (\<forall>w\<in>set ws. word_ok b w) \<and> redirs_ok b rs) b s (parse_args b s n)"
proof (induction s n rule: parse_args_induct [where b = b])
  case (stop s n s1)
  then show ?case using peek_progress [OF stop] by (simp add: parse_args_stop)
next
  case (step s n s1 k w s2)
  let ?P = "\<lambda>(ws, rs). (\<forall>w\<in>set ws. word_ok b w) \<and> redirs_ok b rs"
  have s2: "s \<le> s2 \<and> (s \<le> length b \<longrightarrow> s2 \<le> length b)" using peek_progress(1,2) [OF step(1)] gettoken_moves [OF step(2)] by auto
  have "parses ?P b s2 (then_parse (redirs b s2) (\<lambda>rs s3. then_parse (parse_args b s3 (n + 1)) (\<lambda>(ws, rs') s4. Got (w # ws, rs @ rs') s4)))"
    if "n + 1 < MAXARGS" "k = CHR ''a''"
    using gettoken_word [of b s1 w s2] step(2) that(2) by (intro parses_then [OF redirs_parses] parses_then [OF step(3)] that(1)) auto
  then show ?case unfolding parse_args_step [OF step(1,2)] using s2 by (auto simp: not_le sh_errors_def intro: parses_from [OF _ s2])
qed

lemma amps_parses: "words_ok b c \<Longrightarrow> (\<And>c' s'. words_ok b c' \<Longrightarrow> parses P b s' (f c' s')) \<Longrightarrow>
  parses P b s (case amps b c s of (c', s') \<Rightarrow> f c' s')"
proof (induction c s rule: amps_induct [where b = b])
  case (stop s c s1)
  then show ?case using peek_progress [OF stop(1)] by (auto simp: amps_stop intro: parses_from)
next
  case (step s c s1)
  then show ?case using next_pos_peeked [OF step(1)] by (auto simp: amps_step intro!: parses_from [of P b "next_pos b s1"])
qed

lemma parser_parses:
  "parses (words_ok b) b s (parseline n b s)" "parses (words_ok b) b s (parsepipe n b s)"
  "fst (peek b s ''('') \<Longrightarrow> parses (words_ok b) b s (parseblock n b s)" "parses (words_ok b) b s (parseexec n b s)"
proof (induction n arbitrary: s)
  case (Suc n)
  have if_rule: "(more \<Longrightarrow> parses P b s r) \<Longrightarrow> (\<not> more \<Longrightarrow> parses P b s r') \<Longrightarrow> parses P b s (if more then r else r')"
    for more and P :: "cmd \<Rightarrow> bool" and s r r' by simp
  {
    case 1
    show ?case unfolding parseline.simps
      by (intro parses_then [OF Suc.IH(2)] amps_parses parses_peek if_rule parses_next [OF parses_then [OF Suc.IH(1)]]) simp_all
  next
    case 2
    show ?case unfolding parsepipe.simps
      by (intro parses_then [OF Suc.IH(4)] parses_peek if_rule parses_next [OF parses_then [OF Suc.IH(2)]]) simp_all
  next
    case 3
    obtain s1 where p: "peek b s ''('' = (True, s1)" using 3 by (cases "peek b s ''(''") auto
    have "parses (words_ok b) b s1 (parseblock (Suc n) b s)" unfolding parseblock.simps p prod.case
      by (intro parses_peek if_rule parses_next [OF parses_then [OF Suc.IH(1)]] parses_next [OF parses_then [OF redirs_parses]])
        (simp_all add: add_redirs_ok sh_errors_def)
    then show ?case using parses_from peek_progress(1,2) [OF p] by blast
  next
    case 4
    show ?case unfolding parseexec.simps
      by (intro parses_peek if_rule Suc.IH(3) parses_then [OF redirs_parses] parses_then [OF parse_args_parses])
        (auto simp: add_redirs_ok sh_errors_def)
  }
qed simp_all

lemma parsesD: "parses P b s r \<Longrightarrow> r = Got x s' \<Longrightarrow> s \<le> s' \<and> (s \<le> length b \<longrightarrow> s' \<le> length b) \<and> P x"
  by simp

text \<open>Between two tokens at most four parsing functions call each other.\<close>

lemma parser_total:
  "s \<le> length b \<Longrightarrow> 4 * (length b - s) + 4 \<le> n \<Longrightarrow> parseline n b s \<noteq> NoFuel"
  "s \<le> length b \<Longrightarrow> 4 * (length b - s) + 3 \<le> n \<Longrightarrow> parsepipe n b s \<noteq> NoFuel"
  "s \<le> length b \<Longrightarrow> 4 * (length b - s) + 1 \<le> n \<Longrightarrow> parseblock n b s \<noteq> NoFuel"
  "s \<le> length b \<Longrightarrow> 4 * (length b - s) + 2 \<le> n \<Longrightarrow> parseexec n b s \<noteq> NoFuel"
proof (induction n arbitrary: s)
  case (Suc n)
  have nx: "next_pos b s1 \<le> length b \<and> s < next_pos b s1"
    if "s \<le> s0" "peek b s0 toks = (True, s1)" for s s0 s1 toks using next_pos_peeked [OF that(2)] that(1) by simp
  {
    case 1
    have "parseline n b (next_pos b s3) \<noteq> NoFuel"
      if "parsepipe n b s = Got c s1" "amps b c s1 = (c1, s2)" "peek b s2 '';'' = (True, s3)" for c s1 c1 s2 s3
    proof -
      have "words_ok b c" "s \<le> s1" using parsesD [OF parser_parses(2) that(1)] by simp_all
      moreover have "s1 \<le> s2" using amps_parses [of b c "\<lambda>_. True" "\<lambda>c s. Got () s" s1] that(2) \<open>words_ok b c\<close> by simp
      ultimately have "s \<le> s2" by simp
      from nx [OF this that(3)] show ?thesis using 1 by (intro Suc.IH(1)) auto
    qed
    then show ?case unfolding parseline.simps using 1
      by (intro total_then [OF Suc.IH(2)]) (auto split: prod.split dest!: then_NoFuel)
  next
    case 2
    have "parsepipe n b (next_pos b s2) \<noteq> NoFuel"
      if "parseexec n b s = Got c s1" "peek b s1 ''|'' = (True, s2)" for c s1 s2
    proof -
      have "s \<le> s1" using parsesD [OF parser_parses(4) that(1)] by simp
      from nx [OF this that(2)] show ?thesis using 2 by (intro Suc.IH(2)) auto
    qed
    then show ?case unfolding parsepipe.simps using 2
      by (intro total_then [OF Suc.IH(4)]) (auto split: prod.split dest!: then_NoFuel)
  next
    case 3
    have "parseline n b (next_pos b s1) \<noteq> NoFuel" if "peek b s ''('' = (True, s1)" for s1
      using nx [OF order_refl that] 3 by (intro Suc.IH(1)) auto
    then show ?case unfolding parseblock.simps
      by (auto split: prod.splits if_splits dest!: then_NoFuel simp: redirs_total)
  next
    case 4
    have "parseblock n b s1 \<noteq> NoFuel" if "peek b s ''('' = (True, s1)" for s1
      using peek_progress [OF that] 4 by (intro Suc.IH(3)) auto
    then show ?case unfolding parseexec.simps
      by (auto split: prod.split dest!: then_NoFuel simp: redirs_total parse_args_total)
  }
qed simp_all

lemma parsecmd_total: "parsecmd b \<noteq> NoFuel"
  unfolding parsecmd_def by (intro total_then parser_total) (auto split: prod.split)

lemma parsecmd_words: "parsecmd b = Got c s \<Longrightarrow> words_ok b c"
  using parser_parses(1) [of b 0 "4 * length b + 4"]
  by (cases "parseline (4 * length b + 4) b 0") (auto simp: parsecmd_def split: prod.splits if_splits)

lemma parsecmd_fail: "parsecmd b = Fail e \<Longrightarrow> e \<in> sh_errors"
  using parser_parses(1) [of b 0 "4 * length b + 4"]
  by (cases "parseline (4 * length b + 4) b 0") (auto simp: parsecmd_def sh_errors_def split: prod.splits if_splits)

section \<open>The words of the command as strings\<close>

definition cstr_at :: "string \<Rightarrow> nat \<Rightarrow> string" where
  "cstr_at m q = takeWhile (\<lambda>c. c \<noteq> CHR 0x00) (drop q m)"

definition word_text :: "string \<Rightarrow> nat \<times> nat \<Rightarrow> string" where
  "word_text b w = take (snd w - fst w) (drop (fst w) b)"

text \<open>\<^verbatim>\<open>nulterminate\<close> writes zeros at the ends of the words and nowhere else.\<close>

lemma foldl_zero: "i < length m \<Longrightarrow> foldl (\<lambda>m (q, eq). m[eq := CHR 0x00]) m ws ! i = (if i \<in> snd ` set ws then CHR 0x00 else m ! i)"
  "length (foldl (\<lambda>m (q, eq). m[eq := CHR 0x00]) m ws) = length m"
  by (induction ws arbitrary: m) (auto simp: nth_list_update split: prod.splits)

lemma nulterminate_length: "length (nulterminate c m) = length m"
  by (induction c arbitrary: m) (auto simp: foldl_zero)

lemma nulterminate_nth: "i < length m \<Longrightarrow> nulterminate c m ! i = (if i \<in> snd ` words c then CHR 0x00 else m ! i)"
proof (induction c arbitrary: m)
  case (REDIR c q eq mode fd)
  then show ?case by (cases "i = eq") (auto simp: nulterminate_length nth_list_update)
qed (auto simp: foldl_zero nulterminate_length)

lemma word_after_nulterminate:
  assumes "words_ok b c" "(q, eq) \<in> words c" "CHR 0x00 \<notin> set b"
  shows "cstr_at (nulterminate c (b @ [CHR 0x00])) q = word_text b (q, eq)"
proof -
  let ?m = "nulterminate c (b @ [CHR 0x00])"
  have w: "word_ok b (q, eq)" using assms by (auto simp: words_ok_def)
  note W = w [unfolded word_ok.simps]
  have keep: "?m ! i = b ! i" if "q \<le> i" "i < eq" for i
  proof -
    have "i \<notin> snd ` words c"
    proof
      assume "i \<in> snd ` words c"
      then obtain p where "word_ok b (p, i)" using assms(1) by (force simp: words_ok_def)
      then show False using W that by (auto simp: word_ok.simps)
    qed
    then show ?thesis using W that by (simp add: nulterminate_nth nth_append)
  qed
  have "?m ! eq = CHR 0x00" using W assms(2) by (force simp: nulterminate_nth)
  then have d: "drop eq ?m = CHR 0x00 # drop (Suc eq) ?m"
    using W Cons_nth_drop_Suc [of eq ?m] by (simp add: nulterminate_length)
  have "take (eq - q) (drop q ?m) = take (eq - q) (drop q b)"
    by (rule nth_equalityI) (use W keep in \<open>auto simp: nulterminate_length\<close>)
  moreover have "drop q ?m = take (eq - q) (drop q ?m) @ drop eq ?m"
    using W append_take_drop_id [of "eq - q" "drop q ?m"] by simp
  ultimately have e: "drop q ?m = take (eq - q) (drop q b) @ CHR 0x00 # drop (Suc eq) ?m" using d by metis
  have "x \<noteq> CHR 0x00" if "x \<in> set (take (eq - q) (drop q b))" for x
    using assms(3) that by (meson in_set_dropD in_set_takeD)
  then show ?thesis unfolding cstr_at_def word_text_def e by (subst takeWhile_append2) simp_all
qed

section \<open>Printing commands\<close>

text \<open>A command with its words as strings, and the text that stands for it, with parentheses where the
  grammar needs them.\<close>

datatype acmd = AExec "string list" | ARedir acmd string "nat \<times> nat" | APipe acmd acmd | AList acmd acmd | ABack acmd

definition parens :: "bool \<Rightarrow> string \<Rightarrow> string" where
  "parens p t = (if p then ''('' @ t @ '')'' else t)"

definition show_words :: "string list \<Rightarrow> string" where
  "show_words ws = concat (map (\<lambda>w. '' '' @ w) ws)"

definition show_redir :: "string \<times> nat \<times> nat \<Rightarrow> string" where
  "show_redir r = (case r of (f, m, fd) \<Rightarrow> (if fd = 0 then '' < '' else '' > '') @ f)"

text \<open>The level is 0 for a line, 1 for its part before a semicolon, 2 for a pipeline, 3 for a stage of it.\<close>

fun show_cmd :: "nat \<Rightarrow> acmd \<Rightarrow> string" where
  "show_cmd p (AExec ws) = show_words ws"
| "show_cmd p (ARedir c f mf) = show_cmd 3 c @ show_redir (f, mf)"
| "show_cmd p (APipe l r) = parens (2 < p) (show_cmd 3 l @ ''|'' @ show_cmd 2 r)"
| "show_cmd p (AList l r) = parens (0 < p) (show_cmd 1 l @ '';'' @ show_cmd 0 r)"
| "show_cmd p (ABack c) = parens (1 < p) (show_cmd 1 c @ ''&'')"

definition good_word :: "string \<Rightarrow> bool" where
  "good_word w \<longleftrightarrow> w \<noteq> [] \<and> (\<forall>c\<in>set w. word_char c \<and> c \<noteq> CHR 0x00)"

fun good_cmd :: "acmd \<Rightarrow> bool" where
  "good_cmd (AExec ws) \<longleftrightarrow> (\<forall>w\<in>set ws. good_word w) \<and> length ws < MAXARGS"
| "good_cmd (ARedir c f mf) \<longleftrightarrow> good_cmd c \<and> good_word f \<and> mf \<in> {(mode_rdonly, 0), (mode_create, 1)}"
| "good_cmd (APipe l r) \<longleftrightarrow> good_cmd l \<and> good_cmd r"
| "good_cmd (AList l r) \<longleftrightarrow> good_cmd l \<and> good_cmd r"
| "good_cmd (ABack c) \<longleftrightarrow> good_cmd c"

fun abs_cmd :: "(nat \<times> nat \<Rightarrow> string) \<Rightarrow> cmd \<Rightarrow> acmd" where
  "abs_cmd f (EXEC ws) = AExec (map f ws)"
| "abs_cmd f (REDIR c q eq m fd) = ARedir (abs_cmd f c) (f (q, eq)) (m, fd)"
| "abs_cmd f (PIPE l r) = APipe (abs_cmd f l) (abs_cmd f r)"
| "abs_cmd f (LIST l r) = AList (abs_cmd f l) (abs_cmd f r)"
| "abs_cmd f (BACK c) = ABack (abs_cmd f c)"

lemma abs_cmd_cong: "(\<And>w. w \<in> words c \<Longrightarrow> f w = g w) \<Longrightarrow> abs_cmd f c = abs_cmd g c"
  by (induction c) auto

section \<open>Tokens at a position\<close>

lemma at_char: "drop s b = c # r \<Longrightarrow> s < length b \<and> char_at b s = c \<and> drop (Suc s) b = r"
  by (metis char_at_def drop_Suc_Cons drop_all drop_drop hd_drop_conv_nth linorder_not_less list.discI list.sel(1,3) tl_drop drop_Suc)

lemma at_skip: "drop s b = x @ r \<Longrightarrow> drop (s + length x) b = r"
  by (metis add.commute append_eq_conv_conj drop_drop)

lemma skip_space_at: "drop s b = c # r \<Longrightarrow> c \<notin> set whitespace \<Longrightarrow> skip_space b s = s"
  using at_char [of s b c r] by (subst skip_space.simps) simp

lemma skip_space_end: "drop s b = [] \<Longrightarrow> skip_space b s = s"
  by (subst skip_space.simps) simp

lemma skip_space_over: "drop s b = c # r \<Longrightarrow> c \<in> set whitespace \<Longrightarrow> skip_space b s = skip_space b (Suc s)"
  using at_char [of s b c r] by (subst skip_space.simps) simp

text \<open>What may follow a token: the end, or a character that is not part of a word.\<close>

definition ends_word :: "string \<Rightarrow> bool" where
  "ends_word r \<longleftrightarrow> (case r of [] \<Rightarrow> True | c # _ \<Rightarrow> \<not> word_char c)"

lemma word_end_at: "drop s b = w @ r \<Longrightarrow> \<forall>c\<in>set w. word_char c \<Longrightarrow> ends_word r \<Longrightarrow> word_end b s = s + length w"
proof (induction w arbitrary: s)
  case Nil
  then show ?case using at_char [of s b]
    by (subst word_end.simps) (cases r, auto simp: ends_word_def word_char_def)
next
  case (Cons c w)
  then show ?case using at_char [of s b c "w @ r"] by (subst word_end.simps) (auto simp: word_char_def)
qed

lemma gettoken_at_word:
  assumes "drop s b = w @ r" "good_word w" "ends_word r"
  shows "gettoken b s = (CHR ''a'', (s, s + length w), skip_space b (s + length w))"
proof -
  obtain c v where w: "w = c # v" using assms(2) by (cases w) (auto simp: good_word_def)
  then have c: "word_char c" "c \<noteq> CHR 0x00" using assms(2) by (auto simp: good_word_def)
  have d: "drop s b = c # v @ r" using assms(1) w by simp
  have "skip_space b s = s" using skip_space_at [OF d] c by (simp add: word_char_def)
  moreover have "char_at b s = c" using at_char [OF d] by simp
  then have "token_at b s = (CHR ''a'', s + length w)"
    using c word_end_at [OF assms(1) _ assms(3)] assms(2)
    by (auto simp: token_at_def Let_def word_char_def symbols_def good_word_def)
  ultimately show ?thesis by (simp add: gettoken_def)
qed

lemma gettoken_skip [simp]: "gettoken b (skip_space b s) = gettoken b s"
  by (simp add: gettoken_def)

lemma redirs_skip [simp]: "redirs b (skip_space b s) = redirs b s"
  by (subst (1 2) redirs.simps) simp

lemma parse_args_skip [simp]: "parse_args b (skip_space b s) n = parse_args b s n"
  by (subst (1 2) parse_args.simps) simp

lemma parseexec_skip [simp]: "parseexec n b (skip_space b s) = parseexec n b s"
  by (cases n) simp_all

lemma parsepipe_skip [simp]: "parsepipe n b (skip_space b s) = parsepipe n b s"
  by (cases n) simp_all

lemma parseline_skip [simp]: "parseline n b (skip_space b s) = parseline n b s"
  by (cases n) simp_all

lemma peek_at: "drop s b = c # r \<Longrightarrow> c \<notin> set whitespace \<Longrightarrow> peek b s toks = (c \<noteq> CHR 0x00 \<and> c \<in> set toks, s)"
  using at_char [of s b c r] skip_space_at [of s b c r] by (simp add: peek_def)

lemma peek_end: "drop s b = [] \<Longrightarrow> peek b s toks = (False, s)"
  by (simp add: peek_def skip_space_end char_at_def)

lemma peek_space: "drop s b = '' '' @ r \<Longrightarrow> peek b s toks = peek b (Suc s) toks"
  using skip_space_over [of s b "CHR '' ''" r] by (simp add: peek_def whitespace_def)

lemma gettoken_space: "drop s b = '' '' @ r \<Longrightarrow> gettoken b s = gettoken b (Suc s)"
  using skip_space_over [of s b "CHR '' ''" r] by (simp add: gettoken_def whitespace_def)

lemma next_pos_at: "drop s b = c # r \<Longrightarrow> c \<in> set ''|();&'' \<Longrightarrow> next_pos b s = skip_space b (Suc s)"
  using at_char [of s b c r] skip_space_at [of s b c r]
  by (auto simp: next_pos_def gettoken_def token_at_def whitespace_def)

lemma gettoken_redir: "drop s b = c # '' '' @ r \<Longrightarrow> c = CHR ''<'' \<or> c = CHR ''>'' \<Longrightarrow> gettoken b s = (c, (s, Suc s), skip_space b (Suc s))"
  using at_char [of s b c "'' '' @ r"] at_char [of "Suc s" b "CHR '' ''" r] skip_space_at [of s b c "'' '' @ r"]
  by (auto simp: gettoken_def token_at_def whitespace_def)

text \<open>What may follow a stage of a pipeline.\<close>

definition ends_stage :: "string \<Rightarrow> bool" where
  "ends_stage r \<longleftrightarrow> (case r of [] \<Rightarrow> True | c # _ \<Rightarrow> c \<in> set ''|)&;'')"

lemma ends_stage_peek:
  assumes "drop s b = r" "ends_stage r"
  shows "peek b s toks = (r \<noteq> [] \<and> hd r \<in> set toks, s)"
proof (cases r)
  case Nil
  then show ?thesis using assms peek_end by simp
next
  case (Cons c v)
  then show ?thesis using assms peek_at [of s b c v] by (auto simp: ends_stage_def whitespace_def)
qed

lemma ends_stage_word: "ends_stage r \<Longrightarrow> ends_word r"
  by (cases r) (auto simp: ends_stage_def ends_word_def word_char_def symbols_def)

definition show_redirs :: "(string \<times> nat \<times> nat) list \<Rightarrow> string" where
  "show_redirs rs = concat (map show_redir rs)"

definition good_redir :: "string \<times> nat \<times> nat \<Rightarrow> bool" where
  "good_redir r \<longleftrightarrow> good_word (fst r) \<and> snd r \<in> {(mode_rdonly, 0), (mode_create, 1)}"

definition redir_text :: "string \<Rightarrow> redirection \<Rightarrow> string \<times> nat \<times> nat" where
  "redir_text b r = (case r of (q, eq, mf) \<Rightarrow> (word_text b (q, eq), mf))"

lemma word_text_at: "drop s b = w @ r \<Longrightarrow> word_text b (s, s + length w) = w"
  by (simp add: word_text_def)

lemma ends_word_redirs: "ends_stage r \<Longrightarrow> ends_word (show_redirs rs @ r)"
  using ends_stage_word [of r]
  by (cases rs) (auto simp: show_redirs_def show_redir_def ends_word_def word_char_def whitespace_def split: prod.splits)

lemma redirs_at:
  "drop s b = show_redirs rs @ r \<Longrightarrow> \<forall>x\<in>set rs. good_redir x \<Longrightarrow> ends_stage r \<Longrightarrow>
   \<exists>qs. redirs b s = Got qs (s + length (show_redirs rs)) \<and> map (redir_text b) qs = rs"
proof (induction rs arbitrary: s)
  case Nil
  then have "peek b s ''<>'' = (False, s)" using ends_stage_peek [of s b r "''<>''"] by (cases r) (auto simp: show_redirs_def ends_stage_def)
  then show ?case by (simp add: redirs_stop show_redirs_def)
next
  case (Cons x rs)
  obtain f m fd where x: "x = (f, m, fd)" by (cases x) auto
  let ?c = "if fd = 0 then CHR ''<'' else CHR ''>''"
  have g: "good_word f" "(m, fd) = (mode_rdonly, 0) \<or> (m, fd) = (mode_create, 1)" using Cons.prems(2) x by (auto simp: good_redir_def)
  have d: "drop s b = '' '' @ ?c # '' '' @ f @ show_redirs rs @ r" using Cons.prems(1) x by (simp add: show_redirs_def show_redir_def)
  then have d1: "drop (Suc s) b = ?c # '' '' @ f @ show_redirs rs @ r" using at_char by fastforce
  then have d2: "drop (s + 2) b = '' '' @ f @ show_redirs rs @ r" using at_char by fastforce
  then have d3: "drop (s + 3) b = f @ show_redirs rs @ r" using at_char [of "s + 2" b] by (simp add: numeral_3_eq_3)
  have p: "peek b s ''<>'' = (True, Suc s)" using peek_space [OF d] peek_at [OF d1] by (auto simp: whitespace_def)
  have t: "gettoken b (Suc s) = (?c, (Suc s, s + 2), skip_space b (s + 2))" using gettoken_redir [OF d1] by simp
  have w: "gettoken b (skip_space b (s + 2)) = (CHR ''a'', (s + 3, s + 3 + length f), skip_space b (s + 3 + length f))"
    using gettoken_space [OF d2] gettoken_at_word [OF d3 g(1) ends_word_redirs [OF Cons.prems(3)]] by (simp add: numeral_3_eq_3)
  have "drop (s + 3 + length f) b = show_redirs rs @ r" using at_skip [OF d3] .
  from Cons.IH [OF this] Cons.prems obtain qs where
    "redirs b (s + 3 + length f) = Got qs (s + 3 + length f + length (show_redirs rs))" "map (redir_text b) qs = rs" by auto
  moreover have "redir_text b (s + 3, s + 3 + length f, m, fd) = x" using word_text_at [OF d3] x by (simp add: redir_text_def)
  ultimately show ?case unfolding redirs_step [OF p t w] using g(2) x
    by (auto simp: redir_of_def show_redirs_def show_redir_def)
qed

lemma parse_args_end:
  assumes "drop s b = r" "ends_stage r"
  shows "parse_args b s n = Got ([], []) s"
proof (cases r)
  case Nil
  then have "peek b s ''|)&;'' = (False, s)" "gettoken b s = (CHR 0x00, (s, s), s)"
    using assms peek_end [of s b] skip_space_end [of s b] by (simp_all add: gettoken_def token_at_def char_at_def)
  then show ?thesis by (simp add: parse_args_step)
next
  case (Cons c v)
  then have "peek b s ''|)&;'' = (True, s)" using assms ends_stage_peek [OF assms] by (auto simp: ends_stage_def)
  then show ?thesis by (simp add: parse_args_stop)
qed

lemma peek_word:
  assumes "drop s b = '' '' @ w @ r" "good_word w" "set toks \<subseteq> set symbols"
  shows "peek b s toks = (False, Suc s)" "drop (Suc s) b = w @ r"
proof -
  show d: "drop (Suc s) b = w @ r" using at_char [of s b] assms(1) by fastforce
  obtain c v where "w = c # v" "word_char c" using assms(2) by (cases w) (auto simp: good_word_def)
  then show "peek b s toks = (False, Suc s)"
    using peek_space [OF assms(1), of toks] peek_at [of "Suc s" b c "v @ r"] d assms(3) by (auto simp: word_char_def)
qed

lemma parse_args_at:
  "drop s b = show_words ws @ show_redirs rs @ r \<Longrightarrow> \<forall>w\<in>set ws. good_word w \<Longrightarrow> \<forall>x\<in>set rs. good_redir x \<Longrightarrow>
   ends_stage r \<Longrightarrow> n + length ws < MAXARGS \<Longrightarrow> ws \<noteq> [] \<or> rs = [] \<Longrightarrow>
   \<exists>ps qs. parse_args b s n = Got (ps, qs) (s + length (show_words ws @ show_redirs rs))
     \<and> map (word_text b) ps = ws \<and> map (redir_text b) qs = rs"
proof (induction ws arbitrary: s n)
  case Nil
  then show ?case using parse_args_end [of s b r n] by (simp add: show_words_def show_redirs_def)
next
  case (Cons w ws)
  let ?r = "show_words ws @ show_redirs rs @ r" and ?s = "Suc s + length w"
  have d: "drop s b = '' '' @ w @ ?r" and g: "good_word w" using Cons.prems by (simp_all add: show_words_def)
  note p = peek_word(1) [OF d g]
  have p2: "drop (Suc s) b = w @ ?r" using peek_word(2) [OF d g, of "[]"] by simp
  have "ends_word ?r" using ends_word_redirs [OF Cons.prems(4)]
    by (cases ws) (auto simp: show_words_def ends_word_def word_char_def whitespace_def)
  then have t: "gettoken b (Suc s) = (CHR ''a'', (Suc s, ?s), skip_space b ?s)" using gettoken_at_word [OF p2 g] by simp
  have pk: "peek b s ''|)&;'' = (False, Suc s)" by (rule p) (simp add: symbols_def)
  have tx: "word_text b (Suc s, ?s) = w" using word_text_at [OF p2] .
  have d2: "drop ?s b = ?r" using at_skip [OF p2] .
  have "n + 1 + length ws < MAXARGS" using Cons.prems(5) by simp
  show ?case
  proof (cases ws)
    case Nil
    then obtain qs where q: "redirs b ?s = Got qs (?s + length (show_redirs rs))" "map (redir_text b) qs = rs"
      using redirs_at [of ?s b rs r] d2 Cons.prems by (auto simp: show_words_def)
    have "drop (?s + length (show_redirs rs)) b = r" using at_skip [of ?s b "show_redirs rs" r] d2 Nil by (simp add: show_words_def)
    from parse_args_end [OF this Cons.prems(4)] show ?thesis
      unfolding parse_args_step [OF pk t] using q tx Nil \<open>n + 1 + length ws < MAXARGS\<close>
      by (simp add: show_words_def add.assoc)
  next
    case ne: (Cons v vs)
    then have d3: "drop ?s b = '' '' @ v @ show_words vs @ show_redirs rs @ r" using d2 by (simp add: show_words_def)
    have "peek b ?s ''<>'' = (False, Suc ?s)" by (rule peek_word(1) [OF d3]) (use Cons.prems(2) ne in \<open>auto simp: symbols_def\<close>)
    then have q: "redirs b ?s = Got [] (Suc ?s)" by (rule redirs_stop)
    have "Suc ?s = skip_space b ?s" using \<open>peek b ?s ''<>'' = (False, Suc ?s)\<close> by (simp add: peek_def Let_def)
    then have sk: "parse_args b (Suc ?s) (n + 1) = parse_args b ?s (n + 1)" using parse_args_skip [of b ?s "n + 1"] by metis
    obtain ps qs where "parse_args b ?s (n + 1) = Got (ps, qs) (?s + length (show_words ws @ show_redirs rs))"
      "map (word_text b) ps = ws" "map (redir_text b) qs = rs"
      using Cons.IH [OF d2, of "n + 1"] Cons.prems ne by auto
    then show ?thesis unfolding parse_args_step [OF pk t] using q sk tx \<open>n + 1 + length ws < MAXARGS\<close>
      by (simp add: show_words_def add.assoc)
  qed
qed

section \<open>The parser reads what is printed\<close>

definition add_aredirs :: "acmd \<Rightarrow> (string \<times> nat \<times> nat) list \<Rightarrow> acmd" where
  "add_aredirs c rs = foldl (\<lambda>c (f, mf). ARedir c f mf) c rs"

lemma abs_add_redirs: "abs_cmd (word_text b) (add_redirs c rs) = add_aredirs (abs_cmd (word_text b) c) (map (redir_text b) rs)"
  by (induction c rs rule: add_redirs.induct) (simp_all add: add_aredirs_def redir_text_def)

definition follows :: "string \<Rightarrow> string \<Rightarrow> bool" where
  "follows cs r \<longleftrightarrow> (case r of [] \<Rightarrow> True | c # _ \<Rightarrow> c \<in> set cs)"

definition reads_stage :: "acmd \<Rightarrow> bool" where
  "reads_stage c \<longleftrightarrow> (\<forall>b s rs r n. drop s b = show_cmd 3 c @ show_redirs rs @ r \<longrightarrow> (\<forall>x\<in>set rs. good_redir x) \<longrightarrow>
     ends_stage r \<longrightarrow> 4 * (length b - s) + 2 \<le> n \<longrightarrow>
     (\<exists>t. parseexec n b s = Got t (s + length (show_cmd 3 c @ show_redirs rs)) \<and> abs_cmd (word_text b) t = add_aredirs c rs))"

definition reads_pipe :: "acmd \<Rightarrow> bool" where
  "reads_pipe c \<longleftrightarrow> (\<forall>b s r n. drop s b = show_cmd 2 c @ r \<longrightarrow> follows '')&;'' r \<longrightarrow> 4 * (length b - s) + 3 \<le> n \<longrightarrow>
     (\<exists>t. parsepipe n b s = Got t (s + length (show_cmd 2 c)) \<and> abs_cmd (word_text b) t = c))"

definition reads_back :: "acmd \<Rightarrow> bool" where
  "reads_back c \<longleftrightarrow> (\<forall>b s r n. drop s b = show_cmd 1 c @ r \<longrightarrow> follows '')&;'' r \<longrightarrow> 4 * (length b - s) + 3 \<le> n \<longrightarrow>
     (\<exists>t s1 t'. parsepipe n b s = Got t s1 \<and> amps b t s1 = amps b t' (s + length (show_cmd 1 c)) \<and> abs_cmd (word_text b) t' = c))"

definition reads_line :: "acmd \<Rightarrow> bool" where
  "reads_line c \<longleftrightarrow> (\<forall>b s r n. drop s b = show_cmd 0 c @ r \<longrightarrow> follows '')'' r \<longrightarrow> 4 * (length b - s) + 4 \<le> n \<longrightarrow>
     (\<exists>t. parseline n b s = Got t (s + length (show_cmd 0 c)) \<and> abs_cmd (word_text b) t = c))"

lemma follows_stage: "follows cs r \<Longrightarrow> set cs \<subseteq> set ''|)&;'' \<Longrightarrow> ends_stage r"
  by (cases r) (auto simp: follows_def ends_stage_def)

lemma follows_peek: "drop s b = r \<Longrightarrow> follows cs r \<Longrightarrow> set cs \<subseteq> set ''|)&;'' \<Longrightarrow> c \<notin> set cs \<Longrightarrow> peek b s [c] = (False, s)"
  using ends_stage_peek [of s b r "[c]"] follows_stage [of cs r] by (cases r) (auto simp: follows_def)

lemma peek_symbol: "drop s b = c # r \<Longrightarrow> c \<in> set symbols \<Longrightarrow> peek b s [c] = (True, s)"
  using peek_at [of s b c r "[c]"] by (auto simp: symbols_def whitespace_def)

lemma drop_length: "drop s b = x @ r \<Longrightarrow> x \<noteq> [] \<Longrightarrow> s + length x \<le> length b"
proof -
  assume d: "drop s b = x @ r" and x: "x \<noteq> []"
  have "length b - s = length x + length r" using arg_cong [OF d, of length] by simp
  moreover have "0 < length x" using x by simp
  ultimately show ?thesis by linarith
qed

lemma reads_stage_exec:
  assumes "good_cmd (AExec ws)"
  shows "reads_stage (AExec ws)"
  unfolding reads_stage_def
proof (intro allI impI)
  fix b s rs r n
  assume d: "drop s b = show_cmd 3 (AExec ws) @ show_redirs rs @ r" and rs: "\<forall>x\<in>set rs. good_redir x" and e: "ends_stage r"
    and n: "4 * (length b - s) + 2 \<le> n"
  obtain m where m: "n = Suc m" using n by (cases n) auto
  have gw: "\<forall>w\<in>set ws. good_word w" "0 + length ws < MAXARGS" using assms by auto
  show "\<exists>t. parseexec n b s = Got t (s + length (show_cmd 3 (AExec ws) @ show_redirs rs)) \<and> abs_cmd (word_text b) t = add_aredirs (AExec ws) rs"
  proof (cases ws)
    case Nil
    then have d0: "drop s b = show_redirs rs @ r" using d by (simp add: show_words_def)
    obtain qs where q: "redirs b s = Got qs (s + length (show_redirs rs))" "map (redir_text b) qs = rs" using redirs_at [OF d0 rs e] by blast
    have x: "parse_args b (s + length (show_redirs rs)) 0 = Got ([], []) (s + length (show_redirs rs))" by (rule parse_args_end [OF at_skip [OF d0] e])
    have "\<exists>s1. peek b s ''('' = (False, s1) \<and> s1 = skip_space b s"
    proof (cases rs)
      case Nil
      then show ?thesis using ends_stage_peek [of s b r "''(''"] d0 e by (cases r) (auto simp: show_redirs_def ends_stage_def peek_def Let_def)
    next
      case (Cons y ys)
      then obtain c v where "drop s b = '' '' @ c # v" "c = CHR ''<'' \<or> c = CHR ''>''"
        using d0 by (auto simp: show_redirs_def show_redir_def split: prod.splits if_splits)
      then show ?thesis using peek_space [of s b "c # v"] at_char [of s b "CHR '' ''" "c # v"] peek_at [of "Suc s" b c v "''(''"]
        by (auto simp: whitespace_def peek_def Let_def)
    qed
    then show ?thesis using q x Nil m by (auto simp: abs_add_redirs show_words_def)
  next
    case (Cons w v)
    then have d1: "drop s b = '' '' @ w @ show_words v @ show_redirs rs @ r" using d by (simp add: show_words_def)
    have gw1: "good_word w" using gw Cons by simp
    have p: "peek b s ''('' = (False, Suc s)" "peek b s ''<>'' = (False, Suc s)"
      by (rule peek_word(1) [OF d1 gw1], simp add: symbols_def)+
    have sk: "Suc s = skip_space b s" using p(1) by (simp add: peek_def Let_def)
    obtain ps qs where q: "parse_args b s 0 = Got (ps, qs) (s + length (show_words ws @ show_redirs rs))"
      "map (word_text b) ps = ws" "map (redir_text b) qs = rs"
      using parse_args_at [of s b ws rs r 0] d gw rs e Cons by auto
    have "redirs b (Suc s) = Got [] (Suc s)" unfolding sk redirs_skip using redirs_stop [OF p(2)] sk by simp
    moreover have "parse_args b (Suc s) 0 = parse_args b s 0" unfolding sk by simp
    ultimately show ?thesis using p q m by (auto simp: abs_add_redirs)
  qed
qed

lemma reads_stageD:
  assumes "reads_stage c" "drop s b = show_cmd 3 c @ show_redirs rs @ r" "\<forall>x\<in>set rs. good_redir x" "ends_stage r" "4 * (length b - s) + 2 \<le> n"
  obtains t where "parseexec n b s = Got t (s + length (show_cmd 3 c @ show_redirs rs))" "abs_cmd (word_text b) t = add_aredirs c rs"
  using assms unfolding reads_stage_def by blast

lemma reads_stage_redir:
  assumes "reads_stage c" "good_word f" "mf \<in> {(mode_rdonly, 0), (mode_create, 1)}"
  shows "reads_stage (ARedir c f mf)"
  unfolding reads_stage_def
proof (intro allI impI)
  fix b s rs r n
  assume a: "drop s b = show_cmd 3 (ARedir c f mf) @ show_redirs rs @ r" "\<forall>x\<in>set rs. good_redir x" "ends_stage r" "4 * (length b - s) + 2 \<le> n"
  have e: "show_cmd 3 (ARedir c f mf) @ show_redirs rs = show_cmd 3 c @ show_redirs ((f, mf) # rs)" by (simp add: show_redirs_def)
  have d: "drop s b = show_cmd 3 c @ show_redirs ((f, mf) # rs) @ r" using a(1) e by (metis append.assoc)
  obtain t where "parseexec n b s = Got t (s + length (show_cmd 3 c @ show_redirs ((f, mf) # rs)))"
    "abs_cmd (word_text b) t = add_aredirs c ((f, mf) # rs)"
    by (rule reads_stageD [OF assms(1) d _ a(3,4)]) (use a(2) assms(2,3) in \<open>auto simp: good_redir_def\<close>)
  then show "\<exists>t. parseexec n b s = Got t (s + length (show_cmd 3 (ARedir c f mf) @ show_redirs rs))
    \<and> abs_cmd (word_text b) t = add_aredirs (ARedir c f mf) rs" unfolding e by (auto simp: add_aredirs_def)
qed

lemma reads_stage_paren:
  assumes "reads_line c" "show_cmd 3 c = ''('' @ show_cmd 0 c @ '')''"
  shows "reads_stage c"
  unfolding reads_stage_def
proof (intro allI impI)
  fix b s rs r n
  assume a: "drop s b = show_cmd 3 c @ show_redirs rs @ r" "\<forall>x\<in>set rs. good_redir x" "ends_stage r" "4 * (length b - s) + 2 \<le> n"
  let ?x = "show_cmd 0 c" and ?r = "show_redirs rs @ r"
  let ?s = "Suc s + length ?x"
  obtain m where m: "n = Suc (Suc m)" using a(4) by (metis Suc_le_D add_2_eq_Suc' le_add2 le_trans numeral_2_eq_2 Suc_le_mono)
  have d: "drop s b = CHR ''('' # ?x @ '')'' @ ?r" using a(1) assms(2) by simp
  have d1: "drop (Suc s) b = ?x @ '')'' @ ?r" using at_char [OF d] by simp
  have d2: "drop ?s b = CHR '')'' # ?r" using at_skip [OF d1] by simp
  have d3: "drop (Suc ?s) b = ?r" using at_char [OF d2] by simp
  have p: "peek b s ''('' = (True, s)" "peek b ?s '')'' = (True, ?s)"
    using peek_symbol [OF d] peek_symbol [OF d2] by (simp_all add: symbols_def)
  have lt: "s < length b" using at_char [OF d] by simp
  have "\<exists>t. parseline m b (Suc s) = Got t ?s \<and> abs_cmd (word_text b) t = c"
    using assms(1) d1 a(4) m lt unfolding reads_line_def follows_def by fastforce
  then obtain t where t: "parseline m b (Suc s) = Got t ?s" "abs_cmd (word_text b) t = c" by blast
  obtain qs where q: "redirs b (Suc ?s) = Got qs (Suc ?s + length (show_redirs rs))" "map (redir_text b) qs = rs"
    using redirs_at [OF d3 a(2,3)] by blast
  have np: "next_pos b s = skip_space b (Suc s)" "next_pos b ?s = skip_space b (Suc ?s)"
    using next_pos_at [OF d] next_pos_at [OF d2] by simp_all
  have "parseexec n b s = Got (add_redirs t qs) (Suc ?s + length (show_redirs rs))"
    unfolding m using p t(1) q(1) np by simp
  then show "\<exists>t. parseexec n b s = Got t (s + length (show_cmd 3 c @ show_redirs rs)) \<and> abs_cmd (word_text b) t = add_aredirs c rs"
    using t(2) q(2) assms(2) by (simp add: abs_add_redirs)
qed

lemma reads_pipe_stage:
  assumes "reads_stage c" "show_cmd 2 c = show_cmd 3 c"
  shows "reads_pipe c"
  unfolding reads_pipe_def
proof (intro allI impI)
  fix b s r n
  assume a: "drop s b = show_cmd 2 c @ r" "follows '')&;'' r" "4 * (length b - s) + 3 \<le> n"
  obtain m where m: "n = Suc m" "4 * (length b - s) + 2 \<le> m" using a(3) by (cases n) auto
  obtain t where t: "parseexec m b s = Got t (s + length (show_cmd 2 c))" "abs_cmd (word_text b) t = c"
    using reads_stageD [OF assms(1), of s b "[]" r m] a assms(2) m(2) follows_stage [OF a(2)] by (auto simp: show_redirs_def add_aredirs_def)
  have "peek b (s + length (show_cmd 2 c)) ''|'' = (False, s + length (show_cmd 2 c))"
    by (rule follows_peek [OF at_skip [OF a(1)] a(2)]) auto
  then show "\<exists>t. parsepipe n b s = Got t (s + length (show_cmd 2 c)) \<and> abs_cmd (word_text b) t = c" using t m by simp
qed

lemma reads_pipe_pipe:
  assumes "reads_stage l" "reads_pipe r'"
  shows "reads_pipe (APipe l r')"
  unfolding reads_pipe_def
proof (intro allI impI)
  fix b s r n
  let ?x = "show_cmd 3 l" and ?y = "show_cmd 2 r'"
  let ?s = "s + length ?x"
  assume a: "drop s b = show_cmd 2 (APipe l r') @ r" "follows '')&;'' r" "4 * (length b - s) + 3 \<le> n"
  obtain m where m: "n = Suc m" "4 * (length b - s) + 2 \<le> m" using a(3) by (cases n) auto
  have d: "drop s b = ?x @ ''|'' @ ?y @ r" using a(1) by (simp add: parens_def)
  have d1: "drop ?s b = CHR ''|'' # ?y @ r" using at_skip [OF d] by simp
  have d2: "drop (Suc ?s) b = ?y @ r" "?s < length b" using at_char [OF d1] by simp_all
  obtain t where t: "parseexec m b s = Got t ?s" "abs_cmd (word_text b) t = l"
    using reads_stageD [OF assms(1), of s b "[]" "''|'' @ ?y @ r" m] d m(2) by (auto simp: show_redirs_def add_aredirs_def ends_stage_def)
  have "4 * (length b - Suc ?s) + 3 \<le> m" using m(2) d2(2) by linarith
  then obtain u where u: "parsepipe m b (Suc ?s) = Got u (Suc ?s + length ?y)" "abs_cmd (word_text b) u = r'"
    using assms(2) d2(1) a(2) unfolding reads_pipe_def by blast
  have "peek b ?s ''|'' = (True, ?s)" "next_pos b ?s = skip_space b (Suc ?s)"
    using peek_symbol [OF d1] next_pos_at [OF d1] by (simp_all add: symbols_def)
  then show "\<exists>t. parsepipe n b s = Got t (s + length (show_cmd 2 (APipe l r'))) \<and> abs_cmd (word_text b) t = APipe l r'"
    using t u m(1) by (simp add: parens_def)
qed

lemma reads_back_pipe:
  assumes "reads_pipe c" "show_cmd 1 c = show_cmd 2 c"
  shows "reads_back c"
  using assms unfolding reads_back_def reads_pipe_def by fastforce

lemma reads_back_back:
  assumes "reads_back c"
  shows "reads_back (ABack c)"
  unfolding reads_back_def
proof (intro allI impI)
  fix b s r n
  assume a: "drop s b = show_cmd 1 (ABack c) @ r" "follows '')&;'' r" "4 * (length b - s) + 3 \<le> n"
  let ?s = "s + length (show_cmd 1 c)"
  have d: "drop s b = show_cmd 1 c @ ''&'' @ r" using a(1) by (simp add: parens_def)
  have d1: "drop ?s b = CHR ''&'' # r" using at_skip [OF d] by simp
  have d2: "drop (Suc ?s) b = r" using at_char [OF d1] by simp
  have "follows '')&;'' (''&'' @ r)" by (simp add: follows_def)
  then obtain t s1 t' where t: "parsepipe n b s = Got t s1" "amps b t s1 = amps b t' ?s" "abs_cmd (word_text b) t' = c"
    using assms d a(3) unfolding reads_back_def by blast
  have "skip_space b (Suc ?s) = Suc ?s"
    using d2 a(2) skip_space_end [of "Suc ?s" b] skip_space_at [of "Suc ?s" b] by (cases r) (auto simp: follows_def whitespace_def)
  then have "amps b t' ?s = amps b (BACK t') (Suc ?s)"
    using amps_step [of b ?s ?s t'] peek_symbol [OF d1] next_pos_at [OF d1] by (simp add: symbols_def)
  then show "\<exists>t s1 t'. parsepipe n b s = Got t s1 \<and> amps b t s1 = amps b t' (s + length (show_cmd 1 (ABack c)))
      \<and> abs_cmd (word_text b) t' = ABack c"
    using t by (intro exI [of _ t] exI [of _ s1] exI [of _ "BACK t'"]) (simp add: parens_def)
qed

lemma reads_line_back:
  assumes "reads_back c" "show_cmd 0 c = show_cmd 1 c"
  shows "reads_line c"
  unfolding reads_line_def
proof (intro allI impI)
  fix b s r n
  let ?s = "s + length (show_cmd 0 c)"
  assume a: "drop s b = show_cmd 0 c @ r" "follows '')'' r" "4 * (length b - s) + 4 \<le> n"
  obtain m where m: "n = Suc m" "4 * (length b - s) + 3 \<le> m" using a(3) by (cases n) auto
  have "follows '')&;'' r" using a(2) by (cases r) (auto simp: follows_def)
  then obtain t s1 t' where t: "parsepipe m b s = Got t s1" "amps b t s1 = amps b t' ?s" "abs_cmd (word_text b) t' = c"
    using assms a(1) m(2) unfolding reads_back_def by metis
  have "peek b ?s ''&'' = (False, ?s)" "peek b ?s '';'' = (False, ?s)"
    by (rule follows_peek [OF at_skip [OF a(1)] a(2)]; simp)+
  then show "\<exists>t. parseline n b s = Got t ?s \<and> abs_cmd (word_text b) t = c" using t m(1) by (simp add: amps_stop)
qed

lemma reads_line_list:
  assumes "reads_back l" "reads_line r'"
  shows "reads_line (AList l r')"
  unfolding reads_line_def
proof (intro allI impI)
  fix b s r n
  let ?x = "show_cmd 1 l" and ?y = "show_cmd 0 r'"
  let ?s = "s + length ?x"
  assume a: "drop s b = show_cmd 0 (AList l r') @ r" "follows '')'' r" "4 * (length b - s) + 4 \<le> n"
  obtain m where m: "n = Suc m" "4 * (length b - s) + 3 \<le> m" using a(3) by (cases n) auto
  have d: "drop s b = ?x @ '';'' @ ?y @ r" using a(1) by (simp add: parens_def)
  have d1: "drop ?s b = CHR '';'' # ?y @ r" using at_skip [OF d] by simp
  have d2: "drop (Suc ?s) b = ?y @ r" "?s < length b" using at_char [OF d1] by simp_all
  have "follows '')&;'' ('';'' @ ?y @ r)" by (simp add: follows_def)
  then obtain t s1 t' where t: "parsepipe m b s = Got t s1" "amps b t s1 = amps b t' ?s" "abs_cmd (word_text b) t' = l"
    using assms(1) d m(2) unfolding reads_back_def by blast
  have "4 * (length b - Suc ?s) + 4 \<le> m" using m(2) d2(2) by linarith
  then obtain u where u: "parseline m b (Suc ?s) = Got u (Suc ?s + length ?y)" "abs_cmd (word_text b) u = r'"
    using assms(2) d2(1) a(2) unfolding reads_line_def by blast
  have "peek b ?s ''&'' = (False, ?s)" using peek_at [OF d1, of "''&''"] by (simp add: whitespace_def)
  moreover have "peek b ?s '';'' = (True, ?s)" "next_pos b ?s = skip_space b (Suc ?s)"
    using peek_symbol [OF d1] next_pos_at [OF d1] by (simp_all add: symbols_def)
  ultimately show "\<exists>t. parseline n b s = Got t (s + length (show_cmd 0 (AList l r'))) \<and> abs_cmd (word_text b) t = AList l r'"
    using t u m(1) by (simp add: parens_def amps_stop)
qed

lemma reads_all: "good_cmd c \<Longrightarrow> reads_stage c \<and> reads_pipe c \<and> reads_back c \<and> reads_line c"
proof (induction c)
  case (AExec ws)
  then have "reads_stage (AExec ws)" by (rule reads_stage_exec)
  then show ?case by (simp add: reads_pipe_stage reads_back_pipe reads_line_back)
next
  case (ARedir c f mf)
  then have "reads_stage (ARedir c f mf)" by (intro reads_stage_redir) auto
  then show ?case by (simp add: reads_pipe_stage reads_back_pipe reads_line_back)
next
  case (APipe l r)
  then have "reads_pipe (APipe l r)" by (intro reads_pipe_pipe) auto
  then show ?case by (simp add: reads_back_pipe reads_line_back reads_stage_paren parens_def)
next
  case (AList l r)
  then have "reads_line (AList l r)" by (intro reads_line_list) auto
  then show ?case by (simp add: reads_stage_paren reads_pipe_stage reads_back_pipe parens_def)
next
  case (ABack c)
  then have "reads_back (ABack c)" by (intro reads_back_back) auto
  then show ?case by (simp add: reads_line_back reads_stage_paren reads_pipe_stage parens_def)
qed

lemma show_no_zero: "good_cmd c \<Longrightarrow> CHR 0x00 \<notin> set (show_cmd p c)"
  by (induction c arbitrary: p) (auto simp: show_words_def show_redir_def parens_def good_word_def split: prod.splits)

section \<open>Properties\<close>

text \<open>
  C25: the shell reads back what a command prints as.  For every command built from words, redirections,
  pipes, lists and background jobs, with at most nine words per program, \<^verbatim>\<open>parsecmd\<close> on the text of the
  command returns a tree of the same shape, and after \<^verbatim>\<open>nulterminate\<close> every string pointer of the tree
  reads exactly the word it stands for.
\<close>

theorem sh_parse_print:
  assumes "good_cmd c"
  defines "b \<equiv> show_cmd 0 c"
  shows "\<exists>t. parsecmd b = Got t (length b) \<and> abs_cmd (\<lambda>(q, eq). cstr_at (nulterminate t (b @ [CHR 0x00])) q) t = c"
proof -
  have "reads_line c" using reads_all [OF assms(1)] by simp
  then obtain t where t: "parseline (4 * length b + 4) b 0 = Got t (length b)" "abs_cmd (word_text b) t = c"
    unfolding reads_line_def by (metis add_0 append_Nil2 b_def diff_zero drop0 follows_def list.simps(4) order_refl)
  have p: "parsecmd b = Got t (length b)" using t(1) peek_end [of "length b" b "[]"] by (simp add: parsecmd_def)
  have "cstr_at (nulterminate t (b @ [CHR 0x00])) q = word_text b (q, eq)" if "(q, eq) \<in> words t" for q eq
    using word_after_nulterminate [OF parsecmd_words [OF p] that] show_no_zero [OF assms(1)] b_def by simp
  then have "abs_cmd (\<lambda>(q, eq). cstr_at (nulterminate t (b @ [CHR 0x00])) q) t = abs_cmd (word_text b) t"
    by (intro abs_cmd_cong) auto
  then show ?thesis using p t(2) by auto
qed

definition demo_cmd :: acmd where
  "demo_cmd = AList (ABack (APipe (ARedir (AExec [''cat'', ''f'']) ''in'' (mode_rdonly, 0)) (AExec [''wc''])))
     (ARedir (AList (AExec [''a'']) (AExec [''b''])) ''out'' (mode_create, 1))"

theorem sh_parse_print_witness:
  "show_cmd 0 demo_cmd = '' cat f < in| wc&;( a; b) > out'' \<and> (\<exists>t. parsecmd (show_cmd 0 demo_cmd) = Got t 30)"
proof -
  have s: "show_cmd 0 demo_cmd = '' cat f < in| wc&;( a; b) > out''"
    by (simp add: demo_cmd_def show_words_def show_redir_def parens_def mode_rdonly_def mode_create_def)
  have "good_cmd demo_cmd" by (simp add: demo_cmd_def good_word_def word_char_def whitespace_def symbols_def MAXARGS_def)
  from sh_parse_print [OF this] show ?thesis unfolding s by auto
qed

text \<open>
  C26: the shell's parser returns on every command line: a tree, or one of its error messages.  The tree
  accounts for the whole line, every word in it is a maximal run of characters other than white space
  and symbols, and the zeros that \<^verbatim>\<open>nulterminate\<close> writes behind the words leave every word intact and
  terminate it.
\<close>

theorem sh_parsecmd_returns:
  assumes "CHR 0x00 \<notin> set b"
  shows "case parsecmd b of NoFuel \<Rightarrow> False
    | Fail e \<Rightarrow> e \<in> sh_errors
    | Got t s \<Rightarrow> s = length b \<and> (\<forall>q eq. (q, eq) \<in> words t \<longrightarrow> word_ok b (q, eq)
        \<and> cstr_at (nulterminate t (b @ [CHR 0x00])) q = word_text b (q, eq))"
proof (cases "parsecmd b")
  case NoFuel
  then show ?thesis using parsecmd_total by simp
next
  case (Got t s)
  then have "s = length b"
    by (cases "parseline (4 * length b + 4) b 0") (auto simp: parsecmd_def split: prod.splits if_splits)
  then show ?thesis using Got word_after_nulterminate [OF parsecmd_words [OF Got] _ assms] parsecmd_words [OF Got]
    by (auto simp: words_ok_def)
next
  case (Fail e)
  then show ?thesis using parsecmd_fail [OF Fail] by simp
qed

theorem sh_parsecmd_returns_witness:
  "CHR 0x00 \<notin> set ''a>b;'' \<and> parsecmd ''a>b;'' = Got (LIST (REDIR (EXEC [(0, 1)]) 2 3 mode_create 1) (EXEC [])) 4
   \<and> cstr_at (nulterminate (LIST (REDIR (EXEC [(0, 1)]) 2 3 mode_create 1) (EXEC [])) (''a>b;'' @ [CHR 0x00])) 0 = ''a''"
proof -
  have p: "parsecmd ''a>b;'' = Got (LIST (REDIR (EXEC [(0, 1)]) 2 3 mode_create 1) (EXEC [])) 4" by code_simp
  have z: "CHR 0x00 \<notin> set ''a>b;''" by simp
  show ?thesis using sh_parsecmd_returns [OF z] p z by (simp add: word_text_def)
qed

end
