(* ===== verification/Shrun.thy ===== *)
theory Shrun
  imports Sh "HOL-Library.Sublist"
begin

text \<open>
  The command interpreter of the shell \<^verbatim>\<open>sh.c\<close>: \<^verbatim>\<open>runcmd\<close>, \<^verbatim>\<open>getcmd\<close> with \<^verbatim>\<open>gets\<close> of \<^verbatim>\<open>ulib.c\<close>, and \<^verbatim>\<open>main\<close>.
  A process is what it does in order: the children it forks, the calls of \<^verbatim>\<open>wait\<close> and the program it becomes,
  each with the descriptors open at that point.  Whether \<^verbatim>\<open>open\<close>, \<^verbatim>\<open>exec\<close>, \<^verbatim>\<open>fork\<close>, \<^verbatim>\<open>pipe\<close> and \<^verbatim>\<open>chdir\<close> succeed is
  a parameter; the place of a command in the tree names its forks and its pipe.  A new descriptor is the lowest
  that is free, as \<^verbatim>\<open>fdalloc\<close> of \<^verbatim>\<open>sysfile.c\<close> chooses it.
\<close>

section \<open>Descriptors\<close>

type_synonym place = "nat list"

datatype chan = Console | Path string nat | PipeR place | PipeW place | Inherited nat

type_synonym fds = "nat \<Rightarrow> chan option"

record shenv =
  can_open :: "string \<Rightarrow> nat \<Rightarrow> bool"
  can_exec :: "string list \<Rightarrow> bool"
  can_fork :: "place \<Rightarrow> bool"
  can_pipe :: "place \<Rightarrow> bool"
  can_chdir :: "string \<Rightarrow> bool"

definition MAXFD :: nat where "MAXFD = 16"

definition low_fd :: "fds \<Rightarrow> nat option" where
  "low_fd f = List.find (\<lambda>i. f i = None) [0..<MAXFD]"

definition u_close :: "nat \<Rightarrow> fds \<Rightarrow> fds" where
  "u_close d f = f(d := None)"

definition u_open :: "shenv \<Rightarrow> string \<Rightarrow> nat \<Rightarrow> chan \<Rightarrow> fds \<Rightarrow> (nat \<times> fds) option" where
  "u_open E name mode c f = (if \<not> can_open E name mode then None else map_option (\<lambda>d. (d, f(d \<mapsto> c))) (low_fd f))"

definition u_dup :: "nat \<Rightarrow> fds \<Rightarrow> fds" where
  "u_dup d f = (case f d of None \<Rightarrow> f | Some c \<Rightarrow> (case low_fd f of None \<Rightarrow> f | Some e \<Rightarrow> f(e \<mapsto> c)))"

definition u_pipe :: "shenv \<Rightarrow> place \<Rightarrow> fds \<Rightarrow> (nat \<times> nat \<times> fds) option" where
  "u_pipe E p f = (if \<not> can_pipe E p then None else
     case low_fd f of None \<Rightarrow> None | Some r \<Rightarrow>
     let f = f(r \<mapsto> PipeR p) in case low_fd f of None \<Rightarrow> None | Some w \<Rightarrow> Some (r, w, f(w \<mapsto> PipeW p)))"

section \<open>Running a command\<close>

datatype act = Exec "string list" fds | Spawn "act list" | Wait fds | Message string string | Exit

definition sh_panic :: "string \<Rightarrow> act list" where
  "sh_panic s = [Message s '''', Exit]"

text \<open>\<^verbatim>\<open>fork1\<close>: the child does \<open>child\<close>, the parent goes on with \<open>parent\<close>.\<close>

definition fork1 :: "shenv \<Rightarrow> place \<Rightarrow> act list \<Rightarrow> act list \<Rightarrow> act list" where
  "fork1 E p child parent = (if can_fork E p then Spawn child # parent else sh_panic ''fork'')"

primrec runcmd :: "cmd \<Rightarrow> shenv \<Rightarrow> string \<Rightarrow> place \<Rightarrow> fds \<Rightarrow> act list" where
  "runcmd (EXEC ws) E m p f =
     (if ws = [] then [Exit] else
      let argv = map (\<lambda>(q, eq). cstr_at m q) ws in
      if can_exec E argv then [Exec argv f] else [Message ''exec'' (hd argv), Exit])"
| "runcmd (REDIR c q eq mode fd) E m p f =
     (let f = u_close fd f; name = cstr_at m q in
      case u_open E name mode (Path name mode) f of
        None \<Rightarrow> [Message ''open'' name, Exit]
      | Some (_, f) \<Rightarrow> runcmd c E m p f)"
| "runcmd (LIST l r) E m p f = fork1 E (0 # p) (runcmd l E m (0 # p) f) (Wait f # runcmd r E m (1 # p) f)"
| "runcmd (PIPE l r) E m p f =
     (case u_pipe E p f of None \<Rightarrow> sh_panic ''pipe''
      | Some (p0, p1, f) \<Rightarrow>
          fork1 E (0 # p) (runcmd l E m (0 # p) (u_close p1 (u_close p0 (u_dup p1 (u_close 1 f)))))
          (fork1 E (1 # p) (runcmd r E m (1 # p) (u_close p1 (u_close p0 (u_dup p0 (u_close 0 f)))))
          (let f = u_close p1 (u_close p0 f) in [Wait f, Wait f, Exit])))"
| "runcmd (BACK c) E m p f = fork1 E (0 # p) (runcmd c E m (0 # p) f) [Exit]"

section \<open>Reading and the main loop\<close>

text \<open>The input is what is left of the standard input; \<^verbatim>\<open>gets\<close> returns the characters stored and the rest.\<close>

fun gets :: "nat \<Rightarrow> string \<Rightarrow> string \<times> string" where
  "gets n inp =
     (if \<not> 1 < n then ([], inp) else
      case inp of [] \<Rightarrow> ([], [])
      | c # cs \<Rightarrow> if c = CHR 0x0A \<or> c = CHR 0x0D then ([c], cs)
          else (case gets (n - 1) cs of (xs, rest) \<Rightarrow> (c # xs, rest)))"

declare gets.simps [simp del]

definition getcmd :: "nat \<Rightarrow> string \<Rightarrow> (string \<times> string) option" where
  "getcmd n inp = (case gets n inp of (xs, rest) \<Rightarrow>
     let buf = takeWhile (\<lambda>c. c \<noteq> CHR 0x00) xs in if buf = [] then None else Some (buf, rest))"

datatype step = Chdir string | NoChdir string | Ran "act list" | Died "act list"

definition sh_child :: "shenv \<Rightarrow> string \<Rightarrow> place \<Rightarrow> fds \<Rightarrow> act list" where
  "sh_child E buf p f = (case parsecmd buf of
     Got c _ \<Rightarrow> runcmd c E (nulterminate c (buf @ [CHR 0x00])) p f
   | Fail e \<Rightarrow> sh_panic e | NoFuel \<Rightarrow> [])"

definition sh_line :: "shenv \<Rightarrow> fds \<Rightarrow> place \<Rightarrow> string \<Rightarrow> step" where
  "sh_line E f p buf =
     (if take 3 buf = ''cd '' then
        let dir = drop 3 (butlast buf) in if can_chdir E dir then Chdir dir else NoChdir dir
      else if can_fork E p then Ran [Spawn (sh_child E buf p f), Wait f] else Died (sh_panic ''fork''))"

lemma gets_rest: "gets n inp = (xs, rest) \<Longrightarrow> inp = xs @ rest"
  by (induction n inp arbitrary: xs rest rule: gets.induct)
    (subst (asm) gets.simps, auto split: if_splits list.splits prod.splits)

lemma getcmd_progress: "getcmd n inp = Some (buf, rest) \<Longrightarrow> length rest < length inp"
  by (cases "gets n inp") (auto simp: getcmd_def Let_def dest!: gets_rest split: if_splits)

fun is_died :: "step \<Rightarrow> bool" where
  "is_died (Died _) = True" | "is_died _ = False"

text \<open>\<open>k\<close> counts the lines; it names the processes started for them.\<close>

function sh_loop :: "shenv \<Rightarrow> fds \<Rightarrow> nat \<Rightarrow> string \<Rightarrow> step list" where
  "sh_loop E f k inp =
     (case getcmd 100 inp of None \<Rightarrow> []
      | Some (buf, rest) \<Rightarrow> let s = sh_line E f [k] buf in if is_died s then [s] else s # sh_loop E f (k + 1) rest)"
  by pat_completeness auto
termination
  by (relation "measure (\<lambda>(E, f, k, inp). length inp)") (auto dest: getcmd_progress)

declare sh_loop.simps [simp del]

definition free_fds :: "fds \<Rightarrow> nat set" where
  "free_fds f = {i. i < MAXFD \<and> f i = None}"

lemma low_fd_Some: "low_fd f = Some d \<Longrightarrow> d < MAXFD \<and> f d = None \<and> (\<forall>i<d. f i \<noteq> None)"
  by (auto simp: low_fd_def find_Some_iff)

function open_console :: "shenv \<Rightarrow> fds \<Rightarrow> fds" where
  "open_console E f = (case u_open E ''console'' 2 Console f of None \<Rightarrow> f
     | Some (fd, f') \<Rightarrow> if fd \<ge> 3 then u_close fd f' else open_console E f')"
  by pat_completeness auto
termination
proof (relation "measure (\<lambda>(E, f). card (free_fds f))")
  fix E f x fd f'
  assume "u_open E ''console'' 2 Console f = Some x" "(fd, f') = x"
  then have d: "low_fd f = Some fd" "f' = f(fd \<mapsto> Console)" by (auto simp: u_open_def split: if_splits)
  have "finite (free_fds f)" by (simp add: free_fds_def)
  moreover have "free_fds f' \<subset> free_fds f" using low_fd_Some [OF d(1)] d(2) by (auto simp: free_fds_def)
  ultimately show "((E, f'), E, f) \<in> measure (\<lambda>(E, f). card (free_fds f))" by (simp add: psubset_card_mono)
qed simp

declare open_console.simps [simp del]

definition sh_main :: "shenv \<Rightarrow> fds \<Rightarrow> string \<Rightarrow> step list" where
  "sh_main E f inp = sh_loop E (open_console E f) 0 inp"

section \<open>What the commands mean\<close>

text \<open>A command runs with an input, an output and an error channel, and with no other descriptor.\<close>

definition std :: "chan \<Rightarrow> chan \<Rightarrow> chan \<Rightarrow> fds" where
  "std i out e = [0 \<mapsto> i, 1 \<mapsto> out, 2 \<mapsto> e]"

primrec plumb :: "cmd \<Rightarrow> shenv \<Rightarrow> string \<Rightarrow> place \<Rightarrow> chan \<Rightarrow> chan \<Rightarrow> chan \<Rightarrow> act list" where
  "plumb (EXEC ws) E m p i out e =
     (if ws = [] then [Exit] else
      let argv = map (\<lambda>(q, eq). cstr_at m q) ws in
      if can_exec E argv then [Exec argv (std i out e)] else [Message ''exec'' (hd argv), Exit])"
| "plumb (REDIR c q eq mode fd) E m p i out e =
     (let name = cstr_at m q; c' = Path name mode in
      if \<not> can_open E name mode then [Message ''open'' name, Exit]
      else if fd = 0 then plumb c E m p c' out e else plumb c E m p i c' e)"
| "plumb (LIST l r) E m p i out e =
     fork1 E (0 # p) (plumb l E m (0 # p) i out e) (Wait (std i out e) # plumb r E m (1 # p) i out e)"
| "plumb (PIPE l r) E m p i out e =
     (if \<not> can_pipe E p then sh_panic ''pipe'' else
      fork1 E (0 # p) (plumb l E m (0 # p) i (PipeW p) e)
      (fork1 E (1 # p) (plumb r E m (1 # p) (PipeR p) out e) [Wait (std i out e), Wait (std i out e), Exit]))"
| "plumb (BACK c) E m p i out e = fork1 E (0 # p) (plumb c E m (0 # p) i out e) [Exit]"

primrec std_cmd :: "cmd \<Rightarrow> bool" where
  "std_cmd (EXEC ws) = True"
| "std_cmd (REDIR c q eq mode fd) = (fd \<le> 1 \<and> std_cmd c)"
| "std_cmd (LIST l r) = (std_cmd l \<and> std_cmd r)"
| "std_cmd (PIPE l r) = (std_cmd l \<and> std_cmd r)"
| "std_cmd (BACK c) = std_cmd c"

lemma low_fd_eq: "d < MAXFD \<Longrightarrow> f d = None \<Longrightarrow> (\<And>i. i < d \<Longrightarrow> f i \<noteq> None) \<Longrightarrow> low_fd f = Some d"
  by (auto simp: low_fd_def find_Some_iff intro!: exI [of _ d])

lemma redir_std:
  assumes "fd \<le> 1" "can_open E name mode"
  shows "u_open E name mode c (u_close fd (std i out e)) = Some (fd, if fd = 0 then std c out e else std i c e)"
proof -
  have "low_fd (u_close fd (std i out e)) = Some fd"
    using assms(1) by (intro low_fd_eq) (auto simp: std_def u_close_def MAXFD_def)
  then show ?thesis using assms by (cases "fd = 0") (auto simp: u_open_def u_close_def std_def fun_eq_iff)
qed

lemma pipe_std:
  assumes "can_pipe E p"
  shows "u_pipe E p (std i out e) = Some (3, 4, (std i out e)(3 \<mapsto> PipeR p, 4 \<mapsto> PipeW p))"
proof -
  have "low_fd (std i out e) = Some 3" "low_fd ((std i out e)(3 \<mapsto> PipeR p)) = Some 4"
    by (intro low_fd_eq; auto simp: std_def MAXFD_def numeral_nat less_Suc_eq)+
  then show ?thesis using assms by (simp add: u_pipe_def)
qed

lemma pipe_sides:
  assumes f_def: "f = (std i out e)(3 \<mapsto> PipeR p, 4 \<mapsto> PipeW p)"
  shows "u_close 4 (u_close 3 (u_dup 4 (u_close 1 f))) = std i (PipeW p) e"
    "u_close 4 (u_close 3 (u_dup 3 (u_close 0 f))) = std (PipeR p) out e"
    "u_close 4 (u_close 3 f) = std i out e"
proof -
  have "low_fd (u_close 1 f) = Some 1" "low_fd (u_close 0 f) = Some 0"
    by (intro low_fd_eq; simp add: f_def std_def u_close_def MAXFD_def)+
  then show "u_close 4 (u_close 3 (u_dup 4 (u_close 1 f))) = std i (PipeW p) e"
    "u_close 4 (u_close 3 (u_dup 3 (u_close 0 f))) = std (PipeR p) out e"
    by (auto simp: u_dup_def f_def std_def u_close_def fun_eq_iff)
  show "u_close 4 (u_close 3 f) = std i out e" by (auto simp: f_def std_def u_close_def fun_eq_iff)
qed

lemma runcmd_plumb: "std_cmd c \<Longrightarrow> runcmd c E m p (std i out e) = plumb c E m p i out e"
proof (induction c arbitrary: p i out e)
  case (REDIR c q eq mode fd)
  then show ?case
    by (cases "can_open E (cstr_at m q) mode") (simp_all add: Let_def redir_std, simp add: u_open_def)
next
  case (PIPE l r)
  show ?case
  proof (cases "can_pipe E p")
    case True
    have "runcmd (PIPE l r) E m p (std i out e) = fork1 E (0 # p) (runcmd l E m (0 # p) (std i (PipeW p) e))
        (fork1 E (1 # p) (runcmd r E m (1 # p) (std (PipeR p) out e)) [Wait (std i out e), Wait (std i out e), Exit])"
      by (simp only: runcmd.simps pipe_std [OF True] option.case prod.case pipe_sides [OF refl] Let_def)
    then show ?thesis using PIPE True by simp
  qed (simp add: u_pipe_def)
qed simp_all

text \<open>The parser only redirects the standard input and output.\<close>

definition yields :: "('a \<Rightarrow> bool) \<Rightarrow> 'a presult \<Rightarrow> bool" where
  "yields P r \<longleftrightarrow> (case r of Got x _ \<Rightarrow> P x | _ \<Rightarrow> True)"

lemma yields_simps [simp]: "yields P NoFuel" "yields P (Fail e)" "yields P (Got x s) \<longleftrightarrow> P x"
  by (simp_all add: yields_def)

lemma yields_then: "yields P r \<Longrightarrow> (\<And>x s. P x \<Longrightarrow> yields Q (f x s)) \<Longrightarrow> yields Q (then_parse r f)"
  by (cases r) simp_all

lemma yields_if: "(c \<Longrightarrow> yields P r) \<Longrightarrow> (\<not> c \<Longrightarrow> yields P r') \<Longrightarrow> yields P (if c then r else r')"
  by simp

lemma yields_pair: "(\<And>x y. yields P (f x y)) \<Longrightarrow> yields P (case z of (x, y) \<Rightarrow> f x y)"
  by (cases z) simp

definition std_redirs :: "redirection list \<Rightarrow> bool" where
  "std_redirs rs \<longleftrightarrow> (\<forall>r\<in>set rs. snd (snd (snd r)) \<le> 1)"

lemma std_redirs_simps [simp]:
  "std_redirs []" "std_redirs ((q, eq, m, fd) # rs) \<longleftrightarrow> fd \<le> 1 \<and> std_redirs rs" "std_redirs (rs @ rs') \<longleftrightarrow> std_redirs rs \<and> std_redirs rs'"
  by (auto simp: std_redirs_def)

lemma std_add_redirs: "std_cmd c \<Longrightarrow> std_redirs rs \<Longrightarrow> std_cmd (add_redirs c rs)"
  by (induction c rs rule: add_redirs.induct) simp_all

lemma redirs_std: "yields std_redirs (redirs b s)"
proof (induction s rule: redirs_induct [where b = b])
  case (step s s1 tok w s2 k q eq s3)
  then show ?case unfolding redirs_step [OF step(1-3)]
    by (intro yields_if yields_then [where P = std_redirs]) (auto simp: redir_of_def)
qed (simp add: redirs_stop)

lemma parse_args_std: "yields (\<lambda>(ws, rs). std_redirs rs) (parse_args b s n)"
proof (induction s n rule: parse_args_induct [where b = b])
  case (step s n s1 k w s2)
  show ?case unfolding parse_args_step [OF step(1,2)]
    by (intro yields_if yields_then [OF redirs_std] yields_then [OF step(3)]) auto
qed (simp add: parse_args_stop)

lemma amps_std: "std_cmd c \<Longrightarrow> std_cmd (fst (amps b c s))"
  by (induction c s rule: amps_induct [where b = b]) (auto simp: amps_stop amps_step)

lemma parser_std:
  "yields std_cmd (parseline n b s)" "yields std_cmd (parsepipe n b s)" "yields std_cmd (parseblock n b s)" "yields std_cmd (parseexec n b s)"
proof (induction n arbitrary: s)
  case (Suc n)
  {
    case 1
    have "yields std_cmd (case amps b c s1 of (c1, s2) \<Rightarrow> case peek b s2 '';'' of (x, s3) \<Rightarrow>
        if x then then_parse (parseline n b (next_pos b s3)) (\<lambda>d s4. Got (LIST c1 d) s4) else Got c1 s3)" if "std_cmd c" for c s1
      using amps_std [OF that, of b s1]
      by (cases "amps b c s1") (auto intro!: yields_pair yields_if yields_then [OF Suc.IH(1)])
    then show ?case unfolding parseline.simps by (rule yields_then [OF Suc.IH(2)])
  next
    case 2
    show ?case unfolding parsepipe.simps
      by (intro yields_then [OF Suc.IH(4)] yields_pair yields_if yields_then [OF Suc.IH(2)]) simp_all
  next
    case 3
    show ?case unfolding parseblock.simps
      by (intro yields_pair yields_if yields_then [OF Suc.IH(1)] yields_then [OF redirs_std]) (simp_all add: std_add_redirs)
  next
    case 4
    show ?case unfolding parseexec.simps
      by (intro yields_pair yields_if Suc.IH(3) yields_then [OF redirs_std] yields_then [OF parse_args_std])
        (auto simp: std_add_redirs)
  }
qed simp_all

lemma parsecmd_std: "parsecmd b = Got c s \<Longrightarrow> std_cmd c"
proof -
  assume p: "parsecmd b = Got c s"
  have "yields std_cmd (parsecmd b)" unfolding parsecmd_def
    by (intro yields_then [OF parser_std(1)] yields_pair yields_if) simp_all
  then show ?thesis by (simp add: p)
qed

section \<open>Who holds the ends of a pipe\<close>

fun tables :: "act list \<Rightarrow> fds set" where
  "tables [] = {}"
| "tables (Exec argv f # as) = insert f (tables as)"
| "tables (Wait f # as) = insert f (tables as)"
| "tables (Spawn bs # as) = tables bs \<union> tables as"
| "tables (_ # as) = tables as"

fun outside :: "place \<Rightarrow> chan \<Rightarrow> bool" where
  "outside p (PipeR q) = (\<not> suffix p q)"
| "outside p (PipeW q) = (\<not> suffix p q)"
| "outside p _ = True"

definition ends_apart :: "chan \<Rightarrow> chan \<Rightarrow> chan \<Rightarrow> bool" where
  "ends_apart i out e \<longleftrightarrow> (\<forall>q. \<not> (PipeR q \<in> {i, out, e} \<and> PipeW q \<in> {i, out, e}))"

definition clean :: "fds \<Rightarrow> bool" where
  "clean f \<longleftrightarrow> dom f = {0, 1, 2} \<and> (\<forall>q. \<not> (PipeR q \<in> ran f \<and> PipeW q \<in> ran f))"

lemma ran_std: "ran (std i out e) = {i, out, e}"
proof -
  have "ran (std i out e) = insert e (insert out (insert i {}))" unfolding std_def by (subst ran_map_upd, simp)+ simp
  then show ?thesis by blast
qed

lemma dom_std: "dom (std i out e) = {0, 1, 2}"
  by (auto simp: std_def)

lemma clean_std: "clean (std i out e) \<longleftrightarrow> ends_apart i out e"
  by (simp only: clean_def ends_apart_def ran_std dom_std simp_thms)

lemma outside_below: "outside p c \<Longrightarrow> outside (k # p) c"
  by (cases "(p, c)" rule: outside.cases) (auto simp: suffix_def)

lemma outside_own: "outside (k # p) (PipeR p)" "outside (k # p) (PipeW p)"
  by (auto simp: suffix_def)

lemma ends_apart_pipe:
  assumes "ends_apart i out e" "outside p i" "outside p out" "outside p e"
  shows "ends_apart i (PipeW p) e" "ends_apart (PipeR p) out e"
  using assms by (auto simp: ends_apart_def)

lemma fork1_tables: "tables (fork1 E p child parent) \<subseteq> tables child \<union> tables parent"
  by (simp add: fork1_def sh_panic_def)

lemma plumb_clean:
  "ends_apart i out e \<Longrightarrow> outside p i \<Longrightarrow> outside p out \<Longrightarrow> outside p e \<Longrightarrow> f \<in> tables (plumb c E m p i out e) \<Longrightarrow> clean f"
proof (induction c arbitrary: p i out e)
  case (PIPE l r)
  note ob = PIPE.prems(2-4) [THEN outside_below] and ap = ends_apart_pipe [OF PIPE.prems(1-4)]
  have "f \<in> tables (plumb l E m (0 # p) i (PipeW p) e) \<union> tables (plumb r E m (1 # p) (PipeR p) out e) \<union> {std i out e}"
    using PIPE.prems(5) by (auto simp: fork1_def sh_panic_def split: if_splits)
  then show ?case using PIPE.IH(1) [OF ap(1) ob(1) outside_own(2) ob(3)] PIPE.IH(2) [OF ap(2) outside_own(1) ob(2,3)]
      PIPE.prems(1) by (auto simp: clean_std)
next
  case (LIST l r)
  note ob = LIST.prems(2-4) [THEN outside_below]
  have "f \<in> tables (plumb l E m (0 # p) i out e) \<union> tables (plumb r E m (1 # p) i out e) \<union> {std i out e}"
    using LIST.prems(5) by (auto simp: fork1_def sh_panic_def split: if_splits)
  then show ?case using LIST.IH(1) [OF LIST.prems(1) ob] LIST.IH(2) [OF LIST.prems(1) ob] LIST.prems(1) by (auto simp: clean_std)
next
  case (BACK c)
  then show ?case using BACK.IH [OF BACK.prems(1) BACK.prems(2-4) [THEN outside_below]]
    by (auto simp: fork1_def sh_panic_def split: if_splits)
next
  case (REDIR c q eq mode fd)
  have "ends_apart (Path a b) out e" "ends_apart i (Path a b) e" for a b using REDIR.prems(1) by (auto simp: ends_apart_def)
  then show ?case using REDIR.prems REDIR.IH [of "Path _ _" out e p] REDIR.IH [of i "Path _ _" e p] by (auto simp: Let_def split: if_splits)
qed (auto simp: clean_std Let_def split: if_splits)

section \<open>Lines of input\<close>

definition nl :: string where "nl = [CHR 0x0A]"

definition good_line :: "string \<Rightarrow> bool" where
  "good_line l \<longleftrightarrow> set l \<inter> {CHR 0x00, CHR 0x0A, CHR 0x0D} = {} \<and> length l \<le> 98"

lemma gets_line: "set l \<inter> {CHR 0x0A, CHR 0x0D} = {} \<Longrightarrow> length l + 1 < n \<Longrightarrow> gets n (l @ nl @ rest) = (l @ nl, rest)"
proof (induction l arbitrary: n)
  case Nil
  then show ?case by (subst gets.simps) (simp add: nl_def)
next
  case (Cons c l)
  then show ?case using Cons.IH [of "n - 1"] by (subst gets.simps) auto
qed

lemma getcmd_line: "good_line l \<Longrightarrow> getcmd 100 (l @ nl @ rest) = Some (l @ nl, rest)"
proof -
  assume l: "good_line l"
  then have "gets 100 (l @ nl @ rest) = (l @ nl, rest)" by (intro gets_line) (auto simp: good_line_def)
  moreover have "takeWhile (\<lambda>c. c \<noteq> CHR 0x00) (l @ nl) = l @ nl"
    using l by (subst takeWhile_eq_all_conv) (auto simp: good_line_def nl_def)
  ultimately show ?thesis by (simp add: getcmd_def nl_def)
qed

lemma sh_line_alive: "can_fork E p \<Longrightarrow> \<not> is_died (sh_line E f p buf)"
  by (simp add: sh_line_def Let_def)

lemma sh_loop_lines:
  "\<forall>l\<in>set ls. good_line l \<Longrightarrow> \<forall>k. can_fork E [k] \<Longrightarrow>
     sh_loop E f k (concat (map (\<lambda>l. l @ nl) ls)) = map (\<lambda>(k, l). sh_line E f [k] (l @ nl)) (enumerate k ls)"
proof (induction ls arbitrary: k)
  case Nil
  have "getcmd 100 [] = None" by (subst getcmd_def, subst gets.simps) simp
  then show ?case by (subst sh_loop.simps) simp
next
  case (Cons l ls)
  have "getcmd 100 (concat (map (\<lambda>l. l @ nl) (l # ls))) = Some (l @ nl, concat (map (\<lambda>l. l @ nl) ls))"
    using Cons.prems(1) getcmd_line [of l] by simp
  then show ?case using Cons sh_line_alive [of E "[k]" f] by (subst sh_loop.simps) (simp add: Let_def)
qed

definition with_console :: "fds \<Rightarrow> fds" where
  "with_console f = (\<lambda>i. if i < 3 \<and> f i = None then Some Console else f i)"

lemma open_console_all:
  "dom f \<subseteq> {0, 1, 2} \<Longrightarrow> can_open E ''console'' 2 \<Longrightarrow> open_console E f = with_console f"
proof (induction E f rule: open_console.induct)
  case (1 E f)
  have "f 3 = None" using "1.prems"(1) by (auto simp: dom_def)
  then have "low_fd f \<noteq> None" by (auto simp: low_fd_def find_None_iff MAXFD_def intro!: exI [of _ 3])
  then obtain d where d: "low_fd f = Some d" by blast
  have o: "u_open E ''console'' 2 Console f = Some (d, f(d \<mapsto> Console))" using d "1.prems"(2) by (simp add: u_open_def)
  note D = low_fd_Some [OF d]
  show ?case
  proof (cases "d \<ge> 3")
    case True
    then have "with_console f = f" using D by (auto simp: with_console_def fun_eq_iff)
    moreover have "u_close d (f(d \<mapsto> Console)) = f" using D by (auto simp: u_close_def)
    ultimately show ?thesis using True o by (subst open_console.simps) simp
  next
    case False
    have "d \<in> {0, 1, 2}" using False by auto
    then have "dom (f(d \<mapsto> Console)) \<subseteq> {0, 1, 2}" using "1.prems"(1) by auto
    then have "open_console E (f(d \<mapsto> Console)) = with_console (f(d \<mapsto> Console))" by (rule "1.IH" [OF o refl False _ "1.prems"(2)])
    moreover have "with_console (f(d \<mapsto> Console)) = with_console f" using False D by (auto simp: with_console_def fun_eq_iff)
    ultimately show ?thesis using False o by (subst open_console.simps) simp
  qed
qed

section \<open>Properties\<close>

text \<open>
  C12: the shell connects every command as its text says.  A command line that parses, run by a process with
  descriptors 0, 1 and 2 only, runs its programs with exactly these three: redirections replace the input or the
  output, the left side of a pipe writes to it and the right side reads from it, and no process, neither a program
  nor a shell that waits, has another descriptor open or holds both ends of a pipe, so that a reader sees the end
  of its input when the writers are done.
\<close>

theorem runcmd_plumbing:
  assumes "parsecmd b = Got c s" "ends_apart i out e" "outside p i" "outside p out" "outside p e"
  shows "runcmd c E m p (std i out e) = plumb c E m p i out e \<and> (\<forall>f\<in>tables (runcmd c E m p (std i out e)). clean f)"
  using runcmd_plumb [OF parsecmd_std [OF assms(1)]] plumb_clean [OF assms(2-5)] by simp

definition demo_env :: shenv where
  "demo_env = \<lparr>can_open = \<lambda>_ _. True, can_exec = \<lambda>_. True, can_fork = \<lambda>_. True, can_pipe = \<lambda>_. True, can_chdir = \<lambda>_. True\<rparr>"

theorem runcmd_plumbing_witness:
  "runcmd (PIPE (EXEC [(0, 1)]) (EXEC [(2, 3)])) demo_env (''a'' @ [CHR 0x00] @ ''b'' @ [CHR 0x00]) [0] (std Console Console Console)
     = [Spawn [Exec [''a''] (std Console (PipeW [0]) Console)], Spawn [Exec [''b''] (std (PipeR [0]) Console Console)],
        Wait (std Console Console Console), Wait (std Console Console Console), Exit]"
proof -
  have p: "parsecmd ''a|b'' = Got (PIPE (EXEC [(0, 1)]) (EXEC [(2, 3)])) 3" by code_simp
  show ?thesis using runcmd_plumbing [OF p, of Console Console Console "[0]" demo_env "''a'' @ [CHR 0x00] @ ''b'' @ [CHR 0x00]"]
    by (simp add: ends_apart_def demo_env_def fork1_def cstr_at_def)
qed

text \<open>
  C34: a session.  Started with some of the descriptors 0, 1 and 2, the shell opens the console for the others and
  only for them; then every line of up to 98 characters is one command, run in a child it waits for, or a change
  of its own directory, in the order of the input, until the input ends.
\<close>

theorem shell_session:
  assumes "dom f \<subseteq> {0, 1, 2}" "can_open E ''console'' 2" "\<forall>l\<in>set ls. good_line l" "\<forall>k. can_fork E [k]"
  shows "dom (with_console f) = {0, 1, 2}
    \<and> sh_main E f (concat (map (\<lambda>l. l @ nl) ls)) = map (\<lambda>(k, l). sh_line E (with_console f) [k] (l @ nl)) (enumerate 0 ls)"
proof -
  have "dom (with_console f) = {0, 1, 2}" using assms(1) by (auto simp: with_console_def dom_def split: if_splits)
  then show ?thesis using sh_loop_lines [OF assms(3,4)] open_console_all [OF assms(1,2)] by (simp add: sh_main_def)
qed

theorem shell_session_witness:
  "sh_main demo_env [0 \<mapsto> Inherited 7] (''cd d'' @ nl @ ''(x'' @ nl) = [Chdir ''d'', Ran [Spawn (sh_panic ''syntax - missing )''), Wait (std (Inherited 7) Console Console)]]"
proof -
  have f: "with_console [0 \<mapsto> Inherited 7] = std (Inherited 7) Console Console"
    by (auto simp: with_console_def std_def fun_eq_iff)
  have p: "parsecmd (''(x'' @ nl) = Fail ''syntax - missing )''" unfolding nl_def by code_simp
  show ?thesis using shell_session [of "[0 \<mapsto> Inherited 7]" demo_env "[''cd d'', ''(x'']"] p
    unfolding f by (simp add: good_line_def demo_env_def sh_line_def sh_child_def nl_def)
qed

end
