(* ===== verification/Lsh.thy ===== *)
theory Lsh
  imports Kprelude
begin

text \<open>
  The shell of \<^verbatim>\<open>src/OperatingSystem/HW3.c\<close>, a program of the host: reading and splitting a line, the built-in
  commands, the table of new names for commands, and the main loop.  A string argument is a pointer into the line
  it was read in: the number of the line, the offset, and the characters there, which nothing changes later,
  because lines are never freed.  What the C standard leaves undefined, a missing file handle or an index behind an
  array, is the outcome \<open>Crash\<close>; \<^verbatim>\<open>exit\<close> after a failed allocation is \<open>Exhausted\<close>.  Error messages are abbreviated.
\<close>

section \<open>State\<close>

type_synonym ptr = "(nat \<times> nat) \<times> string"

abbreviation chars :: "ptr \<Rightarrow> string" where "chars \<equiv> snd"

datatype event = Launch "string list" | ChangeDir string bool | Prompt string string | Say string | Names "(string \<times> string) list" | Echo string

record lsh =
  shellname :: string
  terminator :: string
  newnames :: "ptr option list"
  oldnames :: "ptr option list"
  lsh_num_newnames :: nat
  disk :: "string \<rightharpoonup> string"
  out :: "event list"

record henv =
  alloc :: "nat \<Rightarrow> bool"
  chdir_ok :: "string \<Rightarrow> bool"
  writable :: "string \<Rightarrow> bool"

datatype 'a result = Val 'a | Crash string | Exhausted

definition lsh0 :: "(string \<rightharpoonup> string) \<Rightarrow> lsh" where
  "lsh0 files = \<lparr>shellname = ''myshell'', terminator = ''>'', newnames = replicate 10 None, oldnames = replicate 10 None,
     lsh_num_newnames = 0, disk = files, out = []\<rparr>"

definition say :: "event \<Rightarrow> lsh \<Rightarrow> lsh" where
  "say e s = s\<lparr>out := out s @ [e]\<rparr>"

definition arg :: "ptr list \<Rightarrow> nat \<Rightarrow> ptr option" where
  "arg args i = (if i < length args then Some (args ! i) else None)"

section \<open>Reading a line\<close>

definition LSH_RL_BUFSIZE :: nat where "LSH_RL_BUFSIZE = 1024"

text \<open>\<open>buf\<close> is what is stored so far, \<open>n\<close> the size of the buffer.  The size is an \<^verbatim>\<open>int\<close>; its overflow, undefined in
  C, is a crash of the model.\<close>

definition INT_MAX :: nat where "INT_MAX = 2147483647"

fun line_loop :: "henv \<Rightarrow> nat \<Rightarrow> string \<Rightarrow> string \<Rightarrow> (string \<times> string) result" where
  "line_loop E n buf [] = (if \<not> length buf < n then Crash ''buffer'' else Val (buf, []))"
| "line_loop E n buf (c # cs) =
     (if \<not> length buf < n then Crash ''buffer''
      else if c = CHR 0x0A then Val (buf, cs)
      else let buf = buf @ [c] in
        if length buf \<ge> n then
          let n = n + LSH_RL_BUFSIZE in if n > INT_MAX then Crash ''bufsize'' else
          if alloc E n then line_loop E n buf cs else Exhausted
        else line_loop E n buf cs)"

definition lsh_read_line :: "henv \<Rightarrow> string \<Rightarrow> (string \<times> string) result" where
  "lsh_read_line E inp = (if \<not> alloc E LSH_RL_BUFSIZE then Exhausted else line_loop E LSH_RL_BUFSIZE [] inp)"

section \<open>Splitting it\<close>

definition LSH_TOK_BUFSIZE :: nat where "LSH_TOK_BUFSIZE = 64"
definition LSH_TOK_DELIM :: string where "LSH_TOK_DELIM = [CHR 0x20, CHR 0x09, CHR 0x0D, CHR 0x0A, CHR 0x07]"

text \<open>\<^verbatim>\<open>strtok\<close>: the offset and characters of the next token, and the offset and text to go on with.\<close>

definition strtok :: "nat \<Rightarrow> string \<Rightarrow> ((nat \<times> string) \<times> nat \<times> string) option" where
  "strtok k s =
     (let t = dropWhile (\<lambda>c. c \<in> set LSH_TOK_DELIM) s; k' = k + (length s - length t);
          w = takeWhile (\<lambda>c. c \<notin> set LSH_TOK_DELIM) t in
      if t = [] then None else Some ((k', w), k' + length w + 1, drop (length w + 1) t))"

lemma strtok_shorter: "strtok k s = Some (w, k', t) \<Longrightarrow> length t < length s"
proof -
  assume a: "strtok k s = Some (w, k', t)"
  let ?t = "dropWhile (\<lambda>c. c \<in> set LSH_TOK_DELIM) s"
  have "?t \<noteq> []" "t = drop (length (takeWhile (\<lambda>c. c \<notin> set LSH_TOK_DELIM) ?t) + 1) ?t"
    using a by (auto simp: strtok_def Let_def split: if_splits)
  moreover have "length ?t \<le> length s" by (rule length_dropWhile_le)
  ultimately show ?thesis by (cases ?t) auto
qed

text \<open>The tokens found so far are \<open>ts\<close>; \<open>n\<close> is the size of the array of pointers.\<close>

function split_loop :: "henv \<Rightarrow> nat \<Rightarrow> nat \<Rightarrow> ptr list \<Rightarrow> nat \<Rightarrow> string \<Rightarrow> ptr list result" where
  "split_loop E ln n ts k s =
     (if \<not> length ts < n then Crash ''tokens'' else
      case strtok k s of None \<Rightarrow> Val ts
      | Some ((j, w), k', t) \<Rightarrow>
          let ts = ts @ [((ln, j), w)] in
          if length ts \<ge> n then
            let n = n + LSH_TOK_BUFSIZE in if n > INT_MAX then Crash ''bufsize'' else
            if alloc E (8 * n) then split_loop E ln n ts k' t else Exhausted
          else split_loop E ln n ts k' t)"
  by pat_completeness auto
termination
  by (relation "measure (\<lambda>(E, ln, n, ts, k, s). length s)") (auto dest: strtok_shorter)

declare split_loop.simps [simp del]

definition lsh_split_line :: "henv \<Rightarrow> nat \<Rightarrow> string \<Rightarrow> ptr list result" where
  "lsh_split_line E ln line =
     (if \<not> alloc E (8 * LSH_TOK_BUFSIZE) then Exhausted
      else split_loop E ln LSH_TOK_BUFSIZE [] 0 (takeWhile (\<lambda>c. c \<noteq> CHR 0x00) line))"

section \<open>Built-in commands\<close>

definition setshellname :: "ptr list \<Rightarrow> lsh \<Rightarrow> lsh" where
  "setshellname args s = (case arg args 1 of
     None \<Rightarrow> say (Say ''No new name'') (s\<lparr>shellname := ''myshell''\<rparr>)
   | Some a \<Rightarrow> say (Say (chars a)) (s\<lparr>shellname := chars a\<rparr>))"

definition setterminator :: "ptr list \<Rightarrow> lsh \<Rightarrow> lsh" where
  "setterminator args s = (case arg args 1 of
     None \<Rightarrow> say (Say ''No new terminator'') (s\<lparr>terminator := ''>''\<rparr>)
   | Some a \<Rightarrow> say (Say (chars a)) (s\<lparr>terminator := chars a\<rparr>))"

text \<open>The search compares pointers, not strings.\<close>

definition name_index :: "ptr \<Rightarrow> lsh \<Rightarrow> nat" where
  "name_index a s = (case List.find (\<lambda>i. map_option fst (oldnames s ! i) = Some (fst a)) [0..<lsh_num_newnames s] of
     Some i \<Rightarrow> i | None \<Rightarrow> lsh_num_newnames s)"

definition newname :: "ptr list \<Rightarrow> lsh \<Rightarrow> lsh result" where
  "newname args s = (case (arg args 1, arg args 2) of
     (Some a1, Some a2) \<Rightarrow>
       (let i = name_index a2 s in
        if \<not> i < length (oldnames s) then Crash ''oldnames''
        else if map_option fst (oldnames s ! i) = Some (fst a2) then Val (s\<lparr>newnames := (newnames s)[i := Some a1]\<rparr>)
        else let n = lsh_num_newnames s in
          Val (s\<lparr>oldnames := (oldnames s)[n := Some a2], newnames := (newnames s)[n := Some a1], lsh_num_newnames := n + 1\<rparr>))
   | _ \<Rightarrow> Val (say (Say ''Two arguments required'') s))"

definition name_pairs :: "lsh \<Rightarrow> (string \<times> string) list" where
  "name_pairs s = map (\<lambda>i. (chars (the (newnames s ! i)), chars (the (oldnames s ! i)))) [0..<lsh_num_newnames s]"

definition listnewnames :: "lsh \<Rightarrow> lsh" where
  "listnewnames s = say (Names (name_pairs s)) s"

text \<open>The names are formats of \<^verbatim>\<open>fprintf\<close>: one that holds a percent sign reads arguments that are not there.\<close>

definition savenewnames :: "henv \<Rightarrow> ptr list \<Rightarrow> lsh \<Rightarrow> lsh result" where
  "savenewnames E args s = (case arg args 1 of
     None \<Rightarrow> Val (say (Say ''Argument is empty'') s)
   | Some a \<Rightarrow>
       if \<not> writable E (chars a) then Crash ''fopen''
       else if \<exists>p\<in>set (name_pairs s). CHR ''%'' \<in> set (fst p @ snd p) then Crash ''format''
       else Val (s\<lparr>disk := (disk s)(chars a \<mapsto> concat (map (\<lambda>(n, m). n @ '' '' @ m @ [CHR 0x0A]) (name_pairs s)))\<rparr>))"

text \<open>\<^verbatim>\<open>fgets\<close> into a buffer of 100 bytes: the text read and the rest, or nothing at the end of the file.\<close>

definition fgets100 :: "string \<Rightarrow> (string \<times> string) option" where
  "fgets100 s = (if s = [] then None else
     let w = takeWhile (\<lambda>c. c \<noteq> CHR 0x0A) s; k = min 99 (if length w < length s then length w + 1 else length w) in
     Some (take k s, drop k s))"

text \<open>The lines are echoed only; \<open>b\<close> is the buffer, undefined at first.\<close>

fun echo_lines :: "nat \<Rightarrow> string option \<Rightarrow> string \<Rightarrow> string list result" where
  "echo_lines 0 b s = Val []"
| "echo_lines (Suc n) b s =
     (let (b, s) = (case fgets100 s of None \<Rightarrow> (b, s) | Some (l, r) \<Rightarrow> (Some l, r)) in
      case b of None \<Rightarrow> Crash ''buffer''
      | Some l \<Rightarrow> if CHR ''%'' \<in> set l then Crash ''format''
          else (case echo_lines n b s of Val ls \<Rightarrow> Val (l # ls) | r \<Rightarrow> r))"

definition readnewnames :: "ptr list \<Rightarrow> lsh \<Rightarrow> lsh result" where
  "readnewnames args s = (case arg args 1 of
     None \<Rightarrow> Val (say (Say ''Argument is empty'') s)
   | Some a \<Rightarrow> (case disk s (chars a) of None \<Rightarrow> Crash ''fopen''
       | Some t \<Rightarrow> (case echo_lines (lsh_num_newnames s) None t of
           Val ls \<Rightarrow> Val (s\<lparr>out := out s @ map Echo ls\<rparr>) | Crash e \<Rightarrow> Crash e | Exhausted \<Rightarrow> Exhausted)))"

definition lsh_cd :: "henv \<Rightarrow> ptr list \<Rightarrow> lsh \<Rightarrow> lsh" where
  "lsh_cd E args s = (case arg args 1 of
     None \<Rightarrow> say (Say ''expected argument to cd'') s
   | Some a \<Rightarrow> say (ChangeDir (chars a) (chdir_ok E (chars a))) s)"

section \<open>Executing a command\<close>

definition builtin_str :: "string list" where
  "builtin_str = [''cd'', ''help'', ''stop'', ''setshellname'', ''setterminator'', ''newname'', ''listnewnames'',
     ''savenewnames'', ''readnewnames'']"

definition lsh_help :: "lsh \<Rightarrow> lsh" where
  "lsh_help s = s\<lparr>out := out s @ [Say (''Stephen Brennan'' @ [CHR 0x27] @ ''s LSH''), Say ''Type program names and arguments, and hit enter.'',
     Say ''The following are built in:''] @ map Say builtin_str @ [Say ''Use the man command for information on other programs.'']\<rparr>"

definition lsh_launch :: "ptr list \<Rightarrow> lsh \<Rightarrow> lsh" where
  "lsh_launch args s = say (Launch (map chars args)) s"

text \<open>The first word is looked up in the table, entry after entry, each time with what the last match made of it.\<close>

definition resolve :: "lsh \<Rightarrow> ptr \<Rightarrow> ptr" where
  "resolve s a = fold (\<lambda>i a. if map_option chars (newnames s ! i) = Some (chars a) then the (oldnames s ! i) else a)
     [0..<lsh_num_newnames s] a"

definition builtin_func :: "henv \<Rightarrow> string \<Rightarrow> ptr list \<Rightarrow> lsh \<Rightarrow> (bool \<times> lsh) result option" where
  "builtin_func E b args s =
     (let cont = (\<lambda>r. case r of Val s \<Rightarrow> Val (True, s) | Crash e \<Rightarrow> Crash e | Exhausted \<Rightarrow> Exhausted) in
      if b = ''cd'' then Some (Val (True, lsh_cd E args s))
      else if b = ''help'' then Some (Val (True, lsh_help s))
      else if b = ''stop'' then Some (Val (False, s))
      else if b = ''setshellname'' then Some (Val (True, setshellname args s))
      else if b = ''setterminator'' then Some (Val (True, setterminator args s))
      else if b = ''newname'' then Some (cont (newname args s))
      else if b = ''listnewnames'' then Some (Val (True, listnewnames s))
      else if b = ''savenewnames'' then Some (cont (savenewnames E args s))
      else if b = ''readnewnames'' then Some (cont (readnewnames args s))
      else None)"

definition lsh_execute :: "henv \<Rightarrow> ptr list \<Rightarrow> lsh \<Rightarrow> (bool \<times> lsh) result" where
  "lsh_execute E args s = (case args of [] \<Rightarrow> Val (True, s)
   | a # rest \<Rightarrow> let args = resolve s a # rest in
       (case builtin_func E (chars (hd args)) args s of Some r \<Rightarrow> r | None \<Rightarrow> Val (True, lsh_launch args s)))"

section \<open>The loop\<close>

text \<open>\<open>ln\<close> numbers the lines.  The loop ends when a command says so, and goes on at the end of the input.\<close>

definition lsh_turn :: "henv \<Rightarrow> nat \<Rightarrow> string \<Rightarrow> lsh \<Rightarrow> (bool \<times> lsh \<times> string) result" where
  "lsh_turn E ln inp s =
     (let s = say (Prompt (shellname s) (terminator s)) s in
      case lsh_read_line E inp of Crash e \<Rightarrow> Crash e | Exhausted \<Rightarrow> Exhausted
      | Val (line, rest) \<Rightarrow> (case lsh_split_line E ln line of Crash e \<Rightarrow> Crash e | Exhausted \<Rightarrow> Exhausted
        | Val args \<Rightarrow> (case lsh_execute E args s of Crash e \<Rightarrow> Crash e | Exhausted \<Rightarrow> Exhausted
          | Val (again, s) \<Rightarrow> Val (again, s, rest))))"

partial_function (option) lsh_loop :: "henv \<Rightarrow> nat \<Rightarrow> string \<Rightarrow> lsh \<Rightarrow> lsh result option" where
  "lsh_loop E ln inp s = (case lsh_turn E ln inp s of Crash e \<Rightarrow> Some (Crash e) | Exhausted \<Rightarrow> Some Exhausted
     | Val (again, s, rest) \<Rightarrow> if again then lsh_loop E (ln + 1) rest s else Some (Val s))"

section \<open>Lines and words\<close>

abbreviation memory :: "henv \<Rightarrow> bool" where "memory E \<equiv> (\<forall>n. alloc E n)"

text \<open>The longest line that fits before the size of the buffer overflows.\<close>

definition line_max :: nat where "line_max = INT_MAX + 1 - LSH_RL_BUFSIZE"

lemma line_max_eq: "line_max = 2147482624"
  by (simp add: line_max_def INT_MAX_def LSH_RL_BUFSIZE_def)

lemma line_loop_ok:
  "memory E \<Longrightarrow> length buf < n \<Longrightarrow> length buf + length (takeWhile (\<lambda>c. c \<noteq> CHR 0x0A) inp) < line_max \<Longrightarrow> line_loop E n buf inp =
     Val (buf @ takeWhile (\<lambda>c. c \<noteq> CHR 0x0A) inp, drop (length (takeWhile (\<lambda>c. c \<noteq> CHR 0x0A) inp) + 1) inp)"
  by (induction E n buf inp rule: line_loop.induct) (auto simp: Let_def LSH_RL_BUFSIZE_def INT_MAX_def line_max_eq split: if_splits)

lemma line_loop_overflow:
  "memory E \<Longrightarrow> length buf < n \<Longrightarrow> n mod LSH_RL_BUFSIZE = 0 \<Longrightarrow> n \<le> line_max \<Longrightarrow>
   line_max \<le> length buf + length (takeWhile (\<lambda>c. c \<noteq> CHR 0x0A) inp) \<Longrightarrow> line_loop E n buf inp = Crash ''bufsize''"
proof (induction E n buf inp rule: line_loop.induct)
  case (2 E n buf c cs)
  have c: "c \<noteq> CHR 0x0A" using "2.prems"(2,4,5) by (auto split: if_splits)
  show ?case
  proof (cases "length (buf @ [c]) \<ge> n")
    case False
    then show ?thesis using 2 c by (simp add: Let_def)
  next
    case True
    show ?thesis
    proof (cases "n = line_max")
      case True
      then show ?thesis using c "2.prems"(2) \<open>length (buf @ [c]) \<ge> n\<close> by (simp add: Let_def line_max_eq INT_MAX_def LSH_RL_BUFSIZE_def)
    next
      case False
      have "n + LSH_RL_BUFSIZE \<le> line_max"
      proof -
        obtain q where q: "n = LSH_RL_BUFSIZE * q" using "2.prems"(3) by (auto simp: mod_eq_0_iff_dvd)
        have "line_max = LSH_RL_BUFSIZE * 2097151" by (simp add: line_max_eq LSH_RL_BUFSIZE_def)
        then have "q < 2097151" using q False "2.prems"(4) by (simp add: LSH_RL_BUFSIZE_def)
        then show ?thesis using q by (simp add: LSH_RL_BUFSIZE_def line_max_eq)
      qed
      moreover have "Suc (length buf) < n + LSH_RL_BUFSIZE" using "2.prems"(2) by (simp add: LSH_RL_BUFSIZE_def)
      ultimately show ?thesis using "2.IH"(1) 2 c True by (simp add: Let_def line_max_eq INT_MAX_def)
    qed
  qed
qed (simp add: line_max_eq)

lemma lsh_read_line_ok:
  "memory E \<Longrightarrow> length (takeWhile (\<lambda>c. c \<noteq> CHR 0x0A) inp) < line_max \<Longrightarrow> lsh_read_line E inp =
     Val (takeWhile (\<lambda>c. c \<noteq> CHR 0x0A) inp, drop (length (takeWhile (\<lambda>c. c \<noteq> CHR 0x0A) inp) + 1) inp)"
  using line_loop_ok [of E "[]" LSH_RL_BUFSIZE inp] by (simp add: lsh_read_line_def LSH_RL_BUFSIZE_def)

text \<open>The pieces between the delimiters, empty ones included.\<close>

fun pieces :: "string \<Rightarrow> string list" where
  "pieces [] = [[]]"
| "pieces (c # cs) = (if c \<in> set LSH_TOK_DELIM then [] # pieces cs else (c # hd (pieces cs)) # tl (pieces cs))"

abbreviation lsh_words :: "string \<Rightarrow> string list" where
  "lsh_words s \<equiv> filter (\<lambda>w. w \<noteq> []) (pieces s)"

lemma pieces_nonempty [simp]: "pieces s \<noteq> []"
  by (cases s) auto

lemma pieces_token:
  assumes "\<forall>c\<in>set w. c \<notin> set LSH_TOK_DELIM"
  shows "pieces w = [w]" "d \<in> set LSH_TOK_DELIM \<Longrightarrow> pieces (w @ d # t) = w # pieces t"
  using assms by (induction w) auto

lemma words_skip: "\<forall>c\<in>set ds. c \<in> set LSH_TOK_DELIM \<Longrightarrow> lsh_words (ds @ t) = lsh_words t"
  by (induction ds) auto

lemma dropWhile_head: "dropWhile P s = [] \<or> (\<exists>c cs. dropWhile P s = c # cs \<and> \<not> P c)"
  by (induction s) auto

text \<open>One call of \<^verbatim>\<open>strtok\<close>: delimiters, then the token, then the rest behind its delimiter.\<close>

lemma strtok_None: "strtok k s = None \<longleftrightarrow> lsh_words s = []"
proof -
  let ?p = "\<lambda>c. c \<in> set LSH_TOK_DELIM"
  let ?t = "dropWhile ?p s"
  have w: "lsh_words s = lsh_words ?t" using words_skip [of "takeWhile ?p s" ?t] set_takeWhileD [of _ ?p s] by (metis takeWhile_dropWhile_id)
  have "lsh_words ?t \<noteq> []" if ne: "?t \<noteq> []"
  proof -
    obtain c cs where "?t = c # cs" "\<not> ?p c" using ne dropWhile_head [of ?p s] by blast
    then show ?thesis by (simp only: pieces.simps) simp
  qed
  moreover have "strtok k s = None \<longleftrightarrow> ?t = []" by (simp only: strtok_def Let_def split: if_splits) simp
  moreover have "lsh_words [] = []" by simp
  ultimately show ?thesis using w by metis
qed

lemma strtok_Some:
  assumes "strtok k s = Some ((j, w), k', t)"
  shows "lsh_words s = w # lsh_words t" "k \<le> j" "take (length w) (drop (j - k) s) = w" "k' = j + length w + 1" "t = drop (k' - k) s"
proof -
  let ?p = "\<lambda>c. c \<in> set LSH_TOK_DELIM"
  define u ds where "u = dropWhile ?p s" and "ds = takeWhile ?p s"
  have s: "s = ds @ u" "length s - length u = length ds" by (simp add: u_def ds_def, metis add_diff_cancel_right' ds_def length_append takeWhile_dropWhile_id u_def)
  have r: "u \<noteq> []" "j = k + length ds" "w = takeWhile (\<lambda>c. \<not> ?p c) u" "k' = j + length w + 1" "t = drop (length w + 1) u"
    using assms s(2) by (auto simp: strtok_def Let_def u_def split: if_splits)
  have u: "u = w @ dropWhile (\<lambda>c. \<not> ?p c) u" by (simp add: r(3))
  have nd: "\<forall>c\<in>set w. c \<notin> set LSH_TOK_DELIM" using r(3) by (auto dest: set_takeWhileD)
  have wne: "w \<noteq> []" using r(1,3) dropWhile_head [of ?p s, folded u_def] by auto
  have "lsh_words u = w # lsh_words t"
  proof (cases "dropWhile (\<lambda>c. \<not> ?p c) u")
    case Nil
    then have "u = w" using u by (metis append_Nil2)
    then have "u = w" "t = []" using r(5) by simp_all
    then show ?thesis using pieces_token(1) [OF nd] wne by simp
  next
    case (Cons d v)
    then have uw: "u = w @ d # v" using u by metis
    then have "t = v" using r(5) by simp
    moreover have "?p d" using dropWhile_head [of "\<lambda>c. \<not> ?p c" u] unfolding Cons by simp
    ultimately show ?thesis using uw pieces_token(2) [OF nd] wne by simp
  qed
  moreover have "lsh_words s = lsh_words u" unfolding s(1) by (rule words_skip) (auto simp: ds_def dest: set_takeWhileD)
  ultimately show "lsh_words s = w # lsh_words t" by simp
  show "k \<le> j" "k' = j + length w + 1" using r by simp_all
  show "take (length w) (drop (j - k) s) = w" using r(2) s(1) u by (metis add_diff_cancel_left' append_eq_conv_conj)
  show "t = drop (k' - k) s" using r s(1) by simp
qed

text \<open>A pointer into line \<open>ln\<close>, whose text from offset \<open>k\<close> on is \<open>s\<close>.\<close>

definition points :: "nat \<Rightarrow> nat \<Rightarrow> string \<Rightarrow> ptr \<Rightarrow> bool" where
  "points ln k s a \<longleftrightarrow> fst (fst a) = ln \<and> k \<le> snd (fst a) \<and> take (length (chars a)) (drop (snd (fst a) - k) s) = chars a"

lemma points_later: "points ln k' (drop (k' - k) s) a \<Longrightarrow> k \<le> k' \<Longrightarrow> points ln k s a"
  by (auto simp: points_def)

lemma split_loop_ok:
  "memory E \<Longrightarrow> length ts < n \<Longrightarrow> length ts + length s < line_max \<Longrightarrow>
     \<exists>us. split_loop E ln n ts k s = Val (ts @ us) \<and> map chars us = lsh_words s \<and> (\<forall>a\<in>set us. points ln k s a)"
proof (induction E ln n ts k s rule: split_loop.induct)
  case (1 E ln n ts k s)
  show ?case
  proof (cases "strtok k s")
    case None
    then show ?thesis using "1.prems"(2) strtok_None [of k s] by (subst split_loop.simps) auto
  next
    case (Some x)
    obtain j w k' t where x: "x = ((j, w), k', t)" by (metis surj_pair)
    note S = Some [unfolded x] and T = strtok_Some [OF Some [unfolded x]]
    let ?ts = "ts @ [((ln, j), w)]" and ?n = "if length ts + 1 \<ge> n then n + LSH_TOK_BUFSIZE else n"
    have g: "length ts < n" by (rule "1.prems"(2))
    have sh: "length ?ts + length t < line_max" using "1.prems"(3) strtok_shorter [OF S] by simp
    have b: "\<not> INT_MAX < n + LSH_TOK_BUFSIZE" if "length ts + 1 \<ge> n"
      using "1.prems"(3) that by (simp add: line_max_eq INT_MAX_def LSH_TOK_BUFSIZE_def)
    have "\<exists>us. split_loop E ln ?n ?ts k' t = Val (?ts @ us) \<and> map chars us = lsh_words t \<and> (\<forall>a\<in>set us. points ln k' t a)"
      using "1.IH"(1) [OF _ S refl refl refl refl _ refl] "1.IH"(2) [OF _ S refl refl refl refl] "1.prems" sh b by (auto simp: LSH_TOK_BUFSIZE_def)
    then obtain us where us: "split_loop E ln ?n ?ts k' t = Val (?ts @ us)" "map chars us = lsh_words t" "\<forall>a\<in>set us. points ln k' t a" by blast
    have "split_loop E ln n ts k s = Val (ts @ ((ln, j), w) # us)"
      using us(1) S g b "1.prems"(1) by (subst split_loop.simps) (auto simp: Let_def split: if_splits)
    moreover have "points ln k s a" if "a \<in> set us" for a
      using us(3) that T(4,5) T(2) points_later [of ln k' k s a] by auto
    moreover have "points ln k s ((ln, j), w)" using T(2,3) by (simp add: points_def)
    ultimately show ?thesis using us(2) T(1) by (intro exI [of _ "((ln, j), w) # us"]) auto
  qed
qed

definition lsh_args :: "henv \<Rightarrow> nat \<Rightarrow> string \<Rightarrow> ptr list" where
  "lsh_args E ln line = (case lsh_split_line E ln line of Val as \<Rightarrow> as | _ \<Rightarrow> [])"

lemma lsh_split_line_ok:
  assumes "memory E" "CHR 0x00 \<notin> set line" "length line < line_max"
  shows "lsh_split_line E ln line = Val (lsh_args E ln line)" "map chars (lsh_args E ln line) = lsh_words line"
    "a \<in> set (lsh_args E ln line) \<Longrightarrow> points ln 0 line a"
proof -
  have "takeWhile (\<lambda>c. c \<noteq> CHR 0x00) line = line" using assms(2) by (induction line) auto
  then obtain us where "lsh_split_line E ln line = Val us" "map chars us = lsh_words line" "\<forall>a\<in>set us. points ln 0 line a"
    using split_loop_ok [OF assms(1), of "[]" LSH_TOK_BUFSIZE line ln 0] assms(1,3) by (auto simp: lsh_split_line_def LSH_TOK_BUFSIZE_def)
  then show "lsh_split_line E ln line = Val (lsh_args E ln line)" "map chars (lsh_args E ln line) = lsh_words line"
    "a \<in> set (lsh_args E ln line) \<Longrightarrow> points ln 0 line a" by (simp_all add: lsh_args_def)
qed

section \<open>The loop, line by line\<close>

text \<open>What the shell does with the lines it is given; \<open>None\<close> when they do not stop it.\<close>

primrec lsh_lines :: "henv \<Rightarrow> string list \<Rightarrow> nat \<Rightarrow> lsh \<Rightarrow> lsh result option" where
  "lsh_lines E [] ln s = None"
| "lsh_lines E (l # ls) ln s =
     (let s = say (Prompt (shellname s) (terminator s)) s in
      case lsh_execute E (lsh_args E ln l) s of Crash e \<Rightarrow> Some (Crash e) | Exhausted \<Rightarrow> Some Exhausted
      | Val (again, s) \<Rightarrow> if again then lsh_lines E ls (ln + 1) s else Some (Val s))"

definition lsh_text :: "string \<Rightarrow> bool" where
  "lsh_text l \<longleftrightarrow> set l \<inter> {CHR 0x00, CHR 0x0A} = {} \<and> length l < line_max"

lemma lsh_turn_line:
  assumes "memory E" "lsh_text l"
  shows "lsh_turn E ln (l @ CHR 0x0A # rest) s =
    (case lsh_execute E (lsh_args E ln l) (say (Prompt (shellname s) (terminator s)) s) of Crash e \<Rightarrow> Crash e | Exhausted \<Rightarrow> Exhausted
     | Val (again, s) \<Rightarrow> Val (again, s, rest))"
proof -
  have "takeWhile (\<lambda>c. c \<noteq> CHR 0x0A) (l @ CHR 0x0A # rest) = l" using assms(2) by (subst takeWhile_append2) (auto simp: lsh_text_def)
  then have "lsh_read_line E (l @ CHR 0x0A # rest) = Val (l, rest)" using lsh_read_line_ok [OF assms(1)] assms(2) by (simp add: lsh_text_def)
  then show ?thesis using lsh_split_line_ok(1) [OF assms(1), of l ln] assms(2) by (simp add: lsh_turn_def Let_def lsh_text_def)
qed

text \<open>At the end of the input every turn is an empty command.\<close>

lemma lsh_turn_eof: "memory E \<Longrightarrow> lsh_turn E ln [] s = Val (True, say (Prompt (shellname s) (terminator s)) s, [])"
proof -
  assume E: "memory E"
  have "lsh_args E ln [] = []" using lsh_split_line_ok(2) [OF E, of "[]" ln] by (simp add: line_max_eq)
  then show ?thesis using lsh_read_line_ok [OF E, of "[]"] lsh_split_line_ok(1) [OF E, of "[]" ln]
    by (simp add: line_max_eq lsh_turn_def lsh_execute_def Let_def)
qed

lemma lsh_loop_eof:
  assumes "memory E"
  shows "lsh_loop E ln [] s = None"
proof -
  have "memory E' \<longrightarrow> inp \<noteq> []" if "lsh_loop E' k inp u = Some r" for E' k inp u r
    using that
  proof (rule lsh_loop.raw_induct [where P = "\<lambda>E ln inp s r. memory E \<longrightarrow> inp \<noteq> []", rotated])
    fix f E ln inp s r
    assume ih: "\<And>E ln inp s r. f E ln inp s = Some r \<Longrightarrow> memory E \<longrightarrow> inp \<noteq> []"
      and r: "(case lsh_turn E ln inp s of Val (again, s, rest) \<Rightarrow> if again then f E (ln + 1) rest s else Some (Val s)
        | Crash e \<Rightarrow> Some (Crash e) | Exhausted \<Rightarrow> Some Exhausted) = Some r"
    show "memory E \<longrightarrow> inp \<noteq> []" using r lsh_turn_eof [of E ln s] by (auto dest: ih)
  qed
  then have "lsh_loop E ln [] s \<noteq> Some r" for r using assms by blast
  then show ?thesis by (cases "lsh_loop E ln [] s") blast+
qed

lemma lsh_loop_text:
  assumes "memory E" "\<forall>l\<in>set ls. lsh_text l"
  shows "lsh_loop E ln (concat (map (\<lambda>l. l @ [CHR 0x0A]) ls)) s = lsh_lines E ls ln s"
  using assms(2)
proof (induction ls arbitrary: ln s)
  case Nil
  then show ?case using lsh_loop_eof [OF assms(1)] by simp
next
  case (Cons l ls)
  have "concat (map (\<lambda>l. l @ [CHR 0x0A]) (l # ls)) = l @ CHR 0x0A # concat (map (\<lambda>l. l @ [CHR 0x0A]) ls)" by simp
  then show ?case using lsh_turn_line [OF assms(1), of l ln] Cons
    by (subst lsh_loop.simps) (auto simp: Let_def split: result.splits prod.splits)
qed

section \<open>The table of names\<close>

definition names_wf :: "nat \<Rightarrow> lsh \<Rightarrow> bool" where
  "names_wf ln s \<longleftrightarrow> length (newnames s) = 10 \<and> length (oldnames s) = 10 \<and> lsh_num_newnames s \<le> 10
     \<and> (\<forall>i<lsh_num_newnames s. \<exists>a b. newnames s ! i = Some a \<and> oldnames s ! i = Some b \<and> fst (fst b) < ln)
     \<and> (\<forall>i<10. lsh_num_newnames s \<le> i \<longrightarrow> oldnames s ! i = None)"

lemma names_wfD:
  assumes "names_wf ln s" "i < lsh_num_newnames s"
  obtains a b where "newnames s ! i = Some a" "oldnames s ! i = Some b" "fst (fst b) < ln"
  using assms unfolding names_wf_def by blast

lemma names_wf0: "names_wf ln (lsh0 fs)" "name_pairs (lsh0 fs) = []"
  by (simp_all add: names_wf_def lsh0_def name_pairs_def)

lemma say_names [simp]: "names_wf ln (say e s) = names_wf ln s" "name_pairs (say e s) = name_pairs s" "lsh_num_newnames (say e s) = lsh_num_newnames s"
  "newnames (say e s) = newnames s" "oldnames (say e s) = oldnames s"
  by (simp_all add: say_def names_wf_def name_pairs_def)

lemma name_index_new: "names_wf ln s \<Longrightarrow> ln \<le> fst (fst b) \<Longrightarrow> name_index b s = lsh_num_newnames s"
proof -
  assume a: "names_wf ln s" "ln \<le> fst (fst b)"
  have "map_option fst (oldnames s ! i) \<noteq> Some (fst b)" if il: "i < lsh_num_newnames s" for i
  proof -
    obtain x y where "oldnames s ! i = Some y" "fst (fst y) < ln" using names_wfD [OF a(1) il] by metis
    then show ?thesis using a(2) by (metis leD option.inject option.simps(9))
  qed
  then have "List.find (\<lambda>i. map_option fst (oldnames s ! i) = Some (fst b)) [0..<lsh_num_newnames s] = None" by (auto simp: find_None_iff)
  then show ?thesis by (simp add: name_index_def)
qed

lemma length_name_pairs [simp]: "length (name_pairs s) = lsh_num_newnames s"
  by (simp add: name_pairs_def)

lemma newname_full:
  assumes "names_wf ln s" "ln \<le> fst (fst b)" "lsh_num_newnames s = 10"
  shows "newname (c # a # b # rest) s = Crash ''oldnames''"
  using name_index_new [OF assms(1,2)] assms by (simp add: newname_def arg_def names_wf_def)

lemma newname_adds:
  assumes wf: "names_wf ln s" and b: "fst (fst b) = ln" and n: "lsh_num_newnames s < 10"
  obtains s' where "newname (c # a # b # rest) s = Val s'" "names_wf (ln + 1) s'" "name_pairs s' = name_pairs s @ [(chars a, chars b)]"
proof -
  let ?n = "lsh_num_newnames s"
  let ?s = "s\<lparr>oldnames := (oldnames s)[?n := Some b], newnames := (newnames s)[?n := Some a], lsh_num_newnames := ?n + 1\<rparr>"
  have len: "length (newnames s) = 10" "length (oldnames s) = 10" "oldnames s ! ?n = None" using wf n by (auto simp: names_wf_def)
  have "newname (c # a # b # rest) s = Val ?s"
    using name_index_new [OF wf, of b] b n len by (simp add: newname_def arg_def Let_def)
  moreover have "\<exists>x y. newnames ?s ! i = Some x \<and> oldnames ?s ! i = Some y \<and> fst (fst y) < ln + 1" if il: "i < ?n + 1" for i
  proof (cases "i = ?n")
    case False
    then obtain x y where "newnames s ! i = Some x" "oldnames s ! i = Some y" "fst (fst y) < ln" using names_wfD [OF wf, of i] il by (metis Suc_eq_plus1 less_SucE)
    then show ?thesis using False by auto
  qed (use b n len in auto)
  then have "names_wf (ln + 1) ?s" using wf n len by (auto simp: names_wf_def)
  moreover have "name_pairs ?s = name_pairs s @ [(chars a, chars b)]"
    by (rule nth_equalityI) (use n len in \<open>auto simp: name_pairs_def nth_append less_Suc_eq simp del: upt_Suc\<close>)
  ultimately show thesis using that by blast
qed

lemma resolve_other:
  assumes "names_wf ln s" "chars p \<notin> fst ` set (name_pairs s)"
  shows "resolve s p = p"
proof -
  have ne: "map_option chars (newnames s ! i) \<noteq> Some (chars p)" if "i < lsh_num_newnames s" for i
  proof -
    obtain a where "newnames s ! i = Some a" using assms(1) \<open>i < lsh_num_newnames s\<close> by (auto simp: names_wf_def)
    moreover have "chars (the (newnames s ! i)) \<in> fst ` set (name_pairs s)" using that by (force simp: name_pairs_def)
    ultimately show ?thesis using assms(2) by (metis option.sel option.simps(9))
  qed
  have "fold (\<lambda>i a. if map_option chars (newnames s ! i) = Some (chars a) then the (oldnames s ! i) else a) is p = p"
    if "\<forall>i\<in>set is. i < lsh_num_newnames s" for "is"
    using that ne by (induction "is") auto
  then show ?thesis by (simp add: resolve_def)
qed

text \<open>A line that gives a command a second name.\<close>

definition name_line :: "string \<times> string \<Rightarrow> string" where
  "name_line p = ''newname '' @ fst p @ '' '' @ snd p"

definition lsh_word :: "string \<Rightarrow> bool" where
  "lsh_word w \<longleftrightarrow> w \<noteq> [] \<and> set w \<inter> set LSH_TOK_DELIM = {} \<and> CHR 0x00 \<notin> set w"

definition name_ok :: "string \<times> string \<Rightarrow> bool" where
  "name_ok p \<longleftrightarrow> lsh_word (fst p) \<and> lsh_word (snd p) \<and> fst p \<noteq> ''newname''
     \<and> length (name_line p) < line_max"

lemma name_line_words:
  assumes "name_ok p"
  shows "lsh_words (name_line p) = [''newname'', fst p, snd p]" "lsh_text (name_line p)"
proof -
  have w: "\<forall>c\<in>set (fst p). c \<notin> set LSH_TOK_DELIM" "\<forall>c\<in>set (snd p). c \<notin> set LSH_TOK_DELIM" "fst p \<noteq> []" "snd p \<noteq> []"
    using assms by (auto simp: name_ok_def lsh_word_def)
  have sp: "CHR 0x20 \<in> set LSH_TOK_DELIM" and kw: "\<forall>c\<in>set ''newname''. c \<notin> set LSH_TOK_DELIM" by (simp_all add: LSH_TOK_DELIM_def)
  have "name_line p = ''newname'' @ CHR 0x20 # (fst p @ CHR 0x20 # snd p)" by (simp add: name_line_def)
  then have "pieces (name_line p) = [''newname'', fst p, snd p]"
    using pieces_token(2) [OF kw sp, of "fst p @ CHR 0x20 # snd p"] pieces_token(2) [OF w(1) sp, of "snd p"] pieces_token(1) [OF w(2)] by simp
  then show "lsh_words (name_line p) = [''newname'', fst p, snd p]" using w by simp
  show "lsh_text (name_line p)" using assms by (auto simp: lsh_text_def name_line_def name_ok_def lsh_word_def LSH_TOK_DELIM_def)
qed

lemma name_line_executed:
  assumes E: "memory E" and p: "name_ok p" and wf: "names_wf ln s" and nn: "''newname'' \<notin> fst ` set (name_pairs s)"
  shows "lsh_num_newnames s = 10 \<Longrightarrow> lsh_execute E (lsh_args E ln (name_line p)) s = Crash ''oldnames''"
    and "lsh_num_newnames s < 10 \<Longrightarrow> \<exists>s'. lsh_execute E (lsh_args E ln (name_line p)) s = Val (True, s') \<and> names_wf (ln + 1) s'
      \<and> name_pairs s' = name_pairs s @ [p]"
proof -
  note N = name_line_words [OF p]
  have z: "CHR 0x00 \<notin> set (name_line p)" "length (name_line p) < line_max" using N(2) by (auto simp: lsh_text_def)
  have "map chars (lsh_args E ln (name_line p)) = [''newname'', fst p, snd p]" using lsh_split_line_ok(2) [OF E z] N(1) by simp
  then obtain c a b where as: "lsh_args E ln (name_line p) = [c, a, b]" "chars c = ''newname''" "chars a = fst p" "chars b = snd p" by auto
  have b: "fst (fst b) = ln" using lsh_split_line_ok(3) [OF E z, of b ln] as(1) by (simp add: points_def)
  have "resolve s c = c" using resolve_other [OF wf] nn as(2) by simp
  then have ex: "lsh_execute E (lsh_args E ln (name_line p)) s
      = (case newname [c, a, b] s of Val s \<Rightarrow> Val (True, s) | Crash e \<Rightarrow> Crash e | Exhausted \<Rightarrow> Exhausted)"
    using as by (simp add: lsh_execute_def builtin_func_def Let_def)
  show "lsh_num_newnames s = 10 \<Longrightarrow> lsh_execute E (lsh_args E ln (name_line p)) s = Crash ''oldnames''"
    using newname_full [OF wf, of b c a "[]"] b ex by simp
  show "\<exists>s'. lsh_execute E (lsh_args E ln (name_line p)) s = Val (True, s') \<and> names_wf (ln + 1) s' \<and> name_pairs s' = name_pairs s @ [p]"
    if "lsh_num_newnames s < 10"
    using newname_adds [OF wf b that, of c a "[]"] ex as(3,4) by force
qed

lemma names_session:
  assumes E: "memory E"
  shows "names_wf ln s \<Longrightarrow> ''newname'' \<notin> fst ` set (name_pairs s) \<Longrightarrow> \<forall>p\<in>set ps. name_ok p \<Longrightarrow>
    (if lsh_num_newnames s + length ps \<le> 10
     then \<exists>s'. lsh_lines E (map name_line ps @ ls) ln s = lsh_lines E ls (ln + length ps) s' \<and> names_wf (ln + length ps) s' \<and> name_pairs s' = name_pairs s @ ps
     else lsh_lines E (map name_line ps @ ls) ln s = Some (Crash ''oldnames''))"
proof (induction ps arbitrary: ln s)
  case Nil
  then show ?case by (auto simp: names_wf_def)
next
  case (Cons p ps)
  let ?s = "say (Prompt (shellname s) (terminator s)) s"
  have wf: "names_wf ln ?s" "''newname'' \<notin> fst ` set (name_pairs ?s)" "name_ok p" using Cons.prems by simp_all
  show ?case
  proof (cases "lsh_num_newnames s < 10")
    case True
    then obtain s' where s': "lsh_execute E (lsh_args E ln (name_line p)) ?s = Val (True, s')" "names_wf (ln + 1) s'" "name_pairs s' = name_pairs s @ [p]"
      using name_line_executed(2) [OF E wf(3,1,2)] by auto
    have n: "lsh_num_newnames s' = lsh_num_newnames s + 1" using arg_cong [OF s'(3), of length] by simp
    have "''newname'' \<notin> fst ` set (name_pairs s')" using s'(3) Cons.prems(2) wf(3) by (auto simp: name_ok_def)
    from Cons.IH [OF s'(2) this] Cons.prems(3) show ?thesis using s'(1,3) n by (auto simp: Let_def split: if_splits)
  next
    case False
    then have "lsh_num_newnames s = 10" using Cons.prems(1) by (simp add: names_wf_def)
    then show ?thesis using name_line_executed(1) [OF E wf(3,1,2)] by (simp add: Let_def)
  qed
qed

section \<open>Properties\<close>

text \<open>
  C35: the shell works line by line.  With memory to be had, every line of fewer than \<open>2^31 - 1024\<close> characters, whatever the
  number of its words, is read in full and executed with exactly its words, the maximal runs of characters other than the delimiters; the
  loop ends at the first line that stops or crashes it, and when the input ends before, it never returns.
\<close>

theorem lsh_loop_session:
  assumes "memory E" "\<forall>l\<in>set ls. lsh_text l"
  shows "lsh_loop E 0 (concat (map (\<lambda>l. l @ [CHR 0x0A]) ls)) s = lsh_lines E ls 0 s
    \<and> (\<forall>l\<in>set ls. \<forall>k. map chars (lsh_args E k l) = lsh_words l)"
proof -
  have "map chars (lsh_args E k l) = lsh_words l" if "l \<in> set ls" for k l
    using lsh_split_line_ok(2) [OF assms(1), of l k] assms(2) that by (auto simp: lsh_text_def)
  then show ?thesis using lsh_loop_text [OF assms] by simp
qed

definition demo_host :: henv where
  "demo_host = \<lparr>alloc = \<lambda>_. True, chdir_ok = \<lambda>_. True, writable = \<lambda>_. True\<rparr>"

theorem lsh_loop_session_witness:
  "lsh_loop demo_host 0 (''x'' @ [CHR 0x0A]) (lsh0 Map.empty) = None \<and> (\<exists>s. lsh_loop demo_host 0 ('' stop  now'' @ [CHR 0x0A]) (lsh0 Map.empty) = Some (Val s))"
proof -
  have a: "lsh_args demo_host 0 ''x'' = [((0, 0), ''x'')]" "lsh_args demo_host 0 '' stop  now'' = [((0, 1), ''stop''), ((0, 7), ''now'')]" by code_simp+
  have m: "memory demo_host" by (simp add: demo_host_def)
  have r: "resolve (say e (lsh0 Map.empty)) p = p" for e p by (simp add: resolve_def lsh0_def)
  show ?thesis
    using lsh_loop_session [OF m, of "[''x'']" "lsh0 Map.empty"] lsh_loop_session [OF m, of "['' stop  now'']" "lsh0 Map.empty"]
    by (simp add: lsh_text_def line_max_eq a r lsh_execute_def builtin_func_def Let_def)
qed

text \<open>A longer line overflows the size of the buffer.\<close>

theorem lsh_line_overflow:
  assumes "memory E" "line_max \<le> length l" "CHR 0x0A \<notin> set l"
  shows "lsh_read_line E (l @ rest) = Crash ''bufsize''"
proof -
  have "length l \<le> length (takeWhile (\<lambda>c. c \<noteq> CHR 0x0A) (l @ rest))" using assms(3) by (subst takeWhile_append2) auto
  then show ?thesis using line_loop_overflow [OF assms(1), of "[]" LSH_RL_BUFSIZE "l @ rest"] assms(1,2)
    by (simp add: lsh_read_line_def LSH_RL_BUFSIZE_def line_max_eq)
qed

text \<open>
  C36: the table of new names is append-only.  Whatever names are given, on lines the shell can read in full, the same
  old name again included, up to
  ten \<^verbatim>\<open>newname\<close> commands each add an entry, in order, and the eleventh indexes behind the arrays: the comparison
  meant to find an old name to replace compares pointers into different lines.
\<close>

theorem lsh_names_append_only:
  assumes "memory E" "\<forall>p\<in>set ps. name_ok p" "\<forall>l\<in>set ls. lsh_text l"
  shows "let r = lsh_loop E 0 (concat (map (\<lambda>l. l @ [CHR 0x0A]) (map name_line ps @ ls))) (lsh0 fs) in
    if length ps \<le> 10 then \<exists>s. r = lsh_lines E ls (length ps) s \<and> name_pairs s = ps else r = Some (Crash ''oldnames'')"
proof -
  have "\<forall>l\<in>set (map name_line ps @ ls). lsh_text l" using assms(2,3) name_line_words(2) by auto
  from lsh_loop_text [OF assms(1) this, of 0 "lsh0 fs"] show ?thesis
    using names_session [OF assms(1) names_wf0(1), of fs ps ls 0] assms(2) names_wf0(2) [of fs]
    by (auto simp: Let_def lsh0_def split: if_splits)
qed

theorem lsh_names_append_only_witness:
  "lsh_loop demo_host 0 (concat (map (\<lambda>l. l @ [CHR 0x0A]) (map name_line (replicate 11 (''l'', ''ls''))))) (lsh0 Map.empty) = Some (Crash ''oldnames'')"
  using lsh_names_append_only [of demo_host "replicate 11 (''l'', ''ls'')" "[]" Map.empty]
  by (simp add: demo_host_def name_ok_def lsh_word_def LSH_TOK_DELIM_def Let_def line_max_eq name_line_def)

end
