(* ===== verification/Firstsets.thy ===== *)
theory Firstsets
  imports Kprelude
begin

text \<open>
  The FIRST sets of \<^verbatim>\<open>src/ComplierClass/FFLR.cpp\<close> and of its predecessor \<^verbatim>\<open>Firstfollow.cpp\<close>: reading a grammar and the
  fixed point iteration \<^verbatim>\<open>first\<close>.  A \<^verbatim>\<open>map\<close> of the source that is indexed with a key it does not hold gives an empty
  value, so maps are functions.  The productions of a symbol are one string with its alternatives between bars.
  \<^verbatim>\<open>first\<close> may not end, so its loops have results of type \<open>option\<close>.
\<close>

section \<open>The grammar\<close>

record grammar =
  terminals :: "char list"
  nonterminals :: "char list"
  productions :: "char \<Rightarrow> string"

definition islower :: "char \<Rightarrow> bool" where
  "islower c \<longleftrightarrow> (of_char (CHR ''a'') :: nat) \<le> of_char c \<and> (of_char c :: nat) \<le> of_char (CHR ''z'')"

definition isupper :: "char \<Rightarrow> bool" where
  "isupper c \<longleftrightarrow> (of_char (CHR ''A'') :: nat) \<le> of_char c \<and> (of_char c :: nat) \<le> of_char (CHR ''Z'')"

text \<open>One turn of the reading loop of \<^verbatim>\<open>Firstfollow.cpp\<close>; \<^verbatim>\<open>substr\<close> throws when the line is too short.\<close>

definition read_rule :: "string \<Rightarrow> grammar \<Rightarrow> grammar option" where
  "read_rule line g =
     (let val = (case line of [] \<Rightarrow> CHR 0x00 | c # _ \<Rightarrow> c);
          g = (if islower val \<or> val \<in> set ''+*()'' then g\<lparr>terminals := terminals g @ [val]\<rparr> else g) in
      if \<not> isupper val then Some g else
      let g = (if val \<in> set (nonterminals g) then g else g\<lparr>nonterminals := nonterminals g @ [val]\<rparr>) in
      if length line < 3 then None else
      let rhs = drop 3 line; old = productions g val in
      Some (g\<lparr>productions := (productions g)(val := if old = [] then rhs else old @ ''|'' @ rhs)\<rparr>))"

fun read_rules :: "string list \<Rightarrow> grammar \<Rightarrow> grammar option" where
  "read_rules [] g = Some g"
| "read_rules (l # ls) g = (case read_rule l g of None \<Rightarrow> None | Some g \<Rightarrow> read_rules ls g)"

definition read_grammar :: "string list \<Rightarrow> grammar option" where
  "read_grammar ls = read_rules ls \<lparr>terminals = [], nonterminals = [], productions = \<lambda>_. []\<rparr>"

definition isTerminal :: "grammar \<Rightarrow> char \<Rightarrow> bool" where
  "isTerminal g c \<longleftrightarrow> c = CHR ''e'' \<or> c \<in> set (terminals g)"

section \<open>The iteration\<close>

type_synonym firsts = "char \<Rightarrow> char set"

text \<open>A C++ string has a zero behind its last character.\<close>

definition at :: "string \<Rightarrow> nat \<Rightarrow> char" where
  "at s j = (if j < length s then s ! j else CHR 0x00)"

text \<open>The search for the next bar.\<close>

function skip_alt :: "string \<Rightarrow> nat \<Rightarrow> char \<Rightarrow> nat" where
  "skip_alt expr j temp = (if temp \<noteq> CHR ''|'' \<and> j \<le> length expr then skip_alt expr (j + 1) (at expr j) else j)"
  by pat_completeness auto
termination
  by (relation "measure (\<lambda>(expr, j, temp). length expr + 1 - j)") auto

declare skip_alt.simps [simp del]

definition add_first :: "grammar \<Rightarrow> char \<Rightarrow> char \<Rightarrow> firsts \<times> bool \<Rightarrow> firsts \<times> bool" where
  "add_first g lhs c = (\<lambda>(F, changes).
     if isTerminal g c then (if c \<in> F lhs then (F, changes) else (F(lhs := insert c (F lhs)), True))
     else (if F c \<subseteq> F lhs then (F, changes) else (F(lhs := F lhs \<union> F c), True)))"

partial_function (option) first_alts :: "grammar \<Rightarrow> char \<Rightarrow> string \<Rightarrow> nat \<Rightarrow> bool \<Rightarrow> firsts \<times> bool \<Rightarrow> (firsts \<times> bool) option" where
  "first_alts g lhs expr j firstChar s =
     (if \<not> j < length expr then Some s
      else if firstChar then first_alts g lhs expr j False (add_first g lhs (at expr 0) s)
      else let j = skip_alt expr j (at expr j) in
        if j \<ge> length expr then first_alts g lhs expr j False s
        else first_alts g lhs expr j False (add_first g lhs (at expr j) s))"

partial_function (option) first_loop :: "grammar \<Rightarrow> nat \<Rightarrow> firsts \<times> bool \<Rightarrow> firsts option" where
  "first_loop g i s =
     (let n = length (nonterminals g); lhs = nonterminals g ! (i mod n); i = (i + 1) mod n;
          s = (if i = 0 then (fst s, False) else s) in
      case first_alts g lhs (productions g lhs) 0 True s of None \<Rightarrow> None
      | Some s \<Rightarrow> if i = n - 1 \<and> \<not> snd s then Some (fst s) else first_loop g i s)"

text \<open>The two programs differ in the initial value of \<^verbatim>\<open>changes\<close>; the test for a quote as left side in \<^verbatim>\<open>FFLR.cpp\<close> never holds.\<close>

definition first_FFLR :: "grammar \<Rightarrow> firsts option" where
  "first_FFLR g = first_loop g 0 (\<lambda>_. {}, True)"

definition first_Firstfollow :: "grammar \<Rightarrow> firsts option" where
  "first_Firstfollow g = first_loop g 0 (\<lambda>_. {}, False)"

section \<open>The alternatives\<close>

fun bars :: "string \<Rightarrow> string list" where
  "bars [] = [[]]"
| "bars (c # cs) = (if c = CHR ''|'' then [] # bars cs else (c # hd (bars cs)) # tl (bars cs))"

definition alternatives :: "string \<Rightarrow> string list" where
  "alternatives s = (if s = [] then [] else bars s)"

definition hits :: "grammar \<Rightarrow> char \<Rightarrow> char list" where
  "hits g A = map hd (alternatives (productions g A))"

fun barjoin :: "string list \<Rightarrow> string" where
  "barjoin [] = []"
| "barjoin [w] = w"
| "barjoin (w # v # ws) = w @ CHR ''|'' # barjoin (v # ws)"

lemma bars_nonempty [simp]: "bars s \<noteq> []"
  by (cases s) auto

lemma barjoin_bars: "barjoin (bars s) = s"
proof (induction s)
  case (Cons c cs)
  obtain w ws where b: "bars cs = w # ws" by (cases "bars cs") auto
  show ?case using Cons.IH b by (cases ws) auto
qed simp

lemma bars_barless: "w \<in> set (bars s) \<Longrightarrow> CHR ''|'' \<notin> set w"
proof (induction s arbitrary: w)
  case (Cons c cs)
  obtain v vs where b: "bars cs = v # vs" by (cases "bars cs") auto
  show ?case using Cons b by (auto split: if_splits)
qed simp

lemma skip_alt_bar: "skip_alt expr j (CHR ''|'') = j"
  by (subst skip_alt.simps) simp

lemma skip_alt_word:
  "temp \<noteq> CHR ''|'' \<Longrightarrow> CHR ''|'' \<notin> set w \<Longrightarrow> drop j expr = w @ rest \<Longrightarrow> j \<le> length expr \<Longrightarrow> rest = [] \<or> hd rest = CHR ''|'' \<Longrightarrow>
     skip_alt expr j temp = (if rest = [] then length expr + 1 else j + length w + 1)"
proof (induction w arbitrary: j temp)
  case Nil
  have s: "skip_alt expr j temp = skip_alt expr (j + 1) (at expr j)" using Nil by (subst skip_alt.simps) simp
  show ?case
  proof (cases rest)
    case Nil
    then have j: "j = length expr" using Nil.prems(3,4) by simp
    have "skip_alt expr (j + 1) (at expr j) = j + 1" using j by (subst skip_alt.simps) simp
    then show ?thesis using s j Nil by simp
  next
    case (Cons c cs)
    then have "j < length expr" "expr ! j = CHR ''|''" using Nil.prems(3,5) by (cases "j < length expr", auto simp: hd_drop_conv_nth [symmetric])+
    then show ?thesis using s Cons by (simp add: at_def skip_alt_bar)
  qed
next
  case (Cons c w)
  have j: "j < length expr" "expr ! j = c" using Cons.prems(3) by (cases "j < length expr", auto simp: hd_drop_conv_nth [symmetric])+
  have d: "drop (j + 1) expr = w @ rest" using Cons.prems(3) by (metis Suc_eq_plus1 append_Cons drop_Suc list.sel(3) tl_drop)
  have "skip_alt expr j temp = skip_alt expr (j + 1) (at expr j)" using Cons.prems by (subst skip_alt.simps) simp
  moreover have "at expr j \<noteq> CHR ''|''" using j Cons.prems(2) by (auto simp: at_def)
  ultimately show ?case using Cons.IH [of "at expr j" "j + 1"] Cons.prems(2,5) d j(1) by simp
qed

lemma first_alts_rest:
  "ws \<noteq> [] \<Longrightarrow> \<forall>w\<in>set ws. w \<noteq> [] \<and> CHR ''|'' \<notin> set w \<Longrightarrow> drop j expr = barjoin ws \<Longrightarrow> j < length expr \<Longrightarrow>
     first_alts g lhs expr j False s = Some (fold (add_first g lhs) (map hd (tl ws)) s)"
proof (induction ws arbitrary: j s rule: barjoin.induct)
  case (2 w)
  have t: "at expr j \<noteq> CHR ''|''" using "2.prems" by (cases w) (auto simp: at_def hd_drop_conv_nth [symmetric])
  have "skip_alt expr j (at expr j) = length expr + 1" using skip_alt_word [OF t, of w j expr "[]"] "2.prems" by simp
  moreover have "first_alts g lhs expr (length expr + 1) False s = Some s" by (subst first_alts.simps) simp
  ultimately show ?case using "2.prems"(4) by (subst first_alts.simps) simp
next
  case (3 w v ws)
  let ?t = "barjoin (v # ws)" and ?k = "j + length w + 1"
  have t: "at expr j \<noteq> CHR ''|''" using "3.prems" by (cases w) (auto simp: at_def hd_drop_conv_nth [symmetric])
  have k: "skip_alt expr j (at expr j) = ?k" using skip_alt_word [OF t, of w j expr "CHR ''|'' # ?t"] "3.prems" by simp
  have "drop ?k expr = drop (length w + 1) (drop j expr)" by (simp add: ac_simps)
  then have d: "drop ?k expr = ?t" using "3.prems"(3) by simp
  obtain c v' where v: "v = c # v'" using "3.prems"(2) by (cases v) auto
  then have h: "?t = c # tl ?t" by (cases ws) auto
  then have kl: "?k < length expr" using d by (metis drop_all leI list.distinct(1))
  have "at expr ?k = hd v" using d h v kl by (metis at_def hd_drop_conv_nth list.sel(1))
  then show ?case using "3.IH" [of ?k "add_first g lhs (hd v) s"] "3.prems"(2,4) d k kl by (subst first_alts.simps) (simp add: Let_def)
qed simp

definition wf_grammar :: "grammar \<Rightarrow> bool" where
  "wf_grammar g \<longleftrightarrow> nonterminals g \<noteq> [] \<and> (\<forall>A\<in>set (nonterminals g). \<forall>w\<in>set (alternatives (productions g A)). w \<noteq> [])"

lemma first_alts_all:
  assumes "wf_grammar g" "A \<in> set (nonterminals g)"
  shows "first_alts g A (productions g A) 0 True s = Some (fold (add_first g A) (hits g A) s)"
proof (cases "productions g A")
  case Nil
  then show ?thesis by (subst first_alts.simps) (simp add: hits_def alternatives_def)
next
  case (Cons c cs)
  let ?e = "productions g A"
  have a: "alternatives ?e = bars ?e" using Cons by (simp add: alternatives_def)
  obtain w ws where b: "bars ?e = w # ws" by (cases "bars ?e") auto
  have ne: "w \<noteq> []" using assms a b by (auto simp: wf_grammar_def)
  have "hd w = c"
  proof -
    have "barjoin (w # ws) = c # cs" using barjoin_bars [of ?e] b Cons by simp
    then show ?thesis using ne by (cases ws; cases w) auto
  qed
  then have "hits g A = c # map hd ws" using a b by (simp add: hits_def)
  moreover have "\<forall>w\<in>set (bars ?e). w \<noteq> [] \<and> CHR ''|'' \<notin> set w" using assms a bars_barless by (auto simp: wf_grammar_def)
  ultimately show ?thesis
    using first_alts_rest [of "bars ?e" 0 ?e g A "add_first g A c s"] barjoin_bars [of ?e] b Cons
    by (subst first_alts.simps) (simp add: at_def)
qed

section \<open>What the sets are\<close>

text \<open>\<open>c\<close> is a terminal some chain of first symbols of productions leads to from \<open>A\<close>.\<close>

inductive leads :: "grammar \<Rightarrow> char \<Rightarrow> char \<Rightarrow> bool" for g where
  leads_here: "A \<in> set (nonterminals g) \<Longrightarrow> c \<in> set (hits g A) \<Longrightarrow> isTerminal g c \<Longrightarrow> leads g A c"
| leads_through: "A \<in> set (nonterminals g) \<Longrightarrow> B \<in> set (hits g A) \<Longrightarrow> \<not> isTerminal g B \<Longrightarrow> leads g B c \<Longrightarrow> leads g A c"

definition contrib :: "grammar \<Rightarrow> firsts \<Rightarrow> char list \<Rightarrow> char set" where
  "contrib g F cs = {c \<in> set cs. isTerminal g c} \<union> (\<Union>B\<in>{B \<in> set cs. \<not> isTerminal g B}. F B)"

lemma contrib_simps [simp]:
  "contrib g F [] = {}" "contrib g F (c # cs) = (if isTerminal g c then {c} else F c) \<union> contrib g F cs"
  by (auto simp: contrib_def)

lemma contrib_upd: "F A \<union> D \<union> contrib g (F(A := F A \<union> D)) cs = F A \<union> D \<union> contrib g F cs"
  by (induction cs) (auto split: if_splits)

lemma fold_add_first:
  "fold (add_first g A) cs (F, ch) = (F(A := F A \<union> contrib g F cs), ch \<or> \<not> contrib g F cs \<subseteq> F A)"
proof (induction cs arbitrary: F ch)
  case (Cons c cs)
  let ?D = "if isTerminal g c then {c} else F c"
  have "add_first g A c (F, ch) = (F(A := F A \<union> ?D), ch \<or> \<not> ?D \<subseteq> F A)"
    by (auto simp: add_first_def fun_eq_iff Un_absorb2)
  then have "fold (add_first g A) (c # cs) (F, ch) = fold (add_first g A) cs (F(A := F A \<union> ?D), ch \<or> \<not> ?D \<subseteq> F A)" by simp
  also have "\<dots> = (F(A := F A \<union> ?D \<union> contrib g (F(A := F A \<union> ?D)) cs),
      (ch \<or> \<not> ?D \<subseteq> F A) \<or> \<not> contrib g (F(A := F A \<union> ?D)) cs \<subseteq> F A \<union> ?D)" by (subst Cons.IH) (simp only: fun_upd_same fun_upd_upd)
  also have "F A \<union> ?D \<union> contrib g (F(A := F A \<union> ?D)) cs = F A \<union> contrib g F (c # cs)" using contrib_upd [of F A ?D g cs] by auto
  also have "((ch \<or> \<not> ?D \<subseteq> F A) \<or> \<not> contrib g (F(A := F A \<union> ?D)) cs \<subseteq> F A \<union> ?D) = (ch \<or> \<not> contrib g F (c # cs) \<subseteq> F A)"
    using contrib_upd [of F A ?D g cs] unfolding contrib_simps by blast
  finally show ?case .
qed simp

definition closed :: "grammar \<Rightarrow> firsts \<Rightarrow> char \<Rightarrow> bool" where
  "closed g F A \<longleftrightarrow> contrib g F (hits g A) \<subseteq> F A"

definition sound :: "grammar \<Rightarrow> firsts \<Rightarrow> bool" where
  "sound g F \<longleftrightarrow> (\<forall>A c. c \<in> F A \<longrightarrow> leads g A c)"

lemma sound_step: "sound g F \<Longrightarrow> A \<in> set (nonterminals g) \<Longrightarrow> sound g (F(A := F A \<union> contrib g F (hits g A)))"
  by (auto simp: sound_def contrib_def intro: leads_here leads_through)

lemma closed_complete: "leads g A c \<Longrightarrow> \<forall>A\<in>set (nonterminals g). closed g F A \<Longrightarrow> c \<in> F A"
  by (induction rule: leads.induct) (auto simp: closed_def contrib_def)

section \<open>The iteration ends\<close>

definition universe :: "grammar \<Rightarrow> (char \<times> char) set" where
  "universe g = set (nonterminals g) \<times> (\<Union>A\<in>set (nonterminals g). set (hits g A))"

definition missing :: "grammar \<Rightarrow> firsts \<Rightarrow> nat" where
  "missing g F = card {(A, c) \<in> universe g. c \<notin> F A}"

lemma finite_universe [simp]: "finite (universe g)"
  by (simp add: universe_def)

lemma leads_universe: "leads g A c \<Longrightarrow> (A, c) \<in> universe g"
  by (induction rule: leads.induct) (auto simp: universe_def)

lemma missing_less:
  assumes "sound g F'" "\<And>A. F A \<subseteq> F' A" "c \<in> F' A" "c \<notin> F A"
  shows "missing g F' < missing g F"
  unfolding missing_def
proof (rule psubset_card_mono)
  have "(A, c) \<in> universe g" using assms(1,3) leads_universe by (auto simp: sound_def)
  then show "{(A, c) \<in> universe g. c \<notin> F' A} \<subset> {(A, c) \<in> universe g. c \<notin> F A}" using assms(2-4) by blast
qed (rule finite_subset [OF _ finite_universe [of g]], auto)

text \<open>With no change since the last reset, just before the last symbol is treated, the symbols treated since are closed.\<close>

definition loop_inv :: "grammar \<Rightarrow> nat \<Rightarrow> firsts \<Rightarrow> bool \<Rightarrow> bool" where
  "loop_inv g i F ch \<longleftrightarrow> i < length (nonterminals g) \<and> sound g F
     \<and> (\<not> ch \<longrightarrow> i + 1 < length (nonterminals g) \<and> (\<forall>k. k + 1 = length (nonterminals g) \<or> k < i \<longrightarrow> closed g F (nonterminals g ! k)))"

definition turns :: "grammar \<Rightarrow> nat \<Rightarrow> firsts \<Rightarrow> bool \<Rightarrow> nat" where
  "turns g i F ch = missing g F * (2 * length (nonterminals g) + 1) + (if ch then length (nonterminals g) else 0) + (length (nonterminals g) - 1 - i)"

lemma next_index: "i < n \<Longrightarrow> (i + 1) mod n = (if i + 1 = n then 0 else i + (1 :: nat))"
  by (cases "i + 1 = n") auto

definition next_ch :: "grammar \<Rightarrow> nat \<Rightarrow> firsts \<Rightarrow> bool \<Rightarrow> bool" where
  "next_ch g i F ch \<longleftrightarrow> (i + 1 \<noteq> length (nonterminals g) \<and> ch) \<or> \<not> closed g F (nonterminals g ! i)"

definition next_F :: "grammar \<Rightarrow> nat \<Rightarrow> firsts \<Rightarrow> firsts" where
  "next_F g i F = (let A = nonterminals g ! i in F(A := F A \<union> contrib g F (hits g A)))"

lemma next_F_closed: "closed g F (nonterminals g ! i) \<Longrightarrow> next_F g i F = F"
  by (auto simp: next_F_def closed_def Let_def fun_eq_iff)

lemma first_loop_unfold:
  assumes "wf_grammar g" "i < length (nonterminals g)" "i' = (i + 1) mod length (nonterminals g)"
  shows "first_loop g i (F, ch) = (if i' = length (nonterminals g) - 1 \<and> \<not> next_ch g i F ch then Some (next_F g i F)
    else first_loop g i' (next_F g i F, next_ch g i F ch))"
proof -
  let ?A = "nonterminals g ! i" and ?c = "if i' = 0 then False else ch"
  have i': "i' = 0 \<longleftrightarrow> i + 1 = length (nonterminals g)" using next_index [OF assms(2)] assms(3) by simp
  have "first_alts g ?A (productions g ?A) 0 True (F, ?c) = Some (next_F g i F, next_ch g i F ch)"
    using first_alts_all [OF assms(1), of ?A "(F, ?c)"] assms(2) fold_add_first [of g ?A "hits g ?A" F ?c] i'
    by (auto simp: next_F_def next_ch_def closed_def Let_def)
  then show ?thesis using assms(2,3) by (subst first_loop.simps) (simp add: Let_def split: if_splits)
qed

lemma turns_less:
  assumes inv: "loop_inv g i F ch" and i': "i' = (i + 1) mod length (nonterminals g)"
    and go: "i' \<noteq> length (nonterminals g) - 1 \<or> next_ch g i F ch"
  shows "turns g i' (next_F g i F) (next_ch g i F ch) < turns g i F ch"
proof (cases "closed g F (nonterminals g ! i)")
  case True
  have "i < length (nonterminals g)" "\<not> ch \<longrightarrow> i + 1 < length (nonterminals g)" using inv by (auto simp: loop_inv_def)
  then show ?thesis using True next_index [of i "length (nonterminals g)"] i' next_F_closed [OF True] by (auto simp: turns_def next_ch_def split: if_splits)
next
  case False
  let ?A = "nonterminals g ! i" and ?n = "length (nonterminals g)"
  have "i < ?n" using inv by (simp add: loop_inv_def)
  then have n: "i < ?n" "i' < ?n" using next_index [of i ?n] i' by auto
  have "sound g (next_F g i F)" using sound_step [of g F ?A] inv n(1) by (simp add: next_F_def loop_inv_def Let_def)
  moreover obtain c where "c \<in> contrib g F (hits g ?A)" "c \<notin> F ?A" using False by (auto simp: closed_def)
  ultimately have "missing g (next_F g i F) < missing g F"
    by (intro missing_less [where A = ?A and c = c]) (auto simp: next_F_def Let_def)
  then have le: "(missing g (next_F g i F) + 1) * (2 * ?n + 1) \<le> missing g F * (2 * ?n + 1)" by (intro mult_right_mono) simp_all
  have "turns g i' (next_F g i F) (next_ch g i F ch) \<le> missing g (next_F g i F) * (2 * ?n + 1) + 2 * ?n" unfolding turns_def by auto
  also have "\<dots> < (missing g (next_F g i F) + 1) * (2 * ?n + 1)" by simp
  also note le
  also have "missing g F * (2 * ?n + 1) \<le> turns g i F ch" by (simp add: turns_def)
  finally show ?thesis .
qed

lemma loop_inv_next:
  assumes inv: "loop_inv g i F ch" and i': "i' = (i + 1) mod length (nonterminals g)"
    and go: "i' \<noteq> length (nonterminals g) - 1 \<or> next_ch g i F ch"
  shows "loop_inv g i' (next_F g i F) (next_ch g i F ch)"
proof -
  let ?A = "nonterminals g ! i" and ?n = "length (nonterminals g)"
  have "i < ?n" and s: "sound g F" using inv by (simp_all add: loop_inv_def)
  then have n: "i < ?n" "i' < ?n" using next_index [of i ?n] i' by auto
  have "sound g (next_F g i F)" using sound_step [OF s, of ?A] n(1) by (simp add: next_F_def Let_def)
  moreover have "i' + 1 < ?n \<and> (\<forall>k. k + 1 = ?n \<or> k < i' \<longrightarrow> closed g (next_F g i F) (nonterminals g ! k))" if no: "\<not> next_ch g i F ch"
  proof -
    have c: "closed g F ?A" using no by (simp add: next_ch_def)
    have "closed g F (nonterminals g ! k)" if "k + 1 = ?n \<or> k < i'" for k
      using inv no that c i' next_index [OF n(1)] by (cases "k = i") (auto simp: loop_inv_def next_ch_def less_Suc_eq split: if_splits)
    then show ?thesis using go no n(2) next_F_closed [OF c] by auto
  qed
  ultimately show ?thesis using n(2) by (simp add: loop_inv_def)
qed

lemma first_loop_ends:
  assumes "wf_grammar g"
  shows "loop_inv g i F ch \<Longrightarrow> \<exists>F'. first_loop g i (F, ch) = Some F' \<and> sound g F' \<and> (\<forall>A\<in>set (nonterminals g). closed g F' A)"
proof (induction "turns g i F ch" arbitrary: i F ch rule: less_induct)
  case less
  let ?n = "length (nonterminals g)" and ?i = "(i + 1) mod length (nonterminals g)" and ?A = "nonterminals g ! i"
  have n: "i < ?n" and s: "sound g F" using less.prems by (auto simp: loop_inv_def)
  note U = first_loop_unfold [OF assms n refl, of F ch]
  show ?case
  proof (cases "?i = ?n - 1 \<and> \<not> next_ch g i F ch")
    case True
    then have c: "closed g F ?A" by (simp add: next_ch_def)
    have "closed g F (nonterminals g ! k)" if "k < ?n" for k
    proof (cases "k = i")
      case False
      then have "k + 1 = ?n \<or> k < i" "\<not> ch" using that True next_index [OF n] n by (auto simp: next_ch_def split: if_splits)
      then show ?thesis using less.prems by (auto simp: loop_inv_def)
    qed (use c in simp)
    then have "\<forall>A\<in>set (nonterminals g). closed g F A" by (auto simp: in_set_conv_nth)
    then show ?thesis using U True next_F_closed [OF c] s by simp
  next
    case False
    then have go: "?i \<noteq> ?n - 1 \<or> next_ch g i F ch" by blast
    show ?thesis unfolding U if_not_P [OF False]
      by (rule less.hyps [OF turns_less [OF less.prems refl go] loop_inv_next [OF less.prems refl go]])
  qed
qed

section \<open>Properties\<close>

text \<open>
  C37: the FIRST sets of \<^verbatim>\<open>FFLR.cpp\<close>.  For a grammar with at least one nonterminal and no empty alternative, the
  iteration ends, and the set of every symbol consists of exactly the terminals that a chain of first symbols of
  its productions leads to.
\<close>

theorem first_FFLR_correct:
  assumes "wf_grammar g"
  shows "\<exists>F. first_FFLR g = Some F \<and> (\<forall>A c. c \<in> F A \<longleftrightarrow> leads g A c)"
proof -
  have "loop_inv g 0 (\<lambda>_. {}) True" using assms by (simp add: loop_inv_def wf_grammar_def sound_def)
  then obtain F where F: "first_loop g 0 (\<lambda>_. {}, True) = Some F" "sound g F" "\<forall>A\<in>set (nonterminals g). closed g F A"
    using first_loop_ends [OF assms] by blast
  then show ?thesis using closed_complete [of g _ _ F] by (auto simp: first_FFLR_def sound_def)
qed

definition demo_grammar :: grammar where
  "demo_grammar = \<lparr>terminals = ''b+'', nonterminals = ''AB'', productions = (\<lambda>_. [])(CHR ''A'' := ''BA|+'', CHR ''B'' := ''b|Bb'')\<rparr>"

theorem first_FFLR_correct_witness:
  "\<exists>F. first_FFLR demo_grammar = Some F \<and> CHR ''b'' \<in> F (CHR ''A'') \<and> CHR ''+'' \<in> F (CHR ''A'') \<and> CHR ''+'' \<notin> F (CHR ''B'')"
proof -
  have h: "hits demo_grammar (CHR ''A'') = ''B+''" "hits demo_grammar (CHR ''B'') = ''bB''" by code_simp+
  have w: "wf_grammar demo_grammar" by code_simp
  have t: "isTerminal demo_grammar c \<longleftrightarrow> c \<in> {CHR ''e'', CHR ''b'', CHR ''+''}" for c by (auto simp: isTerminal_def demo_grammar_def)
  have n: "set (nonterminals demo_grammar) = {CHR ''A'', CHR ''B''}" by (simp add: demo_grammar_def)
  have B: "leads demo_grammar (CHR ''B'') (CHR ''b'')" by (rule leads_here) (simp_all add: n h t)
  have A: "leads demo_grammar (CHR ''A'') (CHR ''b'')" by (rule leads_through [OF _ _ _ B]) (simp_all add: n h t)
  have P: "leads demo_grammar (CHR ''A'') (CHR ''+'')" by (rule leads_here) (simp_all add: n h t)
  have "c = CHR ''b''" if "leads demo_grammar X c" "X = CHR ''B''" for X c using that by (induction rule: leads.induct) (auto simp: h t)
  then have "\<not> leads demo_grammar (CHR ''B'') (CHR ''+'')" by blast
  then show ?thesis using first_FFLR_correct [OF w] A P by blast
qed

text \<open>The predecessor starts with \<^verbatim>\<open>changes\<close> false and may stop before it has looked at every symbol.\<close>

lemma first_Firstfollow_stops_early:
  "\<exists>F. first_Firstfollow \<lparr>terminals = ''b'', nonterminals = ''AB'', productions = (\<lambda>_. [])(CHR ''A'' := ''B'', CHR ''B'' := ''b'')\<rparr> = Some F
     \<and> F (CHR ''A'') = {} \<and> F (CHR ''B'') = {}" (is "\<exists>F. first_Firstfollow ?g = _ \<and> _")
proof -
  have w: "wf_grammar ?g" by code_simp
  have h: "hits ?g (CHR ''A'') = ''B''" by code_simp
  have c: "closed ?g (\<lambda>_. {}) (CHR ''A'')" by (simp add: closed_def h isTerminal_def)
  have "first_loop ?g 0 (\<lambda>_. {}, False) = Some (next_F ?g 0 (\<lambda>_. {}))"
    using first_loop_unfold [OF w, of 0 1 "\<lambda>_. {}" False] c by (simp add: next_ch_def)
  then show ?thesis using next_F_closed [of ?g "\<lambda>_. {}" 0] c by (simp add: first_Firstfollow_def)
qed

end
