(* ===== verification/Lr0.thy ===== *)
theory Lr0
  imports Firstsets
begin

text \<open>
  The LR(0) items of \<^verbatim>\<open>src/ComplierClass/FFLR.cpp\<close> and \<^verbatim>\<open>LR.cpp\<close>: \<^verbatim>\<open>add_closure\<close>, \<^verbatim>\<open>getLR0Items\<close>, the loop of
  \<^verbatim>\<open>main\<close> over the items and the reading of the grammar.  The lines printed are left out.  \<open>None\<close> stands for a use
  of a string or a vector outside its bounds and for a loop that does not end.
\<close>

section \<open>Items\<close>

type_synonym lrprod = "char \<times> string"
type_synonym auggrammar = "char \<Rightarrow> string list"

text \<open>The numbers of items in \<^verbatim>\<open>gotos\<close> are of type \<^verbatim>\<open>char\<close>, signed bytes.\<close>

record lr0item =
  lr_prods :: "lrprod list"
  lr_gotos :: "char \<rightharpoonup> u8"

definition prod_str :: "lrprod \<Rightarrow> string" where
  "prod_str p = fst p # ''->'' @ snd p"

text \<open>\<^verbatim>\<open>strcmp\<close> compares up to the first zero.\<close>

definition cstr :: "string \<Rightarrow> string" where
  "cstr s = takeWhile (\<lambda>c. c \<noteq> CHR 0x00) s"

definition Contains :: "lrprod list \<Rightarrow> string \<Rightarrow> bool" where
  "Contains ps s \<longleftrightarrow> (\<exists>p \<in> set ps. cstr s = cstr (prod_str p))"

section \<open>Closure\<close>

text \<open>\<^verbatim>\<open>rhs.find('.') + 1\<close>, which is 0 when there is no dot.\<close>

definition dot_pos :: "string \<Rightarrow> nat option" where
  "dot_pos rhs = (if CHR ''.'' \<in> set rhs then Some (length (takeWhile (\<lambda>c. c \<noteq> CHR ''.'') rhs)) else None)"

definition lookahead :: "string \<Rightarrow> char" where
  "lookahead rhs = at rhs (case dot_pos rhs of None \<Rightarrow> 0 | Some k \<Rightarrow> k + 1)"

definition push_new :: "char \<Rightarrow> lrprod list \<Rightarrow> string \<Rightarrow> lrprod list" where
  "push_new c ps r = (if Contains ps (prod_str (c, ''.'' @ r)) then ps else ps @ [(c, ''.'' @ r)])"

definition add_closure :: "auggrammar \<Rightarrow> char \<Rightarrow> lrprod list \<Rightarrow> lrprod list" where
  "add_closure g c ps = (if \<not> isupper c then ps else foldl (push_new c) ps (g c))"

definition candidates :: "auggrammar \<Rightarrow> string set" where
  "candidates g = (\<Union>c \<in> Collect isupper. (\<lambda>r. cstr (prod_str (c, ''.'' @ r))) ` set (g c))"

definition absent :: "auggrammar \<Rightarrow> lrprod list \<Rightarrow> nat" where
  "absent g ps = card (candidates g - (cstr \<circ> prod_str) ` set ps)"

lemma finite_candidates [simp]: "finite (candidates g)"
  by (simp add: candidates_def)

lemma push_new_absent:
  assumes "cstr (prod_str (c, ''.'' @ r)) \<in> candidates g"
  shows "length (push_new c ps r) + absent g (push_new c ps r) \<le> length ps + absent g ps"
proof (cases "Contains ps (prod_str (c, ''.'' @ r))")
  case False
  let ?k = "cstr (prod_str (c, ''.'' @ r))" and ?D = "candidates g - (cstr \<circ> prod_str) ` set ps"
  have "?k \<in> ?D" using assms False by (auto simp: Contains_def)
  then have "card (?D - {?k}) < card ?D" by (intro card_Diff1_less) auto
  moreover have "candidates g - (cstr \<circ> prod_str) ` set (push_new c ps r) = ?D - {?k}"
    using False by (auto simp: push_new_def)
  ultimately show ?thesis using False by (simp add: absent_def push_new_def)
qed (simp add: push_new_def)

lemma foldl_push_absent:
  "\<forall>r \<in> set rs. cstr (prod_str (c, ''.'' @ r)) \<in> candidates g \<Longrightarrow>
     length (foldl (push_new c) ps rs) + absent g (foldl (push_new c) ps rs) \<le> length ps + absent g ps"
proof (induction rs arbitrary: ps)
  case (Cons r rs)
  have "length (push_new c ps r) + absent g (push_new c ps r) \<le> length ps + absent g ps"
    using Cons.prems by (intro push_new_absent) simp
  then show ?case using Cons.IH [of "push_new c ps r"] Cons.prems by (auto intro: order_trans)
qed simp

lemma add_closure_absent: "length (add_closure g c ps) + absent g (add_closure g c ps) \<le> length ps + absent g ps"
proof (cases "isupper c")
  case True
  then have "\<forall>r \<in> set (g c). cstr (prod_str (c, ''.'' @ r)) \<in> candidates g" unfolding candidates_def by blast
  then show ?thesis using foldl_push_absent [of "g c" c g ps] True by (simp add: add_closure_def)
qed (simp add: add_closure_def)

text \<open>The first loop of \<^verbatim>\<open>getLR0Items\<close>: the item grows while it is walked through.\<close>

function close_from :: "auggrammar \<Rightarrow> nat \<Rightarrow> lrprod list \<Rightarrow> lrprod list" where
  "close_from g i ps =
     (if i < length ps then close_from g (i + 1) (add_closure g (lookahead (snd (ps ! i))) ps) else ps)"
  by pat_completeness auto
termination
proof (relation "measure (\<lambda>(g, i, ps). length ps + absent g ps - i)")
  fix g i and ps :: "lrprod list"
  assume "i < length ps"
  then show "((g, i + 1, add_closure g (lookahead (snd (ps ! i))) ps), g, i, ps) \<in> measure (\<lambda>(g, i, ps). length ps + absent g ps - i)"
    using add_closure_absent [of g "lookahead (snd (ps ! i))" ps] by simp
qed simp

declare close_from.simps [simp del]

section \<open>Gotos\<close>

record lr0 =
  lr_items :: "lr0item list"
  lr_global :: "string \<rightharpoonup> nat"

text \<open>\<^verbatim>\<open>swap(rhs[at], rhs[at + 1])\<close>.\<close>

definition move_dot :: "string \<Rightarrow> string option" where
  "move_dot rhs = (case dot_pos rhs of None \<Rightarrow> None
     | Some k \<Rightarrow> if k + 1 < length rhs then Some (rhs[k := rhs ! (k + 1), k + 1 := rhs ! k]) else None)"

definition goto_new :: "nat \<Rightarrow> char \<Rightarrow> lrprod \<Rightarrow> lr0 \<Rightarrow> lr0 option" where
  "goto_new itemid la p st = (case move_dot (snd p) of None \<Rightarrow> None
     | Some rhs \<Rightarrow>
         let n = length (lr_items st); item = lr_items st ! itemid in
         Some (st\<lparr>lr_items := (lr_items st)[itemid := item\<lparr>lr_gotos := (lr_gotos item)(la \<mapsto> of_nat n)\<rparr>]
                    @ [\<lparr>lr_prods = [(fst p, rhs)], lr_gotos = Map.empty\<rparr>],
                  lr_global := (lr_global st)(prod_str p \<mapsto> n)\<rparr>))"

definition goto_old :: "nat \<Rightarrow> char \<Rightarrow> nat \<Rightarrow> lr0 \<Rightarrow> lr0" where
  "goto_old itemid la n st =
     (let item = lr_items st ! itemid in
      st\<lparr>lr_items := (lr_items st)[itemid := item\<lparr>lr_gotos := (lr_gotos item)(la \<mapsto> of_nat n)\<rparr>]\<rparr>)"

definition goto_add :: "u8 \<Rightarrow> lrprod \<Rightarrow> lr0 \<Rightarrow> lr0 option" where
  "goto_add k p st = (case move_dot (snd p) of None \<Rightarrow> None
     | Some rhs \<Rightarrow>
         if sint k < 0 \<or> int (length (lr_items st)) \<le> sint k then None else
         let n = nat (sint k); item = lr_items st ! n in
         Some (if Contains (lr_prods item) (prod_str (fst p, rhs)) then st
               else st\<lparr>lr_items := (lr_items st)[n := item\<lparr>lr_prods := lr_prods item @ [(fst p, rhs)]\<rparr>]\<rparr>))"

definition goto_one :: "nat \<Rightarrow> nat \<Rightarrow> lr0 \<Rightarrow> lr0 option" where
  "goto_one itemid i st =
     (let item = lr_items st ! itemid; p = lr_prods item ! i; la = lookahead (snd p) in
      if la = CHR 0x00 then Some st
      else case lr_gotos item la of
        None \<Rightarrow> (case lr_global st (prod_str p) of None \<Rightarrow> goto_new itemid la p st | Some n \<Rightarrow> Some (goto_old itemid la n st))
      | Some k \<Rightarrow> goto_add k p st)"

partial_function (option) goto_loop :: "nat \<Rightarrow> nat \<Rightarrow> lr0 \<Rightarrow> lr0 option" where
  "goto_loop itemid i st =
     (if i < length (lr_prods (lr_items st ! itemid))
      then (case goto_one itemid i st of None \<Rightarrow> None | Some st \<Rightarrow> goto_loop itemid (i + 1) st)
      else Some st)"

definition getLR0Items :: "auggrammar \<Rightarrow> nat \<Rightarrow> lr0 \<Rightarrow> lr0 option" where
  "getLR0Items g itemid st =
     (let item = lr_items st ! itemid in
      goto_loop itemid 0 (st\<lparr>lr_items := (lr_items st)[itemid := item\<lparr>lr_prods := close_from g 0 (lr_prods item)\<rparr>]\<rparr>))"

partial_function (option) lr0_loop :: "auggrammar \<Rightarrow> nat \<Rightarrow> lr0 \<Rightarrow> lr0 option" where
  "lr0_loop g itemid st =
     (if itemid < length (lr_items st)
      then (case getLR0Items g itemid st of None \<Rightarrow> None | Some st \<Rightarrow> lr0_loop g (itemid + 1) st)
      else Some st)"

declare goto_loop.simps [code] lr0_loop.simps [code]

definition lr0_main :: "auggrammar \<Rightarrow> lrprod list \<Rightarrow> lr0 option" where
  "lr0_main g ps = lr0_loop g 0 \<lparr>lr_items = [\<lparr>lr_prods = ps, lr_gotos = Map.empty\<rparr>], lr_global = Map.empty\<rparr>"

section \<open>Reading the grammar\<close>

definition isalpha :: "char \<Rightarrow> bool" where
  "isalpha c \<longleftrightarrow> islower c \<or> isupper c"

text \<open>
  \<^verbatim>\<open>line.substr(line.find("->") + 2)\<close>: without an arrow the position wraps round to 1.  The other uses of \<^verbatim>\<open>substr\<close> throw
  when the line is shorter than three characters.
\<close>

fun after_arrow :: "string \<Rightarrow> string option" where
  "after_arrow (a # b # cs) = (if a = CHR ''-'' \<and> b = CHR ''>'' then Some cs else after_arrow (b # cs))"
| "after_arrow _ = None"

definition rule_rhs :: "string \<Rightarrow> string" where
  "rule_rhs line = (case after_arrow line of Some r \<Rightarrow> r | None \<Rightarrow> drop 1 line)"

record fflr = grammar +
  aug :: auggrammar
  item0 :: "lrprod list"

text \<open>
  One line.  The first nonterminal also becomes the start symbol, and its line is looked at again.  What the source
  adds to \<^verbatim>\<open>AugGrammar['\\'']\<close> lies behind a string constant; nothing reads it.
\<close>

definition FFLR_rule :: "string \<Rightarrow> fflr \<Rightarrow> fflr option" where
  "FFLR_rule line g =
     (let val = at line 0;
          g = (if islower val \<or> \<not> isalpha val then g\<lparr>terminals := terminals g @ [val]\<rparr> else g) in
      if \<not> isupper val then Some g else
      let g = (if nonterminals g = [] then g\<lparr>item0 := item0 g @ [(CHR 0x27, [CHR ''.'', val])], nonterminals := [val]\<rparr> else g);
          g = (if val \<in> set (nonterminals g) then g else g\<lparr>nonterminals := nonterminals g @ [val]\<rparr>);
          rhs = rule_rhs line; old = productions g val in
      if length line < 3 then None else
      let g = g\<lparr>productions := (productions g)(val := if old = [] then drop 3 line else old @ ''|'' @ drop 3 line),
                aug := (aug g)(val := aug g val @ [rhs])\<rparr> in
      Some (if isTerminal (grammar.truncate g) (at rhs 0) then g else g\<lparr>item0 := item0 g @ [(val, ''.'' @ rhs)]\<rparr>))"

fun FFLR_rules :: "string list \<Rightarrow> fflr \<Rightarrow> fflr option" where
  "FFLR_rules [] g = Some g"
| "FFLR_rules (l # ls) g = (case FFLR_rule l g of None \<Rightarrow> None | Some g \<Rightarrow> FFLR_rules ls g)"

text \<open>The items of a grammar file, given by its lines.\<close>

definition FFLR_items :: "string list \<Rightarrow> lr0 option" where
  "FFLR_items ls = (case FFLR_rules ls \<lparr>terminals = [], nonterminals = [], productions = \<lambda>_. [], aug = \<lambda>_. [], item0 = []\<rparr> of
     None \<Rightarrow> None | Some g \<Rightarrow> lr0_main (aug g) (item0 g))"

section \<open>The closure\<close>

definition zero_free :: "lrprod \<Rightarrow> bool" where
  "zero_free p \<longleftrightarrow> fst p \<noteq> CHR 0x00 \<and> CHR 0x00 \<notin> set (snd p)"

lemma cstr_prod_str: "zero_free p \<Longrightarrow> cstr (prod_str p) = prod_str p"
  by (auto simp: cstr_def prod_str_def zero_free_def takeWhile_eq_all_conv)

lemma prod_str_eq [simp]: "prod_str p = prod_str q \<longleftrightarrow> p = q"
  by (cases p; cases q) (simp add: prod_str_def)

lemma Contains_zero_free: "zero_free p \<Longrightarrow> \<forall>q \<in> set ps. zero_free q \<Longrightarrow> Contains ps (prod_str p) \<longleftrightarrow> p \<in> set ps"
  unfolding Contains_def by (auto simp: cstr_prod_str)

definition expand :: "auggrammar \<Rightarrow> lrprod \<Rightarrow> lrprod set" where
  "expand g p = (let c = lookahead (snd p) in if isupper c then (\<lambda>r. (c, ''.'' @ r)) ` set (g c) else {})"

text \<open>The textbook closure of a set of dotted productions.\<close>

inductive in_closure :: "auggrammar \<Rightarrow> lrprod set \<Rightarrow> lrprod \<Rightarrow> bool" for g P where
  closure_base: "p \<in> P \<Longrightarrow> in_closure g P p"
| closure_step: "in_closure g P p \<Longrightarrow> q \<in> expand g p \<Longrightarrow> in_closure g P q"

definition aug_zero_free :: "auggrammar \<Rightarrow> bool" where
  "aug_zero_free g \<longleftrightarrow> (\<forall>c. isupper c \<longrightarrow> (\<forall>r \<in> set (g c). CHR 0x00 \<notin> set r))"

lemma isupper_zero [simp]: "\<not> isupper (CHR 0x00)"
  by (simp add: isupper_def)

lemma expand_zero_free: "aug_zero_free g \<Longrightarrow> q \<in> expand g p \<Longrightarrow> zero_free q"
  by (auto simp: expand_def aug_zero_free_def zero_free_def Let_def split: if_splits)

lemma foldl_push_new:
  assumes "\<forall>r \<in> set rs. zero_free (c, ''.'' @ r)" and "\<forall>p \<in> set ps. zero_free p"
  shows "\<exists>ys. foldl (push_new c) ps rs = ps @ ys \<and> set (ps @ ys) = set ps \<union> (\<lambda>r. (c, ''.'' @ r)) ` set rs
     \<and> (distinct ps \<longrightarrow> distinct (ps @ ys))"
  using assms
proof (induction rs arbitrary: ps)
  case (Cons r rs)
  let ?p = "(c, ''.'' @ r)"
  have z: "zero_free ?p" using Cons.prems by simp
  show ?case
  proof (cases "?p \<in> set ps")
    case True
    then have "push_new c ps r = ps" using Contains_zero_free [OF z Cons.prems(2)] by (simp add: push_new_def)
    then show ?thesis using Cons.IH [of ps] Cons.prems True by auto
  next
    case False
    then have "push_new c ps r = ps @ [?p]" using Contains_zero_free [OF z Cons.prems(2)] by (simp add: push_new_def)
    then show ?thesis using Cons.IH [of "ps @ [?p]"] Cons.prems z False by auto
  qed
qed simp

lemma add_closure_expand:
  assumes "aug_zero_free g" and "\<forall>p \<in> set ps. zero_free p"
  shows "\<exists>ys. add_closure g (lookahead (snd p)) ps = ps @ ys \<and> set (ps @ ys) = set ps \<union> expand g p
     \<and> (distinct ps \<longrightarrow> distinct (ps @ ys))"
proof (cases "isupper (lookahead (snd p))")
  case True
  then have "\<forall>r \<in> set (g (lookahead (snd p))). zero_free (lookahead (snd p), ''.'' @ r)"
    using assms(1) by (auto simp: aug_zero_free_def zero_free_def)
  from foldl_push_new [OF this assms(2)] show ?thesis using True by (auto simp: add_closure_def expand_def Let_def)
qed (simp add: add_closure_def expand_def)

lemma in_closure_mono: "in_closure g P p \<Longrightarrow> (\<And>q. q \<in> P \<Longrightarrow> in_closure g Q q) \<Longrightarrow> in_closure g Q p"
  by (induction rule: in_closure.induct) (auto intro: closure_step)

lemma close_from_props:
  "aug_zero_free g \<Longrightarrow> \<forall>p \<in> set ps. zero_free p \<Longrightarrow> \<exists>xs. close_from g i ps = ps @ xs \<and> (\<forall>p \<in> set xs. in_closure g (set ps) p)
     \<and> (distinct ps \<longrightarrow> distinct (ps @ xs)) \<and> (\<forall>j. i \<le> j \<and> j < length (ps @ xs) \<longrightarrow> expand g ((ps @ xs) ! j) \<subseteq> set (ps @ xs))"
proof (induction g i ps rule: close_from.induct)
  case (1 g i ps)
  show ?case
  proof (cases "i < length ps")
    case False
    then show ?thesis by (subst close_from.simps) auto
  next
    case True
    obtain ys where ys: "add_closure g (lookahead (snd (ps ! i))) ps = ps @ ys" "set (ps @ ys) = set ps \<union> expand g (ps ! i)"
        "distinct ps \<longrightarrow> distinct (ps @ ys)"
      using add_closure_expand [OF "1.prems", of "ps ! i"] by blast
    have "\<forall>p \<in> set (ps @ ys). zero_free p"
      using "1.prems" expand_zero_free [OF "1.prems"(1)] unfolding ys(2) by blast
    then obtain xs where xs: "close_from g (i + 1) (ps @ ys) = (ps @ ys) @ xs" "\<forall>p \<in> set xs. in_closure g (set (ps @ ys)) p"
        "distinct (ps @ ys) \<longrightarrow> distinct ((ps @ ys) @ xs)"
        "\<forall>j. i + 1 \<le> j \<and> j < length ((ps @ ys) @ xs) \<longrightarrow> expand g (((ps @ ys) @ xs) ! j) \<subseteq> set ((ps @ ys) @ xs)"
      using "1.IH" [OF True, unfolded ys(1)] "1.prems"(1) by blast
    have c: "in_closure g (set ps) p" if "p \<in> set (ps @ ys)" for p
      using that True closure_step [OF closure_base, of "ps ! i" "set ps" p g] closure_base [of p "set ps" g] unfolding ys(2) by auto
    have "in_closure g (set ps) p" if "p \<in> set xs" for p
      using in_closure_mono [OF xs(2) [rule_format, OF that] c] by blast
    then have "\<forall>p \<in> set (ys @ xs). in_closure g (set ps) p" using c by (metis Un_iff set_append)
    moreover have "expand g ((ps @ ys @ xs) ! j) \<subseteq> set (ps @ ys @ xs)" if "i \<le> j" "j < length (ps @ ys @ xs)" for j
    proof (cases "j = i")
      case True
      then have "(ps @ ys @ xs) ! j = ps ! i" using \<open>i < length ps\<close> by (simp add: nth_append)
      then show ?thesis using ys(2) by auto
    qed (use xs(4) that in simp)
    moreover have "close_from g i ps = ps @ ys @ xs" using xs(1) ys(1) True by (subst close_from.simps) simp
    moreover have "distinct ps \<longrightarrow> distinct (ps @ ys @ xs)" using ys(3) xs(3) by auto
    ultimately show ?thesis by blast
  qed
qed

lemma close_from_set:
  assumes "aug_zero_free g" and "\<forall>p \<in> set ps. zero_free p"
  shows "set (close_from g 0 ps) = Collect (in_closure g (set ps)) \<and> take (length ps) (close_from g 0 ps) = ps
     \<and> (distinct ps \<longrightarrow> distinct (close_from g 0 ps))"
proof -
  obtain xs where xs: "close_from g 0 ps = ps @ xs" "\<forall>p \<in> set xs. in_closure g (set ps) p" "distinct ps \<longrightarrow> distinct (ps @ xs)"
      "\<forall>j. 0 \<le> j \<and> j < length (ps @ xs) \<longrightarrow> expand g ((ps @ xs) ! j) \<subseteq> set (ps @ xs)"
    using close_from_props [OF assms, of 0] by (elim exE conjE)
  have "p \<in> set (ps @ xs)" if "in_closure g (set ps) p" for p
    using that
  proof (induction rule: in_closure.induct)
    case (closure_step p q)
    then obtain j where "j < length (ps @ xs)" "(ps @ xs) ! j = p" unfolding in_set_conv_nth by blast
    then have "expand g p \<subseteq> set (ps @ xs)" using xs(4) by blast
    then show ?case using closure_step.hyps(2) by (rule subsetD)
  qed simp
  moreover have "in_closure g (set ps) p" if "p \<in> set (ps @ xs)" for p
    using that xs(2) closure_base [of p "set ps" g] by auto
  ultimately have "set (ps @ xs) = Collect (in_closure g (set ps))" by blast
  then show ?thesis using xs(1,3) by simp
qed

section \<open>Moving the dot\<close>

definition dotted :: "lrprod list \<Rightarrow> lrprod set" where
  "dotted rs = (\<Union>(A, r) \<in> set rs. (\<lambda>k. (A, take k r @ CHR ''.'' # drop k r)) ` {..length r})"

definition dots :: "lrprod list \<Rightarrow> nat" where
  "dots rs = sum_list (map (\<lambda>(A, r). length r + 1) rs)"

definition rules_ok :: "auggrammar \<Rightarrow> lrprod list \<Rightarrow> bool" where
  "rules_ok g rs \<longleftrightarrow> (\<forall>(A, r) \<in> set rs. A \<noteq> CHR 0x00 \<and> CHR 0x00 \<notin> set r \<and> CHR ''.'' \<notin> set r)
     \<and> (\<forall>c. isupper c \<longrightarrow> (\<forall>r \<in> set (g c). (c, r) \<in> set rs))"

lemma finite_dotted [simp]: "finite (dotted rs)"
  by (auto simp: dotted_def)

lemma card_dotted: "card (dotted rs) \<le> dots rs"
proof (induction rs)
  case (Cons p rs)
  obtain A r where p: "p = (A, r)" by (cases p)
  let ?D = "(\<lambda>k. (A, take k r @ CHR ''.'' # drop k r)) ` {..length r}"
  have "dotted (p # rs) = ?D \<union> dotted rs" by (simp add: dotted_def p)
  moreover have "card ?D \<le> length r + 1" using card_image_le [of "{..length r}" "\<lambda>k. (A, take k r @ CHR ''.'' # drop k r)"] by simp
  ultimately show ?case using Cons.IH card_Un_le [of ?D "dotted rs"] by (simp add: dots_def p)
qed (simp add: dotted_def dots_def)

lemma dot_pos_dotted: "CHR ''.'' \<notin> set r \<Longrightarrow> k \<le> length r \<Longrightarrow> dot_pos (take k r @ CHR ''.'' # drop k r) = Some k"
proof -
  assume a: "CHR ''.'' \<notin> set r" "k \<le> length r"
  then have "\<forall>c \<in> set (take k r). c \<noteq> CHR ''.''" using in_set_takeD by metis
  then have "takeWhile (\<lambda>c. c \<noteq> CHR ''.'') (take k r @ CHR ''.'' # drop k r) = take k r" by (simp add: takeWhile_append2)
  then show ?thesis using a(2) by (simp add: dot_pos_def)
qed

lemma lookahead_dotted: "CHR ''.'' \<notin> set r \<Longrightarrow> k \<le> length r \<Longrightarrow> lookahead (take k r @ CHR ''.'' # drop k r) = at r k"
  by (auto simp: lookahead_def dot_pos_dotted at_def nth_append)

lemma move_dot_dotted:
  assumes "CHR ''.'' \<notin> set r" and "k < length r"
  shows "move_dot (take k r @ CHR ''.'' # drop k r) = Some (take (k + 1) r @ CHR ''.'' # drop (k + 1) r)"
proof -
  let ?s = "take k r @ CHR ''.'' # drop k r"
  have "drop k r = r ! k # drop (k + 1) r" using assms(2) by (simp add: Cons_nth_drop_Suc)
  then have "?s[k := ?s ! (k + 1), k + 1 := ?s ! k] = take k r @ r ! k # CHR ''.'' # drop (k + 1) r"
    using assms(2) by (simp add: list_update_append nth_append)
  also have "\<dots> = take (k + 1) r @ CHR ''.'' # drop (k + 1) r" using assms(2) by (simp add: take_Suc_conv_app_nth)
  finally show ?thesis using assms by (simp add: move_dot_def dot_pos_dotted)
qed

lemma dotted_move:
  assumes "rules_ok g rs" and "p \<in> dotted rs" and "lookahead (snd p) \<noteq> CHR 0x00"
  obtains rhs where "move_dot (snd p) = Some rhs" "(fst p, rhs) \<in> dotted rs"
proof -
  obtain A r k where p: "p = (A, take k r @ CHR ''.'' # drop k r)" "(A, r) \<in> set rs" "k \<le> length r"
    using assms(2) by (auto simp: dotted_def)
  have r: "CHR ''.'' \<notin> set r" using assms(1) p(2) by (auto simp: rules_ok_def)
  have k: "k < length r" using assms(3) p lookahead_dotted [OF r p(3)] by (auto simp: at_def split: if_splits)
  have "(A, take (k + 1) r @ CHR ''.'' # drop (k + 1) r) \<in> dotted rs"
    unfolding dotted_def using p(2) k by (intro UN_I [OF p(2)]) (auto intro: image_eqI [of _ _ "k + 1"])
  then show ?thesis using that [of "take (k + 1) r @ CHR ''.'' # drop (k + 1) r"] move_dot_dotted [OF r k] p(1) by simp
qed

lemma dotted_zero_free: "rules_ok g rs \<Longrightarrow> p \<in> dotted rs \<Longrightarrow> zero_free p"
proof -
  assume a: "rules_ok g rs" "p \<in> dotted rs"
  then obtain A r k where p: "p = (A, take k r @ CHR ''.'' # drop k r)" "(A, r) \<in> set rs" by (auto simp: dotted_def)
  then have "A \<noteq> CHR 0x00" "CHR 0x00 \<notin> set r" using a(1) by (auto simp: rules_ok_def)
  then show ?thesis using p(1) in_set_takeD [of "CHR 0x00" k r] in_set_dropD [of "CHR 0x00" k r] by (auto simp: zero_free_def)
qed

lemma expand_dotted: "rules_ok g rs \<Longrightarrow> expand g p \<subseteq> dotted rs"
proof
  fix q
  assume "rules_ok g rs" "q \<in> expand g p"
  then obtain c r where q: "q = (c, ''.'' @ r)" "(c, r) \<in> set rs" by (auto simp: expand_def rules_ok_def Let_def split: if_splits)
  then show "q \<in> dotted rs" unfolding dotted_def by (intro UN_I [OF q(2)]) (auto intro: image_eqI [of _ _ 0])
qed

lemma rules_ok_zero_free: "rules_ok g rs \<Longrightarrow> aug_zero_free g"
  by (fastforce simp: rules_ok_def aug_zero_free_def)

section \<open>The construction ends\<close>

text \<open>Item \<open>n\<close> holds the production with its dot moved on.\<close>

definition arrow :: "lr0 \<Rightarrow> lrprod \<Rightarrow> nat \<Rightarrow> bool" where
  "arrow st p n \<longleftrightarrow> n < length (lr_items st)
     \<and> (\<exists>rhs. move_dot (snd p) = Some rhs \<and> (fst p, rhs) \<in> set (lr_prods (lr_items st ! n)))"

definition item_ok :: "lrprod list \<Rightarrow> lr0 \<Rightarrow> lr0item \<Rightarrow> bool" where
  "item_ok rs st it \<longleftrightarrow> distinct (lr_prods it) \<and> set (lr_prods it) \<subseteq> dotted rs
     \<and> (\<forall>la k. lr_gotos it la = Some k \<longrightarrow>
          (\<exists>m. \<exists>p \<in> set (lr_prods it). k = of_nat m \<and> lookahead (snd p) = la \<and> arrow st p m))"

definition lr_inv :: "lrprod list \<Rightarrow> lr0 \<Rightarrow> bool" where
  "lr_inv rs st \<longleftrightarrow> (\<forall>it \<in> set (lr_items st). item_ok rs st it)
     \<and> (\<forall>key n. lr_global st key = Some n \<longrightarrow> (\<exists>p \<in> dotted rs. key = prod_str p \<and> arrow st p n))
     \<and> length (lr_items st) = 1 + card (dom (lr_global st))"

definition grows :: "lr0 \<Rightarrow> lr0 \<Rightarrow> bool" where
  "grows st st' \<longleftrightarrow> length (lr_items st) \<le> length (lr_items st')
     \<and> (\<forall>n < length (lr_items st). set (lr_prods (lr_items st ! n)) \<subseteq> set (lr_prods (lr_items st' ! n)))"

lemma grows_trans:
  assumes "grows a b" and "grows b c" shows "grows a c"
  unfolding grows_def
proof (intro conjI allI impI)
  show "length (lr_items a) \<le> length (lr_items c)" using assms by (simp add: grows_def)
next
  fix n assume "n < length (lr_items a)"
  then have "set (lr_prods (lr_items a ! n)) \<subseteq> set (lr_prods (lr_items b ! n))" "n < length (lr_items b)"
    using assms(1) by (auto simp: grows_def)
  then show "set (lr_prods (lr_items a ! n)) \<subseteq> set (lr_prods (lr_items c ! n))" using assms(2) by (fastforce simp: grows_def)
qed

lemma arrow_mono: "grows st st' \<Longrightarrow> arrow st p n \<Longrightarrow> arrow st' p n"
  by (fastforce simp: grows_def arrow_def)

lemma item_ok_mono: "grows st st' \<Longrightarrow> item_ok rs st it \<Longrightarrow> item_ok rs st' it"
  unfolding item_ok_def using arrow_mono by blast

lemma item_ok_goto:
  "item_ok rs st it \<Longrightarrow> p \<in> set (lr_prods it) \<Longrightarrow> arrow st p m \<Longrightarrow>
     item_ok rs st (it\<lparr>lr_gotos := (lr_gotos it)(lookahead (snd p) \<mapsto> of_nat m)\<rparr>)"
  unfolding item_ok_def by auto

lemma item_ok_prods:
  "item_ok rs st it \<Longrightarrow> set (lr_prods it) \<subseteq> set qs \<Longrightarrow> set qs \<subseteq> dotted rs \<Longrightarrow> distinct qs \<Longrightarrow> item_ok rs st (it\<lparr>lr_prods := qs\<rparr>)"
  unfolding item_ok_def by (simp, meson subsetD)

lemma lr_inv_items: "lr_inv rs st \<Longrightarrow> n < length (lr_items st) \<Longrightarrow> item_ok rs st (lr_items st ! n)"
  by (simp add: lr_inv_def)

lemma lr_inv_bound:
  assumes "lr_inv rs st" shows "length (lr_items st) \<le> 1 + dots rs"
proof -
  have "dom (lr_global st) \<subseteq> prod_str ` dotted rs" using assms by (fastforce simp: lr_inv_def)
  then have "card (dom (lr_global st)) \<le> card (prod_str ` dotted rs)" by (intro card_mono) auto
  also have "\<dots> \<le> dots rs" using card_image_le [of "dotted rs" prod_str] card_dotted [of rs] by simp
  finally show ?thesis using assms by (simp add: lr_inv_def)
qed

lemma item_length:
  assumes "item_ok rs st it" shows "length (lr_prods it) \<le> dots rs"
proof -
  have "card (set (lr_prods it)) \<le> card (dotted rs)" using assms by (intro card_mono) (auto simp: item_ok_def)
  then show ?thesis using assms card_dotted [of rs] by (simp add: item_ok_def distinct_card)
qed

text \<open>Changing one item, everything else as before.\<close>

lemma lr_inv_update:
  assumes inv: "lr_inv rs st" and n: "n < length (lr_items st)"
    and it: "set (lr_prods (lr_items st ! n)) \<subseteq> set (lr_prods it)" "item_ok rs st it"
  shows "lr_inv rs (st\<lparr>lr_items := (lr_items st)[n := it]\<rparr>) \<and> grows st (st\<lparr>lr_items := (lr_items st)[n := it]\<rparr>)"
proof -
  let ?t = "st\<lparr>lr_items := (lr_items st)[n := it]\<rparr>"
  have g: "grows st ?t" using n it(1) by (auto simp: grows_def nth_list_update)
  have "item_ok rs ?t x" if "x \<in> set (lr_items ?t)" for x
  proof -
    have "x = it \<or> x \<in> set (lr_items st)" using that set_update_subset_insert [of "lr_items st" n it] by auto
    then show ?thesis using inv it(2) item_ok_mono [OF g] by (auto simp: lr_inv_def)
  qed
  moreover have "\<exists>p \<in> dotted rs. key = prod_str p \<and> arrow ?t p m" if "lr_global st key = Some m" for key m
    using inv that arrow_mono [OF g] unfolding lr_inv_def by blast
  moreover have "length (lr_items ?t) = 1 + card (dom (lr_global ?t))" using inv by (simp add: lr_inv_def)
  ultimately show ?thesis using g by (simp add: lr_inv_def)
qed

lemma goto_old_inv:
  assumes "lr_inv rs st" and "n < length (lr_items st)" and "p \<in> set (lr_prods (lr_items st ! n))" and "arrow st p m"
  shows "lr_inv rs (goto_old n (lookahead (snd p)) m st) \<and> grows st (goto_old n (lookahead (snd p)) m st)"
  unfolding goto_old_def Let_def
  by (rule lr_inv_update [OF assms(1,2)]) (simp_all add: item_ok_goto [OF lr_inv_items [OF assms(1,2)] assms(3,4)])

lemma goto_new_inv:
  assumes ok: "rules_ok g rs" and inv: "lr_inv rs st" and n: "n < length (lr_items st)"
    and p: "p \<in> set (lr_prods (lr_items st ! n))" "lookahead (snd p) \<noteq> CHR 0x00" and new: "lr_global st (prod_str p) = None"
  obtains t where "goto_new n (lookahead (snd p)) p st = Some t" "lr_inv rs t" "grows st t"
proof -
  have pd: "p \<in> dotted rs" using lr_inv_items [OF inv n] p(1) by (auto simp: item_ok_def)
  obtain rhs where rhs: "move_dot (snd p) = Some rhs" "(fst p, rhs) \<in> dotted rs" using dotted_move [OF ok pd p(2)] .
  let ?N = "length (lr_items st)"
  define u where "u = st\<lparr>lr_items := lr_items st @ [\<lparr>lr_prods = [(fst p, rhs)], lr_gotos = Map.empty\<rparr>],
    lr_global := (lr_global st)(prod_str p \<mapsto> ?N)\<rparr>"
  have g: "grows st u" by (simp add: grows_def u_def nth_append)
  have a: "arrow u p ?N" using rhs(1) by (simp add: arrow_def u_def)
  have "item_ok rs u x" if "x \<in> set (lr_items u)" for x
    using that inv item_ok_mono [OF g, of rs] rhs(2) by (auto simp: u_def lr_inv_def item_ok_def [of _ _ "\<lparr>lr_prods = _, lr_gotos = _\<rparr>"])
  moreover have "\<exists>q \<in> dotted rs. key = prod_str q \<and> arrow u q m" if "lr_global u key = Some m" for key m
  proof (cases "key = prod_str p")
    case True
    then show ?thesis using that a pd by (auto simp: u_def)
  next
    case False
    then have "lr_global st key = Some m" using that by (simp add: u_def)
    then show ?thesis using inv arrow_mono [OF g] unfolding lr_inv_def by blast
  qed
  moreover have "length (lr_items u) = 1 + card (dom (lr_global u))"
  proof -
    have "dom (lr_global st) \<subseteq> prod_str ` dotted rs" using inv by (fastforce simp: lr_inv_def)
    then have "finite (dom (lr_global st))" by (rule finite_subset) simp
    moreover have "prod_str p \<notin> dom (lr_global st)" using new by auto
    ultimately show ?thesis using inv by (simp add: u_def lr_inv_def)
  qed
  ultimately have u: "lr_inv rs u" by (simp add: lr_inv_def)
  have t: "goto_new n (lookahead (snd p)) p st = Some (goto_old n (lookahead (snd p)) ?N u)"
    using rhs(1) n by (simp add: goto_new_def goto_old_def u_def nth_append list_update_append Let_def)
  have "lr_inv rs (goto_old n (lookahead (snd p)) ?N u) \<and> grows u (goto_old n (lookahead (snd p)) ?N u)"
    by (rule goto_old_inv [OF u _ _ a]) (use n p in \<open>simp_all add: u_def nth_append\<close>)
  moreover from this g have "grows st (goto_old n (lookahead (snd p)) ?N u)" using grows_trans by blast
  ultimately show ?thesis using that [OF t] by blast
qed

lemma goto_add_inv:
  assumes ok: "rules_ok g rs" and few: "dots rs \<le> 127" and inv: "lr_inv rs st"
    and p: "p \<in> dotted rs" "lookahead (snd p) \<noteq> CHR 0x00" and k: "k = of_nat m" "m < length (lr_items st)"
  obtains t where "goto_add k p st = Some t" "lr_inv rs t" "grows st t"
proof -
  obtain rhs where rhs: "move_dot (snd p) = Some rhs" "(fst p, rhs) \<in> dotted rs" using dotted_move [OF ok p] .
  let ?it = "lr_items st ! m"
  have "m < 128" using lr_inv_bound [OF inv] few k(2) by simp
  then have sk: "sint k = int m" unfolding k(1) by (simp add: signed_of_nat signed_take_bit_int_eq_self)
  have it: "item_ok rs st ?it" by (rule lr_inv_items [OF inv k(2)])
  have c: "Contains (lr_prods ?it) (prod_str (fst p, rhs)) \<longleftrightarrow> (fst p, rhs) \<in> set (lr_prods ?it)"
    using it dotted_zero_free [OF ok] rhs(2) by (intro Contains_zero_free) (auto simp: item_ok_def)
  show ?thesis
  proof (cases "(fst p, rhs) \<in> set (lr_prods ?it)")
    case True
    then have "goto_add k p st = Some st" using rhs(1) sk k(2) c by (simp add: goto_add_def)
    then show ?thesis using that inv by (auto simp: grows_def)
  next
    case False
    then have e: "goto_add k p st = Some (st\<lparr>lr_items := (lr_items st)[m := ?it\<lparr>lr_prods := lr_prods ?it @ [(fst p, rhs)]\<rparr>]\<rparr>)"
      using rhs(1) sk k(2) c by (simp add: goto_add_def Let_def)
    have "item_ok rs st (?it\<lparr>lr_prods := lr_prods ?it @ [(fst p, rhs)]\<rparr>)"
      using it False rhs(2) by (intro item_ok_prods) (auto simp: item_ok_def)
    then show ?thesis using lr_inv_update [OF inv k(2), of "?it\<lparr>lr_prods := lr_prods ?it @ [(fst p, rhs)]\<rparr>"] that [OF e] by auto
  qed
qed

lemma goto_one_inv:
  assumes ok: "rules_ok g rs" and few: "dots rs \<le> 127" and inv: "lr_inv rs st" and n: "n < length (lr_items st)"
    and i: "i < length (lr_prods (lr_items st ! n))"
  obtains t where "goto_one n i st = Some t" "lr_inv rs t" "grows st t"
proof -
  let ?it = "lr_items st ! n" and ?p = "lr_prods (lr_items st ! n) ! i"
  have it: "item_ok rs st ?it" by (rule lr_inv_items [OF inv n])
  have p: "?p \<in> set (lr_prods ?it)" "?p \<in> dotted rs" using i it by (auto simp: item_ok_def)
  consider "lookahead (snd ?p) = CHR 0x00"
    | "lookahead (snd ?p) \<noteq> CHR 0x00" "lr_gotos ?it (lookahead (snd ?p)) = None" "lr_global st (prod_str ?p) = None"
    | m where "lookahead (snd ?p) \<noteq> CHR 0x00" "lr_gotos ?it (lookahead (snd ?p)) = None" "lr_global st (prod_str ?p) = Some m"
    | k where "lookahead (snd ?p) \<noteq> CHR 0x00" "lr_gotos ?it (lookahead (snd ?p)) = Some k"
    by (cases "lr_gotos ?it (lookahead (snd ?p))"; cases "lr_global st (prod_str ?p)") auto
  then show ?thesis
  proof cases
    case 1
    then have "goto_one n i st = Some st" by (simp add: goto_one_def Let_def)
    then show ?thesis using that inv by (auto simp: grows_def)
  next
    case 2
    then have e: "goto_one n i st = goto_new n (lookahead (snd ?p)) ?p st" by (simp add: goto_one_def Let_def)
    obtain t where "goto_new n (lookahead (snd ?p)) ?p st = Some t" "lr_inv rs t" "grows st t"
      using goto_new_inv [OF ok inv n p(1) 2(1,3)] .
    then show ?thesis using that e by simp
  next
    case (3 m)
    then have e: "goto_one n i st = Some (goto_old n (lookahead (snd ?p)) m st)" by (simp add: goto_one_def Let_def)
    have "\<exists>q \<in> dotted rs. prod_str ?p = prod_str q \<and> arrow st q m" using inv 3(3) unfolding lr_inv_def by blast
    then have "arrow st ?p m" by simp
    then show ?thesis using goto_old_inv [OF inv n p(1)] that [OF e] by blast
  next
    case (4 k)
    then have e: "goto_one n i st = goto_add k ?p st" by (simp add: goto_one_def Let_def)
    obtain m where m: "k = of_nat m" "m < length (lr_items st)" using it 4(2) unfolding item_ok_def arrow_def by blast
    obtain t where "goto_add k ?p st = Some t" "lr_inv rs t" "grows st t" using goto_add_inv [OF ok few inv p(2) 4(1) m] .
    then show ?thesis using that e by simp
  qed
qed

lemma goto_loop_ends:
  assumes ok: "rules_ok g rs" and few: "dots rs \<le> 127"
  shows "lr_inv rs st \<Longrightarrow> n < length (lr_items st) \<Longrightarrow> \<exists>t. goto_loop n i st = Some t \<and> lr_inv rs t \<and> grows st t"
proof (induction "dots rs - i" arbitrary: i st rule: less_induct)
  case less
  show ?case
  proof (cases "i < length (lr_prods (lr_items st ! n))")
    case False
    then show ?thesis using less.prems by (subst goto_loop.simps) (simp add: grows_def)
  next
    case True
    obtain t where t: "goto_one n i st = Some t" "lr_inv rs t" "grows st t"
      using goto_one_inv [OF ok few less.prems True] .
    have "i < dots rs" using True item_length [OF lr_inv_items [OF less.prems]] by simp
    moreover have "n < length (lr_items t)" using t(3) less.prems(2) by (simp add: grows_def)
    moreover from \<open>i < dots rs\<close> have "dots rs - (i + 1) < dots rs - i" by simp
    ultimately obtain u where "goto_loop n (i + 1) t = Some u" "lr_inv rs u" "grows t u"
      using less.hyps t(2) by blast
    then show ?thesis using True t grows_trans [OF t(3)] by (subst goto_loop.simps) auto
  qed
qed

lemma getLR0Items_ends:
  assumes ok: "rules_ok g rs" and few: "dots rs \<le> 127" and inv: "lr_inv rs st" and n: "n < length (lr_items st)"
  obtains t where "getLR0Items g n st = Some t" "lr_inv rs t" "grows st t"
proof -
  let ?it = "lr_items st ! n"
  let ?c = "?it\<lparr>lr_prods := close_from g 0 (lr_prods ?it)\<rparr>"
  have it: "item_ok rs st ?it" by (rule lr_inv_items [OF inv n])
  have z: "\<forall>p \<in> set (lr_prods ?it). zero_free p" using it dotted_zero_free [OF ok] by (auto simp: item_ok_def)
  note c = close_from_set [OF rules_ok_zero_free [OF ok] z]
  have "p \<in> dotted rs" if "in_closure g (set (lr_prods ?it)) p" for p
    using that
  proof (induction rule: in_closure.induct)
    case (closure_base p)
    then show ?case using it by (auto simp: item_ok_def)
  next
    case (closure_step p q)
    then show ?case using expand_dotted [OF ok, of p] by blast
  qed
  then have "item_ok rs st ?c" using c it by (intro item_ok_prods) (auto simp: item_ok_def intro: closure_base)
  then have "lr_inv rs (st\<lparr>lr_items := (lr_items st)[n := ?c]\<rparr>) \<and> grows st (st\<lparr>lr_items := (lr_items st)[n := ?c]\<rparr>)"
    using c by (intro lr_inv_update [OF inv n]) (auto intro: closure_base)
  then show ?thesis
    using goto_loop_ends [OF ok few, of "st\<lparr>lr_items := (lr_items st)[n := ?c]\<rparr>" n 0] n that grows_trans
    by (auto simp: getLR0Items_def Let_def)
qed

lemma lr0_loop_ends:
  assumes ok: "rules_ok g rs" and few: "dots rs \<le> 127"
  shows "lr_inv rs st \<Longrightarrow> \<exists>t. lr0_loop g n st = Some t \<and> lr_inv rs t \<and> grows st t"
proof (induction "1 + dots rs - n" arbitrary: n st rule: less_induct)
  case less
  show ?case
  proof (cases "n < length (lr_items st)")
    case False
    then show ?thesis using less.prems by (subst lr0_loop.simps) (simp add: grows_def)
  next
    case True
    obtain t where t: "getLR0Items g n st = Some t" "lr_inv rs t" "grows st t" using getLR0Items_ends [OF ok few less.prems True] .
    have "n < 1 + dots rs" using True lr_inv_bound [OF less.prems] by simp
    then have "1 + dots rs - (n + 1) < 1 + dots rs - n" by simp
    then obtain u where "lr0_loop g (n + 1) t = Some u" "lr_inv rs u" "grows t u" using less.hyps t(2) by blast
    then show ?thesis using True t grows_trans [OF t(3)] by (subst lr0_loop.simps) auto
  qed
qed

section \<open>Properties\<close>

text \<open>
  The closure of an item.  When no right side holds a zero byte, the growing walk of \<^verbatim>\<open>getLR0Items\<close> leaves the item's
  productions in front and makes it exactly the closure of their set, and enters nothing twice.
\<close>

theorem closure_correct:
  assumes "aug_zero_free g" and "\<forall>p \<in> set ps. zero_free p"
  shows "set (close_from g 0 ps) = Collect (in_closure g (set ps)) \<and> take (length ps) (close_from g 0 ps) = ps
     \<and> (distinct ps \<longrightarrow> distinct (close_from g 0 ps))"
  by (rule close_from_set [OF assms])

text \<open>
  C38: the construction of the items ends.  For rules without dots and zero bytes that have at most 127 places for a dot
  all together, and a first item of rules with the dot in front, \<^verbatim>\<open>main\<close> ends with at most one item more than there are
  places; no item has a production twice, all productions are rules with a dot, and every goto on a symbol leads to an item
  with the dot of one of the productions before that symbol moved over it.
\<close>

theorem lr0_main_ends:
  assumes "rules_ok g rs" and "dots rs \<le> 127" and "distinct ps" and "set ps \<subseteq> (\<lambda>(A, r). (A, CHR ''.'' # r)) ` set rs"
  shows "\<exists>st. lr0_main g ps = Some st \<and> length (lr_items st) \<le> 1 + dots rs
    \<and> set ps \<subseteq> set (lr_prods (lr_items st ! 0))
    \<and> (\<forall>it \<in> set (lr_items st). distinct (lr_prods it) \<and> set (lr_prods it) \<subseteq> dotted rs
        \<and> (\<forall>la k. lr_gotos it la = Some k \<longrightarrow> (\<exists>p \<in> set (lr_prods it). lookahead (snd p) = la \<and> arrow st p (unat k))))"
proof -
  let ?s = "\<lparr>lr_items = [\<lparr>lr_prods = ps, lr_gotos = Map.empty\<rparr>], lr_global = Map.empty\<rparr>"
  have "(\<lambda>(A, r). (A, CHR ''.'' # r)) ` set rs \<subseteq> dotted rs" by (force simp: dotted_def)
  then have "lr_inv rs ?s" using assms(3,4) by (simp add: lr_inv_def item_ok_def)
  then obtain st where st: "lr0_main g ps = Some st" "lr_inv rs st" "grows ?s st"
    using lr0_loop_ends [OF assms(1,2), of ?s 0] by (auto simp: lr0_main_def)
  have u: "arrow st p (unat (of_nat m :: u8))" if "arrow st p m" for p m
  proof -
    have "m < 256" using that lr_inv_bound [OF st(2)] assms(2) by (simp add: arrow_def)
    then show ?thesis using that by (simp add: unat_of_nat)
  qed
  have "set ps \<subseteq> set (lr_prods (lr_items st ! 0))" using st(3) by (simp add: grows_def)
  moreover have "\<forall>it \<in> set (lr_items st). distinct (lr_prods it) \<and> set (lr_prods it) \<subseteq> dotted rs
        \<and> (\<forall>la k. lr_gotos it la = Some k \<longrightarrow> (\<exists>p \<in> set (lr_prods it). lookahead (snd p) = la \<and> arrow st p (unat k)))"
    using st(2) u unfolding lr_inv_def item_ok_def by blast
  ultimately show ?thesis using st(1) lr_inv_bound [OF st(2)] by blast
qed

definition demo_rules :: "lrprod list" where
  "demo_rules = [(CHR 0x27, ''S''), (CHR ''S'', ''cA''), (CHR ''S'', ''dC''), (CHR ''C'', ''A''), (CHR ''C'', ''B''), (CHR ''A'', ''a''), (CHR ''B'', ''ab'')]"

definition demo_aug :: auggrammar where
  "demo_aug c = map snd (filter (\<lambda>p. fst p = c) demo_rules)"

theorem closure_correct_witness:
  "(CHR ''B'', ''.ab'') \<in> set (close_from demo_aug 0 [(CHR ''S'', ''d.C'')]) \<and> in_closure demo_aug {(CHR ''S'', ''d.C'')} (CHR ''A'', ''.a'')"
proof -
  have g: "aug_zero_free demo_aug" by (auto simp: aug_zero_free_def demo_aug_def demo_rules_def)
  have z: "\<forall>p \<in> set [(CHR ''S'', ''d.C'')]. zero_free p" by (simp add: zero_free_def)
  have c: "close_from demo_aug 0 [(CHR ''S'', ''d.C'')]
      = [(CHR ''S'', ''d.C''), (CHR ''C'', ''.A''), (CHR ''C'', ''.B''), (CHR ''A'', ''.a''), (CHR ''B'', ''.ab'')]" by code_simp
  have s: "set (close_from demo_aug 0 [(CHR ''S'', ''d.C'')]) = Collect (in_closure demo_aug (set [(CHR ''S'', ''d.C'')]))"
    by (rule conjunct1 [OF closure_correct [OF g z]])
  have "(CHR ''A'', ''.a'') \<in> Collect (in_closure demo_aug (set [(CHR ''S'', ''d.C'')]))" unfolding s [symmetric] by (simp add: c)
  then show ?thesis by (simp add: c)
qed

theorem lr0_main_ends_witness:
  "\<exists>st. lr0_main demo_aug [(CHR 0x27, ''.S'')] = Some st \<and> length (lr_items st) \<le> 18 \<and> (CHR 0x27, ''.S'') \<in> set (lr_prods (lr_items st ! 0))"
proof -
  have r: "rules_ok demo_aug demo_rules" by (auto simp: rules_ok_def demo_aug_def demo_rules_def)
  have d: "dots demo_rules = 17" by (simp add: dots_def demo_rules_def)
  have "set [(CHR 0x27, ''.S'')] \<subseteq> (\<lambda>(A, r). (A, CHR ''.'' # r)) ` set demo_rules" by (simp add: demo_rules_def)
  then show ?thesis using lr0_main_ends [OF r, of "[(CHR 0x27, ''.S'')]"] unfolding d by auto
qed

text \<open>
  The items are not those of the textbook.  For this grammar file the symbols \<open>c\<close> and then \<open>a\<close> lead to an item with
  \<open>B \<rightarrow> a.b\<close>, although the item after \<open>c\<close> has no production of \<open>B\<close>: an item found through \<^verbatim>\<open>globalGoto\<close> is shared by all
  items that have the production it was made for, and receives what each of them adds.  The first item has productions
  of \<open>C\<close>, which does not come up in the closure of the start production.
\<close>

theorem FFLR_items_conflated:
  "case FFLR_items [''a'', ''b'', ''c'', ''d'', ''S->cA'', ''S->dC'', ''C->A'', ''C->B'', ''A->a'', ''B->ab''] of None \<Rightarrow> False
   | Some st \<Rightarrow> lr_gotos (lr_items st ! 0) (CHR ''c'') = Some 4 \<and> lr_gotos (lr_items st ! 4) (CHR ''a'') = Some 6
       \<and> (CHR ''B'', ''a.b'') \<in> set (lr_prods (lr_items st ! 6)) \<and> (CHR ''B'', ''.ab'') \<notin> set (lr_prods (lr_items st ! 4))
       \<and> (CHR ''C'', ''.A'') \<in> set (lr_prods (lr_items st ! 0))"
  by code_simp

end
