(* ===== verification/Oldproc.thy ===== *)
theory Oldproc
  imports Proc "HOL-Library.Sublist"
begin

text \<open>
  The process module before priorities, \<^verbatim>\<open>src/OperatingSystem/proc.c\<close>: what differs from the later one, the
  round-robin scheduler and the listings \<^verbatim>\<open>cps\<close> and \<^verbatim>\<open>nps\<close>; its other functions are those of \<open>Proc\<close>.
  What the chosen process does until it comes back through \<^verbatim>\<open>swtch\<close> is an argument of the scheduler.
\<close>

section \<open>Scheduler\<close>

text \<open>The loop over the table; the value lists the processes switched to.\<close>

fun rr_loop :: "(nat \<Rightarrow> (unit, 'z kst_scheme) kop) \<Rightarrow> nat list \<Rightarrow> (nat list, 'z kst_scheme) kop" where
  "rr_loop run [] = ret []"
| "rr_loop run (p # ps) =
     bnd (proc_get p p_state) (\<lambda>st. if st \<noteq> RUNNABLE then rr_loop run ps else
     andthen (modify (\<lambda>s. s\<lparr>k_cur := Some p\<rparr>))
     (andthen (switchuvm (Some p))
     (andthen (proc_upd p (\<lambda>q. q\<lparr>p_state := RUNNING\<rparr>))
     (andthen (run p)
     (andthen switchkvm
     (andthen (modify (\<lambda>s. s\<lparr>k_cur := None\<rparr>))
     (bnd (rr_loop run ps) (\<lambda>ds. ret (p # ds)))))))))"

text \<open>One round of the endless loop of \<^verbatim>\<open>scheduler\<close>.\<close>

definition rr_round :: "(nat \<Rightarrow> (unit, 'z kst_scheme) kop) \<Rightarrow> (nat list, 'z kst_scheme) kop" where
  "rr_round run =
     andthen (acquire PtableLock)
     (bnd (rr_loop run [0..<NPROC]) (\<lambda>ds. andthen (release PtableLock) (ret ds)))"

section \<open>Listings\<close>

definition old_cps_line :: "string \<Rightarrow> string" where
  "old_cps_line st = ''%s '' @ tab @ '' %d '' @ tab @ '' '' @ st @ '' '' @ nl @ '' ''"

definition old_cps_row :: "proc \<Rightarrow> (unit, 'z kst_scheme) kop" where
  "old_cps_row p =
     (let args = [AStr (p_name p), AInt (word_of_int (p_pid p))]
      in if p_state p = SLEEPING then cprintf (old_cps_line ''SLEEPING'') args
         else if p_state p = RUNNING then cprintf (old_cps_line ''RUNNING'') args
         else ret ())"

definition old_cps :: "(int, 'z kst_scheme) kop" where
  "old_cps =
     andthen (acquire PtableLock)
     (andthen (cprintf (''name '' @ tab @ '' pid '' @ tab @ '' state '' @ nl) [])
     (bnd (fetch k_procs) (\<lambda>ps. andthen (for_each ps old_cps_row)
     (andthen (release PtableLock) (ret 22)))))"

definition nps_count :: "proc \<Rightarrow> u32 \<times> u32 \<Rightarrow> u32 \<times> u32" where
  "nps_count p = (\<lambda>(sleepproc, wakeproc).
     if p_state p = SLEEPING then (sleepproc + 1, wakeproc)
     else if p_state p = RUNNING then (sleepproc, wakeproc + 1) else (sleepproc, wakeproc))"

definition nps :: "(int, 'z kst_scheme) kop" where
  "nps =
     andthen (acquire PtableLock)
     (bnd (fetch k_procs) (\<lambda>ps. let (sleepproc, wakeproc) = fold nps_count ps (0, 0) in
      andthen (cprintf (''There are %d process sleeping '' @ nl) [AInt sleepproc])
      (andthen (cprintf (''There are %d process Running '' @ nl) [AInt wakeproc])
      (andthen (release PtableLock) (ret 23)))))"

section \<open>Lemmas\<close>

text \<open>What every process in the table needs to be switched to, with the table locked.\<close>

definition rr_inv :: "'z kst_scheme \<Rightarrow> bool" where
  "rr_inv s \<longleftrightarrow> PtableLock \<in> set (k_held s) \<and> length (k_procs s) = NPROC
     \<and> (\<forall>i < NPROC. p_state (k_procs s ! i) = RUNNABLE \<longrightarrow> p_kstack (k_procs s ! i) \<noteq> 0 \<and> p_pgdir (k_procs s ! i) \<noteq> 0)"

text \<open>
  The promise of a process that is given the CPU: it comes back with the table locked and in order, and it has left
  a waiting process \<open>j\<close> alone.
\<close>

definition comes_back :: "nat \<Rightarrow> (nat \<Rightarrow> (unit, 'z kst_scheme) kop) \<Rightarrow> bool" where
  "comes_back j run \<longleftrightarrow> (\<forall>p s. p < NPROC \<and> rr_inv s \<and> k_cur s = Some p \<and> p_state (k_procs s ! p) = RUNNING \<longrightarrow>
     (\<exists>t. run p s = Ok () t \<and> rr_inv t \<and>
        (p \<noteq> j \<and> runnable (k_procs s) j \<longrightarrow> runnable (k_procs t) j)))"

lemma wp_rr_loop:
  assumes "comes_back j run" and "rr_inv s" and "\<forall>p \<in> set ps. p < NPROC" and "distinct ps"
    and "j \<in> set ps \<longrightarrow> runnable (k_procs s) j"
  shows "wp (rr_loop run ps) (\<lambda>ds t. rr_inv t \<and> subseq ds ps \<and> (j \<in> set ps \<longrightarrow> j \<in> set ds)) s"
  using assms(2-5)
proof (induction ps arbitrary: s)
  case Nil
  then show ?case by (simp add: wp_rules)
next
  case (Cons p ps)
  show ?case
  proof (cases "p_state (k_procs s ! p) = RUNNABLE")
    case False
    then have "j \<noteq> p" using Cons.prems by auto
    then have "wp (rr_loop run ps) (\<lambda>ds t. rr_inv t \<and> subseq ds ps \<and> (j \<in> set ps \<longrightarrow> j \<in> set ds)) s"
      using Cons.prems by (intro Cons.IH) auto
    then show ?thesis using False \<open>j \<noteq> p\<close> by (auto simp: wp_rules elim!: wp_mono)
  next
    case True
    define u where "u = s\<lparr>k_cur := Some p, k_esp0 := p_kstack (k_procs s ! p) + KSTACKSIZE,
      k_cr3 := V2P (p_pgdir (k_procs s ! p)), k_procs := (k_procs s)[p := (k_procs s ! p)\<lparr>p_state := RUNNING\<rparr>]\<rparr>"
    have p: "p < NPROC" "p < length (k_procs s)" "p_kstack (k_procs s ! p) \<noteq> 0" "p_pgdir (k_procs s ! p) \<noteq> 0"
      using Cons.prems True by (auto simp: rr_inv_def)
    have u: "rr_inv u" "k_cur u = Some p" "p_state (k_procs u ! p) = RUNNING"
      using Cons.prems p by (auto simp: rr_inv_def u_def nth_list_update)
    then obtain t where t: "run p u = Ok () t" "rr_inv t" "p \<noteq> j \<and> runnable (k_procs u) j \<longrightarrow> runnable (k_procs t) j"
      using assms(1) p(1) by (auto simp: comes_back_def)
    define v where "v = t\<lparr>k_cr3 := V2P (k_kpgdir t), k_cur := None\<rparr>"
    have v: "rr_inv v" "j \<in> set ps \<longrightarrow> runnable (k_procs v) j"
      using t(2,3) Cons.prems p by (auto simp: rr_inv_def v_def u_def nth_list_update)
    have "wp (rr_loop run ps) (\<lambda>ds t. rr_inv t \<and> subseq ds ps \<and> (j \<in> set ps \<longrightarrow> j \<in> set ds)) v"
      using Cons.prems v by (intro Cons.IH) auto
    then have "wp (bnd (rr_loop run ps) (\<lambda>ds. ret (p # ds)))
        (\<lambda>ds t. rr_inv t \<and> subseq ds (p # ps) \<and> (j \<in> set (p # ps) \<longrightarrow> j \<in> set ds)) v"
      by (auto simp: wp_rules elim!: wp_mono)
    moreover have "rr_loop run (p # ps) s = bnd (rr_loop run ps) (\<lambda>ds. ret (p # ds)) v"
      using True p t(1) by (simp add: bnd_def [of "proc_get _ _"] proc_get_def switchuvm_def switchkvm_def proc_upd_def
          kdefs u_def v_def)
    ultimately show ?thesis by (simp only: wp_def)
  qed
qed

text \<open>With equal priorities the later scheduler goes on to the same process as the round robin.\<close>

fun rr_next :: "proc list \<Rightarrow> nat list \<Rightarrow> nat option" where
  "rr_next ps [] = None"
| "rr_next ps (i # is) = (if p_state (ps ! i) = RUNNABLE then Some i else rr_next ps is)"

theorem equal_priorities_round_robin:
  assumes "\<forall>p \<in> set ps. p_priority p = c"
  shows "sched_scan ps i = rr_next ps [i..<length ps]"
  using assms
proof (induction ps i rule: sched_scan.induct)
  case (1 ps i)
  have tie: "pick_high ps i = i" if "i < length ps"
    using "1.prems" that by (intro pick_high_tie) auto
  show ?case
  proof (cases "i < length ps")
    case False
    then show ?thesis by (subst sched_scan.simps) simp
  next
    case True
    then show ?thesis using "1.IH" "1.prems" tie by (subst sched_scan.simps) (auto simp: upt_rec [of i])
  qed
qed

text \<open>With priorities a process may starve: it is not chosen while another runnable one has a smaller value.\<close>

theorem low_priority_starves:
  assumes "runnable ps k" and "p_priority (ps ! k) < p_priority (ps ! j)"
  shows "sched_scan ps i \<noteq> Some j"
  using sched_scan_cases [of ps i] pick_high_props(2) [where ps = ps and i = k] assms by fastforce

lemma fold_nps_count:
  "fold nps_count ps (a, b) = (a + of_nat (length (filter (\<lambda>p. p_state p = SLEEPING) ps)),
     b + of_nat (length (filter (\<lambda>p. p_state p = RUNNING) ps)))"
  by (induction ps arbitrary: a b) (auto simp: nps_count_def)

lemma set_of_subseq: "subseq xs ys \<Longrightarrow> set xs \<subseteq> set ys"
  by (induction rule: list_emb.induct) auto

lemma subseq_sorted_wrt: "subseq xs ys \<Longrightarrow> sorted_wrt R ys \<Longrightarrow> sorted_wrt R xs"
  by (induction rule: list_emb.induct) (auto dest: set_of_subseq)

text \<open>\<^verbatim>\<open>nps\<close> reports how many processes sleep and how many run.\<close>

theorem nps_reports:
  assumes "PtableLock \<notin> set (k_held s)" "ConsLock \<notin> set (k_held s)"
  shows "nps s = Ok 23 (s\<lparr>k_out := k_out s
     @ ''There are '' @ printint (of_nat (length (filter (\<lambda>p. p_state p = SLEEPING) (k_procs s)))) 10 True @ '' process sleeping '' @ nl
     @ ''There are '' @ printint (of_nat (length (filter (\<lambda>p. p_state p = RUNNING) (k_procs s)))) 10 True @ '' process Running '' @ nl\<rparr>)"
  using assms by (auto simp: nps_def fold_nps_count cprintf_def nl_def kdefs)

section \<open>Property\<close>

text \<open>
  C19: the round robin serves everybody.  When every process that is given the CPU comes back and leaves the waiting
  process \<open>j\<close> alone, a round of the scheduler ends and has switched to \<open>j\<close>, and to no process more than once and
  in the order of the table.
\<close>

theorem round_robin_serves:
  assumes "comes_back j run" and "rr_inv (s\<lparr>k_held := PtableLock # k_held s\<rparr>)" and "PtableLock \<notin> set (k_held s)"
    and "runnable (k_procs s) j"
  shows "\<exists>ds t. rr_round run s = Ok ds t \<and> j \<in> set ds \<and> sorted_wrt (<) ds \<and> set ds \<subseteq> {0..<NPROC}"
proof -
  have j: "j < NPROC" using assms(2,4) by (simp add: rr_inv_def)
  have "wp (rr_loop run [0..<NPROC]) (\<lambda>ds t. rr_inv t \<and> subseq ds [0..<NPROC] \<and> (j \<in> set [0..<NPROC] \<longrightarrow> j \<in> set ds))
      (s\<lparr>k_held := PtableLock # k_held s\<rparr>)"
    using assms(2,4) by (intro wp_rr_loop [OF assms(1)]) auto
  then obtain ds t where ds: "rr_loop run [0..<NPROC] (s\<lparr>k_held := PtableLock # k_held s\<rparr>) = Ok ds t" "rr_inv t"
      "subseq ds [0..<NPROC]" "j \<in> set ds"
    using j by (auto simp: wp_iff)
  have "rr_round run s = Ok ds (t\<lparr>k_held := remove1 PtableLock (k_held t)\<rparr>)"
    using ds(1,2) assms(3) by (simp add: rr_round_def kdefs rr_inv_def)
  moreover have "sorted_wrt (<) ds" using subseq_sorted_wrt [OF ds(3), of "(<)"] by simp
  moreover have "set ds \<subseteq> {0..<NPROC}" using set_of_subseq [OF ds(3)] by simp
  ultimately show ?thesis using ds(4) by blast
qed

text \<open>A table in which every process waits; each exits when it is given the CPU.\<close>

definition demo_waiting :: kst where
  "demo_waiting = kst0\<lparr>k_procs := replicate NPROC (proc0\<lparr>p_state := RUNNABLE, p_kstack := 0x1000, p_pgdir := 0x2000\<rparr>)\<rparr>"

theorem round_robin_serves_witness:
  "\<exists>ds t. rr_round (\<lambda>p. proc_upd p (\<lambda>q. q\<lparr>p_state := ZOMBIE\<rparr>)) demo_waiting = Ok ds t \<and> 63 \<in> set ds
     \<and> sorted_wrt (<) ds \<and> set ds \<subseteq> {0..<NPROC}"
proof (rule round_robin_serves)
  show "comes_back 63 (\<lambda>p. proc_upd p (\<lambda>q. q\<lparr>p_state := ZOMBIE\<rparr>) :: (unit, kst) kop)"
    by (auto simp: comes_back_def proc_upd_def modify_def rr_inv_def nth_list_update)
qed (auto simp: demo_waiting_def rr_inv_def kst0_def NPROC_def)

end
