(* ===== verification/Cmos.thy ===== *)
theory Cmos
  imports Kprelude
begin

unbundle bit_operations_syntax

text \<open>
  The clock of \<^verbatim>\<open>lapic.c\<close>: \<^verbatim>\<open>cmos_read\<close>, \<^verbatim>\<open>fill_rtcdate\<close> and \<^verbatim>\<open>cmostime\<close>.  The chip goes on while it is read: the argument
  \<open>cm\<close> gives the contents of every register at each read, counted from the first.  The loop waits for two equal
  readings, so its result is of type \<open>option\<close>.
\<close>

section \<open>The code\<close>

record rtcdate =
  rtc_second :: u32
  rtc_minute :: u32
  rtc_hour :: u32
  rtc_day :: u32
  rtc_month :: u32
  rtc_year :: u32

type_synonym cmos = "nat \<Rightarrow> u8 \<Rightarrow> u8"

definition CMOS_STATA :: u8 where "CMOS_STATA = 0x0a"
definition CMOS_STATB :: u8 where "CMOS_STATB = 0x0b"
definition CMOS_UIP :: u32 where "CMOS_UIP = 0x80"
definition SECS :: u8 where "SECS = 0x00"
definition MINS :: u8 where "MINS = 0x02"
definition HOURS :: u8 where "HOURS = 0x04"
definition DAY :: u8 where "DAY = 0x07"
definition MONTH :: u8 where "MONTH = 0x08"
definition YEAR :: u8 where "YEAR = 0x09"

definition cmos_read :: "cmos \<Rightarrow> nat \<Rightarrow> u8 \<Rightarrow> u32" where
  "cmos_read cm n reg = ucast (cm n reg)"

definition fill_rtcdate :: "cmos \<Rightarrow> nat \<Rightarrow> rtcdate" where
  "fill_rtcdate cm n = \<lparr>rtc_second = cmos_read cm n SECS, rtc_minute = cmos_read cm (n + 1) MINS, rtc_hour = cmos_read cm (n + 2) HOURS,
     rtc_day = cmos_read cm (n + 3) DAY, rtc_month = cmos_read cm (n + 4) MONTH, rtc_year = cmos_read cm (n + 5) YEAR\<rparr>"

partial_function (option) cmos_loop :: "cmos \<Rightarrow> nat \<Rightarrow> rtcdate option" where
  "cmos_loop cm n =
     (let t1 = fill_rtcdate cm n in
      if cmos_read cm (n + 6) CMOS_STATA AND CMOS_UIP \<noteq> 0 then cmos_loop cm (n + 7)
      else if t1 = fill_rtcdate cm (n + 7) then Some t1 else cmos_loop cm (n + 13))"

definition CONV :: "u32 \<Rightarrow> u32" where
  "CONV x = drop_bit 4 x * 10 + (x AND 0xf)"

definition conv_date :: "rtcdate \<Rightarrow> rtcdate" where
  "conv_date t = \<lparr>rtc_second = CONV (rtc_second t), rtc_minute = CONV (rtc_minute t), rtc_hour = CONV (rtc_hour t),
     rtc_day = CONV (rtc_day t), rtc_month = CONV (rtc_month t), rtc_year = CONV (rtc_year t)\<rparr>"

definition cmostime :: "cmos \<Rightarrow> rtcdate option" where
  "cmostime cm =
     (let bcd = (cmos_read cm 0 CMOS_STATB AND 4 = 0) in
      case cmos_loop cm 1 of None \<Rightarrow> None
      | Some t1 \<Rightarrow> let r = (if bcd then conv_date t1 else t1) in Some (r\<lparr>rtc_year := rtc_year r + 2000\<rparr>))"

section \<open>Lemmas\<close>

definition bcd :: "nat \<Rightarrow> u32" where
  "bcd v = of_nat (v div 10 * 16 + v mod 10)"

lemma CONV_bcd: "v < 100 \<Longrightarrow> CONV (bcd v) = of_nat v"
proof -
  have "list_all (\<lambda>v. CONV (bcd v) = of_nat v) [0..<100]" by code_simp
  then show "v < 100 \<Longrightarrow> CONV (bcd v) = of_nat v" by (simp add: list_all_iff)
qed

text \<open>A reading the loop accepts.\<close>

definition steady_at :: "cmos \<Rightarrow> nat \<Rightarrow> bool" where
  "steady_at cm n \<longleftrightarrow> cmos_read cm (n + 6) CMOS_STATA AND CMOS_UIP = 0 \<and> fill_rtcdate cm n = fill_rtcdate cm (n + 7)"

lemma cmos_loop_ends:
  assumes "\<And>n. N \<le> n \<Longrightarrow> steady_at cm n"
  shows "\<exists>m \<ge> n. steady_at cm m \<and> cmos_loop cm n = Some (fill_rtcdate cm m)"
proof (induction "N - n" arbitrary: n rule: less_induct)
  case less
  show ?case
  proof (cases "steady_at cm n")
    case True
    then show ?thesis by (intro exI [of _ n]) (subst cmos_loop.simps, simp add: steady_at_def)
  next
    case False
    then have "n < N" using assms leI by blast
    then have d: "N - (n + 7) < N - n" "N - (n + 13) < N - n" by simp_all
    obtain k where k: "k = n + 7 \<or> k = n + 13" "cmos_loop cm n = cmos_loop cm k"
      using False cmos_loop.simps [of cm n] unfolding steady_at_def Let_def by metis
    then obtain m where "k \<le> m" "steady_at cm m" "cmos_loop cm k = Some (fill_rtcdate cm m)"
      using less.hyps [OF d(1)] less.hyps [OF d(2)] by blast
    then show ?thesis using k by (intro exI [of _ m]) auto
  qed
qed

text \<open>
  The time.  When the clock is steady from some read on, \<^verbatim>\<open>cmostime\<close> returns, and what it returns was read twice alike
  around a moment at which no update was under way; registers in either format that hold the numbers of a date
  give that date, in this century.
\<close>

theorem cmostime_consistent:
  assumes "\<And>n. N \<le> n \<Longrightarrow> steady_at cm n"
  shows "\<exists>m t. cmostime cm = Some t \<and> steady_at cm m \<and>
    (\<forall>s mi h d mo y. s < 100 \<and> mi < 100 \<and> h < 100 \<and> d < 100 \<and> mo < 100 \<and> y < 100 \<and>
       (let f = (if cmos_read cm 0 CMOS_STATB AND 4 = 0 then bcd else of_nat) in
        fill_rtcdate cm m = \<lparr>rtc_second = f s, rtc_minute = f mi, rtc_hour = f h, rtc_day = f d, rtc_month = f mo, rtc_year = f y\<rparr>) \<longrightarrow>
       t = \<lparr>rtc_second = of_nat s, rtc_minute = of_nat mi, rtc_hour = of_nat h, rtc_day = of_nat d, rtc_month = of_nat mo,
            rtc_year = of_nat (2000 + y)\<rparr>)"
proof -
  obtain m where m: "steady_at cm m" "cmos_loop cm 1 = Some (fill_rtcdate cm m)" using cmos_loop_ends [OF assms] by blast
  show ?thesis
    using m by (auto simp: cmostime_def Let_def conv_date_def CONV_bcd intro!: exI [of _ m])
qed

end
