(* ===== verification/Mp.thy ===== *)
theory Mp
  imports Cstring Kstate
begin

text \<open>
  Finding the processors, \<^verbatim>\<open>mp.c\<close>: the search for the floating pointer structure, the checks of the configuration
  table and the scan of its entries.  Memory is read at kernel addresses.  The scan may not end, so it has a result
  of type \<open>option\<close>.
\<close>

section \<open>Structures\<close>

definition mp_physaddr :: "mem \<Rightarrow> u32 \<Rightarrow> u32" where "mp_physaddr m p = load32 m (p + 4)"
definition mp_imcrp :: "mem \<Rightarrow> u32 \<Rightarrow> u8" where "mp_imcrp m p = m (p + 12)"
definition SIZEOF_mp :: u32 where "SIZEOF_mp = 16"

definition conf_length :: "mem \<Rightarrow> u32 \<Rightarrow> u16" where "conf_length m c = load16 m (c + 4)"
definition conf_version :: "mem \<Rightarrow> u32 \<Rightarrow> u8" where "conf_version m c = m (c + 6)"
definition conf_lapicaddr :: "mem \<Rightarrow> u32 \<Rightarrow> u32" where "conf_lapicaddr m c = load32 m (c + 36)"
definition SIZEOF_mpconf :: u32 where "SIZEOF_mpconf = 44"
definition SIZEOF_mpproc :: u32 where "SIZEOF_mpproc = 20"
definition SIZEOF_mpioapic :: u32 where "SIZEOF_mpioapic = 8"

definition MPPROC :: u8 where "MPPROC = 0"
definition MPBUS :: u8 where "MPBUS = 1"
definition MPIOAPIC :: u8 where "MPIOAPIC = 2"
definition MPIOINTR :: u8 where "MPIOINTR = 3"
definition MPLINTR :: u8 where "MPLINTR = 4"

section \<open>Searching\<close>

definition mp_sum :: "mem \<Rightarrow> u32 \<Rightarrow> nat \<Rightarrow> u8" where
  "mp_sum m a len = word_of_int (sum_list (map (\<lambda>i. uint (m (a + of_nat i))) [0..<len]))"

definition bytes4 :: "mem \<Rightarrow> u32 \<Rightarrow> u8 list" where
  "bytes4 m p = [m p, m (p + 1), m (p + 2), m (p + 3)]"

definition mpsearch1 :: "mem \<Rightarrow> u32 \<Rightarrow> nat \<Rightarrow> u32 option" where
  "mpsearch1 m a len =
     List.find (\<lambda>p. bytes4 m p = [0x5f, 0x4d, 0x50, 0x5f] \<and> mp_sum m p (unat SIZEOF_mp) = 0)
       (map (\<lambda>i. P2V a + of_nat i * SIZEOF_mp) [0..<(len + 15) div 16])"

definition mpsearch :: "mem \<Rightarrow> u32 option" where
  "mpsearch m =
     (let bda = P2V 0x400;
          p = push_bit 4 (push_bit 8 (ucast (m (bda + 0x0F))) OR ucast (m (bda + 0x0E))) :: u32;
          q = (push_bit 8 (ucast (m (bda + 0x14))) OR ucast (m (bda + 0x13))) * 1024 :: u32 in
      case (if p \<noteq> 0 then mpsearch1 m p 1024 else mpsearch1 m (q - 1024) 1024) of
        Some mp \<Rightarrow> Some mp
      | None \<Rightarrow> mpsearch1 m 0xF0000 0x10000)"

definition mpconfig :: "mem \<Rightarrow> (u32 \<times> u32) option" where
  "mpconfig m = (case mpsearch m of None \<Rightarrow> None
   | Some mp \<Rightarrow>
       if mp_physaddr m mp = 0 then None else
       let conf = P2V (mp_physaddr m mp) in
       if bytes4 m conf \<noteq> [0x50, 0x43, 0x4d, 0x50] then None
       else if conf_version m conf \<noteq> 1 \<and> conf_version m conf \<noteq> 4 then None
       else if mp_sum m conf (unat (conf_length m conf)) \<noteq> 0 then None
       else Some (mp, conf))"

section \<open>The entries\<close>

definition NCPU :: nat where "NCPU = 8"

record mpst =
  mp_apicids :: "u8 list"
  mp_ioapicid :: u8
  mp_ismp :: bool

definition add_cpu :: "u8 \<Rightarrow> mpst \<Rightarrow> mpst" where
  "add_cpu a s = (if length (mp_apicids s) < NCPU then s\<lparr>mp_apicids := mp_apicids s @ [a]\<rparr> else s)"

text \<open>The \<^verbatim>\<open>break\<close> in the default case leaves the \<^verbatim>\<open>switch\<close>, not the loop.\<close>

partial_function (option) mp_scan :: "mem \<Rightarrow> u32 \<Rightarrow> u32 \<Rightarrow> mpst \<Rightarrow> mpst option" where
  "mp_scan m e p s =
     (if \<not> p < e then Some s
      else if m p = MPPROC then mp_scan m e (p + SIZEOF_mpproc) (add_cpu (m (p + 1)) s)
      else if m p = MPIOAPIC then mp_scan m e (p + SIZEOF_mpioapic) (s\<lparr>mp_ioapicid := m (p + 1)\<rparr>)
      else if m p = MPBUS \<or> m p = MPIOINTR \<or> m p = MPLINTR then mp_scan m e (p + 8) s
      else mp_scan m e p (s\<lparr>mp_ismp := False\<rparr>))"

record mpinfo =
  mi_lapic :: u32
  mi_cpus :: "u8 list"
  mi_ioapicid :: u8
  mi_imcr :: bool

text \<open>\<open>None\<close> when the scan does not end; \<open>mi_imcr\<close> says that the mode register is written.\<close>

definition mpinit :: "mem \<Rightarrow> (string + mpinfo) option" where
  "mpinit m = (case mpconfig m of None \<Rightarrow> Some (Inl ''Expect to run on an SMP'')
   | Some (mp, conf) \<Rightarrow>
       (case mp_scan m (conf + ucast (conf_length m conf)) (conf + SIZEOF_mpconf) \<lparr>mp_apicids = [], mp_ioapicid = 0, mp_ismp = True\<rparr> of
          None \<Rightarrow> None
        | Some s \<Rightarrow> Some (if \<not> mp_ismp s then Inl (''Didn'' @ [CHR 0x27] @ ''t find a suitable machine'') else
            Inr \<lparr>mi_lapic = conf_lapicaddr m conf, mi_cpus = mp_apicids s, mi_ioapicid = mp_ioapicid s, mi_imcr = (mp_imcrp m mp \<noteq> 0)\<rparr>)))"

section \<open>Tables\<close>

datatype mpentry = Processor u8 | IoApic u8 | Skipped u8

fun entry_size :: "mpentry \<Rightarrow> u32" where
  "entry_size (Processor _) = 20" | "entry_size _ = 8"

fun entry_at :: "mem \<Rightarrow> u32 \<Rightarrow> mpentry \<Rightarrow> bool" where
  "entry_at m p (Processor a) \<longleftrightarrow> m p = MPPROC \<and> m (p + 1) = a"
| "entry_at m p (IoApic a) \<longleftrightarrow> m p = MPIOAPIC \<and> m (p + 1) = a"
| "entry_at m p (Skipped t) \<longleftrightarrow> m p = t \<and> t \<in> {MPBUS, MPIOINTR, MPLINTR}"

text \<open>The entries lie one behind the other from \<open>p\<close> to \<open>q\<close>, all of them before \<open>e\<close>.\<close>

fun table :: "mem \<Rightarrow> u32 \<Rightarrow> mpentry list \<Rightarrow> u32 \<Rightarrow> u32 \<Rightarrow> bool" where
  "table m p [] q e \<longleftrightarrow> q = p"
| "table m p (x # xs) q e \<longleftrightarrow> p < e \<and> entry_at m p x \<and> table m (p + entry_size x) xs q e"

fun note_entry :: "mpentry \<Rightarrow> mpst \<Rightarrow> mpst" where
  "note_entry (Processor a) s = add_cpu a s"
| "note_entry (IoApic a) s = s\<lparr>mp_ioapicid := a\<rparr>"
| "note_entry (Skipped t) s = s"

definition processors :: "mpentry list \<Rightarrow> u8 list" where
  "processors es = concat (map (\<lambda>x. case x of Processor a \<Rightarrow> [a] | _ \<Rightarrow> []) es)"

lemmas mp_types = MPPROC_def MPBUS_def MPIOAPIC_def MPIOINTR_def MPLINTR_def SIZEOF_mpproc_def SIZEOF_mpioapic_def

lemma mp_scan_entry: "p < e \<Longrightarrow> entry_at m p x \<Longrightarrow> mp_scan m e p s = mp_scan m e (p + entry_size x) (note_entry x s)"
  by (cases x; subst mp_scan.simps; auto simp: mp_types)

lemma mp_scan_table: "table m p es q e \<Longrightarrow> mp_scan m e p s = mp_scan m e q (fold note_entry es s)"
  by (induction es arbitrary: p s) (auto simp: mp_scan_entry)

lemma mp_scan_end: "\<not> q < e \<Longrightarrow> mp_scan m e q s = Some s"
  by (subst mp_scan.simps) simp

lemma mp_scan_stuck:
  assumes "q < e" "m q \<notin> {MPPROC, MPBUS, MPIOAPIC, MPIOINTR, MPLINTR}"
  shows "mp_scan m e q s = None"
proof -
  have "\<not> (m' = m \<and> e' = e \<and> p = q)" if "mp_scan m' e' p u = Some r" for m' e' p u r
    using that
  proof (rule mp_scan.raw_induct [where P = "\<lambda>m' e' p s r. \<not> (m' = m \<and> e' = e \<and> p = q)", rotated])
    fix f m' e' p s r
    assume ih: "\<And>m' e' p s r. f m' e' p s = Some r \<Longrightarrow> \<not> (m' = m \<and> e' = e \<and> p = q)"
      and r: "(if \<not> p < e' then Some s
        else if m' p = MPPROC then f m' e' (p + SIZEOF_mpproc) (add_cpu (m' (p + 1)) s)
        else if m' p = MPIOAPIC then f m' e' (p + SIZEOF_mpioapic) (s\<lparr>mp_ioapicid := m' (p + 1)\<rparr>)
        else if m' p = MPBUS \<or> m' p = MPIOINTR \<or> m' p = MPLINTR then f m' e' (p + 8) s
        else f m' e' p (s\<lparr>mp_ismp := False\<rparr>)) = Some r"
    show "\<not> (m' = m \<and> e' = e \<and> p = q)" using r assms by (auto dest: ih)
  qed
  then have "mp_scan m e q s \<noteq> Some r" for r by blast
  then show ?thesis by (cases "mp_scan m e q s") blast+
qed

lemma fold_note_entry:
  "length (mp_apicids s) \<le> NCPU \<Longrightarrow> mp_apicids (fold note_entry es s) = take NCPU (mp_apicids s @ processors es) \<and> mp_ismp (fold note_entry es s) = mp_ismp s"
proof (induction es arbitrary: s)
  case (Cons x es)
  show ?case
  proof (cases x)
    case (Processor a)
    then show ?thesis using Cons.IH [of "add_cpu a s"] Cons.prems by (auto simp: add_cpu_def processors_def take_Cons')
  qed (use Cons.IH [of "note_entry x s"] Cons.prems in \<open>auto simp: processors_def\<close>)
qed (simp add: processors_def)

section \<open>Properties\<close>

text \<open>
  C39: what \<^verbatim>\<open>mpinit\<close> makes of a table it accepts.  When the entries from the header on fill the table, it returns
  with the local APIC's address and the APIC numbers of the first eight processors in the order of the table; when
  the entries are followed, inside the table, by one of a type it does not know, it never returns: the loop stays
  at that entry.
\<close>

theorem mpinit_reads_table:
  assumes "mpconfig m = Some (mp, conf)" "e = conf + ucast (conf_length m conf)" "table m (conf + SIZEOF_mpconf) es q e"
  shows "(\<not> q < e \<longrightarrow> (\<exists>i. mpinit m = Some (Inr \<lparr>mi_lapic = conf_lapicaddr m conf, mi_cpus = take 8 (processors es), mi_ioapicid = i,
      mi_imcr = (mp_imcrp m mp \<noteq> 0)\<rparr>)))
    \<and> (q < e \<and> m q \<notin> {MPPROC, MPBUS, MPIOAPIC, MPIOINTR, MPLINTR} \<longrightarrow> mpinit m = None)"
proof -
  let ?s = "\<lparr>mp_apicids = [], mp_ioapicid = 0, mp_ismp = True\<rparr>"
  have t: "mp_scan m e (conf + SIZEOF_mpconf) ?s = mp_scan m e q (fold note_entry es ?s)" by (rule mp_scan_table [OF assms(3)])
  have "\<exists>i. mpinit m = Some (Inr \<lparr>mi_lapic = conf_lapicaddr m conf, mi_cpus = take 8 (processors es), mi_ioapicid = i, mi_imcr = (mp_imcrp m mp \<noteq> 0)\<rparr>)"
    if "\<not> q < e"
    using mp_scan_end [OF that] t assms(1,2) fold_note_entry [of ?s es] by (simp add: mpinit_def NCPU_def)
  moreover have "mpinit m = None" if "q < e" "m q \<notin> {MPPROC, MPBUS, MPIOAPIC, MPIOINTR, MPLINTR}"
    using mp_scan_stuck [of q e m] that t assms(1,2) by (simp add: mpinit_def)
  ultimately show ?thesis by blast
qed

text \<open>A machine with two processors, an interrupt controller and a bus.\<close>

definition demo_mem :: mem where
  "demo_mem a = (if a < 0x80020000 then
       (if a = 0x8000040F then 0x10 else if a = 0x80010000 then 0x5f else if a = 0x80010001 then 0x4d else if a = 0x80010002 then 0x50
        else if a = 0x80010003 then 0x5f else if a = 0x80010006 then 2 else if a = 0x80010008 then 1 else if a = 0x80010009 then 4
        else if a = 0x8001000a then 0x9e else 0)
     else if a < 0x80020008 then
       (if a = 0x80020000 then 0x50 else if a = 0x80020001 then 0x43 else if a = 0x80020002 then 0x4d else if a = 0x80020003 then 0x50
        else if a = 0x80020004 then 100 else if a = 0x80020006 then 1 else if a = 0x80020007 then 0x57 else 0)
     else if a = 0x80020027 then 0xfe else if a = 0x8002002d then 3 else if a = 0x80020041 then 7
     else if a = 0x80020054 then 2 else if a = 0x80020055 then 9 else if a = 0x8002005c then 1 else 0)"

lemma mpsearch1_first:
  assumes "0 < len" "bytes4 m (P2V a) = [0x5f, 0x4d, 0x50, 0x5f]" "mp_sum m (P2V a) 16 = 0"
  shows "mpsearch1 m a len = Some (P2V a)"
proof -
  have "0 < (len + 15) div 16" using assms(1) by simp
  then have "[0..<(len + 15) div 16] = 0 # [1..<(len + 15) div 16]" by (simp add: upt_conv_Cons)
  then show ?thesis using assms(2,3) by (simp add: mpsearch1_def SIZEOF_mp_def)
qed

theorem mpinit_reads_table_witness:
  "\<exists>i. mpinit demo_mem = Some (Inr \<lparr>mi_lapic = 0xfe000000, mi_cpus = [3, 7], mi_ioapicid = i, mi_imcr = False\<rparr>)"
proof -
  have b: "bytes4 demo_mem (P2V 0x10000) = [0x5f, 0x4d, 0x50, 0x5f]" "mp_sum demo_mem (P2V 0x10000) 16 = 0" by code_simp+
  have s: "mpsearch1 demo_mem 0x10000 1024 = Some 0x80010000"
    using mpsearch1_first [OF _ b, of 1024] by (simp add: P2V_def KERNBASE_def)
  have "push_bit 4 (push_bit 8 (ucast (demo_mem (P2V 0x400 + 0x0F))) OR ucast (demo_mem (P2V 0x400 + 0x0E))) = (0x10000 :: u32)" by code_simp
  then have "mpsearch demo_mem = Some 0x80010000" using s by (simp add: mpsearch_def Let_def)
  moreover have "mp_physaddr demo_mem 0x80010000 = 0x20000" "bytes4 demo_mem 0x80020000 = [0x50, 0x43, 0x4d, 0x50]" by code_simp+
  moreover have "conf_version demo_mem 0x80020000 = 1" "conf_length demo_mem 0x80020000 = 100" "mp_sum demo_mem 0x80020000 100 = 0" by code_simp+
  ultimately have c: "mpconfig demo_mem = Some (0x80010000, 0x80020000)" by (simp add: mpconfig_def P2V_def KERNBASE_def)
  have t: "table demo_mem (0x80020000 + SIZEOF_mpconf) [Processor 3, Processor 7, IoApic 9, Skipped 1] 0x80020064 0x80020064" by code_simp
  have "conf_lapicaddr demo_mem 0x80020000 = 0xfe000000" "mp_imcrp demo_mem 0x80010000 = 0" by code_simp+
  then show ?thesis using mpinit_reads_table [OF c _ t] \<open>conf_length demo_mem 0x80020000 = 100\<close> by (simp add: processors_def)
qed

end
