(* ===== verification/Boot.thy ===== *)
theory Boot
  imports Exec
begin

text \<open>
  The boot loader \<^verbatim>\<open>bootmain.c\<close>: reading sectors through the disk's registers, \<^verbatim>\<open>readseg\<close>, and loading the segments of
  the kernel.  Memory is physical; the disk delivers, for a sector and a byte in it, what is stored there.  The
  loops compare 32-bit pointers and need not end, so they have results of type \<open>option\<close>.  Memory holds data only: an
  image with a segment over the loader's own code at \<open>0x7c00\<close> or its stack below would overwrite what is running, which
  the model does not show; the kernel is linked at \<open>0x100000\<close>.
\<close>

section \<open>The code\<close>

type_synonym sectors = "nat \<Rightarrow> nat \<Rightarrow> u8"

definition SECTSIZE :: u32 where "SECTSIZE = 512"
definition BOOT_MAGIC :: u32 where "BOOT_MAGIC = 0x464C457F"
definition SCRATCH :: u32 where "SCRATCH = 0x10000"

text \<open>The sector the four address registers select: three bytes, and the low half of the fourth.\<close>

definition lba :: "u8 \<Rightarrow> u8 \<Rightarrow> u8 \<Rightarrow> u8 \<Rightarrow> nat" where
  "lba r3 r4 r5 r6 = unat r3 + 2 ^ 8 * unat r4 + 2 ^ 16 * unat r5 + 2 ^ 24 * (unat r6 mod 16)"

definition readsect :: "sectors \<Rightarrow> u32 \<Rightarrow> u32 \<Rightarrow> mem \<Rightarrow> mem" where
  "readsect disk dst offset m =
     (let s = lba (ucast offset) (ucast (drop_bit 8 offset)) (ucast (drop_bit 16 offset)) (ucast (drop_bit 24 offset) OR 0xE0) in
      (\<lambda>a. if unat (a - dst) < 512 then disk s (unat (a - dst)) else m a))"

partial_function (option) readseg_loop :: "sectors \<Rightarrow> u32 \<Rightarrow> u32 \<Rightarrow> u32 \<Rightarrow> mem \<Rightarrow> mem option" where
  "readseg_loop disk epa pa offset m =
     (if \<not> pa < epa then Some m else readseg_loop disk epa (pa + SECTSIZE) (offset + 1) (readsect disk pa offset m))"

definition readseg :: "sectors \<Rightarrow> u32 \<Rightarrow> u32 \<Rightarrow> u32 \<Rightarrow> mem \<Rightarrow> mem option" where
  "readseg disk pa count offset m =
     readseg_loop disk (pa + count) (pa - offset mod SECTSIZE) (offset div SECTSIZE + 1) m"

definition ph_at :: "mem \<Rightarrow> u32 \<Rightarrow> proghdr" where
  "ph_at m a = \<lparr>ph_type = load32 m a, ph_off = load32 m (a + 4), ph_vaddr = load32 m (a + 8), ph_paddr = load32 m (a + 12),
     ph_filesz = load32 m (a + 16), ph_memsz = load32 m (a + 20)\<rparr>"

definition load_seg :: "sectors \<Rightarrow> proghdr \<Rightarrow> mem \<Rightarrow> mem option" where
  "load_seg disk ph m = (case readseg disk (ph_paddr ph) (ph_filesz ph) (ph_off ph) m of None \<Rightarrow> None
   | Some m \<Rightarrow> Some (if ph_memsz ph > ph_filesz ph
       then stosb m (ph_paddr ph + ph_filesz ph) 0 (unat (ph_memsz ph - ph_filesz ph)) else m))"

partial_function (option) boot_segs :: "sectors \<Rightarrow> u32 \<Rightarrow> u32 \<Rightarrow> mem \<Rightarrow> mem option" where
  "boot_segs disk eph ph m =
     (if \<not> ph < eph then Some m
      else (case load_seg disk (ph_at m ph) m of None \<Rightarrow> None | Some m \<Rightarrow> boot_segs disk eph (ph + 32) m))"

text \<open>The entry point the loader calls, if it finds a kernel, and the memory then.\<close>

definition bootmain :: "sectors \<Rightarrow> mem \<Rightarrow> (u32 option \<times> mem) option" where
  "bootmain disk m = (case readseg disk SCRATCH 4096 0 m of None \<Rightarrow> None
   | Some m \<Rightarrow>
       if load32 m SCRATCH \<noteq> BOOT_MAGIC then Some (None, m) else
       let ph = SCRATCH + load32 m (SCRATCH + 28); eph = ph + 32 * ucast (load16 m (SCRATCH + 44)) in
       (case boot_segs disk eph ph m of None \<Rightarrow> None
        | Some m \<Rightarrow> Some (Some (load32 m (SCRATCH + 24)), m)))"

section \<open>Sectors\<close>

text \<open>The kernel image starts at sector 1.\<close>

definition kimage :: "sectors \<Rightarrow> nat \<Rightarrow> u8" where
  "kimage disk k = disk (k div 512 + 1) (k mod 512)"

lemma unat_or_low: "unat (x OR 0xE0 :: u8) mod 16 = unat (x :: u8) mod 16"
proof -
  have "take_bit 4 (x OR 0xE0 :: u8) = take_bit 4 x" by (simp add: take_bit_or)
  then have "take_bit 4 (unat (x OR 0xE0 :: u8)) = take_bit 4 (unat x)" by (metis unsigned_take_bit_eq)
  then show ?thesis by (simp add: take_bit_eq_mod)
qed

lemma four_bytes: "(x :: nat) mod 2 ^ 8 + 2 ^ 8 * (x div 2 ^ 8 mod 2 ^ 8) + 2 ^ 16 * (x div 2 ^ 16 mod 2 ^ 8) + 2 ^ 24 * (x div 2 ^ 24) = x"
proof -
  have "2 ^ 16 = (2 ^ 8 * 2 ^ 8 :: nat)" "2 ^ 24 = (2 ^ 16 * 2 ^ 8 :: nat)" by simp_all
  then have "x mod 2 ^ 16 = 2 ^ 8 * (x div 2 ^ 8 mod 2 ^ 8) + x mod 2 ^ 8" "x mod 2 ^ 24 = 2 ^ 16 * (x div 2 ^ 16 mod 2 ^ 8) + x mod 2 ^ 16"
    by (metis mod_mult2_eq)+
  then show ?thesis using mult_div_mod_eq [of "2 ^ 24" x] by linarith
qed

lemma lba_offset:
  fixes off :: u32
  assumes "unat off < 2 ^ 28"
  shows "lba (ucast off) (ucast (drop_bit 8 off)) (ucast (drop_bit 16 off)) (ucast (drop_bit 24 off) OR 0xE0) = unat off"
proof -
  have u: "unat (ucast (drop_bit k off) :: u8) = unat off div 2 ^ k mod 2 ^ 8" for k
    by (simp only: unsigned_ucast_eq unat_drop_bit_eq take_bit_eq_mod drop_bit_eq_div [of k "unat off"]) simp
  have lt: "unat off div 2 ^ 24 < 16" using assms by (simp add: div_less_iff_less_mult)
  have "unat (ucast (drop_bit 24 off) OR 0xE0 :: u8) mod 16 = unat (ucast (drop_bit 24 off) :: u8) mod 16"
    by (simp only: unat_or_low)
  then have 4: "unat (ucast (drop_bit 24 off) OR 0xE0 :: u8) mod 16 = unat off div 2 ^ 24" using u [of 24] lt by simp
  have "unat (ucast off :: u8) = unat off mod 2 ^ 8" by (simp add: unsigned_ucast_eq take_bit_eq_mod)
  then show ?thesis unfolding lba_def 4 u using four_bytes [of "unat off"] by (simp only:)
qed

lemma unat_minus_512: "unat ((x :: u32) - 512) = (if unat x < 512 then unat x + (2 ^ 32 - 512) else unat x - 512)"
  by (simp add: unat_sub_if' word_le_nat_alt not_less)

definition sectors_at :: "sectors \<Rightarrow> u32 \<Rightarrow> nat \<Rightarrow> nat \<Rightarrow> mem \<Rightarrow> mem" where
  "sectors_at disk pa s k m = (\<lambda>a. if unat (a - pa) < 512 * k then disk (s + unat (a - pa) div 512) (unat (a - pa) mod 512) else m a)"

lemma sectors_at_Suc:
  assumes "512 * Suc k \<le> 2 ^ 32" "unat off < 2 ^ 28"
  shows "sectors_at disk (pa + 512) (unat off + 1) k (readsect disk pa off m) = sectors_at disk pa (unat off) (Suc k) m"
proof
  fix a
  let ?d = "unat (a - pa)"
  have e: "a - (pa + 512) = (a - pa) - 512" by simp
  show "sectors_at disk (pa + 512) (unat off + 1) k (readsect disk pa off m) a = sectors_at disk pa (unat off) (Suc k) m a"
  proof (cases "?d < 512")
    case True
    then have "\<not> unat (a - (pa + 512)) < 512 * k" unfolding e unat_minus_512 using assms(1) by simp
    then show ?thesis using True lba_offset [OF assms(2)] by (simp add: sectors_at_def readsect_def Let_def)
  next
    case False
    then have d: "unat (a - (pa + 512)) = ?d - 512" unfolding e unat_minus_512 by simp
    have "?d div 512 = Suc ((?d - 512) div 512)" "?d mod 512 = (?d - 512) mod 512"
      using False by (simp_all add: le_div_geq le_mod_geq)
    then show ?thesis using False d by (auto simp: sectors_at_def readsect_def Let_def)
  qed
qed

lemma readseg_loop_ok:
  "unat pa + 512 * k < 2 ^ 32 \<Longrightarrow> unat off + k < 2 ^ 28 \<Longrightarrow> unat epa \<le> unat pa + 512 * k \<Longrightarrow> (0 < k \<longrightarrow> unat pa + 512 * (k - 1) < unat epa) \<Longrightarrow>
     readseg_loop disk epa pa off m = Some (sectors_at disk pa (unat off) k m)"
proof (induction k arbitrary: pa off m)
  case 0
  then show ?case by (subst readseg_loop.simps) (simp add: sectors_at_def word_less_nat_alt)
next
  case (Suc k)
  have u: "unat (pa + 512) = unat pa + 512" "unat (off + 1) = unat off + 1"
    using Suc.prems(1,2) unat_add_small [of pa 512] unat_add_small [of off 1] by simp_all
  have "0 < k \<longrightarrow> unat (pa + 512) + 512 * (k - 1) < unat epa" using Suc.prems(4) u by (cases k) simp_all
  then have "readseg_loop disk epa (pa + 512) (off + 1) (readsect disk pa off m) = Some (sectors_at disk (pa + 512) (unat off + 1) k (readsect disk pa off m))"
    using Suc.IH [of "pa + 512" "off + 1" "readsect disk pa off m"] Suc.prems u by simp
  moreover have "pa < epa" using Suc.prems(4) by (simp add: word_less_nat_alt)
  ultimately show ?case using sectors_at_Suc [of k off disk pa m] Suc.prems(1,2) by (subst readseg_loop.simps) (simp add: SECTSIZE_def)
qed

lemma readseg_ok:
  assumes low: "unat off mod 512 \<le> unat pa" and top: "unat pa + unat count + 512 \<le> 2 ^ 32" "(unat off + unat count) div 512 + 2 < 2 ^ 28"
  obtains m' where "readseg disk pa count off m = Some m'" "\<And>i. i < unat count \<Longrightarrow> m' (pa + of_nat i) = kimage disk (unat off + i)"
    "\<And>a. unat a < unat pa - unat off mod 512 \<or> unat pa + unat count + 512 \<le> unat a \<Longrightarrow> m' a = m a"
proof -
  define q r where "q = unat off div 512" and "r = unat off mod 512"
  have off: "unat off = q * 512 + r" "r < 512" by (simp_all add: q_def r_def)
  define k where "k = (r + unat count + 511) div 512"
  have k: "512 * k \<le> r + unat count + 511" "r + unat count \<le> 512 * k" unfolding k_def by (simp, simp add: minus_mod_eq_mult_div [symmetric])
  let ?p = "pa - off mod 512"
  have up: "unat ?p = unat pa - r" using low by (simp add: unat_sub_if' word_le_nat_alt unat_mod r_def)
  have us: "unat (off div 512 + 1) = q + 1"
  proof -
    have "unat (off div 512) = q" by (simp add: unat_div q_def)
    then show ?thesis using unat_add_small [of "off div 512" 1] top(2) off by simp
  qed
  have ue: "unat (pa + count) = unat pa + unat count" using top(1) unat_add_small [of pa count] by simp
  have sec: "unat (off div 512 + 1) + k < 2 ^ 28"
  proof -
    have "(q * 512 + (r + unat count)) div 512 = q + (r + unat count) div 512" by simp
    moreover have "k \<le> (r + unat count) div 512 + 1" unfolding k_def by simp
    ultimately show ?thesis using us top(2) off(1) by (simp add: add.assoc)
  qed
  have last: "0 < k \<longrightarrow> unat ?p + 512 * (k - 1) < unat (pa + count)"
    using k(1) up ue low by (cases k) (auto simp: r_def)
  have "readseg disk pa count off m = Some (sectors_at disk ?p (q + 1) k m)"
    using readseg_loop_ok [OF _ sec _ last, of disk m] k up ue us low top(1) by (simp add: readseg_def SECTSIZE_def r_def)
  moreover have "sectors_at disk ?p (q + 1) k m (pa + of_nat i) = kimage disk (unat off + i)" if i: "i < unat count" for i
  proof -
    have "unat (pa + of_nat i - ?p) = r + i"
    proof -
      have "r = unat (off mod 512)" by (simp add: r_def unat_mod)
      then have "of_nat r = off mod 512" by simp
      then have "pa + of_nat i - ?p = of_nat (r + i)" by simp
      moreover have "unat (of_nat (r + i) :: u32) = r + i" using i top(1) off(2) by (simp only: unat_of_nat) simp
      ultimately show ?thesis by metis
    qed
    moreover have "(q * 512 + (r + i)) div 512 = q + (r + i) div 512" "(q * 512 + (r + i)) mod 512 = (r + i) mod 512" by simp_all
    ultimately show ?thesis using i k(2) off(1) by (simp add: sectors_at_def kimage_def add.assoc)
  qed
  moreover have "sectors_at disk ?p (q + 1) k m a = m a" if a: "unat a < unat pa - unat off mod 512 \<or> unat pa + unat count + 512 \<le> unat a" for a
  proof -
    have "512 * k \<le> unat (a - ?p)"
    proof (cases "unat a < unat ?p")
      case True
      then have "unat (a - ?p) = unat a + 2 ^ 32 - unat ?p" by (simp add: unat_sub_if' word_le_nat_alt)
      then show ?thesis using k(1) up low top(1) off(2) by (simp add: r_def)
    next
      case False
      then have "unat (a - ?p) = unat a - unat ?p" by (simp add: unat_sub_if' word_le_nat_alt)
      then show ?thesis using a [folded r_def] False k(1) up low [folded r_def] by linarith
    qed
    then show ?thesis by (simp add: sectors_at_def)
  qed
  ultimately show thesis by (rule that)
qed

section \<open>Segments\<close>

definition seg_size :: "proghdr \<Rightarrow> nat" where
  "seg_size s = max (unat (ph_filesz s)) (unat (ph_memsz s))"

text \<open>The addresses the kernel finds the segment at, and those the loader may write for it.\<close>

definition seg_area :: "proghdr \<Rightarrow> nat set" where
  "seg_area s = {unat (ph_paddr s) ..< unat (ph_paddr s) + seg_size s}"

definition seg_touch :: "proghdr \<Rightarrow> nat set" where
  "seg_touch s = {unat (ph_paddr s) - unat (ph_off s) mod 512 ..< unat (ph_paddr s) + seg_size s + 512}"

definition seg_fits :: "proghdr \<Rightarrow> bool" where
  "seg_fits s \<longleftrightarrow> unat (ph_off s) mod 512 \<le> unat (ph_paddr s) \<and> unat (ph_paddr s) + seg_size s + 512 \<le> 2 ^ 32
     \<and> (unat (ph_off s) + unat (ph_filesz s)) div 512 + 2 < 2 ^ 28"

definition seg_loaded :: "sectors \<Rightarrow> proghdr \<Rightarrow> mem \<Rightarrow> bool" where
  "seg_loaded disk s m \<longleftrightarrow> (\<forall>i < seg_size s. m (ph_paddr s + of_nat i) = (if i < unat (ph_filesz s) then kimage disk (unat (ph_off s) + i) else 0))"

lemma in_range_iff: "unat a + n \<le> 2 ^ 32 \<Longrightarrow> in_range a n b \<longleftrightarrow> unat a \<le> unat b \<and> unat b < unat a + n"
proof -
  assume n: "unat a + n \<le> 2 ^ 32"
  have u: "unat (a + of_nat i) = unat a + i" if "i < n" for i
    using unat_add_small [of a "of_nat i"] that n by (simp add: unat_of_nat)
  show ?thesis
  proof
    assume "in_range a n b"
    then show "unat a \<le> unat b \<and> unat b < unat a + n" using u by (auto simp: in_range_def)
  next
    assume b: "unat a \<le> unat b \<and> unat b < unat a + n"
    then have i: "unat b - unat a < n" by linarith
    then have "b = a + of_nat (unat b - unat a)" using u [OF i] b by (simp add: word_unat_eq_iff)
    then show "in_range a n b" using i unfolding in_range_def by blast
  qed
qed

lemma load_seg_ok:
  assumes fits: "seg_fits s"
  obtains m' where "load_seg disk s m = Some m'" "seg_loaded disk s m'" "\<And>a. unat a \<notin> seg_touch s \<Longrightarrow> m' a = m a"
proof -
  let ?pa = "ph_paddr s" and ?fs = "ph_filesz s" and ?ms = "ph_memsz s"
  have F: "unat (ph_off s) mod 512 \<le> unat ?pa" "unat ?pa + unat ?fs + 512 \<le> 2 ^ 32" "(unat (ph_off s) + unat ?fs) div 512 + 2 < 2 ^ 28"
    "unat ?pa + unat ?ms + 512 \<le> 2 ^ 32"
    using fits by (auto simp: seg_fits_def seg_size_def)
  obtain m1 where m1: "readseg disk ?pa ?fs (ph_off s) m = Some m1" "\<And>i. i < unat ?fs \<Longrightarrow> m1 (?pa + of_nat i) = kimage disk (unat (ph_off s) + i)"
    "\<And>a. unat a < unat ?pa - unat (ph_off s) mod 512 \<or> unat ?pa + unat ?fs + 512 \<le> unat a \<Longrightarrow> m1 a = m a"
    using readseg_ok [OF F(1,2,3)] by metis
  define m2 where "m2 = (if ?ms > ?fs then stosb m1 (?pa + ?fs) 0 (unat (?ms - ?fs)) else m1)"
  have ue: "unat (?pa + ?fs) = unat ?pa + unat ?fs" using F(2) unat_add_small [of ?pa ?fs] by simp
  have ud: "unat (?ms - ?fs) = unat ?ms - unat ?fs" if "?ms > ?fs" using that by (simp add: unat_sub_if' word_less_nat_alt word_le_nat_alt)
  have m2: "m2 a = (if unat ?pa + unat ?fs \<le> unat a \<and> unat a < unat ?pa + unat ?ms then 0 else m1 a)" for a
  proof (cases "?ms > ?fs")
    case True
    then have lt: "unat ?fs < unat ?ms" by (simp add: word_less_nat_alt)
    then have "in_range (?pa + ?fs) (unat (?ms - ?fs)) a \<longleftrightarrow> unat ?pa + unat ?fs \<le> unat a \<and> unat a < unat ?pa + unat ?ms"
      using in_range_iff [of "?pa + ?fs" "unat (?ms - ?fs)" a] ue ud [OF True] F(4) by simp
    then show ?thesis using True by (simp add: m2_def stosb_val)
  qed (auto simp: m2_def word_less_nat_alt)
  have "seg_loaded disk s m2" unfolding seg_loaded_def
  proof (intro allI impI)
    fix i assume i: "i < seg_size s"
    have "unat (?pa + of_nat i) = unat ?pa + i" using i fits unat_add_small [of ?pa "of_nat i"] by (simp add: seg_fits_def unat_of_nat)
    then show "m2 (?pa + of_nat i) = (if i < unat ?fs then kimage disk (unat (ph_off s) + i) else 0)"
      using m1(2) [of i] i by (auto simp: m2 seg_size_def)
  qed
  moreover have "m2 a = m a" if "unat a \<notin> seg_touch s" for a
  proof -
    have "unat ?fs \<le> seg_size s" "unat ?ms \<le> seg_size s" by (simp_all add: seg_size_def)
    then show ?thesis using that m1(3) [of a] by (auto simp: m2 seg_touch_def not_le not_less)
  qed
  moreover have "load_seg disk s m = Some m2" using m1(1) by (simp add: load_seg_def m2_def)
  ultimately show thesis using that by blast
qed

lemma seg_loaded_frame:
  assumes "seg_loaded disk s m" "seg_fits s" "\<And>a. unat a \<in> seg_area s \<Longrightarrow> m' a = m a"
  shows "seg_loaded disk s m'"
  unfolding seg_loaded_def
proof (intro allI impI)
  fix i assume i: "i < seg_size s"
  have "unat (ph_paddr s + of_nat i) = unat (ph_paddr s) + i"
    using i assms(2) unat_add_small [of "ph_paddr s" "of_nat i"] by (simp add: seg_fits_def unat_of_nat)
  then show "m' (ph_paddr s + of_nat i) = (if i < unat (ph_filesz s) then kimage disk (unat (ph_off s) + i) else 0)"
    using assms(1,3) i by (simp add: seg_loaded_def seg_area_def)
qed

section \<open>The loader\<close>

definition scratch_area :: "nat set" where
  "scratch_area = {0x10000 ..< 0x11000}"

fun hdrs :: "mem \<Rightarrow> u32 \<Rightarrow> proghdr list \<Rightarrow> bool" where
  "hdrs m ph [] = True"
| "hdrs m ph (s # ss) = (ph_at m ph = s \<and> hdrs m (ph + 32) ss)"

lemma ph_at_frame:
  assumes "\<And>a. unat a \<in> scratch_area \<Longrightarrow> m' a = m a" "0x10000 \<le> unat ph" "unat ph + 32 \<le> 0x11000"
  shows "ph_at m' ph = ph_at m ph"
proof -
  have k: "m' (ph + k) = m (ph + k)" if "k < 32" for k
  proof -
    have "unat k < 32" using that by (simp add: word_less_nat_alt)
    then have "unat (ph + k) = unat ph + unat k" using assms(3) unat_add_small [of ph k] by simp
    then show ?thesis using assms \<open>unat k < 32\<close> by (simp add: scratch_area_def)
  qed
  have "m' (k + ph) = m (k + ph)" if "k < 32" for k using k [OF that] by (simp only: add.commute)
  then show ?thesis using k k [of 0] by (simp add: ph_at_def load32_def)
qed

lemma hdrs_frame:
  "(\<And>a. unat a \<in> scratch_area \<Longrightarrow> m' a = m a) \<Longrightarrow> hdrs m ph ss \<Longrightarrow> 0x10000 \<le> unat ph \<Longrightarrow> unat ph + 32 * length ss \<le> 0x11000 \<Longrightarrow> hdrs m' ph ss"
proof (induction ss arbitrary: ph)
  case (Cons s ss)
  have "unat (ph + 32) = unat ph + 32" using Cons.prems(4) unat_add_small [of ph 32] by simp
  then show ?case using Cons ph_at_frame [where ph = ph, OF Cons.prems(1)] by simp
qed simp

lemma boot_segs_ok:
  "hdrs m ph segs \<Longrightarrow> 0x10000 \<le> unat ph \<Longrightarrow> unat ph + 32 * length segs \<le> 0x11000 \<Longrightarrow> unat eph = unat ph + 32 * length segs \<Longrightarrow>
   \<forall>s\<in>set segs. seg_fits s \<and> seg_touch s \<inter> scratch_area = {} \<Longrightarrow> sorted_wrt (\<lambda>s t. seg_area s \<inter> seg_touch t = {}) segs \<Longrightarrow>
   \<exists>m'. boot_segs disk eph ph m = Some m' \<and> (\<forall>s\<in>set segs. seg_loaded disk s m') \<and> (\<forall>a. (\<forall>s\<in>set segs. unat a \<notin> seg_touch s) \<longrightarrow> m' a = m a)"
proof (induction segs arbitrary: ph m)
  case Nil
  then show ?case by (subst boot_segs.simps) (simp add: word_less_nat_alt)
next
  case (Cons s ss)
  have u: "unat (ph + 32) = unat ph + 32" using Cons.prems(3) unat_add_small [of ph 32] by simp
  obtain m1 where m1: "load_seg disk s m = Some m1" "seg_loaded disk s m1" "\<And>a. unat a \<notin> seg_touch s \<Longrightarrow> m1 a = m a"
    using load_seg_ok [of s disk m] Cons.prems(5) by auto
  have "m1 a = m a" if "unat a \<in> scratch_area" for a using m1(3) [of a] Cons.prems(5) that by auto
  then have "hdrs m1 (ph + 32) ss" using hdrs_frame [of m1 m "ph + 32" ss] Cons.prems(1-3) u by simp
  then obtain m' where m': "boot_segs disk eph (ph + 32) m1 = Some m'" "\<forall>s\<in>set ss. seg_loaded disk s m'"
      "\<forall>a. (\<forall>s\<in>set ss. unat a \<notin> seg_touch s) \<longrightarrow> m' a = m1 a"
    using Cons.IH [of m1 "ph + 32"] Cons.prems u by auto
  have "m' a = m1 a" if "unat a \<in> seg_area s" for a using m'(3) Cons.prems(6) that by auto
  then have "seg_loaded disk s m'" using seg_loaded_frame [OF m1(2)] Cons.prems(5) by simp
  moreover have "boot_segs disk eph ph m = Some m'"
    using m1(1) m'(1) Cons.prems(1,4) by (subst boot_segs.simps) (simp add: word_less_nat_alt)
  ultimately show ?case using m' m1(3) by auto
qed

text \<open>The image is an ELF file whose program headers \<open>segs\<close> lie in its first page.\<close>

definition elf_image :: "sectors \<Rightarrow> u32 \<Rightarrow> proghdr list \<Rightarrow> bool" where
  "elf_image disk entry segs \<longleftrightarrow> (let M = (\<lambda>a. kimage disk (unat (a - SCRATCH))); phoff = load32 M (SCRATCH + 28) in
     load32 M SCRATCH = BOOT_MAGIC \<and> load32 M (SCRATCH + 24) = entry \<and> unat (load16 M (SCRATCH + 44)) = length segs
     \<and> unat phoff + 32 * length segs \<le> 4096 \<and> hdrs M (SCRATCH + phoff) segs)"

lemma first_page:
  obtains m1 where "readseg disk SCRATCH 4096 0 m = Some m1" "\<And>a. unat a \<in> scratch_area \<Longrightarrow> m1 a = kimage disk (unat (a - SCRATCH))"
proof -
  obtain m1 where m1: "readseg disk SCRATCH 4096 0 m = Some m1" "\<And>i. i < 4096 \<Longrightarrow> m1 (SCRATCH + of_nat i) = kimage disk i"
  proof (rule readseg_ok [of 0 SCRATCH 4096 disk m])
    fix m1
    assume "readseg disk SCRATCH 4096 0 m = Some m1" "\<And>i. i < unat (4096 :: u32) \<Longrightarrow> m1 (SCRATCH + of_nat i) = kimage disk (unat (0 :: u32) + i)"
    then show thesis using that [of m1] by simp
  qed (simp_all add: SCRATCH_def)
  have "m1 a = kimage disk (unat (a - SCRATCH))" if "unat a \<in> scratch_area" for a
  proof -
    have "unat (a - SCRATCH) < 4096" using that by (simp add: scratch_area_def SCRATCH_def unat_sub_if' word_le_nat_alt) linarith
    from m1(2) [OF this] show ?thesis by simp
  qed
  then show thesis using that m1(1) by blast
qed

lemma scratch_loads:
  assumes "\<And>a. unat a \<in> scratch_area \<Longrightarrow> m' a = m a"
  shows "load32 m' SCRATCH = load32 m SCRATCH" "load32 m' (SCRATCH + 24) = load32 m (SCRATCH + 24)"
    "load32 m' (SCRATCH + 28) = load32 m (SCRATCH + 28)" "load16 m' (SCRATCH + 44) = load16 m (SCRATCH + 44)"
  using assms by (simp_all add: load32_def load16_def SCRATCH_def scratch_area_def)

section \<open>Properties\<close>

text \<open>
  C40: the boot loader loads the kernel.  For an ELF image from sector 1 on whose program headers lie in the first
  page, and whose segments leave the scratch page alone and are in an order in which loading one, rounded to whole
  sectors, does not touch an earlier one, the loader ends, calls the entry point of the header, and then every
  segment stands at its physical address, filled up with zeros to its size in memory.
\<close>

theorem bootmain_loads_kernel:
  assumes "elf_image disk entry segs" "\<forall>s\<in>set segs. seg_fits s \<and> seg_touch s \<inter> scratch_area = {}"
    "sorted_wrt (\<lambda>s t. seg_area s \<inter> seg_touch t = {}) segs"
  shows "\<exists>m'. bootmain disk m = Some (Some entry, m') \<and> (\<forall>s\<in>set segs. seg_loaded disk s m')"
proof -
  let ?M = "\<lambda>a. kimage disk (unat (a - SCRATCH))"
  obtain m1 where m1: "readseg disk SCRATCH 4096 0 m = Some m1" "\<And>a. unat a \<in> scratch_area \<Longrightarrow> m1 a = ?M a" using first_page by blast
  note L = scratch_loads [of m1 ?M, OF m1(2)] and E = assms(1) [unfolded elf_image_def Let_def]
  let ?ph = "SCRATCH + load32 m1 (SCRATCH + 28)" and ?n = "load16 m1 (SCRATCH + 44)"
  have n: "unat ?n = length segs" "unat (load32 m1 (SCRATCH + 28)) + 32 * length segs \<le> 4096" using E L by simp_all
  have ph: "unat ?ph = 0x10000 + unat (load32 m1 (SCRATCH + 28))" using n(2) unat_add_small [of SCRATCH "load32 m1 (SCRATCH + 28)"] by (simp add: SCRATCH_def)
  have "unat (32 * ucast ?n :: u32) = 32 * length segs"
    using n by (simp add: unat_word_ariths unsigned_ucast_eq take_bit_nat_eq_self)
  then have eph: "unat (?ph + 32 * ucast ?n) = unat ?ph + 32 * length segs" using n(2) ph unat_add_small [of ?ph "32 * ucast ?n"] by simp
  have "hdrs m1 ?ph segs" using hdrs_frame [where ph = ?ph and ss = segs, OF m1(2)] E L(3) ph n(2) by simp
  then obtain m' where m': "boot_segs disk (?ph + 32 * ucast ?n) ?ph m1 = Some m'" "\<forall>s\<in>set segs. seg_loaded disk s m'"
      "\<forall>a. (\<forall>s\<in>set segs. unat a \<notin> seg_touch s) \<longrightarrow> m' a = m1 a"
    using boot_segs_ok [of m1 ?ph segs "?ph + 32 * ucast ?n" disk] ph n(2) eph assms(2,3) by auto
  have "m' a = m1 a" if "unat a \<in> scratch_area" for a using m'(3) assms(2) that by blast
  then have "load32 m' (SCRATCH + 24) = entry" using scratch_loads(2) [of m' m1] L(2) E by simp
  then show ?thesis using m' m1(1) L(1) E by (simp add: bootmain_def Let_def)
qed

text \<open>One segment of two bytes in the file and four in memory.\<close>

definition demo_kernel :: sectors where
  "demo_kernel s b = (if s = 1 then
       (if b = 0 then 0x7f else if b = 1 then 0x45 else if b = 2 then 0x4c else if b = 3 then 0x46 else if b = 24 then 0x0c else if b = 26 then 0x10
        else if b = 28 then 52 else if b = 44 then 1 else if b = 52 then 1 else if b = 57 then 0x10 else if b = 66 then 0x10
        else if b = 68 then 2 else if b = 72 then 4 else 0)
     else if s = 9 \<and> b = 0 then 0xab else if s = 9 \<and> b = 1 then 0xcd else 0)"

definition demo_seg :: proghdr where
  "demo_seg = \<lparr>ph_type = 1, ph_off = 0x1000, ph_vaddr = 0, ph_paddr = 0x100000, ph_filesz = 2, ph_memsz = 4\<rparr>"

theorem bootmain_loads_kernel_witness:
  "\<exists>m'. bootmain demo_kernel (\<lambda>_. 0) = Some (Some 0x10000c, m') \<and> m' 0x100001 = 0xcd \<and> m' 0x100003 = 0"
proof -
  let ?M = "\<lambda>a. kimage demo_kernel (unat (a - SCRATCH))"
  have l: "load32 ?M SCRATCH = BOOT_MAGIC" "load32 ?M (SCRATCH + 24) = 0x10000c" "load32 ?M (SCRATCH + 28) = 52" "load16 ?M (SCRATCH + 44) = 1" by code_simp+
  have p: "ph_at ?M (SCRATCH + 52) = demo_seg" by code_simp
  have e: "elf_image demo_kernel 0x10000c [demo_seg]" by (simp add: elf_image_def l p)
  have f: "seg_fits demo_seg \<and> seg_touch demo_seg \<inter> scratch_area = {}" by (auto simp: seg_fits_def seg_touch_def seg_size_def scratch_area_def demo_seg_def)
  obtain m' where m': "bootmain demo_kernel (\<lambda>_. 0) = Some (Some 0x10000c, m')" "seg_loaded demo_kernel demo_seg m'"
    using bootmain_loads_kernel [OF e] f by auto
  have z: "seg_size demo_seg = 4" by (simp add: seg_size_def demo_seg_def)
  have b: "kimage demo_kernel 0x1001 = 0xcd" by code_simp
  have "m' (0x100000 + of_nat 1) = 0xcd" "m' (0x100000 + of_nat 3) = 0"
    using m'(2) [unfolded seg_loaded_def z, rule_format, of 1] m'(2) [unfolded seg_loaded_def z, rule_format, of 3] b
    by (simp_all add: demo_seg_def)
  then show ?thesis using m'(1) by auto
qed

end
