(* ===== verification/Uprogs.thy ===== *)
theory Uprogs
  imports Kprelude
begin

text \<open>
  Two user programs: \<^verbatim>\<open>wc.c\<close> and \<^verbatim>\<open>cat.c\<close>.  A file is what successive calls of \<^verbatim>\<open>read\<close> deliver until it reports the end
  or an error; \<^verbatim>\<open>open\<close> and \<^verbatim>\<open>write\<close> succeed or fail as parameters say.  Output is the list of what is written.
\<close>

section \<open>Files\<close>

record ufile =
  u_chunks :: "string list"
  u_error :: bool

datatype uout = Bytes string | Counts u32 u32 u32 string | Complaint string string

section \<open>wc\<close>

definition wc_space :: string where "wc_space = [CHR 0x20, CHR 0x0D, CHR 0x09, CHR 0x0A, CHR 0x0B]"

record wcst =
  wc_l :: u32
  wc_w :: u32
  wc_c :: u32
  wc_inword :: bool

definition wc_byte :: "char \<Rightarrow> wcst \<Rightarrow> wcst" where
  "wc_byte b s =
     (let s = s\<lparr>wc_c := wc_c s + 1\<rparr>; s = (if b = CHR 0x0A then s\<lparr>wc_l := wc_l s + 1\<rparr> else s) in
      if b \<in> set wc_space then s\<lparr>wc_inword := False\<rparr>
      else if \<not> wc_inword s then s\<lparr>wc_w := wc_w s + 1, wc_inword := True\<rparr> else s)"

definition wc :: "ufile \<Rightarrow> string \<Rightarrow> uout + uout" where
  "wc f name =
     (let s = fold (\<lambda>buf s. fold wc_byte buf s) (u_chunks f) \<lparr>wc_l = 0, wc_w = 0, wc_c = 0, wc_inword = False\<rparr> in
      if u_error f then Inl (Complaint ''wc: read error'' '''') else Inr (Counts (wc_l s) (wc_w s) (wc_c s) name))"

text \<open>\<^verbatim>\<open>main\<close> stops at the first complaint.\<close>

fun wc_files :: "(string \<rightharpoonup> ufile) \<Rightarrow> string list \<Rightarrow> uout list" where
  "wc_files fs [] = []"
| "wc_files fs (a # as) = (case fs a of None \<Rightarrow> [Complaint ''wc: cannot open'' a]
     | Some f \<Rightarrow> (case wc f a of Inl e \<Rightarrow> [e] | Inr r \<Rightarrow> r # wc_files fs as))"

definition wc_main :: "ufile \<Rightarrow> (string \<rightharpoonup> ufile) \<Rightarrow> string list \<Rightarrow> uout list" where
  "wc_main stdin fs args = (if args = [] then [case wc stdin '''' of Inl e \<Rightarrow> e | Inr r \<Rightarrow> r] else wc_files fs args)"

section \<open>cat\<close>

text \<open>\<open>room\<close> says how much of a chunk the output takes; the flag of the result, whether the program goes on.\<close>

fun cat_chunks :: "(string \<Rightarrow> nat) \<Rightarrow> string list \<Rightarrow> bool \<Rightarrow> uout list \<times> bool" where
  "cat_chunks room [] err = (if err then ([Complaint ''cat: read error'' ''''], False) else ([], True))"
| "cat_chunks room (buf # bs) err =
     (let n = min (room buf) (length buf) in
      if n \<noteq> length buf then ([Bytes (take n buf), Complaint ''cat: write error'' ''''], False)
      else (case cat_chunks room bs err of (out, on) \<Rightarrow> (Bytes buf # out, on)))"

definition cat :: "(string \<Rightarrow> nat) \<Rightarrow> ufile \<Rightarrow> uout list \<times> bool" where
  "cat room f = cat_chunks room (u_chunks f) (u_error f)"

fun cat_files :: "(string \<Rightarrow> nat) \<Rightarrow> (string \<rightharpoonup> ufile) \<Rightarrow> string list \<Rightarrow> uout list" where
  "cat_files room fs [] = []"
| "cat_files room fs (a # as) = (case fs a of None \<Rightarrow> [Complaint ''cat: cannot open'' a]
     | Some f \<Rightarrow> (case cat room f of (out, on) \<Rightarrow> if on then out @ cat_files room fs as else out))"

definition cat_main :: "(string \<Rightarrow> nat) \<Rightarrow> ufile \<Rightarrow> (string \<rightharpoonup> ufile) \<Rightarrow> string list \<Rightarrow> uout list" where
  "cat_main room stdin fs args = (if args = [] then fst (cat room stdin) else cat_files room fs args)"

section \<open>What they compute\<close>

text \<open>The words of a text: the pieces between white space that are not empty.\<close>

fun text_pieces :: "string \<Rightarrow> string list" where
  "text_pieces [] = [[]]"
| "text_pieces (c # cs) = (if c \<in> set wc_space then [] # text_pieces cs else (c # hd (text_pieces cs)) # tl (text_pieces cs))"

definition word_count :: "string \<Rightarrow> nat" where
  "word_count s = length (filter (\<lambda>w. w \<noteq> []) (text_pieces s))"

lemma text_pieces_nonempty [simp]: "text_pieces s \<noteq> []"
  by (cases s) auto

text \<open>A text that continues a word has one word less to count if it starts with a letter.\<close>

definition more_words :: "bool \<Rightarrow> string \<Rightarrow> nat" where
  "more_words inword s = word_count s - (if inword \<and> s \<noteq> [] \<and> hd s \<notin> set wc_space then 1 else 0)"

lemma word_count_Cons:
  "word_count [] = 0" "c \<in> set wc_space \<Longrightarrow> word_count (c # cs) = word_count cs"
  "c \<notin> set wc_space \<Longrightarrow> word_count (c # cs) = more_words True cs + 1"
proof -
  show "word_count [] = 0" by (simp add: word_count_def)
  show "word_count (c # cs) = word_count cs" if "c \<in> set wc_space" using that by (simp add: word_count_def)
  show "word_count (c # cs) = more_words True cs + 1" if "c \<notin> set wc_space"
    using that by (cases cs) (auto simp: word_count_def more_words_def)
qed

lemma wc_byte_fields:
  "wc_l (wc_byte c s) = wc_l s + (if c = CHR 0x0A then 1 else 0)" "wc_c (wc_byte c s) = wc_c s + 1"
  "wc_inword (wc_byte c s) = (c \<notin> set wc_space)" "wc_w (wc_byte c s) = wc_w s + (if c \<in> set wc_space \<or> wc_inword s then 0 else 1)"
  by (simp_all add: wc_byte_def Let_def)

lemma fold_wc_byte:
  "fold wc_byte cs s = \<lparr>wc_l = wc_l s + of_nat (count_list cs (CHR 0x0A)), wc_w = wc_w s + of_nat (more_words (wc_inword s) cs),
     wc_c = wc_c s + of_nat (length cs), wc_inword = (if cs = [] then wc_inword s else last cs \<notin> set wc_space)\<rparr>"
proof (induction cs arbitrary: s)
  case Nil
  then show ?case by (simp add: more_words_def word_count_Cons)
next
  case (Cons c cs)
  have w: "more_words False x = word_count x" for x by (simp add: more_words_def)
  show ?case
  proof (cases "c \<in> set wc_space")
    case True
    then show ?thesis using Cons.IH [of "wc_byte c s"] word_count_Cons(2) [OF True, of cs]
      by (simp add: wc_byte_fields more_words_def)
  next
    case False
    have m: "more_words (wc_inword s) (c # cs) = (if wc_inword s then 0 else 1) + more_words True cs"
      using word_count_Cons(3) [OF False, of cs] False by (simp add: more_words_def)
    have "c \<noteq> CHR 0x0A" using False by (auto simp: wc_space_def)
    then show ?thesis using Cons.IH [of "wc_byte c s"] False m by (simp add: wc_byte_fields)
  qed
qed

text \<open>
  \<^verbatim>\<open>wc\<close> counts right, however the file comes in pieces: the newlines, the maximal runs of characters other than
  white space, and the bytes of the whole text, modulo the width of the counters.
\<close>

theorem wc_counts:
  assumes "\<not> u_error f"
  shows "wc f name = Inr (let t = concat (u_chunks f) in
     Counts (of_nat (count_list t (CHR 0x0A))) (of_nat (word_count t)) (of_nat (length t)) name)"
proof -
  have "fold (\<lambda>buf s. fold wc_byte buf s) bs s = fold wc_byte (concat bs) s" for bs s by (induction bs arbitrary: s) simp_all
  then show ?thesis using assms by (simp add: wc_def Let_def fold_wc_byte more_words_def)
qed

theorem wc_counts_witness:
  "wc \<lparr>u_chunks = [''ab c'', ''d e'' @ [CHR 0x0A]], u_error = False\<rparr> ''f'' = Inr (Counts 1 3 8 ''f'')"
  using wc_counts [of "\<lparr>u_chunks = [''ab c'', ''d e'' @ [CHR 0x0A]], u_error = False\<rparr>" "''f''"]
  by (simp add: word_count_def wc_space_def Let_def)

lemma cat_copies:
  assumes "\<not> u_error f" "\<forall>b\<in>set (u_chunks f). length b \<le> room b"
  shows "cat room f = (map Bytes (u_chunks f), True)"
proof -
  have "cat_chunks room bs False = (map Bytes bs, True)" if "\<forall>b\<in>set bs. length b \<le> room b" for bs
    using that by (induction bs) (auto simp: Let_def)
  then show ?thesis using assms by (simp add: cat_def)
qed

end
