(* ===== verification/Vmmap.thy ===== *)
theory Vmmap
  imports Vm
begin

text \<open>
  Correctness of \<^verbatim>\<open>walkpgdir\<close> and \<^verbatim>\<open>mappages\<close>.  A page directory owns its page tables: pages of their own,
  disjoint from each other and from the free list (\<open>pgdir_ok\<close>).  The abstract view of the two levels is
  the function \<open>entry\<close> from virtual addresses to page-table entries, 0 where there is no table.
\<close>

section \<open>Words in pages\<close>

definition wslot :: "u32 \<Rightarrow> nat \<Rightarrow> u32" where
  "wslot p i = p + of_nat (4 * i)"

abbreviation page :: "u32 \<Rightarrow> bool" where
  "page p \<equiv> unat p mod 4096 = 0"

definition pdx :: "u32 \<Rightarrow> nat" where "pdx va = unat (PDX va)"
definition ptx :: "u32 \<Rightarrow> nat" where "ptx va = unat (PTX va)"

lemma low10: "unat ((x :: u32) AND 0x3FF) = unat x mod 1024"
proof -
  have "x AND 0x3FF = x AND mask 10" by (simp add: mask_eq_exp_minus_1)
  also have "\<dots> = x mod 1024" by (simp add: take_bit_eq_mask [symmetric] take_bit_eq_mod)
  finally show ?thesis by (simp add: unat_mod)
qed

lemma pdx_div: "pdx va = unat va div 4194304"
proof -
  have "drop_bit 22 va = va div 4194304" by (simp add: drop_bit_eq_div)
  then have "pdx va = unat va div 4194304 mod 1024" by (simp add: pdx_def PDX_def low10 unat_div)
  moreover have "unat va < 2 ^ 32" using unsigned_less [of va, where 'a = nat] by simp
  ultimately show ?thesis by simp
qed

lemma ptx_div: "ptx va = unat va div 4096 mod 1024"
proof -
  have "drop_bit 12 va = va div 4096" by (simp add: drop_bit_eq_div)
  then show ?thesis by (simp add: ptx_def PTX_def low10 unat_div)
qed

lemma pdx_ptx_lt [simp]: "pdx va < 1024" "ptx va < 1024"
  using unsigned_less [of va, where 'a = nat] by (simp_all add: pdx_div ptx_div less_mult_imp_div_less)

lemma pdx_ptx_eq: "pdx v = pdx w \<and> ptx v = ptx w \<longleftrightarrow> unat v div 4096 = unat w div 4096"
proof -
  have "unat x div 4194304 = unat x div 4096 div 1024" for x :: u32 by (simp add: div_mult2_eq [symmetric])
  then show ?thesis unfolding pdx_div ptx_div by (metis div_mult_mod_eq)
qed

lemma slot_PDX: "d + 4 * PDX va = wslot d (pdx va)" and slot_PTX: "d + 4 * PTX va = wslot d (ptx va)"
  by (simp_all add: wslot_def pdx_def ptx_def)

lemma slot_byte: "k < 4 \<Longrightarrow> wslot p i + of_nat k = p + of_nat (4 * i + k)"
  by (simp add: wslot_def)

lemma load_slot_cong:
  assumes "\<And>k. k < 4096 \<Longrightarrow> m (p + of_nat k) = m' (p + of_nat k)" "i < 1024"
  shows "load32 m (wslot p i) = load32 m' (wslot p i)"
proof (rule page_load32)
  fix k :: nat
  assume "k < 4"
  then show "m (wslot p i + of_nat k) = m' (wslot p i + of_nat k)"
    using assms(1) [of "4 * i + k"] assms(2) by (simp only: slot_byte)
qed

lemma store_slot_other_page:
  assumes "page p" "page q" "p \<noteq> q" "i < 1024" "k < 4096"
  shows "store32 m (wslot p i) x (q + of_nat k) = m (q + of_nat k)"
proof -
  have "q + of_nat k \<noteq> wslot p i + of_nat j" if "j < 4" for j :: nat
    using page_disjoint [OF assms(2,1) _ assms(5), of "4 * i + j"] assms(3,4) that by (simp add: slot_byte del: of_nat_add of_nat_mult)
  from this [of 0] this [of 1] this [of 2] this [of 3] show ?thesis by (simp add: store32_def)
qed

lemma slot_off: "page p \<Longrightarrow> i < 1024 \<Longrightarrow> k < 4 \<Longrightarrow> unat (wslot p i + of_nat k) = unat p + (4 * i + k)"
  by (simp only: slot_byte) (rule page_off, simp_all)

lemma load_store_slot_same_page:
  assumes "page p" "i < 1024" "j < 1024" "i \<noteq> j"
  shows "load32 (store32 m (wslot p i) x) (wslot p j) = load32 m (wslot p j)"
proof (rule page_load32)
  fix k :: nat
  assume k: "k < 4"
  have "wslot p j + of_nat k \<noteq> wslot p i + of_nat l" if "l < 4" for l :: nat
  proof
    assume "wslot p j + of_nat k = wslot p i + of_nat l"
    then have "4 * j + k = 4 * i + l" using slot_off [OF assms(1,3) k] slot_off [OF assms(1,2) that] by simp
    then show False using assms(4) k that by presburger
  qed
  from this [of 0] this [of 1] this [of 2] this [of 3]
  show "store32 m (wslot p i) x (wslot p j + of_nat k) = m (wslot p j + of_nat k)" by (simp add: store32_def)
qed

lemma load_store_slot:
  assumes "page p" "page q" "i < 1024" "j < 1024"
  shows "load32 (store32 m (wslot p i) x) (wslot q j) = (if p = q \<and> i = j then x else load32 m (wslot q j))"
proof (cases "p = q")
  case True
  then show ?thesis using load_store_slot_same_page assms by (cases "i = j") auto
next
  case False
  then show ?thesis using load_slot_cong [of "store32 m (wslot p i) x" q m j] store_slot_other_page [OF assms(1,2) False assms(3)] assms(4) by simp
qed

lemma load_memset_slot:
  assumes "page p" "page q" "j < 1024"
  shows "load32 (memset m p 0 PGSIZE) (wslot q j) = (if p = q then 0 else load32 m (wslot q j))"
proof (cases "p = q")
  case True
  have "load32 (memset m p 0 PGSIZE) (wslot q j) = load32 (\<lambda>_. 0) (wslot q j)"
    by (rule load_slot_cong [OF _ assms(3)]) (use True in \<open>auto simp: memset_val PGSIZE_def in_range_def\<close>)
  then show ?thesis using True by (simp add: load32_def)
next
  case False
  then show ?thesis using load_slot_cong [of "memset m p 0 PGSIZE" q m j] memset_page_other [OF assms(1,2)] assms(3) by auto
qed

section \<open>The abstract page table\<close>

definition ptab :: "u32 \<Rightarrow> u32" where
  "ptab e = P2V (PTE_ADDR e)"

definition pde :: "mem \<Rightarrow> u32 \<Rightarrow> nat \<Rightarrow> u32" where
  "pde m d i = load32 m (wslot d i)"

definition entry :: "mem \<Rightarrow> u32 \<Rightarrow> u32 \<Rightarrow> u32" where
  "entry m d va = (if pde m d (pdx va) AND PTE_P = 0 then 0 else load32 m (wslot (ptab (pde m d (pdx va))) (ptx va)))"

lemma translate_entry:
  "translate m d va = (if entry m d va AND PTE_P = 0 then None else Some (P2V (PTE_ADDR (entry m d va)) + (va AND 0xFFF)))"
  by (simp add: translate_def entry_def pde_def ptab_def slot_PDX slot_PTX Let_def)

text \<open>The pages of a directory: itself and its tables.\<close>

definition pgdir_pages :: "mem \<Rightarrow> u32 \<Rightarrow> u32 set" where
  "pgdir_pages m d = insert d ((\<lambda>i. ptab (pde m d i)) ` {i. i < 1024 \<and> pde m d i AND PTE_P \<noteq> 0})"

lemma pgdir_pages_cong:
  assumes "\<forall>i<1024. pde m' d i = pde m d i"
  shows "pgdir_pages m' d = pgdir_pages m d"
proof -
  have "{i. i < 1024 \<and> pde m' d i AND PTE_P \<noteq> 0} = {i. i < 1024 \<and> pde m d i AND PTE_P \<noteq> 0}" using assms by auto
  then show ?thesis unfolding pgdir_pages_def using assms by (auto intro!: image_cong arg_cong [of _ _ "insert d"])
qed

definition pgdir_ok :: "'z mst_scheme \<Rightarrow> u32 \<Rightarrow> u32 list \<Rightarrow> bool" where
  "pgdir_ok s d ps \<longleftrightarrow> kmem_rep s ps \<and> page d \<and> d \<notin> set ps
     \<and> (\<forall>i<1024. pde (m_mem s) d i AND PTE_P \<noteq> 0 \<longrightarrow>
          page (ptab (pde (m_mem s) d i)) \<and> ptab (pde (m_mem s) d i) \<noteq> d \<and> ptab (pde (m_mem s) d i) \<notin> set ps \<and> ptab (pde (m_mem s) d i) \<noteq> 0
          \<and> (\<forall>j<1024. pde (m_mem s) d j AND PTE_P \<noteq> 0 \<and> ptab (pde (m_mem s) d j) = ptab (pde (m_mem s) d i) \<longrightarrow> j = i))"

lemma pgdir_okD:
  assumes "pgdir_ok s d ps"
  shows "kmem_rep s ps" "page d" "d \<notin> set ps"
    and "i < 1024 \<Longrightarrow> pde (m_mem s) d i AND PTE_P \<noteq> 0 \<Longrightarrow> page (ptab (pde (m_mem s) d i))"
    and "i < 1024 \<Longrightarrow> pde (m_mem s) d i AND PTE_P \<noteq> 0 \<Longrightarrow> ptab (pde (m_mem s) d i) \<noteq> d"
    and "i < 1024 \<Longrightarrow> pde (m_mem s) d i AND PTE_P \<noteq> 0 \<Longrightarrow> ptab (pde (m_mem s) d i) \<notin> set ps"
    and "i < 1024 \<Longrightarrow> pde (m_mem s) d i AND PTE_P \<noteq> 0 \<Longrightarrow> ptab (pde (m_mem s) d i) \<noteq> 0"
    and "i < 1024 \<Longrightarrow> j < 1024 \<Longrightarrow> pde (m_mem s) d i AND PTE_P \<noteq> 0 \<Longrightarrow> pde (m_mem s) d j AND PTE_P \<noteq> 0
      \<Longrightarrow> ptab (pde (m_mem s) d j) = ptab (pde (m_mem s) d i) \<Longrightarrow> j = i"
  using assms unfolding pgdir_ok_def by blast+

text \<open>Changes of memory that touch only the pages of the directory.\<close>

definition vframe :: "u32 set \<Rightarrow> 'z mst_scheme \<Rightarrow> 'z mst_scheme \<Rightarrow> bool" where
  "vframe P s t \<longleftrightarrow> t = s\<lparr>m_mem := m_mem t, m_freelist := m_freelist t\<rparr>
     \<and> (\<forall>q k. page q \<and> q \<notin> P \<and> k < 4096 \<longrightarrow> m_mem t (q + of_nat k) = m_mem s (q + of_nat k))"

lemma kmem_rep_frame:
  assumes "kmem_rep s ps" "\<And>q k. q \<in> set ps \<Longrightarrow> k < 4096 \<Longrightarrow> m (q + of_nat k) = m_mem s (q + of_nat k)"
  shows "kmem_rep (s\<lparr>m_mem := m\<rparr>) ps"
proof -
  have "load32 m p = load32 (m_mem s) p" if "p \<in> set ps" for p
    by (rule page_load32) (use assms(2) [OF that] in simp)
  then show ?thesis using assms(1) flist_cong [of ps m "m_mem s"] by (simp add: kmem_rep_def)
qed

section \<open>Storing an entry\<close>

lemma store_entry:
  fixes s :: "'z mst_scheme" and x :: u32
  assumes ok: "pgdir_ok s d ps" and e: "pde (m_mem s) d (pdx va) AND PTE_P \<noteq> 0"
  defines "p \<equiv> ptab (pde (m_mem s) d (pdx va))"
  defines "t \<equiv> s\<lparr>m_mem := store32 (m_mem s) (wslot p (ptx va)) x\<rparr>"
  shows "pgdir_ok t d ps" "\<forall>i<1024. pde (m_mem t) d i = pde (m_mem s) d i"
    "entry (m_mem t) d v = (if unat v div 4096 = unat va div 4096 then x else entry (m_mem s) d v)" "vframe {p} s t"
proof -
  let ?m = "store32 (m_mem s) (wslot p (ptx va)) x"
  note D = pgdir_okD [OF ok]
  have p: "page p" "p \<noteq> d" "p \<notin> set ps" using D(4-6) e by (simp_all add: p_def)
  have pd: "pde ?m d i = pde (m_mem s) d i" if "i < 1024" for i
    using load_store_slot [OF p(1) D(2), of "ptx va" i] that p(2) by (simp add: pde_def)
  then show "\<forall>i<1024. pde (m_mem t) d i = pde (m_mem s) d i" by (simp add: t_def)
  have "kmem_rep t ps" unfolding t_def
  proof (rule kmem_rep_frame [OF D(1)])
    fix q k
    assume "q \<in> set ps" "(k :: nat) < 4096"
    moreover then have "page q" using D(1) kpage_mod by (auto simp: kmem_rep_def)
    ultimately show "?m (q + of_nat k) = m_mem s (q + of_nat k)" using p by (intro store_slot_other_page) auto
  qed
  then show "pgdir_ok t d ps" using ok pd unfolding pgdir_ok_def by (simp add: t_def)
  have "load32 ?m (wslot (ptab (pde (m_mem s) d (pdx v))) (ptx v))
      = (if pdx va = pdx v \<and> ptx va = ptx v then x else load32 (m_mem s) (wslot (ptab (pde (m_mem s) d (pdx v))) (ptx v)))"
    if "pde (m_mem s) d (pdx v) AND PTE_P \<noteq> 0"
    using load_store_slot [OF p(1) D(4) [OF _ that], of "ptx va" "ptx v"] D(8) [of "pdx va" "pdx v"] e that by (auto simp: p_def)
  note L = this
  show "entry (m_mem t) d v = (if unat v div 4096 = unat va div 4096 then x else entry (m_mem s) d v)"
  proof (cases "pde (m_mem s) d (pdx v) AND PTE_P = 0")
    case True
    then have "unat v div 4096 \<noteq> unat va div 4096" using e pdx_ptx_eq [of v va] by metis
    then show ?thesis using True pd [of "pdx v"] by (simp add: entry_def t_def)
  next
    case False
    have "(pdx va = pdx v \<and> ptx va = ptx v) = (unat v div 4096 = unat va div 4096)" using pdx_ptx_eq [of va v] by metis
    then show ?thesis using False pd [of "pdx v"] L [OF False] by (simp add: entry_def t_def)
  qed
  show "vframe {p} s t" using store_slot_other_page [OF p(1)] unfolding vframe_def t_def by auto
qed

section \<open>Walking the directory\<close>

lemma table_entry:
  assumes "kpage e p"
  defines "w \<equiv> V2P p OR PTE_P OR PTE_W OR PTE_U"
  shows "ptab w = p" "w AND PTE_P \<noteq> 0"
proof -
  have "PTE_P OR PTE_W OR PTE_U = (7 :: u32)" by (simp add: PTE_P_def PTE_W_def PTE_U_def)
  then have w: "w = V2P p OR 7" by (simp add: w_def)
  have "page p" using assms kpage_mod by blast
  have "unat p \<ge> 0x80000000" using assms(1) V2P_lt(2) by (simp add: kpage_def)
  then have u: "unat (V2P p) = unat p - 0x80000000" unfolding V2P_def KERNBASE_def
    by (subst unat_sub_small) (simp_all add: word_le_nat_alt)
  moreover obtain k where "unat p = 4096 * k" using \<open>page p\<close> by (metis mod_eq_0_iff_dvd dvd_def)
  ultimately have "unat (V2P p) = 4096 * (k - 524288)" by simp
  then have "unat (V2P p) mod 4096 = 0" by (metis mod_mult_self1_is_0)
  then have "unat (V2P p AND NOT 0xFFF) = unat (V2P p)" unfolding unat_and_not_page by (metis add.right_neutral div_mult_mod_eq)
  then have v: "V2P p AND NOT 0xFFF = V2P p" by (simp add: word_unat_eq_iff)
  have "(7 :: u32) AND NOT 0xFFF = 0" by simp
  then have "PTE_ADDR w = V2P p" unfolding w PTE_ADDR_def using v by (simp add: bit.conj_disj_distrib2)
  then show "ptab w = p" by (simp add: ptab_def P2V_def V2P_def)
  have "w AND PTE_P = 1" unfolding w PTE_P_def by (simp add: bit.conj_disj_distrib2)
  then show "w AND PTE_P \<noteq> 0" by simp
qed

lemma walk_present:
  assumes "pde (m_mem s) d (pdx va) AND PTE_P \<noteq> 0"
  shows "walkpgdir d va alloc s = Ok (wslot (ptab (pde (m_mem s) d (pdx va))) (ptx va)) s"
  using assms by (simp add: walkpgdir_def Let_def slot_PDX slot_PTX mem_ld_def kdefs pde_def ptab_def)

text \<open>Memory after a new page table \<open>p\<close> has been entered for index \<open>i\<close> of the directory.\<close>

definition new_tab :: "mem \<Rightarrow> u32 \<Rightarrow> nat \<Rightarrow> u32 \<Rightarrow> mem" where
  "new_tab m d i p = store32 (memset m p 0 PGSIZE) (wslot d i) (V2P p OR PTE_P OR PTE_W OR PTE_U)"

lemma new_tab_mem:
  assumes "page d" "kpage e p" "p \<noteq> d" "i < 1024"
  shows "j < 1024 \<Longrightarrow> pde (new_tab m d i p) d j = (if j = i then V2P p OR PTE_P OR PTE_W OR PTE_U else pde m d j)"
    and "page q \<Longrightarrow> q \<noteq> d \<Longrightarrow> j < 1024 \<Longrightarrow> load32 (new_tab m d i p) (wslot q j) = (if q = p then 0 else load32 m (wslot q j))"
    and "page q \<Longrightarrow> q \<noteq> d \<Longrightarrow> q \<noteq> p \<Longrightarrow> k < 4096 \<Longrightarrow> new_tab m d i p (q + of_nat k) = m (q + of_nat k)"
proof -
  note P = kpage_mod [OF assms(2)]
  show "pde (new_tab m d i p) d j = (if j = i then V2P p OR PTE_P OR PTE_W OR PTE_U else pde m d j)" if "j < 1024"
    using that assms P by (simp add: pde_def new_tab_def load_store_slot load_memset_slot)
  show "load32 (new_tab m d i p) (wslot q j) = (if q = p then 0 else load32 m (wslot q j))" if "page q" "q \<noteq> d" "j < 1024"
    using that P assms by (auto simp: new_tab_def load_store_slot load_memset_slot)
  show "new_tab m d i p (q + of_nat k) = m (q + of_nat k)" if "page q" "q \<noteq> d" "q \<noteq> p" "k < 4096"
    using store_slot_other_page [OF assms(1) that(1) _ assms(4) that(4)] memset_page_other [OF P that(1,3,4)] that(2) by (simp add: new_tab_def)
qed

text \<open>A new page table: every entry reads as before, namely as absent.\<close>

lemma new_tab_entry:
  assumes ok: "pgdir_ok s d (p # ps)" and e: "pde (m_mem s) d (pdx va) AND PTE_P = 0"
  shows "entry (new_tab (m_mem s) d (pdx va) p) d v = entry (m_mem s) d v"
proof -
  note D = pgdir_okD [OF ok]
  have kp: "kpage (m_end s) p" "p \<noteq> d" using D(1,3) by (auto simp: kmem_rep_def)
  note M = new_tab_mem [OF D(2) kp pdx_ptx_lt(1) [of va], where m = "m_mem s"] and W = table_entry [OF kp(1)]
  show ?thesis
  proof (cases "pdx v = pdx va")
    case True
    then show ?thesis using e W M(1) [of "pdx va"] M(2) [OF kpage_mod [OF kp(1)] kp(2), of "ptx v"] by (simp add: entry_def)
  next
    case False
    have "load32 (new_tab (m_mem s) d (pdx va) p) (wslot (ptab (pde (m_mem s) d (pdx v))) (ptx v)) = load32 (m_mem s) (wslot (ptab (pde (m_mem s) d (pdx v))) (ptx v))"
      if "pde (m_mem s) d (pdx v) AND PTE_P \<noteq> 0" using M(2) [OF D(4,5) [OF _ that]] D(6) [OF _ that] by auto
    then show ?thesis using False M(1) [of "pdx v"] by (simp add: entry_def)
  qed
qed

lemma new_tab_ok:
  fixes s :: "'z mst_scheme"
  assumes ok: "pgdir_ok s d (p # ps)" and e: "pde (m_mem s) d (pdx va) AND PTE_P = 0"
  defines "t \<equiv> s\<lparr>m_freelist := load32 (m_mem s) p, m_mem := new_tab (m_mem s) d (pdx va) p\<rparr>"
  shows "pgdir_ok t d ps"
proof -
  note D = pgdir_okD [OF ok]
  have kp: "kpage (m_end s) p" "p \<noteq> d" "p \<notin> set ps" using D(1,3) by (auto simp: kmem_rep_def)
  note M = new_tab_mem [OF D(2) kp(1,2) pdx_ptx_lt(1) [of va], where m = "m_mem s"]
  have "kmem_rep (s\<lparr>m_freelist := load32 (m_mem s) p, m_mem := new_tab (m_mem s) d (pdx va) p\<rparr>) ps"
  proof (rule kmem_rep_frame)
    show "kmem_rep (s\<lparr>m_freelist := load32 (m_mem s) p\<rparr>) ps" using kmem_rep_kalloc [OF D(1)] by auto
    fix q k
    assume "q \<in> set ps" "(k :: nat) < 4096"
    moreover then have "page q" using D(1) kpage_mod by (auto simp: kmem_rep_def)
    ultimately show "new_tab (m_mem s) d (pdx va) p (q + of_nat k) = m_mem (s\<lparr>m_freelist := load32 (m_mem s) p\<rparr>) (q + of_nat k)"
      using M(3) [of q k] kp D(3) by auto
  qed
  then have k: "kmem_rep t ps" by (simp add: t_def)
  show ?thesis unfolding pgdir_ok_def
  proof (intro conjI allI impI k D(2))
    show "d \<notin> set ps" using D(3) by simp
    fix i
    assume i: "i < 1024" "pde (m_mem t) d i AND PTE_P \<noteq> 0"
    have c: "ptab (pde (m_mem t) d i) = (if i = pdx va then p else ptab (pde (m_mem s) d i))" if "i < 1024" for i
      using M(1) [OF that] table_entry [OF kp(1)] by (simp add: t_def)
    have o: "i \<noteq> pdx va \<Longrightarrow> pde (m_mem s) d i AND PTE_P \<noteq> 0" if "i < 1024" "pde (m_mem t) d i AND PTE_P \<noteq> 0" for i
      using M(1) [OF that(1)] that(2) by (simp add: t_def)
    note O = D(4-7) [OF i(1) o [OF i]]
    show "page (ptab (pde (m_mem t) d i))" "ptab (pde (m_mem t) d i) \<noteq> d" "ptab (pde (m_mem t) d i) \<notin> set ps" "ptab (pde (m_mem t) d i) \<noteq> 0"
      unfolding c [OF i(1)] using O kpage_mod [OF kp(1)] kp kpage_nonzero [OF kp(1)] by (cases "i = pdx va"; simp)+
    fix j
    assume j: "j < 1024" "pde (m_mem t) d j AND PTE_P \<noteq> 0 \<and> ptab (pde (m_mem t) d j) = ptab (pde (m_mem t) d i)"
    then show "j = i" using c [OF i(1)] c [OF j(1)] O(3) D(6) [OF j(1)] o [OF j(1)] o [OF i] D(8) [OF i(1) j(1)]
      by (auto split: if_splits)
  qed
qed

text \<open>\<^verbatim>\<open>walkpgdir\<close> with \<^verbatim>\<open>alloc\<close> set: the address of the entry, the table made if needed; 0 only when
  memory is used up.\<close>

definition walked :: "'z mst_scheme \<Rightarrow> u32 \<Rightarrow> u32 list \<Rightarrow> 'z mst_scheme \<Rightarrow> u32 list \<Rightarrow> bool" where
  "walked s d ps t ps' \<longleftrightarrow> pgdir_ok t d ps' \<and> (\<exists>used. ps = used @ ps') \<and> (\<forall>v. entry (m_mem t) d v = entry (m_mem s) d v)
     \<and> vframe (pgdir_pages (m_mem s) d \<union> set ps) s t \<and> pgdir_pages (m_mem t) d \<subseteq> pgdir_pages (m_mem s) d \<union> set ps"

lemma vframe_refl: "vframe P s s"
  by (simp add: vframe_def)

lemma vframe_mono: "vframe P s t \<Longrightarrow> P \<subseteq> Q \<Longrightarrow> vframe Q s t"
  unfolding vframe_def by (meson subsetD)

lemma vframe_trans:
  assumes "vframe P s t" "vframe P t u"
  shows "vframe P s u"
proof -
  have t: "t = s\<lparr>m_mem := m_mem t, m_freelist := m_freelist t\<rparr>" using assms(1) by (simp add: vframe_def)
  have "t\<lparr>m_mem := x, m_freelist := y\<rparr> = s\<lparr>m_mem := x, m_freelist := y\<rparr>" for x y by (subst t) simp
  then have "u = s\<lparr>m_mem := m_mem u, m_freelist := m_freelist u\<rparr>" using assms(2) unfolding vframe_def by metis
  then show ?thesis using assms unfolding vframe_def by metis
qed

lemma walkpgdir_alloc:
  assumes ok: "pgdir_ok s d ps"
  shows "(\<exists>t ps'. walkpgdir d va True s = Ok (wslot (ptab (pde (m_mem t) d (pdx va))) (ptx va)) t
      \<and> pde (m_mem t) d (pdx va) AND PTE_P \<noteq> 0 \<and> walked s d ps t ps')
    \<or> ps = [] \<and> walkpgdir d va True s = Ok 0 s"
proof (cases "pde (m_mem s) d (pdx va) AND PTE_P = 0")
  case False
  then show ?thesis using walk_present [OF False] ok vframe_refl
    by (intro disjI1 exI [of _ s] exI [of _ ps]) (auto simp: walked_def)
next
  case True
  show ?thesis
  proof (cases ps)
    case Nil
    then show ?thesis using True kmem_rep_kalloc_empty [of s] pgdir_okD(1) [OF ok]
      by (simp add: walkpgdir_def Let_def slot_PDX mem_ld_def kdefs pde_def)
  next
    case (Cons p qs)
    let ?t = "s\<lparr>m_freelist := load32 (m_mem s) p, m_mem := new_tab (m_mem s) d (pdx va) p\<rparr>"
    note D = pgdir_okD [OF ok [unfolded Cons]]
    have kp: "kpage (m_end s) p" "p \<noteq> d" using D(1,3) by (auto simp: kmem_rep_def)
    note M = new_tab_mem [OF D(2) kp pdx_ptx_lt(1) [of va], where m = "m_mem s"]
    have pt: "ptab (pde (m_mem ?t) d (pdx va)) = p" "pde (m_mem ?t) d (pdx va) AND PTE_P \<noteq> 0"
      using M(1) [of "pdx va"] table_entry [OF kp(1)] by simp_all
    have w: "walkpgdir d va True s = Ok (wslot p (ptx va)) ?t"
      using True kmem_rep_kalloc [OF D(1)] kpage_nonzero [OF kp(1)]
      by (auto simp: walkpgdir_def Let_def slot_PDX slot_PTX mem_ld_def mem_upd_def bnd_def andthen_def fetch_def modify_def ret_def pde_def new_tab_def)
    have "vframe ({d} \<union> set ps) s ?t" unfolding vframe_def using M(3) Cons by auto
    then have v: "vframe (pgdir_pages (m_mem s) d \<union> set ps) s ?t" by (rule vframe_mono) (auto simp: pgdir_pages_def)
    have "pgdir_pages (m_mem ?t) d \<subseteq> insert p (pgdir_pages (m_mem s) d)"
      using M(1) pt by (fastforce simp: pgdir_pages_def split: if_splits)
    then have "walked s d ps ?t qs" unfolding walked_def
      using new_tab_ok [OF ok [unfolded Cons] True] new_tab_entry [OF ok [unfolded Cons] True] v Cons by auto
    then show ?thesis using w pt by (intro disjI1 exI [of _ ?t] exI [of _ qs]) simp
  qed
qed

section \<open>Mapping a range\<close>

lemma wslot_nonzero: "page p \<Longrightarrow> p \<noteq> 0 \<Longrightarrow> i < 1024 \<Longrightarrow> wslot p i \<noteq> 0"
  using slot_off [of p i 0] by (auto simp: unat_eq_0)

text \<open>What a directory and the free list are after some steps: the tables come from the free list.\<close>

definition grown :: "'z mst_scheme \<Rightarrow> u32 \<Rightarrow> u32 list \<Rightarrow> 'z mst_scheme \<Rightarrow> u32 list \<Rightarrow> bool" where
  "grown s d ps t ps' \<longleftrightarrow> pgdir_ok t d ps' \<and> (\<exists>used. ps = used @ ps')
     \<and> vframe (pgdir_pages (m_mem s) d \<union> set ps) s t \<and> pgdir_pages (m_mem t) d \<subseteq> pgdir_pages (m_mem s) d \<union> set ps"

lemma grown_refl: "pgdir_ok s d ps \<Longrightarrow> grown s d ps s ps"
  by (auto simp: grown_def vframe_refl)

lemma grown_trans:
  assumes "grown s d ps t qs" "grown t d qs u rs"
  shows "grown s d ps u rs"
proof -
  let ?P = "pgdir_pages (m_mem s) d \<union> set ps"
  have "vframe ?P t u" using assms by (auto simp: grown_def intro: vframe_mono)
  then show ?thesis using assms vframe_trans [of ?P s t u] by (auto simp: grown_def)
qed

lemma map_one:
  assumes ok: "pgdir_ok s d ps" and e: "entry (m_mem s) d a AND PTE_P = 0"
  shows "ps = [] \<and> map_loop d a la pa perm s = Ok (- 1) s \<or>
    (\<exists>t ps'. map_loop d a la pa perm s = (if a = la \<or> la - a < PGSIZE then Ok 0 t else map_loop d (a + PGSIZE) la (pa + PGSIZE) perm t)
      \<and> grown s d ps t ps' \<and> (\<forall>v. entry (m_mem t) d v = (if unat v div 4096 = unat a div 4096 then pa OR perm OR PTE_P else entry (m_mem s) d v)))"
  using walkpgdir_alloc [OF ok, of a]
proof
  assume "ps = [] \<and> walkpgdir d a True s = Ok 0 s"
  then show ?thesis by (subst map_loop.simps) (simp add: kdefs)
next
  assume "\<exists>t ps'. walkpgdir d a True s = Ok (wslot (ptab (pde (m_mem t) d (pdx a))) (ptx a)) t
      \<and> pde (m_mem t) d (pdx a) AND PTE_P \<noteq> 0 \<and> walked s d ps t ps'"
  then obtain t qs where w: "walkpgdir d a True s = Ok (wslot (ptab (pde (m_mem t) d (pdx a))) (ptx a)) t"
    "pde (m_mem t) d (pdx a) AND PTE_P \<noteq> 0" "walked s d ps t qs" by blast
  let ?p = "ptab (pde (m_mem t) d (pdx a))" and ?x = "pa OR perm OR PTE_P"
  let ?u = "t\<lparr>m_mem := store32 (m_mem t) (wslot ?p (ptx a)) ?x\<rparr>"
  have okt: "pgdir_ok t d qs" and et: "entry (m_mem t) d v = entry (m_mem s) d v" and g: "grown s d ps t qs" for v
    using w(3) by (auto simp: walked_def grown_def)
  note S = store_entry [OF okt w(2), of ?x]
  have nz: "wslot ?p (ptx a) \<noteq> 0" using pgdir_okD(4,7) [OF okt _ w(2)] by (intro wslot_nonzero) auto
  have ld: "load32 (m_mem t) (wslot ?p (ptx a)) AND PTE_P = 0" using e et [of a] w(2) by (simp add: entry_def)
  have "map_loop d a la pa perm s = (if a = la \<or> la - a < PGSIZE then Ok 0 ?u else map_loop d (a + PGSIZE) la (pa + PGSIZE) perm ?u)"
    using w(1) nz ld by (subst map_loop.simps) (simp add: bnd_def andthen_def mem_ld_def mem_upd_def fetch_def modify_def ret_def)
  moreover have "pgdir_pages (m_mem ?u) d = pgdir_pages (m_mem t) d" using pgdir_pages_cong S(2) by blast
  moreover have "?p \<in> pgdir_pages (m_mem t) d" using w(2) by (auto simp: pgdir_pages_def)
  then have "vframe (pgdir_pages (m_mem t) d \<union> set qs) t ?u" using S(4) by (auto intro: vframe_mono)
  ultimately have "grown t d qs ?u qs" using S(1) by (auto simp: grown_def)
  from grown_trans [OF g this] show ?thesis using \<open>map_loop d a la pa perm s = _\<close> S(3) et by (intro disjI2 exI [of _ ?u] exI [of _ qs]) auto
qed

text \<open>The pages from that of \<open>a\<close> on, \<open>n\<close> more.\<close>

definition in_pages :: "u32 \<Rightarrow> nat \<Rightarrow> u32 \<Rightarrow> bool" where
  "in_pages a n v \<longleftrightarrow> unat a div 4096 \<le> unat v div 4096 \<and> unat v div 4096 \<le> unat a div 4096 + n"

definition mapped_entry :: "u32 \<Rightarrow> u32 \<Rightarrow> u32 \<Rightarrow> u32 \<Rightarrow> u32" where
  "mapped_entry a pa perm v = (pa + of_nat (4096 * (unat v div 4096 - unat a div 4096))) OR perm OR PTE_P"

lemma next_page:
  assumes "unat (a :: u32) + 4096 < 2 ^ 32"
  shows "unat (a + PGSIZE) = unat a + 4096" "unat (a + PGSIZE) div 4096 = Suc (unat a div 4096)"
    and "in_pages a (Suc n) v \<longleftrightarrow> unat v div 4096 = unat a div 4096 \<or> in_pages (a + PGSIZE) n v"
    and "in_pages (a + PGSIZE) n v \<Longrightarrow> unat v div 4096 \<noteq> unat a div 4096"
    and "in_pages (a + PGSIZE) n v \<Longrightarrow> mapped_entry (a + PGSIZE) (pa + PGSIZE) perm v = mapped_entry a pa perm v"
proof -
  show u: "unat (a + PGSIZE) = unat a + 4096" using assms by (subst unat_add_small) (simp_all add: PGSIZE_def)
  then show d: "unat (a + PGSIZE) div 4096 = Suc (unat a div 4096)" by simp
  show "in_pages a (Suc n) v \<longleftrightarrow> unat v div 4096 = unat a div 4096 \<or> in_pages (a + PGSIZE) n v"
    unfolding in_pages_def d by linarith
  show "in_pages (a + PGSIZE) n v \<Longrightarrow> unat v div 4096 \<noteq> unat a div 4096" unfolding in_pages_def d by linarith
  assume "in_pages (a + PGSIZE) n v"
  then have "unat v div 4096 - unat a div 4096 = Suc (unat v div 4096 - unat (a + PGSIZE) div 4096)" unfolding in_pages_def d by linarith
  then show "mapped_entry (a + PGSIZE) (pa + PGSIZE) perm v = mapped_entry a pa perm v"
    by (simp add: mapped_entry_def PGSIZE_def algebra_simps)
qed

lemma map_loop_maps:
  assumes "pgdir_ok s d ps" "page a" "unat la = unat a + 4096 * n" "\<forall>v. in_pages a n v \<longrightarrow> entry (m_mem s) d v AND PTE_P = 0"
  shows "\<exists>r t ps'. map_loop d a la pa perm s = Ok r t \<and> grown s d ps t ps' \<and> (r = 0 \<or> r = - 1 \<and> ps' = [])
    \<and> (\<forall>v. in_pages a n v \<longrightarrow> r = 0 \<longrightarrow> entry (m_mem t) d v = mapped_entry a pa perm v)
    \<and> (\<forall>v. \<not> in_pages a n v \<longrightarrow> entry (m_mem t) d v = entry (m_mem s) d v)"
  using assms
proof (induction n arbitrary: s ps a pa)
  case 0
  then have "entry (m_mem s) d a AND PTE_P = 0" "a = la" by (auto simp: in_pages_def word_unat_eq_iff)
  with map_one [OF "0.prems"(1), of a la pa perm] grown_refl [OF "0.prems"(1)] show ?case
    by (fastforce simp: in_pages_def mapped_entry_def)
next
  case (Suc n)
  have "entry (m_mem s) d a AND PTE_P = 0" using Suc.prems(4) by (simp add: in_pages_def)
  from map_one [OF Suc.prems(1) this, of la pa perm] show ?case
  proof
    assume "ps = [] \<and> map_loop d a la pa perm s = Ok (- 1) s"
    then show ?thesis using grown_refl [OF Suc.prems(1)] by auto
  next
    assume "\<exists>t ps'. map_loop d a la pa perm s = (if a = la \<or> la - a < PGSIZE then Ok 0 t else map_loop d (a + PGSIZE) la (pa + PGSIZE) perm t)
      \<and> grown s d ps t ps' \<and> (\<forall>v. entry (m_mem t) d v = (if unat v div 4096 = unat a div 4096 then pa OR perm OR PTE_P else entry (m_mem s) d v))"
    then obtain t qs where t: "map_loop d a la pa perm s = (if a = la \<or> la - a < PGSIZE then Ok 0 t else map_loop d (a + PGSIZE) la (pa + PGSIZE) perm t)"
      "grown s d ps t qs" "\<And>v. entry (m_mem t) d v = (if unat v div 4096 = unat a div 4096 then pa OR perm OR PTE_P else entry (m_mem s) d v)"
      by blast
    let ?a = "a + PGSIZE"
    have al: "a \<le> la" using Suc.prems(3) by (simp add: word_le_nat_alt)
    have "unat (la - a) = 4096 * Suc n" using unat_sub_small [OF al] Suc.prems(3) by simp
    then have ne: "\<not> (a = la \<or> la - a < PGSIZE)" by (auto simp: PGSIZE_def word_less_nat_alt)
    have "unat la < 2 ^ 32" using unsigned_less [of la, where 'a = nat] by simp
    then have "unat a + 4096 < 2 ^ 32" using Suc.prems(3) by simp
    note N = next_page [OF this]
    have h1: "pgdir_ok t d qs" using t(2) by (simp add: grown_def)
    have h2: "page ?a" using N(1) Suc.prems(2) by simp
    have h3: "unat la = unat ?a + 4096 * n" using N(1) Suc.prems(3) by simp
    have h4: "\<forall>v. in_pages ?a n v \<longrightarrow> entry (m_mem t) d v AND PTE_P = 0" using Suc.prems(4) t(3) N(3,4) by auto
    from Suc.IH [OF h1 h2 h3 h4, of "pa + PGSIZE"] obtain r u rs where
      u: "map_loop d ?a la (pa + PGSIZE) perm t = Ok r u" "grown t d qs u rs" "r = 0 \<or> r = - 1 \<and> rs = []"
      "\<forall>v. in_pages ?a n v \<longrightarrow> r = 0 \<longrightarrow> entry (m_mem u) d v = mapped_entry ?a (pa + PGSIZE) perm v"
      "\<forall>v. \<not> in_pages ?a n v \<longrightarrow> entry (m_mem u) d v = entry (m_mem t) d v" by blast
    have m0: "mapped_entry a pa perm v = pa OR perm OR PTE_P" if "unat v div 4096 = unat a div 4096" for v
      using that by (simp add: mapped_entry_def)
    have "map_loop d a la pa perm s = Ok r u" using t(1) ne u(1) by simp
    moreover have "grown s d ps u rs" using grown_trans [OF t(2) u(2)] .
    moreover have "entry (m_mem u) d v = mapped_entry a pa perm v" if "in_pages a (Suc n) v" "r = 0" for v
      using that u(4,5) t(3) [of v] N(5) [of n v pa perm] m0 [of v] N(3) [of n v] by (cases "in_pages ?a n v") auto
    moreover have "entry (m_mem u) d v = entry (m_mem s) d v" if "\<not> in_pages a (Suc n) v" for v
      using that u(5) t(3) [of v] N(3) [of n v] by simp
    ultimately show ?thesis using u(3) by blast
  qed
qed

lemma mapped_entry_bits:
  assumes "page pa" "perm AND NOT 0xFFF = 0" "in_pages a n v"
  shows "PTE_ADDR (mapped_entry a pa perm v) = pa + of_nat (4096 * (unat v div 4096 - unat a div 4096))"
    "mapped_entry a pa perm v AND PTE_P \<noteq> 0"
proof -
  let ?k = "unat v div 4096 - unat a div 4096"
  let ?x = "pa + of_nat (4096 * ?k) :: u32"
  obtain j where j: "unat pa = 4096 * j" using assms(1) by (metis mod_eq_0_iff_dvd dvd_def)
  have "pa = of_nat (unat pa)" by simp
  then have "?x = of_nat (4096 * (j + ?k))" unfolding j by (simp only: distrib_left of_nat_add)
  then have "unat ?x = 4096 * (j + ?k) mod (4096 * 1048576)" by (simp only: unat_of_nat) simp
  then have "unat ?x mod 4096 = 0" by (simp only: mod_mult_mult1) simp
  then have "unat (?x AND NOT 0xFFF) = unat ?x" unfolding unat_and_not_page by (metis add.right_neutral div_mult_mod_eq)
  then have "?x AND NOT 0xFFF = ?x" by (simp add: word_unat_eq_iff)
  moreover have "PTE_P AND NOT 0xFFF = 0" by (simp add: PTE_P_def)
  ultimately show "PTE_ADDR (mapped_entry a pa perm v) = ?x"
    using assms(2) unfolding PTE_ADDR_def mapped_entry_def by (simp only: bit.conj_disj_distrib2 or.right_neutral)
  have "((w :: u32) OR 1) AND 1 = 1" for w by (simp add: bit.conj_disj_distrib2)
  then show "mapped_entry a pa perm v AND PTE_P \<noteq> 0" unfolding mapped_entry_def PTE_P_def by (metis or.assoc zero_neq_one)
qed

section \<open>Property\<close>

text \<open>
  C27: \<^verbatim>\<open>mappages\<close> maps exactly what it is asked to.  On a well-formed page directory and a range of addresses
  that the paging hardware maps nowhere, it returns 0 and then the hardware translates every address of
  the pages that the range touches to the consecutive physical pages from \<^verbatim>\<open>pa\<close> on, with the given
  permissions; or it returns -1, and then memory is used up.  Either way every other address translates as
  before, the directory stays well-formed with its new page tables taken from the free list, and no other
  page of memory is written.
\<close>

theorem mappages_maps:
  assumes "pgdir_ok s d ps" "0 < sz" "unat va + unat sz \<le> 2 ^ 32" "page pa" "perm AND NOT 0xFFF = 0"
  defines "n \<equiv> unat (va + sz - 1) div 4096 - unat va div 4096"
  assumes "\<forall>v. in_pages va n v \<longrightarrow> translate (m_mem s) d v = None"
  shows "\<exists>r t ps'. mappages d va sz pa perm s = Ok r t \<and> (r = 0 \<or> r = - 1 \<and> ps' = []) \<and> pgdir_ok t d ps'
    \<and> (\<forall>v. in_pages va n v \<and> r = 0 \<longrightarrow> entry (m_mem t) d v = mapped_entry va pa perm v
         \<and> translate (m_mem t) d v = Some (P2V (pa + of_nat (4096 * (unat v div 4096 - unat va div 4096))) + (v AND 0xFFF)))
    \<and> (\<forall>v. \<not> in_pages va n v \<longrightarrow> translate (m_mem t) d v = translate (m_mem s) d v)
    \<and> (\<forall>q k. page q \<and> q \<notin> pgdir_pages (m_mem s) d \<union> set ps \<and> k < 4096 \<longrightarrow> m_mem t (q + of_nat k) = m_mem s (q + of_nat k))"
proof -
  let ?a = "PGROUNDDOWN va" and ?l = "PGROUNDDOWN (va + sz - 1)"
  have a: "unat ?a div 4096 = unat va div 4096" "page ?a" "unat ?l = unat (va + sz - 1) div 4096 * 4096" "unat ?a = unat va div 4096 * 4096"
    by (simp_all add: unat_PGROUNDDOWN)
  have "unat sz > 0" using assms(2) by (simp add: word_less_nat_alt)
  then have "unat (sz - 1) = unat sz - 1" by (subst unat_sub_small) (simp_all add: word_le_nat_alt)
  then have "unat (va + (sz - 1)) = unat va + unat sz - 1" using assms(3) \<open>unat sz > 0\<close> by (subst unat_add_small) simp_all
  then have "unat va \<le> unat (va + sz - 1)" using \<open>unat sz > 0\<close> by (simp add: add_diff_eq)
  then have l: "unat ?l = unat ?a + 4096 * n" unfolding a(3,4) n_def by (simp add: div_le_mono diff_mult_distrib mult.commute)
  have ip: "in_pages ?a n v = in_pages va n v" and me: "mapped_entry ?a pa perm v = mapped_entry va pa perm v" for v
    by (simp_all add: in_pages_def mapped_entry_def a(1))
  have "\<forall>v. in_pages ?a n v \<longrightarrow> entry (m_mem s) d v AND PTE_P = 0"
    using assms(7) ip by (auto simp: translate_entry split: if_splits)
  from map_loop_maps [OF assms(1) a(2) l this, of pa perm] obtain r t ps' where
    t: "map_loop d ?a ?l pa perm s = Ok r t" "grown s d ps t ps'" "r = 0 \<or> r = - 1 \<and> ps' = []"
    "\<And>v. in_pages va n v \<Longrightarrow> r = 0 \<Longrightarrow> entry (m_mem t) d v = mapped_entry va pa perm v"
    "\<And>v. \<not> in_pages va n v \<Longrightarrow> entry (m_mem t) d v = entry (m_mem s) d v" unfolding ip me by blast
  have "translate (m_mem t) d v = Some (P2V (pa + of_nat (4096 * (unat v div 4096 - unat va div 4096))) + (v AND 0xFFF))"
    if "in_pages va n v" "r = 0" for v
    using t(4) [OF that] mapped_entry_bits [OF assms(4,5) that(1)] by (simp add: translate_entry)
  moreover have "translate (m_mem t) d v = translate (m_mem s) d v" if "\<not> in_pages va n v" for v
    using t(5) [OF that] by (simp add: translate_entry)
  moreover have "pgdir_ok t d ps'" "vframe (pgdir_pages (m_mem s) d \<union> set ps) s t" using t(2) by (simp_all add: grown_def)
  ultimately show ?thesis using t(1,3,4) unfolding mappages_def vframe_def by blast
qed

definition demo_vm :: mst where
  "demo_vm = (mst0 (\<lambda>_ _. 0) 1000 0x80200000)\<lparr>m_freelist := 0x80400000\<rparr>"

lemma demo_vm_ok: "pgdir_ok demo_vm 0x80300000 [0x80400000]"
  by (simp add: pgdir_ok_def demo_vm_def kmem_rep_def kpage_def PGSIZE_def V2P_def KERNBASE_def PHYSTOP_def load32_def pde_def)

theorem mappages_maps_witness:
  "\<exists>r t. mappages 0x80300000 0x1000 0x1000 0x500000 6 demo_vm = Ok r t
     \<and> (r = 0 \<longrightarrow> translate (m_mem t) 0x80300000 0x1234 = Some (P2V 0x500000 + (0x1234 AND 0xFFF)))"
proof -
  have n: "unat (0x1000 + 0x1000 - 1 :: u32) div 4096 - unat (0x1000 :: u32) div 4096 = 0" by simp
  have "translate (m_mem demo_vm) 0x80300000 v = None" for v
    by (simp add: translate_def demo_vm_def load32_def Let_def)
  then show ?thesis
    using mappages_maps [OF demo_vm_ok, of "0x1000" "0x1000" "0x500000" 6, unfolded n]
    by (fastforce simp: in_pages_def dest: spec [of _ "0x1234 :: u32"])
qed

end
