(* ===== verification/Umalloc.thy ===== *)
theory Umalloc
  imports Kprelude
begin

text \<open>
  The user-level storage allocator \<^verbatim>\<open>umalloc.c\<close>: a circular list of free blocks in the order of their
  addresses, each headed by a link and a size in units of the header, eight bytes.  \<open>u_ptr\<close> and \<open>u_size\<close>
  are the two fields of the headers by address.  \<^verbatim>\<open>sbrk\<close> extends the memory of the process up to
  \<open>u_limit\<close>.  The two searches may run forever on a list that is not circular, so they are partial
  functions; the theorems show that they return.
\<close>

section \<open>State and operations\<close>

record ust =
  u_ptr :: "u32 \<Rightarrow> u32"
  u_size :: "u32 \<Rightarrow> u32"
  u_freep :: u32
  u_base :: u32
  u_brk :: u32
  u_limit :: u32

definition free_here :: "(u32 \<Rightarrow> u32) \<Rightarrow> u32 \<Rightarrow> u32 \<Rightarrow> bool" where
  "free_here nx bp p \<longleftrightarrow> bp > p \<and> bp < nx p \<or> p \<ge> nx p \<and> (bp > p \<or> bp < nx p)"

partial_function (option) free_find :: "(u32 \<Rightarrow> u32) \<Rightarrow> u32 \<Rightarrow> u32 \<Rightarrow> u32 option" where
  "free_find nx bp p = (if free_here nx bp p then Some p else free_find nx bp (nx p))"

text \<open>The two mergers of \<^verbatim>\<open>free\<close>: with the block behind, and with the block before.\<close>

definition link_up :: "u32 \<Rightarrow> u32 \<Rightarrow> ust \<Rightarrow> ust" where
  "link_up bp p s = (let nxt = u_ptr s p in
     if bp + 8 * u_size s bp = nxt then
       s\<lparr>u_size := (u_size s)(bp := u_size s bp + u_size s nxt), u_ptr := (u_ptr s)(bp := u_ptr s nxt)\<rparr>
     else s\<lparr>u_ptr := (u_ptr s)(bp := nxt)\<rparr>)"

definition link_down :: "u32 \<Rightarrow> u32 \<Rightarrow> ust \<Rightarrow> ust" where
  "link_down bp p s =
     (if p + 8 * u_size s p = bp then
        s\<lparr>u_size := (u_size s)(p := u_size s p + u_size s bp), u_ptr := (u_ptr s)(p := u_ptr s bp)\<rparr>
      else s\<lparr>u_ptr := (u_ptr s)(p := bp)\<rparr>)"

definition ufree :: "u32 \<Rightarrow> ust \<Rightarrow> ust option" where
  "ufree ap s = (let bp = ap - 8 in
     map_option (\<lambda>p. (link_down bp p (link_up bp p s))\<lparr>u_freep := p\<rparr>) (free_find (u_ptr s) bp (u_freep s)))"

text \<open>The system call: it grows or shrinks the process and returns the old size, or -1.\<close>

definition sbrk :: "u32 \<Rightarrow> ust \<Rightarrow> u32 \<times> ust" where
  "sbrk n s = (if sint n \<ge> 0 \<and> unat (u_brk s) + unat n > unat (u_limit s) then (0xFFFFFFFF, s)
     else (u_brk s, s\<lparr>u_brk := u_brk s + n\<rparr>))"

definition morecore :: "u32 \<Rightarrow> ust \<Rightarrow> (u32 \<times> ust) option" where
  "morecore nu s = (let nu = (if nu < 4096 then 4096 else nu); (p, s) = sbrk (nu * 8) s in
     if p = 0xFFFFFFFF then Some (0, s)
     else map_option (\<lambda>s. (u_freep s, s)) (ufree (p + 8) (s\<lparr>u_size := (u_size s)(p := nu)\<rparr>)))"

definition take_block :: "u32 \<Rightarrow> u32 \<Rightarrow> u32 \<Rightarrow> ust \<Rightarrow> u32 \<times> ust" where
  "take_block nunits prevp p s =
     (let (p, s) = (if u_size s p = nunits then (p, s\<lparr>u_ptr := (u_ptr s)(prevp := u_ptr s p)\<rparr>)
        else let r = u_size s p - nunits; q = p + 8 * r in (q, s\<lparr>u_size := (u_size s)(p := r, q := nunits)\<rparr>))
      in (p + 8, s\<lparr>u_freep := prevp\<rparr>))"

partial_function (option) malloc_loop :: "u32 \<Rightarrow> u32 \<Rightarrow> u32 \<Rightarrow> ust \<Rightarrow> (u32 \<times> ust) option" where
  "malloc_loop nunits prevp p s =
     (if u_size s p \<ge> nunits then Some (take_block nunits prevp p s)
      else if p = u_freep s then
        Option.bind (morecore nunits s) (\<lambda>r. if fst r = 0 then Some (0, snd r)
          else malloc_loop nunits (fst r) (u_ptr (snd r) (fst r)) (snd r))
      else malloc_loop nunits p (u_ptr s p) s)"

definition malloc :: "u32 \<Rightarrow> ust \<Rightarrow> (u32 \<times> ust) option" where
  "malloc nbytes s =
     (let nunits = (nbytes + 8 - 1) div 8 + 1;
          s = (if u_freep s = 0 then s\<lparr>u_ptr := (u_ptr s)(u_base s := u_base s), u_freep := u_base s,
                 u_size := (u_size s)(u_base s := 0)\<rparr> else s)
      in malloc_loop nunits (u_freep s) (u_ptr s (u_freep s)) s)"

section \<open>Circular lists\<close>

fun path :: "(u32 \<Rightarrow> u32) \<Rightarrow> u32 list \<Rightarrow> u32 \<Rightarrow> bool" where
  "path nx [] z = True"
| "path nx (x # xs) z = (nx x = hd (xs @ [z]) \<and> path nx xs z)"

lemma path_append: "path nx (xs @ ys) z \<longleftrightarrow> path nx xs (hd (ys @ [z])) \<and> path nx ys z"
  by (induction xs) (auto simp: hd_append)

lemma path_upd [simp]: "x \<notin> set xs \<Longrightarrow> path (nx(x := y)) xs z = path nx xs z"
  by (induction xs) auto

text \<open>A walk along a path on which nothing is found.\<close>

lemma free_find_run:
  "path nx xs z \<Longrightarrow> \<forall>x\<in>set xs. \<not> free_here nx bp x \<Longrightarrow> free_find nx bp (hd (xs @ [z])) = free_find nx bp z"
proof (induction xs)
  case (Cons x xs)
  then show ?case by (subst free_find.simps) (simp add: hd_append)
qed simp

section \<open>The invariant\<close>

definition blk_end :: "ust \<Rightarrow> u32 \<Rightarrow> nat" where
  "blk_end s x = unat x + 8 * unat (u_size s x)"

definition apart :: "ust \<Rightarrow> u32 \<Rightarrow> u32 \<Rightarrow> bool" where
  "apart s x y \<longleftrightarrow> blk_end s x \<le> unat y \<or> blk_end s y \<le> unat x"

text \<open>\<open>xs\<close> are the free blocks behind \<^verbatim>\<open>base\<close>, \<open>A\<close> the blocks in use.\<close>

definition heap_ok :: "ust \<Rightarrow> u32 list \<Rightarrow> u32 set \<Rightarrow> bool" where
  "heap_ok s xs A \<longleftrightarrow> path (u_ptr s) (u_base s # xs) (u_base s)
     \<and> sorted_wrt (\<lambda>x y. blk_end s x < unat y) (u_base s # xs)
     \<and> u_size s (u_base s) = 0 \<and> u_base s \<noteq> 0 \<and> u_freep s \<in> set (u_base s # xs)
     \<and> (\<forall>x\<in>set xs \<union> A. 0 < unat (u_size s x) \<and> unat (u_base s) + 8 \<le> unat x \<and> blk_end s x \<le> unat (u_brk s))
     \<and> (\<forall>x\<in>A. \<forall>y\<in>set xs \<union> A. x \<noteq> y \<longrightarrow> apart s x y) \<and> A \<inter> set xs = {}
     \<and> unat (u_base s) + 8 \<le> unat (u_brk s) \<and> u_brk s \<le> u_limit s \<and> u_limit s < 0x80000000"

lemma heap_okD:
  assumes "heap_ok s xs A"
  shows "path (u_ptr s) (u_base s # xs) (u_base s)" "sorted_wrt (\<lambda>x y. blk_end s x < unat y) (u_base s # xs)"
    "u_size s (u_base s) = 0" "u_base s \<noteq> 0" "u_freep s \<in> set (u_base s # xs)"
    "x \<in> set xs \<union> A \<Longrightarrow> 0 < unat (u_size s x)" "x \<in> set xs \<union> A \<Longrightarrow> unat (u_base s) + 8 \<le> unat x"
    "x \<in> set xs \<union> A \<Longrightarrow> blk_end s x \<le> unat (u_brk s)"
    "x \<in> A \<Longrightarrow> y \<in> set xs \<union> A \<Longrightarrow> x \<noteq> y \<Longrightarrow> apart s x y" "A \<inter> set xs = {}"
    "unat (u_base s) + 8 \<le> unat (u_brk s)" "u_brk s \<le> u_limit s" "unat (u_brk s) < 0x80000000" "u_limit s < 0x80000000"
proof -
  show "unat (u_brk s) < 0x80000000" using assms by (simp add: heap_ok_def word_le_nat_alt word_less_nat_alt)
qed (use assms in \<open>auto simp: heap_ok_def\<close>)

lemma unat_units: "unat x + 8 * unat r < 2 ^ 32 \<Longrightarrow> unat (x + 8 * r :: u32) = unat x + 8 * unat r"
  by (simp add: unat_word_ariths)

lemma blk_end_word: "blk_end s x < 2 ^ 32 \<Longrightarrow> unat (x + 8 * u_size s x) = blk_end s x"
  unfolding blk_end_def by (rule unat_units)

lemma sorted_less: "sorted_wrt (\<lambda>x y. blk_end s x < unat y) xs \<Longrightarrow> sorted_wrt (<) xs"
  by (erule sorted_wrt_mono_rel [rotated]) (simp add: blk_end_def word_less_nat_alt)

section \<open>Finding the place of a freed block\<close>

lemma split_sorted:
  assumes "sorted_wrt (<) (b # xs)" "b < (bp :: u32)"
  obtains us p vs where "b # xs = us @ p # vs" "p < bp" "\<forall>u\<in>set us. u < p" "\<forall>v\<in>set vs. p < v \<and> bp \<le> v"
proof -
  define t where "t = takeWhile (\<lambda>x. x < bp) (b # xs)"
  define vs where "vs = dropWhile (\<lambda>x. x < bp) (b # xs)"
  have ne: "t \<noteq> []" using assms(2) by (simp add: t_def)
  have "b # xs = t @ vs" unfolding t_def vs_def by (rule takeWhile_dropWhile_id [symmetric])
  then have e: "b # xs = butlast t @ last t # vs" using ne by simp
  have l: "last t < bp" using last_in_set [OF ne] set_takeWhileD unfolding t_def by metis
  have sw: "sorted_wrt (<) (butlast t @ last t # vs)" using assms(1) e by metis
  have vs: "bp \<le> v" if "v \<in> set vs" for v
  proof (cases vs)
    case (Cons w ws)
    then have "\<not> w < bp" unfolding vs_def by (metis dropWhile_eq_Cons_conv)
    moreover have "w \<le> v" using that Cons sw by (auto simp: sorted_wrt_append less_imp_le)
    ultimately show ?thesis by simp
  qed (use that in simp)
  show thesis by (rule that [OF e l]) (use sw vs in \<open>auto simp: sorted_wrt_append\<close>)
qed

lemma free_find_found:
  assumes path: "path nx (us @ p # vs) b" and b: "b = hd (us @ [p])" "b \<le> p"
    and less: "p < bp" "\<forall>u\<in>set us. u < p" "\<forall>v\<in>set vs. p < v \<and> bp < v" and srt: "sorted_wrt (<) (us @ p # vs)" and f: "f \<in> set (us @ p # vs)"
  shows "free_find nx bp f = Some p"
proof -
  have P: "path nx us p" "nx p = hd (vs @ [b])" "path nx vs b" using path by (simp_all add: path_append)
  have "free_here nx bp p" using less(1,3) b(2) P(2) by (cases vs) (auto simp: free_here_def)
  then have fp: "free_find nx bp p = Some p" by (subst free_find.simps) simp
  have up: "free_find nx bp (hd (as @ [p])) = Some p" if "us = zs @ as" for zs as
  proof -
    have pa: "path nx as p" using P(1) that by (simp add: path_append)
    have "\<not> free_here nx bp x" if "x \<in> set as" for x
    proof -
      obtain c d where as: "as = c @ x # d" using \<open>x \<in> set as\<close> by (meson split_list)
      then have n: "nx x = hd (d @ [p])" using pa by (simp add: path_append)
      then have "nx x \<le> p \<and> x < nx x" using less(2) srt as \<open>us = zs @ as\<close> by (cases d) (auto simp: sorted_wrt_append less_imp_le)
      then show ?thesis using less(1) by (auto simp: free_here_def)
    qed
    then show ?thesis using free_find_run [OF pa] fp by simp
  qed
  have "b = hd (us @ [p])" by (rule b(1))
  then have fb: "free_find nx bp b = Some p" using up [of "[]" us] by simp
  have down: "free_find nx bp (hd (as @ [b])) = Some p" if "vs = zs @ as" for zs as
  proof -
    have pa: "path nx as b" using P(3) that by (simp add: path_append)
    have "\<not> free_here nx bp x" if "x \<in> set as" for x
    proof -
      obtain c d where as: "as = c @ x # d" using \<open>x \<in> set as\<close> by (meson split_list)
      then have n: "nx x = hd (d @ [b])" using pa by (simp add: path_append)
      have x: "bp < x" using less(3) as \<open>vs = zs @ as\<close> by auto
      have "d = [] \<or> x < nx x" using n srt as \<open>vs = zs @ as\<close> by (cases d) (auto simp: sorted_wrt_append)
      moreover have "b < bp" using b(2) less(1) by simp
      ultimately show ?thesis using n x by (auto simp: free_here_def)
    qed
    then show ?thesis using free_find_run [OF pa] fb by simp
  qed
  obtain c d where f: "us @ p # vs = c @ f # d" using f by (meson split_list)
  then consider as where "us = c @ f # as" | "f = p" | as where "vs = as @ f # d"
    by (auto simp: append_eq_append_conv2 append_eq_Cons_conv Cons_eq_append_conv)
  then show ?thesis
  proof cases
    case 1
    then show ?thesis using up [of c "f # as"] by simp
  next
    case 3
    then show ?thesis using down [of as "f # d"] by simp
  qed (simp add: fp)
qed

section \<open>Freeing\<close>

text \<open>The place of block \<open>bp\<close> in the list.\<close>

definition placed :: "ust \<Rightarrow> u32 list \<Rightarrow> u32 set \<Rightarrow> u32 \<Rightarrow> u32 list \<Rightarrow> u32 \<Rightarrow> u32 list \<Rightarrow> bool" where
  "placed s xs A bp us p vs \<longleftrightarrow> heap_ok s xs (insert bp A) \<and> bp \<notin> A \<and> u_base s # xs = us @ p # vs
     \<and> blk_end s p \<le> unat bp \<and> (\<forall>v\<in>set vs. blk_end s bp \<le> unat v) \<and> bp \<notin> set (us @ p # vs)"

lemma placed_exists:
  assumes ok: "heap_ok s xs (insert bp A)" and new: "bp \<notin> A"
  obtains us p vs where "placed s xs A bp us p vs" "free_find (u_ptr s) bp (u_freep s) = Some p"
proof -
  note H = heap_okD [OF ok]
  note srt = sorted_less [OF H(2)]
  have bb: "u_base s < bp" using H(7) [of bp] by (simp add: word_less_nat_alt)
  obtain us p vs where e: "u_base s # xs = us @ p # vs" "p < bp" "\<forall>u\<in>set us. u < p" "\<forall>v\<in>set vs. p < v \<and> bp \<le> v"
    using split_sorted [OF srt bb] by blast
  have bx: "bp \<notin> set (u_base s # xs)" using H(10) bb by auto
  have v: "\<forall>v\<in>set vs. p < v \<and> bp < v" using e(1,4) bx by (metis in_set_conv_decomp order_le_imp_less_or_eq append.assoc append_Cons in_set_conv_decomp_first Un_iff set_append list.set_intros(2))
  have sub: "x \<in> set xs" if "x \<in> set vs" for x
  proof -
    have "us @ p # vs = (us @ [p]) @ vs" by simp
    then show ?thesis using e(1) that by (cases us) auto
  qed
  have pend: "blk_end s p \<le> unat bp"
  proof (cases "p = u_base s")
    case True
    then show ?thesis using H(3) e(2) by (simp add: blk_end_def word_less_nat_alt less_imp_le)
  next
    case False
    then have "p \<in> set xs" using e(1) by (metis in_set_conv_decomp set_ConsD)
    then have "apart s bp p" using H(9) [of bp p] e(2) by auto
    then show ?thesis using e(2) by (auto simp: apart_def blk_end_def word_less_nat_alt)
  qed
  have "blk_end s bp \<le> unat v" if "v \<in> set vs" for v
  proof -
    have "apart s bp v" "unat bp < unat v"
      using H(9) [of bp v] sub [OF that] bspec [OF v that] by (auto simp: word_less_nat_alt)
    then show ?thesis by (auto simp: apart_def blk_end_def)
  qed
  then have pl: "placed s xs A bp us p vs" using ok new e(1) pend bx by (auto simp: placed_def)
  have "free_find (u_ptr s) bp (u_freep s) = Some p"
  proof (rule free_find_found [of _ us p vs "u_base s"])
    show "path (u_ptr s) (us @ p # vs) (u_base s)" "u_freep s \<in> set (us @ p # vs)" using H(1,5) e(1) by metis+
    show "u_base s = hd (us @ [p])" using e(1) by (cases us) auto
    then show "u_base s \<le> p" using e(3) by (cases us) (auto simp: less_imp_le)
    show "sorted_wrt (<) (us @ p # vs)" using srt e(1) by metis
  qed (use e v in auto)
  then show thesis using that pl by blast
qed

lemma blk_end_upd [simp]:
  "blk_end (s\<lparr>u_ptr := f\<rparr>) x = blk_end s x" "blk_end (s\<lparr>u_freep := p\<rparr>) x = blk_end s x" "blk_end (s\<lparr>u_brk := p\<rparr>) x = blk_end s x"
  "x \<noteq> b \<Longrightarrow> blk_end (s\<lparr>u_size := (u_size s)(b := z)\<rparr>) x = blk_end s x"
  "blk_end (s\<lparr>u_size := (u_size s)(b := z)\<rparr>) b = unat b + 8 * unat z"
  by (simp_all add: blk_end_def)

lemma blk_end_cong: "u_size t x = u_size s x \<Longrightarrow> blk_end t x = blk_end s x"
  by (simp add: blk_end_def)

lemma sorted_blocks_cong:
  assumes "\<forall>x\<in>set xs. u_size t x = u_size s x" "sorted_wrt (\<lambda>x y. blk_end s x < unat y) xs"
  shows "sorted_wrt (\<lambda>x y. blk_end t x < unat y) xs"
  by (rule sorted_wrt_mono_rel [OF _ assms(2)]) (use assms(1) in \<open>simp add: blk_end_def\<close>)

text \<open>Between the two mergers: \<open>bp\<close> points to the rest of the list and no other block follows it directly.\<close>

definition hole :: "ust \<Rightarrow> u32 set \<Rightarrow> u32 \<Rightarrow> u32 list \<Rightarrow> u32 \<Rightarrow> u32 list \<Rightarrow> bool" where
  "hole s A bp us p ws \<longleftrightarrow> path (u_ptr s) us p \<and> path (u_ptr s) ws (u_base s) \<and> u_ptr s bp = hd (ws @ [u_base s])
     \<and> u_base s = hd (us @ [p]) \<and> sorted_wrt (\<lambda>x y. blk_end s x < unat y) (us @ p # ws)
     \<and> blk_end s p \<le> unat bp \<and> (\<forall>w\<in>set ws. blk_end s bp < unat w) \<and> u_size s (u_base s) = 0 \<and> u_base s \<noteq> 0
     \<and> (\<forall>x\<in>set (tl (us @ p # ws)) \<union> insert bp A. 0 < unat (u_size s x) \<and> unat (u_base s) + 8 \<le> unat x \<and> blk_end s x \<le> unat (u_brk s))
     \<and> (\<forall>x\<in>A. \<forall>y\<in>set (tl (us @ p # ws)) \<union> insert bp A. x \<noteq> y \<longrightarrow> apart s x y) \<and> A \<inter> insert bp (set (us @ p # ws)) = {}
     \<and> bp \<notin> set (us @ p # ws)
     \<and> unat (u_base s) + 8 \<le> unat (u_brk s) \<and> u_brk s \<le> u_limit s \<and> u_limit s < 0x80000000"

lemma placedD:
  assumes "placed s xs A bp us p vs"
  shows "heap_ok s xs (insert bp A)" "bp \<notin> A" "xs = tl (us @ p # vs)" "u_base s = hd (us @ [p])"
    "blk_end s p \<le> unat bp" "v \<in> set vs \<Longrightarrow> blk_end s bp \<le> unat v" "bp \<notin> set (us @ p # vs)"
    "path (u_ptr s) us p" "u_ptr s p = hd (vs @ [u_base s])" "path (u_ptr s) vs (u_base s)"
    "sorted_wrt (\<lambda>x y. blk_end s x < unat y) (us @ p # vs)" "set (tl (us @ p # vs)) \<subseteq> set xs" "A \<inter> set (us @ p # vs) = {}"
proof -
  have e: "u_base s # xs = us @ p # vs" and ok: "heap_ok s xs (insert bp A)" using assms by (simp_all add: placed_def)
  note H = heap_okD [OF ok]
  show tl: "xs = tl (us @ p # vs)" using e by (metis list.sel(3))
  show "u_base s = hd (us @ [p])" using e by (cases us) auto
  show "sorted_wrt (\<lambda>x y. blk_end s x < unat y) (us @ p # vs)" using H(2) e by metis
  have "path (u_ptr s) (us @ p # vs) (u_base s)" using H(1) e by metis
  then show "path (u_ptr s) us p" "u_ptr s p = hd (vs @ [u_base s])" "path (u_ptr s) vs (u_base s)" by (simp_all add: path_append)
  show "set (tl (us @ p # vs)) \<subseteq> set xs" using tl by simp
  have "u_base s \<notin> A" using H(7) [of "u_base s"] by auto
  then have "A \<inter> set (u_base s # xs) = {}" using H(10) by auto
  then show "A \<inter> set (us @ p # vs) = {}" using e by metis
qed (use assms in \<open>auto simp: placed_def\<close>)

lemma hole_intro:
  assumes pl: "placed s xs A bp us p vs" and ws: "set ws \<subseteq> set vs" "path (u_ptr s) ws (u_base s)"
      "sorted_wrt (\<lambda>x y. blk_end s x < unat y) (us @ p # ws)"
    and z: "unat (u_size s bp) \<le> unat z" "unat bp + 8 * unat z \<le> unat (u_brk s)" "\<forall>w\<in>set ws. unat bp + 8 * unat z < unat w"
      "\<forall>a\<in>A. unat bp + 8 * unat z \<le> unat a \<or> blk_end s a \<le> unat bp"
  shows "hole (s\<lparr>u_size := (u_size s)(bp := z), u_ptr := (u_ptr s)(bp := hd (ws @ [u_base s]))\<rparr>) A bp us p ws" (is "hole ?t _ _ _ _ _")
proof -
  note P = placedD [OF pl]
  note H = heap_okD [OF P(1)]
  have nb: "bp \<notin> set us" "bp \<noteq> p" "bp \<notin> set ws" "u_base s \<noteq> bp" using P(7) ws(1) H(7) [of bp] by auto
  have tl: "set (tl (us @ p # ws)) \<subseteq> set xs"
    using P(12) ws(1) by (cases us) auto
  have sz: "u_size ?t x = u_size s x" "blk_end ?t x = blk_end s x" if "x \<noteq> bp" for x
    using that by (simp_all add: blk_end_def)
  have B: "blk_end ?t bp = unat bp + 8 * unat z" by (simp add: blk_end_def)
  have blocks: "0 < unat (u_size ?t x) \<and> unat (u_base s) + 8 \<le> unat x \<and> blk_end ?t x \<le> unat (u_brk s)"
    if "x \<in> set (tl (us @ p # ws)) \<union> insert bp A" for x
  proof (cases "x = bp")
    case True
    then show ?thesis using z(1,2) H(6) [of bp] H(7) [of bp] B by simp
  next
    case False
    then show ?thesis using that tl sz [OF False] H(6) [of x] H(7) [of x] H(8) [of x] by auto
  qed
  have ap: "apart ?t x y" if "x \<in> A" "y \<in> set (tl (us @ p # ws)) \<union> insert bp A" "x \<noteq> y" for x y
  proof (cases "y = bp")
    case True
    then show ?thesis using z(4) that sz [of x] B P(2) by (auto simp: apart_def)
  next
    case False
    have "x \<noteq> bp" using that(1) P(2) by blast
    then show ?thesis using that tl False sz [of x] sz [of y] H(9) [of x y] by (auto simp: apart_def)
  qed
  have srt: "sorted_wrt (\<lambda>x y. blk_end ?t x < unat y) (us @ p # ws)"
    by (rule sorted_blocks_cong [OF _ ws(3)]) (use nb in auto)
  have dis: "A \<inter> insert bp (set (us @ p # ws)) = {}" using P(2,13) ws(1) by auto
  have pe: "blk_end ?t p \<le> unat bp" using P(5) sz nb(2) by simp
  show ?thesis unfolding hole_def using P(4,8) H(3,4,11,12,14) nb ws(2) srt dis pe z(3) B blocks ap
    by simp
qed

lemma link_up_hole:
  assumes pl: "placed s xs A bp us p vs"
  obtains ws where "hole (link_up bp p s) A bp us p ws" "unat (u_size s bp) \<le> unat (u_size (link_up bp p s) bp)"
proof -
  note P = placedD [OF pl]
  note H = heap_okD [OF P(1)]
  have be: "blk_end s bp \<le> unat (u_brk s)" using H(8) [of bp] by simp
  then have w: "unat (bp + 8 * u_size s bp) = blk_end s bp" using H(13) by (intro blk_end_word) simp
  have ap: "blk_end s bp \<le> unat a \<or> blk_end s a \<le> unat bp" if "a \<in> A" for a
    using H(9) [of bp a] P(2) that by (auto simp: apart_def)
  show thesis
  proof (cases "bp + 8 * u_size s bp = u_ptr s p")
    case False
    have "blk_end s bp < unat v" if "v \<in> set vs" for v
    proof (cases vs)
      case (Cons x zs)
      then have "blk_end s bp \<noteq> unat x" using False w P(9) by (metis append_Cons list.sel(1) word_unat_eq_iff)
      then show ?thesis using P(6) [of x] P(6) [of v] P(11) that Cons by (auto simp: sorted_wrt_append blk_end_def)
    qed (use that in simp)
    then have "hole (s\<lparr>u_size := (u_size s)(bp := u_size s bp), u_ptr := (u_ptr s)(bp := hd (vs @ [u_base s]))\<rparr>) A bp us p vs"
      using be ap by (intro hole_intro [OF pl subset_refl P(10,11)]) (simp_all add: blk_end_def)
    then show thesis using that False P(9) by (simp add: link_up_def)
  next
    case True
    have "u_base s < bp" using H(7) [of bp] by (simp add: word_less_nat_alt)
    then have "blk_end s bp \<noteq> unat (u_base s)" by (simp add: blk_end_def word_less_nat_alt)
    then obtain v zs where vs: "vs = v # zs" using True w P(9) by (cases vs) auto
    then have v: "blk_end s bp = unat v" "u_ptr s p = v" "u_ptr s v = hd (zs @ [u_base s])"
      using True w P(9,10) by auto
    have vx: "v \<in> set xs" using P(12) vs by (cases us) auto
    then have ve: "blk_end s v \<le> unat (u_brk s)" using H(8) by blast
    have "unat (u_size s bp + u_size s v) = unat (u_size s bp) + unat (u_size s v)"
      using ve v(1) H(13) by (intro unat_add_lem [THEN iffD1]) (simp add: blk_end_def)
    then have z: "unat bp + 8 * unat (u_size s bp + u_size s v) = blk_end s v"
      using v(1) by (simp add: blk_end_def)
    have va: "blk_end s v \<le> unat a \<or> blk_end s a \<le> unat bp" if "a \<in> A" for a
    proof -
      have "apart s a v" using H(9) [of a v] H(10) vx that by auto
      moreover have "0 < unat (u_size s a)" using H(6) that by blast
      ultimately show ?thesis using ap [OF that] v(1) by (auto simp: apart_def blk_end_def)
    qed
    have "hole (s\<lparr>u_size := (u_size s)(bp := u_size s bp + u_size s v), u_ptr := (u_ptr s)(bp := hd (zs @ [u_base s]))\<rparr>) A bp us p zs"
      using z ve va P(10,11) vs \<open>unat (u_size s bp + u_size s v) = _\<close>
      by (intro hole_intro [OF pl]) (auto simp: sorted_wrt_append)
    then show thesis using that True v(2,3) \<open>unat (u_size s bp + u_size s v) = _\<close> by (simp add: link_up_def)
  qed
qed

lemma holeD:
  assumes "hole s A bp us p ws"
  shows "path (u_ptr s) us p" "path (u_ptr s) ws (u_base s)" "u_ptr s bp = hd (ws @ [u_base s])" "u_base s = hd (us @ [p])"
    "sorted_wrt (\<lambda>x y. blk_end s x < unat y) (us @ p # ws)" "blk_end s p \<le> unat bp" "w \<in> set ws \<Longrightarrow> blk_end s bp < unat w"
    "u_size s (u_base s) = 0" "u_base s \<noteq> 0"
    "x \<in> set (tl (us @ p # ws)) \<union> insert bp A \<Longrightarrow> 0 < unat (u_size s x) \<and> unat (u_base s) + 8 \<le> unat x \<and> blk_end s x \<le> unat (u_brk s)"
    "x \<in> A \<Longrightarrow> y \<in> set (tl (us @ p # ws)) \<union> insert bp A \<Longrightarrow> x \<noteq> y \<Longrightarrow> apart s x y"
    "A \<inter> insert bp (set (us @ p # ws)) = {}" "bp \<notin> set (us @ p # ws)"
    "unat (u_base s) + 8 \<le> unat (u_brk s)" "u_brk s \<le> u_limit s" "u_limit s < 0x80000000"
    "unat (u_brk s) < 0x80000000" "p \<notin> set us" "p \<notin> set ws"
proof -
  have srt: "sorted_wrt (\<lambda>x y. blk_end s x < unat y) (us @ p # ws)" and "u_brk s \<le> u_limit s" "u_limit s < 0x80000000"
    using assms by (simp_all add: hole_def)
  then show "unat (u_brk s) < 0x80000000" by (simp add: word_le_nat_alt word_less_nat_alt)
  show "p \<notin> set us" "p \<notin> set ws" using sorted_less [OF srt] by (auto simp: sorted_wrt_append)
qed (use assms in \<open>auto simp: hole_def\<close>)

lemma link_apart_ok:
  assumes ho: "hole s A bp us p ws" and ne: "blk_end s p \<noteq> unat bp"
  shows "heap_ok (s\<lparr>u_ptr := (u_ptr s)(p := bp), u_freep := p\<rparr>) (tl (us @ p # bp # ws)) A" (is "heap_ok ?t ?xs _")
proof -
  note O = holeD [OF ho]
  have e: "u_base s # ?xs = us @ p # bp # ws" using O(4) by (cases us) auto
  have tl: "set ?xs = insert bp (set (tl (us @ p # ws)))" by (cases us) auto
  have bt: "blk_end ?t = blk_end s" by (simp add: fun_eq_iff blk_end_def)
  have pb: "blk_end s p < unat bp" using O(6) ne by simp
  have srt: "sorted_wrt (\<lambda>x y. blk_end s x < unat y) (us @ p # bp # ws)"
    using O(5,7) pb by (fastforce simp: sorted_wrt_append blk_end_def)
  have path: "path ((u_ptr s)(p := bp)) (us @ p # bp # ws) (u_base s)"
    using O(1,2,3,13,18,19) by (simp add: path_append)
  show ?thesis unfolding heap_ok_def
  proof (intro conjI)
    show "path (u_ptr ?t) (u_base ?t # ?xs) (u_base ?t)" using path e by simp
    show "sorted_wrt (\<lambda>x y. blk_end ?t x < unat y) (u_base ?t # ?xs)" using srt e bt by simp
    show "u_freep ?t \<in> set (u_base ?t # ?xs)" using arg_cong [OF e, of set] by simp
    show "\<forall>x\<in>set ?xs \<union> A. 0 < unat (u_size ?t x) \<and> unat (u_base ?t) + 8 \<le> unat x \<and> blk_end ?t x \<le> unat (u_brk ?t)"
      using O(10) tl bt by auto
    show "\<forall>x\<in>A. \<forall>y\<in>set ?xs \<union> A. x \<noteq> y \<longrightarrow> apart ?t x y" using O(11) tl bt by (auto simp: apart_def)
    show "A \<inter> set ?xs = {}" using O(12) by (cases us) auto
  qed (use O in simp_all)
qed

lemma link_merge_ok:
  assumes ho: "hole s A bp us p ws" and eq: "blk_end s p = unat bp"
  shows "heap_ok (s\<lparr>u_size := (u_size s)(p := u_size s p + u_size s bp), u_ptr := (u_ptr s)(p := u_ptr s bp), u_freep := p\<rparr>)
           (tl (us @ p # ws)) A" (is "heap_ok ?t ?xs _")
    and "p \<in> set (tl (us @ p # ws))" and "unat (u_size s p + u_size s bp) = unat (u_size s p) + unat (u_size s bp)"
proof -
  note O = holeD [OF ho]
  have e: "u_base s # ?xs = us @ p # ws" using O(4) by (cases us) auto
  have B: "0 < unat (u_size s bp)" "unat (u_base s) + 8 \<le> unat bp" "blk_end s bp \<le> unat (u_brk s)" using O(10) [of bp] by auto
  have pb: "p \<noteq> u_base s" using eq B(2) O(8) by (auto simp: blk_end_def)
  then show px: "p \<in> set ?xs" using arg_cong [OF e, of set] by auto
  show sz: "unat (u_size s p + u_size s bp) = unat (u_size s p) + unat (u_size s bp)"
    using B(3) eq O(17) by (intro unat_add_lem [THEN iffD1]) (simp add: blk_end_def)
  have bp: "blk_end ?t p = blk_end s bp" using sz eq by (simp add: blk_end_def)
  have bt: "blk_end ?t x = blk_end s x" if "x \<noteq> p" for x using that by (simp add: blk_end_def)
  have srt: "sorted_wrt (\<lambda>x y. blk_end ?t x < unat y) (us @ p # ws)"
  proof -
    have "sorted_wrt (\<lambda>x y. blk_end s x < unat y) us" "sorted_wrt (\<lambda>x y. blk_end s x < unat y) ws"
      using O(5) by (simp_all add: sorted_wrt_append)
    then have "sorted_wrt (\<lambda>x y. blk_end ?t x < unat y) us" "sorted_wrt (\<lambda>x y. blk_end ?t x < unat y) ws"
      using sorted_blocks_cong [of us ?t s] sorted_blocks_cong [of ws ?t s] O(18,19) by fastforce+
    moreover have "\<forall>w\<in>set ws. blk_end ?t p < unat w" using O(7) bp by simp
    moreover have "\<forall>u\<in>set us. \<forall>x\<in>set (p # ws). blk_end ?t u < unat x"
    proof (intro ballI)
      fix u x assume "u \<in> set us" "x \<in> set (p # ws)"
      moreover from this have "blk_end ?t u = blk_end s u" using O(18) by (intro bt) blast
      ultimately show "blk_end ?t u < unat x" using O(5) by (simp only:) (auto simp: sorted_wrt_append)
    qed
    ultimately show ?thesis by (auto simp: sorted_wrt_append)
  qed
  show "heap_ok ?t ?xs A" unfolding heap_ok_def
  proof (intro conjI)
    have "path ((u_ptr s)(p := u_ptr s bp)) (us @ p # ws) (u_base s)" using O(1,2,3,18,19) by (simp add: path_append)
    then show "path (u_ptr ?t) (u_base ?t # ?xs) (u_base ?t)" using e by simp
    show "sorted_wrt (\<lambda>x y. blk_end ?t x < unat y) (u_base ?t # ?xs)" using srt e by simp
    show "u_freep ?t \<in> set (u_base ?t # ?xs)" using px by simp
    show "\<forall>x\<in>set ?xs \<union> A. 0 < unat (u_size ?t x) \<and> unat (u_base ?t) + 8 \<le> unat x \<and> blk_end ?t x \<le> unat (u_brk ?t)"
    proof
      fix x assume x: "x \<in> set ?xs \<union> A"
      then show "0 < unat (u_size ?t x) \<and> unat (u_base ?t) + 8 \<le> unat x \<and> blk_end ?t x \<le> unat (u_brk ?t)"
        using O(10) [of x] bt [of x] bp sz B by (cases "x = p") auto
    qed
    show "\<forall>x\<in>A. \<forall>y\<in>set ?xs \<union> A. x \<noteq> y \<longrightarrow> apart ?t x y"
    proof (intro ballI impI)
      fix x y assume xy: "x \<in> A" "y \<in> set ?xs \<union> A" "x \<noteq> y"
      have xp: "x \<noteq> p" "x \<noteq> bp" using O(12) xy(1) by auto
      have sx: "0 < unat (u_size s x)" using O(10) [of x] xy(1) by auto
      have "apart s x bp" "apart s x y" using O(11) [of x] xy xp by auto
      then show "apart ?t x y" using xp sx eq bp bt [of x] bt [of y]
        by (cases "y = p") (auto simp: apart_def blk_end_def)
    qed
    show "A \<inter> set ?xs = {}" using O(12) by (cases us) auto
  qed (use O pb in simp_all)
qed

lemma link_down_ok:
  assumes ho: "hole s A bp us p ws"
  obtains xs where "heap_ok ((link_down bp p s)\<lparr>u_freep := p\<rparr>) xs A"
    "\<exists>x\<in>set xs. unat (u_size s bp) \<le> unat (u_size (link_down bp p s) x)"
proof -
  note O = holeD [OF ho]
  have "unat (p + 8 * u_size s p) = blk_end s p"
    using O(6) O(10) [of bp] O(17) by (intro blk_end_word) (auto simp: blk_end_def)
  then have c: "p + 8 * u_size s p = bp \<longleftrightarrow> blk_end s p = unat bp" by (metis word_unat_eq_iff)
  show thesis
  proof (cases "blk_end s p = unat bp")
    case True
    then show thesis using that [OF _ bexI [of _ p]] link_merge_ok [OF ho True] c O(13) by (auto simp: link_down_def)
  next
    case False
    have "bp \<in> set (tl (us @ p # bp # ws))" by (cases us) auto
    then show thesis using that [OF _ bexI [of _ bp]] link_apart_ok [OF ho False] c False by (simp add: link_down_def)
  qed
qed

section \<open>The bodies of the blocks in use\<close>

text \<open>No header at an address that overlaps one of the blocks \<open>A\<close> is written, theirs included.\<close>

definition untouched :: "ust \<Rightarrow> u32 set \<Rightarrow> ust \<Rightarrow> bool" where
  "untouched s A t \<longleftrightarrow> (\<forall>a\<in>A. \<forall>x. unat a < unat x + 8 \<and> unat x < blk_end s a \<longrightarrow> u_ptr t x = u_ptr s x \<and> u_size t x = u_size s x)"

lemma untouchedI:
  assumes "\<And>x. x \<notin> Z \<Longrightarrow> u_ptr t x = u_ptr s x \<and> u_size t x = u_size s x"
    and "\<And>z a. z \<in> Z \<Longrightarrow> a \<in> A \<Longrightarrow> unat z + 8 \<le> unat a \<or> blk_end s a \<le> unat z"
  shows "untouched s A t"
  using assms by (fastforce simp: untouched_def)

lemma untouched_size: "untouched s A t \<Longrightarrow> a \<in> A \<Longrightarrow> 0 < unat (u_size s a) \<Longrightarrow> u_size t a = u_size s a"
  by (simp add: untouched_def blk_end_def)

lemma untouched_trans:
  assumes "untouched s A t" "untouched t A u" "\<forall>a\<in>A. 0 < unat (u_size s a)"
  shows "untouched s A u"
  using assms untouched_size [OF assms(1)] unfolding untouched_def by (metis blk_end_cong)

lemma ufree_ok:
  assumes ok: "heap_ok s xs (insert bp A)" and new: "bp \<notin> A"
  obtains t ys where "ufree (bp + 8) s = Some t" "heap_ok t ys A" "untouched s A t"
    "\<exists>x\<in>set ys. unat (u_size s bp) \<le> unat (u_size t x)"
    "t = s\<lparr>u_ptr := u_ptr t, u_size := u_size t, u_freep := u_freep t\<rparr>"
proof -
  obtain us p vs where pl: "placed s xs A bp us p vs" and ff: "free_find (u_ptr s) bp (u_freep s) = Some p"
    using placed_exists [OF ok new] by blast
  note P = placedD [OF pl]
  note H = heap_okD [OF ok]
  let ?u = "link_up bp p s" let ?t = "(link_down bp p ?u)\<lparr>u_freep := p\<rparr>"
  obtain ws where ho: "hole ?u A bp us p ws" and big: "unat (u_size s bp) \<le> unat (u_size ?u bp)"
    using link_up_hole [OF pl] by blast
  obtain ys where ys: "heap_ok ?t ys A" "\<exists>x\<in>set ys. unat (u_size ?u bp) \<le> unat (u_size (link_down bp p ?u) x)"
    using link_down_ok [OF ho] by blast
  have "untouched s A ?t"
  proof (rule untouchedI [of "{bp, p}"])
    fix z a assume z: "z \<in> {bp, p}" "a \<in> A"
    have px: "p = u_base s \<or> p \<in> set xs" using P(12,4) by (cases us) auto
    have "z \<noteq> a" using z P(2,13) by auto
    then have "z = u_base s \<or> apart s a z \<and> 0 < unat (u_size s z)" using z px H(9) [of a z] H(6) [of z] by auto
    then show "unat z + 8 \<le> unat a \<or> blk_end s a \<le> unat z"
      using H(7) [of a] z(2) by (auto simp: apart_def blk_end_def)
  qed (auto simp: link_up_def link_down_def Let_def)
  moreover have "ufree (bp + 8) s = Some ?t" using ff by (simp add: ufree_def)
  moreover have "\<exists>x\<in>set ys. unat (u_size s bp) \<le> unat (u_size ?t x)" using ys(2) big by force
  moreover have "?t = s\<lparr>u_ptr := u_ptr ?t, u_size := u_size ?t, u_freep := u_freep ?t\<rparr>"
    by (simp add: link_up_def link_down_def Let_def)
  ultimately show thesis using that ys(1) by blast
qed

section \<open>Taking a block\<close>

lemma heap_split:
  assumes ok: "heap_ok s xs A" and prev: "prev \<in> set (u_base s # xs)" "u_ptr s prev = x" "x \<noteq> u_base s"
  obtains cs bs where "u_base s # xs = cs @ prev # x # bs"
proof -
  obtain cs ds where e: "u_base s # xs = cs @ prev # ds" using prev(1) by (meson split_list)
  then have "x = hd (ds @ [u_base s])" using heap_okD(1) [OF ok] prev(2) by (metis path_append path.simps(2))
  then obtain bs where "ds = x # bs" using prev(3) by (cases ds) auto
  then show thesis using that e by blast
qed

lemma untouched_frame: "untouched s A (t\<lparr>u_freep := p\<rparr>) = untouched s A t" "untouched s A (t\<lparr>u_brk := p\<rparr>) = untouched s A t"
  by (simp_all add: untouched_def)

lemma take_exact_ok:
  assumes ok: "heap_ok s xs A" and e: "u_base s # xs = cs @ prev # x # bs"
  shows "heap_ok (s\<lparr>u_ptr := (u_ptr s)(prev := u_ptr s x), u_freep := prev\<rparr>) (tl (cs @ prev # bs)) (insert x A)" (is "heap_ok ?t ?ys _")
    and "untouched s A (s\<lparr>u_ptr := (u_ptr s)(prev := u_ptr s x), u_freep := prev\<rparr>)"
proof -
  note H = heap_okD [OF ok]
  have e': "u_base s # ?ys = cs @ prev # bs" using e by (cases cs) auto
  have xs: "set xs = insert x (set ?ys)" using e by (cases cs) auto
  have srt: "sorted_wrt (\<lambda>x y. blk_end s x < unat y) (cs @ prev # x # bs)" using H(2) e by metis
  have path: "path (u_ptr s) (cs @ prev # x # bs) (u_base s)" using H(1) e by metis
  have nx: "x \<notin> set ?ys" "prev \<notin> set cs" "prev \<notin> set bs" using sorted_less [OF srt] e by (cases cs; auto simp: sorted_wrt_append)+
  have bt: "blk_end ?t = blk_end s" by (simp add: fun_eq_iff blk_end_def)
  show "heap_ok ?t ?ys (insert x A)" unfolding heap_ok_def
  proof (intro conjI)
    have "path ((u_ptr s)(prev := u_ptr s x)) (cs @ prev # bs) (u_base s)" using path nx by (simp add: path_append)
    then show "path (u_ptr ?t) (u_base ?t # ?ys) (u_base ?t)" using e' by simp
    show "sorted_wrt (\<lambda>x y. blk_end ?t x < unat y) (u_base ?t # ?ys)" using srt e' bt by (simp add: sorted_wrt_append)
    show "u_freep ?t \<in> set (u_base ?t # ?ys)" using arg_cong [OF e', of set] by simp
    show "\<forall>z\<in>set ?ys \<union> insert x A. 0 < unat (u_size ?t z) \<and> unat (u_base ?t) + 8 \<le> unat z \<and> blk_end ?t z \<le> unat (u_brk ?t)"
      using H(6-8) xs bt by auto
    have xy: "apart s x y" if "y \<in> set ?ys" for y
    proof -
      have "y \<in> set (cs @ [prev]) \<or> y \<in> set bs" using that by (cases cs) auto
      then show ?thesis using srt by (auto simp: sorted_wrt_append apart_def less_imp_le)
    qed
    have "apart s x a" "apart s a x" if "a \<in> A" for a using that H(9) [of a x] H(10) xs by (auto simp: apart_def)
    then show "\<forall>z\<in>insert x A. \<forall>y\<in>set ?ys \<union> insert x A. z \<noteq> y \<longrightarrow> apart ?t z y"
      using xy H(9) xs bt by (auto simp: apart_def)
    show "insert x A \<inter> set ?ys = {}" using nx H(10) xs by auto
  qed (use H in simp_all)
  show "untouched s A ?t"
  proof (rule untouchedI [of "{prev}"])
    fix z a assume z: "z \<in> {prev}" "a \<in> A"
    have "prev \<in> set (u_base s # xs)" using e by simp
    then have "z = u_base s \<or> apart s a z \<and> 0 < unat (u_size s z)" using z H(9) [of a z] H(6) [of z] H(10) by auto
    then show "unat z + 8 \<le> unat a \<or> blk_end s a \<le> unat z" using H(7) [of a] z(2) by (auto simp: apart_def blk_end_def)
  qed auto
qed

lemma take_split_ok:
  assumes ok: "heap_ok s xs A" and x: "x \<in> set xs" and f: "f \<in> set (u_base s # xs)" and n: "0 < unat n" "n < u_size s x"
    and q: "q = x + 8 * (u_size s x - n)"
  shows "heap_ok (s\<lparr>u_size := (u_size s)(x := u_size s x - n, q := n), u_freep := f\<rparr>) xs (insert q A)" (is "heap_ok ?t _ _")
    and "untouched s A (s\<lparr>u_size := (u_size s)(x := u_size s x - n, q := n), u_freep := f\<rparr>)" and "q \<notin> A"
proof -
  note H = heap_okD [OF ok]
  have r: "unat (u_size s x - n) = unat (u_size s x) - unat n" "unat n < unat (u_size s x)"
    using n(2) unat_sub [of n "u_size s x"] by (simp_all add: word_less_nat_alt less_imp_le)
  have xb: "x \<noteq> u_base s" using H(7) [of x] x by auto
  have xe: "blk_end s x \<le> unat (u_brk s)" using H(8) x by blast
  then have "unat q = unat x + 8 * unat (u_size s x - n)"
    unfolding q using r H(13) by (intro unat_units) (simp add: blk_end_def)
  then have uq: "unat q + 8 * unat n = blk_end s x" "unat q = unat x + 8 * unat (u_size s x - n)" "unat x + 8 \<le> unat q"
    using r n by (simp_all add: blk_end_def)
  have xA: "blk_end s a \<le> unat x \<or> blk_end s x \<le> unat a" if "a \<in> A" for a
    using H(9) [of a x] H(10) x that by (auto simp: apart_def)
  have posA: "unat a < blk_end s a" if "a \<in> set xs \<union> A" for a using H(6) [OF that] by (simp add: blk_end_def)
  have xx: "blk_end s y < unat x \<or> blk_end s x < unat y" if "y \<in> set (u_base s # xs)" "y \<noteq> x" for y
  proof -
    have "x \<in> set (u_base s # xs)" using x by simp
    then obtain cs bs where e: "u_base s # xs = cs @ x # bs" by (meson split_list)
    then have "y \<in> set cs \<or> y \<in> set bs" using that by (metis Un_iff insert_iff list.simps(15) set_append)
    then show ?thesis using H(2) e by (auto simp: sorted_wrt_append)
  qed
  have yend: "unat y \<le> blk_end s y" for y by (simp add: blk_end_def)
  show qA: "q \<notin> A" using xA [of q] posA [of q] uq n(1) by auto
  have "q \<noteq> x" using uq(3) by auto
  then have qx: "q \<notin> set (u_base s # xs)" using xx [of q] uq(1,3) n(1) yend [of q] by linarith
  have bt: "blk_end ?t y = blk_end s y" "u_size ?t y = u_size s y" if "y \<noteq> x" "y \<noteq> q" for y using that by (simp_all add: blk_end_def)
  have bx: "blk_end ?t x = unat q" "blk_end ?t q = blk_end s x" using uq by (auto simp: blk_end_def)
  have le: "blk_end ?t y \<le> blk_end s y" if "y \<in> set (u_base s # xs)" for y
  proof -
    have "y \<noteq> q" using that qx by metis
    then show ?thesis using bx(1) bt(1) [of y] uq(1) by (cases "y = x") auto
  qed
  show "heap_ok ?t xs (insert q A)" unfolding heap_ok_def
  proof (intro conjI)
    show "sorted_wrt (\<lambda>x y. blk_end ?t x < unat y) (u_base ?t # xs)"
      using sorted_wrt_mono_rel [OF _ H(2), of "\<lambda>x y. blk_end ?t x < unat y"] le by (force dest: le_less_trans)
    show "\<forall>z\<in>set xs \<union> insert q A. 0 < unat (u_size ?t z) \<and> unat (u_base ?t) + 8 \<le> unat z \<and> blk_end ?t z \<le> unat (u_brk ?t)"
    proof
      fix z assume z: "z \<in> set xs \<union> insert q A"
      have "z = q \<or> z = x \<or> z \<noteq> x \<and> z \<noteq> q" by blast
      then show "0 < unat (u_size ?t z) \<and> unat (u_base ?t) + 8 \<le> unat z \<and> blk_end ?t z \<le> unat (u_brk ?t)"
        using z n(1) r bx xe uq H(7) [of x] x bt [of z] H(6-8) [of z] by auto
    qed
    have ap: "apart ?t z y" if z: "z \<in> A" "y \<in> set xs \<union> insert q A" "z \<noteq> y" for z y
    proof -
      have zq: "z \<noteq> x" "z \<noteq> q" using z(1) H(10) x qA by auto
      have "y = q \<or> y = x \<or> y \<noteq> x \<and> y \<noteq> q" by blast
      then show ?thesis using z bx bt(1) [OF zq] bt(1) [of y] xA [of z] uq(1,3) H(9) [of z y] posA [of z]
        by (auto simp: apart_def)
    qed
    have aq: "apart ?t q y" if "y \<in> set xs" for y
    proof -
      have "y \<noteq> q" using that qx by auto
      then show ?thesis using that bx bt(1) [of y] xx [of y] uq(1,3) by (cases "y = x") (auto simp: apart_def)
    qed
    show "\<forall>z\<in>insert q A. \<forall>y\<in>set xs \<union> insert q A. z \<noteq> y \<longrightarrow> apart ?t z y"
      using ap aq by (auto simp: apart_def)
    show "insert q A \<inter> set xs = {}" using qx H(10) by auto
  qed (use H(1,3,4,11,12,14) f qx xb in auto)
  show "untouched s A ?t"
  proof (rule untouchedI [of "{x, q}"])
    fix z a assume z: "z \<in> {x, q}" "a \<in> A"
    then show "unat z + 8 \<le> unat a \<or> blk_end s a \<le> unat z" using xA [of a] uq n(1) by auto
  qed auto
qed

text \<open>What \<^verbatim>\<open>malloc\<close> promises of a block \<open>b\<close> of \<open>n\<close> units it takes.\<close>

definition taken :: "ust \<Rightarrow> u32 set \<Rightarrow> u32 \<Rightarrow> u32 \<Rightarrow> ust \<Rightarrow> bool" where
  "taken s A n b t \<longleftrightarrow> (\<exists>ys. heap_ok t ys (insert b A)) \<and> b \<notin> A \<and> u_size t b = n \<and> untouched s A t
     \<and> u_base t = u_base s \<and> u_limit t = u_limit s"

lemma take_block_ok:
  assumes ok: "heap_ok s xs A" and prev: "prev \<in> set (u_base s # xs)" and x: "u_ptr s prev = x" and n: "0 < unat n" "n \<le> u_size s x"
  obtains b t where "take_block n prev x s = (b + 8, t)" "taken s A n b t"
proof -
  note H = heap_okD [OF ok]
  have "x \<noteq> u_base s" using H(3) n by (auto simp: word_le_nat_alt)
  then obtain cs bs where e: "u_base s # xs = cs @ prev # x # bs" using heap_split [OF ok prev x] by blast
  then have xx: "x \<in> set xs" "x \<notin> A" using H(10) by (cases cs; auto)+
  show thesis
  proof (cases "u_size s x = n")
    case True
    then show thesis using that [of x] take_exact_ok [OF ok e] xx(2) by (auto simp: taken_def take_block_def)
  next
    case False
    then have "n < u_size s x" using n(2) by simp
    then show thesis using that [of "x + 8 * (u_size s x - n)"] take_split_ok [OF ok xx(1) prev n(1) _ refl] False
      by (auto simp: taken_def take_block_def Let_def)
  qed
qed

section \<open>Searching\<close>

lemma malloc_skip:
  "path (u_ptr s) (q # as) x \<Longrightarrow> \<forall>a\<in>set as. u_size s a < n \<and> a \<noteq> u_freep s \<Longrightarrow>
   malloc_loop n q (u_ptr s q) s = malloc_loop n (last (q # as)) x s"
proof (induction as arbitrary: q)
  case (Cons a as)
  have "malloc_loop n q a s = malloc_loop n a (u_ptr s a) s"
    using Cons.prems(2) by (subst malloc_loop.simps) (auto dest: leD)
  then show ?case using Cons by simp
qed simp

text \<open>The list from \<^verbatim>\<open>freep\<close> around to it.\<close>

lemma heap_rotate:
  assumes ok: "heap_ok s xs A"
  obtains ds where "path (u_ptr s) (u_freep s # ds) (u_freep s)" "u_freep s \<notin> set ds" "set (u_freep s # ds) = set (u_base s # xs)"
proof -
  note H = heap_okD [OF ok]
  obtain c d where e: "u_base s # xs = c @ u_freep s # d" using H(5) by (meson split_list)
  have hd: "u_base s = hd (c @ [u_freep s])" using e by (cases c) auto
  have "path (u_ptr s) (c @ u_freep s # d) (u_base s)" using H(1) e by metis
  then have "path (u_ptr s) (u_freep s # d @ c) (u_freep s)"
    using hd by (cases c) (auto simp: path_append hd_append)
  moreover have "sorted_wrt (<) (c @ u_freep s # d)" using sorted_less [OF H(2)] e by metis
  then have "u_freep s \<notin> set (d @ c)" by (auto simp: sorted_wrt_append)
  moreover have "set (u_freep s # d @ c) = set (u_base s # xs)" unfolding e by auto
  ultimately show thesis using that by blast
qed

text \<open>With a big enough block in the list the search takes one, whatever lies before it.\<close>

lemma malloc_loop_found:
  assumes ok: "heap_ok s xs A" and n: "0 < unat n" and x: "\<exists>x\<in>set xs. n \<le> u_size s x"
  obtains b t where "malloc_loop n (u_freep s) (u_ptr s (u_freep s)) s = Some (b + 8, t)" "taken s A n b t"
proof -
  obtain ds where ds: "path (u_ptr s) (u_freep s # ds) (u_freep s)" "u_freep s \<notin> set ds" "set (u_freep s # ds) = set (u_base s # xs)"
    using heap_rotate [OF ok] by blast
  have "\<exists>x\<in>set (ds @ [u_freep s]). n \<le> u_size s x" using x ds(3) by auto
  then obtain as x bs where s: "ds @ [u_freep s] = as @ x # bs" "n \<le> u_size s x" "\<forall>a\<in>set as. \<not> n \<le> u_size s a"
    using split_list_first_propE [of "ds @ [u_freep s]" "\<lambda>x. n \<le> u_size s x"] by blast
  have "path (u_ptr s) (u_freep s # as) x \<and> set as \<subseteq> set ds"
  proof (cases bs rule: rev_cases)
    case Nil
    then have "as = ds" "x = u_freep s" using s(1) by auto
    then show ?thesis using ds(1) by blast
  next
    case (snoc zs z)
    then have "ds = as @ x # zs" using s(1) by simp
    then have "u_freep s # ds = (u_freep s # as) @ x # zs" "set as \<subseteq> set ds" by auto
    then show ?thesis using ds(1) path_append [of _ "u_freep s # as" "x # zs"] by (metis append_Cons list.sel(1))
  qed
  then have p: "path (u_ptr s) (u_freep s # as) x" and sub: "set as \<subseteq> set ds" by auto
  let ?q = "last (u_freep s # as)"
  have "malloc_loop n (u_freep s) (u_ptr s (u_freep s)) s = malloc_loop n ?q x s"
    using s(3) sub ds(2) by (intro malloc_skip [OF p]) (auto simp: not_le)
  also have "\<dots> = Some (take_block n ?q x s)" using s(2) by (subst malloc_loop.simps) simp
  finally have ml: "malloc_loop n (u_freep s) (u_ptr s (u_freep s)) s = Some (take_block n ?q x s)" .
  have "?q \<in> set (u_freep s # as)" by (rule last_in_set) simp
  moreover have "set (u_freep s # as) \<subseteq> set (u_freep s # ds)" using sub by auto
  ultimately have q: "?q \<in> set (u_base s # xs)" using ds(3) by blast
  have "u_ptr s ?q = x"
  proof -
    have "path (u_ptr s) (butlast (u_freep s # as) @ [?q]) x" using p by (metis append_butlast_last_id list.distinct(1))
    then show ?thesis by (simp add: path_append)
  qed
  then show thesis using take_block_ok [OF ok q _ n s(2)] that ml by metis
qed

text \<open>With none the search goes once around and asks for more.\<close>

lemma malloc_loop_none:
  assumes ok: "heap_ok s xs A" and n: "0 < unat n" and none: "\<forall>x\<in>set xs. u_size s x < n"
  shows "malloc_loop n (u_freep s) (u_ptr s (u_freep s)) s =
     Option.bind (morecore n s) (\<lambda>r. if fst r = 0 then Some (0, snd r)
          else malloc_loop n (fst r) (u_ptr (snd r) (fst r)) (snd r))"
proof -
  obtain ds where ds: "path (u_ptr s) (u_freep s # ds) (u_freep s)" "u_freep s \<notin> set ds" "set (u_freep s # ds) = set (u_base s # xs)"
    using heap_rotate [OF ok] by blast
  have "u_size s (u_base s) < n" using heap_okD(3) [OF ok] n by (simp add: word_less_nat_alt)
  then have "\<forall>x\<in>set (u_freep s # ds). u_size s x < n" using none unfolding ds(3) by simp
  then have sz: "u_size s (u_freep s) < n" "\<forall>x\<in>set ds. u_size s x < n \<and> x \<noteq> u_freep s" using ds(2) by auto
  show ?thesis unfolding malloc_skip [OF ds(1) sz(2)] using sz(1) by (subst malloc_loop.simps) (auto dest: leD)
qed

section \<open>Getting more memory\<close>

definition core_units :: "u32 \<Rightarrow> u32" where
  "core_units n = (if n < 4096 then 4096 else n)"

lemma sbrk_block_ok:
  assumes ok: "heap_ok s xs A" and m: "0 < unat m" "unat (u_brk s) + 8 * unat m \<le> unat (u_limit s)"
    and t: "t = s\<lparr>u_brk := u_brk s + 8 * m, u_size := (u_size s)(u_brk s := m)\<rparr>"
  shows "heap_ok t xs (insert (u_brk s) A)" "u_brk s \<notin> A" "untouched s A t"
proof -
  note H = heap_okD [OF ok]
  let ?b = "u_brk s"
  have lim: "unat (u_limit s) < 2 ^ 31" using H(14) by (simp add: word_less_nat_alt)
  have ub: "unat (u_brk t) = unat ?b + 8 * unat m" unfolding t using unat_units [of ?b m] m(2) lim by simp
  have lt: "blk_end s x \<le> unat ?b \<and> x \<noteq> ?b" if "x \<in> set xs \<union> A" for x
    using H(8) [OF that] H(6) [OF that] by (auto simp: blk_end_def)
  have nb: "u_base s \<noteq> ?b" using H(11) by auto
  show nA: "?b \<notin> A" using lt by auto
  have bt: "blk_end t x = blk_end s x" if "x \<noteq> ?b" for x using that by (simp add: t blk_end_def)
  have bb: "blk_end t ?b = unat (u_brk t)" unfolding ub by (simp add: t blk_end_def)
  show "untouched s A t"
  proof (rule untouchedI [of "{?b}"])
    fix z a assume "z \<in> {?b}" "a \<in> A"
    then show "unat z + 8 \<le> unat a \<or> blk_end s a \<le> unat z" using lt by auto
  qed (simp add: t)
  show "heap_ok t xs (insert ?b A)" unfolding heap_ok_def
  proof (intro conjI)
    show "sorted_wrt (\<lambda>x y. blk_end t x < unat y) (u_base t # xs)"
      using H(2) nb lt sorted_blocks_cong [of "u_base s # xs" t s] by (force simp: t)
    show "\<forall>x\<in>set xs \<union> insert ?b A. 0 < unat (u_size t x) \<and> unat (u_base t) + 8 \<le> unat x \<and> blk_end t x \<le> unat (u_brk t)"
    proof
      fix x assume x: "x \<in> set xs \<union> insert ?b A"
      show "0 < unat (u_size t x) \<and> unat (u_base t) + 8 \<le> unat x \<and> blk_end t x \<le> unat (u_brk t)"
      proof (cases "x = ?b")
        case True
        then show ?thesis using m(1) H(11) bb by (simp add: t)
      next
        case False
        then show ?thesis using x H(6) [of x] H(7) [of x] lt [of x] bt [of x] ub by (auto simp: t)
      qed
    qed
    have ap: "apart t x y" if "x \<in> A" "y \<in> set xs \<union> insert ?b A" "x \<noteq> y" for x y
      using that lt [of x] lt [of y] bt [of x] bt [of y] bb H(9) [of x y] by (cases "y = ?b") (auto simp: apart_def)
    have ab: "apart t ?b y" if "y \<in> set xs" for y using that lt [of y] bt [of y] by (auto simp: apart_def)
    show "\<forall>x\<in>insert ?b A. \<forall>y\<in>set xs \<union> insert ?b A. x \<noteq> y \<longrightarrow> apart t x y"
      using ap ab by (auto simp: apart_def)
    show "insert ?b A \<inter> set xs = {}" using H(10) lt by auto
    show "u_brk t \<le> u_limit t" using ub m(2) by (simp add: t word_le_nat_alt)
    show "unat (u_base t) + 8 \<le> unat (u_brk t)" using ub H(11) by (simp add: t)
  qed (use H(1,3,4,5,14) nb in \<open>simp_all add: t\<close>)
qed

lemma morecore_ok:
  assumes ok: "heap_ok s xs A" and n: "unat n \<le> 0xF000000"
  obtains (fail) "morecore n s = Some (0, s)" "unat (u_brk s) + 8 * unat (core_units n) > unat (u_limit s)"
  | (more) t ys where "morecore n s = Some (u_freep t, t)" "u_freep t \<noteq> 0" "heap_ok t ys A" "untouched s A t"
      "\<exists>x\<in>set ys. n \<le> u_size t x" "u_base t = u_base s" "u_limit t = u_limit s"
proof -
  note H = heap_okD [OF ok]
  let ?m = "core_units n"
  have m: "0 < unat ?m" "unat ?m \<le> 0xF000000" "n \<le> ?m" using n by (auto simp: core_units_def word_less_nat_alt word_le_nat_alt)
  have u8: "unat (?m * 8) = 8 * unat ?m" using m(2) by (simp add: unat_word_ariths)
  then have pos: "0 \<le> sint (?m * 8)" using m(2) sint_unat_small [of "?m * 8"] by simp
  show thesis
  proof (cases "unat (u_brk s) + 8 * unat ?m > unat (u_limit s)")
    case True
    then have "morecore n s = Some (0, s)" using pos u8 by (simp add: morecore_def sbrk_def core_units_def Let_def)
    then show thesis using True fail by blast
  next
    case False
    let ?s = "s\<lparr>u_brk := u_brk s + 8 * ?m, u_size := (u_size s)(u_brk s := ?m)\<rparr>"
    have b: "u_brk s \<noteq> 0xFFFFFFFF" using H(13) by auto
    note S = sbrk_block_ok [OF ok m(1) _ refl]
    have "heap_ok ?s xs (insert (u_brk s) A)" "u_brk s \<notin> A" and un: "untouched s A ?s" using S False by auto
    then obtain t ys where t: "ufree (u_brk s + 8) ?s = Some t" "heap_ok t ys A" "untouched ?s A t"
        "\<exists>x\<in>set ys. unat (u_size ?s (u_brk s)) \<le> unat (u_size t x)"
        "t = ?s\<lparr>u_ptr := u_ptr t, u_size := u_size t, u_freep := u_freep t\<rparr>" using ufree_ok by blast
    have fr: "u_base t = u_base s" "u_limit t = u_limit s" by (subst t(5), simp)+
    have "morecore n s = Some (u_freep t, t)"
      using pos u8 False b t(1) by (simp add: morecore_def sbrk_def core_units_def Let_def mult.commute)
    moreover have "u_freep t \<noteq> 0" using heap_okD(4,5) [OF t(2)] heap_okD(7) [OF t(2), of "u_freep t"] by auto
    moreover have "untouched s A t" using untouched_trans [OF un t(3)] H(6) by auto
    moreover have "\<exists>x\<in>set ys. n \<le> u_size t x" using t(4) m(3) by simp (meson le_trans word_le_nat_alt)
    ultimately show thesis using more t(2) fr by blast
  qed
qed

lemma malloc_loop_ok:
  assumes ok: "heap_ok s xs A" and n: "0 < unat n" "unat n \<le> 0xF000000"
  obtains (fail) "malloc_loop n (u_freep s) (u_ptr s (u_freep s)) s = Some (0, s)" "unat (u_brk s) + 8 * unat (core_units n) > unat (u_limit s)"
  | (got) b t where "malloc_loop n (u_freep s) (u_ptr s (u_freep s)) s = Some (b + 8, t)" "taken s A n b t"
proof (cases "\<exists>x\<in>set xs. n \<le> u_size s x")
  case True
  then show thesis using malloc_loop_found [OF ok n(1)] that(2) by blast
next
  case False
  then have none: "\<forall>x\<in>set xs. u_size s x < n" by auto
  note loop = malloc_loop_none [OF ok n(1) none]
  show thesis
  proof (cases rule: morecore_ok [OF ok n(2)])
    case 1
    then show thesis using that(1) loop by simp
  next
    case (2 t ys)
    obtain b u where u: "malloc_loop n (u_freep t) (u_ptr t (u_freep t)) t = Some (b + 8, u)" "taken t A n b u"
      using malloc_loop_found [OF 2(3) n(1) 2(5)] by blast
    have "taken s A n b u" using u(2) 2(4,6,7) untouched_trans [OF 2(4)] heap_okD(6) [OF ok] by (auto simp: taken_def)
    then show thesis using that(2) loop 2(1,2) u(1) by simp
  qed
qed

section \<open>The program and its blocks\<close>

text \<open>
  \<open>B\<close> are the addresses \<^verbatim>\<open>malloc\<close> has returned and that have not been freed, with the sizes asked for.
\<close>

definition units :: "u32 \<Rightarrow> u32" where
  "units n = (n + 8 - 1) div 8 + 1"

lemma unat_units_of: "unat n \<le> 0x70000000 \<Longrightarrow> unat (units n) = (unat n + 7) div 8 + 1"
proof -
  assume n: "unat n \<le> 0x70000000"
  then have "unat (n + 7) = unat n + 7" by (simp add: unat_word_ariths)
  then have "unat ((n + 7) div 8) = (unat n + 7) div 8" by (simp add: unat_div)
  moreover have "(unat n + 7) div 8 \<le> 0xF000000" using n by simp
  ultimately show ?thesis by (simp add: units_def unat_word_ariths)
qed

definition heads :: "(u32 \<rightharpoonup> u32) \<Rightarrow> u32 set" where
  "heads B = (\<lambda>p. p - 8) ` dom B"

lemma heads_upd [simp]: "heads (B(b + 8 \<mapsto> n)) = insert b (heads B)"
  by (auto simp: heads_def)

lemma heads_mem: "p - 8 \<in> heads B \<longleftrightarrow> p \<in> dom B"
  by (auto simp: heads_def)

lemma heads_del: "heads (B(p := None)) = heads B - {p - 8}"
  by (auto simp: heads_def)

definition geometry :: "ust \<Rightarrow> bool" where
  "geometry s \<longleftrightarrow> u_base s \<noteq> 0 \<and> unat (u_base s) + 8 \<le> unat (u_brk s) \<and> u_brk s \<le> u_limit s \<and> u_limit s < 0x80000000"

definition uinv :: "ust \<Rightarrow> (u32 \<rightharpoonup> u32) \<Rightarrow> bool" where
  "uinv s B \<longleftrightarrow> geometry s \<and> (if u_freep s = 0 then B = Map.empty else \<exists>xs. heap_ok s xs (heads B))
     \<and> (\<forall>p n. B p = Some n \<longrightarrow> u_size s (p - 8) = units n \<and> unat n \<le> 0x70000000)"

definition bodies_ok :: "ust \<Rightarrow> (u32 \<rightharpoonup> u32) \<Rightarrow> bool" where
  "bodies_ok s B \<longleftrightarrow>
     (\<forall>p n. B p = Some n \<longrightarrow> unat (u_base s) + 16 \<le> unat p \<and> unat p + unat n \<le> unat (u_brk s))
     \<and> (\<forall>p n q m. B p = Some n \<and> B q = Some m \<and> p \<noteq> q \<longrightarrow> unat p + unat n \<le> unat q \<or> unat q + unat m \<le> unat p)"

text \<open>No header that overlaps the bodies is written.\<close>

definition kept :: "ust \<Rightarrow> (u32 \<rightharpoonup> u32) \<Rightarrow> ust \<Rightarrow> bool" where
  "kept s B t \<longleftrightarrow> (\<forall>p n x. B p = Some n \<and> unat p < unat x + 8 \<and> unat x < unat p + unat n \<longrightarrow>
     u_ptr t x = u_ptr s x \<and> u_size t x = u_size s x)"

inductive ustep :: "ust \<times> (u32 \<rightharpoonup> u32) \<Rightarrow> ust \<times> (u32 \<rightharpoonup> u32) \<Rightarrow> bool" where
  got: "malloc n s = Some (p, t) \<Longrightarrow> p \<noteq> 0 \<Longrightarrow> unat n \<le> 0x70000000 \<Longrightarrow> ustep (s, B) (t, B(p \<mapsto> n))"
| refused: "malloc n s = Some (0, t) \<Longrightarrow> unat n \<le> 0x70000000 \<Longrightarrow> ustep (s, B) (t, B)"
| freed: "p \<in> dom B \<Longrightarrow> ufree p s = Some t \<Longrightarrow> ustep (s, B) (t, B(p := None))"
| written: "\<forall>x. u_ptr t x = u_ptr s x \<and> u_size t x = u_size s x
      \<or> (\<exists>p n. B p = Some n \<and> unat p < unat x + 8 \<and> unat x < unat p + unat n)
    \<Longrightarrow> t = s\<lparr>u_ptr := u_ptr t, u_size := u_size t\<rparr> \<Longrightarrow> ustep (s, B) (t, B)"
| memory: "u_brk s \<le> l \<Longrightarrow> l < 0x80000000 \<Longrightarrow> ustep (s, B) (s\<lparr>u_limit := l\<rparr>, B)"

text \<open>A block in use: its header, its end, and its body between them.\<close>

lemma body_block:
  assumes "uinv s B" "B p = Some n"
  obtains xs where "heap_ok s xs (heads B)" "p - 8 \<in> heads B" "unat (p - 8) + 8 = unat p" "unat p + unat n \<le> blk_end s (p - 8)"
proof -
  obtain xs where ok: "heap_ok s xs (heads B)" and sz: "u_size s (p - 8) = units n" "unat n \<le> 0x70000000"
    using assms by (auto simp: uinv_def split: if_splits)
  have h: "p - 8 \<in> heads B" using assms(2) by (auto simp: heads_def)
  have "unat (p - 8) < 2 ^ 31" using heap_okD(8) [OF ok, of "p - 8"] heap_okD(13) [OF ok] h by (auto simp: blk_end_def)
  then have u: "unat (p - 8) + 8 = unat p" using unat_units [of "p - 8" 1] by simp
  then have "unat p + unat n \<le> blk_end s (p - 8)" using unat_units_of [OF sz(2)] sz(1) by (simp add: blk_end_def)
  then show thesis using that ok h u by blast
qed

lemma uinv_bodies:
  assumes inv: "uinv s B"
  shows "bodies_ok s B"
  unfolding bodies_ok_def
proof (intro conjI allI impI)
  fix p n assume p: "B p = Some n"
  obtain xs where P: "heap_ok s xs (heads B)" "p - 8 \<in> heads B" "unat (p - 8) + 8 = unat p" "unat p + unat n \<le> blk_end s (p - 8)"
    using body_block [OF inv p] by blast
  show "unat (u_base s) + 16 \<le> unat p" "unat p + unat n \<le> unat (u_brk s)"
    using heap_okD(7,8) [OF P(1), of "p - 8"] P by auto
next
  fix p n q m assume p: "B p = Some n \<and> B q = Some m \<and> p \<noteq> q"
  obtain xs where P: "heap_ok s xs (heads B)" "p - 8 \<in> heads B" "unat (p - 8) + 8 = unat p" "unat p + unat n \<le> blk_end s (p - 8)"
    using body_block [OF inv] p by blast
  obtain Q: "q - 8 \<in> heads B" "unat (q - 8) + 8 = unat q" "unat q + unat m \<le> blk_end s (q - 8)"
    using body_block [OF inv] p by blast
  have "p - 8 \<noteq> q - 8" using p by simp
  then have "apart s (p - 8) (q - 8)" using heap_okD(9) [OF P(1)] P(2) Q(1) by blast
  then show "unat p + unat n \<le> unat q \<or> unat q + unat m \<le> unat p" using P(3,4) Q(2,3) by (auto simp: apart_def)
qed

lemma untouched_kept:
  assumes "uinv s B" "untouched s (heads C) t" "C \<subseteq>\<^sub>m B"
  shows "kept s C t"
  unfolding kept_def
proof (intro allI impI)
  fix p n and x :: u32 assume p: "C p = Some n \<and> unat p < unat x + 8 \<and> unat x < unat p + unat n"
  then have "B p = Some n" using assms(3) by (metis domI map_le_def)
  then have "unat (p - 8) + 8 = unat p" "unat p + unat n \<le> blk_end s (p - 8)" using body_block [OF assms(1)] by blast+
  moreover have "p - 8 \<in> heads C" using p by (auto simp: heads_def)
  ultimately show "u_ptr t x = u_ptr s x \<and> u_size t x = u_size s x"
    using bspec [OF assms(2) [unfolded untouched_def], of "p - 8"] p by simp
qed

lemma heap_geometry: "heap_ok s xs A \<Longrightarrow> geometry s"
  using heap_okD by (simp add: geometry_def)

lemma heap_freep: "heap_ok s xs A \<Longrightarrow> u_freep s \<noteq> 0"
  using heap_okD(4,5) [of s xs A] heap_okD(7) [of s xs A "u_freep s"] by auto

lemma uinv_taken:
  assumes inv: "\<forall>p n. B p = Some n \<longrightarrow> u_size s (p - 8) = units n \<and> unat n \<le> 0x70000000" and ok: "heap_ok s xs (heads B)"
    and t: "taken s (heads B) (units n) b t" and n: "unat n \<le> 0x70000000"
  shows "uinv t (B(b + 8 \<mapsto> n))" "b + 8 \<noteq> 0" "b + 8 \<notin> dom B"
proof -
  obtain ys where ys: "heap_ok t ys (insert b (heads B))" using t by (auto simp: taken_def)
  note H = heap_okD [OF ys]
  have T: "b \<notin> heads B" "u_size t b = units n" "untouched s (heads B) t" using t by (simp_all add: taken_def)
  then show nb: "b + 8 \<notin> dom B" using heads_mem [of "b + 8" B] by simp
  have "unat b < 2 ^ 31" using H(8) [of b] H(13) by (simp add: blk_end_def)
  then have "unat (b + 8) = unat b + 8" using unat_units [of b 1] by simp
  then show "b + 8 \<noteq> 0" by auto
  have "u_size t (p - 8) = units m" if "B p = Some m" for p m
    using untouched_size [OF T(3), of "p - 8"] inv that heads_mem [of p B] heap_okD(6) [OF ok, of "p - 8"] by auto
  then show "uinv t (B(b + 8 \<mapsto> n))"
    using ys heap_geometry [OF ys] heap_freep [OF ys] T(2) inv n by (auto simp: uinv_def)
qed

definition started :: "ust \<Rightarrow> ust" where
  "started s = (if u_freep s = 0 then s\<lparr>u_ptr := (u_ptr s)(u_base s := u_base s), u_freep := u_base s,
     u_size := (u_size s)(u_base s := 0)\<rparr> else s)"

lemma started_ok:
  assumes "uinv s B"
  obtains xs where "heap_ok (started s) xs (heads B)" "untouched s (heads B) (started s)"
    "\<forall>p n. B p = Some n \<longrightarrow> u_size (started s) (p - 8) = units n \<and> unat n \<le> 0x70000000" "u_brk (started s) = u_brk s" "u_limit (started s) = u_limit s"
proof (cases "u_freep s = 0")
  case True
  then have "heap_ok (started s) [] (heads B)" using assms
    by (auto simp: uinv_def geometry_def heap_ok_def started_def heads_def)
  then show thesis using that True assms by (auto simp: uinv_def started_def untouched_def heads_def)
next
  case False
  then show thesis using that assms by (auto simp: uinv_def started_def untouched_def)
qed

lemma malloc_ok:
  assumes inv: "uinv s B" and n: "unat n \<le> 0x70000000"
  obtains (refused) t where "malloc n s = Some (0, t)" "uinv t B" "kept s B t" "unat (u_brk s) + 8 * unat (core_units (units n)) > unat (u_limit s)"
  | (got) p t where "malloc n s = Some (p, t)" "p \<noteq> 0" "p \<notin> dom B" "uinv t (B(p \<mapsto> n))" "kept s B t"
proof -
  let ?s = "started s"
  obtain xs where ok: "heap_ok ?s xs (heads B)" and un: "untouched s (heads B) ?s"
    and sz: "\<forall>p n. B p = Some n \<longrightarrow> u_size ?s (p - 8) = units n \<and> unat n \<le> 0x70000000" and fr: "u_brk ?s = u_brk s" "u_limit ?s = u_limit s"
    using started_ok [OF inv] by blast
  have m: "malloc n s = malloc_loop (units n) (u_freep ?s) (u_ptr ?s (u_freep ?s)) ?s"
    by (simp add: malloc_def units_def started_def Let_def)
  have u: "0 < unat (units n)" "unat (units n) \<le> 0xF000000" using unat_units_of [OF n] n by simp_all
  have pos: "\<forall>a\<in>heads B. 0 < unat (u_size s a)"
    using inv unat_units_of by (auto simp: uinv_def heads_def)
  show thesis
  proof (cases rule: malloc_loop_ok [OF ok u])
    case 1
    have "uinv ?s B" using ok sz heap_geometry [OF ok] heap_freep [OF ok] by (auto simp: uinv_def)
    then show thesis using 1 m fr refused [of ?s] untouched_kept [OF inv un map_le_refl] by simp
  next
    case (2 b t)
    have "untouched s (heads B) t" using untouched_trans [OF un _ pos] 2(2) by (simp add: taken_def)
    then show thesis using got [of "b + 8" t] m 2(1) uinv_taken [OF sz ok 2(2) n] untouched_kept [OF inv _ map_le_refl] by simp
  qed
qed

lemma free_ok:
  assumes inv: "uinv s B" and p: "p \<in> dom B"
  obtains t where "ufree p s = Some t" "uinv t (B(p := None))" "kept s (B(p := None)) t"
proof -
  obtain n where n: "B p = Some n" using p by blast
  obtain xs where ok: "heap_ok s xs (heads B)" "p - 8 \<in> heads B" using body_block [OF inv n] by blast
  have e: "heads B = insert (p - 8) (heads (B(p := None)))" "p - 8 \<notin> heads (B(p := None))"
    using ok(2) by (auto simp: heads_del)
  obtain t ys where t: "ufree p s = Some t" "heap_ok t ys (heads (B(p := None)))" "untouched s (heads (B(p := None))) t"
    using ufree_ok [of s xs "p - 8" "heads (B(p := None))"] ok(1) e by (metis diff_add_cancel)
  have "u_size t (q - 8) = units m \<and> unat m \<le> 0x70000000" if "(B(p := None)) q = Some m" for q m
  proof -
    have q: "q - 8 \<in> heads (B(p := None))" using that heads_mem by blast
    then have "0 < unat (u_size s (q - 8))" using heap_okD(6) [OF ok(1), of "q - 8"] e(1) by auto
    then show ?thesis using untouched_size [OF t(3) q] inv that by (auto simp: uinv_def split: if_splits)
  qed
  then have "uinv t (B(p := None))" using t(2) heap_geometry [OF t(2)] heap_freep [OF t(2)] by (auto simp: uinv_def)
  moreover have "kept s (B(p := None)) t" by (rule untouched_kept [OF inv t(3)]) (auto simp: map_le_def)
  ultimately show thesis using that t(1) by blast
qed

lemma path_cong: "\<forall>x\<in>set xs. f x = g x \<Longrightarrow> path f xs z = path g xs z"
  by (induction xs) auto

lemma heap_ok_cong:
  assumes ok: "heap_ok s xs A" and t: "t = s\<lparr>u_ptr := u_ptr t, u_size := u_size t\<rparr>"
    and same: "\<forall>x\<in>set (u_base s # xs) \<union> A. u_ptr t x = u_ptr s x \<and> u_size t x = u_size s x"
  shows "heap_ok t xs A"
proof -
  note H = heap_okD [OF ok]
  have fr: "u_base t = u_base s" "u_freep t = u_freep s" "u_brk t = u_brk s" "u_limit t = u_limit s" by (subst t, simp)+
  have bt: "blk_end t x = blk_end s x" if "x \<in> set (u_base s # xs) \<union> A" for x using same that by (auto simp: blk_end_def)
  show ?thesis unfolding heap_ok_def fr
  proof (intro conjI)
    show "path (u_ptr t) (u_base s # xs) (u_base s)" using H(1) path_cong [of "u_base s # xs" "u_ptr t" "u_ptr s"] same by auto
    show "sorted_wrt (\<lambda>x y. blk_end t x < unat y) (u_base s # xs)" by (rule sorted_blocks_cong [OF _ H(2)]) (use same in auto)
    show "\<forall>x\<in>A. \<forall>y\<in>set xs \<union> A. x \<noteq> y \<longrightarrow> apart t x y" using H(9) bt by (auto simp: apart_def)
    show "\<forall>x\<in>set xs \<union> A. 0 < unat (u_size t x) \<and> unat (u_base s) + 8 \<le> unat x \<and> blk_end t x \<le> unat (u_brk s)"
      using H(6-8) bt same by auto
  qed (use H same in auto)
qed

text \<open>The program may write what it likes into the bodies: no header lies there.\<close>

lemma written_ok:
  assumes inv: "uinv s B" and t: "t = s\<lparr>u_ptr := u_ptr t, u_size := u_size t\<rparr>"
    and w: "\<forall>x. u_ptr t x = u_ptr s x \<and> u_size t x = u_size s x
      \<or> (\<exists>p n. B p = Some n \<and> unat p < unat x + 8 \<and> unat x < unat p + unat n)"
  shows "uinv t B"
proof (cases "u_freep s = 0")
  case True
  then have "B = Map.empty" using inv by (simp add: uinv_def)
  then have "t = s" using w t by (metis (no_types, lifting) ext option.distinct(1) ust.surjective ust.update_convs(1,2))
  then show ?thesis using inv by simp
next
  case False
  then obtain xs where ok: "heap_ok s xs (heads B)" using inv by (auto simp: uinv_def)
  note H = heap_okD [OF ok]
  have same: "u_ptr t x = u_ptr s x \<and> u_size t x = u_size s x" if x: "x \<in> set (u_base s # xs) \<union> heads B" for x
  proof (rule ccontr)
    assume "\<not> ?thesis"
    then obtain p n where p: "B p = Some n" "unat p < unat x + 8" "unat x < unat p + unat n" using w by blast
    obtain P: "p - 8 \<in> heads B" "unat (p - 8) + 8 = unat p" "unat p + unat n \<le> blk_end s (p - 8)" using body_block [OF inv p(1)] by blast
    have xp: "x \<noteq> p - 8" using P(2) p(2) by auto
    have "x \<noteq> u_base s" using H(7) [of "p - 8"] P p(2) by auto
    then have "apart s (p - 8) x" "0 < unat (u_size s x)" using x xp H(9) [of "p - 8" x] H(6) [of x] P(1) by auto
    then show False using P p by (auto simp: apart_def blk_end_def)
  qed
  have ok': "heap_ok t xs (heads B)" using heap_ok_cong [OF ok t] same by blast
  have "u_size t (p - 8) = u_size s (p - 8)" if "B p = Some n" for p n using same [of "p - 8"] that heads_mem [of p B] by auto
  then show ?thesis using inv ok' heap_geometry [OF ok'] heap_freep [OF ok'] by (auto simp: uinv_def split: if_splits)
qed

lemma ustep_inv: "ustep c d \<Longrightarrow> uinv (fst c) (snd c) \<Longrightarrow> uinv (fst d) (snd d)"
proof (induction rule: ustep.induct)
  case (got n s p t B)
  then have inv: "uinv s B" by simp
  show ?case by (cases rule: malloc_ok [OF inv got(3)]) (use got(1,2) in \<open>simp_all add: fun_upd_def\<close>)
next
  case (refused n s t B)
  then have inv: "uinv s B" by simp
  show ?case by (cases rule: malloc_ok [OF inv refused(2)]) (use refused(1) in simp_all)
next
  case (freed p B s t)
  then have inv: "uinv s B" by simp
  show ?case by (rule free_ok [OF inv freed(1)]) (use freed(2) in \<open>simp add: fun_upd_def\<close>)
next
  case (written t s B)
  then show ?case using written_ok by simp
next
  case (memory s l B)
  then have "uinv (s\<lparr>u_limit := l\<rparr>) B"
    by (auto simp: uinv_def geometry_def heap_ok_def blk_end_def apart_def)
  then show ?case by simp
qed

lemma usteps_inv: "rtranclp ustep c d \<Longrightarrow> uinv (fst c) (snd c) \<Longrightarrow> uinv (fst d) (snd d)"
  by (induction rule: rtranclp_induct) (auto dest: ustep_inv)

text \<open>
  C28: The allocator against its clients.  A program starts with \<^verbatim>\<open>freep\<close> zero and calls \<^verbatim>\<open>malloc\<close> and
  \<^verbatim>\<open>free\<close> in any order, each address freed at most once, writing what it likes into its blocks in
  between, while the memory the system can give changes.  In every state it can reach: the blocks
  it holds lie between \<^verbatim>\<open>base\<close> and the end of its memory and do not overlap; \<^verbatim>\<open>malloc\<close> of up to
  \<open>0x70000000\<close> bytes returns, either a new block apart from all others or 0, and 0 only when
  the system refuses the extension; \<^verbatim>\<open>free\<close> of a block returns; and neither writes into a block
  that is in use.
\<close>

theorem umalloc_sound:
  assumes "u_freep s0 = 0" "u_base s0 \<noteq> 0" "unat (u_base s0) + 8 \<le> unat (u_brk s0)" "u_brk s0 \<le> u_limit s0" "u_limit s0 < 0x80000000"
    and "rtranclp ustep (s0, Map.empty) (s, B)"
  shows "bodies_ok s B
    \<and> (\<forall>n. unat n \<le> 0x70000000 \<longrightarrow> (\<exists>p t. malloc n s = Some (p, t) \<and> kept s B t
         \<and> (p = 0 \<and> unat (u_brk s) + 8 * unat (core_units (units n)) > unat (u_limit s)
            \<or> p \<noteq> 0 \<and> p \<notin> dom B \<and> bodies_ok t (B(p \<mapsto> n)))))
    \<and> (\<forall>p\<in>dom B. \<exists>t. ufree p s = Some t \<and> kept s (B(p := None)) t)"
proof -
  have "uinv s0 Map.empty" using assms(1-5) by (simp add: uinv_def geometry_def)
  then have inv: "uinv s B" using usteps_inv [OF assms(6)] by simp
  have "\<exists>p t. malloc n s = Some (p, t) \<and> kept s B t
         \<and> (p = 0 \<and> unat (u_brk s) + 8 * unat (core_units (units n)) > unat (u_limit s)
            \<or> p \<noteq> 0 \<and> p \<notin> dom B \<and> bodies_ok t (B(p \<mapsto> n)))" if "unat n \<le> 0x70000000" for n
    using malloc_ok [OF inv that] uinv_bodies by (metis (no_types, lifting))
  then show ?thesis using uinv_bodies [OF inv] free_ok [OF inv] by (metis (no_types, lifting))
qed

definition ust_ex :: ust where
  "ust_ex = \<lparr>u_ptr = (\<lambda>_. 0), u_size = (\<lambda>_. 0), u_freep = 0, u_base = 16, u_brk = 0x1000, u_limit = 0x10000\<rparr>"

lemma malloc_ex: "\<exists>t. malloc 20 ust_ex = Some (0x8FE8, t)"
  by (simp add: malloc_def ust_ex_def Let_def malloc_loop.simps [where p = 16] malloc_loop.simps [where p = "0x1000"]
      morecore_def sbrk_def ufree_def free_find.simps [where p = 16] free_here_def link_up_def link_down_def take_block_def)

theorem umalloc_sound_witness:
  "\<exists>t. malloc 20 ust_ex = Some (0x8FE8, t) \<and> bodies_ok t [0x8FE8 \<mapsto> 20]
     \<and> (\<exists>q u. malloc 100 t = Some (q, u) \<and> kept t [0x8FE8 \<mapsto> 20] u) \<and> (\<exists>u. ufree 0x8FE8 t = Some u)"
proof -
  obtain t where t: "malloc 20 ust_ex = Some (0x8FE8, t)" using malloc_ex by blast
  have "ustep (ust_ex, Map.empty) (t, [0x8FE8 \<mapsto> 20])" by (rule ustep.got [OF t]) simp_all
  then have r: "rtranclp ustep (ust_ex, Map.empty) (t, [0x8FE8 \<mapsto> 20])" by (rule r_into_rtranclp)
  have "unat (100 :: u32) \<le> 0x70000000" by simp
  then show ?thesis using umalloc_sound [OF _ _ _ _ _ r] t by (fastforce simp: ust_ex_def)
qed

end
