(* ===== verification/Console.thy ===== *)
theory Console
  imports Syscall
begin

text \<open>
  The console, \<^verbatim>\<open>console.c\<close>: character output to the serial port and the CGA screen, line editing of
  the input ring in the interrupt handler, and the device functions \<^verbatim>\<open>consoleread\<close> and
  \<^verbatim>\<open>consolewrite\<close>; with \<^verbatim>\<open>procdump\<close> of \<^verbatim>\<open>proc.c\<close> and \<^verbatim>\<open>getcallerpcs\<close> of \<^verbatim>\<open>spinlock.c\<close>, which
  control-P calls.  \<open>c_pos\<close> is the cursor register of the screen, \<open>c_crt\<close> its memory; the characters
  sent to the serial port join \<open>k_out\<close>.  The characters a call of \<^verbatim>\<open>consoleintr\<close> gets from its
  \<^verbatim>\<open>getc\<close> until that returns a negative value are a list.
\<close>

section \<open>State\<close>

definition INPUT_BUF :: nat where "INPUT_BUF = 128"

record cst = xst +
  c_buf :: "nat \<Rightarrow> u8"
  c_r :: u32
  c_w :: u32
  c_e :: u32
  c_pos :: int
  c_crt :: "int \<Rightarrow> u16"

text \<open>\<^verbatim>\<open>BACKSPACE\<close> is 0x100, outside the characters.\<close>

definition BACKSPACE :: int where "BACKSPACE = 0x100"

section \<open>Output\<close>

definition crt_attr :: "int \<Rightarrow> u16" where
  "crt_attr c = (word_of_int c AND 0xff) OR 0x0700"

text \<open>The screen update of \<^verbatim>\<open>cgaputc\<close>: the position after the character, and the scrolling.\<close>

definition cga_advance :: "int \<Rightarrow> int \<Rightarrow> (int \<Rightarrow> u16) \<Rightarrow> int \<times> (int \<Rightarrow> u16)" where
  "cga_advance c pos crt =
     (if c = 10 then (pos + (80 - pos mod 80), crt)
      else if c = BACKSPACE then (if pos > 0 then pos - 1 else pos, crt)
      else (pos + 1, crt(pos := crt_attr c)))"

definition cga_scroll :: "int \<Rightarrow> (int \<Rightarrow> u16) \<Rightarrow> int \<times> (int \<Rightarrow> u16)" where
  "cga_scroll pos crt =
     (if pos div 80 \<ge> 24 then
        let pos' = pos - 80; crt' = (\<lambda>i. if 0 \<le> i \<and> i < 23 * 80 then crt (i + 80) else crt i)
        in (pos', \<lambda>i. if pos' \<le> i \<and> i < 24 * 80 then 0 else crt' i)
      else (pos, crt))"

definition cgaputc :: "int \<Rightarrow> (unit, 'z cst_scheme) kop" where
  "cgaputc c =
     bnd (fetch (\<lambda>s. cga_advance c (c_pos s) (c_crt s))) (\<lambda>(pos, crt).
     if pos < 0 \<or> pos > 25 * 80 then panic ''pos under/overflow'' else
     let (pos, crt) = cga_scroll pos crt in
     modify (\<lambda>s. s\<lparr>c_pos := pos, c_crt := crt(pos := 0x0720)\<rparr>))"

definition uartputc :: "int \<Rightarrow> (unit, 'z kst_scheme) kop" where
  "uartputc c = modify (\<lambda>s. s\<lparr>k_out := k_out s @ [char_of (nat (c mod 256))]\<rparr>)"

definition consputc :: "int \<Rightarrow> (unit, 'z cst_scheme) kop" where
  "consputc c =
     andthen (if c = BACKSPACE then andthen (uartputc 8) (andthen (uartputc 32) (uartputc 8)) else uartputc c)
     (cgaputc c)"

section \<open>Process listing\<close>

text \<open>\<^verbatim>\<open>getcallerpcs\<close>: follow the saved frame pointers, at most ten.\<close>

fun callers :: "mem \<Rightarrow> u32 \<Rightarrow> nat \<Rightarrow> u32 list" where
  "callers m ebp 0 = []"
| "callers m ebp (Suc n) =
     (if ebp = 0 \<or> ebp < KERNBASE \<or> ebp = 0xffffffff then replicate (Suc n) 0
      else load32 m (ebp + 4) # callers m (load32 m ebp) n)"

definition getcallerpcs :: "mem \<Rightarrow> u32 \<Rightarrow> u32 list" where
  "getcallerpcs m v = callers m (v - 8) 10"

definition state_name :: "procstate \<Rightarrow> string" where
  "state_name st = (case st of UNUSED \<Rightarrow> ''unused'' | EMBRYO \<Rightarrow> ''embryo'' | SLEEPING \<Rightarrow> ''sleep ''
     | RUNNABLE \<Rightarrow> ''runble'' | RUNNING \<Rightarrow> ''run   '' | ZOMBIE \<Rightarrow> ''zombie'')"

definition procdump_one :: "proc \<Rightarrow> (unit, 'z mst_scheme) kop" where
  "procdump_one p =
     whenk (p_state p \<noteq> UNUSED)
       (andthen (cprintf ''%d %s %s'' [AInt (word_of_int (p_pid p)), AStr (state_name (p_state p)), AStr (p_name p)])
       (andthen (whenk (p_state p = SLEEPING)
         (bnd (fetch (\<lambda>s. takeWhile (\<lambda>pc. pc \<noteq> 0) (getcallerpcs (m_mem s) (cx_ebp (p_context p) + 8)))) (\<lambda>pcs.
          for_each pcs (\<lambda>pc. cprintf '' %p'' [AInt pc]))))
       (cprintf nl [])))"

definition procdump :: "(unit, 'z mst_scheme) kop" where
  "procdump = bnd (fetch k_procs) (\<lambda>ps. for_each ps procdump_one)"

section \<open>Input\<close>

definition buf_at :: "'z cst_scheme \<Rightarrow> u32 \<Rightarrow> u8" where
  "buf_at s k = c_buf s (unat k mod INPUT_BUF)"

text \<open>One turn of the loop of control-U, and of backspace: drop the last character of the line.\<close>

definition erase :: "(unit, 'z cst_scheme) kop" where
  "erase = andthen (modify (\<lambda>s. s\<lparr>c_e := c_e s - 1\<rparr>)) (consputc BACKSPACE)"

text \<open>The loop of control-U; the line is \<^verbatim>\<open>e - w\<close> characters long, so that is a bound for its turns.\<close>

fun kill_line :: "nat \<Rightarrow> (unit, 'z cst_scheme) kop" where
  "kill_line 0 = ret ()"
| "kill_line (Suc n) =
     bnd (fetch (\<lambda>s. c_e s \<noteq> c_w s \<and> buf_at s (c_e s - 1) \<noteq> 10)) (\<lambda>go.
     if go then andthen erase (kill_line n) else ret ())"

definition input_char :: "int \<Rightarrow> (unit, 'z cst_scheme) kop" where
  "input_char c =
     bnd (fetch (\<lambda>s. c_e s - c_r s < of_nat INPUT_BUF)) (\<lambda>space.
     whenk (c \<noteq> 0 \<and> space)
       (let c = (if c = 13 then 10 else c) in
        andthen (modify (\<lambda>s. s\<lparr>c_buf := (c_buf s)(unat (c_e s) mod INPUT_BUF := word_of_int c), c_e := c_e s + 1\<rparr>))
        (andthen (consputc c)
        (bnd (fetch (\<lambda>s. c_e s = c_r s + of_nat INPUT_BUF)) (\<lambda>full.
        whenk (c = 10 \<or> c = 4 \<or> full)
          (andthen (modify (\<lambda>s. s\<lparr>c_w := c_e s\<rparr>)) (wakeup ChInput)))))))"

text \<open>The \<^verbatim>\<open>switch\<close> of \<^verbatim>\<open>consoleintr\<close>; the result tells whether a process listing was asked for.\<close>

definition console_char :: "int \<Rightarrow> (bool, 'z cst_scheme) kop" where
  "console_char c =
     (if c = 16 then ret True
      else if c = 21 then
        bnd (fetch (\<lambda>s. unat (c_e s - c_w s))) (\<lambda>n. andthen (kill_line n) (ret False))
      else if c = 8 \<or> c = 127 then
        bnd (fetch (\<lambda>s. c_e s \<noteq> c_w s)) (\<lambda>go. andthen (whenk go erase) (ret False))
      else andthen (input_char c) (ret False))"

fun console_chars :: "int list \<Rightarrow> bool \<Rightarrow> (bool, 'z cst_scheme) kop" where
  "console_chars [] dump = ret dump"
| "console_chars (c # cs) dump = bnd (console_char c) (\<lambda>d. console_chars cs (dump \<or> d))"

definition consoleintr :: "int list \<Rightarrow> (unit, 'z cst_scheme) kop" where
  "consoleintr cs =
     andthen (acquire ConsLock)
     (bnd (console_chars cs False) (\<lambda>dump.
     andthen (release ConsLock)
     (whenk dump procdump)))"

text \<open>The loop of \<^verbatim>\<open>consoleread\<close> with \<open>n\<close> bytes still wanted; \<open>first\<close> while nothing has been read.  The
  result is \<open>None\<close> after the return of a killed process.\<close>

fun read_loop :: "nat \<Rightarrow> bool \<Rightarrow> (u8 list option, 'z cst_scheme) kop" where
  "read_loop 0 first = ret (Some [])"
| "read_loop (Suc n) first =
     bnd (fetch (\<lambda>s. c_r s = c_w s)) (\<lambda>empty.
     if empty then
       bnd curproc (\<lambda>me. bnd (proc_get me p_killed) (\<lambda>killed.
       if killed then andthen (release ConsLock) (ret None) else sleep ChInput ConsLock))
     else
       bnd (fetch (\<lambda>s. buf_at s (c_r s))) (\<lambda>c.
       andthen (modify (\<lambda>s. s\<lparr>c_r := c_r s + 1\<rparr>))
       (if c = 4 then andthen (whenk (\<not> first) (modify (\<lambda>s. s\<lparr>c_r := c_r s - 1\<rparr>))) (ret (Some []))
        else if c = 10 then ret (Some [c])
        else bnd (read_loop n False) (\<lambda>r. ret (map_option (Cons c) r)))))"

definition consoleread :: "nat \<Rightarrow> u32 \<Rightarrow> (int \<times> u8 list, 'z cst_scheme) kop" where
  "consoleread ip n =
     andthen (iunlock ip)
     (andthen (acquire ConsLock)
     (bnd (read_loop (nat (sint n)) True) (\<lambda>r. case r of
       None \<Rightarrow> andthen (ilock ip) (ret (- 1, []))
     | Some cs \<Rightarrow>
         andthen (release ConsLock)
         (andthen (ilock ip)
         (ret (int (length cs), cs))))))"

definition consolewrite :: "nat \<Rightarrow> u8 list \<Rightarrow> u32 \<Rightarrow> (int, 'z cst_scheme) kop" where
  "consolewrite ip cs n =
     andthen (iunlock ip)
     (andthen (acquire ConsLock)
     (andthen (for_each (take (nat (sint n)) cs) (\<lambda>c. consputc (uint c)))
     (andthen (release ConsLock)
     (andthen (ilock ip)
     (ret (sint n))))))"

text \<open>The device table after \<^verbatim>\<open>consoleinit\<close>: the console is device 1.\<close>

definition devsw_read :: "nat \<Rightarrow> (nat \<Rightarrow> u32 \<Rightarrow> (int \<times> u8 list, 'z cst_scheme) kop) option" where
  "devsw_read d = (if d = 1 then Some consoleread else None)"

definition devsw_write :: "nat \<Rightarrow> (nat \<Rightarrow> u8 list \<Rightarrow> u32 \<Rightarrow> (int, 'z cst_scheme) kop) option" where
  "devsw_write d = (if d = 1 then Some consolewrite else None)"

definition consoleinit :: "(unit, 'z cst_scheme) kop" where
  "consoleinit = modify (\<lambda>s. s\<lparr>k_locking := True\<rparr>)"

section \<open>The screen\<close>

definition on_screen :: "int \<Rightarrow> bool" where
  "on_screen pos \<longleftrightarrow> 0 \<le> pos \<and> pos < 24 * 80"

lemma cga_step:
  assumes "on_screen pos" "cga_advance c pos crt = (pos1, crt1)" "cga_scroll pos1 crt1 = (pos2, crt2)"
  shows "0 \<le> pos1" "pos1 \<le> 25 * 80" "on_screen pos2" "\<not> on_screen i \<Longrightarrow> crt2 i = crt i"
proof -
  have m: "0 \<le> pos mod 80" "pos mod 80 < 80" by simp_all
  have "80 * (pos div 80) + pos mod 80 = pos" by simp
  moreover have "pos div 80 < 24" using assms(1) unfolding on_screen_def by presburger
  ultimately have nl: "pos + (80 - pos mod 80) \<le> 24 * 80" by linarith
  have p1: "0 \<le> pos1 \<and> pos1 \<le> 24 * 80"
    using assms(1,2) m nl by (auto simp: cga_advance_def on_screen_def split: if_splits)
  then show "0 \<le> pos1" "pos1 \<le> 25 * 80" by simp_all
  have d: "pos1 div 80 \<ge> 24 \<longleftrightarrow> pos1 \<ge> 24 * 80" by presburger
  show "on_screen pos2"
    using assms(3) p1 d by (auto simp: cga_scroll_def on_screen_def Let_def split: if_splits)
  show "crt2 i = crt i" if "\<not> on_screen i"
    using assms p1 d that by (auto simp: cga_scroll_def cga_advance_def on_screen_def Let_def split: if_splits)
qed

lemma cgaputc_Ok:
  assumes "on_screen (c_pos s)"
  shows "\<exists>pos crt. cgaputc c s = Ok () (s\<lparr>c_pos := pos, c_crt := crt\<rparr>) \<and> on_screen pos
    \<and> (\<forall>i. \<not> on_screen i \<longrightarrow> crt i = c_crt s i)"
proof -
  obtain pos1 crt1 where 1: "cga_advance c (c_pos s) (c_crt s) = (pos1, crt1)" by fastforce
  obtain pos2 crt2 where 2: "cga_scroll pos1 crt1 = (pos2, crt2)" by fastforce
  note st = cga_step [OF assms 1 2]
  have "cgaputc c s = Ok () (s\<lparr>c_pos := pos2, c_crt := crt2(pos2 := 0x0720)\<rparr>)"
    using 1 2 st(1,2) by (simp add: cgaputc_def kdefs)
  then show ?thesis using st by (intro exI [of _ pos2] exI [of _ "crt2(pos2 := 0x0720)"]) auto
qed

text \<open>What output changes.\<close>

definition out_only :: "'z cst_scheme \<Rightarrow> 'z cst_scheme \<Rightarrow> bool" where
  "out_only s t \<longleftrightarrow> (\<exists>out pos crt. t = s\<lparr>k_out := out, c_pos := pos, c_crt := crt\<rparr> \<and> on_screen pos)"

lemma out_onlyD:
  assumes "out_only s t"
  shows "c_buf t = c_buf s" "c_r t = c_r s" "c_w t = c_w s" "c_e t = c_e s" "k_held t = k_held s"
    "k_procs t = k_procs s" "on_screen (c_pos t)" "k_cur t = k_cur s"
  using assms by (auto simp: out_only_def)

lemma consputc_Ok:
  assumes "on_screen (c_pos s)"
  shows "\<exists>t. consputc c s = Ok () t \<and> out_only s t"
proof -
  let ?u = "s\<lparr>k_out := k_out s @ (if c = BACKSPACE then [char_of (8 :: nat), char_of (32 :: nat), char_of (8 :: nat)]
      else [char_of (nat (c mod 256))])\<rparr>"
  obtain pos crt where "cgaputc c ?u = Ok () (?u\<lparr>c_pos := pos, c_crt := crt\<rparr>)" "on_screen pos"
    using cgaputc_Ok [of ?u c] assms by auto
  then have "consputc c s = Ok () (?u\<lparr>c_pos := pos, c_crt := crt\<rparr>)" "on_screen pos"
    by (cases "c = BACKSPACE"; simp add: consputc_def uartputc_def kdefs)+
  then show ?thesis by (auto simp: out_only_def)
qed

section \<open>Line editing\<close>

interpretation input_ring: ring INPUT_BUF
  by unfold_locales (simp_all add: INPUT_BUF_def)

text \<open>The input as two lists: the lines ready to be read, and the line being typed.\<close>

definition inp_abs :: "'z cst_scheme \<Rightarrow> u8 list \<times> u8 list" where
  "inp_abs s = (ring_contents INPUT_BUF (c_buf s) (c_r s) (c_w s), ring_contents INPUT_BUF (c_buf s) (c_w s) (c_e s))"

definition inp_ok :: "'z cst_scheme \<Rightarrow> bool" where
  "inp_ok s \<longleftrightarrow> unat (c_w s - c_r s) + unat (c_e s - c_w s) \<le> INPUT_BUF \<and> 10 \<notin> set (snd (inp_abs s))
     \<and> on_screen (c_pos s)"

text \<open>The reference: a line editor on lists.\<close>

definition edit_line :: "int \<Rightarrow> u8 list \<times> u8 list \<Rightarrow> u8 list \<times> u8 list" where
  "edit_line c q = (case q of (rd, line) \<Rightarrow>
     if c = 16 then (rd, line)
     else if c = 21 then (rd, [])
     else if c = 8 \<or> c = 127 then (rd, butlast line)
     else if c = 0 \<or> length rd + length line \<ge> INPUT_BUF then (rd, line)
     else let c = (if c = 13 then 10 else c); line = line @ [word_of_int c] in
       if c = 10 \<or> c = 4 \<or> length rd + length line = INPUT_BUF then (rd @ line, []) else (rd, line))"

lemma inp_abs_out: "out_only s t \<Longrightarrow> inp_abs t = inp_abs s"
  using out_onlyD [of s t] by (simp add: inp_abs_def)

lemma inp_ok_out: "out_only s t \<Longrightarrow> inp_ok s \<Longrightarrow> inp_ok t"
  using out_onlyD [of s t] inp_abs_out [of s t] by (simp add: inp_ok_def)

lemma erase_edit:
  assumes "inp_ok s" "c_e s \<noteq> c_w s"
  shows "\<exists>t. erase s = Ok () t \<and> inp_ok t \<and> inp_abs t = (fst (inp_abs s), butlast (snd (inp_abs s)))
    \<and> c_w t = c_w s \<and> c_e t = c_e s - 1 \<and> k_held t = k_held s"
proof -
  let ?u = "s\<lparr>c_e := c_e s - 1\<rparr>"
  have d: "ring_contents INPUT_BUF (c_buf s) (c_w s) (c_e s)
      = ring_contents INPUT_BUF (c_buf s) (c_w s) (c_e s - 1) @ [c_buf s (unat (c_e s - 1) mod INPUT_BUF)]"
    using ring_drop_last assms(2) by metis
  have l: "unat (c_e s - c_w s) = Suc (unat (c_e s - 1 - c_w s))" using arg_cong [OF d, of length] by simp
  have a: "inp_abs ?u = (fst (inp_abs s), butlast (snd (inp_abs s)))" unfolding inp_abs_def snd_conv d by simp
  have "inp_ok ?u" using assms(1) l d unfolding inp_ok_def a by (auto simp: inp_abs_def dest: in_set_butlastD)
  moreover obtain t where t: "consputc BACKSPACE ?u = Ok () t" "out_only ?u t"
    using consputc_Ok [of ?u] assms(1) by (auto simp: inp_ok_def)
  ultimately show ?thesis
    using a inp_abs_out [OF t(2)] inp_ok_out [OF t(2)] out_onlyD [OF t(2)]
    by (intro exI [of _ t]) (simp add: erase_def andthen_def bnd_def modify_def)
qed

lemma kill_line_edit:
  assumes "inp_ok s" "n = unat (c_e s - c_w s)"
  shows "\<exists>t. kill_line n s = Ok () t \<and> inp_ok t \<and> inp_abs t = (fst (inp_abs s), []) \<and> k_held t = k_held s"
  using assms
proof (induction n arbitrary: s)
  case 0
  then have "snd (inp_abs s) = []" by (simp add: inp_abs_def ring_contents_def)
  then show ?case using 0 by (cases "inp_abs s") (simp add: ret_def)
next
  case (Suc n)
  then have ne: "c_e s \<noteq> c_w s" by auto
  have "buf_at s (c_e s - 1) \<in> set (snd (inp_abs s))"
    using ring_drop_last [OF ne [symmetric], of INPUT_BUF "c_buf s"] by (simp add: inp_abs_def buf_at_def)
  then have go: "buf_at s (c_e s - 1) \<noteq> 10" using Suc.prems(1) by (auto simp: inp_ok_def)
  obtain t where t: "erase s = Ok () t" "inp_ok t" "inp_abs t = (fst (inp_abs s), butlast (snd (inp_abs s)))"
    "c_w t = c_w s" "c_e t = c_e s - 1" "k_held t = k_held s" using erase_edit [OF Suc.prems(1) ne] by blast
  have "n = unat (c_e t - c_w t)" using Suc.prems(2) unat_diff_Suc [OF ne [symmetric]] t(4,5)
    by (simp add: diff_diff_eq add.commute)
  from Suc.IH [OF t(2) this] t show ?case
    using ne go by (auto simp: bnd_def fetch_def andthen_def)
qed


lemma inp_count:
  assumes "inp_ok s"
  shows "unat (c_e s - c_r s) = length (fst (inp_abs s)) + length (snd (inp_abs s))"
    "c_e s - c_r s < of_nat INPUT_BUF \<longleftrightarrow> length (fst (inp_abs s)) + length (snd (inp_abs s)) < INPUT_BUF"
proof -
  have "unat (c_w s - c_r s) + unat (c_e s - c_w s) < 2 ^ 32" using assms by (simp add: inp_ok_def INPUT_BUF_def)
  from unat_ring_split [OF this]
  show e: "unat (c_e s - c_r s) = length (fst (inp_abs s)) + length (snd (inp_abs s))" by (simp add: inp_abs_def)
  show "c_e s - c_r s < of_nat INPUT_BUF \<longleftrightarrow> length (fst (inp_abs s)) + length (snd (inp_abs s)) < INPUT_BUF"
    unfolding word_less_nat_alt e by (simp add: INPUT_BUF_def)
qed

text \<open>Storing a character at the end of the line.\<close>

definition store_char :: "u8 \<Rightarrow> 'z cst_scheme \<Rightarrow> 'z cst_scheme" where
  "store_char x s = s\<lparr>c_buf := (c_buf s)(unat (c_e s) mod INPUT_BUF := x), c_e := c_e s + 1\<rparr>"

lemma store_char_abs:
  assumes ok: "inp_ok s" and lt: "length (fst (inp_abs s)) + length (snd (inp_abs s)) < INPUT_BUF"
  shows "inp_abs (store_char x s) = (fst (inp_abs s), snd (inp_abs s) @ [x])"
    and "unat (c_w s - c_r s) + unat (c_e s + 1 - c_w s) \<le> INPUT_BUF"
    and "c_e s + 1 = c_r s + of_nat INPUT_BUF \<longleftrightarrow> length (fst (inp_abs s)) + length (snd (inp_abs s) @ [x]) = INPUT_BUF"
    and "inp_abs ((store_char x s)\<lparr>c_w := c_e s + 1\<rparr>) = (fst (inp_abs s) @ snd (inp_abs s) @ [x], [])"
    and "unat (c_e s + 1 - c_r s) \<le> INPUT_BUF"
proof -
  let ?b = "(c_buf s)(unat (c_e s) mod INPUT_BUF := x)"
  have er: "unat (c_e s - c_r s) < INPUT_BUF" "unat (c_w s - c_r s) \<le> unat (c_e s - c_r s)" "unat (c_e s - c_w s) < INPUT_BUF"
    using inp_count(1) [OF ok] lt by (simp_all add: inp_abs_def)
  have ln: "ring_contents INPUT_BUF ?b (c_w s) (c_e s + 1) = snd (inp_abs s) @ [x]"
    using input_ring.put [OF er(3)] by (simp add: inp_abs_def)
  have rd: "ring_contents INPUT_BUF ?b (c_r s) (c_w s) = fst (inp_abs s)"
    using input_ring.put_other [OF er(2,1)] by (simp add: inp_abs_def)
  show "inp_abs (store_char x s) = (fst (inp_abs s), snd (inp_abs s) @ [x])"
    using ln rd by (simp add: inp_abs_def store_char_def)
  show b: "unat (c_w s - c_r s) + unat (c_e s + 1 - c_w s) \<le> INPUT_BUF"
    using arg_cong [OF ln, of length] arg_cong [OF rd, of length] lt by simp
  then have sum: "unat (c_e s + 1 - c_r s) = unat (c_w s - c_r s) + unat (c_e s + 1 - c_w s)"
    by (intro unat_ring_split) (simp add: INPUT_BUF_def)
  then show "unat (c_e s + 1 - c_r s) \<le> INPUT_BUF" using b by simp
  have "c_e s + 1 = c_r s + of_nat INPUT_BUF \<longleftrightarrow> c_e s + 1 - c_r s = of_nat INPUT_BUF" by (auto simp: diff_eq_eq add.commute)
  also have "\<dots> \<longleftrightarrow> unat (c_e s + 1 - c_r s) = INPUT_BUF" by (simp add: word_unat_eq_iff INPUT_BUF_def)
  finally show "c_e s + 1 = c_r s + of_nat INPUT_BUF \<longleftrightarrow> length (fst (inp_abs s)) + length (snd (inp_abs s) @ [x]) = INPUT_BUF"
    using sum arg_cong [OF ln, of length] arg_cong [OF rd, of length] by simp
  show "inp_abs ((store_char x s)\<lparr>c_w := c_e s + 1\<rparr>) = (fst (inp_abs s) @ snd (inp_abs s) @ [x], [])"
    using ring_contents_append [of "c_w s" "c_r s" "c_e s + 1" INPUT_BUF ?b] b rd ln
    by (simp add: INPUT_BUF_def inp_abs_def store_char_def)
qed

definition ends_line :: "int \<Rightarrow> 'z cst_scheme \<Rightarrow> bool" where
  "ends_line c s \<longleftrightarrow> c = 10 \<or> c = 4 \<or> c_e s = c_r s + of_nat INPUT_BUF"

lemma input_char_step:
  assumes "c \<noteq> 0" "c_e s - c_r s < of_nat INPUT_BUF" "c' = (if c = 13 then 10 else c)"
    "consputc c' (store_char (word_of_int c') s) = Ok () v"
  shows "input_char c s = whenk (ends_line c' v) (andthen (modify (\<lambda>s. s\<lparr>c_w := c_e s\<rparr>)) (wakeup ChInput)) v"
proof -
  have "c \<noteq> 0 \<and> c_e s - c_r s < of_nat INPUT_BUF" using assms by simp
  then show ?thesis
    unfolding input_char_def bnd_def fetch_def outcome.case whenk_def Let_def assms(3) [symmetric]
    by (simp only: if_True andthen_def bnd_def modify_def outcome.case store_char_def [symmetric] assms(4) ends_line_def simp_thms)
qed


lemma input_char_edit:
  assumes ok: "inp_ok s" and held: "PtableLock \<notin> set (k_held s)"
    and c: "0 \<le> c" "c < 256" "c \<noteq> 16" "c \<noteq> 21" "c \<noteq> 8" "c \<noteq> 127"
  shows "\<exists>t. input_char c s = Ok () t \<and> inp_ok t \<and> inp_abs t = edit_line c (inp_abs s) \<and> k_held t = k_held s"
proof (cases "c \<noteq> 0 \<and> c_e s - c_r s < of_nat INPUT_BUF")
  case False
  then have "input_char c s = Ok () s" by (auto simp: input_char_def kdefs)
  moreover have "edit_line c (inp_abs s) = inp_abs s"
    using False inp_count(2) [OF ok] c by (auto simp: edit_line_def not_less split: prod.splits)
  ultimately show ?thesis using ok by simp
next
  case True
  define c' where "c' = (if c = 13 then 10 else c)"
  define u where "u = store_char (word_of_int c') s"
  have lt: "length (fst (inp_abs s)) + length (snd (inp_abs s)) < INPUT_BUF" using True inp_count(2) [OF ok] by blast
  note S = store_char_abs(1,3,4) [OF ok lt, of "word_of_int c'"] and B = store_char_abs(2,5) [OF ok lt]
  have us: "c_e u = c_e s + 1" "c_r u = c_r s" "c_w u = c_w s" "k_held u = k_held s" "c_pos u = c_pos s"
    by (simp_all add: u_def store_char_def)
  obtain v where v: "consputc c' u = Ok () v" "out_only u v"
    using consputc_Ok [of u c'] ok us(5) by (auto simp: inp_ok_def)
  note V = out_onlyD [OF v(2)]
  have step: "input_char c s = whenk (ends_line c' v) (andthen (modify (\<lambda>s. s\<lparr>c_w := c_e s\<rparr>)) (wakeup ChInput)) v"
    by (rule input_char_step [OF _ _ c'_def]) (use True v(1) in \<open>simp_all add: u_def\<close>)
  have el: "ends_line c' v \<longleftrightarrow> c' = 10 \<or> c' = 4 \<or> length (fst (inp_abs s)) + length (snd (inp_abs s) @ [word_of_int c']) = INPUT_BUF"
    unfolding ends_line_def V us S(2) ..
  have ed: "edit_line c (inp_abs s) = (if ends_line c' v then (fst (inp_abs s) @ snd (inp_abs s) @ [word_of_int c'], [])
      else (fst (inp_abs s), snd (inp_abs s) @ [word_of_int c']))"
    unfolding el using True lt c by (cases "inp_abs s") (auto simp: edit_line_def c'_def Let_def)
  show ?thesis
  proof (cases "ends_line c' v")
    case commit: True
    let ?t = "v\<lparr>c_w := c_e v, k_procs := map (wake ChInput) (k_procs v)\<rparr>"
    have "wakeup ChInput (v\<lparr>c_w := c_e v\<rparr>) = Ok () ?t"
      using wakeup_Ok [of "v\<lparr>c_w := c_e v\<rparr>" ChInput] held V us by simp
    then have "input_char c s = Ok () ?t" unfolding step using commit by (simp add: kdefs)
    moreover have a: "inp_abs ?t = (fst (inp_abs s) @ snd (inp_abs s) @ [word_of_int c'], [])"
      using V us S(3) by (simp add: inp_abs_def u_def)
    moreover have "inp_ok ?t" unfolding inp_ok_def a using V us B(2) by simp
    ultimately show ?thesis using commit ed V us by (intro exI [of _ ?t]) simp
  next
    case False
    then have "input_char c s = Ok () v" unfolding step by (simp add: kdefs)
    moreover have a: "inp_abs v = (fst (inp_abs s), snd (inp_abs s) @ [word_of_int c'])"
      unfolding inp_abs_out [OF v(2)] u_def by (rule S(1))
    moreover have "word_of_int c' \<noteq> (10 :: u8)"
    proof
      assume "word_of_int c' = (10 :: u8)"
      then have "uint (word_of_int c' :: u8) = 10" by simp
      then show False using False c el by (simp add: c'_def uint_word_of_int split: if_splits)
    qed
    then have "inp_ok v" using ok V us B(1) unfolding inp_ok_def a by (simp add: inp_ok_def)
    ultimately show ?thesis using False ed V us by (intro exI [of _ v]) simp
  qed
qed

lemma console_char_edit:
  assumes "inp_ok s" "PtableLock \<notin> set (k_held s)" "0 \<le> c" "c < 256"
  shows "\<exists>t. console_char c s = Ok (c = 16) t \<and> inp_ok t \<and> inp_abs t = edit_line c (inp_abs s) \<and> k_held t = k_held s"
proof -
  consider "c = 16" | "c = 21" | "c = 8 \<or> c = 127" "c_e s = c_w s" | "c = 8 \<or> c = 127" "c_e s \<noteq> c_w s"
    | "c \<noteq> 16" "c \<noteq> 21" "c \<noteq> 8" "c \<noteq> 127" by blast
  then show ?thesis
  proof cases
    case 1
    then show ?thesis using assms by (simp add: console_char_def edit_line_def ret_def split: prod.splits)
  next
    case 2
    then show ?thesis using kill_line_edit [OF assms(1) refl]
      by (cases "inp_abs s") (auto simp: console_char_def edit_line_def bnd_def fetch_def andthen_def ret_def)
  next
    case 3
    then have "snd (inp_abs s) = []" by (simp add: inp_abs_def)
    then show ?thesis using 3 assms
      by (cases "inp_abs s") (auto simp: console_char_def edit_line_def kdefs)
  next
    case 4
    then show ?thesis using erase_edit [OF assms(1)]
      by (cases "inp_abs s") (auto simp: console_char_def edit_line_def kdefs)
  next
    case 5
    then show ?thesis using input_char_edit [OF assms 5] by (auto simp: console_char_def andthen_def bnd_def ret_def)
  qed
qed

lemma console_chars_edit:
  assumes "inp_ok s" "PtableLock \<notin> set (k_held s)" "\<forall>c\<in>set cs. 0 \<le> c \<and> c < 256"
  shows "\<exists>t. console_chars cs d s = Ok (d \<or> 16 \<in> set cs) t \<and> inp_ok t \<and> inp_abs t = fold edit_line cs (inp_abs s) \<and> k_held t = k_held s"
  using assms
proof (induction cs arbitrary: s d)
  case Nil
  then show ?case by (simp add: ret_def)
next
  case (Cons c cs)
  obtain u where u: "console_char c s = Ok (c = 16) u" "inp_ok u" "inp_abs u = edit_line c (inp_abs s)" "k_held u = k_held s"
    using console_char_edit [OF Cons.prems(1,2), of c] Cons.prems(3) by auto
  obtain t where "console_chars cs (d \<or> c = 16) u = Ok ((d \<or> c = 16) \<or> 16 \<in> set cs) t" "inp_ok t"
      "inp_abs t = fold edit_line cs (inp_abs u)" "k_held t = k_held u"
    using Cons.IH [OF u(2), of "d \<or> c = 16"] Cons.prems u(4) by auto
  then show ?case using u by (auto simp: bnd_def)
qed

section \<open>The process listing\<close>

text \<open>Steps that only print compose to steps that only print.\<close>

definition prints :: "(unit, 'z kst_scheme) kop \<Rightarrow> bool" where
  "prints m \<longleftrightarrow> (\<forall>s. k_held s = [] \<longrightarrow> (\<exists>out. m s = Ok () (s\<lparr>k_out := out\<rparr>)))"

lemma prints_ret: "prints (ret ())"
  unfolding prints_def ret_def
proof (intro allI impI)
  fix s :: "'a kst_scheme"
  show "\<exists>out. Ok () s = Ok () (s\<lparr>k_out := out\<rparr>)" by (rule exI [of _ "k_out s"]) simp
qed

lemma cprintf_Ok:
  assumes "k_held s = []" "cformat fmt args = Some tx"
  shows "cprintf fmt args s = Ok () (s\<lparr>k_out := k_out s @ tx\<rparr>)"
proof -
  have "s\<lparr>k_out := k_out s @ tx, k_held := []\<rparr> = s\<lparr>k_out := k_out s @ tx\<rparr>" using assms(1) by (cases s) simp
  then show ?thesis using assms by (cases "k_locking s") (simp_all add: cprintf_def kdefs)
qed

lemma prints_cprintf:
  assumes "cformat fmt args \<noteq> None"
  shows "prints (cprintf fmt args)"
  unfolding prints_def using assms cprintf_Ok by blast

lemma prints_whenk: "prints m \<Longrightarrow> prints (whenk b m)"
  using prints_ret by (cases b) (simp_all add: whenk_def)

lemma prints_andthen:
  assumes "prints m" "prints n"
  shows "prints (andthen m n)"
  unfolding prints_def
proof (intro allI impI)
  fix s :: "'a kst_scheme"
  assume h: "k_held s = []"
  then obtain o1 where 1: "m s = Ok () (s\<lparr>k_out := o1\<rparr>)" using assms(1) by (auto simp: prints_def)
  have "k_held (s\<lparr>k_out := o1\<rparr>) = []" using h by simp
  then obtain o2 where "n (s\<lparr>k_out := o1\<rparr>) = Ok () (s\<lparr>k_out := o1\<rparr>\<lparr>k_out := o2\<rparr>)"
    using assms(2) unfolding prints_def by blast
  then show "\<exists>out. andthen m n s = Ok () (s\<lparr>k_out := out\<rparr>)" using 1 by (auto simp: andthen_def bnd_def)
qed

lemma prints_fetch: "(\<And>x. prints (k x)) \<Longrightarrow> prints (bnd (fetch f) k)"
  by (simp add: prints_def bnd_def fetch_def)

lemma prints_for_each: "(\<And>x. prints (f x)) \<Longrightarrow> prints (for_each xs f)"
  by (induction xs) (simp_all add: prints_ret prints_andthen)

lemma procdump_prints: "prints (procdump :: (unit, 'z mst_scheme) kop)"
proof -
  have "prints (procdump_one p :: (unit, 'z mst_scheme) kop)" for p
    unfolding procdump_one_def
    by (intro prints_whenk prints_andthen prints_fetch prints_for_each prints_cprintf)
      (simp_all add: nl_def str_arg_def)
  then show ?thesis unfolding procdump_def by (intro prints_fetch prints_for_each)
qed

lemma consoleintr_edit:
  assumes "inp_ok s" "k_held s = []" "\<forall>c\<in>set cs. 0 \<le> c \<and> c < 256"
  shows "\<exists>t. consoleintr cs s = Ok () t \<and> inp_ok t \<and> inp_abs t = fold edit_line cs (inp_abs s) \<and> k_held t = []"
proof -
  let ?s = "s\<lparr>k_held := [ConsLock]\<rparr>"
  have a: "inp_abs ?s = inp_abs s" "inp_ok ?s" using assms(1) by (simp_all add: inp_abs_def inp_ok_def)
  obtain t where t: "console_chars cs False ?s = Ok (16 \<in> set cs) t" "inp_ok t" "inp_abs t = fold edit_line cs (inp_abs s)" "k_held t = [ConsLock]"
    using console_chars_edit [OF a(2), of cs False] assms(3) a(1) by auto
  let ?t = "t\<lparr>k_held := []\<rparr>"
  have "prints (whenk (16 \<in> set cs) procdump :: (unit, 'a cst_scheme) kop)" by (intro prints_whenk procdump_prints)
  then obtain out where o: "whenk (16 \<in> set cs) procdump ?t = Ok () (?t\<lparr>k_out := out\<rparr>)" by (fastforce simp: prints_def)
  have r: "inp_abs (?t\<lparr>k_out := out\<rparr>) = inp_abs t" "inp_ok (?t\<lparr>k_out := out\<rparr>) = inp_ok t" by (simp_all add: inp_abs_def inp_ok_def)
  have "consoleintr cs s = Ok () (?t\<lparr>k_out := out\<rparr>)"
    using assms(2) t o by (simp add: consoleintr_def andthen_def bnd_def)
  then show ?thesis using t r by auto
qed

section \<open>Properties\<close>

text \<open>
  C21: the console interrupt handler refines a line editor on lists.  Whatever the positions of the
  three wrapping indices of the ring, the characters typed act as on a list of finished lines and a
  line being edited: backspace drops the last character of the line, control-U the whole line, a
  newline, control-D or a full buffer finishes it; a character that does not fit is dropped and
  finished input is never touched.  Control-P only adds a listing to the output.
\<close>

theorem consoleintr_refines:
  assumes "inp_ok s" "k_held s = []" "\<forall>c\<in>set cs. 0 \<le> c \<and> c < 256"
  shows "\<exists>t. consoleintr cs s = Ok () t \<and> inp_ok t \<and> inp_abs t = fold edit_line cs (inp_abs s) \<and> k_held t = []"
  using assms by (rule consoleintr_edit)

text \<open>
  C22: a character written to the screen, newline and backspace included, never trips the cursor
  check, leaves the cursor inside the 24 lines that are used, and changes no memory outside them.
\<close>

theorem cgaputc_on_screen:
  assumes "on_screen (c_pos s)"
  shows "\<exists>t. cgaputc c s = Ok () t \<and> on_screen (c_pos t) \<and> (\<forall>i. \<not> on_screen i \<longrightarrow> c_crt t i = c_crt s i)"
  using cgaputc_Ok [OF assms, of c] by auto

definition demo_cst :: cst where
  "demo_cst = xst.extend (ffst.extend demo_ffst \<lparr>x_forkret = 0, x_trapret = 0, x_initcode = [], x_first = False\<rparr>)
     \<lparr>c_buf = (\<lambda>_. 0), c_r = 0xFFFFFFFF, c_w = 0xFFFFFFFF, c_e = 0xFFFFFFFF, c_pos = 1919, c_crt = (\<lambda>_. 0)\<rparr>"

lemma demo_cst_facts:
  "k_held demo_cst = []" "c_pos demo_cst = 1919" "inp_abs demo_cst = ([], [])" "inp_ok demo_cst"
  by (simp_all add: demo_cst_def xst.defs ffst.defs demo_ffst_def pst.defs demo_pst_def mst.defs mst0_def fsst.defs fsst0_def
      lst.defs lst0_def bst.defs bst0_def kst.defs kst0_def inp_abs_def inp_ok_def on_screen_def)

theorem consoleintr_refines_witness:
  "\<exists>t. consoleintr [97, 98, 8, 16, 99, 13] demo_cst = Ok () t \<and> inp_abs t = ([97, 99, 10], [])"
  using consoleintr_refines [of demo_cst "[97, 98, 8, 16, 99, 13]"] demo_cst_facts
  by (auto simp: edit_line_def INPUT_BUF_def)

theorem cgaputc_on_screen_witness:
  "\<exists>t. cgaputc 10 demo_cst = Ok () t \<and> on_screen (c_pos t)"
  using cgaputc_on_screen [of demo_cst 10] demo_cst_facts by (auto simp: on_screen_def)

end
