(* ===== verification/Kbd.thy ===== *)
theory Kbd
  imports Console Kpres
begin

text \<open>
  The keyboard, \<^verbatim>\<open>kbd.c\<close> with the tables of \<^verbatim>\<open>kbd.h\<close>, and the receiving side of the serial port,
  \<^verbatim>\<open>uart.c\<close>.  \<open>kb_in\<close> are the scan codes waiting in the keyboard controller, \<open>ur_in\<close> the bytes waiting
  in the serial port; the status bit that a handler tests says whether there is one.
  \<^verbatim>\<open>consoleintr\<close> calls its \<^verbatim>\<open>getc\<close> until that is negative, and neither touches what the other uses:
  \<open>getcs\<close> collects the characters first.
\<close>

section \<open>Tables\<close>

definition SHIFT :: u32 where "SHIFT = 1"
definition CTL :: u32 where "CTL = 2"
definition ALT :: u32 where "ALT = 4"
definition CAPSLOCK :: u32 where "CAPSLOCK = 8"
definition NUMLOCK :: u32 where "NUMLOCK = 16"
definition SCROLLLOCK :: u32 where "SCROLLLOCK = 32"
definition E0ESC :: u32 where "E0ESC = 64"

definition shiftcode :: "u32 \<Rightarrow> u32" where
  "shiftcode d = (if d = 0x1D \<or> d = 0x9D then CTL else if d = 0x2A \<or> d = 0x36 then SHIFT
     else if d = 0x38 \<or> d = 0xB8 then ALT else 0)"

definition togglecode :: "u32 \<Rightarrow> u32" where
  "togglecode d = (if d = 0x3A then CAPSLOCK else if d = 0x45 then NUMLOCK else if d = 0x46 then SCROLLLOCK else 0)"

text \<open>An initializer: the first elements in order, designated ones behind them, and zeros.\<close>

definition keytable :: "u32 list \<Rightarrow> (u32 \<times> u32) list \<Rightarrow> u32 \<Rightarrow> u32" where
  "keytable xs ds i = (if unat i < length xs then xs ! unat i else case map_of ds i of Some c \<Rightarrow> c | None \<Rightarrow> 0)"

definition keypad :: "(u32 \<times> u32) list" where
  "keypad = [(0xC8, 0xE2), (0xD0, 0xE3), (0xC9, 0xE6), (0xD1, 0xE7), (0xCB, 0xE4), (0xCD, 0xE5), (0x97, 0xE0),
     (0xCF, 0xE1), (0xD2, 0xE8), (0xD3, 0xE9)]"

abbreviation chars :: "string \<Rightarrow> u32 list" where
  "chars \<equiv> map of_char"

definition normalkeys :: "u32 list" where
  "normalkeys =
     [0, 0x1B] @ chars ''1234567890-='' @ [8, 9] @ chars ''qwertyuiop[]'' @ [10, 0] @ chars ''asdfghjkl;''
      @ [39, 96, 0, 92] @ chars ''zxcvbnm,./'' @ [0, 42, 0, 32, 0, 0, 0, 0, 0, 0, 0, 0, 0, 0, 0, 0, 0]
      @ chars ''789-456+1230.'' @ [0, 0, 0, 0]"

definition normalmap :: "u32 \<Rightarrow> u32" where
  "normalmap = keytable normalkeys ([(0x9C, 10), (0xB5, 47)] @ keypad)"

definition shiftkeys :: "u32 list" where
  "shiftkeys =
     [0, 0x1B] @ chars ''!@#$%^&*()_+'' @ [8, 9] @ chars ''QWERTYUIOP{}'' @ [10, 0] @ chars ''ASDFGHJKL:''
      @ [34, 126, 0, 124] @ chars ''ZXCVBNM<>?'' @ [0, 42, 0, 32, 0, 0, 0, 0, 0, 0, 0, 0, 0, 0, 0, 0, 0]
      @ chars ''789-456+1230.'' @ [0, 0, 0, 0]"

definition shiftmap :: "u32 \<Rightarrow> u32" where
  "shiftmap = keytable shiftkeys ([(0x9C, 10), (0xB5, 47)] @ keypad)"

text \<open>\<^verbatim>\<open>C(x)\<close> is the control character of \<open>x\<close>.  \<^verbatim>\<open>C('/')\<close> is negative; the table keeps its low byte.\<close>

definition ctls :: "string \<Rightarrow> u32 list" where
  "ctls = map (\<lambda>c. (of_char c - 64) AND 0xFF)"

definition ctlmap :: "u32 \<Rightarrow> u32" where
  "ctlmap = keytable
     (replicate 16 0 @ ctls ''QWERTYUIOP'' @ [0, 0, 13, 0] @ ctls ''ASDFGHJKL'' @ [0, 0, 0, 0] @ [28] @ ctls ''ZXCVBNM''
      @ [0, 0] @ ctls ''/'' @ [0, 0])
     ([(0x9C, 13), (0xB5, (47 - 64) AND 0xFF)] @ keypad)"

section \<open>Scan codes\<close>

record kbst = cst +
  kb_shift :: u32
  kb_in :: "u8 list"
  ur_present :: bool
  ur_in :: "u8 list"

definition charcode :: "u32 \<Rightarrow> u32 \<Rightarrow> u32" where
  "charcode i = (if i = 0 then normalmap else if i = 1 then shiftmap else ctlmap)"

definition capslock :: "u32 \<Rightarrow> u32" where
  "capslock c = (if 97 \<le> c \<and> c \<le> 122 then c + (65 - 97) else if 65 \<le> c \<and> c \<le> 90 then c + (97 - 65) else c)"

text \<open>What \<^verbatim>\<open>kbdgetc\<close> makes of a scan code: the new \<^verbatim>\<open>shift\<close> and the value it returns.\<close>

definition kbd_make :: "u32 \<Rightarrow> u32 \<Rightarrow> u32 \<times> int" where
  "kbd_make sh d =
     (let sh = (sh OR shiftcode d) XOR togglecode d; c = charcode (sh AND (CTL OR SHIFT)) d
      in (sh, sint (if sh AND CAPSLOCK \<noteq> 0 then capslock c else c)))"

definition kbd_code :: "u32 \<Rightarrow> u32 \<Rightarrow> u32 \<times> int" where
  "kbd_code sh d =
     (if d = 0xE0 then (sh OR E0ESC, 0)
      else if d AND 0x80 \<noteq> 0 then
        let d = (if sh AND E0ESC \<noteq> 0 then d else d AND 0x7F) in (sh AND NOT (shiftcode d OR E0ESC), 0)
      else if sh AND E0ESC \<noteq> 0 then kbd_make (sh AND NOT E0ESC) (d OR 0x80)
      else kbd_make sh d)"

definition kbdgetc :: "(int, 'z kbst_scheme) kop" where
  "kbdgetc =
     bnd (fetch kb_in) (\<lambda>bs. case bs of [] \<Rightarrow> ret (- 1)
     | b # bs \<Rightarrow>
         bnd (fetch (\<lambda>s. kbd_code (kb_shift s) (ucast b))) (\<lambda>r.
         andthen (modify (\<lambda>s. s\<lparr>kb_in := bs, kb_shift := fst r\<rparr>)) (ret (snd r))))"

definition uartgetc :: "(int, 'z kbst_scheme) kop" where
  "uartgetc =
     bnd (fetch ur_present) (\<lambda>uart. if \<not> uart then ret (- 1) else
     bnd (fetch ur_in) (\<lambda>bs. case bs of [] \<Rightarrow> ret (- 1)
     | b # bs \<Rightarrow> andthen (modify (\<lambda>s. s\<lparr>ur_in := bs\<rparr>)) (ret (uint b))))"

text \<open>The first \<open>n\<close> calls of \<^verbatim>\<open>getc\<close>, up to the one that is negative; there is one more call than bytes.\<close>

fun getcs :: "(int, 's) kop \<Rightarrow> nat \<Rightarrow> (int list, 's) kop" where
  "getcs getc 0 = ret []"
| "getcs getc (Suc n) = bnd getc (\<lambda>c. if c \<ge> 0 then bnd (getcs getc n) (\<lambda>cs. ret (c # cs)) else ret [])"

definition kbdintr :: "(unit, 'z kbst_scheme) kop" where
  "kbdintr = bnd (fetch (\<lambda>s. length (kb_in s))) (\<lambda>n. bnd (getcs kbdgetc (Suc n)) consoleintr)"

definition uartintr :: "(unit, 'z kbst_scheme) kop" where
  "uartintr = bnd (fetch (\<lambda>s. length (ur_in s))) (\<lambda>n. bnd (getcs uartgetc (Suc n)) consoleintr)"

section \<open>Decoding\<close>

fun kbd_decode :: "u32 \<Rightarrow> u8 list \<Rightarrow> u32 \<times> int list" where
  "kbd_decode sh [] = (sh, [])"
| "kbd_decode sh (b # bs) = (let (sh, c) = kbd_code sh (ucast b); (sh, cs) = kbd_decode sh bs in (sh, c # cs))"

lemma kbd_decode_append:
  "kbd_decode sh (as @ bs) = (let (sh, cs) = kbd_decode sh as; (sh, ds) = kbd_decode sh bs in (sh, cs @ ds))"
  by (induction as arbitrary: sh) (auto simp: Let_def split: prod.splits)

text \<open>
  A typist at a US keyboard, whose keys send the codes of scan code set 1 that the hardware standard gives them: a row of
  keys has consecutive codes, pressing a key sends its code and releasing it the code with the high bit set; the left
  shift key, code 0x2A, is held for the upper characters.  Nothing here comes from the driver's tables.
\<close>

definition us_rows :: "(nat \<times> string \<times> string) list" where
  "us_rows =
     [(0x02, ''1234567890-='', ''!@#$%^&*()_+''),
      (0x10, ''qwertyuiop[]'', ''QWERTYUIOP{}''),
      (0x1C, [CHR 0x0A], []),
      (0x1E, ''asdfghjkl;'' @ [CHR 0x27, CHR 0x60], ''ASDFGHJKL:'' @ [CHR 0x22, CHR 0x7E]),
      (0x2B, CHR 0x5C # ''zxcvbnm,./'', ''|ZXCVBNM<>?''),
      (0x39, '' '', [])]"

definition us_layout :: "(u8 \<times> bool \<times> nat) list" where
  "us_layout = concat (map (\<lambda>(k, lower, upper).
     map (\<lambda>(i, c). (of_char c, False, k + i)) (enumerate 0 lower) @ map (\<lambda>(i, c). (of_char c, True, k + i)) (enumerate 0 upper)) us_rows)"

definition stroke :: "nat \<Rightarrow> u8 list" where
  "stroke k = [of_nat k, of_nat k OR 0x80]"

definition typing :: "u8 \<Rightarrow> u8 list" where
  "typing c = (case map_of us_layout c of None \<Rightarrow> []
     | Some (upper, k) \<Rightarrow> if upper then [0x2A] @ stroke k @ [0xAA] else stroke k)"

definition typeable :: "u8 \<Rightarrow> bool" where
  "typeable c \<longleftrightarrow> map_of us_layout c \<noteq> None"

text \<open>The tables of \<^verbatim>\<open>kbd.h\<close> agree with the keyboard.\<close>

lemma layout_rows:
  "list_all (\<lambda>(k, lower, upper). take (length lower) (drop k normalkeys) = chars lower
     \<and> take (length upper) (drop k shiftkeys) = chars upper \<and> CHR 0x00 \<notin> set lower \<union> set upper) us_rows"
  "length normalkeys = 88" "length shiftkeys = 88"
  by code_simp+

lemma layout_printable: "list_all (\<lambda>n. of_nat n \<in> set (map fst us_layout)) (10 # [32..<127])"
  by code_simp

lemma row_key:
  assumes "take (length xs) (drop k ks) = chars xs" "i < length xs" "length ks = 88"
  shows "k + i < 88" "keytable ks ds (of_nat (k + i)) = of_char (xs ! i)"
proof -
  have "length (take (length xs) (drop k ks)) = length xs" unfolding assms(1) by simp
  then show ki: "k + i < 88" using assms(2,3) by simp
  have "ks ! (k + i) = take (length xs) (drop k ks) ! i" using assms(2,3) ki by simp
  then show "keytable ks ds (of_nat (k + i)) = of_char (xs ! i)"
    unfolding assms(1) using assms(2,3) ki by (simp add: keytable_def unat_of_nat del: of_nat_add)
qed

lemma unat_ucast8: "unat (ucast (c :: u8) :: u32) = unat c"
  by (simp add: unsigned_ucast_eq take_bit_nat_eq_self_iff order.strict_trans [OF unsigned_less])

lemma ucast_of_char: "ucast (of_char c :: u8) = (of_char c :: u32)"
proof -
  have "unat (of_nat (of_char c) :: u8) = of_char c" "unat (of_nat (of_char c) :: u32) = of_char c"
    using nat_of_char_less_256 [of c] order.strict_trans [OF nat_of_char_less_256 [of c], of "2 ^ 32"] by (simp_all only: unat_of_nat) simp_all
  then have "unat (ucast (of_nat (of_char c) :: u8) :: u32) = unat (of_nat (of_char c) :: u32)"
    by (simp only: unat_ucast8)
  then show ?thesis by (simp only: word_unat_eq_iff of_nat_of_char)
qed

lemma of_char_nonzero: "c \<noteq> CHR 0x00 \<Longrightarrow> (of_char c :: u8) \<noteq> 0"
proof
  assume c: "c \<noteq> CHR 0x00" "(of_char c :: u8) = 0"
  then have "unat (of_nat (of_char c) :: u8) = 0" by (simp only: of_nat_of_char unsigned_0)
  then have "(of_char c :: nat) = of_char (CHR 0x00)" using nat_of_char_less_256 [of c] by (simp only: unat_of_nat) simp
  then show False using c(1) by (metis char_of_char)
qed

lemma layout_mem:
  assumes "(c, upper, k) \<in> set us_layout"
  shows "c \<noteq> 0 \<and> k < 88 \<and> (if upper then shiftmap else normalmap) (of_nat k) = ucast c"
proof -
  obtain k0 lo up i where r: "(k0, lo, up) \<in> set us_rows" "k = k0 + i"
    and i: "if upper then i < length up \<and> c = of_char (up ! i) else i < length lo \<and> c = of_char (lo ! i)"
    using assms by (cases upper) (auto simp: us_layout_def in_set_enumerate_eq)
  have m: "take (length lo) (drop k0 normalkeys) = chars lo" "take (length up) (drop k0 shiftkeys) = chars up"
    "CHR 0x00 \<notin> set lo \<union> set up"
    using layout_rows(1) r(1) unfolding list_all_iff by auto
  have nz: "xs ! i \<noteq> CHR 0x00" if "i < length xs" "CHR 0x00 \<notin> set xs" for xs :: string using that nth_mem by metis
  show ?thesis
  proof (cases upper)
    case True
    then show ?thesis using row_key [OF m(2) _ layout_rows(3), of i] i m(3) r(2) of_char_nonzero [OF nz [of up]]
      by (auto simp: shiftmap_def ucast_of_char simp del: of_nat_add)
  next
    case False
    then show ?thesis using row_key [OF m(1) _ layout_rows(2), of i] i m(3) r(2) of_char_nonzero [OF nz [of lo]]
      by (auto simp: normalmap_def ucast_of_char simp del: of_nat_add)
  qed
qed

lemma layout_key:
  assumes "map_of us_layout c = Some (upper, k)"
  shows "c \<noteq> 0" "k < 88" "(if upper then shiftmap else normalmap) (of_nat k) = ucast c"
  using layout_mem map_of_SomeD [OF assms] by blast+

text \<open>A key that bears a character is not a modifier, and scan codes of keys and their releases.\<close>

lemma modifiers: "shiftcode d \<noteq> 0 \<or> togglecode d \<noteq> 0 \<Longrightarrow> d \<in> {0x1D, 0x9D, 0x2A, 0x36, 0x38, 0xB8, 0x3A, 0x45, 0x46}"
  by (auto simp: shiftcode_def togglecode_def split: if_splits)

lemma modifier_maps:
  "\<forall>d\<in>{0x1D, 0x9D, 0x2A, 0x36, 0x38, 0xB8, 0x3A, 0x45, 0x46}. normalmap d = 0 \<and> shiftmap d = 0"
  by code_simp

lemma char_key:
  assumes "normalmap d \<noteq> 0 \<or> shiftmap d \<noteq> 0"
  shows "shiftcode d = 0" "togglecode d = 0"
  using assms modifiers [of d] modifier_maps by blast+

lemma key_codes:
  "list_all (\<lambda>k. let b = of_nat k :: u8; d = ucast b :: u32; r = ucast (b OR 0x80) :: u32 in
     d = of_nat k \<and> d \<noteq> 0xE0 \<and> d AND 0x80 = 0 \<and> r \<noteq> 0xE0 \<and> r AND 0x80 \<noteq> 0 \<and> r AND 0x7F = d) [0..<88]"
  by code_simp

lemma key_code:
  assumes "k < 88"
  shows "(ucast (of_nat k :: u8) :: u32) = of_nat k" "(of_nat k :: u32) \<noteq> 0xE0" "(of_nat k :: u32) AND 0x80 = 0"
    "(ucast (of_nat k OR 0x80 :: u8) :: u32) \<noteq> 0xE0" "(ucast (of_nat k OR 0x80 :: u8) :: u32) AND 0x80 \<noteq> 0"
    "(ucast (of_nat k OR 0x80 :: u8) :: u32) AND 0x7F = of_nat k"
proof -
  have "k \<in> set [0..<88]" using assms by simp
  then show "(ucast (of_nat k :: u8) :: u32) = of_nat k" "(of_nat k :: u32) \<noteq> 0xE0" "(of_nat k :: u32) AND 0x80 = 0"
    "(ucast (of_nat k OR 0x80 :: u8) :: u32) \<noteq> 0xE0" "(ucast (of_nat k OR 0x80 :: u8) :: u32) AND 0x80 \<noteq> 0"
    "(ucast (of_nat k OR 0x80 :: u8) :: u32) AND 0x7F = of_nat k"
    using key_codes unfolding list_all_iff Let_def by (metis (no_types, lifting))+
qed

lemma sint_ucast8: "sint (ucast (c :: u8) :: u32) = uint c"
proof -
  have "unat c < 256" using unsigned_less [of c, where 'a = nat] by simp
  then have "sint (ucast c :: u32) = int (unat c)" using sint_unat_small [of "ucast c :: u32"] unat_ucast8 [of c] by simp
  then show ?thesis by simp
qed

lemma ucast8_nonzero: "c \<noteq> 0 \<Longrightarrow> (ucast (c :: u8) :: u32) \<noteq> 0 \<and> uint c \<noteq> 0"
  using unat_ucast8 [of c] by (metis unat_eq_zero unsigned_0 unsigned_eq_0_iff)

text \<open>Neither shift, control, caps lock nor an escape is pending; the other locks may be on.\<close>

definition neutral :: "u32 \<Rightarrow> bool" where
  "neutral sh \<longleftrightarrow> sh \<in> {0, NUMLOCK, SCROLLLOCK, NUMLOCK OR SCROLLLOCK}"

lemmas mods = SHIFT_def CTL_def ALT_def CAPSLOCK_def NUMLOCK_def SCROLLLOCK_def E0ESC_def

lemma typing_decode:
  assumes c: "typeable c" and sh: "neutral sh"
  shows "\<exists>cs. kbd_decode sh (typing c) = (sh, cs) \<and> filter (\<lambda>x. x \<noteq> 0) cs = [uint c] \<and> (\<forall>x\<in>set cs. 0 \<le> x \<and> x < 256)"
proof -
  obtain upper k where m: "map_of us_layout c = Some (upper, k)" using c by (auto simp: typeable_def)
  note K = layout_key [OF m]
  have c0: "(ucast c :: u32) \<noteq> 0" "uint c \<noteq> 0" using K(1) ucast8_nonzero [of c] by auto
  then have z: "shiftcode (of_nat k) = 0" "togglecode (of_nat k) = 0"
    using char_key [of "of_nat k"] K(3) by (cases upper; auto)+
  show ?thesis
  proof (cases upper)
    case False
    have "kbd_decode sh (stroke k) = (sh, [uint c, 0])"
      using False sh z K(3) key_code [OF K(2)]
      by (auto simp: neutral_def stroke_def kbd_code_def kbd_make_def charcode_def mods sint_ucast8)
    then show ?thesis using False m c0 uint_lt2p [of c] by (simp add: typing_def)
  next
    case True
    have p: "kbd_code sh 0x2A = (sh OR SHIFT, 0)" using sh modifier_maps
      by (auto simp: neutral_def kbd_code_def kbd_make_def charcode_def shiftcode_def togglecode_def mods)
    have r: "kbd_code (sh OR SHIFT) 0xAA = (sh, 0)" using sh
      by (auto simp: neutral_def kbd_code_def shiftcode_def mods)
    have "kbd_decode (sh OR SHIFT) (stroke k) = (sh OR SHIFT, [uint c, 0])"
      using True sh z K(3) key_code [OF K(2)]
      by (auto simp: neutral_def stroke_def kbd_code_def kbd_make_def charcode_def mods sint_ucast8)
    then have "kbd_decode sh ([0x2A] @ stroke k @ [0xAA]) = (sh, [0, uint c, 0, 0])"
      using p r by (simp add: kbd_decode_append)
    then show ?thesis using True m c0 uint_lt2p [of c] by (simp add: typing_def)
  qed
qed

lemma typing_line:
  assumes sh: "neutral sh"
  shows "\<forall>c\<in>set line. typeable c \<Longrightarrow> \<exists>cs. kbd_decode sh (concat (map typing line)) = (sh, cs)
    \<and> filter (\<lambda>x. x \<noteq> 0) cs = map uint line \<and> (\<forall>x\<in>set cs. 0 \<le> x \<and> x < 256)"
proof (induction line)
  case (Cons c line)
  obtain as where as: "kbd_decode sh (typing c) = (sh, as)" "filter (\<lambda>x. x \<noteq> 0) as = [uint c]" "\<forall>x\<in>set as. 0 \<le> x \<and> x < 256"
    using typing_decode [OF _ sh, of c] Cons.prems by auto
  obtain bs where bs: "kbd_decode sh (concat (map typing line)) = (sh, bs)" "filter (\<lambda>x. x \<noteq> 0) bs = map uint line"
      "\<forall>x\<in>set bs. 0 \<le> x \<and> x < 256"
    using Cons by auto
  show ?case by (rule exI [of _ "as @ bs"]) (use as bs in \<open>auto simp: kbd_decode_append\<close>)
qed simp

lemma getcs_kbd:
  assumes "kbd_decode (kb_shift s) (kb_in s) = (sh, cs)" "\<forall>c\<in>set cs. 0 \<le> c"
  shows "getcs kbdgetc (Suc (length (kb_in s))) s = Ok cs (s\<lparr>kb_in := [], kb_shift := sh\<rparr>)"
  using assms
proof (induction "kb_in s" arbitrary: s cs)
  case Nil
  then have "s\<lparr>kb_in := [], kb_shift := kb_shift s\<rparr> = s" by (cases s) simp
  then show ?case using Nil by (auto simp: kbdgetc_def kdefs)
next
  case (Cons b bs)
  obtain sh1 c where kc: "kbd_code (kb_shift s) (ucast b) = (sh1, c)" by fastforce
  obtain ds where ds: "kbd_decode sh1 bs = (sh, ds)" "cs = c # ds"
    using Cons.prems(1) Cons.hyps(2) [symmetric] kc by (auto split: prod.splits)
  let ?s = "s\<lparr>kb_in := bs, kb_shift := sh1\<rparr>"
  have "getcs kbdgetc (Suc (length bs)) ?s = Ok ds (?s\<lparr>kb_in := [], kb_shift := sh\<rparr>)"
    using Cons.hyps(1) [of ?s ds] ds Cons.prems(2) by simp
  moreover have "kbdgetc s = Ok c ?s" using Cons.hyps(2) [symmetric] kc by (simp add: kbdgetc_def kdefs)
  ultimately show ?case using Cons.hyps(2) [symmetric] ds Cons.prems(2) by (simp add: bnd_def ret_def)
qed

lemma edit_line_zero [simp]: "edit_line 0 q = q"
  by (cases q) (simp add: edit_line_def)

lemma fold_edit_filter: "fold edit_line (filter (\<lambda>x. x \<noteq> 0) cs) q = fold edit_line cs q"
proof (induction cs arbitrary: q)
  case (Cons c cs)
  then show ?case by (cases "c = 0") simp_all
qed simp

text \<open>Characters that only join the line.\<close>

definition printable :: "u8 \<Rightarrow> bool" where
  "printable c \<longleftrightarrow> 32 \<le> c \<and> c < 127"

lemma edit_printable:
  assumes "printable c" "length rd + length l + 1 < INPUT_BUF"
  shows "edit_line (uint c) (rd, l) = (rd, l @ [c])"
proof -
  have "32 \<le> uint c" "uint c < 127" using assms(1) by (simp_all add: printable_def word_le_def word_less_def)
  then show ?thesis using assms(2) by (simp add: edit_line_def Let_def)
qed

lemma edit_newline: "length rd + length l < INPUT_BUF \<Longrightarrow> edit_line 10 (rd, l) = (rd @ l @ [10], [])"
  by (simp add: edit_line_def Let_def)

lemma fold_edit_line:
  "\<forall>c\<in>set line. printable c \<Longrightarrow> length rd + length l + length line < INPUT_BUF \<Longrightarrow>
   fold edit_line (map uint line) (rd, l) = (rd, l @ line)"
proof (induction line arbitrary: l)
  case (Cons c line)
  then show ?case using edit_printable [of c rd l] by simp
qed simp

definition kbd_is :: "u32 \<Rightarrow> 'z kbst_scheme \<Rightarrow> bool" where
  "kbd_is sh s \<longleftrightarrow> kb_in s = [] \<and> kb_shift s = sh"

text \<open>The console leaves the keyboard alone.\<close>

lemma kbd_is_upd [simp]:
  "kbd_is sh (s\<lparr>k_held := h\<rparr>) = kbd_is sh s" "kbd_is sh (s\<lparr>k_out := p\<rparr>) = kbd_is sh s" "kbd_is sh (s\<lparr>k_procs := ps\<rparr>) = kbd_is sh s"
  "kbd_is sh (s\<lparr>c_buf := b\<rparr>) = kbd_is sh s" "kbd_is sh (s\<lparr>c_w := w\<rparr>) = kbd_is sh s"
  "kbd_is sh (s\<lparr>c_e := w\<rparr>) = kbd_is sh s" "kbd_is sh (s\<lparr>c_pos := q\<rparr>) = kbd_is sh s" "kbd_is sh (s\<lparr>c_crt := m\<rparr>) = kbd_is sh s"
  by (simp_all add: kbd_is_def)

lemma pres_kbd_consputc: "pres (kbd_is sh) (consputc c)"
  unfolding consputc_def uartputc_def cgaputc_def
  by (intro pres_intros pres_modify) simp_all

lemma pres_kbd_wakeup: "pres (kbd_is sh) (wakeup ch)"
  unfolding wakeup_eq wakeup1_def by (intro pres_intros pres_modify pres_acquire pres_release) simp_all

lemma pres_kbd_erase: "pres (kbd_is sh) erase"
  unfolding erase_def by (intro pres_intros pres_modify pres_kbd_consputc) simp_all

lemma pres_kbd_kill_line: "pres (kbd_is sh) (kill_line n)"
  by (induction n) (auto intro!: pres_intros pres_kbd_erase)

lemma pres_kbd_char: "pres (kbd_is sh) (console_char c)"
  unfolding console_char_def input_char_def
  by (intro pres_intros pres_modify pres_kbd_consputc pres_kbd_wakeup pres_kbd_erase pres_kbd_kill_line) simp_all

lemma pres_kbd_chars: "pres (kbd_is sh) (console_chars cs d)"
  by (induction cs arbitrary: d) (auto intro!: pres_intros pres_kbd_char)

lemma pres_kbd_consoleintr: "pres (kbd_is sh) (consoleintr cs)"
  unfolding consoleintr_def procdump_def procdump_one_def
  by (intro pres_intros pres_acquire pres_release pres_cprintf pres_kbd_chars) simp_all

text \<open>Reading a finished line.\<close>

lemma read_loop_line:
  "fst (inp_abs s) = cs @ 10 # rest \<Longrightarrow> 10 \<notin> set cs \<Longrightarrow> 4 \<notin> set cs \<Longrightarrow> length cs < n \<Longrightarrow>
   \<exists>t. read_loop n first s = Ok (Some (cs @ [10])) t \<and> inp_abs t = (rest, snd (inp_abs s)) \<and> k_held t = k_held s"
proof (induction cs arbitrary: s n first)
  case Nil
  then have ne: "c_r s \<noteq> c_w s" by (auto simp: inp_abs_def)
  obtain m where n: "n = Suc m" using Nil by (cases n) auto
  have "buf_at s (c_r s) = 10" "ring_contents INPUT_BUF (c_buf s) (c_r s + 1) (c_w s) = rest"
    using Nil(1) ring_get [OF ne, of INPUT_BUF "c_buf s"] by (simp_all add: inp_abs_def buf_at_def)
  then show ?case using ne n by (simp add: inp_abs_def kdefs)
next
  case (Cons c cs)
  then have ne: "c_r s \<noteq> c_w s" by (auto simp: inp_abs_def)
  obtain m where n: "n = Suc m" using Cons.prems by (cases n) auto
  let ?s = "s\<lparr>c_r := c_r s + 1\<rparr>"
  have b: "buf_at s (c_r s) = c" "fst (inp_abs ?s) = cs @ 10 # rest"
    using Cons.prems(1) ring_get [OF ne, of INPUT_BUF "c_buf s"] by (simp_all add: inp_abs_def buf_at_def)
  obtain t where "read_loop m False ?s = Ok (Some (cs @ [10])) t" "inp_abs t = (rest, snd (inp_abs ?s))" "k_held t = k_held ?s"
    using Cons.IH [OF b(2), of m False] Cons.prems n by auto
  then show ?case using ne n b(1) Cons.prems by (simp add: inp_abs_def kdefs)
qed

text \<open>Every printable character is on some key.\<close>

lemma printable_typeable:
  assumes "printable c"
  shows "typeable c"
proof -
  have "32 \<le> unat c" "unat c < 127" using assms by (simp_all add: printable_def word_le_nat_alt word_less_nat_alt)
  then have "unat c \<in> set (10 # [32..<127])" by (simp del: upt_rec_numeral)
  then have "of_nat (unat c) \<in> set (map fst us_layout)" using layout_printable unfolding list_all_iff by blast
  then show ?thesis by (simp add: typeable_def map_of_eq_None_iff)
qed

lemma newline_typeable: "typeable 10"
  using layout_printable by (simp add: typeable_def map_of_eq_None_iff)

text \<open>
  C32: A line typed at the keyboard is the line the console delivers.  The scan codes a US keyboard sends when
  the keys of a line of fewer than 128 printable characters are pressed and released, with the shift key where it is
  needed, and then the enter key, with neither control, shift nor caps lock on: \<^verbatim>\<open>kbdintr\<close> takes them all, leaves the
  shift state as it was and the line finished in the empty input buffer, and the read loop of
  \<^verbatim>\<open>consoleread\<close> then returns the line with its newline and leaves the buffer empty.
\<close>

theorem kbd_line_delivered:
  assumes "inp_ok s" "k_held s = []" "neutral (kb_shift s)" "inp_abs s = ([], [])"
    and "\<forall>c\<in>set line. printable c" "length line < INPUT_BUF" "kb_in s = concat (map typing (line @ [10]))"
  shows "\<exists>t. kbdintr s = Ok () t \<and> kb_in t = [] \<and> kb_shift t = kb_shift s \<and> inp_abs t = (line @ [10], [])
    \<and> k_held t = [] \<and> (\<forall>n>length line. \<exists>u. read_loop n True t = Ok (Some (line @ [10])) u \<and> inp_abs u = ([], []))"
proof -
  have "\<forall>c\<in>set (line @ [10]). typeable c" using assms(5) printable_typeable newline_typeable by auto
  then obtain cs where cs: "kbd_decode (kb_shift s) (kb_in s) = (kb_shift s, cs)" "filter (\<lambda>x. x \<noteq> 0) cs = map uint (line @ [10])"
      "\<forall>x\<in>set cs. 0 \<le> x \<and> x < 256"
    using typing_line [OF assms(3)] unfolding assms(7) by blast
  let ?s = "s\<lparr>kb_in := [], kb_shift := kb_shift s\<rparr>"
  have s': "inp_ok ?s" "inp_abs ?s = ([], [])" "k_held ?s = []" "kbd_is (kb_shift s) ?s"
    using assms(1,2,4) by (simp_all add: inp_ok_def inp_abs_def kbd_is_def)
  obtain t where t: "consoleintr cs ?s = Ok () t" "inp_abs t = fold edit_line cs ([], [])" "k_held t = []"
    using consoleintr_edit [OF s'(1,3) cs(3)] s'(2) by auto
  have "fold edit_line cs ([], []) = fold edit_line (map uint (line @ [10])) ([], [])" using fold_edit_filter [of cs] cs(2) by simp
  then have inp: "inp_abs t = (line @ [10], [])" using t(2) fold_edit_line [OF assms(5), of "[]" "[]"] edit_newline [of "[]" line] assms(6) by simp
  have "kbdintr s = Ok () t" using getcs_kbd [OF cs(1)] cs(3) t(1) by (simp add: kbdintr_def bnd_def fetch_def)
  moreover have "kbd_is (kb_shift s) t" using presD_Ok [OF pres_kbd_consoleintr t(1) s'(4)] .
  moreover have "10 \<notin> set line" "4 \<notin> set line" using assms(5) by (auto simp: printable_def)
  then have "\<exists>u. read_loop n True t = Ok (Some (line @ [10])) u \<and> inp_abs u = ([], [])" if "length line < n" for n
    using read_loop_line [of t line "[]" n True] inp that by auto
  ultimately show ?thesis using inp t(3) by (auto simp: kbd_is_def)
qed

definition demo_kbd :: kbst where
  "demo_kbd = cst.extend demo_cst \<lparr>kb_shift = 0, kb_in = concat (map typing ([72, 105] @ [10])), ur_present = False, ur_in = []\<rparr>"

theorem kbd_line_delivered_witness:
  "\<exists>t. kbdintr demo_kbd = Ok () t \<and> inp_abs t = ([72, 105, 10], [])"
  using kbd_line_delivered [of demo_kbd "[72, 105]"] demo_cst_facts
  by (auto simp: demo_kbd_def cst.defs inp_ok_def inp_abs_def neutral_def printable_def INPUT_BUF_def)

end
