(* ===== verification/Trap.thy ===== *)
theory Trap
  imports Kbd
begin

text \<open>
  Traps, \<^verbatim>\<open>trap.c\<close>: the interrupt descriptor table of \<^verbatim>\<open>tvinit\<close> and the dispatcher \<^verbatim>\<open>trap\<close> over the
  system calls and the interrupt handlers.  The addresses in \<^verbatim>\<open>vectors\<close> are generated and so an argument
  of \<^verbatim>\<open>tvinit\<close>.  \<open>t_cpu\<close> is the number of the CPU, \<open>t_cr2\<close> its fault address register, \<open>t_lapic\<close> the writes
  to its interrupt controller, oldest first.  The disk is the memory disk of \<^verbatim>\<open>memide.c\<close>.  What \<^verbatim>\<open>trap\<close> does
  after a system call or \<^verbatim>\<open>yield\<close> gave up the CPU and the process runs again is \<open>trap_syscall_end\<close> and
  \<open>trap_again\<close>.
\<close>

section \<open>Gates\<close>

record gatedesc =
  g_off_15_0 :: u32
  g_cs :: u32
  g_args :: u32
  g_rsv1 :: u32
  g_type :: u32
  g_s :: u32
  g_dpl :: u32
  g_p :: u32
  g_off_31_16 :: u32

definition STS_IG32 :: u32 where "STS_IG32 = 0xE"
definition STS_TG32 :: u32 where "STS_TG32 = 0xF"
definition SEG_KCODE :: u32 where "SEG_KCODE = 1"

definition T_SYSCALL :: u32 where "T_SYSCALL = 64"
definition T_IRQ0 :: u32 where "T_IRQ0 = 32"
definition IRQ_TIMER :: u32 where "IRQ_TIMER = 0"
definition IRQ_KBD :: u32 where "IRQ_KBD = 1"
definition IRQ_COM1 :: u32 where "IRQ_COM1 = 4"
definition IRQ_IDE :: u32 where "IRQ_IDE = 14"
definition IRQ_SPURIOUS :: u32 where "IRQ_SPURIOUS = 31"

definition SETGATE :: "bool \<Rightarrow> u32 \<Rightarrow> u32 \<Rightarrow> u32 \<Rightarrow> gatedesc" where
  "SETGATE istrap sel off d = \<lparr>g_off_15_0 = off AND 0xFFFF, g_cs = sel, g_args = 0, g_rsv1 = 0,
     g_type = (if istrap then STS_TG32 else STS_IG32), g_s = 0, g_dpl = d, g_p = 1, g_off_31_16 = drop_bit 16 off\<rparr>"

definition tvinit :: "(nat \<Rightarrow> u32) \<Rightarrow> gatedesc list" where
  "tvinit vectors =
     (map (\<lambda>i. SETGATE False (push_bit 3 SEG_KCODE) (vectors i) 0) [0..<256])
       [unat T_SYSCALL := SETGATE True (push_bit 3 SEG_KCODE) (vectors (unat T_SYSCALL)) (ucast DPL_USER)]"

section \<open>The dispatcher\<close>

record tst = kbst +
  t_cpu :: nat
  t_cr2 :: u32
  t_lapic :: "(nat \<times> u32) list"

definition lapiceoi :: "(unit, 'z tst_scheme) kop" where
  "lapiceoi = modify (\<lambda>s. s\<lparr>t_lapic := t_lapic s @ [(0x00B0 div 4, 0)]\<rparr>)"

definition mem_ideintr :: "(unit, 'z tst_scheme) kop" where
  "mem_ideintr = ret ()"

definition user_mode :: "trapframe \<Rightarrow> bool" where
  "user_mode tf \<longleftrightarrow> tf_cs tf AND 3 = DPL_USER"

definition exit_if_killed :: "(unit, 'z tst_scheme) kop" where
  "exit_if_killed = bnd curproc (\<lambda>p. bnd (proc_get p p_killed) (\<lambda>k. whenk k exit_proc))"

definition trap_syscall_end :: "(unit, 'z tst_scheme) kop" where
  "trap_syscall_end = exit_if_killed"

definition trap_syscall :: "trapframe \<Rightarrow> (unit, 'z tst_scheme) kop" where
  "trap_syscall tf =
     andthen exit_if_killed
     (bnd curproc (\<lambda>p. andthen (proc_upd p (\<lambda>q. q\<lparr>p_tf := tf\<rparr>))
     (andthen (syscall devsw_read devsw_write) trap_syscall_end)))"

definition timer_tick :: "(unit, 'z tst_scheme) kop" where
  "timer_tick =
     andthen (acquire TicksLock)
     (andthen (modify (\<lambda>s. s\<lparr>k_ticks := k_ticks s + 1\<rparr>))
     (andthen (wakeup ChTicks)
     (release TicksLock)))"

definition trap_default :: "trapframe \<Rightarrow> (unit, 'z tst_scheme) kop" where
  "trap_default tf =
     bnd myproc (\<lambda>c. bnd (fetch t_cpu) (\<lambda>cpu. bnd (fetch t_cr2) (\<lambda>cr2.
     case (if tf_cs tf AND 3 = 0 then None else c) of
       None \<Rightarrow>
         andthen (cprintf (''unexpected trap %d from cpu %d eip %x (cr2=0x%x)'' @ nl)
           [AInt (tf_trapno tf), AInt (of_nat cpu), AInt (tf_eip tf), AInt cr2])
         (panic ''trap'')
     | Some p \<Rightarrow>
         bnd (proc_get p id) (\<lambda>q.
         andthen (cprintf (''pid %d %s: trap %d err %d on cpu %d eip 0x%x addr 0x%x--kill proc'' @ nl)
           [AInt (word_of_int (p_pid q)), AStr (p_name q), AInt (tf_trapno tf), AInt (tf_err tf), AInt (of_nat cpu),
            AInt (tf_eip tf), AInt cr2])
         (proc_upd p (\<lambda>q. q\<lparr>p_killed := True\<rparr>))))))"

definition trap_device :: "trapframe \<Rightarrow> (unit, 'z tst_scheme) kop" where
  "trap_device tf =
     (let n = tf_trapno tf in
      if n = T_IRQ0 + IRQ_TIMER then
        bnd (fetch t_cpu) (\<lambda>cpu. andthen (whenk (cpu = 0) timer_tick) lapiceoi)
      else if n = T_IRQ0 + IRQ_IDE then andthen mem_ideintr lapiceoi
      else if n = T_IRQ0 + IRQ_IDE + 1 then ret ()
      else if n = T_IRQ0 + IRQ_KBD then andthen kbdintr lapiceoi
      else if n = T_IRQ0 + IRQ_COM1 then andthen uartintr lapiceoi
      else if n = T_IRQ0 + 7 \<or> n = T_IRQ0 + IRQ_SPURIOUS then
        bnd (fetch t_cpu) (\<lambda>cpu.
        andthen (cprintf (''cpu%d: spurious interrupt at %x:%x'' @ nl) [AInt (of_nat cpu), AInt (ucast (tf_cs tf)), AInt (tf_eip tf)])
        lapiceoi)
      else trap_default tf)"

text \<open>Force the exit of a killed process that was in user space.\<close>

definition trap_killed :: "trapframe \<Rightarrow> (unit, 'z tst_scheme) kop" where
  "trap_killed tf = bnd myproc (\<lambda>c. case c of None \<Rightarrow> ret ()
     | Some p \<Rightarrow> bnd (proc_get p p_killed) (\<lambda>k. whenk (k \<and> user_mode tf) exit_proc))"

definition trap_yield :: "trapframe \<Rightarrow> (unit, 'z tst_scheme) kop" where
  "trap_yield tf = bnd myproc (\<lambda>c. case c of None \<Rightarrow> ret ()
     | Some p \<Rightarrow> bnd (proc_get p p_state) (\<lambda>st. whenk (st = RUNNING \<and> tf_trapno tf = T_IRQ0 + IRQ_TIMER) yield_cpu))"

definition trap :: "trapframe \<Rightarrow> (unit, 'z tst_scheme) kop" where
  "trap tf =
     (if tf_trapno tf = T_SYSCALL then trap_syscall tf
      else andthen (trap_device tf)
        (andthen (trap_killed tf)
        (andthen (trap_yield tf)
        (trap_killed tf))))"

definition trap_again :: "trapframe \<Rightarrow> (unit, 'z tst_scheme) kop" where
  "trap_again tf = andthen (release PtableLock) (trap_killed tf)"

section \<open>Killed processes do not return to user space\<close>

lemma exit_tail_not_Ok: "exit_tail me s \<noteq> Ok x t"
  by (auto simp: exit_tail_def bnd_eq_Ok andthen_eq_Ok panic_def)

lemma exit_not_Ok: "exit_proc s \<noteq> Ok x t"
  by (auto simp: exit_proc_def bnd_eq_Ok andthen_eq_Ok exit_tail_not_Ok panic_def split: if_splits)

definition alive :: "'z kst_scheme \<Rightarrow> bool" where
  "alive s \<longleftrightarrow> (\<forall>p. k_cur s = Some p \<longrightarrow> \<not> p_killed (k_procs s ! p))"

lemma exit_if_killed_alive: "exit_if_killed s = Ok x t \<Longrightarrow> alive t"
  by (auto simp: exit_if_killed_def bnd_eq_Ok curproc_eq_Ok proc_get_def fetch_def whenk_def alive_def exit_not_Ok ret_def split: if_splits)

lemma trap_killed_alive: "trap_killed tf s = Ok x t \<Longrightarrow> user_mode tf \<Longrightarrow> alive t"
  by (auto simp: trap_killed_def bnd_eq_Ok myproc_def proc_get_def fetch_def whenk_def alive_def exit_not_Ok ret_def split: if_splits option.splits)

section \<open>The clock\<close>

lemma timer_tick_Ok:
  assumes "k_held s = []"
  shows "timer_tick s = Ok () (s\<lparr>k_ticks := k_ticks s + 1, k_procs := map (wake ChTicks) (k_procs s)\<rparr>)"
proof -
  have "s\<lparr>k_held := [], k_ticks := a, k_procs := b\<rparr> = s\<lparr>k_ticks := a, k_procs := b\<rparr>" for a b using assms by (cases s) simp
  then show ?thesis using assms by (simp add: timer_tick_def wakeup_Ok andthen_def bnd_def modify_def)
qed

text \<open>What a clock interrupt does to the table: CPU 0 wakes the sleepers, and the running process is to give way.\<close>

definition ticked :: "'z tst_scheme \<Rightarrow> proc list" where
  "ticked s = (if t_cpu s = 0 then map (wake ChTicks) (k_procs s) else k_procs s)"

lemma trap_device_timer:
  assumes "k_held s = []" "tf_trapno tf = T_IRQ0 + IRQ_TIMER"
  shows "trap_device tf s = Ok () (s\<lparr>k_ticks := (if t_cpu s = 0 then k_ticks s + 1 else k_ticks s), k_procs := ticked s,
     t_lapic := t_lapic s @ [(0x2C, 0)]\<rparr>)"
proof -
  have "s\<lparr>k_ticks := k_ticks s, k_procs := k_procs s\<rparr> = s" by simp
  then show ?thesis
    using assms timer_tick_Ok [OF assms(1)] by (simp add: trap_device_def lapiceoi_def ticked_def kdefs)
qed

text \<open>
  C29: The clock interrupt.  When it finds a process running that has not been killed, CPU 0 advances
  \<^verbatim>\<open>ticks\<close> and makes exactly the processes asleep on it runnable, the interrupt is acknowledged once, and the
  process is left runnable with the CPU given up to the scheduler, which holds the table lock and nothing
  else; every other process is as it was.  Switched back in, it returns unless it was killed.
\<close>

theorem timer_preempts:
  fixes s :: "'z tst_scheme"
  assumes "k_held s = []" "k_cur s = Some p" "p < length (k_procs s)" "p_state (k_procs s ! p) = RUNNING"
    "\<not> p_killed (k_procs s ! p)" "tf_trapno tf = T_IRQ0 + IRQ_TIMER"
  shows "\<exists>t. trap tf s = Blocked t
    \<and> t = s\<lparr>k_ticks := k_ticks t, k_procs := k_procs t, k_held := [PtableLock], t_lapic := t_lapic s @ [(0x2C, 0)]\<rparr>
    \<and> k_ticks t = (if t_cpu s = 0 then k_ticks s + 1 else k_ticks s)
    \<and> k_procs t ! p = (k_procs s ! p)\<lparr>p_state := RUNNABLE\<rparr>
    \<and> (\<forall>i<length (k_procs s). i \<noteq> p \<longrightarrow> k_procs t ! i =
         (if t_cpu s = 0 \<and> p_state (k_procs s ! i) = SLEEPING \<and> p_chan (k_procs s ! i) = ChTicks
          then (k_procs s ! i)\<lparr>p_state := RUNNABLE\<rparr> else k_procs s ! i))
    \<and> (\<forall>u :: 'z tst_scheme. k_held u = [PtableLock] \<and> k_cur u = Some p \<and> \<not> p_killed (k_procs u ! p) \<longrightarrow> trap_again tf u = Ok () (u\<lparr>k_held := []\<rparr>))"
proof -
  let ?u = "s\<lparr>k_ticks := (if t_cpu s = 0 then k_ticks s + 1 else k_ticks s), k_procs := ticked s, t_lapic := t_lapic s @ [(0x2C, 0)]\<rparr>"
  have d: "trap_device tf s = Ok () ?u" by (rule trap_device_timer [OF assms(1,6)])
  have p: "ticked s ! p = k_procs s ! p" "length (ticked s) = length (k_procs s)" using assms(3,4) by (simp_all add: ticked_def wake_def)
  let ?t = "?u\<lparr>k_procs := (ticked s)[p := (k_procs s ! p)\<lparr>p_state := RUNNABLE\<rparr>], k_held := [PtableLock]\<rparr>"
  have k: "trap_killed tf ?u = Ok () ?u" using assms p by (simp add: trap_killed_def myproc_def proc_get_def kdefs)
  have y: "trap_yield tf ?u = Blocked ?t"
    using assms p by (simp add: trap_yield_def myproc_def yield_cpu_def sched_def swtch_def holding_def proc_get_def proc_upd_def curproc_def kdefs)
  have "tf_trapno tf \<noteq> T_SYSCALL" using assms(6) by (simp add: T_IRQ0_def IRQ_TIMER_def T_SYSCALL_def)
  then have t: "trap tf s = Blocked ?t" using d k y by (simp add: trap_def andthen_def bnd_def)
  have a: "trap_again tf u = Ok () (u\<lparr>k_held := []\<rparr>)" if "k_held u = [PtableLock]" "k_cur u = Some p" "\<not> p_killed (k_procs u ! p)" for u :: "'z tst_scheme"
    using that by (simp add: trap_again_def trap_killed_def myproc_def proc_get_def kdefs)
  have "(ticked s) ! i = (if t_cpu s = 0 \<and> p_state (k_procs s ! i) = SLEEPING \<and> p_chan (k_procs s ! i) = ChTicks
          then (k_procs s ! i)\<lparr>p_state := RUNNABLE\<rparr> else k_procs s ! i)" if "i < length (k_procs s)" for i
    using that by (simp add: ticked_def wake_def)
  then show ?thesis using t a p assms(3) by (intro exI [of _ ?t]) simp
qed

text \<open>
  C30: A killed process does not get back to user space.  Whenever \<^verbatim>\<open>trap\<close> returns to user code, at once, after
  it has yielded, or after a system call that slept, the running process is not marked killed.
\<close>

theorem trap_returns_alive:
  assumes "user_mode tf"
  shows "(trap tf s = Ok () t \<longrightarrow> alive t) \<and> (trap_again tf s = Ok () t \<longrightarrow> alive t) \<and> (trap_syscall_end s = Ok () t \<longrightarrow> alive t)"
proof (intro conjI impI)
  assume "trap tf s = Ok () t"
  then show "alive t" using trap_killed_alive [OF _ assms] exit_if_killed_alive
    by (auto simp: trap_def trap_syscall_def trap_syscall_end_def andthen_eq_Ok bnd_eq_Ok split: if_splits)
next
  assume "trap_again tf s = Ok () t"
  then show "alive t" using trap_killed_alive [OF _ assms] by (auto simp: trap_again_def andthen_eq_Ok)
next
  assume "trap_syscall_end s = Ok () t"
  then show "alive t" using exit_if_killed_alive by (simp add: trap_syscall_end_def)
qed

definition fault :: "u32 \<Rightarrow> bool" where
  "fault n \<longleftrightarrow> n \<noteq> T_SYSCALL \<and> n \<notin> {T_IRQ0 + IRQ_TIMER, T_IRQ0 + IRQ_IDE, T_IRQ0 + IRQ_IDE + 1, T_IRQ0 + IRQ_KBD,
     T_IRQ0 + IRQ_COM1, T_IRQ0 + 7, T_IRQ0 + IRQ_SPURIOUS}"

text \<open>The line printed for a fault of process \<open>q\<close>.\<close>

definition fault_line :: "trapframe \<Rightarrow> proc \<Rightarrow> nat \<Rightarrow> u32 \<Rightarrow> string" where
  "fault_line tf q cpu cr2 = ''pid '' @ printint (word_of_int (p_pid q)) 10 True @ '' '' @ p_name q
     @ '': trap '' @ printint (tf_trapno tf) 10 True @ '' err '' @ printint (tf_err tf) 10 True
     @ '' on cpu '' @ printint (of_nat cpu) 10 True @ '' eip 0x'' @ printint (tf_eip tf) 16 False
     @ '' addr 0x'' @ printint cr2 16 False @ ''--kill proc'' @ nl"

text \<open>
  C31: Faults.  A trap that is neither a system call nor a device interrupt ends the process when it comes
  from user space: one line is printed, with the pid and the name of the process, the number and the error code of the
  trap, the CPU, and in hexadecimal the instruction and the faulting address; the process is marked killed and made to
  exit, and nothing else has changed before.  In the kernel, or with no process running, it stops the machine.
\<close>

theorem trap_fault:
  assumes "fault (tf_trapno tf)" "k_held s = []"
  shows "(user_mode tf \<and> k_cur s = Some p \<and> p < length (k_procs s) \<longrightarrow>
      trap tf s = exit_proc (s\<lparr>k_out := k_out s @ fault_line tf (k_procs s ! p) (t_cpu s) (t_cr2 s),
        k_procs := (k_procs s)[p := (k_procs s ! p)\<lparr>p_killed := True\<rparr>]\<rparr>))
    \<and> (tf_cs tf AND 3 = 0 \<or> k_cur s = None \<longrightarrow> trap tf s = Panic ''trap'')"
proof (intro conjI impI)
  assume u: "user_mode tf \<and> k_cur s = Some p \<and> p < length (k_procs s)"
  let ?args = "[AInt (word_of_int (p_pid (k_procs s ! p))), AStr (p_name (k_procs s ! p)), AInt (tf_trapno tf), AInt (tf_err tf),
    AInt (of_nat (t_cpu s)), AInt (tf_eip tf), AInt (t_cr2 s)]"
  let ?msg = "fault_line tf (k_procs s ! p) (t_cpu s) (t_cr2 s)"
  have m: "cformat (''pid %d %s: trap %d err %d on cpu %d eip 0x%x addr 0x%x--kill proc'' @ nl) ?args = Some ?msg"
    by (simp add: nl_def str_arg_def fault_line_def)
  let ?t = "s\<lparr>k_out := k_out s @ ?msg, k_procs := (k_procs s)[p := (k_procs s ! p)\<lparr>p_killed := True\<rparr>]\<rparr>"
  have "tf_cs tf AND 3 \<noteq> 0" using u by (auto simp: user_mode_def DPL_USER_def)
  then have "trap_default tf s = Ok () ?t"
    using u cprintf_Ok [OF assms(2) m]
    by (simp add: trap_default_def myproc_def proc_get_def proc_upd_def bnd_def fetch_def andthen_def modify_def)
  then have "trap_device tf s = Ok () ?t" using assms(1) by (simp add: trap_device_def fault_def)
  moreover have "trap_killed tf ?t = exit_proc ?t" using u by (simp add: trap_killed_def myproc_def proc_get_def kdefs)
  moreover have "andthen exit_proc k ?t = exit_proc ?t" for k :: "(unit, 'a tst_scheme) kop"
    using exit_not_Ok by (auto simp: andthen_def bnd_def split: outcome.split)
  ultimately show "trap tf s = exit_proc ?t" using assms(1) by (simp add: trap_def fault_def andthen_def bnd_def)
next
  assume k: "tf_cs tf AND 3 = 0 \<or> k_cur s = None"
  obtain msg where m: "cformat (''unexpected trap %d from cpu %d eip %x (cr2=0x%x)'' @ nl)
      [AInt (tf_trapno tf), AInt (of_nat (t_cpu s)), AInt (tf_eip tf), AInt (t_cr2 s)] = Some msg"
    by (simp add: nl_def)
  have "trap_default tf s = Panic ''trap''"
    using k cprintf_Ok [OF assms(2) m] by (auto simp: trap_default_def myproc_def bnd_def fetch_def andthen_def panic_def)
  then show "trap tf s = Panic ''trap''" using assms(1) by (simp add: trap_def trap_device_def fault_def andthen_def bnd_def)
qed

text \<open>
  C33: The interrupt descriptor table.  Each of the 256 gates is present, leads to its vector in the kernel's
  code segment and clears the interrupt flag, and user code cannot raise it; the exception is the
  system call gate, which user code may raise and which leaves interrupts on.
\<close>

theorem tvinit_gates:
  "length (tvinit vectors) = 256 \<and> (\<forall>i<256. let g = tvinit vectors ! i in g_p g = 1 \<and> g_s g = 0 \<and> g_cs g = 8
     \<and> push_bit 16 (g_off_31_16 g) OR g_off_15_0 g = vectors i
     \<and> (if i = 64 then g_dpl g = 3 \<and> g_type g = STS_TG32 else g_dpl g = 0 \<and> g_type g = STS_IG32))"
proof -
  have m: "(0xFFFF :: u32) = mask 16" by (simp add: mask_eq_exp_minus_1)
  have off: "push_bit 16 (drop_bit 16 x) OR (x AND 0xFFFF) = x" for x :: u32
    unfolding m by (rule bit_word_eqI) (auto simp: bit_simps)
  have "length (tvinit vectors) = 256" by (simp add: tvinit_def del: upt_rec_numeral)
  moreover have "tvinit vectors ! i = SETGATE (i = 64) 8 (vectors i) (if i = 64 then 3 else 0)" if "i < 256" for i
    using that by (simp add: tvinit_def T_SYSCALL_def SEG_KCODE_def DPL_USER_def nth_list_update del: upt_rec_numeral)
  ultimately show ?thesis by (simp add: SETGATE_def off Let_def)
qed

section \<open>Witnesses\<close>

definition demo_trap :: tst where
  "demo_trap = (kbst.extend demo_kbd \<lparr>t_cpu = 0, t_cr2 = 0, t_lapic = []\<rparr>)
     \<lparr>k_procs := [proc0\<lparr>p_state := RUNNING, p_pid := 3\<rparr>, proc0\<lparr>p_state := SLEEPING, p_chan := ChTicks\<rparr>, proc0\<lparr>p_state := SLEEPING, p_chan := ChLog\<rparr>],
      k_cur := Some 0\<rparr>"

lemma demo_trap_facts:
  "k_held demo_trap = []" "k_cur demo_trap = Some 0" "t_cpu demo_trap = 0"
  "k_procs demo_trap = [proc0\<lparr>p_state := RUNNING, p_pid := 3\<rparr>, proc0\<lparr>p_state := SLEEPING, p_chan := ChTicks\<rparr>, proc0\<lparr>p_state := SLEEPING, p_chan := ChLog\<rparr>]"
  using demo_cst_facts(1) by (simp_all add: demo_trap_def demo_kbd_def cst.defs kbst.defs)

theorem timer_preempts_witness:
  "\<exists>t. trap (tf0\<lparr>tf_trapno := 32\<rparr>) demo_trap = Blocked t \<and> k_ticks t = k_ticks demo_trap + 1
     \<and> map p_state [k_procs t ! 0, k_procs t ! 1, k_procs t ! 2] = [RUNNABLE, RUNNABLE, SLEEPING]"
  using timer_preempts [of demo_trap 0 "tf0\<lparr>tf_trapno := 32\<rparr>"] demo_trap_facts
  by (auto simp: T_IRQ0_def IRQ_TIMER_def proc0_def)

theorem trap_returns_alive_witness:
  "\<exists>t. trap_again (tf0\<lparr>tf_cs := 27\<rparr>) (demo_trap\<lparr>k_held := [PtableLock]\<rparr>) = Ok () t \<and> alive t"
proof -
  let ?s = "demo_trap\<lparr>k_held := [PtableLock]\<rparr>"
  have "trap_again (tf0\<lparr>tf_cs := 27\<rparr>) ?s = Ok () (?s\<lparr>k_held := []\<rparr>)"
    using demo_trap_facts by (simp add: trap_again_def trap_killed_def myproc_def proc_get_def kdefs proc0_def)
  then show ?thesis using trap_returns_alive [of "tf0\<lparr>tf_cs := 27\<rparr>" ?s "?s\<lparr>k_held := []\<rparr>"]
    by (simp add: user_mode_def DPL_USER_def)
qed

theorem trap_fault_witness:
  "\<exists>msg. trap (tf0\<lparr>tf_trapno := 14, tf_cs := 27\<rparr>) demo_trap
     = exit_proc (demo_trap\<lparr>k_out := k_out demo_trap @ msg, k_procs := (k_procs demo_trap)[0 := (k_procs demo_trap ! 0)\<lparr>p_killed := True\<rparr>]\<rparr>)"
  using trap_fault [of "tf0\<lparr>tf_trapno := 14, tf_cs := 27\<rparr>" demo_trap 0] demo_trap_facts
  by (auto simp: fault_def user_mode_def DPL_USER_def T_SYSCALL_def T_IRQ0_def IRQ_TIMER_def IRQ_IDE_def IRQ_KBD_def IRQ_COM1_def IRQ_SPURIOUS_def)

theorem tvinit_gates_witness:
  "g_dpl (tvinit (\<lambda>i. of_nat i) ! 64) = 3 \<and> g_dpl (tvinit (\<lambda>i. of_nat i) ! 14) = 0"
  using tvinit_gates [of "\<lambda>i. of_nat i"] by (simp add: Let_def)

end
