(* ===== verification/Spec2Isabelle.thy ===== *)
theory Spec2Isabelle
  imports Spinlock Sleepwake Logcrash Fsdata Mkimage Fspath Procinv Syscall Ide Grep Shrun Lsh Lr0 Oldproc Cmos Mp Boot Uprogs Vmmap Umalloc Trap
begin

text \<open>
  Verification library of the xv6 kernel of \<^verbatim>\<open>src/OperatingSystem/HW5\<close> (a priority scheduler and the
  calls \<^verbatim>\<open>cps\<close> and \<^verbatim>\<open>chpr\<close> added to the teaching kernel) and of the user programs of that directory that
  have logic of their own.  File names below are relative to that directory.

  \<^bold>\<open>The program.\<close>  User programs enter the kernel through \<^verbatim>\<open>syscall.c\<close>, which fetches the arguments
  from user memory and dispatches to \<^verbatim>\<open>sysproc.c\<close> and \<^verbatim>\<open>sysfile.c\<close>.  Process calls work on the process
  table of \<^verbatim>\<open>proc.c\<close> and on address spaces (\<^verbatim>\<open>vm.c\<close>) made of the pages of \<^verbatim>\<open>kalloc.c\<close>.  File calls go
  through open files (\<^verbatim>\<open>file.c\<close>) to pipes (\<^verbatim>\<open>pipe.c\<close>), to the console (\<^verbatim>\<open>console.c\<close>) or to the file system
  (\<^verbatim>\<open>fs.c\<close>), which updates blocks inside transactions of the log (\<^verbatim>\<open>log.c\<close>) over the buffer cache
  (\<^verbatim>\<open>bio.c\<close>) and a disk driver (\<^verbatim>\<open>memide.c\<close>, \<^verbatim>\<open>ide.c\<close>).  All of them use spin locks (\<^verbatim>\<open>spinlock.c\<close>),
  sleep locks (\<^verbatim>\<open>sleeplock.c\<close>) and \<^verbatim>\<open>sleep\<close> and \<^verbatim>\<open>wakeup\<close>.

  \<^bold>\<open>The model.\<close>  A kernel routine is a function from a state to an outcome (\<open>Kprelude\<close>): \<open>Ok\<close> with
  its value and the new state, \<open>Panic\<close> with the message, or \<open>Blocked\<close> with the state in which it gave up
  the CPU in \<^verbatim>\<open>sched\<close>; what the routine does after it is switched back in is a definition of its own, with
  the suffix \<open>_again\<close> or \<open>_resume\<close>.  The state is one record that grows with the components, so a
  routine of one component runs unchanged on the state of its clients: \<open>kst\<close> (process table, held
  locks, output) \<open>\<subset>\<close> \<open>bst\<close> (buffers, disk) \<open>\<subset>\<close> \<open>lst\<close> (log) \<open>\<subset>\<close> \<open>fsst\<close> (superblock, inode cache) \<open>\<subset>\<close>
  \<open>mst\<close> (memory, free list) \<open>\<subset>\<close> pipes and files \<open>\<subset>\<close> \<open>xst\<close> (linker symbols) \<open>\<subset>\<close> \<open>cst\<close> (console).  C
  integers keep their width as words wherever they may wrap; pointers to table entries are indices;
  pointers into memory are 32-bit words and memory is a function from words to bytes.

  \<^bold>\<open>Theories and what they show.\<close>

  \<^item> \<open>Kprelude\<close>, \<open>Kpres\<close>: outcomes, sequencing, weakest preconditions (\<open>wp_rules\<close>) and preservation
    of a state predicate (\<open>pres_intros\<close>).  \<open>Bytes\<close>: little-endian loads and stores.  \<open>Dlist_Links\<close>:
    doubly linked lists.  \<open>Ring\<close>: ring buffers with free-running counters.
  \<^item> \<open>Spinlock\<close> (\<^verbatim>\<open>spinlock.c\<close>): a step relation that interleaves any number of CPUs at the atomic
    operations of \<^verbatim>\<open>acquire\<close> and \<^verbatim>\<open>release\<close>; mutual exclusion, interrupts off from \<^verbatim>\<open>acquire\<close> until after the store
    that frees the lock, nesting of \<^verbatim>\<open>pushcli\<close> and \<^verbatim>\<open>popcli\<close>.  \<open>Kstate\<close> has the one-CPU view the other components use.  \<open>Sleeplock\<close>
    (\<^verbatim>\<open>sleeplock.c\<close>): the locale \<open>sleeplock_field\<close>, interpreted for buffers and for inodes.
  \<^item> \<open>Proc\<close>, \<open>Proclife\<close>, \<open>Procinv\<close> (\<^verbatim>\<open>proc.c\<close>): the scheduler picks a process of highest priority,
    wherever in the table its pass has got to, exit hands children over, live pids stay distinct under every sequence of
    operations from boot until the 32-bit counter of pids is used up.  \<open>Sleepwake\<close>: the steps of \<^verbatim>\<open>sleep\<close> and of the
    \<^verbatim>\<open>wakeup\<close> of any number of other CPUs, interleaved arbitrarily; no wake-up is lost and there is no deadlock.
  \<^item> \<open>Bio\<close>, \<open>Bufuse\<close> (\<^verbatim>\<open>bio.c\<close> on \<^verbatim>\<open>memide.c\<close>): the cache invariant, the contents \<^verbatim>\<open>bread\<close> delivers, the
    recycling order, the panic when all buffers are in use.  \<open>Ide\<close> (\<^verbatim>\<open>ide.c\<close>): the request queue
    and the drives, which act only on the registers the driver programs; every request is served, and its data reach the
    sector or the buffer.
  \<^item> \<open>Log\<close>, \<open>Txn\<close>, \<open>Logcrash\<close> (\<^verbatim>\<open>log.c\<close>): the order of the writes of a commit, absorption, and crash
    atomicity for crashes after any of the disk writes a run of \<^verbatim>\<open>commit\<close> makes, and of those the recoveries after it
    make; three operations that \<^verbatim>\<open>begin_op\<close> lets in can overrun the log.
  \<^item> \<open>Fs\<close>, \<open>Fsmeta\<close>, \<open>Fsdata\<close>, \<open>Fspath\<close> (\<^verbatim>\<open>fs.c\<close>): block allocator, on-disk inodes, reading a file
    through direct and indirect blocks, inode cache, path elements, directory entries.
  \<^item> \<open>Cstring\<close> (\<^verbatim>\<open>string.c\<close>): overlap-safe copies, the word-wise fill against the byte-wise one,
    bounded string copies.  \<open>Kformat\<close> (\<^verbatim>\<open>console.c\<close>, \<^verbatim>\<open>printf.c\<close>, \<^verbatim>\<open>ulib.c\<close>): number formatting and its
    inverse.
  \<^item> \<open>Kalloc\<close> (\<^verbatim>\<open>kalloc.c\<close>): the locale \<open>page_allocator\<close> states the laws clients rely on; its
    interpretation \<open>kmem\<close> discharges them for the free list threaded through the free pages.  \<open>Vm\<close>,
    \<open>Vmframe\<close>, \<open>Vmmap\<close> (\<^verbatim>\<open>vm.c\<close>): page tables in memory; \<^verbatim>\<open>mappages\<close> against the translation the hardware
    does; the locale \<open>mem_frame\<close> (what memory management leaves alone) carries the invariants of
    \<open>Procinv\<close>.
  \<^item> \<open>Pipe\<close>, \<open>File\<close> (\<^verbatim>\<open>pipe.c\<close>, \<^verbatim>\<open>file.c\<close>): pipes refine a bounded queue (locale \<open>ring\<close>, interpreted as
    \<open>pipe_ring\<close> and, in \<open>Console\<close>, as \<open>input_ring\<close>); reference counts of open files.
  \<^item> \<open>Sysarg\<close>, \<open>Exec\<close>, \<open>Sysfile\<close>, \<open>Syscall\<close> (\<^verbatim>\<open>syscall.c\<close>, \<^verbatim>\<open>exec.c\<close>, \<^verbatim>\<open>sysfile.c\<close>, \<^verbatim>\<open>sysproc.c\<close>): every handler
    and the dispatcher; arguments are taken from inside the process only.
  \<^item> \<open>Console\<close> (\<^verbatim>\<open>console.c\<close>, \<^verbatim>\<open>uart.c\<close>): line editing refines an editor on two lists; screen output
    stays on the screen.
  \<^item> \<open>Kbd\<close> (\<^verbatim>\<open>kbd.c\<close>, \<^verbatim>\<open>uart.c\<close>): scan codes, modifiers and the input side of the serial port; a line typed
    at a US keyboard, whose scan codes are given independently of the driver's tables, is the line the console delivers.  \<open>Trap\<close> (\<^verbatim>\<open>trap.c\<close>): the descriptor table and the
    dispatcher over all handlers; pre-emption by the clock, faults, and that a killed process does not return
    to user space.
  \<^item> \<open>Grep\<close> (\<^verbatim>\<open>grep.c\<close>): the matcher against the declarative meaning of patterns, and the line loop
    against splitting the whole input, for reads that end with a line; a shorter read loses the start of a line.  \<open>Sh\<close> (\<^verbatim>\<open>sh.c\<close>): tokenizer and parser; parsing is the inverse of
    printing and always returns.  \<open>Shrun\<close>: the interpreter and the main loop; every program gets exactly the three
    descriptors its command line says.  \<open>Umalloc\<close> (\<^verbatim>\<open>umalloc.c\<close>): the free list in address order; the blocks of a
    program stay apart whatever it does with them, and both searches end.
  \<^item> \<open>Mkfs\<close>, \<open>Mkimage\<close> (\<^verbatim>\<open>mkfs.c\<close>): the program that builds the first disk image, and that the image holds, in the
    form the kernel reads, the files it was given: the block ownership, the inodes and the bitmap.
  \<^item> \<open>Lsh\<close> (\<^verbatim>\<open>src/OperatingSystem/HW3.c\<close>): a shell on the host; it works line by line with buffers that suffice for lines of
    fewer than \<open>2^31 - 1024\<close> characters, its table of names only grows and is overrun by the eleventh entry.
  \<^item> \<open>Firstsets\<close> (\<^verbatim>\<open>src/ComplierClass/FFLR.cpp\<close>, \<^verbatim>\<open>Firstfollow.cpp\<close>): the fixed point iteration for FIRST sets ends with the
    sets its rules describe; the older program stops too early.  \<open>Lr0\<close> (\<^verbatim>\<open>FFLR.cpp\<close>, \<^verbatim>\<open>LR.cpp\<close>): closures are those of the
    textbook, the construction of the items ends and its gotos move the dot; the items of different contexts are conflated.
  \<^item> \<open>Mp\<close> (\<^verbatim>\<open>mp.c\<close>): the processors listed in the firmware's table; the scan of an unknown entry does not end.
    \<open>Boot\<close> (\<^verbatim>\<open>bootmain.c\<close>): the boot loader puts every segment of the kernel in place.  \<open>Uprogs\<close> (\<^verbatim>\<open>wc.c\<close>,
    \<^verbatim>\<open>cat.c\<close>): counting against the declarative counts, and copying.  \<open>Cmos\<close> (\<^verbatim>\<open>lapic.c\<close>): the clock is read
    consistently and decoded.
  \<^item> \<open>Oldproc\<close> (\<^verbatim>\<open>src/OperatingSystem/proc.c\<close>): the scheduler before priorities; every waiting process is served in a
    round, and with equal priorities the later scheduler makes the same choices, while a lower priority may starve.

  \<^bold>\<open>Bounds and fuel.\<close>  Walks along the buffer list and the drive's queue are bounded by \<open>NBUF\<close>: the lists
  are shown to hold each buffer once, so the walk ends at the head or at the null pointer before.  Loops
  whose counter approaches a limit are total functions with that distance as their measure.
  The parser of the shell carries fuel \<open>4 * n + 4\<close> for a line of \<open>n\<close> characters (no more than four nested
  calls between two consumed characters); its never running out is a property.  The scans
  that C code ends only by its data (\<open>strlen\<close>, the two searches of the user allocator) are partial
  functions in the option type, and that they return is proved.

  \<^bold>\<open>What is not modelled.\<close>  Assembly (\<^verbatim>\<open>swtch.S\<close>, \<^verbatim>\<open>trapasm.S\<close>, boot code) and the programming of device
  registers (\<^verbatim>\<open>lapic.c\<close>, \<^verbatim>\<open>ioapic.c\<close>, \<^verbatim>\<open>picirq.c\<close>, \<^verbatim>\<open>main.c\<close>, \<^verbatim>\<open>seginit\<close>): their effect is on hardware the model does
  not have.  Interrupts inside a kernel routine: on its CPU the critical sections run with interrupts off
  (proved in \<open>Spinlock\<close>), and what other CPUs do is explicit only in \<open>Spinlock\<close>, \<open>Sleepwake\<close> and at the
  points where a routine blocks.  The test programs (\<^verbatim>\<open>usertests.c\<close>, \<^verbatim>\<open>stressfs.c\<close>, \<^verbatim>\<open>forktest.c\<close>) run on the machine.  Of the
  C++ exercises of \<^verbatim>\<open>src/ComplierClass\<close> FIRST sets and LR(0) items have a model, FOLLOW sets do not
  (their loop reads strings behind their ends).
  The linker symbols \<^verbatim>\<open>end\<close> and \<^verbatim>\<open>data\<close>, the addresses of \<^verbatim>\<open>forkret\<close> and \<^verbatim>\<open>trapret\<close> and the bytes of
  \<^verbatim>\<open>initcode.S\<close> are components of the state; device functions of \<^verbatim>\<open>devsw\<close> are arguments.

  \<^bold>\<open>Order of the work left.\<close>  The FOLLOW sets of \<^verbatim>\<open>src/ComplierClass/FFLR.cpp\<close>, and the processes that the initialisation
  in \<^verbatim>\<open>main.c\<close> starts on the other processors.
\<close>

end
